(* ===== verification/Tab_Prelude.thy ===== *)
theory Tab_Prelude
  imports Main "HOL-Library.Word" "HOL-Library.Sublist"
begin

text \<open>
  Shared vocabulary of the development: byte strings and big-endian integers
  (the Rust \<open>to_be_bytes\<close> and \<open>from_be_bytes\<close>), Rust strings as UTF-8 byte strings with
  the \<open>str\<close> operations the code uses, the fallible result type, and the lemma collections
  the component theories extend.
\<close>

named_theorems wire_simps \<open>lengths and round trips of the byte encodings\<close>
named_theorems str_simps \<open>facts on Rust string operations\<close>

type_synonym byte = "8 word"
type_synonym bytes = "8 word list"

section \<open>Results\<close>

text \<open>\<open>Result<T, E>\<close> is the sum \<open>'e + 'a\<close>, \<open>Inl\<close> the error.\<close>

definition res_bind :: "'e + 'a \<Rightarrow> ('a \<Rightarrow> 'e + 'b) \<Rightarrow> 'e + 'b" where
  "res_bind r f = (case r of Inl e \<Rightarrow> Inl e | Inr x \<Rightarrow> f x)"

lemma res_bind_simps [simp]:
  "res_bind (Inl e) f = Inl e"
  "res_bind (Inr x) f = f x"
  by (simp_all add: res_bind_def)

lemma res_bind_Inr_iff:
  "res_bind r f = Inr y \<longleftrightarrow> (\<exists>x. r = Inr x \<and> f x = Inr y)"
  by (cases r) auto

text \<open>Where a Rust expression can panic, the outcome says so.\<close>

datatype ('e, 'a) outcome = Ok 'a | Err 'e | Panic

section \<open>Lists\<close>

text \<open>The last \<open>n\<close> elements.\<close>

definition last_n :: "nat \<Rightarrow> 'a list \<Rightarrow> 'a list" where
  "last_n n xs = drop (length xs - n) xs"

lemma length_last_n [simp]: "length (last_n n xs) = min n (length xs)"
  by (simp add: last_n_def)

lemma suffix_last_n: "suffix (last_n n xs) xs"
  by (simp add: last_n_def suffix_drop)

lemma last_n_all [simp]: "length xs \<le> n \<Longrightarrow> last_n n xs = xs"
  by (simp add: last_n_def)

lemma last_n_append [simp]: "length ys = n \<Longrightarrow> last_n n (xs @ ys) = ys"
  by (auto simp: last_n_def)

lemma last_n_last_n: "m \<le> n \<Longrightarrow> last_n m (last_n n xs) = last_n m xs"
  by (cases "length xs \<le> n") (auto simp: last_n_def min_def intro: arg_cong [of _ _ "\<lambda>k. drop k xs"])

section \<open>Rust strings\<close>

text \<open>
  A Rust \<open>str\<close> is its UTF-8 bytes, one \<open>char\<close> of HOL per byte, so \<open>length\<close> is \<open>str::len\<close>.
  A byte offset is a character boundary unless a continuation byte stands there; slicing
  anywhere else panics.
\<close>

definition is_cont :: "char \<Rightarrow> bool" where
  "is_cont c \<longleftrightarrow> 128 \<le> (of_char c :: nat) \<and> (of_char c :: nat) < 192"

definition is_char_boundary :: "string \<Rightarrow> nat \<Rightarrow> bool" where
  "is_char_boundary s i \<longleftrightarrow> i = 0 \<or> i = length s \<or> (i < length s \<and> \<not> is_cont (s ! i))"

lemma is_char_boundary_0 [simp]: "is_char_boundary s 0"
  by (simp add: is_char_boundary_def)

lemma is_char_boundary_ascii:
  "list_all (\<lambda>c. \<not> is_cont c) s \<Longrightarrow> i \<le> length s \<Longrightarrow> is_char_boundary s i"
  by (auto simp: is_char_boundary_def list_all_length)

section \<open>Big-endian integers\<close>

fun be_bytes :: "nat \<Rightarrow> nat \<Rightarrow> bytes" where
  "be_bytes 0 x = []"
| "be_bytes (Suc n) x = be_bytes n (x div 256) @ [word_of_nat x]"

fun be_fold :: "nat \<Rightarrow> bytes \<Rightarrow> nat" where
  "be_fold acc [] = acc"
| "be_fold acc (b # bs) = be_fold (acc * 256 + unat b) bs"

definition from_be :: "bytes \<Rightarrow> nat" where
  "from_be bs = be_fold 0 bs"

lemma length_be_bytes [simp, wire_simps]: "length (be_bytes n x) = n"
  by (induction n arbitrary: x) auto

text \<open>Evaluation at a numeral width.\<close>

lemma be_bytes_numeral:
  "be_bytes (numeral k) x = be_bytes (pred_numeral k) (x div 256) @ [word_of_nat x]"
  by (simp only: numeral_eq_Suc [of k] be_bytes.simps)

lemma be_fold_append: "be_fold acc (xs @ ys) = be_fold (be_fold acc xs) ys"
  by (induction xs arbitrary: acc) auto

lemma from_be_snoc: "from_be (bs @ [b]) = from_be bs * 256 + unat b"
  by (simp add: from_be_def be_fold_append)

lemma unat_byte_of_nat: "unat (word_of_nat x :: byte) = x mod 256"
  by (simp add: unat_of_nat)

lemma unat_byte_less: "unat (b :: byte) < 256"
proof -
  have "unat b < 2 ^ LENGTH(8)" by (rule unsigned_less)
  then show ?thesis by simp
qed

lemma from_be_bytes: "from_be (be_bytes n x) = x mod 256 ^ n"
proof (induction n arbitrary: x)
  case 0
  show ?case by (simp add: from_be_def)
next
  case (Suc n)
  have "x mod (256 * 256 ^ n) = 256 * (x div 256 mod 256 ^ n) + x mod 256"
    by (simp add: mod_mult2_eq)
  with Suc.IH [of "x div 256"] show ?case
    by (simp add: from_be_snoc unat_byte_of_nat)
qed

lemma be_bytes_from_be: "be_bytes (length bs) (from_be bs) = bs"
proof (induction bs rule: rev_induct)
  case Nil
  show ?case by simp
next
  case (snoc b bs)
  have "(from_be bs * 256 + unat b) div 256 = from_be bs"
    using unat_byte_less [of b] by simp
  moreover have "(word_of_nat (from_be bs * 256 + unat b) :: byte) = b"
  proof (rule word_unat_eq_iff [THEN iffD2])
    show "unat (word_of_nat (from_be bs * 256 + unat b) :: byte) = unat b"
      unfolding unat_byte_of_nat using unat_byte_less [of b] by simp
  qed
  ultimately show ?case
    using snoc.IH by (simp add: from_be_snoc)
qed

lemma from_be_less: "from_be bs < 256 ^ length bs"
proof -
  have "(x :: nat) mod 256 ^ n < 256 ^ n" for x n
    by (rule mod_less_divisor, rule zero_less_power, rule zero_less_numeral)
  then have "from_be (be_bytes (length bs) (from_be bs)) < 256 ^ length bs"
    by (simp only: from_be_bytes)
  then show ?thesis by (simp only: be_bytes_from_be)
qed

lemma be_bytes_inj:
  assumes "be_bytes n x = be_bytes n y" "x < 256 ^ n" "y < 256 ^ n"
  shows "x = y"
proof -
  have "x = from_be (be_bytes n x)" using assms(2) by (simp add: from_be_bytes)
  also have "\<dots> = from_be (be_bytes n y)" by (simp only: assms(1))
  also have "\<dots> = y" using assms(3) by (simp add: from_be_bytes)
  finally show ?thesis .
qed

text \<open>The fixed-width instances: \<open>u32\<close>, \<open>u64\<close> and the 16- and 32-byte arrays.\<close>

lemma from_be_u64 [wire_simps]:
  "word_of_nat (from_be (be_bytes 8 (unat (w :: 64 word)))) = w"
proof -
  have "unat w < 2 ^ LENGTH(64)" by (rule unsigned_less)
  then have "unat w < 256 ^ 8" by simp
  then show ?thesis by (simp add: from_be_bytes)
qed

lemma from_be_u128 [wire_simps]:
  "word_of_nat (from_be (be_bytes 16 (unat (w :: 128 word)))) = w"
proof -
  have "unat w < 2 ^ LENGTH(128)" by (rule unsigned_less)
  then have "unat w < 256 ^ 16" by simp
  then show ?thesis by (simp add: from_be_bytes)
qed

lemma from_be_u256 [wire_simps]:
  "word_of_nat (from_be (be_bytes 32 (unat (w :: 256 word)))) = w"
proof -
  have "unat w < 2 ^ LENGTH(256)" by (rule unsigned_less)
  then have "unat w < 256 ^ 32" by simp
  then show ?thesis by (simp add: from_be_bytes)
qed

lemma unat_u64_le: "unat (w :: 64 word) \<le> 2 ^ 64 - 1"
proof -
  have "unat w < 2 ^ LENGTH(64)" by (rule unsigned_less)
  then show ?thesis by simp
qed

lemma be_bytes_u256:
  assumes "length bs = 32"
  shows "be_bytes 32 (unat (word_of_nat (from_be bs) :: 256 word)) = bs"
proof -
  have "from_be bs < 2 ^ 256" using from_be_less [of bs] assms by simp
  then have "unat (word_of_nat (from_be bs) :: 256 word) = from_be bs"
    by (simp add: unat_of_nat)
  then show ?thesis using be_bytes_from_be [of bs] assms by simp
qed

end
