(* ===== verification/Framing.thy ===== *)
theory Framing
  imports Tab_Prelude
begin

text \<open>
  The interface between a wire format and the code that consumes it from a byte stream. A
  format is an encoder and a function that looks for one frame at the front of a buffer; a
  consumer drains a buffer frame by frame. The laws are the ones an incremental decoder
  relies on: an encoding is recognised whatever follows it, and more input never changes a
  verdict already reached. Everything about splitting a stream into arbitrary reads follows
  from them once, here.
\<close>

datatype ('e, 'f) scan =
    More                 \<comment> \<open>no complete frame yet\<close>
  | Bad 'e               \<comment> \<open>the front of the buffer is refused\<close>
  | Got 'f bytes         \<comment> \<open>a frame and what follows it\<close>

locale frame_format =
  fixes enc :: "'f \<Rightarrow> 'e + bytes"
    and scan :: "bytes \<Rightarrow> ('e, 'f) scan"
  assumes scan_enc: "enc f = Inr bs \<Longrightarrow> scan (bs @ rest) = Got f rest"
    and scan_shrinks: "scan buf = Got f rest \<Longrightarrow> length rest < length buf"
    and scan_Got_mono: "scan buf = Got f rest \<Longrightarrow> scan (buf @ more) = Got f (rest @ more)"
    and scan_Bad_mono: "scan buf = Bad e \<Longrightarrow> scan (buf @ more) = Bad e"
begin

lemma enc_nonempty: "enc f = Inr bs \<Longrightarrow> bs \<noteq> []"
  using scan_enc [of f bs "[]"] scan_shrinks [of bs f "[]"] by auto

lemma scan_proper_prefix:
  assumes "enc f = Inr (pre @ suf)" "suf \<noteq> []"
  shows "scan pre = More"
proof (cases "scan pre")
  case (Got g rest)
  then have "scan (pre @ suf) = Got g (rest @ suf)" by (rule scan_Got_mono)
  with scan_enc [OF assms(1), of "[]"] assms(2) show ?thesis by simp
next
  case (Bad e)
  then have "scan (pre @ suf) = Bad e" by (rule scan_Bad_mono)
  with scan_enc [OF assms(1), of "[]"] show ?thesis by simp
qed

lemma enc_prefix_free:
  assumes "enc f = Inr xs" "enc g = Inr ys" "xs @ r = ys @ s"
  shows "f = g \<and> r = s"
  using scan_enc [OF assms(1), of r] scan_enc [OF assms(2), of s] assms(3) by simp

end

lemma map_sum_Inr_Cons:
  "map_sum id ((#) f) r = Inr ys \<longleftrightarrow> (\<exists>zs. r = Inr zs \<and> ys = f # zs)"
  "map_sum id ((#) f) r = Inl e \<longleftrightarrow> r = Inl e"
  by (cases r; auto)+

text \<open>
  A consumer: \<open>drain\<close> takes every complete frame off the buffer, stops at the first refusal
  (the frames already found are lost, as the early return of the code loses them) and
  leaves what it has not consumed.
\<close>

locale frame_consumer = frame_format enc scan
  for enc :: "'f \<Rightarrow> 'e + bytes" and scan :: "bytes \<Rightarrow> ('e, 'f) scan" +
  fixes drain :: "bytes \<Rightarrow> ('e + 'f list) \<times> bytes"
  assumes drain_More: "scan buf = More \<Longrightarrow> drain buf = (Inr [], buf)"
    and drain_Bad: "scan buf = Bad e \<Longrightarrow> drain buf = (Inl e, buf)"
    and drain_Got: "scan buf = Got f rest \<Longrightarrow>
      drain buf = (map_sum id ((#) f) (fst (drain rest)), snd (drain rest))"
begin

lemma drain_leftover:
  "drain xs = (Inr fs, b) \<Longrightarrow> scan b = More"
proof (induction "length xs" arbitrary: xs fs b rule: less_induct)
  case less
  show ?case
  proof (cases "scan xs")
    case More
    with less.prems show ?thesis by (simp add: drain_More)
  next
    case (Bad e)
    with less.prems show ?thesis by (simp add: drain_Bad)
  next
    case (Got f rest)
    with less.prems obtain gs where "drain rest = (Inr gs, b)"
      by (cases "drain rest"; cases "fst (drain rest)") (auto simp: drain_Got)
    with less.hyps [of rest] scan_shrinks [OF Got] show ?thesis by blast
  qed
qed

lemma drain_none: "drain xs = (Inr [], b) \<Longrightarrow> b = xs \<and> scan xs = More"
  by (cases "scan xs")
     (auto simp: drain_More drain_Bad drain_Got map_sum_Inr_Cons)

lemma drain_one:
  assumes "drain xs = (Inr [f], b)"
  shows "scan xs = Got f b"
proof (cases "scan xs")
  case (Got g rest)
  with assms have "g = f" "fst (drain rest) = Inr []" "snd (drain rest) = b"
    by (auto simp: drain_Got map_sum_Inr_Cons)
  with drain_none [of rest b] have "rest = b" by (simp add: prod_eq_iff)
  with Got \<open>g = f\<close> show ?thesis by simp
qed (use assms in \<open>auto simp: drain_More drain_Bad\<close>)

text \<open>Reading a stream in two pieces is reading it in one.\<close>

lemma drain_append:
  "drain xs = (Inr fs, b) \<Longrightarrow>
   drain (xs @ ys) = (map_sum id ((@) fs) (fst (drain (b @ ys))), snd (drain (b @ ys)))"
proof (induction "length xs" arbitrary: xs fs b rule: less_induct)
  case less
  show ?case
  proof (cases "scan xs")
    case More
    with less.prems have "fs = []" "b = xs" by (auto simp: drain_More)
    then show ?thesis
      by (cases "drain (xs @ ys)"; cases "fst (drain (xs @ ys))") auto
  next
    case (Bad e)
    with less.prems show ?thesis by (simp add: drain_Bad)
  next
    case (Got f rest)
    with less.prems obtain gs where gs: "drain rest = (Inr gs, b)" "fs = f # gs"
      by (cases "drain rest"; cases "fst (drain rest)") (auto simp: drain_Got)
    have "drain (rest @ ys) = (map_sum id ((@) gs) (fst (drain (b @ ys))), snd (drain (b @ ys)))"
      using less.hyps [OF scan_shrinks [OF Got] gs(1)] .
    with scan_Got_mono [OF Got, of ys] gs(2) show ?thesis
      by (cases "fst (drain (b @ ys))") (auto simp: drain_Got)
  qed
qed

lemma drain_append_error:
  "drain xs = (Inl e, b) \<Longrightarrow> fst (drain (xs @ ys)) = Inl e"
proof (induction "length xs" arbitrary: xs b rule: less_induct)
  case less
  show ?case
  proof (cases "scan xs")
    case More
    with less.prems show ?thesis by (simp add: drain_More)
  next
    case (Bad e')
    with less.prems scan_Bad_mono [OF Bad, of ys] show ?thesis by (simp add: drain_Bad)
  next
    case (Got f rest)
    with less.prems have "drain rest = (Inl e, b)"
      by (cases "drain rest"; cases "fst (drain rest)") (auto simp: drain_Got)
    with less.hyps [OF scan_shrinks [OF Got]] have "fst (drain (rest @ ys)) = Inl e" by blast
    with scan_Got_mono [OF Got, of ys] show ?thesis by (simp add: drain_Got)
  qed
qed

text \<open>A stream of encodings, cut off inside the last one, yields the frames before the cut.\<close>

lemma drain_encodings:
  assumes "list_all2 (\<lambda>f bs. enc f = Inr bs) fs bss" "scan tail = More"
  shows "drain (concat bss @ tail) = (Inr fs, tail)"
  using assms(1)
proof (induction rule: list_all2_induct)
  case Nil
  show ?case using assms(2) by (simp add: drain_More)
next
  case (Cons f fs bs bss)
  from scan_enc [OF Cons.hyps(1), of "concat bss @ tail"] Cons.IH
  show ?case by (simp add: drain_Got)
qed

end

end
