(* ===== verification/Term_Protocol.thy ===== *)
theory Term_Protocol
  imports Framing
begin

text \<open>
  The versioned frames, the incremental decoder, the authentication handshake and the
  generation gate of the resident terminal helper
  (\<open>crates/tabverse-term/src/protocol.rs\<close>). A fixed-size array \<open>[u8; N]\<close> is the word of
  \<open>8 N\<close> bits whose big-endian bytes it is.
\<close>

unbundle bit_operations_syntax

section \<open>Constants, session ids and errors\<close>

definition VERSION :: byte where "VERSION = 1"
definition MAX_FRAME_BODY :: nat where "MAX_FRAME_BODY = 8 * 1024 * 1024"
definition FIXED_BODY :: nat where "FIXED_BODY = 1 + 1 + 16 + 8"
definition TOKEN_BYTES :: nat where "TOKEN_BYTES = 32"
definition NONCE_BYTES :: nat where "NONCE_BYTES = 32"
definition usize_max :: nat where "usize_max = 2 ^ 64 - 1"

lemmas proto_consts =
  VERSION_def MAX_FRAME_BODY_def FIXED_BODY_def TOKEN_BYTES_def NONCE_BYTES_def usize_max_def

type_synonym session_id = "128 word"

datatype protocol_error =
    FrameTooLarge nat
  | FrameTooShort nat
  | UnknownVersion byte
  | UnknownKind byte
  | Unauthorized
  | StaleGeneration "64 word" "64 word"
  | InvalidSessionId
  | Poisoned
  | AttachInProgress
  | NoAttachInProgress

text \<open>\<open>SessionId::to_hex\<close>: two lower-case digits per byte (\<open>{byte:02x}\<close>).\<close>

definition hex_char :: "nat \<Rightarrow> char" where
  "hex_char d = (if d < 10 then char_of (48 + d) else char_of (87 + d))"

definition byte_hex :: "byte \<Rightarrow> string" where
  "byte_hex b = [hex_char (unat b div 16), hex_char (unat b mod 16)]"

definition to_hex :: "session_id \<Rightarrow> string" where
  "to_hex sid = concat (map byte_hex (be_bytes 16 (unat sid)))"

text \<open>
  \<open>u8::from_str_radix(s, 16)\<close> of the standard library: an optional leading plus sign, then
  at least one digit of either case, with overflow checked.
\<close>

definition hex_digit :: "char \<Rightarrow> nat option" where
  "hex_digit c = (let n = of_char c in
     if 48 \<le> n \<and> n \<le> 57 then Some (n - 48)
     else if 97 \<le> n \<and> n \<le> 102 then Some (n - 87)
     else if 65 \<le> n \<and> n \<le> 70 then Some (n - 55)
     else None)"

fun radix16_acc :: "nat \<Rightarrow> string \<Rightarrow> nat option" where
  "radix16_acc acc [] = Some acc"
| "radix16_acc acc (c # cs) =
     (case hex_digit c of None \<Rightarrow> None
      | Some d \<Rightarrow> if 255 < acc * 16 + d then None else radix16_acc (acc * 16 + d) cs)"

definition u8_from_str_radix16 :: "string \<Rightarrow> nat option" where
  "u8_from_str_radix16 s = (case s of
      [] \<Rightarrow> None
    | c # cs \<Rightarrow>
        if cs = [] \<and> (c = CHR ''+'' \<or> c = CHR ''-'') then None
        else if c = CHR ''+'' then radix16_acc 0 cs
        else radix16_acc 0 s)"

text \<open>The loop of \<open>SessionId::from_hex\<close>; a slice off a character boundary panics.\<close>

fun from_hex_loop :: "string \<Rightarrow> nat list \<Rightarrow> bytes \<Rightarrow> (protocol_error, bytes) outcome" where
  "from_hex_loop s [] acc = Ok acc"
| "from_hex_loop s (i # is) acc =
     (if \<not> (is_char_boundary s (i * 2) \<and> is_char_boundary s (i * 2 + 2)) then Panic
      else case u8_from_str_radix16 (take 2 (drop (i * 2) s)) of
        None \<Rightarrow> Err InvalidSessionId
      | Some b \<Rightarrow> from_hex_loop s is (acc @ [word_of_nat b]))"

definition from_hex :: "string \<Rightarrow> (protocol_error, session_id) outcome" where
  "from_hex s =
     (if length s \<noteq> 32 then Err InvalidSessionId
      else case from_hex_loop s [0..<16] [] of
        Ok bs \<Rightarrow> Ok (word_of_nat (from_be bs))
      | Err e \<Rightarrow> Err e
      | Panic \<Rightarrow> Panic)"

section \<open>Authentication tokens\<close>

datatype auth_token = AuthToken "256 word"

fun token_bytes :: "auth_token \<Rightarrow> bytes" where
  "token_bytes (AuthToken w) = be_bytes TOKEN_BYTES (unat w)"

definition hello_payload :: "auth_token \<Rightarrow> 256 word \<Rightarrow> bytes" where
  "hello_payload tok client_nonce = token_bytes tok @ be_bytes NONCE_BYTES (unat client_nonce)"

text \<open>The constant-time comparison: every difference is folded into one byte.\<close>

fun fold_different :: "byte \<Rightarrow> bytes \<Rightarrow> bytes \<Rightarrow> byte" where
  "fold_different different (e # es) (a # as) = fold_different (different OR (e XOR a)) es as"
| "fold_different different _ _ = different"

definition token_matches :: "auth_token \<Rightarrow> bytes \<Rightarrow> bool" where
  "token_matches tok candidate =
     (if length candidate \<noteq> TOKEN_BYTES then False
      else fold_different 0 (token_bytes tok) candidate = 0)"

section \<open>Frame kinds\<close>

datatype kind =
    KHello | KWelcome | KSpawn | KInput | KOutput | KResize | KAttach | KDetach
  | KSnapshot | KExit | KList | KTerminate | KKillAll | KError

fun kind_code :: "kind \<Rightarrow> byte" where
  "kind_code KHello = 1"
| "kind_code KWelcome = 2"
| "kind_code KSpawn = 3"
| "kind_code KInput = 4"
| "kind_code KOutput = 5"
| "kind_code KResize = 6"
| "kind_code KAttach = 7"
| "kind_code KDetach = 8"
| "kind_code KSnapshot = 9"
| "kind_code KExit = 10"
| "kind_code KList = 11"
| "kind_code KTerminate = 12"
| "kind_code KKillAll = 13"
| "kind_code KError = 14"

definition kind_try_from :: "byte \<Rightarrow> protocol_error + kind" where
  "kind_try_from v =
     (if v = 1 then Inr KHello
      else if v = 2 then Inr KWelcome
      else if v = 3 then Inr KSpawn
      else if v = 4 then Inr KInput
      else if v = 5 then Inr KOutput
      else if v = 6 then Inr KResize
      else if v = 7 then Inr KAttach
      else if v = 8 then Inr KDetach
      else if v = 9 then Inr KSnapshot
      else if v = 10 then Inr KExit
      else if v = 11 then Inr KList
      else if v = 12 then Inr KTerminate
      else if v = 13 then Inr KKillAll
      else if v = 14 then Inr KError
      else Inl (UnknownKind v))"

section \<open>Frames and their encoding\<close>

record frame =
  f_kind :: kind
  f_session_id :: session_id
  f_generation :: "64 word"
  f_payload :: bytes

definition frame_new :: "kind \<Rightarrow> session_id \<Rightarrow> 64 word \<Rightarrow> bytes \<Rightarrow> frame" where
  "frame_new k sid g p = \<lparr>f_kind = k, f_session_id = sid, f_generation = g, f_payload = p\<rparr>"

definition encode :: "frame \<Rightarrow> protocol_error + bytes" where
  "encode f =
     (let body_len = FIXED_BODY + length (f_payload f) in
      if usize_max < body_len then Inl (FrameTooLarge usize_max)
      else if MAX_FRAME_BODY < body_len then Inl (FrameTooLarge body_len)
      else Inr (be_bytes 4 body_len @ [VERSION, kind_code (f_kind f)]
                @ be_bytes 16 (unat (f_session_id f)) @ be_bytes 8 (unat (f_generation f))
                @ f_payload f))"

text \<open>One turn of the loop of \<open>Decoder::decode_available\<close>.\<close>

definition scan_frame :: "bytes \<Rightarrow> (protocol_error, frame) scan" where
  "scan_frame buffer =
     (if length buffer < 4 then More
      else let body_len = from_be (take 4 buffer) in
        if body_len < FIXED_BODY then Bad (FrameTooShort body_len)
        else if MAX_FRAME_BODY < body_len then Bad (FrameTooLarge body_len)
        else if length buffer < 4 + body_len then More
        else let body = take body_len (drop 4 buffer) in
          if body ! 0 \<noteq> VERSION then Bad (UnknownVersion (body ! 0))
          else case kind_try_from (body ! 1) of
            Inl e \<Rightarrow> Bad e
          | Inr k \<Rightarrow>
              Got \<lparr>f_kind = k,
                   f_session_id = word_of_nat (from_be (take 16 (drop 2 body))),
                   f_generation = word_of_nat (from_be (take 8 (drop 18 body))),
                   f_payload = drop 26 body\<rparr>
                  (drop (4 + body_len) buffer))"

record decoder =
  d_buffer :: bytes
  d_poisoned :: bool

definition decoder_new :: decoder where
  "decoder_new = \<lparr>d_buffer = [], d_poisoned = False\<rparr>"

lemma scan_frame_shrinks:
  "scan_frame buf = Got f rest \<Longrightarrow> length rest < length buf"
  by (auto simp: scan_frame_def Let_def FIXED_BODY_def split: if_splits sum.splits)

function decode_available :: "bytes \<Rightarrow> (protocol_error + frame list) \<times> bytes" where
  "decode_available buffer =
     (case scan_frame buffer of
        More \<Rightarrow> (Inr [], buffer)
      | Bad e \<Rightarrow> (Inl e, buffer)
      | Got f rest \<Rightarrow>
          (case decode_available rest of (r, b) \<Rightarrow> (map_sum id ((#) f) r, b)))"
  by pat_completeness auto
termination
  by (relation "measure length") (auto dest: scan_frame_shrinks)

declare decode_available.simps [simp del]

definition decoder_push :: "decoder \<Rightarrow> bytes \<Rightarrow> (protocol_error + frame list) \<times> decoder" where
  "decoder_push d bs =
     (if d_poisoned d then (Inl Poisoned, d)
      else case decode_available (d_buffer d @ bs) of
        (Inl e, rest) \<Rightarrow> (Inl e, d\<lparr>d_buffer := rest, d_poisoned := True\<rparr>)
      | (Inr fs, rest) \<Rightarrow> (Inr fs, d\<lparr>d_buffer := rest\<rparr>))"

section \<open>The server's side of the handshake\<close>

datatype handshake_state = Awaiting | Established | Rejected

record server_handshake =
  h_token :: auth_token
  h_helper_nonce :: "256 word"
  h_capabilities :: "64 word"
  h_state :: handshake_state

definition handshake_new :: "auth_token \<Rightarrow> 256 word \<Rightarrow> 64 word \<Rightarrow> server_handshake" where
  "handshake_new tok nonce caps =
     \<lparr>h_token = tok, h_helper_nonce = nonce, h_capabilities = caps, h_state = Awaiting\<rparr>"

definition handshake_accept ::
  "server_handshake \<Rightarrow> frame \<Rightarrow> (protocol_error + frame) \<times> server_handshake" where
  "handshake_accept h f =
     (let authorized = h_state h = Awaiting
            \<and> f_kind f = KHello
            \<and> length (f_payload f) = TOKEN_BYTES + NONCE_BYTES
            \<and> token_matches (h_token h) (take TOKEN_BYTES (f_payload f))
      in if \<not> authorized then (Inl Unauthorized, h\<lparr>h_state := Rejected\<rparr>)
         else (Inr (frame_new KWelcome 0 0
                 (be_bytes NONCE_BYTES (unat (h_helper_nonce h))
                  @ be_bytes 8 (unat (h_capabilities h)))),
               h\<lparr>h_state := Established\<rparr>))"

record handshake_decoder =
  hd_decoder :: decoder
  hd_handshake :: server_handshake
  hd_rejected :: bool

definition handshake_decoder_new :: "auth_token \<Rightarrow> 256 word \<Rightarrow> 64 word \<Rightarrow> handshake_decoder" where
  "handshake_decoder_new tok nonce caps =
     \<lparr>hd_decoder = decoder_new, hd_handshake = handshake_new tok nonce caps, hd_rejected = False\<rparr>"

definition handshake_push ::
  "handshake_decoder \<Rightarrow> bytes \<Rightarrow> (protocol_error + frame option) \<times> handshake_decoder" where
  "handshake_push s bs =
     (if hd_rejected s then (Inl Unauthorized, s)
      else case decoder_push (hd_decoder s) bs of
        (Inl _, d) \<Rightarrow> (Inl Unauthorized, s\<lparr>hd_decoder := d, hd_rejected := True\<rparr>)
      | (Inr frames, d) \<Rightarrow>
          if frames = [] then (Inr None, s\<lparr>hd_decoder := d\<rparr>)
          else if length frames \<noteq> 1
            then (Inl Unauthorized, s\<lparr>hd_decoder := d, hd_rejected := True\<rparr>)
          else case handshake_accept (hd_handshake s) (frames ! 0) of
            (Inr welcome, h) \<Rightarrow>
              (Inr (Some welcome), s\<lparr>hd_decoder := d, hd_handshake := h\<rparr>)
          | (Inl _, h) \<Rightarrow>
              (Inl Unauthorized,
               s\<lparr>hd_decoder := d, hd_handshake := h, hd_rejected := True\<rparr>))"

section \<open>The generation gate\<close>

record generation_gate =
  g_current :: "64 word"

definition gate_advance :: "generation_gate \<Rightarrow> 64 word \<times> generation_gate" where
  "gate_advance g =
     (let next = (if g_current g = - 1 then g_current g else g_current g + 1)
      in (next, g\<lparr>g_current := next\<rparr>))"

definition gate_check :: "generation_gate \<Rightarrow> frame \<Rightarrow> protocol_error + unit" where
  "gate_check g f =
     (if (f_kind f = KInput \<or> f_kind f = KResize \<or> f_kind f = KDetach)
         \<and> f_generation f \<noteq> g_current g
      then Inl (StaleGeneration (g_current g) (f_generation f))
      else Inr ())"

section \<open>The codec: round trips and soundness\<close>

lemma kind_try_from_code [simp]: "kind_try_from (kind_code k) = Inr k"
  by (cases k) (simp_all add: kind_try_from_def)

lemma kind_code_try_from: "kind_try_from v = Inr k \<Longrightarrow> kind_code k = v"
  by (auto simp: kind_try_from_def split: if_splits)

lemma xor_eq_zero: "(a :: byte) XOR b = 0 \<longleftrightarrow> a = b"
  by (metis xor.right_neutral xor_self_eq xor.assoc)

lemma or_eq_zero: "(a :: byte) OR b = 0 \<longleftrightarrow> a = 0 \<and> b = 0"
  by (metis or.left_neutral or.right_neutral or_eq_0_iff)

lemma fold_different_zero:
  "length es = length as \<Longrightarrow> fold_different d es as = 0 \<longleftrightarrow> d = 0 \<and> es = as"
  by (induction d es as rule: fold_different.induct)
     (auto simp: or_eq_zero xor_eq_zero)

lemma length_token_bytes [simp]: "length (token_bytes tok) = TOKEN_BYTES"
  by (cases tok) simp

lemma token_matches_iff: "token_matches tok c \<longleftrightarrow> c = token_bytes tok"
  by (auto simp: token_matches_def fold_different_zero)

lemma encode_Inr:
  "encode f = Inr bs \<longleftrightarrow>
     FIXED_BODY + length (f_payload f) \<le> MAX_FRAME_BODY \<and>
     bs = be_bytes 4 (FIXED_BODY + length (f_payload f)) @ [VERSION, kind_code (f_kind f)]
          @ be_bytes 16 (unat (f_session_id f)) @ be_bytes 8 (unat (f_generation f))
          @ f_payload f"
  by (auto simp: encode_def Let_def proto_consts)

lemma scan_frame_encode:
  assumes "encode f = Inr bs"
  shows "scan_frame (bs @ rest) = Got f rest"
proof -
  define n where "n = FIXED_BODY + length (f_payload f)"
  define body where "body = [VERSION, kind_code (f_kind f)]
      @ be_bytes 16 (unat (f_session_id f)) @ be_bytes 8 (unat (f_generation f)) @ f_payload f"
  from assms have n: "n \<le> MAX_FRAME_BODY" and bs: "bs = be_bytes 4 n @ body"
    by (simp_all add: encode_Inr n_def body_def)
  have lb: "length body = n" by (simp add: body_def n_def FIXED_BODY_def)
  define buf where "buf = bs @ rest"
  have hd4: "from_be (take 4 buf) = n"
    using n by (simp add: buf_def bs from_be_bytes MAX_FRAME_BODY_def)
  have body: "take n (drop 4 buf) = body" "drop (4 + n) buf = rest"
    by (simp_all add: buf_def bs lb)
  have parts: "body ! 0 = VERSION" "body ! 1 = kind_code (f_kind f)"
    "take 16 (drop 2 body) = be_bytes 16 (unat (f_session_id f))"
    "take 8 (drop 18 body) = be_bytes 8 (unat (f_generation f))"
    "drop 26 body = f_payload f"
    by (simp_all add: body_def)
  have "FIXED_BODY \<le> n" "\<not> length buf < 4 + n" "\<not> length buf < 4"
    by (simp_all add: n_def buf_def bs lb)
  with n have "scan_frame buf = Got f rest"
    by (simp add: scan_frame_def hd4 body parts wire_simps Let_def del: drop_drop One_nat_def)
  then show ?thesis by (simp add: buf_def)
qed

lemma scan_frame_append:
  assumes "4 \<le> length buf" "\<not> length buf < 4 + from_be (take 4 buf)"
  shows "take (from_be (take 4 buf)) (drop 4 (buf @ ys)) = take (from_be (take 4 buf)) (drop 4 buf)"
    "drop (4 + from_be (take 4 buf)) (buf @ ys) = drop (4 + from_be (take 4 buf)) buf @ ys"
  using assms by simp_all

lemma scan_frame_Got_mono:
  "scan_frame buf = Got f rest \<Longrightarrow> scan_frame (buf @ ys) = Got f (rest @ ys)"
  by (auto simp: scan_frame_def Let_def split: if_splits sum.splits)

lemma scan_frame_Bad_mono: "scan_frame buf = Bad e \<Longrightarrow> scan_frame (buf @ ys) = Bad e"
  by (auto simp: scan_frame_def Let_def split: if_splits sum.splits)

interpretation helper_frames: frame_consumer encode scan_frame decode_available
proof unfold_locales
  show "scan_frame (bs @ rest) = Got f rest" if "encode f = Inr bs" for f bs rest
    using that by (rule scan_frame_encode)
qed (auto simp: scan_frame_shrinks scan_frame_Got_mono scan_frame_Bad_mono
       decode_available.simps split_beta)

lemma scan_frame_sound:
  assumes "scan_frame buf = Got f rest"
  shows "\<exists>bs. encode f = Inr bs \<and> buf = bs @ rest"
proof -
  define n where "n = from_be (take 4 buf)"
  define body where "body = take n (drop 4 buf)"
  from assms have b: "4 \<le> length buf" "FIXED_BODY \<le> n" "n \<le> MAX_FRAME_BODY" "4 + n \<le> length buf"
    "body ! 0 = VERSION" "kind_try_from (body ! 1) = Inr (f_kind f)"
    and f: "f_session_id f = word_of_nat (from_be (take 16 (drop 2 body)))"
      "f_generation f = word_of_nat (from_be (take 8 (drop 18 body)))"
      "f_payload f = drop 26 body" and r: "rest = drop (4 + n) buf"
    by (auto simp: scan_frame_def Let_def n_def body_def not_less split: if_splits sum.splits)
  have lb: "length body = n" using b by (simp add: body_def)
  have s: "be_bytes 16 (unat (f_session_id f)) = take 16 (drop 2 body)"
  proof -
    have l: "length (take 16 (drop 2 body)) = 16" using lb b(2) by (simp add: FIXED_BODY_def)
    have "from_be (take 16 (drop 2 body)) < 2 ^ 128"
      using from_be_less [of "take 16 (drop 2 body)"] by (simp only: l) simp
    then show ?thesis using be_bytes_from_be [of "take 16 (drop 2 body)"]
      by (simp only: f(1) l) (simp add: unat_of_nat)
  qed
  have g: "be_bytes 8 (unat (f_generation f)) = take 8 (drop 18 body)"
  proof -
    have l: "length (take 8 (drop 18 body)) = 8" using lb b(2) by (simp add: FIXED_BODY_def)
    have "from_be (take 8 (drop 18 body)) < 2 ^ 64"
      using from_be_less [of "take 8 (drop 18 body)"] by (simp only: l) simp
    then show ?thesis using be_bytes_from_be [of "take 8 (drop 18 body)"]
      by (simp only: f(2) l) (simp add: unat_of_nat)
  qed
  have h: "be_bytes 4 n = take 4 buf"
    using be_bytes_from_be [of "take 4 buf"] b(1) by (simp add: n_def)
  have two: "take 2 body = [VERSION, kind_code (f_kind f)]"
    using b lb kind_code_try_from [OF b(6)]
    by (cases body; cases "tl body") (auto simp: FIXED_BODY_def)
  have cut: "take 2 body @ take 16 (drop 2 body) @ take 8 (drop 18 body) @ drop 26 body = body"
    using append_take_drop_id [of 2 body] append_take_drop_id [of 16 "drop 2 body"]
      append_take_drop_id [of 8 "drop 18 body"] by simp
  have pl: "FIXED_BODY + length (f_payload f) = n" using lb b(2) by (simp add: f FIXED_BODY_def)
  have "encode f = Inr (take 4 buf @ body)"
    unfolding encode_Inr pl h s g using b(3) cut by (simp add: two flip: f(3))
  moreover have "take 4 buf @ body @ rest = buf"
    by (simp add: body_def r add.commute [of 4 n] del: drop_drop flip: drop_drop [of n 4])
  ultimately show ?thesis by auto
qed

section \<open>Reading a stream in arbitrary pieces\<close>

text \<open>A connection's reads, up to the first refusal.\<close>

fun push_all :: "decoder \<Rightarrow> bytes list \<Rightarrow> (protocol_error + frame list) \<times> decoder" where
  "push_all d [] = (Inr [], d)"
| "push_all d (c # cs) =
     (case decoder_push d c of
        (Inl e, d') \<Rightarrow> (Inl e, d')
      | (Inr fs, d') \<Rightarrow> (case push_all d' cs of (r, d'') \<Rightarrow> (map_sum id ((@) fs) r, d'')))"

lemma push_all_verdict:
  assumes "\<not> d_poisoned d" "scan_frame (d_buffer d) = More"
  shows "fst (push_all d cs) = fst (decode_available (d_buffer d @ concat cs))"
  using assms
proof (induction cs arbitrary: d)
  case Nil
  then show ?case by (simp add: helper_frames.drain_More)
next
  case (Cons c cs)
  obtain r b where dr: "decode_available (d_buffer d @ c) = (r, b)" by fastforce
  show ?case
  proof (cases r)
    case (Inl e)
    then show ?thesis
      using Cons.prems dr helper_frames.drain_append_error [of "d_buffer d @ c" e b "concat cs"]
      by (simp add: decoder_push_def)
  next
    case (Inr fs)
    define d' where "d' = d\<lparr>d_buffer := b\<rparr>"
    from dr Inr have dr': "decode_available (d_buffer d @ c) = (Inr fs, b)" by simp
    have "fst (push_all d' cs) = fst (decode_available (b @ concat cs))"
      using Cons.IH [of d'] Cons.prems helper_frames.drain_leftover [OF dr'] by (simp add: d'_def)
    moreover have "decoder_push d c = (Inr fs, d')"
      using Cons.prems dr' by (simp add: decoder_push_def d'_def)
    ultimately show ?thesis
      using helper_frames.drain_append [OF dr', of "concat cs"] by (simp add: split_beta)
  qed
qed

lemma push_all_leftover:
  assumes "\<not> d_poisoned d" "decode_available (d_buffer d @ concat cs) = (Inr fs, b)"
    "scan_frame (d_buffer d) = More"
  shows "snd (push_all d cs) = d\<lparr>d_buffer := b\<rparr>"
  using assms
proof (induction cs arbitrary: d fs)
  case Nil
  then show ?case by (simp add: helper_frames.drain_More)
next
  case (Cons c cs)
  obtain gs b' where dr: "decode_available (d_buffer d @ c) = (Inr gs, b')"
    using Cons.prems helper_frames.drain_append_error [of "d_buffer d @ c" _ _ "concat cs"]
    by (cases "decode_available (d_buffer d @ c)"; cases "fst (decode_available (d_buffer d @ c))")
       auto
  define d' where "d' = d\<lparr>d_buffer := b'\<rparr>"
  obtain hs where "decode_available (b' @ concat cs) = (Inr hs, b)"
    using Cons.prems(2) helper_frames.drain_append [OF dr, of "concat cs"]
    by (cases "decode_available (b' @ concat cs)"; cases "fst (decode_available (b' @ concat cs))")
       auto
  with Cons.IH [of d' hs] Cons.prems helper_frames.drain_leftover [OF dr] dr
  show ?case by (simp add: d'_def decoder_push_def split_beta)
qed

lemma scan_frame_Nil [simp]: "scan_frame [] = More"
  by (simp add: scan_frame_def)

text \<open>C1: however the bytes of a sequence of encoded frames are cut into reads, the decoder
  returns exactly those frames, in order, and is left empty and healthy.\<close>

theorem protocol_stream_roundtrip:
  assumes "list_all2 (\<lambda>f bs. encode f = Inr bs) fs bss" "concat chunks = concat bss"
  shows "push_all decoder_new chunks = (Inr fs, decoder_new)"
proof -
  have "decode_available (concat chunks) = (Inr fs, [])"
    using helper_frames.drain_encodings [OF assms(1), of "[]"] assms(2) by simp
  then show ?thesis
    using push_all_verdict [of decoder_new chunks] push_all_leftover [of decoder_new chunks fs "[]"]
    by (simp add: decoder_new_def prod_eq_iff)
qed

section \<open>The handshake\<close>

definition hello_from :: "auth_token \<Rightarrow> frame \<Rightarrow> bool" where
  "hello_from tok f \<longleftrightarrow> f_kind f = KHello \<and> (\<exists>nonce. f_payload f = hello_payload tok nonce)"

lemma hello_from_accepts:
  "hello_from tok f \<longleftrightarrow> f_kind f = KHello \<and> length (f_payload f) = TOKEN_BYTES + NONCE_BYTES
     \<and> token_matches tok (take TOKEN_BYTES (f_payload f))"
proof (intro iffI conjI)
  assume h: "f_kind f = KHello \<and> length (f_payload f) = TOKEN_BYTES + NONCE_BYTES
     \<and> token_matches tok (take TOKEN_BYTES (f_payload f))"
  have "f_payload f = token_bytes tok @ drop TOKEN_BYTES (f_payload f)"
    using h append_take_drop_id [of TOKEN_BYTES "f_payload f"] by (simp add: token_matches_iff)
  moreover have "drop TOKEN_BYTES (f_payload f)
      = be_bytes 32 (unat (word_of_nat (from_be (drop TOKEN_BYTES (f_payload f))) :: 256 word))"
    by (rule be_bytes_u256 [symmetric]) (use h in \<open>simp add: proto_consts\<close>)
  ultimately show "hello_from tok f"
    using h by (auto simp: hello_from_def hello_payload_def NONCE_BYTES_def
        intro!: exI [of _ "word_of_nat (from_be (drop TOKEN_BYTES (f_payload f)))"])
qed (auto simp: hello_from_def hello_payload_def token_matches_iff)

definition welcome_of :: "256 word \<Rightarrow> 64 word \<Rightarrow> frame" where
  "welcome_of nonce caps =
     frame_new KWelcome 0 0 (be_bytes NONCE_BYTES (unat nonce) @ be_bytes 8 (unat caps))"

lemma handshake_accept_eq:
  "handshake_accept h f =
     (if h_state h = Awaiting \<and> hello_from (h_token h) f
      then (Inr (welcome_of (h_helper_nonce h) (h_capabilities h)), h\<lparr>h_state := Established\<rparr>)
      else (Inl Unauthorized, h\<lparr>h_state := Rejected\<rparr>))"
  by (auto simp: handshake_accept_def Let_def hello_from_accepts welcome_of_def)

text \<open>A connection's life as seen from outside: the answer to every read.\<close>

fun handshake_run ::
  "handshake_decoder \<Rightarrow> bytes list \<Rightarrow> (protocol_error + frame option) list" where
  "handshake_run s [] = []"
| "handshake_run s (c # cs) =
     (case handshake_push s c of (r, s') \<Rightarrow> r # handshake_run s' cs)"

lemma handshake_run_rejected:
  "hd_rejected s \<Longrightarrow> set (handshake_run s cs) \<subseteq> {Inl Unauthorized}"
  by (induction cs) (auto simp: handshake_push_def)

definition live_decoder :: "handshake_decoder \<Rightarrow> bool" where
  "live_decoder s \<longleftrightarrow> \<not> hd_rejected s \<and> \<not> d_poisoned (hd_decoder s)
     \<and> scan_frame (d_buffer (hd_decoder s)) = More"

lemma handshake_push_cases:
  assumes "live_decoder s"
  obtains (refused) s' where "handshake_push s bs = (Inl Unauthorized, s')" "hd_rejected s'"
  | (waiting) s' where "handshake_push s bs = (Inr None, s')" "live_decoder s'"
      "hd_handshake s' = hd_handshake s"
      "d_buffer (hd_decoder s') = d_buffer (hd_decoder s) @ bs"
  | (welcomed) s' f cs where
      "handshake_push s bs = (Inr (Some (welcome_of (h_helper_nonce (hd_handshake s))
         (h_capabilities (hd_handshake s)))), s')"
      "live_decoder s'" "h_state (hd_handshake s) = Awaiting" "h_state (hd_handshake s') = Established"
      "hello_from (h_token (hd_handshake s)) f" "encode f = Inr cs"
      "d_buffer (hd_decoder s) @ bs = cs @ d_buffer (hd_decoder s')"
proof (cases "decode_available (d_buffer (hd_decoder s) @ bs)")
  case (Pair r b)
  show ?thesis
  proof (cases r)
    case (Inl e)
    with Pair assms refused show ?thesis
      by (auto simp: handshake_push_def decoder_push_def live_decoder_def)
  next
    case (Inr fs)
    with Pair have dr: "decode_available (d_buffer (hd_decoder s) @ bs) = (Inr fs, b)" by simp
    note left = helper_frames.drain_leftover [OF dr]
    let ?h = "hd_handshake s"
    consider (none) "fs = []" | (many) "length fs \<noteq> 1" "fs \<noteq> []" | (one) f where "fs = [f]"
      by (cases fs; cases "tl fs") auto
    then show ?thesis
    proof cases
      case none
      with helper_frames.drain_none dr have "b = d_buffer (hd_decoder s) @ bs" by blast
      with dr none assms left show ?thesis
        by (intro waiting [of "s\<lparr>hd_decoder := (hd_decoder s)\<lparr>d_buffer := b\<rparr>\<rparr>"])
           (simp_all add: handshake_push_def decoder_push_def live_decoder_def)
    next
      case many
      with refused dr assms show ?thesis
        by (simp add: handshake_push_def decoder_push_def live_decoder_def)
    next
      case one
      show ?thesis
      proof (cases "h_state ?h = Awaiting \<and> hello_from (h_token ?h) f")
        case True
        have "scan_frame (d_buffer (hd_decoder s) @ bs) = Got f b"
          using dr one by (simp add: helper_frames.drain_one)
        with scan_frame_sound welcomed [of _ f] dr one True assms left show ?thesis
          by (fastforce simp: handshake_push_def decoder_push_def live_decoder_def
              handshake_accept_eq)
      next
        case False
        with refused dr one assms show ?thesis
          by (simp add: handshake_push_def decoder_push_def live_decoder_def handshake_accept_eq)
      qed
    qed
  qed
qed

lemma handshake_run_established:
  assumes "live_decoder s" "h_state (hd_handshake s) = Established"
  shows "set (handshake_run s cs) \<subseteq> {Inr None, Inl Unauthorized}"
  using assms
proof (induction cs arbitrary: s)
  case (Cons c cs)
  show ?case
    by (rule handshake_push_cases [OF Cons.prems(1), of c])
       (use Cons handshake_run_rejected in \<open>fastforce+\<close>)
qed simp

text \<open>whatever bytes an unauthenticated peer sends, and however they are cut into reads, the
  only answers are: nothing yet, the one error \<open>Unauthorized\<close>, or the Welcome frame; a Welcome is
  sent at most once, and only to a peer whose stream starts with an encoded Hello frame that
  carries the helper's token.
\<close>

theorem handshake_only_welcomes_token:
  fixes tok :: auth_token and nonce :: "256 word" and caps :: "64 word" and chunks :: "bytes list"
  defines "answers \<equiv> handshake_run (handshake_decoder_new tok nonce caps) chunks"
  shows "set answers \<subseteq> {Inr None, Inl Unauthorized, Inr (Some (welcome_of nonce caps))}
    \<and> count_list answers (Inr (Some (welcome_of nonce caps))) \<le> 1
    \<and> (count_list answers (Inr (Some (welcome_of nonce caps))) = 0 \<or>
        (\<exists>f bs rest. hello_from tok f \<and> encode f = Inr bs \<and> concat chunks = bs @ rest))"
proof -
  let ?w = "Inr (Some (welcome_of nonce caps)) :: protocol_error + frame option"
  have none: "count_list xs ?w = 0" if "set xs \<subseteq> {Inr None, Inl Unauthorized}" for xs
    using that by (auto simp: count_list_0_iff)
  have "set (handshake_run s cs) \<subseteq> {Inr None, Inl Unauthorized, ?w}
      \<and> count_list (handshake_run s cs) ?w \<le> 1
      \<and> (count_list (handshake_run s cs) ?w = 0 \<or> (\<exists>f bs rest. hello_from tok f
          \<and> encode f = Inr bs \<and> d_buffer (hd_decoder s) @ concat cs = bs @ rest))"
    if "live_decoder s" "hd_handshake s = handshake_new tok nonce caps" for s cs
    using that
  proof (induction cs arbitrary: s)
    case Nil
    then show ?case by simp
  next
    case (Cons c cs)
    show ?case
    proof (rule handshake_push_cases [OF Cons.prems(1), of c])
      fix s'
      assume s: "handshake_push s c = (Inl Unauthorized, s')" "hd_rejected s'"
      from handshake_run_rejected [OF s(2), of cs]
      have sub: "set (handshake_run s (c # cs)) \<subseteq> {Inr None, Inl Unauthorized}"
        using s(1) by auto
      from none [OF sub] have zero: "count_list (handshake_run s (c # cs)) ?w = 0" .
      show ?thesis unfolding zero using sub by (intro conjI disjI1 refl) auto
    next
      fix s'
      assume s: "handshake_push s c = (Inr None, s')" "live_decoder s'"
        "hd_handshake s' = hd_handshake s" "d_buffer (hd_decoder s') = d_buffer (hd_decoder s) @ c"
      from Cons.IH [of s'] s Cons.prems(2) show ?thesis by simp
    next
      fix s' f bs
      assume s: "handshake_push s c = (Inr (Some (welcome_of (h_helper_nonce (hd_handshake s))
          (h_capabilities (hd_handshake s)))), s')" "live_decoder s'"
        "h_state (hd_handshake s') = Established" "hello_from (h_token (hd_handshake s)) f"
        "encode f = Inr bs" "d_buffer (hd_decoder s) @ c = bs @ d_buffer (hd_decoder s')"
      from s(6) have cat: "d_buffer (hd_decoder s) @ concat (c # cs)
          = bs @ d_buffer (hd_decoder s') @ concat cs" by (metis append.assoc concat.simps(2))
      from s(4) Cons.prems(2) have tokf: "hello_from tok f" by (simp add: handshake_new_def)
      note tail = handshake_run_established [OF s(2,3), of cs]
      have ex: "\<exists>f bs rest. hello_from tok f \<and> encode f = Inr bs
          \<and> d_buffer (hd_decoder s) @ concat (c # cs) = bs @ rest"
        using tokf s(5) cat by blast
      from s(1) Cons.prems(2) have eq: "handshake_run s (c # cs) = ?w # handshake_run s' cs"
        by (simp add: handshake_new_def)
      have "set (?w # handshake_run s' cs) \<subseteq> {Inr None, Inl Unauthorized, ?w}" using tail by auto
      moreover have "count_list (?w # handshake_run s' cs) ?w \<le> 1" using none [OF tail] by simp
      ultimately show ?thesis unfolding eq using ex by blast
    qed
  qed
  from this [of "handshake_decoder_new tok nonce caps" chunks] show ?thesis
    by (simp add: answers_def handshake_decoder_new_def decoder_new_def live_decoder_def)
qed

text \<open>A well-behaved client is admitted: the other half of the contract.\<close>

lemma encode_hello:
  "\<exists>bs. encode (frame_new KHello sid g (hello_payload tok nonce)) = Inr bs"
  by (simp add: encode_Inr frame_new_def hello_payload_def proto_consts)

text \<open>a Hello frame carrying the token, sent in one or many reads, is answered by exactly one
  Welcome, at the read that completes it.\<close>

theorem handshake_accepts_token:
  assumes "encode (frame_new KHello 0 0 (hello_payload tok cnonce)) = Inr (concat cs @ c)" "c \<noteq> []"
  shows "handshake_run (handshake_decoder_new tok nonce caps) (cs @ [c])
    = replicate (length cs) (Inr None) @ [Inr (Some (welcome_of nonce caps))]"
proof -
  let ?f = "frame_new KHello 0 0 (hello_payload tok cnonce)"
  have "handshake_run s (ds @ [c])
      = replicate (length ds) (Inr None) @ [Inr (Some (welcome_of nonce caps))]"
    if "live_decoder s" "hd_handshake s = handshake_new tok nonce caps"
      "encode ?f = Inr (d_buffer (hd_decoder s) @ concat ds @ c)" for s ds
    using that
  proof (induction ds arbitrary: s)
    case Nil
    have "decode_available (d_buffer (hd_decoder s) @ c) = (Inr [?f], [])"
      using helper_frames.drain_encodings [of "[?f]" "[d_buffer (hd_decoder s) @ c]" "[]"] Nil.prems
      by (simp add: frame_new_def)
    then show ?case using Nil.prems
      by (simp add: handshake_push_def decoder_push_def live_decoder_def handshake_accept_eq
          handshake_new_def hello_from_def frame_new_def split: sum.splits)
         (auto simp: hello_payload_def)
  next
    case (Cons d ds)
    have "scan_frame (d_buffer (hd_decoder s) @ d) = More"
      using helper_frames.scan_proper_prefix [of ?f "d_buffer (hd_decoder s) @ d" "concat ds @ c"]
        Cons.prems(3) assms(2) by simp
    then have "decode_available (d_buffer (hd_decoder s) @ d) = (Inr [], d_buffer (hd_decoder s) @ d)"
      by (rule helper_frames.drain_More)
    with Cons.IH [of "s\<lparr>hd_decoder := (hd_decoder s)\<lparr>d_buffer := d_buffer (hd_decoder s) @ d\<rparr>\<rparr>"]
      Cons.prems \<open>scan_frame (d_buffer (hd_decoder s) @ d) = More\<close>
    show ?case by (simp add: handshake_push_def decoder_push_def live_decoder_def)
  qed
  from this [of "handshake_decoder_new tok nonce caps" cs] assms(1) show ?thesis
    by (simp add: handshake_decoder_new_def decoder_new_def live_decoder_def)
qed

section \<open>Session ids as text\<close>

lemma hex_digit_char: "d < 16 \<Longrightarrow> hex_digit (hex_char d) = Some d"
  by (auto simp: hex_digit_def hex_char_def Let_def)

lemma hex_char_ascii: "d < 16 \<Longrightarrow> \<not> is_cont (hex_char d) \<and> hex_char d \<noteq> CHR ''+''"
  unfolding is_cont_def hex_char_def
  by (auto simp: of_char_of dest: arg_cong [where f = "of_char :: char \<Rightarrow> nat"])

lemma length_byte_hex [simp]: "length (byte_hex b) = 2"
  by (simp add: byte_hex_def)

lemma nibbles: "unat (b :: byte) div 16 < 16" "unat b mod 16 < 16"
  using unat_byte_less [of b] by auto

lemma parse_byte_hex: "u8_from_str_radix16 (byte_hex b) = Some (unat b)"
  using nibbles [of b] hex_char_ascii unat_byte_less [of b]
  by (auto simp: byte_hex_def u8_from_str_radix16_def hex_digit_char)

lemma concat_byte_hex:
  "length (concat (map byte_hex bs)) = 2 * length bs"
  "list_all (\<lambda>c. \<not> is_cont c) (concat (map byte_hex bs))"
  using nibbles hex_char_ascii by (induction bs) (auto simp: byte_hex_def)

lemma slice_byte_hex:
  "i < length bs \<Longrightarrow> take 2 (drop (i * 2) (concat (map byte_hex bs))) = byte_hex (bs ! i)"
proof (induction bs arbitrary: i)
  case (Cons b bs)
  then show ?case by (cases i) (simp_all)
qed simp

lemma from_hex_loop_to_hex:
  assumes "n \<le> length bs"
  shows "from_hex_loop (concat (map byte_hex bs)) [n..<length bs] (take n bs) = Ok bs"
  using assms
proof (induction "length bs - n" arbitrary: n)
  case 0
  then show ?case by simp
next
  case (Suc k)
  then have n: "n < length bs" by simp
  then have "is_char_boundary (concat (map byte_hex bs)) (n * 2)"
      "is_char_boundary (concat (map byte_hex bs)) (n * 2 + 2)"
    by (auto intro!: is_char_boundary_ascii simp: concat_byte_hex)
  with Suc.hyps(1) [of "Suc n"] Suc.hyps(2) n show ?case
    by (simp add: upt_conv_Cons slice_byte_hex parse_byte_hex take_Suc_conv_app_nth)
qed

text \<open>The textual form of a session id reads back as that id.\<close>

lemma from_hex_to_hex: "from_hex (to_hex sid) = Ok sid"
proof -
  have "from_hex_loop (concat (map byte_hex (be_bytes 16 (unat sid)))) [0..<16] []
      = Ok (be_bytes 16 (unat sid))"
    using from_hex_loop_to_hex [of 0 "be_bytes 16 (unat sid)"] by simp
  then show ?thesis
    by (simp add: from_hex_def to_hex_def concat_byte_hex wire_simps del: upt_rec_numeral)
qed

lemma to_hex_inj: "to_hex i = to_hex j \<longleftrightarrow> i = j"
  by (metis from_hex_to_hex outcome.inject(1))

text \<open>reading is laxer than writing: a plus sign is taken for a leading digit, so several
  texts name one id; and a 32-byte text with a multi-byte character in the wrong place
  panics instead of being refused.\<close>

theorem session_id_hex_deviations:
  "from_hex (''+0'' @ replicate 30 CHR ''0'') = from_hex (replicate 32 CHR ''0'')
   \<and> from_hex (replicate 32 CHR ''0'') = Ok 0
   \<and> from_hex (''a'' @ [CHR 0xC3, CHR 0xA9] @ replicate 29 CHR ''a'') = Panic"
  by code_simp

section \<open>Generations\<close>

fun gate_advance_n :: "nat \<Rightarrow> generation_gate \<Rightarrow> generation_gate" where
  "gate_advance_n 0 g = g"
| "gate_advance_n (Suc n) g = gate_advance_n n (snd (gate_advance g))"

lemma unat_gate_advance:
  "unat (g_current (snd (gate_advance g))) = min (unat (g_current g) + 1) usize_max"
proof (cases "g_current g = - 1")
  case True
  moreover have "unat (- 1 :: 64 word) = 2 ^ 64 - 1"
    by (simp add: unsigned_minus_1_eq_mask mask_eq_exp_minus_1)
  ultimately show ?thesis by (simp add: gate_advance_def usize_max_def Let_def)
next
  case False
  then have "unat (g_current g + 1) = unat (g_current g) + 1"
    by (metis add.commute unat_eq_zero Suc_eq_plus1 unatSuc add_eq_0_iff)
  moreover have "unat (g_current g + 1) \<le> usize_max"
    by (simp only: usize_max_def unat_u64_le)
  ultimately show ?thesis using False by (simp add: gate_advance_def Let_def)
qed

lemma unat_gate_advance_n:
  "unat (g_current (gate_advance_n n g)) = min (unat (g_current g) + n) usize_max"
proof (induction n arbitrary: g)
  case 0
  have "unat (g_current g) \<le> usize_max" unfolding usize_max_def by (rule unat_u64_le)
  then show ?case by simp
next
  case (Suc n)
  then show ?case by (simp add: unat_gate_advance)
qed

text \<open>a frame stamped with an older generation is refused wherever it would change the session,
  also after any number of later attaches, until the counter saturates.\<close>

theorem gate_refuses_stale:
  assumes "f_kind f = KInput \<or> f_kind f = KResize \<or> f_kind f = KDetach"
    and "f_generation f = g_current g" and "unat (g_current g) < usize_max" and "0 < n"
  shows "gate_check (gate_advance_n n g) f
    = Inl (StaleGeneration (g_current (gate_advance_n n g)) (g_current g))"
proof -
  have "unat (g_current (gate_advance_n n g)) \<noteq> unat (g_current g)"
    unfolding unat_gate_advance_n using assms(3,4) by auto
  then have "g_current (gate_advance_n n g) \<noteq> g_current g" by auto
  with assms(1,2) show ?thesis by (auto simp: gate_check_def)
qed

theorem gate_refuses_stale_witness:
  "gate_check (gate_advance_n 3 \<lparr>g_current = 8\<rparr>) (frame_new KInput 0 8 [])
    = Inl (StaleGeneration (g_current (gate_advance_n 3 \<lparr>g_current = 8\<rparr>)) 8)"
  using gate_refuses_stale [of "frame_new KInput 0 8 []" "\<lparr>g_current = 8\<rparr>" 3]
  by (simp add: frame_new_def usize_max_def)

lemma encode_sample:
  "encode (frame_new KInput 7 42 [0, 1, 255, 10]) =
    Inr [0, 0, 0, 30, 1, 4, 0, 0, 0, 0, 0, 0, 0, 0, 0, 0, 0, 0, 0, 0, 0, 7, 0, 0, 0, 0, 0, 0, 0, 42, 0, 1, 255, 10]"
  unfolding encode_Inr frame_new_def frame.simps proto_consts
  by (rule conjI, simp) (simp add: be_bytes_numeral)

theorem protocol_stream_roundtrip_witness:
  "push_all decoder_new
     [[0, 0, 0],
      [30, 1, 4, 0, 0, 0, 0, 0, 0, 0, 0, 0, 0, 0, 0, 0, 0],
      [0, 7, 0, 0, 0, 0, 0, 0, 0, 42, 0, 1, 255, 10]]
    = (Inr [frame_new KInput 7 42 [0, 1, 255, 10]], decoder_new)"
  by (rule protocol_stream_roundtrip
        [of _ "[[0, 0, 0, 30, 1, 4, 0, 0, 0, 0, 0, 0, 0, 0, 0, 0, 0, 0, 0, 0, 0, 7, 0, 0, 0, 0, 0, 0, 0, 42, 0, 1, 255, 10]]"])
     (simp_all only: list.rel_inject list.rel_intros encode_sample simp_thms
        concat.simps append.simps)

lemma encode_sample_hello:
  "encode (frame_new KHello 0 0 (hello_payload (AuthToken 5) 6)) =
    Inr (concat [be_bytes 4 90] @ [1, 1] @ be_bytes 16 0 @ be_bytes 8 0 @ be_bytes 32 5 @ be_bytes 32 6)"
  unfolding encode_Inr frame_new_def frame.simps proto_consts hello_payload_def token_bytes.simps
  by simp

theorem handshake_accepts_token_witness:
  "handshake_run (handshake_decoder_new (AuthToken 5) 2 9)
      ([be_bytes 4 90] @ [[1, 1] @ be_bytes 16 0 @ be_bytes 8 0 @ be_bytes 32 5 @ be_bytes 32 6])
    = replicate (length [be_bytes 4 90]) (Inr None) @ [Inr (Some (welcome_of 2 9))]"
  by (rule handshake_accepts_token [OF encode_sample_hello]) simp

end
