(* ===== verification/Term_Replay.thy ===== *)
theory Term_Replay
  imports Term_Protocol
begin

text \<open>
  The bounded raw history of a helper-owned terminal session and the ordered hand-off of it
  to an attaching client (\<open>crates/tabverse-term/src/replay.rs\<close>).
\<close>

section \<open>The ring\<close>

definition DEFAULT_MAX_BYTES :: nat where "DEFAULT_MAX_BYTES = 256 * 1024"
definition DEFAULT_MAX_LINES :: nat where "DEFAULT_MAX_LINES = 1000"

abbreviation newline :: byte where "newline \<equiv> 10"

record attach_batch =
  ab_snapshot :: bytes
  ab_delta :: bytes

record attach_state =
  as_snapshot :: bytes
  as_delta :: bytes

record replay_ring =
  r_bytes :: bytes
  r_max_bytes :: nat
  r_max_lines :: nat
  r_attach :: "attach_state option"

definition ring_new :: "nat \<Rightarrow> nat \<Rightarrow> replay_ring" where
  "ring_new max_bytes max_lines =
     \<lparr>r_bytes = [], r_max_bytes = max_bytes, r_max_lines = max_lines, r_attach = None\<rparr>"

definition ring_default :: replay_ring where
  "ring_default = ring_new DEFAULT_MAX_BYTES DEFAULT_MAX_LINES"

definition logical_lines :: "bytes \<Rightarrow> nat" where
  "logical_lines bs =
     (if bs = [] then 0
      else length (filter (\<lambda>b. b = newline) bs) + (if last bs \<noteq> newline then 1 else 0))"

text \<open>The two loops of \<open>enforce_limits\<close>: bytes first, then whole lines from the front.\<close>

fun pop_bytes :: "nat \<Rightarrow> bytes \<Rightarrow> bytes" where
  "pop_bytes max_bytes [] = []"
| "pop_bytes max_bytes (b # bs) =
     (if max_bytes < length (b # bs) then pop_bytes max_bytes bs else b # bs)"

fun pop_line :: "bytes \<Rightarrow> bytes" where
  "pop_line [] = []"
| "pop_line (b # bs) = (if b = newline then bs else pop_line bs)"

lemma length_pop_line: "length (pop_line bs) \<le> length bs - 1"
proof (induction bs)
  case (Cons b bs)
  then show ?case by (cases bs) auto
qed simp

function pop_lines :: "nat \<Rightarrow> bytes \<Rightarrow> bytes" where
  "pop_lines max_lines bs =
     (if max_lines < logical_lines bs then pop_lines max_lines (pop_line bs) else bs)"
  by pat_completeness auto
termination
proof (relation "measure (\<lambda>(_, bs). length bs)")
  fix m :: nat and bs :: bytes
  assume "m < logical_lines bs"
  then have "bs \<noteq> []" by (auto simp: logical_lines_def)
  with length_pop_line [of bs] show "((m, pop_line bs), m, bs) \<in> measure (\<lambda>(_, bs). length bs)"
    by (cases bs) auto
qed simp

declare pop_lines.simps [simp del]

definition enforce_limits :: "replay_ring \<Rightarrow> replay_ring" where
  "enforce_limits r =
     r\<lparr>r_bytes := pop_lines (r_max_lines r) (pop_bytes (r_max_bytes r) (r_bytes r))\<rparr>"

definition ring_push :: "replay_ring \<Rightarrow> bytes \<Rightarrow> replay_ring" where
  "ring_push r chunk =
     (let r1 = (case r_attach r of
                  None \<Rightarrow> r
                | Some a \<Rightarrow> r\<lparr>r_attach := Some (a\<lparr>as_delta := as_delta a @ chunk\<rparr>)\<rparr>)
      in enforce_limits (r1\<lparr>r_bytes := r_bytes r1 @ chunk\<rparr>))"

definition ring_snapshot :: "replay_ring \<Rightarrow> bytes" where
  "ring_snapshot r = r_bytes r"

definition begin_attach :: "replay_ring \<Rightarrow> (protocol_error + unit) \<times> replay_ring" where
  "begin_attach r =
     (if r_attach r \<noteq> None then (Inl AttachInProgress, r)
      else (Inr (), r\<lparr>r_attach := Some \<lparr>as_snapshot = ring_snapshot r, as_delta = []\<rparr>\<rparr>))"

definition finish_attach :: "replay_ring \<Rightarrow> (protocol_error + attach_batch) \<times> replay_ring" where
  "finish_attach r =
     (case r_attach r of
        None \<Rightarrow> (Inl NoAttachInProgress, r)
      | Some a \<Rightarrow>
          (Inr \<lparr>ab_snapshot = as_snapshot a, ab_delta = as_delta a\<rparr>, r\<lparr>r_attach := None\<rparr>))"

section \<open>The history as a list of lines\<close>

text \<open>The reference view: the history cut after every newline.\<close>

fun lines_of :: "bytes \<Rightarrow> bytes list" where
  "lines_of [] = []"
| "lines_of (b # bs) =
     (if b = newline then [b] # lines_of bs
      else case lines_of bs of [] \<Rightarrow> [[b]] | l # ls \<Rightarrow> (b # l) # ls)"

lemma concat_lines_of [simp]: "concat (lines_of bs) = bs"
  by (induction bs) (auto split: list.splits)

lemma lines_of_eq_Nil [simp]: "lines_of bs = [] \<longleftrightarrow> bs = []"
  by (cases bs) (auto split: list.splits)

lemma logical_lines_eq: "logical_lines bs = length (lines_of bs)"
proof (induction bs)
  case (Cons b bs)
  then show ?case
    by (cases bs) (auto simp: logical_lines_def split: list.splits if_splits)
qed (simp add: logical_lines_def)

lemma lines_of_pop_line: "lines_of (pop_line bs) = tl (lines_of bs)"
proof (induction bs)
  case (Cons b bs)
  then show ?case by (auto split: list.splits)
qed simp

lemma pop_bytes_eq: "pop_bytes n bs = last_n n bs"
  by (induction bs) (auto simp: last_n_def Suc_diff_le)

lemma pop_lines_eq: "lines_of (pop_lines n bs) = last_n n (lines_of bs)"
proof (induction n bs rule: pop_lines.induct)
  case (1 n bs)
  show ?case
  proof (cases "n < logical_lines bs")
    case True
    then obtain l ls where "lines_of bs = l # ls" "n \<le> length ls"
      by (cases "lines_of bs") (auto simp: logical_lines_eq)
    with "1.IH" [OF True] True show ?thesis
      by (subst pop_lines.simps) (simp add: lines_of_pop_line last_n_def Suc_diff_le)
  next
    case False
    then show ?thesis
      by (subst pop_lines.simps) (simp add: logical_lines_eq last_n_def)
  qed
qed

lemma pop_lines_concat: "pop_lines n bs = concat (last_n n (lines_of bs))"
  by (metis pop_lines_eq concat_lines_of)

lemma suffix_pop_lines: "suffix (pop_lines n bs) bs"
proof -
  obtain zs where "lines_of bs = zs @ last_n n (lines_of bs)"
    using suffix_last_n [of n "lines_of bs"] unfolding suffix_def by blast
  then have "bs = concat zs @ concat (last_n n (lines_of bs))"
    by (metis concat_append concat_lines_of)
  then show ?thesis unfolding pop_lines_concat by (rule suffixI)
qed

lemma length_pop_lines_le: "length (pop_lines n bs) \<le> length bs"
  by (rule suffix_length_le [OF suffix_pop_lines])

section \<open>Properties\<close>

text \<open>a push keeps exactly the last \<open>max_lines\<close> lines of the last \<open>max_bytes\<close> bytes.\<close>

theorem ring_push_keeps_last:
  "r_bytes (ring_push r chunk)
    = concat (last_n (r_max_lines r) (lines_of (last_n (r_max_bytes r) (r_bytes r @ chunk))))"
  by (auto simp: ring_push_def enforce_limits_def pop_lines_concat pop_bytes_eq Let_def
      split: option.splits)

lemma ring_push_limits [simp]:
  "r_max_bytes (ring_push r chunk) = r_max_bytes r"
  "r_max_lines (ring_push r chunk) = r_max_lines r"
  by (auto simp: ring_push_def enforce_limits_def Let_def split: option.splits)

lemma ring_push_attach:
  "r_attach (ring_push r chunk) =
     map_option (\<lambda>a. a\<lparr>as_delta := as_delta a @ chunk\<rparr>) (r_attach r)"
  by (auto simp: ring_push_def enforce_limits_def Let_def split: option.splits)

lemma ring_push_suffix: "suffix (r_bytes (ring_push r chunk)) (r_bytes r @ chunk)"
  unfolding ring_push_keeps_last pop_lines_concat [symmetric] pop_bytes_eq [symmetric]
  by (metis suffix_order.trans suffix_pop_lines suffix_last_n pop_bytes_eq)

text \<open>Everything a session can do to its ring.\<close>

datatype ring_op = Push bytes | BeginAttach | FinishAttach

fun ring_step :: "replay_ring \<Rightarrow> ring_op \<Rightarrow> replay_ring" where
  "ring_step r (Push chunk) = ring_push r chunk"
| "ring_step r BeginAttach = snd (begin_attach r)"
| "ring_step r FinishAttach = snd (finish_attach r)"

fun ring_run :: "replay_ring \<Rightarrow> ring_op list \<Rightarrow> replay_ring" where
  "ring_run r [] = r"
| "ring_run r (x # xs) = ring_run (ring_step r x) xs"

fun pushed :: "ring_op list \<Rightarrow> bytes" where
  "pushed [] = []"
| "pushed (Push chunk # xs) = chunk @ pushed xs"
| "pushed (_ # xs) = pushed xs"

lemma attach_frame [simp]:
  "r_bytes (snd (begin_attach r)) = r_bytes r" "r_bytes (snd (finish_attach r)) = r_bytes r"
  "r_max_bytes (snd (begin_attach r)) = r_max_bytes r"
  "r_max_bytes (snd (finish_attach r)) = r_max_bytes r"
  "r_max_lines (snd (begin_attach r)) = r_max_lines r"
  "r_max_lines (snd (finish_attach r)) = r_max_lines r"
  by (auto simp: begin_attach_def finish_attach_def split: option.splits)

definition ring_bounded :: "replay_ring \<Rightarrow> bool" where
  "ring_bounded r \<longleftrightarrow>
     length (r_bytes r) \<le> r_max_bytes r \<and> logical_lines (r_bytes r) \<le> r_max_lines r"

lemma ring_step_bounded: "ring_bounded r \<Longrightarrow> ring_bounded (ring_step r x)"
proof (cases x)
  case (Push chunk)
  let ?bs = "last_n (r_max_bytes r) (r_bytes r @ chunk)"
  have b: "r_bytes (ring_push r chunk) = pop_lines (r_max_lines r) ?bs"
    by (simp only: ring_push_keeps_last pop_lines_concat)
  have "length (pop_lines (r_max_lines r) ?bs) \<le> r_max_bytes r"
    using length_pop_lines_le [of "r_max_lines r" ?bs] by simp
  moreover have "logical_lines (pop_lines (r_max_lines r) ?bs) \<le> r_max_lines r"
    by (simp add: logical_lines_eq pop_lines_eq)
  ultimately show ?thesis by (simp add: Push ring_bounded_def b)
qed (simp_all add: ring_bounded_def)

lemma ring_run_suffix:
  "suffix (r_bytes r) s \<Longrightarrow> suffix (r_bytes (ring_run r xs)) (s @ pushed xs)"
proof (induction xs arbitrary: r s)
  case (Cons x xs)
  show ?case
  proof (cases x)
    case (Push chunk)
    have "suffix (r_bytes r @ chunk) (s @ chunk)"
      using Cons.prems by (auto simp: suffix_def)
    with ring_push_suffix have "suffix (r_bytes (ring_push r chunk)) (s @ chunk)"
      by (rule suffix_order.trans)
    from Cons.IH [OF this] show ?thesis by (simp add: Push)
  qed (use Cons in simp_all)
qed simp

text \<open>along every sequence of pushes and attaches from a fresh ring, the history respects both
  limits and is a suffix of everything pushed.\<close>

theorem ring_run_bounded_suffix:
  "ring_bounded (ring_run (ring_new max_bytes max_lines) xs)
    \<and> suffix (ring_snapshot (ring_run (ring_new max_bytes max_lines) xs)) (pushed xs)"
proof
  have "ring_bounded (ring_run r xs)" if "ring_bounded r" for r xs
    using that by (induction xs arbitrary: r) (auto simp: ring_step_bounded)
  then show "ring_bounded (ring_run (ring_new max_bytes max_lines) xs)"
    by (simp add: ring_bounded_def ring_new_def logical_lines_def)
  show "suffix (ring_snapshot (ring_run (ring_new max_bytes max_lines) xs)) (pushed xs)"
    using ring_run_suffix [of "ring_new max_bytes max_lines" "[]" xs]
    by (simp add: ring_snapshot_def ring_new_def)
qed

fun push_chunks :: "replay_ring \<Rightarrow> bytes list \<Rightarrow> replay_ring" where
  "push_chunks r [] = r"
| "push_chunks r (c # cs) = push_chunks (ring_push r c) cs"

lemma push_chunks_attach:
  "r_attach (push_chunks r cs) =
     map_option (\<lambda>a. a\<lparr>as_delta := as_delta a @ concat cs\<rparr>) (r_attach r)"
  by (induction cs arbitrary: r)
     (auto simp: ring_push_attach option.map_comp comp_def option.map_ident)

text \<open>an attach hands over the history as it stood when it began followed by exactly what arrived
  during it, whatever the limits evicted meanwhile, so nothing between the start of that
  history and the end of the attach is missing or repeated; a second attach is refused while
  one is open, and finishing twice is refused.\<close>

theorem attach_handoff_gapless:
  fixes history :: "ring_op list" and during :: "bytes list" and max_bytes max_lines :: nat
  defines "r0 \<equiv> ring_run (ring_new max_bytes max_lines) history"
  assumes "begin_attach r0 = (Inr (), r1)"
  shows "\<exists>batch r3 evicted.
      finish_attach (push_chunks r1 during) = (Inr batch, r3)
    \<and> ab_snapshot batch = ring_snapshot r0 \<and> ab_delta batch = concat during
    \<and> evicted @ ab_snapshot batch @ ab_delta batch = pushed history @ concat during
    \<and> fst (begin_attach (push_chunks r1 during)) = Inl AttachInProgress
    \<and> finish_attach r3 = (Inl NoAttachInProgress, r3)"
proof -
  from assms(2) have "r_attach r1 = Some \<lparr>as_snapshot = ring_snapshot r0, as_delta = []\<rparr>"
    by (auto simp: begin_attach_def split: if_splits)
  then have a: "r_attach (push_chunks r1 during)
      = Some \<lparr>as_snapshot = ring_snapshot r0, as_delta = concat during\<rparr>"
    by (simp add: push_chunks_attach)
  obtain ev where "pushed history = ev @ ring_snapshot r0"
    using ring_run_suffix [of "ring_new max_bytes max_lines" "[]" history]
    by (auto simp: r0_def suffix_def ring_snapshot_def ring_new_def)
  with a show ?thesis
    by (auto simp: finish_attach_def begin_attach_def)
qed

theorem attach_handoff_gapless_witness:
  "\<exists>batch r3 evicted.
      finish_attach (push_chunks (snd (begin_attach (ring_run (ring_new 3 100) [Push [97, 98, 99]])))
        [[100], [101, 102]]) = (Inr batch, r3)
    \<and> ab_snapshot batch = ring_snapshot (ring_run (ring_new 3 100) [Push [97, 98, 99]])
    \<and> ab_delta batch = concat [[100], [101, 102]]
    \<and> evicted @ ab_snapshot batch @ ab_delta batch
        = pushed [Push [97, 98, 99]] @ concat [[100], [101, 102]]
    \<and> fst (begin_attach (push_chunks
        (snd (begin_attach (ring_run (ring_new 3 100) [Push [97, 98, 99]]))) [[100], [101, 102]]))
        = Inl AttachInProgress
    \<and> finish_attach r3 = (Inl NoAttachInProgress, r3)"
  by (rule attach_handoff_gapless)
     (simp add: begin_attach_def ring_push_attach ring_new_def)

end
