(* ===== verification/Rust_Str.thy ===== *)
theory Rust_Str
  imports Tab_Prelude "HOL-Library.Sublist"
begin

text \<open>
  The \<open>str\<close> methods of the Rust standard library that the modelled code calls, over UTF-8
  byte strings (one \<open>char\<close> of HOL per byte). A Rust \<open>char\<close> is the string of its UTF-8 bytes: a
  leading byte and the continuation bytes after it.
\<close>

section \<open>Characters\<close>

function rchars :: "string \<Rightarrow> string list" where
  "rchars [] = []"
| "rchars (c # cs) = (c # takeWhile is_cont cs) # rchars (dropWhile is_cont cs)"
  by pat_completeness auto
termination
  by (relation "measure length") (auto intro: le_imp_less_Suc length_dropWhile_le)

lemma concat_rchars [simp]: "concat (rchars s) = s"
  by (induction s rule: rchars.induct) auto

lemma length_rchars_le: "length (rchars s) \<le> length s"
proof (induction s rule: rchars.induct)
  case (2 c cs)
  then show ?case using length_dropWhile_le [of is_cont cs] by simp
qed simp

text \<open>\<open>char::is_whitespace\<close>: the Unicode property \<open>White_Space\<close>.\<close>

definition is_white :: "string \<Rightarrow> bool" where
  "is_white c \<longleftrightarrow> c \<in> set ([[CHR 0x09], [CHR 0x0A], [CHR 0x0B], [CHR 0x0C], [CHR 0x0D], [CHR 0x20],
     [CHR 0xC2, CHR 0x85], [CHR 0xC2, CHR 0xA0], [CHR 0xE1, CHR 0x9A, CHR 0x80],
     [CHR 0xE2, CHR 0x80, CHR 0x80], [CHR 0xE2, CHR 0x80, CHR 0x81], [CHR 0xE2, CHR 0x80, CHR 0x82],
     [CHR 0xE2, CHR 0x80, CHR 0x83], [CHR 0xE2, CHR 0x80, CHR 0x84], [CHR 0xE2, CHR 0x80, CHR 0x85],
     [CHR 0xE2, CHR 0x80, CHR 0x86], [CHR 0xE2, CHR 0x80, CHR 0x87], [CHR 0xE2, CHR 0x80, CHR 0x88],
     [CHR 0xE2, CHR 0x80, CHR 0x89], [CHR 0xE2, CHR 0x80, CHR 0x8A], [CHR 0xE2, CHR 0x80, CHR 0xA8],
     [CHR 0xE2, CHR 0x80, CHR 0xA9], [CHR 0xE2, CHR 0x80, CHR 0xAF], [CHR 0xE2, CHR 0x81, CHR 0x9F],
     [CHR 0xE3, CHR 0x80, CHR 0x80]])"

definition trim_start :: "string \<Rightarrow> string" where
  "trim_start s = concat (dropWhile is_white (rchars s))"

definition trim_end :: "string \<Rightarrow> string" where
  "trim_end s = concat (rev (dropWhile is_white (rev (rchars s))))"

definition trim :: "string \<Rightarrow> string" where
  "trim s = trim_end (trim_start s)"

section \<open>Splitting and joining\<close>

abbreviation nl :: char where "nl \<equiv> CHR 0x0A"
abbreviation cr :: char where "cr \<equiv> CHR 0x0D"

text \<open>\<open>split(c)\<close>: the pieces between the separators, always at least one.\<close>

fun split_on :: "char \<Rightarrow> string \<Rightarrow> string list" where
  "split_on c [] = [[]]"
| "split_on c (x # xs) =
     (if x = c then [] # split_on c xs
      else case split_on c xs of [] \<Rightarrow> [[x]] | l # ls \<Rightarrow> (x # l) # ls)"

fun join :: "string \<Rightarrow> string list \<Rightarrow> string" where
  "join sep [] = []"
| "join sep [s] = s"
| "join sep (s # t # ss) = s @ sep @ join sep (t # ss)"

lemma split_on_nonempty [simp]: "split_on c s \<noteq> []"
  by (cases s) (auto split: list.splits)

lemma join_Cons: "ss \<noteq> [] \<Longrightarrow> join sep (s # ss) = s @ sep @ join sep ss"
  by (cases ss) auto

lemma join_split_on [simp]: "join [c] (split_on c s) = s"
proof (induction s)
  case (Cons x xs)
  show ?case
  proof (cases "x = c")
    case True
    with Cons show ?thesis by (simp add: join_Cons)
  next
    case False
    obtain l ls where l: "split_on c xs = l # ls" by (cases "split_on c xs") auto
    with Cons have "join [c] (l # ls) = xs" by simp
    with l False show ?thesis by (cases ls) auto
  qed
qed simp

lemma length_split_on: "length (split_on c s) = Suc (count_list s c)"
proof (induction s)
  case (Cons x xs)
  then show ?case by (cases "split_on c xs") (auto)
qed simp

lemma split_on_no_sep: "l \<in> set (split_on c s) \<Longrightarrow> c \<notin> set l"
proof (induction s arbitrary: l)
  case (Cons x xs)
  then show ?case by (cases "split_on c xs") (auto split: if_splits)
qed simp

lemma split_on_join:
  "ls \<noteq> [] \<Longrightarrow> list_all (\<lambda>l. c \<notin> set l) ls \<Longrightarrow> split_on c (join [c] ls) = ls"
proof (induction "[c]" ls rule: join.induct)
  case (2 l)
  then have "c \<notin> set l" by simp
  then show ?case by (induction l) auto
next
  case (3 l t ss)
  then have c: "c \<notin> set l" and IH: "split_on c (join [c] (t # ss)) = t # ss" by auto
  have "split_on c (l @ c # r) = l # split_on c r" for r
    using c by (induction l) auto
  with IH show ?case by simp
qed simp

lemma join_length:
  "ss \<noteq> [] \<Longrightarrow> length (join [c] ss) = sum_list (map (\<lambda>s. length s + 1) ss) - 1"
proof (induction "[c]" ss rule: join.induct)
  case (3 s t ss)
  then show ?case by (cases ss) auto
qed auto

text \<open>
  \<open>lines()\<close>: the pieces ended by a newline, each without it and without a carriage return
  before it; a last piece that has no newline is kept as it is, and dropped when empty.
\<close>

fun split_inclusive :: "char \<Rightarrow> string \<Rightarrow> string list" where
  "split_inclusive c [] = []"
| "split_inclusive c (x # xs) =
     (if x = c then [x] # split_inclusive c xs
      else case split_inclusive c xs of [] \<Rightarrow> [[x]] | l # ls \<Rightarrow> (x # l) # ls)"

definition strip_line_ending :: "string \<Rightarrow> string" where
  "strip_line_ending l =
     (if l \<noteq> [] \<and> last l = nl
      then let m = butlast l in if m \<noteq> [] \<and> last m = cr then butlast m else m
      else l)"

definition str_lines :: "string \<Rightarrow> string list" where
  "str_lines s = map strip_line_ending (split_inclusive nl s)"

lemma split_inclusive_line:
  "c \<notin> set l \<Longrightarrow> split_inclusive c (l @ c # r) = (l @ [c]) # split_inclusive c r"
  by (induction l) auto

lemma str_lines_line:
  "nl \<notin> set l \<Longrightarrow> l = [] \<or> last l \<noteq> cr \<Longrightarrow> str_lines (l @ nl # r) = l # str_lines r"
  by (auto simp: str_lines_def split_inclusive_line strip_line_ending_def Let_def)

lemma split_inclusive_rest: "c \<notin> set l \<Longrightarrow> split_inclusive c l = (if l = [] then [] else [l])"
  by (induction l) auto

lemma str_lines_rest: "nl \<notin> set l \<Longrightarrow> str_lines l = (if l = [] then [] else [l])"
  by (cases "l = []") (auto simp: str_lines_def split_inclusive_rest strip_line_ending_def, metis last_in_set)

section \<open>UTF-8\<close>

text \<open>Well-formed UTF-8, which reading a text line demands.\<close>

fun cont_bytes :: "nat \<Rightarrow> string \<Rightarrow> bool" where
  "cont_bytes 0 s = True"
| "cont_bytes (Suc n) (c # s) = (is_cont c \<and> cont_bytes n s)"
| "cont_bytes (Suc n) [] = False"

definition first_cont :: "nat \<Rightarrow> nat \<Rightarrow> string \<Rightarrow> bool" where
  "first_cont lo hi s = (case s of [] \<Rightarrow> False | c # _ \<Rightarrow> lo \<le> of_char c \<and> of_char c \<le> hi)"

definition char_width :: "string \<Rightarrow> nat" where
  "char_width s = (case s of [] \<Rightarrow> 0 | c # t \<Rightarrow>
     let n = (of_char c :: nat) in
     if n < 0x80 then 1
     else if 0xC2 \<le> n \<and> n \<le> 0xDF \<and> cont_bytes 1 t then 2
     else if 0xE0 \<le> n \<and> n \<le> 0xEF \<and> cont_bytes 2 t
       \<and> (n = 0xE0 \<longrightarrow> first_cont 0xA0 0xBF t) \<and> (n = 0xED \<longrightarrow> first_cont 0x80 0x9F t) then 3
     else if 0xF0 \<le> n \<and> n \<le> 0xF4 \<and> cont_bytes 3 t
       \<and> (n = 0xF0 \<longrightarrow> first_cont 0x90 0xBF t) \<and> (n = 0xF4 \<longrightarrow> first_cont 0x80 0x8F t) then 4
     else 0)"

function utf8_valid :: "string \<Rightarrow> bool" where
  "utf8_valid s = (if s = [] then True
     else if char_width s = 0 then False else utf8_valid (drop (char_width s) s))"
  by pat_completeness auto
termination
  by (relation "measure length") auto

declare utf8_valid.simps [simp del]

lemma utf8_valid_ascii: "list_all (\<lambda>c. of_char c < (0x80 :: nat)) s \<Longrightarrow> utf8_valid s"
  by (induction s) (simp_all add: utf8_valid.simps char_width_def Let_def)

text \<open>Prefixes and what follows them.\<close>

lemma cont_bytes_append: "cont_bytes n t \<Longrightarrow> cont_bytes n (t @ b)"
  by (induction n t rule: cont_bytes.induct) auto

lemma cont_bytes_take: "cont_bytes n (t @ b) \<Longrightarrow> n \<le> length t \<Longrightarrow> cont_bytes n t"
proof (induction n t rule: cont_bytes.induct)
  case (2 n c s)
  then show ?case by simp
qed simp_all

lemma cont_bytes_nth: "cont_bytes n t \<Longrightarrow> n \<le> length t \<and> (\<forall>i < n. is_cont (t ! i))"
proof (induction n t rule: cont_bytes.induct)
  case (2 n c s)
  then show ?case by (auto simp: nth_Cons split: nat.splits)
qed simp_all

lemma first_cont_append: "first_cont lo hi t \<Longrightarrow> first_cont lo hi (t @ b)"
  by (cases t) (auto simp: first_cont_def)

lemma first_cont_take: "first_cont lo hi (t @ b) \<Longrightarrow> t \<noteq> [] \<Longrightarrow> first_cont lo hi t"
  by (cases t) (auto simp: first_cont_def)

lemma char_width_append: "char_width q \<noteq> 0 \<Longrightarrow> char_width (q @ b) = char_width q"
  by (cases q) (auto simp: char_width_def Let_def split: if_splits intro: cont_bytes_append first_cont_append)

lemma char_width_spec:
  "char_width s \<noteq> 0 \<Longrightarrow> char_width s \<le> length s \<and> s \<noteq> [] \<and> \<not> is_cont (hd s) \<and> (\<forall>i < char_width s. 0 < i \<longrightarrow> is_cont (s ! i))"
proof (cases s)
  case (Cons c t)
  assume w: "char_width s \<noteq> 0"
  have tail: "\<And>k. cont_bytes k t \<Longrightarrow> Suc k \<le> length s \<and> (\<forall>i < Suc k. 0 < i \<longrightarrow> is_cont (s ! i))"
    using cont_bytes_nth [of _ t] by (force simp: Cons nth_Cons' less_Suc_eq_0_disj)
  show ?thesis
    using w tail [of 1] tail [of 2] tail [of 3] unfolding Cons char_width_def is_cont_def
    by (auto simp: Let_def numeral_eq_Suc split: if_splits)
qed (simp add: char_width_def)

lemma utf8_step: "char_width s \<noteq> 0 \<Longrightarrow> utf8_valid s \<longleftrightarrow> utf8_valid (drop (char_width s) s)"
  using utf8_valid.simps [of s] char_width_spec [of s] by auto

lemma utf8_width: "utf8_valid s \<Longrightarrow> s \<noteq> [] \<Longrightarrow> char_width s \<noteq> 0"
  using utf8_valid.simps [of s] by (auto split: if_splits)

text \<open>What follows a valid text that begins a valid text is valid, and so is what ends at a boundary.\<close>

lemma utf8_rest: "utf8_valid q \<Longrightarrow> utf8_valid (q @ b) \<longleftrightarrow> utf8_valid b"
proof (induction q rule: utf8_valid.induct)
  case (1 q)
  show ?case
  proof (cases "q = []")
    case False
    with 1(2) have w: "char_width q \<noteq> 0" by (rule utf8_width)
    have "utf8_valid (q @ b) \<longleftrightarrow> utf8_valid (drop (char_width q) q @ b)"
      using utf8_step [of "q @ b"] char_width_append [OF w, of b] char_width_spec [OF w] w by simp
    with 1(1) [OF False w] utf8_step [OF w] 1(2) show ?thesis by simp
  qed simp
qed

text \<open>\<open>String::from_utf8_lossy\<close>: a malformed start is as many bytes as a valid character could
  begin with, at least one, and becomes one U+FFFD.\<close>

definition bad_width :: "string \<Rightarrow> nat" where
  "bad_width s = (case s of [] \<Rightarrow> 0 | c # t \<Rightarrow>
     let n = (of_char c :: nat) in
     if 0xE0 \<le> n \<and> n \<le> 0xEF \<and> cont_bytes 1 t
       \<and> (n = 0xE0 \<longrightarrow> first_cont 0xA0 0xBF t) \<and> (n = 0xED \<longrightarrow> first_cont 0x80 0x9F t) then 2
     else if 0xF0 \<le> n \<and> n \<le> 0xF4 \<and> cont_bytes 1 t
       \<and> (n = 0xF0 \<longrightarrow> first_cont 0x90 0xBF t) \<and> (n = 0xF4 \<longrightarrow> first_cont 0x80 0x8F t)
     then (if cont_bytes 2 t then 3 else 2)
     else 1)"

function utf8_lossy :: "string \<Rightarrow> string" where
  "utf8_lossy s = (if s = [] then []
     else if char_width s = 0
     then [CHR 0xEF, CHR 0xBF, CHR 0xBD] @ utf8_lossy (drop (max 1 (bad_width s)) s)
     else take (char_width s) s @ utf8_lossy (drop (char_width s) s))"
  by pat_completeness auto
termination
  by (relation "measure length") auto

declare utf8_lossy.simps [simp del]

lemma utf8_lossy_valid: "utf8_valid s \<Longrightarrow> utf8_lossy s = s"
proof (induction s rule: utf8_lossy.induct)
  case (1 s)
  show ?case
  proof (cases "s = []")
    case False
    with 1 show ?thesis
      using utf8_valid.simps [of s] utf8_lossy.simps [of s] by (cases "char_width s = 0") auto
  qed (simp add: utf8_lossy.simps)
qed

section \<open>Searching and replacing\<close>

fun str_find :: "string \<Rightarrow> string \<Rightarrow> nat option" where
  "str_find needle [] = (if needle = [] then Some 0 else None)"
| "str_find needle (x # xs) =
     (if prefix needle (x # xs) then Some 0 else map_option Suc (str_find needle xs))"

text \<open>\<open>matches(needle).count()\<close> for a non-empty needle: leftmost, not overlapping.\<close>

function count_matches :: "string \<Rightarrow> string \<Rightarrow> nat" where
  "count_matches needle [] = 0"
| "count_matches needle (x # xs) =
     (if needle \<noteq> [] \<and> prefix needle (x # xs)
      then Suc (count_matches needle (drop (length needle) (x # xs)))
      else count_matches needle xs)"
  by pat_completeness auto
termination
  by (relation "measure (\<lambda>(_, s). length s)") (auto simp: prefix_def)

text \<open>\<open>replace(from, to)\<close> for a non-empty \<open>from\<close>.\<close>

function str_replace :: "string \<Rightarrow> string \<Rightarrow> string \<Rightarrow> string" where
  "str_replace from to [] = []"
| "str_replace from to (x # xs) =
     (if from \<noteq> [] \<and> prefix from (x # xs)
      then to @ str_replace from to (drop (length from) (x # xs))
      else x # str_replace from to xs)"
  by pat_completeness auto
termination
  by (relation "measure (\<lambda>(_, _, s). length s)") (auto simp: prefix_def)

lemma str_find_Some:
  "str_find n s = Some i \<Longrightarrow> i + length n \<le> length s \<and> take (length n) (drop i s) = n"
proof (induction s arbitrary: i)
  case (Cons x xs)
  show ?case
  proof (cases "prefix n (x # xs)")
    case True
    then obtain zs where "x # xs = n @ zs" by (auto simp: prefix_def)
    moreover from True Cons.prems have "i = 0" by simp
    ultimately show ?thesis by (simp del: length_Cons)
  next
    case False
    with Cons show ?thesis by auto
  qed
qed (auto split: if_splits)

lemma str_find_first:
  "str_find n s = Some i \<Longrightarrow> j < i \<Longrightarrow> \<not> prefix n (drop j s)"
proof (induction s arbitrary: i j)
  case (Cons x xs)
  then show ?case by (cases j) (auto split: if_splits)
qed (auto split: if_splits)

lemma str_find_None: "str_find n s = None \<longleftrightarrow> \<not> sublist n s"
  by (induction s) (auto simp: sublist_Cons_right)

lemma str_find_empty [simp]: "str_find [] s = Some 0"
  by (cases s) auto

section \<open>Numbers in text\<close>

fun show_nat :: "nat \<Rightarrow> string" where
  "show_nat n =
     (if n < 10 then [char_of (48 + n)] else show_nat (n div 10) @ [char_of (48 + n mod 10)])"

declare show_nat.simps [simp del]

text \<open>
  \<open>{:.1}\<close> of \<open>n / d\<close> for a power of two \<open>d\<close>: the quotient is exact in \<open>f64\<close> below \<open>2^53\<close>, and the
  formatter rounds its exact decimal expansion half to even.
\<close>

definition round_half_even :: "nat \<Rightarrow> nat \<Rightarrow> nat" where
  "round_half_even n d =
     (let q = n div d; r = n mod d in
      if 2 * r < d then q else if d < 2 * r then q + 1 else if even q then q else q + 1)"

definition show_tenths :: "nat \<Rightarrow> nat \<Rightarrow> string" where
  "show_tenths n d =
     (let t = round_half_even (n * 10) d in show_nat (t div 10) @ ''.'' @ show_nat (t mod 10))"

section \<open>Characters of parts\<close>

lemma rchars_append: "b = [] \<or> \<not> is_cont (hd b) \<Longrightarrow> rchars (a @ b) = rchars a @ rchars b"
proof (induction a rule: rchars.induct)
  case (2 c cs)
  show ?case
  proof (cases "\<forall>x \<in> set cs. is_cont x")
    case True
    then have "takeWhile is_cont (cs @ b) = cs" "dropWhile is_cont (cs @ b) = b" "takeWhile is_cont cs = cs" "dropWhile is_cont cs = []"
      using 2(2) by (cases b; simp add: takeWhile_append dropWhile_append)+
    then show ?thesis by (simp only: append_Cons rchars.simps append_Nil)
  next
    case False
    then have "takeWhile is_cont (cs @ b) = takeWhile is_cont cs" "dropWhile is_cont (cs @ b) = dropWhile is_cont cs @ b"
      by (auto simp: takeWhile_append dropWhile_append)
    with 2 show ?thesis by simp
  qed
qed simp

lemma rchars_nonempty: "rchars s = [] \<longleftrightarrow> s = []"
  by (cases s) auto

lemma trim_tight: "s \<noteq> [] \<Longrightarrow> \<not> is_white (hd (rchars s)) \<Longrightarrow> \<not> is_white (last (rchars s)) \<Longrightarrow> trim s = s"
proof -
  assume s: "s \<noteq> []" "\<not> is_white (hd (rchars s))" "\<not> is_white (last (rchars s))"
  then have "trim_start s = s" 
    using concat_rchars [of s] by (cases "rchars s") (simp_all add: rchars_nonempty trim_start_def del: concat_rchars)
  moreover have "dropWhile is_white (rev (rchars s)) = rev (rchars s)"
    using s by (cases "rchars s" rule: rev_cases) (auto simp: rchars_nonempty)
  then have "trim_end s = s" by (simp add: trim_end_def)
  ultimately show ?thesis by (simp add: trim_def)
qed

text \<open>What can be the characters of a text: any run of the characters of another.\<close>

definition char_run :: "string list \<Rightarrow> bool" where
  "char_run ps \<longleftrightarrow> (\<forall>p \<in> set ps. p \<noteq> [] \<and> list_all is_cont (tl p)) \<and> (\<forall>p \<in> set (tl ps). \<not> is_cont (hd p))"

lemma rchars_run: "char_run (rchars s)"
proof (induction s rule: rchars.induct)
  case (2 c cs)
  have "list_all is_cont (takeWhile is_cont cs)" by (auto simp: list_all_iff dest: set_takeWhileD)
  moreover have "\<forall>p \<in> set (rchars (dropWhile is_cont cs)). \<not> is_cont (hd p)"
  proof (cases "dropWhile is_cont cs")
    case (Cons d ds)
    then have "\<not> is_cont d" using hd_dropWhile [of is_cont cs] by simp
    with 2 Cons show ?thesis by (simp add: char_run_def)
  next
    case Nil
    show ?thesis unfolding Nil by simp
  qed
  ultimately show ?case using 2 by (simp add: char_run_def)
qed (simp add: char_run_def)

lemma char_run_part: "char_run (a @ b @ c) \<Longrightarrow> char_run b"
  by (cases a; cases b) (auto simp: char_run_def)

lemma rchars_concat: "char_run ps \<Longrightarrow> rchars (concat ps) = ps"
proof (induction ps)
  case (Cons p ps)
  then obtain c t where p: "p = c # t" "list_all is_cont t" by (cases p) (auto simp: char_run_def)
  have run: "char_run ps" using char_run_part [of "[p]" ps "[]"] Cons.prems by simp
  have "concat ps = [] \<or> \<not> is_cont (hd (concat ps))"
    using Cons.prems by (cases ps) (auto simp: char_run_def)
  from rchars_append [OF this, of p] have "rchars (concat (p # ps)) = rchars p @ rchars (concat ps)" by simp
  also have "rchars p = [p]"
    using p by (simp add: list_all_iff takeWhile_eq_all_conv [THEN iffD2] dropWhile_eq_Nil_conv [THEN iffD2])
  finally show ?case using Cons.IH run by simp
qed simp

text \<open>What \<open>trim\<close> leaves: a run of the characters, with no space at either end.\<close>

lemma trim_run:
  obtains a m c where "rchars s = a @ m @ c" "trim s = concat m" "rchars (trim s) = m"
    "m = [] \<or> \<not> is_white (hd m) \<and> \<not> is_white (last m)"
proof -
  define d where "d = dropWhile is_white (rchars s)"
  define m where "m = rev (dropWhile is_white (rev d))"
  have 1: "rchars s = takeWhile is_white (rchars s) @ d" by (simp add: d_def)
  have 2: "d = m @ rev (takeWhile is_white (rev d))"
    unfolding m_def by (metis rev_append rev_rev_ident takeWhile_dropWhile_id)
  have s: "rchars s = takeWhile is_white (rchars s) @ m @ rev (takeWhile is_white (rev d))" using 1 2 by simp
  have run: "char_run (takeWhile is_white (rchars s) @ m @ rev (takeWhile is_white (rev d)))"
    unfolding s [symmetric] by (rule rchars_run)
  have m_run: "char_run m" by (rule char_run_part [OF run])
  have "char_run (takeWhile is_white (rchars s) @ d @ [])" using rchars_run [of s] 1 by simp
  from rchars_concat [OF char_run_part [OF this]] have "rchars (trim_start s) = d" by (simp add: trim_start_def d_def)
  then have t: "trim s = concat m" by (simp add: trim_def trim_end_def m_def)
  have ends: "m = [] \<or> \<not> is_white (hd m) \<and> \<not> is_white (last m)"
  proof (cases "m = []")
    case False
    then have "last m = hd (dropWhile is_white (rev d))" "dropWhile is_white (rev d) \<noteq> []" by (simp_all add: m_def last_rev)
    then have "\<not> is_white (last m)" using hd_dropWhile by metis
    moreover have "hd m = hd d" "d \<noteq> []" using 2 False by (metis hd_append2, auto simp: m_def)
    then have "\<not> is_white (hd m)" using hd_dropWhile unfolding d_def by metis
    ultimately show ?thesis by simp
  qed simp
  show thesis by (rule that [OF s t _ ends]) (simp add: t rchars_concat [OF m_run])
qed

lemma trim_trim [simp]: "trim (trim s) = trim s"
proof (cases "trim s = []")
  case False
  obtain m where "rchars (trim s) = m" "m = [] \<or> \<not> is_white (hd m) \<and> \<not> is_white (last m)"
    using trim_run [of s] by metis
  with False trim_tight [of "trim s"] show ?thesis by (auto simp: rchars_nonempty)
next
  case True
  show ?thesis unfolding True by (simp add: trim_def trim_start_def trim_end_def)
qed

lemma utf8_valid_concat: "\<forall>p \<in> set ps. utf8_valid p \<Longrightarrow> utf8_valid (concat ps)"
  by (induction ps) (simp_all add: utf8_rest, simp add: utf8_valid.simps)

lemma cont_bytes_front: "cont_bytes n t \<Longrightarrow> n \<le> k \<Longrightarrow> cont_bytes n (take k t)"
proof (induction n t arbitrary: k rule: cont_bytes.induct)
  case (2 n c s)
  then show ?case by (cases k) simp_all
qed simp_all

lemma first_cont_front: "first_cont lo hi t \<Longrightarrow> first_cont lo hi (take (Suc k) t)"
  by (cases t) (simp_all add: first_cont_def)

lemma utf8_whole_char:
  assumes "char_width s \<noteq> 0"
  shows "utf8_valid (take (char_width s) s)"
proof -
  obtain c t where s: "s = c # t" using assms by (cases s) (auto simp: char_width_def)
  have "char_width (take (char_width s) s) = char_width s"
    using assms cont_bytes_front [of _ t] first_cont_front [of _ _ t]
    by (auto simp: s char_width_def Let_def numeral_eq_Suc split: if_splits)
  then show ?thesis using assms utf8_step [of "take (char_width s) s"] by (simp add: utf8_valid.simps [of "[]"])
qed

lemma rchars_valid: "utf8_valid s \<Longrightarrow> \<forall>p \<in> set (rchars s). utf8_valid p"
proof (induction s rule: utf8_valid.induct)
  case (1 s)
  show ?case
  proof (cases "s = []")
    case False
    then have w: "char_width s \<noteq> 0" by (rule utf8_width [OF 1(2)])
    note spec = char_width_spec [OF w]
    let ?a = "take (char_width s) s" and ?b = "drop (char_width s) s"
    have b: "utf8_valid ?b" using utf8_step [OF w] 1(2) by simp
    then have "?b = [] \<or> \<not> is_cont (hd ?b)" using char_width_spec [of ?b] utf8_width [of ?b] by blast
    from rchars_append [OF this, of ?a] have s: "rchars s = rchars ?a @ rchars ?b" by simp
    have "\<forall>x \<in> set (tl ?a). is_cont x"
    proof
      fix x assume "x \<in> set (tl ?a)"
      then obtain i where "i < length (tl ?a)" "x = tl ?a ! i" by (metis in_set_conv_nth)
      then have "x = s ! Suc i" "Suc i < char_width s" by (auto simp: nth_tl)
      with spec show "is_cont x" by simp
    qed
    then have a: "rchars ?a = [?a]" using spec w
      by (cases ?a) (simp_all add: takeWhile_eq_all_conv [THEN iffD2] dropWhile_eq_Nil_conv [THEN iffD2])
    have "utf8_valid ?a" using utf8_whole_char [OF w] .
    then show ?thesis using 1(1) [OF False w b] s a by simp
  qed simp
qed

lemma utf8_valid_trim: "utf8_valid s \<Longrightarrow> utf8_valid (trim s)"
proof -
  assume "utf8_valid s"
  then have "\<forall>p \<in> set (rchars s). utf8_valid p" by (rule rchars_valid)
  then show ?thesis using trim_run [of s] utf8_valid_concat by (metis UnCI set_append)
qed

end
