(* ===== verification/Tools_Truncate.thy ===== *)
theory Tools_Truncate
  imports Rust_Str
begin

text \<open>
  Bounding tool output: the head of a file, the tail of a command
  (\<open>crates/tabverse-agent-tools/src/truncate.rs\<close>).
\<close>

definition DEFAULT_MAX_OUTPUT_LINES :: nat where "DEFAULT_MAX_OUTPUT_LINES = 2000"
definition DEFAULT_MAX_OUTPUT_BYTES :: nat where "DEFAULT_MAX_OUTPUT_BYTES = 50 * 1024"

datatype truncated_by = ByLines | ByBytes

record truncation =
  tr_lines :: nat
  tr_bytes :: nat
  tr_original_lines :: nat
  tr_truncated :: bool
  tr_truncated_by :: "truncated_by option"

record truncated =
  td_text :: string
  td_info :: truncation

record limits =
  max_lines :: nat
  max_bytes :: nat

definition limits_default :: limits where
  "limits_default = \<lparr>max_lines = DEFAULT_MAX_OUTPUT_LINES, max_bytes = DEFAULT_MAX_OUTPUT_BYTES\<rparr>"

datatype keep = Head | Tail

definition kept_size :: "string list \<Rightarrow> nat" where
  "kept_size kept = sum_list (map (\<lambda>l. length l + 1) kept) - 1"

text \<open>The byte loop: whole lines go from the far end until the rest fits or one line is left.\<close>

function byte_loop :: "keep \<Rightarrow> nat \<Rightarrow> string list \<Rightarrow> bool \<Rightarrow> string list \<times> bool" where
  "byte_loop k limit kept by_bytes =
     (if kept_size kept \<le> limit \<or> length kept \<le> 1 then (kept, by_bytes)
      else byte_loop k limit (case k of Head \<Rightarrow> butlast kept | Tail \<Rightarrow> tl kept) True)"
  by pat_completeness auto
termination
  by (relation "measure (\<lambda>(_, _, kept, _). length kept)") (auto split: keep.splits)

declare byte_loop.simps [simp del]

definition truncate :: "string \<Rightarrow> limits \<Rightarrow> keep \<Rightarrow> truncated" where
  "truncate content lim k =
     (let all_lines = split_on nl content;
          original_lines = length all_lines;
          (kept0, by_lines) =
            (if max_lines lim < original_lines
             then ((case k of
                      Head \<Rightarrow> take (max_lines lim) all_lines
                    | Tail \<Rightarrow> drop (original_lines - max_lines lim) all_lines), True)
             else (all_lines, False));
          (kept, by_bytes) = byte_loop k (max_bytes lim) kept0 False;
          text = join [nl] kept;
          tb = (if by_bytes then Some ByBytes else if by_lines then Some ByLines else None)
      in \<lparr>td_text = text,
          td_info = \<lparr>tr_lines = length kept, tr_bytes = length text,
                     tr_original_lines = original_lines,
                     tr_truncated = (tb \<noteq> None), tr_truncated_by = tb\<rparr>\<rparr>)"

definition truncate_head :: "string \<Rightarrow> limits \<Rightarrow> truncated" where
  "truncate_head content lim = truncate content lim Head"

definition truncate_tail :: "string \<Rightarrow> limits \<Rightarrow> truncated" where
  "truncate_tail content lim = truncate content lim Tail"

definition format_size :: "nat \<Rightarrow> string" where
  "format_size n =
     (if n < 1024 then show_nat n @ ''B''
      else if n < 1024 * 1024 then show_tenths n 1024 @ ''KB''
      else show_tenths n (1024 * 1024) @ ''MB'')"

section \<open>What is kept\<close>

text \<open>The kept end of a list of lines, \<open>n\<close> long.\<close>

definition keep_n :: "keep \<Rightarrow> nat \<Rightarrow> 'a list \<Rightarrow> 'a list" where
  "keep_n k n ls = (case k of Head \<Rightarrow> take n ls | Tail \<Rightarrow> last_n n ls)"

lemma length_keep_n [simp]: "length (keep_n k n ls) = min n (length ls)"
  by (cases k) (simp_all add: keep_n_def)

lemma keep_n_keep_n: "m \<le> n \<Longrightarrow> keep_n k m (keep_n k n ls) = keep_n k m ls"
  by (cases k) (simp_all add: keep_n_def last_n_last_n min_absorb1)

lemma keep_n_all [simp]: "length ls \<le> n \<Longrightarrow> keep_n k n ls = ls"
  by (cases k) (simp_all add: keep_n_def)

lemma shorten_eq:
  "(case k of Head \<Rightarrow> butlast ls | Tail \<Rightarrow> tl ls) = keep_n k (length ls - 1) ls"
  by (cases k; cases ls) (simp_all add: keep_n_def last_n_def butlast_conv_take)

lemma kept_size_eq: "ls \<noteq> [] \<Longrightarrow> kept_size ls = length (join [nl] ls)"
  by (simp add: kept_size_def join_length)

lemma byte_loop_spec:
  "\<exists>n. byte_loop k limit ls b = (keep_n k n ls, b \<or> n < length ls) \<and> n \<le> length ls
     \<and> (n \<le> 1 \<or> kept_size (keep_n k n ls) \<le> limit) \<and> (ls \<noteq> [] \<longrightarrow> 0 < n)
     \<and> (\<forall>m. n < m \<and> m \<le> length ls \<longrightarrow> limit < kept_size (keep_n k m ls))"
proof (induction k limit ls b rule: byte_loop.induct)
  case (1 k limit ls b)
  show ?case
  proof (cases "kept_size ls \<le> limit \<or> length ls \<le> 1")
    case True
    then show ?thesis
      by (intro exI [of _ "length ls"]) (auto simp: byte_loop.simps [of k limit ls b])
  next
    case False
    let ?ls = "keep_n k (length ls - 1) ls"
    have len: "length ?ls = length ls - 1" by simp
    then have ne: "?ls \<noteq> []" using False by (metis One_nat_def diff_is_0_eq list.size(3))
    from "1.IH" [OF False, unfolded shorten_eq] obtain n where n:
      "byte_loop k limit ?ls True = (keep_n k n ?ls, True)" "n \<le> length ls - 1"
      "n \<le> 1 \<or> kept_size (keep_n k n ?ls) \<le> limit" "0 < n"
      "\<And>m. n < m \<Longrightarrow> m \<le> length ls - 1 \<Longrightarrow> limit < kept_size (keep_n k m ?ls)"
      using False ne by (auto simp: len)
    have max: "limit < kept_size (keep_n k m ls)" if "n < m" "m \<le> length ls" for m
    proof (cases "m = length ls")
      case True
      with False show ?thesis by simp
    next
      case False
      with that n(5) [of m] show ?thesis by (simp add: keep_n_keep_n)
    qed
    from False have "n < length ls" using n(2) by auto
    with False n max show ?thesis
      by (intro exI [of _ n])
         (auto simp: byte_loop.simps [of k limit ls b] shorten_eq keep_n_keep_n)
  qed
qed

lemma truncate_spec:
  "\<exists>n. truncate content lim k =
       \<lparr>td_text = join [nl] (keep_n k n (split_on nl content)),
        td_info = \<lparr>tr_lines = n, tr_bytes = length (join [nl] (keep_n k n (split_on nl content))),
          tr_original_lines = length (split_on nl content),
          tr_truncated = (n < length (split_on nl content)),
          tr_truncated_by =
            (if n < min (max_lines lim) (length (split_on nl content)) then Some ByBytes
             else if n < length (split_on nl content) then Some ByLines else None)\<rparr>\<rparr>
     \<and> n \<le> min (max_lines lim) (length (split_on nl content))
     \<and> (n \<le> 1 \<or> length (join [nl] (keep_n k n (split_on nl content))) \<le> max_bytes lim)
     \<and> (0 < max_lines lim \<longrightarrow> 0 < n)
     \<and> (\<forall>m. n < m \<and> m \<le> min (max_lines lim) (length (split_on nl content)) \<longrightarrow>
           max_bytes lim < length (join [nl] (keep_n k m (split_on nl content))))"
proof -
  let ?all = "split_on nl content"
  let ?c = "min (max_lines lim) (length ?all)"
  let ?ls = "keep_n k ?c ?all"
  have kept0: "(if max_lines lim < length ?all
       then ((case k of Head \<Rightarrow> take (max_lines lim) ?all
              | Tail \<Rightarrow> drop (length ?all - max_lines lim) ?all), True)
       else (?all, False)) = (?ls, max_lines lim < length ?all)"
    by (cases k) (auto simp: keep_n_def last_n_def)
  obtain n where n: "byte_loop k (max_bytes lim) ?ls False = (keep_n k n ?ls, n < length ?ls)"
      "n \<le> length ?ls" "n \<le> 1 \<or> kept_size (keep_n k n ?ls) \<le> max_bytes lim" "?ls \<noteq> [] \<longrightarrow> 0 < n"
      "\<forall>m. n < m \<and> m \<le> length ?ls \<longrightarrow> max_bytes lim < kept_size (keep_n k m ?ls)"
    using byte_loop_spec [of k "max_bytes lim" ?ls False] by auto
  have len: "length ?ls = ?c" by simp
  have ne: "keep_n k m ?all \<noteq> []" if "0 < m" for m
    using that by (metis length_keep_n length_greater_0_conv min_less_iff_conj split_on_nonempty)
  have kk: "keep_n k n ?ls = keep_n k n ?all" using n(2) len by (simp add: keep_n_keep_n)
  have fits: "n \<le> 1 \<or> length (join [nl] (keep_n k n ?all)) \<le> max_bytes lim"
    using n(3) kk kept_size_eq [OF ne, of n] by (cases "n = 0") auto
  have maxi: "max_bytes lim < length (join [nl] (keep_n k m ?all))" if "n < m" "m \<le> ?c" for m
    using n(5) [rule_format, of m] that len kept_size_eq [OF ne, of m]
    by (simp add: keep_n_keep_n)
  have pos: "0 < max_lines lim \<longrightarrow> 0 < n"
    using n(4) ne [of ?c] by (metis length_greater_0_conv min_less_iff_conj split_on_nonempty)
  show ?thesis
    using n(1,2) kk fits maxi pos len
    by (intro exI [of _ n]) (auto simp: truncate_def kept0 Let_def)
qed

text \<open>reading keeps the first lines and commands keep the last ones, the longest such run that
  respects both ceilings (one line always stays, however long), and the report says exactly
  how many lines and bytes are returned, how many there were, and which ceiling cut.\<close>

theorem truncate_keeps_longest:
  fixes content :: string and lim :: limits and k :: keep
  defines "t \<equiv> truncate content lim k" and "ls \<equiv> split_on nl content"
  shows "td_text t = join [nl] (keep_n k (tr_lines (td_info t)) ls)
    \<and> tr_bytes (td_info t) = length (td_text t)
    \<and> tr_original_lines (td_info t) = length ls
    \<and> tr_lines (td_info t) \<le> max_lines lim
    \<and> (tr_lines (td_info t) \<le> 1 \<or> length (td_text t) \<le> max_bytes lim)
    \<and> (\<forall>m \<in> {tr_lines (td_info t)<..min (max_lines lim) (length ls)}.
         max_bytes lim < length (join [nl] (keep_n k m ls)))
    \<and> (tr_truncated (td_info t) \<longleftrightarrow> tr_lines (td_info t) < length ls)
    \<and> (tr_truncated_by (td_info t) = Some ByBytes \<longleftrightarrow>
         tr_lines (td_info t) < min (max_lines lim) (length ls))"
  using truncate_spec [of content lim k] unfolding t_def ls_def by force

theorem truncate_keeps_longest_witness:
  "tr_lines (td_info (truncate ''ab'' \<lparr>max_lines = 1, max_bytes = 1\<rparr> Head)) \<le> 1
   \<and> tr_bytes (td_info (truncate ''ab'' \<lparr>max_lines = 1, max_bytes = 1\<rparr> Head))
       = length (td_text (truncate ''ab'' \<lparr>max_lines = 1, max_bytes = 1\<rparr> Head))"
  using truncate_keeps_longest [of "''ab''" "\<lparr>max_lines = 1, max_bytes = 1\<rparr>" Head] by simp

text \<open>Output within both ceilings comes back unchanged and unmarked.\<close>

theorem truncate_small_unchanged:
  assumes "length (split_on nl content) \<le> max_lines lim" "length content \<le> max_bytes lim"
  shows "td_text (truncate content lim k) = content \<and> \<not> tr_truncated (td_info (truncate content lim k))"
proof -
  obtain n where n: "truncate content lim k =
       \<lparr>td_text = join [nl] (keep_n k n (split_on nl content)),
        td_info = td_info (truncate content lim k)\<rparr>"
      "tr_truncated (td_info (truncate content lim k)) \<longleftrightarrow> n < length (split_on nl content)"
      "n \<le> length (split_on nl content)"
      "\<forall>m. n < m \<and> m \<le> min (max_lines lim) (length (split_on nl content)) \<longrightarrow>
           max_bytes lim < length (join [nl] (keep_n k m (split_on nl content)))"
    using truncate_spec [of content lim k] by force
  have "n = length (split_on nl content)"
  proof (rule ccontr)
    assume "n \<noteq> length (split_on nl content)"
    with n(3,4) assms(1) have "max_bytes lim < length content"
      by (auto dest!: spec [of _ "length (split_on nl content)"])
    with assms(2) show False by simp
  qed
  then show ?thesis by (subst n(1)) (simp add: n(2))
qed

theorem truncate_small_unchanged_witness:
  "td_text (truncate ''ab'' \<lparr>max_lines = 1, max_bytes = 2\<rparr> Tail) = ''ab''
   \<and> \<not> tr_truncated (td_info (truncate ''ab'' \<lparr>max_lines = 1, max_bytes = 2\<rparr> Tail))"
  by (rule truncate_small_unchanged) simp_all

end
