(* ===== verification/Tab_Json.thy ===== *)
theory Tab_Json
  imports Rust_Str
begin

text \<open>JSON values as the modelled code uses them (\<open>serde_json::Value\<close>): a number is its text, an
  object lists its members in order.\<close>

datatype json =
    JNull | JBool bool | JNum string | JStr string | JArr "json list" | JObj "(string \<times> json) list"

fun json_as_object :: "json \<Rightarrow> (string \<times> json) list option" where
  "json_as_object (JObj kvs) = Some kvs"
| "json_as_object _ = None"

fun json_as_str :: "json \<Rightarrow> string option" where
  "json_as_str (JStr s) = Some s"
| "json_as_str _ = None"

text \<open>\<open>value.get(key)\<close>.\<close>

definition json_get :: "string \<Rightarrow> json \<Rightarrow> json option" where
  "json_get key v = Option.bind (json_as_object v) (\<lambda>kvs. map_of kvs key)"

end
