(* ===== verification/Agent_Types.thy ===== *)
theory Agent_Types
  imports Tools_Truncate Tab_Json
begin

text \<open>
  The vocabulary of the agent: the conversation and the provider's surface
  (\<open>crates/tabverse-agent/src/provider.rs\<close>), tool output
  (\<open>crates/tabverse-agent-tools/src/lib.rs\<close>) and session events
  (\<open>crates/tabverse-agent/src/event.rs\<close>). A model, a person or a tool is code outside the
  model: it is a function of a world of any type \<open>'w\<close>, which it returns changed, and a failed
  call carries the text of its error.
\<close>

section \<open>The conversation\<close>

record tool_spec =
  ts_name :: string
  ts_description :: string
  ts_parameters :: json

record tool_call =
  tc_id :: string
  tc_name :: string
  tc_input :: json

datatype message =
    User string
  | Assistant string "tool_call list"
  | ToolResult string string bool   \<comment> \<open>call id, content, is error\<close>

datatype provider_event = PText string | PThinking string

record turn_outcome =
  to_text :: string
  to_tool_calls :: "tool_call list"

text \<open>\<open>Provider::stream\<close>: the deltas it emits, then the outcome or an error.\<close>

type_synonym 'w provider =
  "'w \<Rightarrow> message list \<Rightarrow> tool_spec list \<Rightarrow> provider_event list \<times> (string + turn_outcome) \<times> 'w"

section \<open>Tools\<close>

record tool_location =
  tl_path :: string
  tl_line :: "nat option"

datatype content_block = TextBlock string | ImageBlock string string

fun as_text :: "content_block \<Rightarrow> string" where
  "as_text (TextBlock t) = t"
| "as_text (ImageBlock _ _) = []"

record tool_output =
  o_content :: "content_block list"
  o_truncation :: "truncation option"
  o_location :: "tool_location option"

definition joined_text :: "tool_output \<Rightarrow> string" where
  "joined_text out = join [] (map as_text (o_content out))"

text \<open>A tool: what it advertises, and what running it emits and returns.\<close>

record 'w tool =
  t_name :: string
  t_description :: string
  t_parameters :: json
  t_execute :: "'w \<Rightarrow> json \<Rightarrow> string list \<times> (string + tool_output) \<times> 'w"

section \<open>Events\<close>

datatype stop_reason = Done | Cancelled | RoundLimit | StopError string

datatype permission_outcome = AllowedByRule | Approved | Denied string

record tool_call_view =
  v_call_id :: string
  v_name :: string
  v_input :: json

record location_view =
  lv_path :: string
  lv_line :: "nat option"

definition location_view_from :: "tool_location \<Rightarrow> location_view" where
  "location_view_from l = \<lparr>lv_path = tl_path l, lv_line = tl_line l\<rparr>"

datatype session_event =
    UserPrompt string
  | TurnStarted nat
  | AssistantText string
  | AssistantThinking string
  | PermissionRequested tool_call_view
  | PermissionResolved string permission_outcome
  | ToolStarted tool_call_view
  | ToolProgress string string
  | ToolFinished string string bool "location_view option"
  | TurnEnded nat stop_reason
  | Compacted nat nat nat

text \<open>The two readers of an event log.\<close>

definition assistant_text :: "session_event list \<Rightarrow> string" where
  "assistant_text evs =
     concat (List.map_filter (\<lambda>e. case e of AssistantText d \<Rightarrow> Some d | _ \<Rightarrow> None) evs)"

definition tools_run :: "session_event list \<Rightarrow> string list" where
  "tools_run evs = List.map_filter (\<lambda>e. case e of ToolStarted v \<Rightarrow> Some (v_name v) | _ \<Rightarrow> None) evs"

section \<open>A scripted provider\<close>

text \<open>
  \<open>ScriptedProvider\<close>: answers from a queue, an empty turn once it is used up, and remembers
  every request.
\<close>

record scripted =
  sp_turns :: "turn_outcome list"
  sp_seen :: "message list list"
  sp_tools_seen :: "tool_spec list list"
  sp_fails_with :: "string option"

definition scripted_new :: "turn_outcome list \<Rightarrow> scripted" where
  "scripted_new turns =
     \<lparr>sp_turns = turns, sp_seen = [], sp_tools_seen = [], sp_fails_with = None\<rparr>"

definition scripted_failing :: "string \<Rightarrow> scripted" where
  "scripted_failing msg = (scripted_new [])\<lparr>sp_fails_with := Some msg\<rparr>"

definition scripted_stream :: "scripted provider" where
  "scripted_stream w messages tools =
     (let w1 = w\<lparr>sp_seen := sp_seen w @ [messages], sp_tools_seen := sp_tools_seen w @ [tools]\<rparr>
      in case sp_fails_with w1 of
           Some msg \<Rightarrow> ([], Inl msg, w1)
         | None \<Rightarrow>
             let outcome = (case sp_turns w1 of
                              [] \<Rightarrow> \<lparr>to_text = [], to_tool_calls = []\<rparr> | o1 # _ \<Rightarrow> o1);
                 w2 = w1\<lparr>sp_turns := tl (sp_turns w1)\<rparr>
             in ((if to_text outcome = [] then [] else [PText (to_text outcome)]),
                 Inr outcome, w2))"

definition turn_calling :: "string \<Rightarrow> string \<Rightarrow> json \<Rightarrow> turn_outcome" where
  "turn_calling call_id name input =
     \<lparr>to_text = [], to_tool_calls = [\<lparr>tc_id = call_id, tc_name = name, tc_input = input\<rparr>]\<rparr>"

definition turn_saying :: "string \<Rightarrow> turn_outcome" where
  "turn_saying text = \<lparr>to_text = text, to_tool_calls = []\<rparr>"

text \<open>\<open>DemoProvider\<close>: a three-act script driven by the tool results already in the conversation.\<close>

fun is_tool_result :: "message \<Rightarrow> bool" where
  "is_tool_result (ToolResult _ _ _) = True"
| "is_tool_result _ = False"

definition demo_stream :: "'w provider" where
  "demo_stream w messages tools =
     (let results = length (filter is_tool_result messages) in
      if results = 0 then
        (let text = ''Let me see what is in this folder.'' in
         ([PText text],
          Inr \<lparr>to_text = text, to_tool_calls =
                 [\<lparr>tc_id = ''demo-1'', tc_name = ''glob'',
                   tc_input = JObj [(''pattern'', JStr ''**/*'')]\<rparr>]\<rparr>, w))
      else if results = 1 then
        (let text = ''Now I would like to run a command.'' in
         ([PText text],
          Inr \<lparr>to_text = text, to_tool_calls =
                 [\<lparr>tc_id = ''demo-2'', tc_name = ''bash'',
                   tc_input = JObj [(''command'', JStr ''echo hello from the agent'')]\<rparr>]\<rparr>, w))
      else
        (let text = ''That is everything for this demo run.'' in
         ([PText text], Inr \<lparr>to_text = text, to_tool_calls = []\<rparr>, w)))"

end
