(* ===== verification/Agent_Compact.thy ===== *)
theory Agent_Compact
  imports Agent_Types Complex_Main
begin

text \<open>
  Keeping a conversation inside the context window: the estimate, the decision to compact,
  the summary and the facts carried forward beside it
  (\<open>crates/tabverse-agent/src/compact.rs\<close>). The text of a JSON value
  (\<open>serde_json\<close>'s \<open>to_string\<close>) is a parameter \<open>jt\<close>; the fraction of the window is a rational and
  the product of the two is taken exactly.
\<close>

section \<open>The budget and the estimate\<close>

record budget =
  context_tokens :: nat
  compact_at :: rat
  keep_recent :: nat

definition budget_default :: budget where
  "budget_default = \<lparr>context_tokens = 128000, compact_at = 3 / 4, keep_recent = 6\<rparr>"

definition threshold_tokens :: "budget \<Rightarrow> nat" where
  "threshold_tokens b = nat \<lfloor>of_nat (context_tokens b) * compact_at b\<rfloor>"

definition estimate_tokens :: "string \<Rightarrow> nat" where
  "estimate_tokens text = (length text + 3) div 4"

definition OVERHEAD :: nat where "OVERHEAD = 4"

definition estimate_message :: "(json \<Rightarrow> string) \<Rightarrow> message \<Rightarrow> nat" where
  "estimate_message jt m = OVERHEAD + (case m of
      User text \<Rightarrow> estimate_tokens text
    | Assistant text tool_calls \<Rightarrow>
        estimate_tokens text
        + sum_list (map (\<lambda>c. estimate_tokens (tc_name c) + estimate_tokens (jt (tc_input c))) tool_calls)
    | ToolResult _ content _ \<Rightarrow> estimate_tokens content)"

definition estimate_messages :: "(json \<Rightarrow> string) \<Rightarrow> message list \<Rightarrow> nat" where
  "estimate_messages jt ms = sum_list (map (estimate_message jt) ms)"

definition needs_compaction :: "(json \<Rightarrow> string) \<Rightarrow> message list \<Rightarrow> budget \<Rightarrow> bool" where
  "needs_compaction jt ms b =
     (if length ms \<le> keep_recent b + 1 then False
      else threshold_tokens b < estimate_messages jt ms)"

section \<open>The facts\<close>

definition MAX_FACT_LEN :: nat where "MAX_FACT_LEN = 120"
definition MAX_FACTS :: nat where "MAX_FACTS = 40"

definition first_line :: "string \<Rightarrow> string" where
  "first_line text = trim (case str_lines text of [] \<Rightarrow> [] | l # _ \<Rightarrow> l)"

definition clip :: "string \<Rightarrow> string" where
  "clip text =
     (if length (rchars text) \<le> MAX_FACT_LEN then text
      else concat (take MAX_FACT_LEN (rchars text)) @ [CHR 0xE2, CHR 0x80, CHR 0xA6])"

fun first_str_member :: "(string \<times> json) list \<Rightarrow> string list \<Rightarrow> string option" where
  "first_str_member kvs [] = None"
| "first_str_member kvs (key # keys) =
     (case Option.bind (map_of kvs key) json_as_str of
        Some value \<Rightarrow> Some value
      | None \<Rightarrow> first_str_member kvs keys)"

definition describe_call :: "string \<Rightarrow> json \<Rightarrow> string option" where
  "describe_call name input =
     Option.bind (json_as_object input) (\<lambda>kvs.
       map_option (\<lambda>value. name @ '': '' @ clip (first_line value))
         (first_str_member kvs [''path'', ''file_path'', ''command'', ''pattern'']))"

record fact_state =
  fa_facts :: "string list"
  fa_seen :: "string list"
  fa_dropped :: nat

definition push_fact :: "string \<Rightarrow> fact_state \<Rightarrow> fact_state" where
  "push_fact item st =
     (if length (fa_facts st) < MAX_FACTS then st\<lparr>fa_facts := fa_facts st @ [item]\<rparr>
      else st\<lparr>fa_dropped := fa_dropped st + 1\<rparr>)"

text \<open>\<open>seen.insert(key)\<close> guarding \<open>push_fact\<close>.\<close>

definition note_fact :: "string \<Rightarrow> string \<Rightarrow> fact_state \<Rightarrow> fact_state" where
  "note_fact key item st =
     (if key \<in> set (fa_seen st) then st
      else push_fact item (st\<lparr>fa_seen := key # fa_seen st\<rparr>))"

definition facts_of_call :: "tool_call \<Rightarrow> fact_state \<Rightarrow> fact_state" where
  "facts_of_call call st =
     (case describe_call (tc_name call) (tc_input call) of
        None \<Rightarrow> st | Some item \<Rightarrow> note_fact item item st)"

fun facts_of_message :: "message \<Rightarrow> fact_state \<Rightarrow> fact_state" where
  "facts_of_message (User text) st =
     (let asked = clip (first_line text) in
      if asked = [] then st else note_fact asked (''asked: '' @ asked) st)"
| "facts_of_message (Assistant _ tool_calls) st = fold facts_of_call tool_calls st"
| "facts_of_message (ToolResult _ _ _) st = st"

definition extract_facts :: "message list \<Rightarrow> string list" where
  "extract_facts middle =
     (let st = fold facts_of_message middle \<lparr>fa_facts = [], fa_seen = [], fa_dropped = 0\<rparr> in
      if 0 < fa_dropped st
      then fa_facts st @ [''('' @ show_nat (fa_dropped st) @ '' further items not listed)'']
      else fa_facts st)"

section \<open>Compaction\<close>

record compaction =
  c_messages :: "message list"
  c_tokens_before :: nat
  c_tokens_after :: nat
  c_replaced :: nat

definition SUMMARY_INSTRUCTION :: string where
  "SUMMARY_INSTRUCTION =
     ''Summarise the conversation so far for your own future reference. You are about to '' @
     ''continue this work with the detail below removed, so write what you would need to '' @
     ''pick it up: the goal, what has already been done and what came of it, decisions '' @
     ''made and why, what failed and should not be retried the same way, and what remains. '' @
     ''Be specific '' @ [CHR 0xE2, CHR 0x80, CHR 0x94] @
     '' name files, symbols, commands and error text rather than describing '' @
     ''them. Write prose, not a preamble; do not address the user.''"

definition ask_for_summary ::
  "'w provider \<Rightarrow> 'w \<Rightarrow> message list \<Rightarrow> (string + string) \<times> 'w" where
  "ask_for_summary provider w middle =
     (case provider w (middle @ [User SUMMARY_INSTRUCTION]) [] of
        (_, Inl e, w1) \<Rightarrow> (Inl e, w1)
      | (_, Inr outcome, w1) \<Rightarrow> (Inr (to_text outcome), w1))"

definition folded_text :: "string \<Rightarrow> string list \<Rightarrow> string" where
  "folded_text summary facts =
     ''[Earlier conversation, compacted]'' @ [nl, nl] @ summary @
     (if facts = [] then []
      else [nl, nl] @ ''From the record, verbatim:'' @ [nl] @
           concat (map (\<lambda>item. ''- '' @ item @ [nl]) facts))"

definition compact ::
  "(json \<Rightarrow> string) \<Rightarrow> 'w provider \<Rightarrow> 'w \<Rightarrow> message list \<Rightarrow> budget \<Rightarrow> (string + compaction) \<times> 'w" where
  "compact jt provider w ms b =
     (let tokens_before = estimate_messages jt ms;
          split = length ms - keep_recent b;
          head = take (min 1 split) ms;
          middle = drop (length head) (take split ms);
          tail = drop split ms
      in if middle = [] then
           (Inr \<lparr>c_messages = ms, c_tokens_before = tokens_before, c_tokens_after = tokens_before,
                 c_replaced = 0\<rparr>, w)
         else case ask_for_summary provider w middle of
           (Inl e, w1) \<Rightarrow> (Inl e, w1)
         | (Inr summary, w1) \<Rightarrow>
             (let out = head @ [User (folded_text summary (extract_facts middle))] @ tail
              in (Inr \<lparr>c_messages = out, c_tokens_before = tokens_before,
                       c_tokens_after = estimate_messages jt out,
                       c_replaced = length middle\<rparr>, w1)))"

section \<open>What a compaction keeps\<close>

lemma compact_cases:
  assumes "compact jt provider w ms b = (Inr c, w')"
  obtains (same) "length ms \<le> keep_recent b + 1" "c_messages c = ms" "c_replaced c = 0" "w' = w"
  | (folded) t mid where "keep_recent b + 1 < length ms"
      "ms = take 1 ms @ mid @ last_n (keep_recent b) ms" "c_replaced c = length mid"
      "c_messages c = take 1 ms @ [User (folded_text t (extract_facts mid))] @ last_n (keep_recent b) ms"
proof (cases "length ms \<le> keep_recent b + 1")
  case True
  then have "drop (length (take (min 1 (length ms - keep_recent b)) ms))
      (take (length ms - keep_recent b) ms) = []"
    by auto
  moreover have "length ms - keep_recent b \<le> Suc 0" using True by simp
  ultimately show ?thesis using assms True same by (auto simp: compact_def Let_def)
next
  case False
  let ?split = "length ms - keep_recent b"
  let ?mid = "drop 1 (take ?split ms)"
  from False have h: "min 1 ?split = 1" "length (take 1 ms) = 1" "length ?mid = ?split - 1"
    by auto
  then have ne: "?mid \<noteq> []" using False by (cases ?mid) auto
  have tl: "drop ?split ms = last_n (keep_recent b) ms" by (simp add: last_n_def)
  have "ms = take 1 (take ?split ms) @ ?mid @ drop ?split ms"
    by (metis append.assoc append_take_drop_id)
  moreover have "take 1 (take ?split ms) = take 1 ms" using h(1) by simp
  ultimately have cat: "ms = take 1 ms @ ?mid @ last_n (keep_recent b) ms" by (simp only: tl)
  from assms ne h obtain s where
    "ask_for_summary provider w ?mid = (Inr s, w')" "c_replaced c = length ?mid"
    "c_messages c = take 1 ms @ [User (folded_text s (extract_facts ?mid))] @ last_n (keep_recent b) ms"
    unfolding compact_def Let_def h(1) h(2) tl
    by (auto split: prod.splits sum.splits)
  with folded [OF _ cat] False show ?thesis by auto
qed

text \<open>a compaction leaves the task and the recent messages exactly as they were and replaces what
  lies between by one message; the count it reports is the number of messages replaced.\<close>

theorem compact_keeps_task_and_recent:
  assumes "compact jt provider w ms b = (Inr c, w')"
  shows "take 1 (c_messages c) = take 1 ms
    \<and> last_n (keep_recent b) (c_messages c) = last_n (keep_recent b) ms
    \<and> (c_replaced c = 0 \<longrightarrow> c_messages c = ms)
    \<and> (0 < c_replaced c \<longrightarrow> length (c_messages c) + c_replaced c = length ms + 1)"
proof (rule compact_cases [OF assms])
  fix t mid
  assume f: "keep_recent b + 1 < length ms" "ms = take 1 ms @ mid @ last_n (keep_recent b) ms"
    "c_replaced c = length mid"
    "c_messages c = take 1 ms @ [User (folded_text t (extract_facts mid))] @ last_n (keep_recent b) ms"
  have l: "length (take 1 ms) = 1" "length (last_n (keep_recent b) ms) = keep_recent b"
    using f(1) by auto
  have "take 1 (c_messages c) = take 1 ms" unfolding f(4) using l(1) by simp
  moreover have "last_n (keep_recent b) (c_messages c) = last_n (keep_recent b) ms"
    unfolding f(4) append.assoc [symmetric] by (rule last_n_append) (rule l(2))
  moreover have "length ms = 1 + length mid + keep_recent b"
    using arg_cong [OF f(2), of length] l by simp
  moreover have "length (c_messages c) = 1 + 1 + keep_recent b"
    unfolding f(4) using l by simp
  ultimately show ?thesis using f(1,3) by simp
qed auto

section \<open>Facts are bounded and complete\<close>

text \<open>What a message contributes: pairs of the key that guards an item and the item.\<close>

fun message_items :: "message \<Rightarrow> (string \<times> string) list" where
  "message_items (User text) =
     (let asked = clip (first_line text) in if asked = [] then [] else [(asked, ''asked: '' @ asked)])"
| "message_items (Assistant _ calls) =
     List.map_filter (\<lambda>c. map_option (\<lambda>f. (f, f)) (describe_call (tc_name c) (tc_input c))) calls"
| "message_items (ToolResult _ _ _) = []"

abbreviation note_all :: "(string \<times> string) list \<Rightarrow> fact_state \<Rightarrow> fact_state" where
  "note_all items \<equiv> fold (\<lambda>(key, item). note_fact key item) items"

lemma facts_of_message_items: "facts_of_message m st = note_all (message_items m) st"
proof (cases m)
  case (Assistant t calls)
  have "fold facts_of_call calls st = note_all (message_items (Assistant t calls)) st" for st
    by (induction calls arbitrary: st)
       (auto simp: facts_of_call_def List.map_filter_def split: option.splits)
  then show ?thesis by (simp add: Assistant)
qed (auto simp: Let_def)

lemma fold_facts_of_message: "fold facts_of_message ms st = note_all (concat (map message_items ms)) st"
  by (induction ms arbitrary: st) (simp_all add: facts_of_message_items)

definition facts_ok :: "fact_state \<Rightarrow> bool" where
  "facts_ok st \<longleftrightarrow> distinct (fa_seen st) \<and> length (fa_facts st) \<le> MAX_FACTS
     \<and> length (fa_facts st) + fa_dropped st = length (fa_seen st)
     \<and> (0 < fa_dropped st \<longrightarrow> length (fa_facts st) = MAX_FACTS)
     \<and> (fa_dropped st = 0 \<longrightarrow> (\<forall>k \<in> set (fa_seen st). \<exists>x \<in> set (fa_facts st). suffix k x))"

lemma note_fact_ok: "facts_ok st \<Longrightarrow> suffix key item \<Longrightarrow> facts_ok (note_fact key item st)"
  by (auto simp: facts_ok_def note_fact_def push_fact_def)

lemma note_all_ok:
  "facts_ok st \<Longrightarrow> \<forall>(k, i) \<in> set items. suffix k i \<Longrightarrow> facts_ok (note_all items st)"
  by (induction items arbitrary: st) (auto simp: note_fact_ok)

lemma push_fact_seen [simp]: "fa_seen (push_fact i st) = fa_seen st"
  by (simp add: push_fact_def)

lemma note_fact_seen: "set (fa_seen (note_fact k i st)) = insert k (set (fa_seen st))"
  by (auto simp: note_fact_def)

lemma note_all_seen:
  "set (fa_seen (note_all items st)) = set (fa_seen st) \<union> fst ` set items"
  by (induction items arbitrary: st) (auto simp: note_fact_seen)

lemma message_items_suffix: "(k, i) \<in> set (message_items m) \<Longrightarrow> suffix k i"
  by (cases m) (auto simp: Let_def List.map_filter_def suffix_def split: if_splits)

text \<open>the fact list never grows past its ceiling plus one line, and while the distinct facts fit
  under the ceiling every question asked and every path, command or pattern a tool was called
  with is on it.\<close>

theorem extract_facts_bounded_complete:
  "length (extract_facts middle) \<le> MAX_FACTS + 1
   \<and> (MAX_FACTS < card (fst ` (\<Union>m \<in> set middle. set (message_items m)))
      \<or> (\<forall>m \<in> set middle. \<forall>(k, i) \<in> set (message_items m).
            \<exists>x \<in> set (extract_facts middle). suffix k x))"
proof -
  define items where "items = concat (map message_items middle)"
  define st where "st = note_all items \<lparr>fa_facts = [], fa_seen = [], fa_dropped = 0\<rparr>"
  have items: "set items = (\<Union>m \<in> set middle. set (message_items m))"
    by (simp add: items_def)
  have ok: "facts_ok st" unfolding st_def
    by (rule note_all_ok) (auto simp: facts_ok_def items dest: message_items_suffix)
  have keys: "set (fa_seen st) = fst ` set items"
    by (simp add: st_def note_all_seen)
  have facts: "extract_facts middle = (if 0 < fa_dropped st
      then fa_facts st @ [''('' @ show_nat (fa_dropped st) @ '' further items not listed)'']
      else fa_facts st)"
    by (simp add: extract_facts_def fold_facts_of_message Let_def st_def items_def)
  have "length (fa_seen st) = card (fst ` set items)"
    using ok distinct_card [of "fa_seen st"] by (simp add: facts_ok_def keys)
  then have drop: "fa_dropped st = 0" if "\<not> MAX_FACTS < card (fst ` set items)"
    using ok that by (auto simp: facts_ok_def)
  have "\<exists>x \<in> set (extract_facts middle). suffix k x"
    if "fa_dropped st = 0" "m \<in> set middle" "(k, i) \<in> set (message_items m)" for m k i
  proof -
    have "(k, i) \<in> set items" using that(2,3) by (auto simp: items)
    then have "k \<in> set (fa_seen st)" unfolding keys by force
    with ok that(1) show ?thesis by (simp add: facts facts_ok_def)
  qed
  moreover have "length (extract_facts middle) \<le> MAX_FACTS + 1"
    using ok by (auto simp: facts_ok_def facts)
  ultimately show ?thesis using drop unfolding items by blast
qed

theorem extract_facts_bounded_complete_witness:
  "\<exists>x \<in> set (extract_facts [User ''fix it'']). suffix ''fix it'' x"
proof -
  let ?ms = "[User ''fix it'']"
  have "message_items (User ''fix it'') = [(''fix it'', ''asked: fix it'')]" by code_simp
  then show ?thesis using extract_facts_bounded_complete [of ?ms] by (simp add: MAX_FACTS_def)
qed

text \<open>One seen-set guards questions and tool calls alike, so a question worded like a call's
  fact hides that call: the file it touched is not listed as touched.\<close>

theorem extract_facts_collision:
  "extract_facts [User ''read: a.rs'',
     Assistant [] [\<lparr>tc_id = ''1'', tc_name = ''read'', tc_input = JObj [(''path'', JStr ''a.rs'')]\<rparr>]]
   = [''asked: read: a.rs'']"
  by code_simp

section \<open>Tool calls and their results\<close>

text \<open>A conversation a provider accepts: each assistant message is followed by one result per call,
  in order, and there is no other result.\<close>

fun result_for :: "tool_call \<Rightarrow> message \<Rightarrow> bool" where
  "result_for c (ToolResult cid _ _) \<longleftrightarrow> cid = tc_id c"
| "result_for c _ \<longleftrightarrow> False"

function answered :: "message list \<Rightarrow> bool" where
  "answered [] \<longleftrightarrow> True"
| "answered (User _ # ms) \<longleftrightarrow> answered ms"
| "answered (Assistant _ calls # ms) \<longleftrightarrow>
     list_all2 result_for calls (take (length calls) ms) \<and> answered (drop (length calls) ms)"
| "answered (ToolResult _ _ _ # ms) \<longleftrightarrow> False"
  by pat_completeness auto
termination
  by (relation "measure length") auto

lemma answered_append:
  "answered xs \<Longrightarrow> answered (xs @ ys) \<longleftrightarrow> answered ys"
proof (induction xs rule: answered.induct)
  case (3 t calls ms)
  then have "length calls \<le> length ms" by (auto dest: list_all2_lengthD)
  with 3 show ?case by simp
qed simp_all

lemma answered_round:
  "list_all2 result_for calls rs \<Longrightarrow> answered (Assistant t calls # rs)"
proof -
  assume a: "list_all2 result_for calls rs"
  then have "length calls = length rs" by (rule list_all2_lengthD)
  with a show ?thesis by simp
qed

text \<open>a compaction yields a conversation a provider accepts exactly when the recent messages it
  keeps do not start in the middle of a tool round.\<close>

theorem compact_answered_iff:
  assumes "compact jt provider w ms b = (Inr c, w')" "0 < c_replaced c" "take 1 ms = [User task]"
  shows "answered (c_messages c) \<longleftrightarrow> answered (last_n (keep_recent b) ms)"
proof (rule compact_cases [OF assms(1)])
  fix t mid
  assume "c_messages c = take 1 ms @ [User (folded_text t (extract_facts mid))] @ last_n (keep_recent b) ms"
  then show ?thesis unfolding assms(3) by simp
qed (use assms(2) in auto)

text \<open>The summariser of the witnesses below answers every request with one word.\<close>

definition say_ok :: "nat provider" where
  "say_ok w messages tools = ([], Inr \<lparr>to_text = ''ok'', to_tool_calls = []\<rparr>, w + 1)"

definition tiny_budget :: "nat \<Rightarrow> budget" where
  "tiny_budget keep = \<lparr>context_tokens = 8, compact_at = 1 / 2, keep_recent = keep\<rparr>"

definition one_round :: "message list" where
  "one_round =
     [User ''go'', User ''read a.rs'',
      Assistant [] [\<lparr>tc_id = ''c1'', tc_name = ''read'', tc_input = JObj [(''path'', JStr ''a.rs'')]\<rparr>],
      ToolResult ''c1'' ''contents'' False, User ''and now?'']"

lemma one_round_compacts:
  "\<exists>c. compact jt say_ok w one_round (tiny_budget 1) = (Inr c, w + 1) \<and> c_replaced c = 3"
  "\<exists>c. compact jt say_ok w one_round (tiny_budget 2) = (Inr c, w + 1) \<and> c_replaced c = 2"
  by (simp_all add: compact_def one_round_def tiny_budget_def ask_for_summary_def say_ok_def Let_def)

theorem compact_keeps_task_and_recent_witness:
  "\<exists>c. compact (\<lambda>_. []) say_ok 0 one_round (tiny_budget 1) = (Inr c, 1)
     \<and> last_n 1 (c_messages c) = [User ''and now?'']"
proof -
  obtain c where c: "compact (\<lambda>_. []) say_ok 0 one_round (tiny_budget 1) = (Inr c, 1)"
    using one_round_compacts(1) [of "\<lambda>_. []" 0] by auto
  with compact_keeps_task_and_recent [OF c] show ?thesis
    by (auto simp: tiny_budget_def one_round_def last_n_def)
qed

theorem compact_answered_iff_witness:
  "\<exists>c. compact (\<lambda>_. []) say_ok 0 one_round (tiny_budget 1) = (Inr c, 1) \<and> answered (c_messages c)"
proof -
  obtain c where c: "compact (\<lambda>_. []) say_ok 0 one_round (tiny_budget 1) = (Inr c, 1)" "c_replaced c = 3"
    using one_round_compacts(1) [of "\<lambda>_. []" 0] by auto
  have "take 1 one_round = [User ''go'']" by (simp add: one_round_def)
  with compact_answered_iff [OF c(1) _ this] c show ?thesis
    by (auto simp: tiny_budget_def one_round_def last_n_def)
qed

text \<open>the messages kept are counted from the end without looking at what they are, so a
  compaction of a conversation in good order can keep a tool's result and fold away the call
  it answers: the request that follows carries a result for no call.\<close>

theorem compact_orphans_result:
  "answered one_round \<and> needs_compaction (\<lambda>_. []) one_round (tiny_budget 2)
   \<and> (\<exists>c. compact (\<lambda>_. []) say_ok 0 one_round (tiny_budget 2) = (Inr c, 1)
        \<and> \<not> answered (c_messages c)
        \<and> c_messages c ! 2 = ToolResult ''c1'' ''contents'' False)"
proof -
  have "answered one_round" by (simp add: one_round_def)
  moreover have "threshold_tokens (tiny_budget 2) = 4"
    by (simp add: threshold_tokens_def tiny_budget_def)
  then have "needs_compaction (\<lambda>_. []) one_round (tiny_budget 2)"
    by (simp add: needs_compaction_def one_round_def estimate_messages_def estimate_message_def
        OVERHEAD_def) (simp add: tiny_budget_def)
  moreover have "\<exists>c. compact (\<lambda>_. []) say_ok 0 one_round (tiny_budget 2) = (Inr c, 1)
      \<and> \<not> answered (c_messages c) \<and> c_messages c ! 2 = ToolResult ''c1'' ''contents'' False"
    by (simp add: compact_def one_round_def tiny_budget_def ask_for_summary_def say_ok_def Let_def
        numeral_2_eq_2)
  ultimately show ?thesis by blast
qed

end
