(* ===== verification/Agent_Permission.thy ===== *)
theory Agent_Permission
  imports Agent_Types
begin

text \<open>
  The point every tool call passes before it runs: a rule-based policy, and a gate in front
  of a person when no rule decides (\<open>crates/tabverse-agent/src/permission.rs\<close>).
\<close>

datatype decision = Allow | Deny string | Ask

type_synonym 'w policy = "'w \<Rightarrow> string \<Rightarrow> json \<Rightarrow> decision \<times> 'w"
type_synonym 'w approval_gate = "'w \<Rightarrow> string \<Rightarrow> string \<Rightarrow> json \<Rightarrow> decision \<times> 'w"

definition ask_everything :: "'w policy" where
  "ask_everything w tool_name input = (Ask, w)"

definition allow_read_only :: "'w policy" where
  "allow_read_only w tool_name input =
     (if tool_name = ''read'' \<or> tool_name = ''glob'' \<or> tool_name = ''grep'' then Allow else Ask, w)"

definition auto_deny_default :: string where
  "auto_deny_default = ''denied by policy''"

definition auto_deny :: "string \<Rightarrow> 'w approval_gate" where
  "auto_deny reason w call_id tool_name input = (Deny reason, w)"

definition resolve ::
  "'w policy \<Rightarrow> 'w approval_gate \<Rightarrow> 'w \<Rightarrow> string \<Rightarrow> string \<Rightarrow> json \<Rightarrow> permission_outcome \<times> 'w" where
  "resolve policy gate w call_id tool_name input =
     (case policy w tool_name input of
        (Allow, w1) \<Rightarrow> (AllowedByRule, w1)
      | (Deny reason, w1) \<Rightarrow> (Denied reason, w1)
      | (Ask, w1) \<Rightarrow>
          (case gate w1 call_id tool_name input of
             (Allow, w2) \<Rightarrow> (Approved, w2)
           | (Deny reason, w2) \<Rightarrow> (Denied reason, w2)
           | (Ask, w2) \<Rightarrow> (Denied ''no decision was made on this request'', w2)))"

text \<open>a call is let through only by an explicit yes: of a rule, or, when the rules decline to
  decide, of the gate; a refusal by rule never reaches the gate and silence is a refusal.\<close>

theorem resolve_needs_explicit_yes:
  "(fst (resolve policy gate w cid name input) = AllowedByRule \<longleftrightarrow> fst (policy w name input) = Allow)
   \<and> (fst (resolve policy gate w cid name input) = Approved \<longleftrightarrow>
        fst (policy w name input) = Ask
        \<and> fst (gate (snd (policy w name input)) cid name input) = Allow)
   \<and> (fst (policy w name input) = Ask \<or>
        resolve policy gate w cid name input = resolve policy gate' w cid name input)
   \<and> fst (resolve allow_read_only gate w cid ''bash'' input) \<noteq> AllowedByRule
   \<and> fst (resolve ask_everything (auto_deny r) w cid name input) = Denied r"
  by (auto simp: resolve_def allow_read_only_def ask_everything_def auto_deny_def
      split: prod.splits decision.splits)

end
