(* ===== verification/Agent_Branch.thy ===== *)
theory Agent_Branch
  imports Agent_Types
begin

text \<open>
  Folding a large tool result on its way into the history: both ends stay, the whole of it is
  parked elsewhere (\<open>crates/tabverse-agent/src/branch.rs\<close>). Where it is parked is the caller's
  choice, a fallible operation on the world.
\<close>

definition BRANCH_THRESHOLD_BYTES :: nat where "BRANCH_THRESHOLD_BYTES = 8 * 1024"
definition KEPT_LINES :: nat where "KEPT_LINES = 30"

record folded =
  fd_text :: string
  fd_spilled_to :: "string option"
  fd_original_bytes :: nat
  fd_elided_lines :: nat

type_synonym 'w spill = "'w \<Rightarrow> string \<Rightarrow> (string + string) \<times> 'w"

definition format_bytes :: "nat \<Rightarrow> string" where
  "format_bytes n =
     (if n < 1024 then show_nat n @ ''B''
      else if n < 1024 * 1024 then show_tenths n 1024 @ ''KB''
      else show_tenths n (1024 * 1024) @ ''MB'')"

text \<open>The notice between the two ends, before and after the path.\<close>

definition notice_before :: "nat \<Rightarrow> nat \<Rightarrow> string" where
  "notice_before elided original_bytes =
     [nl, nl] @ ''['' @ show_nat elided @ '' lines elided to save context. The full ''
     @ format_bytes original_bytes @ '' output is at ''"

definition notice_after :: string where
  "notice_after = '' '' @ [CHR 0xE2, CHR 0x80, CHR 0x94]
     @ '' read that file if you need the part that is not shown.]'' @ [nl, nl]"

definition fold_result :: "'w spill \<Rightarrow> 'w \<Rightarrow> string \<Rightarrow> (string + folded) \<times> 'w" where
  "fold_result spill w content =
     (let original_bytes = length content in
      if original_bytes \<le> BRANCH_THRESHOLD_BYTES then
        (Inr \<lparr>fd_text = content, fd_spilled_to = None, fd_original_bytes = original_bytes,
              fd_elided_lines = 0\<rparr>, w)
      else let lines = str_lines content in
      if length lines \<le> KEPT_LINES * 2 then
        (Inr \<lparr>fd_text = content, fd_spilled_to = None, fd_original_bytes = original_bytes,
              fd_elided_lines = 0\<rparr>, w)
      else case spill w content of
        (Inl e, w1) \<Rightarrow> (Inl e, w1)
      | (Inr path, w1) \<Rightarrow>
          (let elided = length lines - KEPT_LINES * 2;
               head = join [nl] (take KEPT_LINES lines);
               tail = join [nl] (drop (length lines - KEPT_LINES) lines);
               text = head @ notice_before elided original_bytes @ path @ notice_after @ tail
           in (Inr \<lparr>fd_text = text, fd_spilled_to = Some path,
                    fd_original_bytes = original_bytes, fd_elided_lines = elided\<rparr>, w1)))"

text \<open>folding never loses anything: either the text comes back untouched and nothing is
  written, or the whole of it was handed to the store under the path the result names, both
  ends are kept verbatim, and kept plus elided lines account for all of them; a store that
  fails is reported.\<close>

theorem fold_result_lossless:
  "case fold_result spill w content of
     (Inr f, w') \<Rightarrow>
       (fd_spilled_to f = None \<and> fd_text f = content \<and> fd_elided_lines f = 0 \<and> w' = w)
       \<or> (\<exists>path. fd_spilled_to f = Some path \<and> spill w content = (Inr path, w')
            \<and> BRANCH_THRESHOLD_BYTES < length content
            \<and> fd_elided_lines f + 2 * KEPT_LINES = length (str_lines content)
            \<and> prefix (join [nl] (take KEPT_LINES (str_lines content))) (fd_text f)
            \<and> suffix (join [nl] (last_n KEPT_LINES (str_lines content))) (fd_text f)
            \<and> sublist path (fd_text f))
   | (Inl e, w') \<Rightarrow> spill w content = (Inl e, w')"
proof (cases "length content \<le> BRANCH_THRESHOLD_BYTES \<or> length (str_lines content) \<le> KEPT_LINES * 2")
  case True
  then show ?thesis by (auto simp: fold_result_def Let_def)
next
  case False
  then show ?thesis
  proof (cases "spill w content")
    case (Pair r w1)
    show ?thesis
    proof (cases r)
      case (Inl e)
      with Pair False show ?thesis by (simp add: fold_result_def Let_def)
    next
      case (Inr path)
      have "sublist path (h @ n @ path @ m @ t)" "suffix t (h @ n @ path @ m @ t)" for h n m t
        by (metis sublist_appendI append.assoc) (metis suffixI append.assoc)
      with Pair Inr False show ?thesis
        by (auto simp: fold_result_def Let_def last_n_def)
    qed
  qed
qed

end
