(* ===== verification/Agent_Session.thy ===== *)
theory Agent_Session
  imports Agent_Compact Agent_Permission Agent_Branch
begin

text \<open>
  The turn loop (\<open>crates/tabverse-agent/src/session.rs\<close>): send the conversation, run the tools
  that are permitted, feed every result back, until the model stops asking, the person stops
  it, or the rounds run out. The event sink is the list of events a step returns.
\<close>

section \<open>The session\<close>

text \<open>What a session is built over: the code outside it, as operations on the world.
  \<open>e_cancelled\<close> is a load of the cancel flag, which other threads may set at any time; the
  execution environment a tool is given is part of the tool's own \<open>t_execute\<close>.\<close>

record 'w senv =
  e_provider :: "'w provider"
  e_tools :: "'w tool list"
  e_policy :: "'w policy"
  e_gate :: "'w approval_gate"
  e_cancelled :: "'w \<Rightarrow> bool \<times> 'w"
  e_spill :: "'w spill"
  e_json_text :: "json \<Rightarrow> string"

record session =
  s_messages :: "message list"
  s_max_rounds :: nat
  s_budget :: budget
  s_memory :: "message option"

definition DEFAULT_MAX_ROUNDS :: nat where "DEFAULT_MAX_ROUNDS = 50"

definition session_new :: session where
  "session_new = \<lparr>s_messages = [], s_max_rounds = DEFAULT_MAX_ROUNDS, s_budget = budget_default,
     s_memory = None\<rparr>"

definition with_max_rounds :: "nat \<Rightarrow> session \<Rightarrow> session" where
  "with_max_rounds rounds s = s\<lparr>s_max_rounds := rounds\<rparr>"

definition with_budget :: "budget \<Rightarrow> session \<Rightarrow> session" where
  "with_budget b s = s\<lparr>s_budget := b\<rparr>"

definition with_memory :: "message option \<Rightarrow> session \<Rightarrow> session" where
  "with_memory preamble s = s\<lparr>s_memory := preamble\<rparr>"

definition with_history :: "message list \<Rightarrow> session \<Rightarrow> session" where
  "with_history ms s = s\<lparr>s_messages := ms\<rparr>"

definition request_messages :: "session \<Rightarrow> message list" where
  "request_messages s =
     (case s_memory s of None \<Rightarrow> s_messages s | Some preamble \<Rightarrow> preamble # s_messages s)"

definition tool_specs :: "'w senv \<Rightarrow> tool_spec list" where
  "tool_specs env = map (\<lambda>t. \<lparr>ts_name = t_name t, ts_description = t_description t,
     ts_parameters = t_parameters t\<rparr>) (e_tools env)"

definition find_tool :: "'w senv \<Rightarrow> string \<Rightarrow> 'w tool option" where
  "find_tool env name = List.find (\<lambda>t. t_name t = name) (e_tools env)"

definition push_message :: "message \<Rightarrow> session \<Rightarrow> session" where
  "push_message m s = s\<lparr>s_messages := s_messages s @ [m]\<rparr>"

section \<open>One tool call\<close>

record call_result =
  cr_content :: string
  cr_is_error :: bool

definition call_view :: "tool_call \<Rightarrow> tool_call_view" where
  "call_view c = \<lparr>v_call_id = tc_id c, v_name = tc_name c, v_input = tc_input c\<rparr>"

definition finished :: "tool_call \<Rightarrow> call_result \<Rightarrow> location_view option \<Rightarrow> session_event" where
  "finished c r loc = ToolFinished (tc_id c) (cr_content r) (cr_is_error r) loc"

definition run_one_call ::
  "'w senv \<Rightarrow> 'w \<Rightarrow> tool_call \<Rightarrow> session_event list \<times> call_result \<times> 'w" where
  "run_one_call env w call = (case find_tool env (tc_name call) of
     None \<Rightarrow>
       (let r = \<lparr>cr_content = ''No tool named `'' @ tc_name call @ ''`. Available tools: ''
                   @ join '', '' (map t_name (e_tools env)) @ ''.'', cr_is_error = True\<rparr>
        in ([finished call r None], r, w))
   | Some tool \<Rightarrow>
       (case resolve (e_policy env) (e_gate env) w (tc_id call) (tc_name call) (tc_input call) of
          (outcome, w1) \<Rightarrow>
            let asked = [PermissionRequested (call_view call), PermissionResolved (tc_id call) outcome]
            in case outcome of
                 Denied reason \<Rightarrow>
                   (let r = \<lparr>cr_content = ''Permission denied for `'' @ tc_name call @ ''`: '' @ reason,
                             cr_is_error = True\<rparr>
                    in (asked @ [finished call r None], r, w1))
               | _ \<Rightarrow>
                   (case t_execute tool w1 (tc_input call) of
                      (chunks, res, w2) \<Rightarrow>
                        let ran = asked @ ToolStarted (call_view call)
                              # map (ToolProgress (tc_id call)) chunks
                        in case res of
                             Inr out \<Rightarrow>
                               (let r = \<lparr>cr_content = joined_text out, cr_is_error = False\<rparr>
                                in (ran @ [finished call r (map_option location_view_from (o_location out))],
                                    r, w2))
                           | Inl e \<Rightarrow>
                               (let r = \<lparr>cr_content = e, cr_is_error = True\<rparr>
                                in (ran @ [finished call r None], r, w2)))))"

text \<open>A call behind one that was cancelled.\<close>

definition not_run :: "tool_call \<Rightarrow> call_result" where
  "not_run call = \<lparr>cr_content = ''`'' @ tc_name call @ ''` was not run: the turn was stopped.'',
     cr_is_error = True\<rparr>"

definition folded_content :: "'w spill \<Rightarrow> 'w \<Rightarrow> string \<Rightarrow> string \<times> 'w" where
  "folded_content spill w content =
     (case fold_result spill w content of (Inr f, w1) \<Rightarrow> (fd_text f, w1) | (Inl _, w1) \<Rightarrow> (content, w1))"

text \<open>The \<open>for\<close> loop over the calls of a turn: the events, the messages appended.\<close>

fun run_calls ::
  "'w senv \<Rightarrow> 'w \<Rightarrow> tool_call list \<Rightarrow> session_event list \<times> message list \<times> 'w" where
  "run_calls env w [] = ([], [], w)"
| "run_calls env w (call # calls) =
     (case e_cancelled env w of (stopped, w1) \<Rightarrow>
      case (if stopped then ([finished call (not_run call) None], not_run call, w1)
            else run_one_call env w1 call) of (evs, r, w2) \<Rightarrow>
      case folded_content (e_spill env) w2 (cr_content r) of (content, w3) \<Rightarrow>
      case run_calls env w3 calls of (evs', ms, w4) \<Rightarrow>
        (evs @ evs', ToolResult (tc_id call) content (cr_is_error r) # ms, w4))"

section \<open>The turn loop\<close>

fun delta_event :: "provider_event \<Rightarrow> session_event" where
  "delta_event (PText d) = AssistantText d"
| "delta_event (PThinking d) = AssistantThinking d"

text \<open>One pass of the loop, which has seen \<open>turn\<close> rounds: the events, and the reason when it
  returns.\<close>

definition turn_round ::
  "'w senv \<Rightarrow> tool_spec list \<Rightarrow> session \<Rightarrow> nat \<Rightarrow> 'w
     \<Rightarrow> session_event list \<times> stop_reason option \<times> session \<times> 'w" where
  "turn_round env specs s turn0 w =
     (case e_cancelled env w of (c0, w0) \<Rightarrow>
      if c0 then ([TurnEnded turn0 Cancelled], Some Cancelled, s, w0)
      else let turn = turn0 + 1 in
      case e_provider env w0 (request_messages s) specs of (deltas, res, w1) \<Rightarrow>
      let evs1 = TurnStarted turn # map delta_event deltas in
      case res of
        Inl e \<Rightarrow> (evs1 @ [TurnEnded turn (StopError e)], Some (StopError e), s, w1)
      | Inr outcome \<Rightarrow>
          (let s1 = push_message (Assistant (to_text outcome) (to_tool_calls outcome)) s in
           if to_tool_calls outcome = [] then (evs1 @ [TurnEnded turn Done], Some Done, s1, w1)
           else case run_calls env w1 (to_tool_calls outcome) of (evs2, results, w2) \<Rightarrow>
           let s2 = s1\<lparr>s_messages := s_messages s1 @ results\<rparr> in
           case e_cancelled env w2 of (c3, w3) \<Rightarrow>
           if c3 then (evs1 @ evs2 @ [TurnEnded turn Cancelled], Some Cancelled, s2, w3)
           else if s_max_rounds s \<le> turn
                then (evs1 @ evs2 @ [TurnEnded turn RoundLimit], Some RoundLimit, s2, w3)
                else (evs1 @ evs2, None, s2, w3)))"

lemma turn_round_None:
  assumes "turn_round env specs s turn w = (evs, None, s', w')"
  shows "turn + 1 < s_max_rounds s \<and> s_max_rounds s' = s_max_rounds s"
  using assms
  by (auto simp: turn_round_def Let_def push_message_def split: prod.splits if_splits sum.splits)

function turn_loop ::
  "'w senv \<Rightarrow> tool_spec list \<Rightarrow> session \<Rightarrow> nat \<Rightarrow> 'w
     \<Rightarrow> session_event list \<times> stop_reason \<times> session \<times> 'w" where
  "turn_loop env specs s turn w =
     (case turn_round env specs s turn w of
        (evs, Some reason, s1, w1) \<Rightarrow> (evs, reason, s1, w1)
      | (evs, None, s1, w1) \<Rightarrow>
          (case turn_loop env specs s1 (turn + 1) w1 of
             (evs', reason, s2, w2) \<Rightarrow> (evs @ evs', reason, s2, w2)))"
  by pat_completeness auto
termination
  by (relation "measure (\<lambda>(env, specs, s, turn, w). s_max_rounds s - turn)")
     (auto dest: turn_round_None [OF sym])

declare turn_loop.simps [simp del]

text \<open>\<open>Session::prompt\<close>.\<close>

definition prompt ::
  "'w senv \<Rightarrow> session \<Rightarrow> string \<Rightarrow> 'w \<Rightarrow> session_event list \<times> stop_reason \<times> session \<times> 'w" where
  "prompt env s0 text w =
     (let s = push_message (User text) s0 in
      case (if needs_compaction (e_json_text env) (s_messages s) (s_budget s)
            then case compact (e_json_text env) (e_provider env) w (s_messages s) (s_budget s) of
                   (Inr done, w1) \<Rightarrow>
                     ([Compacted (c_tokens_before done) (c_tokens_after done) (c_replaced done)],
                      None, s\<lparr>s_messages := c_messages done\<rparr>, w1)
                 | (Inl e, w1) \<Rightarrow>
                     (let reason = StopError (''could not compact the history: '' @ e)
                      in ([TurnEnded 0 reason], Some reason, s, w1))
            else ([], None, s, w)) of
        (evs, Some reason, s1, w1) \<Rightarrow> (UserPrompt text # evs, reason, s1, w1)
      | (evs, None, s1, w1) \<Rightarrow>
          (case turn_loop env (tool_specs env) s1 0 w1 of
             (evs', reason, s2, w2) \<Rightarrow> (UserPrompt text # evs @ evs', reason, s2, w2)))"

section \<open>Reasoning about a prompt\<close>

text \<open>What one pass of the loop does, and the rule that carries a statement about passes to a
  statement about the loop.\<close>

lemma turn_round_cases:
  assumes "turn_round env specs s t w = (evs, ro, s', w')"
  obtains (stopped) "evs = [TurnEnded t Cancelled]" "ro = Some Cancelled" "s' = s"
      "e_cancelled env w = (True, w')"
  | (failed) w0 deltas e where "ro = Some (StopError e)" "s' = s"
      "evs = (TurnStarted (t + 1) # map delta_event deltas) @ [TurnEnded (t + 1) (StopError e)]"
      "e_cancelled env w = (False, w0)"
      "e_provider env w0 (request_messages s) specs = (deltas, Inl e, w')"
  | (completed) w0 deltas out where "ro = Some Done" "to_tool_calls out = []"
      "s' = push_message (Assistant (to_text out) []) s"
      "evs = (TurnStarted (t + 1) # map delta_event deltas) @ [TurnEnded (t + 1) Done]"
      "e_cancelled env w = (False, w0)"
      "e_provider env w0 (request_messages s) specs = (deltas, Inr out, w')"
  | (ran) w0 deltas out w1 evs2 results w2 b where
      "e_cancelled env w = (False, w0)" "to_tool_calls out \<noteq> []"
      "e_provider env w0 (request_messages s) specs = (deltas, Inr out, w1)"
      "run_calls env w1 (to_tool_calls out) = (evs2, results, w2)"
      "s' = s\<lparr>s_messages := s_messages s @ Assistant (to_text out) (to_tool_calls out) # results\<rparr>"
      "e_cancelled env w2 = (b, w')"
      "ro = (if b then Some Cancelled
             else if s_max_rounds s \<le> t + 1 then Some RoundLimit else None)"
      "evs = (TurnStarted (t + 1) # map delta_event deltas) @ evs2
         @ (case ro of Some r \<Rightarrow> [TurnEnded (t + 1) r] | None \<Rightarrow> [])"
proof -
  obtain c0 w0 where c0: "e_cancelled env w = (c0, w0)" by fastforce
  show thesis
  proof (cases c0)
    case True
    with assms c0 show ?thesis by (intro stopped) (auto simp: turn_round_def)
  next
    case False
    obtain deltas res w1 where p: "e_provider env w0 (request_messages s) specs = (deltas, res, w1)"
      by (metis prod_cases3)
    show ?thesis
    proof (cases res)
      case (Inl e)
      with assms c0 False p show ?thesis by (intro failed) (auto simp: turn_round_def Let_def)
    next
      case (Inr out)
      show ?thesis
      proof (cases "to_tool_calls out = []")
        case True
        with assms c0 False p Inr show ?thesis by (intro completed) (auto simp: turn_round_def Let_def)
      next
        case ne: False
        obtain evs2 results w2 where r: "run_calls env w1 (to_tool_calls out) = (evs2, results, w2)"
          by (metis prod_cases3)
        obtain b w3 where b: "e_cancelled env w2 = (b, w3)" by fastforce
        note d = assms [unfolded turn_round_def Let_def, simplified c0 False p Inr ne r b, simplified]
        show ?thesis
          by (rule ran [of w0 out deltas w1 evs2 results w2 b])
             (use c0 False p Inr ne r b d in \<open>auto simp: push_message_def split: if_splits\<close>)
      qed
    qed
  qed
qed

lemma turn_loop_rule [consumes 1, case_names last step]:
  assumes "turn_loop env specs s t w = (evs, r, s', w')"
    and last: "\<And>s t w evs r s' w'. turn_round env specs s t w = (evs, Some r, s', w')
      \<Longrightarrow> P s t w evs r s' w'"
    and step: "\<And>s t w evs1 s1 w1 evs2 r s' w'. turn_round env specs s t w = (evs1, None, s1, w1)
      \<Longrightarrow> P s1 (t + 1) w1 evs2 r s' w' \<Longrightarrow> P s t w (evs1 @ evs2) r s' w'"
  shows "P s t w evs r s' w'"
  using assms(1)
proof (induction "s_max_rounds s - t" arbitrary: s t w evs r s' w' rule: less_induct)
  case less
  obtain evs1 ro s1 w1 where rd: "turn_round env specs s t w = (evs1, ro, s1, w1)"
    by (metis prod_cases4)
  show ?case
  proof (cases ro)
    case (Some r0)
    with less.prems rd have "evs = evs1" "r = r0" "s' = s1" "w' = w1"
      by (simp_all add: turn_loop.simps [of env specs s t w])
    with last rd Some show ?thesis by simp
  next
    case None
    obtain evs2 r2 s2 w2 where l: "turn_loop env specs s1 (t + 1) w1 = (evs2, r2, s2, w2)"
      by (metis prod_cases4)
    with less.prems rd None have e: "evs = evs1 @ evs2" "r = r2" "s' = s2" "w' = w2"
      by (simp_all add: turn_loop.simps [of env specs s t w])
    have "s_max_rounds s1 - (t + 1) < s_max_rounds s - t"
      using turn_round_None rd None by fastforce
    with less.hyps l have "P s1 (t + 1) w1 evs2 r2 s2 w2" by blast
    with step rd None e show ?thesis by simp
  qed
qed

text \<open>A monitor of the permission protocol: the only way to \<open>ToolStarted\<close> is directly from the
  request of that very call and a resolution that let it through.\<close>

datatype gate_state = Idle | Asked tool_call_view | Let_through tool_call_view | Violated

fun gate_step :: "gate_state \<Rightarrow> session_event \<Rightarrow> gate_state" where
  "gate_step Violated _ = Violated"
| "gate_step _ (PermissionRequested v) = Asked v"
| "gate_step (Asked v) (PermissionResolved cid out) =
     (if cid = v_call_id v \<and> (out = AllowedByRule \<or> out = Approved) then Let_through v else Idle)"
| "gate_step (Let_through v) (ToolStarted v') = (if v = v' then Idle else Violated)"
| "gate_step _ (ToolStarted _) = Violated"
| "gate_step _ _ = Idle"

fun is_turn_ended :: "session_event \<Rightarrow> bool" where
  "is_turn_ended (TurnEnded _ _) = True"
| "is_turn_ended _ = False"

fun is_compacted :: "session_event \<Rightarrow> bool" where
  "is_compacted (Compacted _ _ _) = True"
| "is_compacted _ = False"

fun started_turn :: "session_event \<Rightarrow> nat option" where
  "started_turn (TurnStarted n) = Some n"
| "started_turn _ = None"

fun finished_call :: "session_event \<Rightarrow> (string \<times> bool) option" where
  "finished_call (ToolFinished cid _ err _) = Some (cid, err)"
| "finished_call _ = None"

fun answered_call :: "message \<Rightarrow> (string \<times> bool) option" where
  "answered_call (ToolResult cid _ err) = Some (cid, err)"
| "answered_call _ = None"

text \<open>The events of one call, and of the calls of one turn.\<close>

lemma gate_progress [simp]: "foldl gate_step Idle (map (ToolProgress cid) chunks) = Idle"
  by (induction chunks) auto

lemma gate_deltas [simp]: "foldl gate_step Idle (map delta_event ds) = Idle"
proof (induction ds)
  case (Cons d ds)
  then show ?case by (cases d) auto
qed simp

lemma map_filter_progress [simp]:
  "List.map_filter finished_call (map (ToolProgress cid) chunks) = []"
  "List.map_filter started_turn (map (ToolProgress cid) chunks) = []"
  by (simp_all add: List.map_filter_def filter_empty_conv)

lemma filter_progress [simp]:
  "filter is_turn_ended (map (ToolProgress cid) chunks) = []"
  "filter is_compacted (map (ToolProgress cid) chunks) = []"
  by (auto simp: filter_empty_conv)

lemma delta_event_simps [simp]:
  "finished_call (delta_event d) = None" "started_turn (delta_event d) = None"
  "is_turn_ended (delta_event d) = False" "is_compacted (delta_event d) = False"
  by (cases d; simp)+

lemma map_filter_deltas [simp]:
  "List.map_filter finished_call (map delta_event ds) = []"
  "List.map_filter started_turn (map delta_event ds) = []"
  by (simp_all add: List.map_filter_def filter_empty_conv)

lemma filter_deltas [simp]:
  "filter is_turn_ended (map delta_event ds) = []" "filter is_compacted (map delta_event ds) = []"
  by (simp_all add: filter_empty_conv)

lemma map_filter_append: "List.map_filter f (xs @ ys) = List.map_filter f xs @ List.map_filter f ys"
  by (simp add: List.map_filter_def)

lemmas event_simps = map_filter_append List.map_filter_simps

definition call_events_ok :: "session_event list \<Rightarrow> bool" where
  "call_events_ok evs \<longleftrightarrow> foldl gate_step Idle evs = Idle \<and> filter is_turn_ended evs = []
     \<and> filter is_compacted evs = [] \<and> List.map_filter started_turn evs = []"

lemma call_events_ok_append:
  "call_events_ok xs \<Longrightarrow> call_events_ok ys \<Longrightarrow> call_events_ok (xs @ ys)"
  by (simp add: call_events_ok_def map_filter_append)

lemma run_one_call_events:
  assumes "run_one_call env w call = (evs, r, w')"
  shows "call_events_ok evs \<and> List.map_filter finished_call evs = [(tc_id call, cr_is_error r)]"
  using assms
  by (auto simp: run_one_call_def call_events_ok_def finished_def call_view_def Let_def event_simps
      split: option.splits prod.splits permission_outcome.splits sum.splits)

lemma run_calls_events:
  "run_calls env w calls = (evs, ms, w') \<Longrightarrow>
     call_events_ok evs \<and> list_all2 result_for calls ms
     \<and> List.map_filter finished_call evs = List.map_filter answered_call ms"
proof (induction env w calls arbitrary: evs ms w' rule: run_calls.induct)
  case (1 env w)
  then show ?case by (simp add: call_events_ok_def)
next
  case (2 env w call calls)
  obtain b w1 where b: "e_cancelled env w = (b, w1)" by fastforce
  obtain evs1 r w2 where r: "(if b then ([finished call (not_run call) None], not_run call, w1)
      else run_one_call env w1 call) = (evs1, r, w2)" by (metis prod_cases3)
  obtain content w3 where f: "folded_content (e_spill env) w2 (cr_content r) = (content, w3)"
    by fastforce
  obtain evs2 ms2 w4 where rest: "run_calls env w3 calls = (evs2, ms2, w4)" by (metis prod_cases3)
  note IH = 2(1) [OF b [symmetric] r [symmetric] refl f [symmetric] rest]
  have one: "call_events_ok evs1 \<and> List.map_filter finished_call evs1 = [(tc_id call, cr_is_error r)]"
  proof (cases b)
    case True
    with r show ?thesis by (auto simp: call_events_ok_def finished_def event_simps)
  next
    case False
    with r run_one_call_events show ?thesis by fastforce
  qed
  from 2(2) b r f rest have "evs = evs1 @ evs2"
    "ms = ToolResult (tc_id call) content (cr_is_error r) # ms2" by simp_all
  with IH one show ?case by (simp add: call_events_ok_append event_simps)
qed

section \<open>Events of a prompt\<close>

lemma turn_round_events:
  assumes "turn_round env specs s t w = (evs, ro, s', w')"
  shows "foldl gate_step Idle evs = Idle \<and> filter is_compacted evs = []
    \<and> s_max_rounds s' = s_max_rounds s
    \<and> (case ro of
         None \<Rightarrow> filter is_turn_ended evs = [] \<and> List.map_filter started_turn evs = [t + 1]
           \<and> t + 1 < s_max_rounds s
       | Some r \<Rightarrow> (\<exists>n. last evs = TurnEnded n r \<and> filter is_turn_ended evs = [TurnEnded n r]
           \<and> List.map_filter started_turn evs = [t + 1..<Suc n] \<and> n \<le> t + 1 \<and> t \<le> n
           \<and> (if r = RoundLimit then s_max_rounds s \<le> n \<and> n = t + 1 else n \<le> t + 1)))"
  using assms
proof (cases rule: turn_round_cases)
  case (ran w0 deltas out w1 evs2 results w2 b)
  from run_calls_events [OF ran(4)] have "call_events_ok evs2" by simp
  then show ?thesis unfolding ran(5,7,8)
    by (auto simp: call_events_ok_def event_simps split: if_splits)
qed (auto simp: event_simps push_message_def)

lemma turn_loop_events:
  assumes "turn_loop env specs s t w = (evs, r, s', w')"
  shows "foldl gate_step Idle evs = Idle \<and> filter is_compacted evs = []
    \<and> (\<exists>n. last evs = TurnEnded n r \<and> filter is_turn_ended evs = [TurnEnded n r]
        \<and> List.map_filter started_turn evs = [t + 1..<Suc n] \<and> t \<le> n
        \<and> (if r = RoundLimit then n = max (t + 1) (s_max_rounds s)
           else n \<le> max (t + 1) (s_max_rounds s)))"
  using assms
proof (induction rule: turn_loop_rule)
  case (last s t w evs r s' w')
  from turn_round_events [OF this] obtain n where n:
    "foldl gate_step Idle evs = Idle" "filter is_compacted evs = []"
    "last evs = TurnEnded n r" "filter is_turn_ended evs = [TurnEnded n r]"
    "List.map_filter started_turn evs = [t + 1..<Suc n]" "n \<le> t + 1" "t \<le> n"
    "if r = RoundLimit then s_max_rounds s \<le> n \<and> n = t + 1 else n \<le> t + 1"
    by (simp del: upt_Suc) blast
  from n(8) have "if r = RoundLimit then n = max (t + 1) (s_max_rounds s)
      else n \<le> max (t + 1) (s_max_rounds s)"
    by (cases "r = RoundLimit") auto
  with n show ?case by blast
next
  case (step s t w evs1 s1 w1 evs2 r s' w')
  from turn_round_events [OF step(1)]
  have a: "foldl gate_step Idle evs1 = Idle" "filter is_compacted evs1 = []"
    "s_max_rounds s1 = s_max_rounds s" "filter is_turn_ended evs1 = []"
    "List.map_filter started_turn evs1 = [t + 1]" "t + 1 < s_max_rounds s" by auto
  from step(2) obtain n where n: "last evs2 = TurnEnded n r" "filter is_turn_ended evs2 = [TurnEnded n r]"
    "List.map_filter started_turn evs2 = [t + 1 + 1..<Suc n]" "t + 1 \<le> n"
    "if r = RoundLimit then n = max (t + 1 + 1) (s_max_rounds s1)
     else n \<le> max (t + 1 + 1) (s_max_rounds s1)" "foldl gate_step Idle evs2 = Idle"
    "filter is_compacted evs2 = []" by auto
  have "evs2 \<noteq> []" using n(2) by auto
  moreover have "[t + 1] @ [t + 1 + 1..<Suc n] = [t + 1..<Suc n]"
    using n(4) by (simp add: upt_conv_Cons)
  ultimately show ?case using a n by (auto simp: event_simps split: if_splits)
qed

text \<open>What a prompt is: the compaction in front of the loop, then the loop.\<close>

lemma prompt_cases:
  assumes "prompt env s text w = (evs, r, s', w')"
  obtains (stopped) e where "r = StopError (''could not compact the history: '' @ e)"
      "evs = [UserPrompt text, TurnEnded 0 r]" "s' = push_message (User text) s"
      "compact (e_json_text env) (e_provider env) w (s_messages s @ [User text]) (s_budget s) = (Inl e, w')"
  | (ran) pre s1 w1 evs' where "evs = UserPrompt text # pre @ evs'"
      "turn_loop env (tool_specs env) s1 0 w1 = (evs', r, s', w')"
      "s1 = (push_message (User text) s)\<lparr>s_messages := s_messages s1\<rparr>"
      "(pre = [] \<and> s1 = push_message (User text) s \<and> w1 = w)
       \<or> (\<exists>c. pre = [Compacted (c_tokens_before c) (c_tokens_after c) (c_replaced c)]
            \<and> s_messages s1 = c_messages c
            \<and> compact (e_json_text env) (e_provider env) w (s_messages s @ [User text]) (s_budget s)
                = (Inr c, w1))"
proof (cases "needs_compaction (e_json_text env) (s_messages s @ [User text]) (s_budget s)")
  case False
  obtain evs' where "turn_loop env (tool_specs env) (push_message (User text) s) 0 w = (evs', r, s', w')"
    "evs = UserPrompt text # evs'"
    using assms False by (auto simp: prompt_def push_message_def Let_def split: prod.splits)
  with ran [of "[]" evs' "push_message (User text) s" w] show ?thesis by simp
next
  case True
  obtain res w1 where c: "compact (e_json_text env) (e_provider env) w (s_messages s @ [User text])
      (s_budget s) = (res, w1)" by fastforce
  show ?thesis
  proof (cases res)
    case (Inl e)
    with assms True c stopped [of e] show ?thesis
      by (auto simp: prompt_def push_message_def Let_def)
  next
    case (Inr c1)
    let ?s1 = "(push_message (User text) s)\<lparr>s_messages := c_messages c1\<rparr>"
    obtain evs' where "turn_loop env (tool_specs env) ?s1 0 w1 = (evs', r, s', w')"
      "evs = UserPrompt text # [Compacted (c_tokens_before c1) (c_tokens_after c1) (c_replaced c1)] @ evs'"
      using assms True c Inr by (auto simp: prompt_def push_message_def Let_def split: prod.splits)
    with ran [OF this(2,1)] c Inr show ?thesis by auto
  qed
qed

text \<open>every prompt ends, and its rounds are numbered from one, never more than the ceiling
  (one round when that is zero), which it reaches whenever it gives that as its reason; it
  announces its end exactly once, last, with the reason it returns.\<close>

theorem prompt_rounds_bounded:
  "case prompt env s text w of (evs, r, _, _) \<Rightarrow>
     \<exists>n. hd evs = UserPrompt text \<and> last evs = TurnEnded n r
       \<and> filter is_turn_ended evs = [TurnEnded n r]
       \<and> List.map_filter started_turn evs = [1..<Suc n]
       \<and> (if r = RoundLimit then n = max 1 (s_max_rounds s) else n \<le> max 1 (s_max_rounds s))"
proof -
  obtain evs r s' w' where p: "prompt env s text w = (evs, r, s', w')" by (metis prod_cases4)
  then show ?thesis
  proof (cases rule: prompt_cases)
    case (stopped e)
    then show ?thesis unfolding p by (auto simp: event_simps)
  next
    case (ran pre s1 w1 evs')
    have m: "s_max_rounds s1 = s_max_rounds s" by (subst ran(3)) (simp add: push_message_def)
    from turn_loop_events [OF ran(2)] obtain n where n: "last evs' = TurnEnded n r"
      "filter is_turn_ended evs' = [TurnEnded n r]"
      "List.map_filter started_turn evs' = [1..<Suc n]"
      "if r = RoundLimit then n = max 1 (s_max_rounds s) else n \<le> max 1 (s_max_rounds s)"
      unfolding m add_0 by metis
    have "evs' \<noteq> []" using n(2) by auto
    with n ran(4) show ?thesis unfolding p ran(1)
      by (auto simp: event_simps intro!: exI [of _ n])
  qed
qed

text \<open>C4: in the events of a prompt a tool starts only directly after the permission request for
  that very call was answered with a yes.\<close>

theorem prompt_tools_gated:
  "foldl gate_step Idle (fst (prompt env s text w)) = Idle"
proof -
  obtain evs r s' w' where p: "prompt env s text w = (evs, r, s', w')" by (metis prod_cases4)
  then show ?thesis
  proof (cases rule: prompt_cases)
    case (stopped e)
    then show ?thesis unfolding p by simp
  next
    case (ran pre s1 w1 evs')
    with turn_loop_events [OF ran(2)] show ?thesis unfolding p ran(1) by auto
  qed
qed

section \<open>The history\<close>

lemma turn_round_history:
  assumes "turn_round env specs s t w = (evs, ro, s', w')"
  shows "\<exists>added. s' = s\<lparr>s_messages := s_messages s @ added\<rparr> \<and> answered added
    \<and> List.map_filter finished_call evs = List.map_filter answered_call added"
  using assms
proof (cases rule: turn_round_cases)
  case stopped
  then show ?thesis by (intro exI [of _ "[]"]) (simp add: event_simps)
next
  case (failed w0 deltas e)
  then show ?thesis by (intro exI [of _ "[]"]) (simp add: event_simps)
next
  case (completed w0 deltas out)
  then show ?thesis
    by (intro exI [of _ "[Assistant (to_text out) []]"]) (simp add: event_simps push_message_def)
next
  case (ran w0 deltas out w1 evs2 results w2 b)
  from run_calls_events [OF ran(4)] have c: "list_all2 result_for (to_tool_calls out) results"
    "List.map_filter finished_call evs2 = List.map_filter answered_call results" by auto
  let ?added = "Assistant (to_text out) (to_tool_calls out) # results"
  have "List.map_filter finished_call (case ro of None \<Rightarrow> [] | Some r \<Rightarrow> [TurnEnded (t + 1) r]) = []"
    by (simp add: event_simps split: option.splits)
  with c(2) have "List.map_filter finished_call evs = List.map_filter answered_call ?added"
    unfolding ran(8) by (simp add: event_simps)
  moreover have "answered ?added" using c(1) by (rule answered_round)
  ultimately show ?thesis using ran(5) by blast
qed

lemma turn_loop_history:
  assumes "turn_loop env specs s t w = (evs, r, s', w')"
  shows "\<exists>added. s' = s\<lparr>s_messages := s_messages s @ added\<rparr> \<and> answered added
    \<and> List.map_filter finished_call evs = List.map_filter answered_call added"
  using assms
proof (induction rule: turn_loop_rule)
  case (last s t w evs r s' w')
  then show ?case by (rule turn_round_history)
next
  case (step s t w evs1 s1 w1 evs2 r s' w')
  from turn_round_history [OF step(1)] obtain a1 where a1:
    "s1 = s\<lparr>s_messages := s_messages s @ a1\<rparr>" "answered a1"
    "List.map_filter finished_call evs1 = List.map_filter answered_call a1" by blast
  from step(2) obtain a2 where "s' = s1\<lparr>s_messages := s_messages s1 @ a2\<rparr>" "answered a2"
    "List.map_filter finished_call evs2 = List.map_filter answered_call a2" by blast
  with a1 show ?case
    by (intro exI [of _ "a1 @ a2"]) (simp add: answered_append event_simps)
qed

text \<open>C5: a prompt that was not compacted only appends to the conversation, starting with the
  text it was given, and keeps it acceptable to a provider: whatever the model asked for,
  each call of a turn is answered by one result, in order, refusals, failures, invented names
  and cancelled calls included; and the finish events show the same calls with the same
  outcome as the results the model is sent.\<close>

theorem prompt_history:
  assumes "prompt env s text w = (evs, r, s', w')" "filter is_compacted evs = []"
    and "answered (s_messages s)"
  shows "answered (s_messages s')
    \<and> (\<exists>added. s' = s\<lparr>s_messages := s_messages s @ User text # added\<rparr>
         \<and> List.map_filter finished_call evs = List.map_filter answered_call added)"
  using assms(1)
proof (cases rule: prompt_cases)
  case (stopped e)
  with assms(3) show ?thesis
    by (auto simp: push_message_def answered_append event_simps intro!: exI [of _ "[]"])
next
  case (ran pre s1 w1 evs')
  with assms(2) have pre: "pre = []" "s1 = push_message (User text) s" by auto
  from turn_loop_history [OF ran(2)] obtain added where
    "s' = s1\<lparr>s_messages := s_messages s1 @ added\<rparr>" "answered added"
    "List.map_filter finished_call evs' = List.map_filter answered_call added" by blast
  with assms(3) show ?thesis unfolding ran(1) pre
    by (intro conjI exI [of _ added]) (simp_all add: push_message_def answered_append event_simps)
qed

section \<open>Stopping\<close>

text \<open>A state of the world in which the cancel flag is up and stays up.\<close>

definition stays_stopped :: "'w senv \<Rightarrow> ('w \<Rightarrow> bool) \<Rightarrow> bool" where
  "stays_stopped env S \<longleftrightarrow>
     (\<forall>w. S w \<longrightarrow> fst (e_cancelled env w) \<and> S (snd (e_cancelled env w))
        \<and> (\<forall>c. S (snd (e_spill env w c))))"

lemma stays_stoppedD:
  assumes "stays_stopped env S" "S w"
  obtains w1 where "e_cancelled env w = (True, w1)" "S w1" "\<And>c. S (snd (folded_content (e_spill env) w1 c))"
proof -
  obtain b w1 where b: "e_cancelled env w = (b, w1)" by fastforce
  with assms have s: b "S w1" by (auto simp: stays_stopped_def)
  have "S (snd (folded_content (e_spill env) w1 c))" for c
    using assms(1) s(2) by (auto simp: folded_content_def fold_result_def stays_stopped_def Let_def
        split: prod.splits sum.splits) (metis snd_conv)+
  with b s that [of w1] show ?thesis by simp
qed

text \<open>C6: once the stop is visible no further call of the turn runs or asks for approval: every
  call left is answered as not run; and a prompt whose stop is visible at the start ends
  cancelled without a request.\<close>

theorem stopped_calls_not_run:
  assumes "stays_stopped env S" "S w"
  shows "fst (run_calls env w calls) = map (\<lambda>c. finished c (not_run c) None) calls
    \<and> list_all2 result_for calls (fst (snd (run_calls env w calls)))
    \<and> S (snd (snd (run_calls env w calls)))
    \<and> fst (turn_loop env specs s t w) = [TurnEnded t Cancelled]"
proof (intro conjI)
  show "fst (run_calls env w calls) = map (\<lambda>c. finished c (not_run c) None) calls"
    using assms(2)
  proof (induction calls arbitrary: w)
    case (Cons c cs)
    from stays_stoppedD [OF assms(1) Cons.prems] obtain w1 where w1: "e_cancelled env w = (True, w1)"
      "\<And>c. S (snd (folded_content (e_spill env) w1 c))" by blast
    from w1(2) [of "cr_content (not_run c)"] Cons.IH w1(1) show ?case
      by (auto split: prod.splits) (metis fst_conv)
  qed simp
  show "list_all2 result_for calls (fst (snd (run_calls env w calls)))"
    using run_calls_events by (metis prod.collapse)
  show "S (snd (snd (run_calls env w calls)))"
    using assms(2)
  proof (induction calls arbitrary: w)
    case (Cons c cs)
    from stays_stoppedD [OF assms(1) Cons.prems] obtain w1 where w1: "e_cancelled env w = (True, w1)"
      "\<And>c. S (snd (folded_content (e_spill env) w1 c))" by blast
    from w1(2) [of "cr_content (not_run c)"] Cons.IH w1(1) show ?case
      by (auto split: prod.splits) (metis snd_conv)
  qed simp
  show "fst (turn_loop env specs s t w) = [TurnEnded t Cancelled]"
    using assms by (auto simp: turn_loop.simps [of env specs s t w] turn_round_def stays_stopped_def
        split: prod.splits)
qed

section \<open>A refusal keeps the tools from running\<close>

text \<open>The same environment with other tool bodies.\<close>

definition with_bodies :: "('w tool \<Rightarrow> 'w \<Rightarrow> json \<Rightarrow> string list \<times> (string + tool_output) \<times> 'w) \<Rightarrow> 'w senv \<Rightarrow> 'w senv" where
  "with_bodies f env = env\<lparr>e_tools := map (\<lambda>t. t\<lparr>t_execute := f t\<rparr>) (e_tools env)\<rparr>"

lemma with_bodies_simps [simp]:
  "e_provider (with_bodies f env) = e_provider env" "e_policy (with_bodies f env) = e_policy env"
  "e_gate (with_bodies f env) = e_gate env" "e_cancelled (with_bodies f env) = e_cancelled env"
  "e_spill (with_bodies f env) = e_spill env" "e_json_text (with_bodies f env) = e_json_text env"
  "tool_specs (with_bodies f env) = tool_specs env"
  "map t_name (e_tools (with_bodies f env)) = map t_name (e_tools env)"
  by (simp_all add: with_bodies_def tool_specs_def)

lemma find_tool_with_bodies:
  "find_tool (with_bodies f env) n = map_option (\<lambda>t. t\<lparr>t_execute := f t\<rparr>) (find_tool env n)"
proof -
  have "List.find (\<lambda>t. t_name t = n) (map (\<lambda>t. t\<lparr>t_execute := f t\<rparr>) ts)
      = map_option (\<lambda>t. t\<lparr>t_execute := f t\<rparr>) (List.find (\<lambda>t. t_name t = n) ts)" for ts
    by (induction ts) auto
  then show ?thesis by (simp add: find_tool_def with_bodies_def)
qed

definition always_refused :: "'w senv \<Rightarrow> bool" where
  "always_refused env \<longleftrightarrow> (\<forall>w cid name input. \<exists>reason w'.
     resolve (e_policy env) (e_gate env) w cid name input = (Denied reason, w'))"

lemma run_one_call_inert:
  assumes "always_refused env"
  shows "run_one_call (with_bodies f env) w call = run_one_call env w call"
proof -
  obtain reason w' where "resolve (e_policy env) (e_gate env) w (tc_id call) (tc_name call) (tc_input call)
      = (Denied reason, w')"
    using assms by (metis always_refused_def)
  then show ?thesis
    by (auto simp: run_one_call_def find_tool_with_bodies Let_def split: option.splits)
qed

lemma run_calls_inert:
  "always_refused env \<Longrightarrow> run_calls (with_bodies f env) w calls = run_calls env w calls"
  by (induction calls arbitrary: w) (auto simp: run_one_call_inert split: prod.splits)

lemma turn_loop_inert:
  "always_refused env \<Longrightarrow> turn_loop (with_bodies f env) specs s t w = turn_loop env specs s t w"
proof (induction env specs s t w rule: turn_loop.induct)
  case (1 env specs s t w)
  have "turn_round (with_bodies f env) specs s t w = turn_round env specs s t w"
    unfolding turn_round_def run_calls_inert [OF 1(2)] with_bodies_simps ..
  then show ?case
    by (subst (1 2) turn_loop.simps) (use 1 in \<open>auto split: prod.splits option.splits\<close>)
qed

text \<open>when neither the rules nor the person ever says yes, no tool runs: what a prompt does,
  to the events, the history and the world, does not depend on what the tools would have
  done.\<close>

theorem refused_tools_inert:
  assumes "always_refused env"
  shows "prompt (with_bodies f env) s text w = prompt env s text w"
  unfolding prompt_def turn_loop_inert [OF assms] with_bodies_simps ..

section \<open>A session to evaluate\<close>

text \<open>A scripted model that calls one tool twice, with the flag raised after a number of loads: the
  world is the script and that number.\<close>

definition echo_tool :: "'w tool" where
  "echo_tool = \<lparr>t_name = ''echo'', t_description = ''Repeats its text'', t_parameters = JNull,
     t_execute = (\<lambda>w input. ([], Inr \<lparr>o_content = [TextBlock ''hi''], o_truncation = None,
                                        o_location = None\<rparr>, w))\<rparr>"

definition two_calls :: turn_outcome where
  "two_calls = \<lparr>to_text = ''running'', to_tool_calls =
     [\<lparr>tc_id = ''c1'', tc_name = ''echo'', tc_input = JNull\<rparr>,
      \<lparr>tc_id = ''c2'', tc_name = ''nope'', tc_input = JNull\<rparr>]\<rparr>"

definition demo_env :: "decision \<Rightarrow> (scripted \<times> nat) senv" where
  "demo_env answer = \<lparr>
     e_provider = (\<lambda>(sp, n) ms tools. case scripted_stream sp ms tools of (ds, r, sp') \<Rightarrow> (ds, r, sp', n)),
     e_tools = [echo_tool],
     e_policy = ask_everything,
     e_gate = (\<lambda>w _ _ _. (answer, w)),
     e_cancelled = (\<lambda>(sp, n). (n = 0, sp, n - 1)),
     e_spill = (\<lambda>w _. (Inl ''no disk'', w)),
     e_json_text = (\<lambda>_. ''null'')\<rparr>"

definition demo_world :: "nat \<Rightarrow> scripted \<times> nat" where
  "demo_world n = (scripted_new [two_calls, turn_saying ''done''], n)"



lemmas demo_defs = prompt_def push_message_def turn_round_def run_one_call_def folded_content_def
  fold_result_def find_tool_def tool_specs_def request_messages_def needs_compaction_def
  demo_env_def demo_world_def scripted_stream_def scripted_new_def two_calls_def turn_saying_def
  echo_tool_def ask_everything_def resolve_def joined_text_def finished_def call_view_def not_run_def
  session_new_def budget_default_def DEFAULT_MAX_ROUNDS_def BRANCH_THRESHOLD_BYTES_def Let_def

lemma demo_run:
  "\<exists>evs s' w'. prompt (demo_env Allow) session_new ''go'' (demo_world 10) = (evs, Done, s', w')
     \<and> filter is_compacted evs = [] \<and> length (s_messages s') = 5"
  by (simp add: demo_defs turn_loop.simps event_simps)

theorem prompt_history_witness:
  "\<exists>evs s' w'. prompt (demo_env Allow) session_new ''go'' (demo_world 10) = (evs, Done, s', w')
     \<and> answered (s_messages s') \<and> length (s_messages s') = 5"
proof -
  obtain evs s' w' where p: "prompt (demo_env Allow) session_new ''go'' (demo_world 10) = (evs, Done, s', w')"
    "filter is_compacted evs = []" "length (s_messages s') = 5"
    using demo_run by blast
  have "answered (s_messages session_new)" by (simp add: session_new_def)
  with prompt_history [OF p(1,2)] p show ?thesis by blast
qed

theorem stopped_calls_not_run_witness:
  "fst (run_calls (demo_env Allow) (demo_world 0) (to_tool_calls two_calls))
     = map (\<lambda>c. finished c (not_run c) None) (to_tool_calls two_calls)"
proof -
  have "stays_stopped (demo_env Allow) (\<lambda>w. snd w = 0)"
    by (auto simp: stays_stopped_def demo_env_def)
  from stopped_calls_not_run [OF this, of "demo_world 0"] show ?thesis
    by (simp add: demo_world_def)
qed

theorem refused_tools_inert_witness:
  "prompt (with_bodies (\<lambda>t w input. ([], Inl ''boom'', w)) (demo_env (Deny ''no''))) session_new ''go'' (demo_world 10)
     = prompt (demo_env (Deny ''no'')) session_new ''go'' (demo_world 10)"
  by (rule refused_tools_inert)
     (auto simp: always_refused_def demo_env_def resolve_def ask_everything_def)

end
