(* ===== verification/Agent_Cache.thy ===== *)
theory Agent_Cache
  imports Agent_Session
begin

text \<open>
  Prefix stability of the requests a provider sees (\<open>crates/tabverse-agent/src/cache.rs\<close>): a probe
  that records each request and an analysis of where consecutive ones stopped agreeing. A share
  of a request is an exact rational.
\<close>

record snapshot =
  sn_messages :: "message list"
  sn_tools :: "tool_spec list"

datatype request_kind = Main | Side
datatype cause = HistoryRewritten | ToolsChanged

record divergence =
  dv_request :: nat
  dv_shared_messages :: nat
  dv_total_messages :: nat
  dv_cause :: cause

record report =
  rp_requests :: nat
  rp_main_requests :: nat
  rp_side_requests :: nat
  rp_divergences :: "divergence list"
  rp_reuse :: "rat list"
  rp_cacheable_fraction :: rat

definition kind_of :: "snapshot \<Rightarrow> request_kind" where
  "kind_of s = (if sn_tools s = [] then Side else Main)"

definition prefix_stable :: "report \<Rightarrow> bool" where
  "prefix_stable r \<longleftrightarrow> rp_divergences r = []"

definition shared_prefix :: "message list \<Rightarrow> message list \<Rightarrow> nat" where
  "shared_prefix a b = length (takeWhile (\<lambda>(x, y). x = y) (zip a b))"

text \<open>One pair of consecutive conversation requests, the later with its index: the divergence
  it shows, and the share of the later one that could be served.\<close>

definition analyse_pair :: "snapshot \<Rightarrow> nat \<times> snapshot \<Rightarrow> divergence list \<times> rat" where
  "analyse_pair before later = (case later of (request, after) \<Rightarrow>
     (if sn_tools before \<noteq> sn_tools after then
        ([\<lparr>dv_request = request, dv_shared_messages = 0,
           dv_total_messages = length (sn_messages after), dv_cause = ToolsChanged\<rparr>], 0)
      else let shared = shared_prefix (sn_messages before) (sn_messages after) in
        (if shared < length (sn_messages before)
         then [\<lparr>dv_request = request, dv_shared_messages = shared,
                dv_total_messages = length (sn_messages after), dv_cause = HistoryRewritten\<rparr>]
         else [],
         if sn_messages after = [] then 0 else of_nat shared / of_nat (length (sn_messages after)))))"

text \<open>\<open>main.windows(2)\<close>.\<close>

fun analyse_pairs :: "(nat \<times> snapshot) list \<Rightarrow> divergence list \<times> rat list" where
  "analyse_pairs ((i, before) # later # rest) =
     (case analyse_pair before later of (d, c) \<Rightarrow>
      case analyse_pairs (later # rest) of (ds, cs) \<Rightarrow> (d @ ds, c # cs))"
| "analyse_pairs _ = ([], [])"

definition main_of :: "snapshot list \<Rightarrow> (nat \<times> snapshot) list" where
  "main_of snapshots = filter (\<lambda>(i, s). kind_of s = Main) (enumerate 0 snapshots)"

definition analyse :: "snapshot list \<Rightarrow> report" where
  "analyse snapshots =
     (let main = main_of snapshots in
      case analyse_pairs main of (divergences, cs) \<Rightarrow>
      let cacheable = (if main = [] then [] else [0]) @ cs in
      \<lparr>rp_requests = length snapshots,
       rp_main_requests = length main,
       rp_side_requests = length snapshots - length main,
       rp_divergences = divergences,
       rp_reuse = cacheable,
       rp_cacheable_fraction = (if main = [] then 0 else sum_list cacheable / of_nat (length main))\<rparr>)"

text \<open>\<open>ProbeProvider\<close>: the recorded requests are a second component of the world.\<close>

definition probe_stream :: "'w provider \<Rightarrow> ('w \<times> snapshot list) provider" where
  "probe_stream inner w messages tools =
     (case inner (fst w) messages tools of (deltas, res, w1) \<Rightarrow>
        (deltas, res, w1, snd w @ [\<lparr>sn_messages = messages, sn_tools = tools\<rparr>]))"

section \<open>The analysis is right\<close>

lemma analyse_pairs_Cons:
  "fst (analyse_pairs ((i, a) # l # ms)) = fst (analyse_pair a l) @ fst (analyse_pairs (l # ms))"
  "snd (analyse_pairs ((i, a) # l # ms)) = snd (analyse_pair a l) # snd (analyse_pairs (l # ms))"
  by (simp_all split: prod.splits)

lemma shared_prefix_le: "shared_prefix a b \<le> min (length a) (length b)"
  unfolding shared_prefix_def using length_takeWhile_le [of _ "zip a b"] by (metis length_zip)

lemma shared_prefix_Cons:
  "shared_prefix (x # xs) (y # ys) = (if x = y then Suc (shared_prefix xs ys) else 0)"
  by (simp add: shared_prefix_def)

lemma shared_prefix_full: "shared_prefix a b < length a \<longleftrightarrow> \<not> prefix a b"
proof (induction a arbitrary: b)
  case (Cons x xs)
  show ?case
  proof (cases b)
    case Nil
    then show ?thesis by (simp add: shared_prefix_def)
  next
    case (Cons y ys)
    with Cons.IH [of ys] show ?thesis by (simp add: shared_prefix_Cons)
  qed
qed (simp add: shared_prefix_def)

text \<open>What a healthy conversation sends: the same tools, and everything the last request held.\<close>

definition extends :: "snapshot \<Rightarrow> snapshot \<Rightarrow> bool" where
  "extends a b \<longleftrightarrow> sn_tools a = sn_tools b \<and> prefix (sn_messages a) (sn_messages b)"

lemma extends_trans: "extends a b \<Longrightarrow> extends b c \<Longrightarrow> extends a c"
  by (auto simp: extends_def)

lemma analyse_pair_stable: "fst (analyse_pair a (i, b)) = [] \<longleftrightarrow> extends a b"
  by (simp add: analyse_pair_def extends_def shared_prefix_full Let_def)

lemma analyse_pairs_stable:
  "fst (analyse_pairs ms) = [] \<longleftrightarrow> sorted_wrt extends (map snd ms)"
proof (induction ms rule: analyse_pairs.induct)
  case (1 i before later rest)
  obtain j after where l: "later = (j, after)" by fastforce
  have "sorted_wrt extends (before # after # map snd rest)
      \<longleftrightarrow> extends before after \<and> sorted_wrt extends (after # map snd rest)"
    by (auto intro: extends_trans)
  moreover have "fst (analyse_pairs (later # rest)) = [] \<longleftrightarrow> sorted_wrt extends (after # map snd rest)"
    using 1 l by (cases "analyse_pair before later") auto
  ultimately show ?case
    by (simp only: analyse_pairs_Cons l analyse_pair_stable append_is_Nil_conv list.map snd_conv)
qed auto

lemma map_snd_main_of: "map snd (main_of sn) = filter (\<lambda>s. kind_of s = Main) sn"
proof -
  have "map snd (filter (\<lambda>(i, s). kind_of s = Main) (enumerate n sn))
      = filter (\<lambda>s. kind_of s = Main) sn" for n
    by (induction sn arbitrary: n) auto
  then show ?thesis by (simp add: main_of_def)
qed

lemma prefix_stable_iff:
  "prefix_stable (analyse sn) \<longleftrightarrow> sorted_wrt extends (filter (\<lambda>s. kind_of s = Main) sn)"
  by (simp add: prefix_stable_def analyse_def Let_def analyse_pairs_stable [symmetric]
      map_snd_main_of [symmetric] split: prod.splits)

text \<open>the report counts every request as one of the two kinds, has one share in [0, 1] per
  conversation request with their mean between the same bounds, and calls the prefix stable
  exactly when every conversation request sends the same tools as all those before it and
  begins with all of their messages.\<close>

theorem analyse_correct:
  "rp_main_requests (analyse sn) + rp_side_requests (analyse sn) = length sn
   \<and> length (rp_reuse (analyse sn)) = rp_main_requests (analyse sn)
   \<and> set (rp_reuse (analyse sn)) \<subseteq> {0..1}
   \<and> rp_cacheable_fraction (analyse sn) \<in> {0..1}
   \<and> (prefix_stable (analyse sn) \<longleftrightarrow> sorted_wrt extends (filter (\<lambda>s. kind_of s = Main) sn))"
proof -
  let ?main = "main_of sn"
  have l: "length ?main \<le> length sn"
    unfolding main_of_def by (metis length_filter_le length_enumerate)
  have n: "length (snd (analyse_pairs ms)) = length ms - 1" for ms
    by (induction ms rule: analyse_pairs.induct) (auto split: prod.splits)
  have p: "snd (analyse_pair a b) \<in> {0..1}" for a b
    using shared_prefix_le [of "sn_messages a" "sn_messages (snd b)"]
    by (auto simp: analyse_pair_def Let_def divide_simps split: prod.splits)
  have b: "set (snd (analyse_pairs ms)) \<subseteq> {0..1}" for ms
  proof (induction ms rule: analyse_pairs.induct)
    case (1 i before later rest)
    have "set (snd (analyse_pairs (later # rest))) \<subseteq> {0..1}"
      using 1 by (cases "analyse_pair before later") auto
    with p [of before later] show ?case
      by (simp only: analyse_pairs_Cons list.set insert_subset)
  qed auto
  have mean: "0 \<le> sum_list cs \<and> sum_list cs \<le> of_nat (length cs)"
    if "set cs \<subseteq> {0..1}" for cs :: "rat list"
    using that by (induction cs) auto
  have len: "length (rp_reuse (analyse sn)) = rp_main_requests (analyse sn)"
    using n [of ?main] by (cases ?main) (auto simp: analyse_def Let_def split: prod.splits)
  have bd: "set (rp_reuse (analyse sn)) \<subseteq> {0..1}"
    using b [of ?main] by (auto simp: analyse_def Let_def split: prod.splits)
  have "rp_cacheable_fraction (analyse sn) =
      (if rp_main_requests (analyse sn) = 0 then 0
       else sum_list (rp_reuse (analyse sn)) / of_nat (rp_main_requests (analyse sn)))"
    by (simp add: analyse_def Let_def split: prod.splits)
  with mean [OF bd] len have "rp_cacheable_fraction (analyse sn) \<in> {0..1}"
    by (auto simp: divide_simps)
  with len bd l show ?thesis
    by (simp add: prefix_stable_iff) (simp add: analyse_def Let_def split: prod.splits)
qed

section \<open>A session keeps its prefix\<close>

text \<open>The environment of a session with a probe in front of its provider; everything else acts on
  the world behind the probe.\<close>

definition on_fst :: "('w \<Rightarrow> 'r \<times> 'w) \<Rightarrow> 'w \<times> 'n \<Rightarrow> 'r \<times> 'w \<times> 'n" where
  "on_fst f w = (case f (fst w) of (r, w1) \<Rightarrow> (r, w1, snd w))"

definition probe_env :: "'w senv \<Rightarrow> ('w \<times> snapshot list) senv" where
  "probe_env env = \<lparr>
     e_provider = probe_stream (e_provider env),
     e_tools = map (\<lambda>t. \<lparr>t_name = t_name t, t_description = t_description t,
                 t_parameters = t_parameters t,
                 t_execute = (\<lambda>w input. case t_execute t (fst w) input of (ch, r, w1) \<Rightarrow> (ch, r, w1, snd w))\<rparr>)
               (e_tools env),
     e_policy = (\<lambda>w name input. on_fst (\<lambda>w. e_policy env w name input) w),
     e_gate = (\<lambda>w cid name input. on_fst (\<lambda>w. e_gate env w cid name input) w),
     e_cancelled = on_fst (e_cancelled env),
     e_spill = (\<lambda>w content. on_fst (\<lambda>w. e_spill env w content) w),
     e_json_text = e_json_text env\<rparr>"

lemma on_fst_snd [simp]: "on_fst f w = (r, w') \<Longrightarrow> snd w' = snd w"
  by (auto simp: on_fst_def split: prod.splits)

text \<open>Several prompts, one after the other.\<close>

fun conversation ::
  "'w senv \<Rightarrow> session \<Rightarrow> string list \<Rightarrow> 'w \<Rightarrow> session_event list \<times> session \<times> 'w" where
  "conversation env s [] w = ([], s, w)"
| "conversation env s (text # texts) w =
     (case prompt env s text w of (evs, r, s1, w1) \<Rightarrow>
      case conversation env s1 texts w1 of (evs', s2, w2) \<Rightarrow> (evs @ evs', s2, w2))"

lemma probe_find_tool:
  "find_tool (probe_env env) n = Some t \<Longrightarrow> t_execute t w input = (ch, r, w') \<Longrightarrow> snd w' = snd w"
  by (auto simp: find_tool_def probe_env_def find_Some_iff split: prod.splits)

lemma probe_run_one_call:
  assumes "run_one_call (probe_env env) w call = (evs, r, w')"
  shows "snd w' = snd w"
proof (cases "find_tool (probe_env env) (tc_name call)")
  case None
  with assms show ?thesis by (simp add: run_one_call_def Let_def)
next
  case (Some t)
  obtain out w1 where p: "resolve (e_policy (probe_env env)) (e_gate (probe_env env)) w (tc_id call)
      (tc_name call) (tc_input call) = (out, w1)" by (metis surj_pair)
  then have "snd w1 = snd w"
    by (auto simp: resolve_def probe_env_def split: prod.splits decision.splits)
  with assms Some p show ?thesis
    by (auto simp: run_one_call_def Let_def split: permission_outcome.splits prod.splits sum.splits
        dest: probe_find_tool)
qed

lemma probe_folded_content:
  "folded_content (e_spill (probe_env env)) w c = (content, w') \<Longrightarrow> snd w' = snd w"
  by (auto simp: folded_content_def fold_result_def probe_env_def Let_def
      split: prod.splits sum.splits if_splits)

lemma probe_cancelled: "e_cancelled (probe_env env) w = (b, w') \<Longrightarrow> snd w' = snd w"
  by (simp add: probe_env_def)

lemma probe_run_calls:
  "run_calls (probe_env env) w calls = (evs, ms, w') \<Longrightarrow> snd w' = snd w"
proof (induction "probe_env env" w calls arbitrary: evs ms w' rule: run_calls.induct)
  case (2 w call calls)
  obtain b w1 where b: "e_cancelled (probe_env env) w = (b, w1)" by (metis surj_pair)
  obtain evs1 r w2 where r: "(if b then ([finished call (not_run call) None], not_run call, w1)
      else run_one_call (probe_env env) w1 call) = (evs1, r, w2)" by (metis prod_cases3)
  obtain content w3 where f: "folded_content (e_spill (probe_env env)) w2 (cr_content r) = (content, w3)"
    by (metis surj_pair)
  obtain evs2 ms2 w4 where rest: "run_calls (probe_env env) w3 calls = (evs2, ms2, w4)"
    by (metis prod_cases3)
  note IH = 2(1) [OF b [symmetric] r [symmetric] refl f [symmetric] rest]
  have "snd w2 = snd w1" using r probe_run_one_call [of env w1 call] by (cases b) auto
  moreover have "w' = w4" using 2(2) b r f rest by simp
  ultimately show ?case using IH probe_cancelled [OF b] probe_folded_content [OF f] by simp
qed simp

text \<open>The requests recorded so far and the conversation they would be followed by.\<close>

definition chain :: "tool_spec list \<Rightarrow> session \<Rightarrow> snapshot list \<Rightarrow> bool" where
  "chain specs s sn \<longleftrightarrow> sorted_wrt extends (filter (\<lambda>x. kind_of x = Main) sn)
     \<and> (\<forall>x \<in> set sn. kind_of x = Main \<longrightarrow>
          extends x \<lparr>sn_messages = request_messages s, sn_tools = specs\<rparr>)"

lemma chain_mono:
  assumes "chain specs s sn" "prefix (request_messages s) (request_messages s')"
  shows "chain specs s' sn"
  using assms by (auto simp: chain_def extends_def)

lemma request_messages_mono:
  "s' = s\<lparr>s_messages := s_messages s @ added\<rparr> \<Longrightarrow> prefix (request_messages s) (request_messages s')"
  by (auto simp: request_messages_def split: option.splits)

lemma chain_request:
  assumes "chain specs s sn"
  shows "chain specs s (sn @ [\<lparr>sn_messages = request_messages s, sn_tools = specs\<rparr>])"
  using assms by (auto simp: chain_def sorted_wrt_append extends_def)

lemma probe_provider:
  assumes "e_provider (probe_env env) w ms specs = (ds, r, w')"
  shows "snd w' = snd w @ [\<lparr>sn_messages = ms, sn_tools = specs\<rparr>]"
  using assms by (auto simp: probe_env_def probe_stream_def split: prod.splits)

lemma turn_round_chain:
  assumes "turn_round (probe_env env) specs s t w = (evs, ro, s', w')" "chain specs s (snd w)"
  shows "chain specs s' (snd w')"
proof -
  from turn_round_history [OF assms(1)] have mono: "prefix (request_messages s) (request_messages s')"
    by (metis request_messages_mono)
  from assms(1) have "snd w' = snd w
      \<or> snd w' = snd w @ [\<lparr>sn_messages = request_messages s, sn_tools = specs\<rparr>]"
  proof (cases rule: turn_round_cases)
    case (ran w0 deltas out w1 evs2 results w2 b)
    show ?thesis
      using probe_cancelled [OF ran(1)] probe_provider [OF ran(3)] probe_run_calls [OF ran(4)]
        probe_cancelled [OF ran(6)] by simp
  next
    case (failed w0 deltas e)
    show ?thesis using probe_cancelled [OF failed(4)] probe_provider [OF failed(5)] by simp
  next
    case (completed w0 deltas out)
    show ?thesis using probe_cancelled [OF completed(5)] probe_provider [OF completed(6)] by simp
  next
    case stopped
    show ?thesis using probe_cancelled [OF stopped(4)] by simp
  qed
  with assms(2) chain_request [OF assms(2)] show ?thesis by (metis chain_mono mono)
qed

lemma turn_loop_chain:
  assumes "turn_loop (probe_env env) specs s t w = (evs, r, s', w')"
  shows "chain specs s (snd w) \<longrightarrow> chain specs s' (snd w')"
  using assms
proof (induction rule: turn_loop_rule)
  case (last s t w evs r s' w')
  then show ?case using turn_round_chain by blast
next
  case (step s t w evs1 s1 w1 evs2 r s' w')
  then show ?case using turn_round_chain by blast
qed

lemma compact_side:
  assumes "compact jt (probe_stream p) w ms b = (Inl e, w')"
  shows "\<exists>x. snd w' = snd w @ [x] \<and> kind_of x = Side"
  using assms
  by (auto simp: compact_def ask_for_summary_def probe_stream_def kind_of_def Let_def
      split: if_splits prod.splits sum.splits)

lemma prompt_chain:
  assumes "prompt (probe_env env) s text w = (evs, r, s', w')" "filter is_compacted evs = []"
    and "chain (tool_specs (probe_env env)) s (snd w)"
  shows "chain (tool_specs (probe_env env)) s' (snd w')"
  using assms(1)
proof (cases rule: prompt_cases)
  case (stopped e)
  have pe: "e_provider (probe_env env) = probe_stream (e_provider env)" by (simp add: probe_env_def)
  obtain x where "snd w' = snd w @ [x]" "kind_of x = Side"
    using compact_side [OF stopped(4) [unfolded pe]] by blast
  moreover have "prefix (request_messages s) (request_messages s')"
    by (rule request_messages_mono) (simp add: stopped(3) push_message_def)
  ultimately show ?thesis using chain_mono [OF assms(3)] by (auto simp: chain_def)
next
  case (ran pre s1 w1 evs')
  with assms(2) have "s1 = push_message (User text) s" "w1 = w" by auto
  moreover have "prefix (request_messages s) (request_messages (push_message (User text) s))"
    by (rule request_messages_mono) (simp add: push_message_def)
  ultimately show ?thesis using turn_loop_chain [OF ran(2)] chain_mono [OF assms(3)] by blast
qed

lemma conversation_chain:
  "conversation (probe_env env) s texts w = (evs, s', w') \<Longrightarrow> filter is_compacted evs = []
    \<Longrightarrow> chain (tool_specs (probe_env env)) s (snd w)
    \<Longrightarrow> chain (tool_specs (probe_env env)) s' (snd w')"
proof (induction texts arbitrary: s w evs)
  case (Cons tx texts)
  obtain evs1 r s1 w1 where p: "prompt (probe_env env) s tx w = (evs1, r, s1, w1)"
    by (metis prod_cases4)
  obtain evs2 s2 w2 where c: "conversation (probe_env env) s1 texts w1 = (evs2, s2, w2)"
    by (metis prod_cases3)
  with Cons.prems(1) p have e: "evs = evs1 @ evs2" "s' = s2" "w' = w2" by auto
  with prompt_chain [OF p _ Cons.prems(3)] Cons.IH [OF c [folded e(2,3)]] Cons.prems(2) show ?case
    by simp
qed simp


lemma demo_conversation:
  "\<exists>evs s' w' sn. conversation (probe_env (demo_env Allow)) session_new [''go'', ''on''] (demo_world 10, [])
       = (evs, s', w', sn)
     \<and> filter is_compacted evs = [] \<and> length sn = 3"
  by (simp add: demo_defs turn_loop.simps event_simps probe_env_def on_fst_def probe_stream_def)


end
