(* ===== verification/Agent_Log.thy ===== *)
theory Agent_Log
  imports Agent_Session
begin

text \<open>
  The session log, one record per line (\<open>crates/tabverse-agent/src/log.rs\<close>), and the session's
  appending of new messages to it. The JSON text of a record and its parser are parameters; so
  is the disk, which may fail after part of a write.
\<close>

definition LOG_VERSION :: nat where "LOG_VERSION = 1"

datatype log_record = EventRecord nat session_event | MessageRecord nat message

record replay =
  rl_events :: "session_event list"
  rl_messages :: "message list"

definition replay_default :: replay where
  "replay_default = \<lparr>rl_events = [], rl_messages = []\<rparr>"

datatype log_error =
    OpenFailed
  | UnreadableLine nat
  | InvalidRecord nat
  | NoncurrentRecord nat
  | WriteFailed string
  | EncodeFailed string

datatype log_file = Missing | Unreadable | Contents string

text \<open>\<open>write_all\<close>: nothing, or the number of bytes that reached the file before it failed.\<close>

type_synonym 'w disk = "'w \<Rightarrow> string \<Rightarrow> (nat \<times> string) option \<times> 'w"
type_synonym encoder = "log_record \<Rightarrow> string + string"
type_synonym parser = "string \<Rightarrow> log_record option"

definition log_write ::
  "encoder \<Rightarrow> 'w disk \<Rightarrow> 'w \<Rightarrow> string \<Rightarrow> log_record \<Rightarrow> (log_error + unit) \<times> string \<times> 'w" where
  "log_write enc disk w fl r = (case enc r of
     Inl e \<Rightarrow> (Inl (EncodeFailed e), fl, w)
   | Inr text \<Rightarrow>
       (let line = text @ [nl] in
        case disk w line of
          (None, w1) \<Rightarrow> (Inr (), fl @ line, w1)
        | (Some (n, e), w1) \<Rightarrow> (Inl (WriteFailed e), fl @ take n line, w1)))"

definition append_event ::
  "encoder \<Rightarrow> 'w disk \<Rightarrow> 'w \<Rightarrow> string \<Rightarrow> session_event \<Rightarrow> (log_error + unit) \<times> string \<times> 'w" where
  "append_event enc disk w fl e = log_write enc disk w fl (EventRecord LOG_VERSION e)"

definition append_message ::
  "encoder \<Rightarrow> 'w disk \<Rightarrow> 'w \<Rightarrow> string \<Rightarrow> message \<Rightarrow> (log_error + unit) \<times> string \<times> 'w" where
  "append_message enc disk w fl m = log_write enc disk w fl (MessageRecord LOG_VERSION m)"

text \<open>The session's side: every message from the cursor on, the cursor moved past each record
  that was committed.\<close>

function append_new_messages_tracked ::
  "encoder \<Rightarrow> 'w disk \<Rightarrow> 'w \<Rightarrow> message list \<Rightarrow> string \<Rightarrow> nat
     \<Rightarrow> (log_error + unit) \<times> nat \<times> string \<times> 'w" where
  "append_new_messages_tracked enc disk w ms fl cursor =
     (if cursor < length ms then
        (case append_message enc disk w fl (ms ! cursor) of
           (Inl e, file1, w1) \<Rightarrow> (Inl e, cursor, file1, w1)
         | (Inr _, file1, w1) \<Rightarrow> append_new_messages_tracked enc disk w1 ms file1 (cursor + 1))
      else (Inr (), cursor, fl, w))"
  by pat_completeness auto
termination
  by (relation "measure (\<lambda>(_, _, _, ms, _, cursor). length ms - cursor)") auto

declare append_new_messages_tracked.simps [simp del]

definition append_new_messages ::
  "encoder \<Rightarrow> 'w disk \<Rightarrow> 'w \<Rightarrow> message list \<Rightarrow> string \<Rightarrow> nat
     \<Rightarrow> (log_error + nat) \<times> string \<times> 'w" where
  "append_new_messages enc disk w ms fl start =
     (case append_new_messages_tracked enc disk w ms fl start of
        (Inl e, _, file1, w1) \<Rightarrow> (Inl e, file1, w1)
      | (Inr _, cursor, file1, w1) \<Rightarrow> (Inr cursor, file1, w1))"

section \<open>Reading back\<close>

fun replay_record :: "nat \<Rightarrow> log_record \<Rightarrow> replay \<Rightarrow> log_error + replay" where
  "replay_record i (EventRecord v data) rp =
     (if v = LOG_VERSION then Inr (rp\<lparr>rl_events := rl_events rp @ [data]\<rparr>) else Inl (NoncurrentRecord i))"
| "replay_record i (MessageRecord v data) rp =
     (if v = LOG_VERSION then Inr (rp\<lparr>rl_messages := rl_messages rp @ [data]\<rparr>) else Inl (NoncurrentRecord i))"

text \<open>The loop over the lines, the next of which has number \<open>i\<close>.\<close>

fun replay_lines :: "parser \<Rightarrow> nat \<Rightarrow> string list \<Rightarrow> replay \<Rightarrow> log_error + replay" where
  "replay_lines parse i [] rp = Inr rp"
| "replay_lines parse i (line # ls) rp =
     (if \<not> utf8_valid line then Inl (UnreadableLine i)
      else if trim line = [] then replay_lines parse (i + 1) ls rp
      else case parse line of
        None \<Rightarrow> Inl (InvalidRecord i)
      | Some r \<Rightarrow> (case replay_record i r rp of
                     Inl e \<Rightarrow> Inl e
                   | Inr rp1 \<Rightarrow> replay_lines parse (i + 1) ls rp1))"

definition replay_log :: "parser \<Rightarrow> log_file \<Rightarrow> log_error + replay" where
  "replay_log parse fl = (case fl of
     Missing \<Rightarrow> Inr replay_default
   | Unreadable \<Rightarrow> Inl OpenFailed
   | Contents bytes \<Rightarrow> replay_lines parse 1 (str_lines bytes) replay_default)"

section \<open>What a log promises\<close>

text \<open>The JSON codec on the records in use: the text of a record is one line holding an object, and
  the parser reads it back.\<close>

definition codec_ok :: "encoder \<Rightarrow> parser \<Rightarrow> log_record set \<Rightarrow> bool" where
  "codec_ok enc parse R \<longleftrightarrow> (\<forall>r \<in> R. \<exists>text. enc r = Inr text \<and> nl \<notin> set text \<and> last text \<noteq> cr
     \<and> utf8_valid text \<and> text \<noteq> [] \<and> hd text = CHR ''{'' \<and> parse text = Some r)"

lemma trim_brace: "trim (CHR ''{'' # s) \<noteq> []"
proof -
  obtain x xs where x: "rchars (CHR ''{'' # s) = x # xs" "x \<noteq> []" "\<not> is_white x"
    by (simp add: is_white_def)
  then have "trim_start (CHR ''{'' # s) = CHR ''{'' # s"
    using concat_rchars [of "CHR ''{'' # s"] by (simp add: trim_start_def del: rchars.simps)
  moreover have "trim_end (CHR ''{'' # s) \<noteq> []"
    using x by (simp add: trim_end_def dropWhile_append del: rchars.simps)
  ultimately show ?thesis by (simp add: trim_def)
qed

definition line_of :: "encoder \<Rightarrow> log_record \<Rightarrow> string" where
  "line_of enc r = (case enc r of Inl _ \<Rightarrow> [] | Inr text \<Rightarrow> text)"

lemma codec_okD:
  assumes "codec_ok enc parse R" "r \<in> R"
  shows "nl \<notin> set (line_of enc r)" "last (line_of enc r) \<noteq> cr"
    "utf8_valid (line_of enc r)" "trim (line_of enc r) \<noteq> []" "parse (line_of enc r) = Some r"
    "line_of enc r \<noteq> []" "hd (line_of enc r) = CHR ''{''"
proof -
  from assms obtain t0 where t: "enc r = Inr t0" "nl \<notin> set t0" "last t0 \<noteq> cr"
    "utf8_valid t0" "t0 \<noteq> []" "hd t0 = CHR ''{''" "parse t0 = Some r"
    unfolding codec_ok_def by blast
  then have l: "line_of enc r = t0" by (simp add: line_of_def)
  show "trim (line_of enc r) \<noteq> []" using t(5,6) trim_brace [of "tl t0"] l by (cases t0) auto
  show "nl \<notin> set (line_of enc r)" "last (line_of enc r) \<noteq> cr"
    "utf8_valid (line_of enc r)" "parse (line_of enc r) = Some r"
    "line_of enc r \<noteq> []" "hd (line_of enc r) = CHR ''{''" using t l by simp_all
qed

lemma codec_ok_enc: "codec_ok enc parse R \<Longrightarrow> r \<in> R \<Longrightarrow> enc r = Inr (line_of enc r)"
  unfolding codec_ok_def line_of_def by (metis sum.simps(6))

abbreviation log_text :: "encoder \<Rightarrow> log_record list \<Rightarrow> string" where
  "log_text enc rs \<equiv> concat (map (\<lambda>r. line_of enc r @ [nl]) rs)"

lemma str_lines_log_text:
  "codec_ok enc parse R \<Longrightarrow> set rs \<subseteq> R \<Longrightarrow> str_lines (log_text enc rs @ rest) = map (line_of enc) rs @ str_lines rest"
  by (induction rs) (simp_all add: codec_okD str_lines_line)

definition current :: "log_record \<Rightarrow> bool" where
  "current r = (case r of EventRecord v _ \<Rightarrow> v = LOG_VERSION | MessageRecord v _ \<Rightarrow> v = LOG_VERSION)"

definition events_in :: "log_record list \<Rightarrow> session_event list" where
  "events_in rs = List.map_filter (\<lambda>r. case r of EventRecord _ e \<Rightarrow> Some e | _ \<Rightarrow> None) rs"

definition messages_in :: "log_record list \<Rightarrow> message list" where
  "messages_in rs = List.map_filter (\<lambda>r. case r of MessageRecord _ m \<Rightarrow> Some m | _ \<Rightarrow> None) rs"

lemma replay_lines_good:
  assumes "codec_ok enc parse R" "list_all current rs" "set rs \<subseteq> R"
  shows "replay_lines parse i (map (line_of enc) rs @ rest) rp =
    replay_lines parse (i + length rs) rest
      \<lparr>rl_events = rl_events rp @ events_in rs, rl_messages = rl_messages rp @ messages_in rs\<rparr>"
  using assms(2,3)
proof (induction rs arbitrary: i rp)
  case Nil
  then show ?case by (cases rp) (simp add: events_in_def messages_in_def List.map_filter_simps)
next
  case (Cons r rs)
  then show ?case
    by (cases r) (simp_all add: codec_okD [OF assms(1)] current_def events_in_def messages_in_def
        List.map_filter_simps)
qed

lemma append_message_line:
  assumes "codec_ok enc parse R" "MessageRecord LOG_VERSION m \<in> R"
  shows "append_message enc disk w fl m =
    (let line = line_of enc (MessageRecord LOG_VERSION m) @ [nl] in
     case disk w line of
       (None, w1) \<Rightarrow> (Inr (), fl @ line, w1)
     | (Some (n, e), w1) \<Rightarrow> (Inl (WriteFailed e), fl @ take n line, w1))"
  using codec_ok_enc [OF assms] by (simp add: append_message_def log_write_def)

text \<open>Where the cursor stands, whatever the disk does: past exactly the records that are in the
  file in full; a failure leaves at most part of the next one behind them.\<close>

lemma tracked_file:
  assumes "codec_ok enc parse R" "MessageRecord LOG_VERSION ` set ms \<subseteq> R"
    and "append_new_messages_tracked enc disk w ms fl cursor = (res, cursor', fl', w')"
    and "cursor \<le> length ms"
  shows "\<exists>torn. fl' = fl @ log_text enc (map (MessageRecord LOG_VERSION) (drop cursor (take cursor' ms))) @ torn
    \<and> cursor \<le> cursor' \<and> cursor' \<le> length ms
    \<and> (case res of Inr _ \<Rightarrow> torn = [] \<and> cursor' = length ms
        | Inl _ \<Rightarrow> cursor' < length ms
            \<and> prefix torn (line_of enc (MessageRecord LOG_VERSION (ms ! cursor')) @ [nl]))"
  using assms(3,4)
proof (induction "length ms - cursor" arbitrary: w fl cursor rule: less_induct)
  case less
  show ?case
  proof (cases "cursor < length ms")
    case False
    with less.prems have "res = Inr ()" "cursor' = cursor" "fl' = fl" "cursor = length ms"
      by (simp_all add: append_new_messages_tracked.simps)
    then show ?thesis by simp
  next
    case True
    let ?line = "line_of enc (MessageRecord LOG_VERSION (ms ! cursor)) @ [nl]"
    obtain out w1 where d: "disk w ?line = (out, w1)" by fastforce
    have "MessageRecord LOG_VERSION (ms ! cursor) \<in> R" using assms(2) True by auto
    note a = append_message_line [OF assms(1) this, of disk w fl, unfolded Let_def d]
    show ?thesis
    proof (cases out)
      case (Some ne)
      obtain n e where ne: "ne = (n, e)" by fastforce
      from less.prems(1) True have "res = Inl (WriteFailed e)" "cursor' = cursor" "fl' = fl @ take n ?line"
        by (auto simp: append_new_messages_tracked.simps [of enc disk w ms fl cursor] a Some ne)
      moreover have "prefix (take n ?line) ?line" by (rule take_is_prefix)
      ultimately show ?thesis using True
        by (intro exI [of _ "take n ?line"]) (simp del: take_append prefix_snoc)
    next
      case None
      with less.prems True a have rec: "append_new_messages_tracked enc disk w1 ms (fl @ ?line) (cursor + 1)
          = (res, cursor', fl', w')"
        by (simp add: append_new_messages_tracked.simps [of enc disk w ms fl cursor])
      have "length ms - (cursor + 1) < length ms - cursor" "cursor + 1 \<le> length ms" using True by auto
      from less.hyps [OF this(1) rec this(2)] obtain torn where t:
        "fl' = (fl @ ?line) @ log_text enc (map (MessageRecord LOG_VERSION)
            (drop (cursor + 1) (take cursor' ms))) @ torn"
        "cursor + 1 \<le> cursor'" "cursor' \<le> length ms"
        "case res of Inr _ \<Rightarrow> torn = [] \<and> cursor' = length ms
         | Inl _ \<Rightarrow> cursor' < length ms
            \<and> prefix torn (line_of enc (MessageRecord LOG_VERSION (ms ! cursor')) @ [nl])"
        by blast
      have "drop cursor (take cursor' ms) = ms ! cursor # drop (cursor + 1) (take cursor' ms)"
        using t(2,3) by (subst Cons_nth_drop_Suc [symmetric]) auto
      with t show ?thesis by (intro exI [of _ torn]) simp
    qed
  qed
qed

text \<open>what is written is what is read back: a log of current records replays as its events and
  its messages, each in order, and a record of another version anywhere refuses the log,
  naming its line.\<close>

theorem log_roundtrip:
  assumes "codec_ok enc parse R" "list_all current rs" "\<not> current r" "set (rs @ r # rs') \<subseteq> R"
  shows "replay_log parse (Contents (log_text enc rs))
      = Inr \<lparr>rl_events = events_in rs, rl_messages = messages_in rs\<rparr>
    \<and> replay_log parse (Contents (log_text enc (rs @ r # rs'))) = Inl (NoncurrentRecord (length rs + 1))"
proof -
  have a: "replay_log parse (Contents (log_text enc rs @ rest)) = replay_lines parse (1 + length rs)
      (str_lines rest) \<lparr>rl_events = events_in rs, rl_messages = messages_in rs\<rparr>" for rest
    using replay_lines_good [OF assms(1,2), of 1 "str_lines rest" replay_default]
      str_lines_log_text [OF assms(1), of rs rest] assms(4)
    by (simp add: replay_log_def replay_default_def)
  have "replay_record i r rp = Inl (NoncurrentRecord i)" for i rp
    using assms(3) by (cases r) (auto simp: current_def)
  moreover have "str_lines (log_text enc (r # rs')) = line_of enc r # str_lines (log_text enc rs')"
    using str_lines_log_text [OF assms(1), of "[r]" "log_text enc rs'"] assms(4) by simp
  moreover have "str_lines [] = []" by (simp add: str_lines_def)
  ultimately show ?thesis
    using a [of "[]"] a [of "log_text enc (r # rs')"] codec_okD [OF assms(1), of r] assms(4) by simp
qed


text \<open>a write that failed part-way leaves a line without an end: retrying from the cursor puts
  the record on that same line, and from then on the whole log is refused, the records before
  it included, unless the parser takes a torn record followed by a whole one for a record.\<close>

theorem retry_after_torn_write:
  assumes "codec_ok enc parse R" "list_all current rs" "set (r # rs) \<subseteq> R"
    and "0 < n" "n \<le> length (line_of enc r)"
    and "parse (take n (line_of enc r) @ line_of enc r) = None"
  shows "\<exists>e. replay_log parse
    (Contents (log_text enc rs @ take n (line_of enc r) @ log_text enc (r # rs'))) = Inl e"
proof -
  let ?l = "line_of enc r"
  let ?g = "take n ?l @ ?l"
  have rR: "r \<in> R" "set rs \<subseteq> R" using assms(3) by auto
  note ok = codec_okD [OF assms(1) rR(1)]
  have "nl \<notin> set ?g" using ok(1) by (auto dest: in_set_takeD)
  moreover have "last ?g \<noteq> cr" using ok(2,6) by simp
  ultimately have "str_lines (?g @ nl # rest) = ?g # str_lines rest" for rest
    by (intro str_lines_line) simp_all
  then have lines: "str_lines (log_text enc rs @ take n ?l @ log_text enc (r # rs'))
      = map (line_of enc) rs @ ?g # str_lines (log_text enc rs')"
    using str_lines_log_text [OF assms(1) rR(2)] by simp
  have "?g = CHR ''{'' # tl ?g" using ok(6,7) assms(4) by (cases ?l; cases n) auto
  then have "trim ?g \<noteq> []" using trim_brace by metis
  with assms(6) show ?thesis
    unfolding replay_log_def log_file.case lines
    using replay_lines_good [OF assms(1,2) rR(2)] by simp
qed

text \<open>A codec of three records, and a disk that tears its first write after three bytes.\<close>

definition rec_go :: log_record where "rec_go = MessageRecord LOG_VERSION (User ''go'')"
definition rec_turn :: log_record where "rec_turn = EventRecord LOG_VERSION (TurnStarted 1)"
definition rec_new :: log_record where "rec_new = EventRecord 2 (TurnStarted 1)"

definition toy_enc :: encoder where
  "toy_enc r = Inr (if r = rec_go then ''{go}'' else if r = rec_turn then ''{turn}'' else ''{new}'')"

definition toy_parse :: parser where
  "toy_parse s = (if s = ''{go}'' then Some rec_go else if s = ''{turn}'' then Some rec_turn
     else if s = ''{new}'' then Some rec_new else None)"

definition torn_disk :: "nat disk" where
  "torn_disk w line = (if w = 0 then Some (3, ''disk full'') else None, w + 1)"

lemma toy_codec_ok: "codec_ok toy_enc toy_parse {rec_go, rec_turn, rec_new}"
  by (auto simp: codec_ok_def toy_enc_def toy_parse_def rec_go_def rec_turn_def rec_new_def LOG_VERSION_def
      intro!: utf8_valid_ascii)

lemma toy_lines:
  "line_of toy_enc rec_go = ''{go}''" "line_of toy_enc rec_turn = ''{turn}''"
  "line_of toy_enc rec_new = ''{new}''"
  by (simp_all add: line_of_def toy_enc_def rec_go_def rec_turn_def rec_new_def LOG_VERSION_def)

theorem log_roundtrip_witness:
  "replay_log toy_parse (Contents (log_text toy_enc [rec_go, rec_turn]))
     = Inr \<lparr>rl_events = [TurnStarted 1], rl_messages = [User ''go'']\<rparr>"
proof -
  have "list_all current [rec_go, rec_turn]" "\<not> current rec_new"
    by (simp_all add: current_def rec_go_def rec_turn_def rec_new_def LOG_VERSION_def)
  from log_roundtrip [OF toy_codec_ok this, of "[]"] show ?thesis
    by (simp add: events_in_def messages_in_def rec_go_def rec_turn_def List.map_filter_simps)
qed


theorem retry_after_torn_write_witness:
  "\<exists>e. replay_log toy_parse (Contents (log_text toy_enc [rec_turn] @ ''{go'' @ log_text toy_enc [rec_go])) = Inl e"
proof -
  have "list_all current [rec_turn]" by (simp add: current_def rec_turn_def)
  from retry_after_torn_write [OF toy_codec_ok this, of rec_go 3 "[]"] show ?thesis
    by (simp add: toy_lines toy_parse_def)
qed

end
