(* ===== verification/Remote_Proto.thy ===== *)
theory Remote_Proto
  imports Tab_Json
begin

text \<open>
  The messages between a host and the viewers of a shared tab, the levels of access and the
  protocol versions (\<open>crates/tabverse-proto/src/lib.rs\<close>). Binary payloads travel as base64 text,
  here as that text.
\<close>

type_synonym u16 = "16 word"

datatype term_event = TermData string | TermExit "int option" | SnapshotRequest nat

datatype shared_tab_type = TerminalTab | AgentTab | AppTab

datatype access = View | Steer | Approve

fun read_only :: "access \<Rightarrow> bool" where
  "read_only View = True" | "read_only Steer = False" | "read_only Approve = False"

fun may_steer :: "access \<Rightarrow> bool" where
  "may_steer View = False" | "may_steer Steer = True" | "may_steer Approve = True"

fun may_approve :: "access \<Rightarrow> bool" where
  "may_approve View = False" | "may_approve Steer = False" | "may_approve Approve = True"

datatype client_msg =
    Hello string nat string string              \<comment> \<open>name, proto, share, token\<close>
  | InputMsg string
  | ResizeMsg u16 u16
  | Ping
  | AgentPrompt string
  | AgentAnswer string bool "string option"     \<comment> \<open>call id, allow, reason\<close>
  | AgentCancel
  | Rpc nat string json
  | Action string json
  | ClipPush string

datatype host_msg =
    Welcome nat string u16 u16 "shared_tab_type option"
  | Mode bool "access option"
  | Snapshot string u16 u16
  | Output string
  | HostResize u16 u16
  | Presence nat
  | End string
  | Pong
  | AgentEvent json
  | AgentSnapshot "json list"
  | AgentDecisionTaken string string
  | RpcResult nat "json option" "string option"
  | ActionApplied string json
  | AppSnapshot json
  | ClipSync nat string

definition REMOTE_PROTO_VERSION :: nat where "REMOTE_PROTO_VERSION = 3"
definition REMOTE_PROTO_V1 :: nat where "REMOTE_PROTO_V1 = 1"

text \<open>\<open>clamp(lo, hi)\<close>.\<close>

definition negotiate :: "nat \<Rightarrow> nat" where
  "negotiate client_proto =
     (if client_proto < REMOTE_PROTO_V1 then REMOTE_PROTO_V1
      else if REMOTE_PROTO_VERSION < client_proto then REMOTE_PROTO_VERSION else client_proto)"

definition announce_proto :: "nat option \<Rightarrow> nat" where
  "announce_proto ticket_proto =
     min (case ticket_proto of None \<Rightarrow> REMOTE_PROTO_V1 | Some p \<Rightarrow> p) REMOTE_PROTO_VERSION"

definition agent_payloads_allowed :: "nat \<Rightarrow> bool" where
  "agent_payloads_allowed proto \<longleftrightarrow> 2 \<le> proto"

definition app_payloads_allowed :: "nat \<Rightarrow> bool" where
  "app_payloads_allowed proto \<longleftrightarrow> 3 \<le> proto"

lemmas proto_simps = REMOTE_PROTO_VERSION_def REMOTE_PROTO_V1_def negotiate_def announce_proto_def
  agent_payloads_allowed_def app_payloads_allowed_def

lemma negotiate_bounds: "1 \<le> negotiate p" "negotiate p \<le> 3" "1 \<le> p \<Longrightarrow> negotiate p \<le> p"
  by (simp_all add: proto_simps)

end
