(* ===== verification/Remote_Wire.thy ===== *)
theory Remote_Wire
  imports Remote_Proto Framing
begin

text \<open>
  Frames of the remote-control stream: a four-byte big-endian length and a JSON body, refused
  past 16 MiB (\<open>write_frame\<close> and \<open>read_frame\<close> of \<open>crates/tabverse-remote/src/lib.rs\<close>). The JSON codec
  is a parameter. A reader is modelled on the bytes that have arrived.
\<close>

definition MAX_FRAME :: nat where "MAX_FRAME = 16 * 1024 * 1024"

datatype wire_error = FrameTooLarge nat | JsonError string

definition write_body :: "bytes \<Rightarrow> wire_error + bytes" where
  "write_body body =
     (if MAX_FRAME < length body then Inl (FrameTooLarge (length body))
      else Inr (be_bytes 4 (length body) @ body))"

definition write_frame :: "('m \<Rightarrow> string + bytes) \<Rightarrow> 'm \<Rightarrow> wire_error + bytes" where
  "write_frame to_vec msg =
     (case to_vec msg of Inl e \<Rightarrow> Inl (JsonError e) | Inr body \<Rightarrow> write_body body)"

definition scan_body :: "bytes \<Rightarrow> (wire_error, bytes) scan" where
  "scan_body buf =
     (if length buf < 4 then More
      else let len = from_be (take 4 buf) in
        if MAX_FRAME < len then Bad (FrameTooLarge len)
        else if length buf < 4 + len then More
        else Got (take len (drop 4 buf)) (drop (4 + len) buf))"

text \<open>One \<open>read_frame\<close>: \<open>More\<close> while \<open>read_exact\<close> still waits.\<close>

definition read_frame :: "(bytes \<Rightarrow> string + 'm) \<Rightarrow> bytes \<Rightarrow> (wire_error, 'm) scan" where
  "read_frame from_slice buf = (case scan_body buf of
     More \<Rightarrow> More
   | Bad e \<Rightarrow> Bad e
   | Got body rest \<Rightarrow> (case from_slice body of Inl e \<Rightarrow> Bad (JsonError e) | Inr m \<Rightarrow> Got m rest))"

lemma scan_body_shrinks: "scan_body buf = Got f rest \<Longrightarrow> length rest < length buf"
  by (auto simp: scan_body_def Let_def split: if_splits)

lemma scan_body_write:
  assumes "write_body body = Inr bs"
  shows "scan_body (bs @ rest) = Got body rest"
proof -
  from assms have n: "length body \<le> MAX_FRAME" and bs: "bs = be_bytes 4 (length body) @ body"
    by (auto simp: write_body_def split: if_splits)
  define buf where "buf = bs @ rest"
  have hd4: "from_be (take 4 buf) = length body"
    using n by (simp add: buf_def bs from_be_bytes MAX_FRAME_def)
  have parts: "take (length body) (drop 4 buf) = body" "drop (4 + length body) buf = rest"
    "length buf = 4 + length body + length rest"
    by (simp_all add: buf_def bs)
  from n have "scan_body buf = Got body rest"
    by (simp add: scan_body_def hd4 parts Let_def del: drop_drop)
  then show ?thesis by (simp add: buf_def)
qed

text \<open>The reading loop of a connection, over the bytes that have arrived: the messages in order,
  then what it waits on or why it ends.\<close>

function read_loop :: "bytes \<Rightarrow> (wire_error + bytes list) \<times> bytes" where
  "read_loop buf = (case scan_body buf of
     More \<Rightarrow> (Inr [], buf)
   | Bad e \<Rightarrow> (Inl e, buf)
   | Got body rest \<Rightarrow> (case read_loop rest of (r, b) \<Rightarrow> (map_sum id ((#) body) r, b)))"
  by pat_completeness auto
termination
  by (relation "measure length") (auto dest: scan_body_shrinks)

declare read_loop.simps [simp del]

interpretation hub_frames: frame_consumer write_body scan_body read_loop
proof unfold_locales
  show "scan_body (bs @ rest) = Got body rest" if "write_body body = Inr bs" for body bs rest
    using that by (rule scan_body_write)
  show "scan_body (buf @ ys) = Got f (rest @ ys)" if "scan_body buf = Got f rest" for buf f rest ys
    using that by (auto simp: scan_body_def Let_def split: if_splits)
  show "scan_body (buf @ ys) = Bad e" if "scan_body buf = Bad e" for buf e ys
    using that by (auto simp: scan_body_def Let_def split: if_splits)
qed (auto simp: scan_body_shrinks read_loop.simps split_beta)

text \<open>Messages in a stream of frames: the JSON layer over the bodies.\<close>

function read_msgs :: "(bytes \<Rightarrow> string + 'm) \<Rightarrow> bytes \<Rightarrow> 'm list \<times> wire_error option \<times> bytes" where
  "read_msgs from_slice buf = (case scan_body buf of
     More \<Rightarrow> ([], None, buf)
   | Bad e \<Rightarrow> ([], Some e, buf)
   | Got body rest \<Rightarrow> (case from_slice body of
       Inl e \<Rightarrow> ([], Some (JsonError e), buf)
     | Inr m \<Rightarrow> (case read_msgs from_slice rest of (ms, e, b) \<Rightarrow> (m # ms, e, b))))"
  by pat_completeness auto
termination
  by (relation "measure (\<lambda>(_, buf). length buf)") (auto dest: scan_body_shrinks)

declare read_msgs.simps [simp del]

text \<open>a stream of written frames, cut off anywhere inside the next one, is read as exactly the
  messages written before the cut, with no error, and a part of a frame yields nothing.\<close>

theorem remote_stream_roundtrip:
  assumes "list_all2 (\<lambda>m bs. write_frame to_vec m = Inr bs) ms bss"
    and "write_frame to_vec next = Inr (part @ missing)" "missing \<noteq> []"
    and "\<forall>m \<in> set ms. \<forall>body. to_vec m = Inr body \<longrightarrow> from_slice body = Inr m"
  shows "read_msgs from_slice (concat bss @ part) = (ms, None, part)"
  using assms(1,4)
proof (induction rule: list_all2_induct)
  case Nil
  from assms(2) obtain body where "write_body body = Inr (part @ missing)"
    by (auto simp: write_frame_def split: sum.splits)
  then have "scan_body part = More" using assms(3) by (rule hub_frames.scan_proper_prefix)
  then show ?case by (simp add: read_msgs.simps)
next
  case (Cons m ms bs bss)
  from Cons.hyps(1) obtain body where b: "to_vec m = Inr body" "write_body body = Inr bs"
    by (auto simp: write_frame_def split: sum.splits)
  with Cons.prems have "from_slice body = Inr m" by simp
  with Cons hub_frames.scan_enc [OF b(2), of "concat bss @ part"] show ?case
    by (subst read_msgs.simps) simp
qed

text \<open>A codec of two messages for evaluation.\<close>

definition toy_to_vec :: "bool \<Rightarrow> string + bytes" where
  "toy_to_vec m = Inr (if m then [1] else [0, 0])"

definition toy_from_slice :: "bytes \<Rightarrow> string + bool" where
  "toy_from_slice body = (if body = [1] then Inr True else if body = [0, 0] then Inr False else Inl ''bad'')"

lemma toy_frames:
  "write_frame toy_to_vec True = Inr [0, 0, 0, 1, 1]" "write_frame toy_to_vec False = Inr [0, 0, 0, 2, 0, 0]"
  by (simp_all add: write_frame_def toy_to_vec_def write_body_def MAX_FRAME_def be_bytes_numeral)

theorem remote_stream_roundtrip_witness:
  "read_msgs toy_from_slice ([0, 0, 0, 1, 1] @ [0, 0, 0, 2, 0, 0] @ [0, 0, 0]) = ([True, False], None, [0, 0, 0])"
  using remote_stream_roundtrip [of toy_to_vec "[True, False]" "[[0, 0, 0, 1, 1], [0, 0, 0, 2, 0, 0]]"
      True "[0, 0, 0]" "[1, 1]" toy_from_slice]
  by (simp add: toy_frames toy_to_vec_def toy_from_slice_def)

end
