(* ===== verification/Remote_Share.thy ===== *)
theory Remote_Share
  imports Remote_Proto
begin

text \<open>
  One shared tab as the hub keeps it: its viewers, what each may do, the frames queued for each,
  and every operation on it (\<open>Share\<close>, \<open>Viewer\<close>, \<open>ViewerState\<close> and the frame-reading loop of
  \<open>crates/tabverse-remote/src/lib.rs\<close>). A viewer's channel (\<open>mpsc\<close>) is identified with its viewer id:
  \<open>sh_sent\<close> holds everything ever queued on it, which the viewer's write loop drains in order, the
  frames queued before the viewer was removed included. An operation that holds the viewers lock
  throughout is one function; the map of viewers is a list in the order of arrival. The tab
  behind the share is a \<open>source\<close>, a record of operations on a world of any type that may call the
  share back.
\<close>

definition MAX_PENDING_FRAMES :: nat where "MAX_PENDING_FRAMES = 4096"

record viewport =
  vp_cols :: u16
  vp_rows :: u16

record viewer_info =
  vi_id :: nat
  vi_name :: string
  vi_access :: access

datatype input_payload =
    Bytes bytes
  | PPrompt string
  | PAnswer string bool "string option"
  | PRpc nat string json
  | PAction string json
  | PClip string
  | PCancel

datatype input_outcome = Applied | Raced

datatype viewer_state = Buffering "host_msg list" | Live

record viewer =
  vw_proto :: nat
  vw_state :: viewer_state
  vw_name :: string
  vw_access :: access
  vw_viewport :: "(u16 \<times> u16) option"

record share =
  sh_id :: string
  sh_token :: string
  sh_title :: string
  sh_size :: "u16 \<times> u16"
  sh_viewers :: "(nat \<times> viewer) list"
  sh_sent :: "nat \<Rightarrow> host_msg list"
  sh_stopped :: bool
  sh_created_at :: nat
  sh_ttl :: "nat option"
  sh_access :: access
  sh_tab_type :: shared_tab_type

section \<open>Viewers and channels\<close>

definition find_viewer :: "nat \<Rightarrow> share \<Rightarrow> viewer option" where
  "find_viewer vid sh = map_of (sh_viewers sh) vid"

definition send_to :: "nat \<Rightarrow> host_msg \<Rightarrow> share \<Rightarrow> share" where
  "send_to vid msg sh = sh\<lparr>sh_sent := (sh_sent sh)(vid := sh_sent sh vid @ [msg])\<rparr>"

definition update_viewer :: "nat \<Rightarrow> (viewer \<Rightarrow> viewer) \<Rightarrow> share \<Rightarrow> share" where
  "update_viewer vid f sh =
     sh\<lparr>sh_viewers := map (\<lambda>(i, v). (i, if i = vid then f v else v)) (sh_viewers sh)\<rparr>"

definition remove_viewer :: "nat \<Rightarrow> share \<Rightarrow> share" where
  "remove_viewer vid sh = sh\<lparr>sh_viewers := filter (\<lambda>(i, v). i \<noteq> vid) (sh_viewers sh)\<rparr>"

section \<open>What the frames are\<close>

fun is_v2_only :: "host_msg \<Rightarrow> bool" where
  "is_v2_only (AgentEvent _) = True"
| "is_v2_only (AgentSnapshot _) = True"
| "is_v2_only (AgentDecisionTaken _ _) = True"
| "is_v2_only _ = False"

fun is_v3_only :: "host_msg \<Rightarrow> bool" where
  "is_v3_only (RpcResult _ _ _) = True"
| "is_v3_only (ActionApplied _ _) = True"
| "is_v3_only (AppSnapshot _) = True"
| "is_v3_only (ClipSync _ _) = True"
| "is_v3_only _ = False"

definition withheld :: "host_msg \<Rightarrow> viewer \<Rightarrow> bool" where
  "withheld msg v \<longleftrightarrow> is_v2_only msg \<and> vw_proto v < 2 \<or> is_v3_only msg \<and> vw_proto v < 3"

section \<open>Fan-out\<close>

definition joint_viewport :: "share \<Rightarrow> viewport option" where
  "joint_viewport sh =
     (case List.map_filter (vw_viewport \<circ> snd) (sh_viewers sh) of
        [] \<Rightarrow> None
      | x # xs \<Rightarrow>
          (case foldl (\<lambda>(a, b) (c, d). (min a c, min b d)) x xs of
             (a, b) \<Rightarrow> Some \<lparr>vp_cols = a, vp_rows = b\<rparr>))"

text \<open>The count to every viewer; a full queue is skipped.\<close>

definition presence_fan :: "share \<Rightarrow> share" where
  "presence_fan sh =
     (let msg = Presence (length (sh_viewers sh)) in
      sh\<lparr>sh_viewers := map (\<lambda>(i, v). (i, case vw_state v of
             Buffering buf \<Rightarrow> if length buf < MAX_PENDING_FRAMES
                              then v\<lparr>vw_state := Buffering (buf @ [msg])\<rparr> else v
           | Live \<Rightarrow> v)) (sh_viewers sh),
         sh_sent := (\<lambda>i. case find_viewer i sh of
             Some v \<Rightarrow> if vw_state v = Live then sh_sent sh i @ [msg] else sh_sent sh i
           | None \<Rightarrow> sh_sent sh i)\<rparr>)"

definition roster :: "share \<Rightarrow> viewer_info list" where
  "roster sh = sort_key vi_id
     (map (\<lambda>(i, v). \<lparr>vi_id = i, vi_name = vw_name v, vi_access = vw_access v\<rparr>) (sh_viewers sh))"

text \<open>One viewer's part in a broadcast: its new state, or nothing when it is dropped; and the frame it
  is sent now, if any.\<close>

definition offer :: "host_msg \<Rightarrow> viewer \<Rightarrow> viewer option \<times> host_msg list" where
  "offer msg v =
     (if withheld msg v then (Some v, [])
      else case vw_state v of
        Buffering buf \<Rightarrow>
          if MAX_PENDING_FRAMES \<le> length buf then (None, [End ''viewer fell too far behind''])
          else (Some (v\<lparr>vw_state := Buffering (buf @ [msg])\<rparr>), [])
      | Live \<Rightarrow> (Some v, [msg]))"

definition stalled :: "host_msg \<Rightarrow> share \<Rightarrow> nat list" where
  "stalled msg sh = map fst (filter (\<lambda>(i, v). fst (offer msg v) = None) (sh_viewers sh))"

definition broadcast_fan :: "host_msg \<Rightarrow> share \<Rightarrow> share" where
  "broadcast_fan msg sh =
     sh\<lparr>sh_viewers := List.map_filter (\<lambda>(i, v). map_option (Pair i) (fst (offer msg v))) (sh_viewers sh),
        sh_sent := (\<lambda>i. case find_viewer i sh of
            Some v \<Rightarrow> sh_sent sh i @ snd (offer msg v) | None \<Rightarrow> sh_sent sh i)\<rparr>"

section \<open>The tab behind the share\<close>

text \<open>\<open>ShareSource\<close>, with the presence callback of the host's UI beside it.\<close>

record 'w source =
  so_kind :: shared_tab_type
  so_grid :: "'w \<Rightarrow> viewport option"
  so_request_snapshot :: "nat \<Rightarrow> share \<Rightarrow> 'w \<Rightarrow> share \<times> 'w"
  so_history :: "'w \<Rightarrow> json list"
  so_inject :: "nat \<Rightarrow> access \<Rightarrow> input_payload \<Rightarrow> share \<Rightarrow> 'w \<Rightarrow> (string + input_outcome) \<times> share \<times> 'w"
  so_apply_viewport :: "viewport option \<Rightarrow> 'w \<Rightarrow> 'w"
  so_bind :: "'w \<Rightarrow> 'w"
  so_unbind :: "'w \<Rightarrow> 'w"
  so_on_presence :: "viewer_info list \<Rightarrow> 'w \<Rightarrow> 'w"

definition notify_viewport :: "'w source \<Rightarrow> share \<Rightarrow> 'w \<Rightarrow> share \<times> 'w" where
  "notify_viewport src sh w = (sh, so_apply_viewport src (joint_viewport sh) w)"

definition presence :: "'w source \<Rightarrow> share \<Rightarrow> 'w \<Rightarrow> share \<times> 'w" where
  "presence src sh w = (presence_fan sh, so_on_presence src (roster sh) w)"

definition broadcast :: "'w source \<Rightarrow> host_msg \<Rightarrow> share \<Rightarrow> 'w \<Rightarrow> share \<times> 'w" where
  "broadcast src msg sh w =
     (let sh1 = broadcast_fan msg sh in
      if stalled msg sh = [] then (sh1, w) else presence src sh1 w)"

definition broadcast_output :: "'w source \<Rightarrow> (bytes \<Rightarrow> string) \<Rightarrow> bytes \<Rightarrow> share \<Rightarrow> 'w \<Rightarrow> share \<times> 'w" where
  "broadcast_output src b64 bs sh w = broadcast src (Output (b64 bs)) sh w"

definition broadcast_term_snapshot :: "'w source \<Rightarrow> string \<Rightarrow> u16 \<Rightarrow> u16 \<Rightarrow> share \<Rightarrow> 'w \<Rightarrow> share \<times> 'w" where
  "broadcast_term_snapshot src b64 cols rows sh w = broadcast src (Snapshot b64 cols rows) sh w"

definition broadcast_resize :: "'w source \<Rightarrow> u16 \<Rightarrow> u16 \<Rightarrow> share \<Rightarrow> 'w \<Rightarrow> share \<times> 'w" where
  "broadcast_resize src cols rows sh w =
     broadcast src (HostResize cols rows) (sh\<lparr>sh_size := (cols, rows)\<rparr>) w"

definition broadcast_app_snapshot :: "'w source \<Rightarrow> json \<Rightarrow> share \<Rightarrow> 'w \<Rightarrow> share \<times> 'w" where
  "broadcast_app_snapshot src state sh w = broadcast src (AppSnapshot state) sh w"

definition broadcast_action_applied :: "'w source \<Rightarrow> string \<Rightarrow> json \<Rightarrow> share \<Rightarrow> 'w \<Rightarrow> share \<times> 'w" where
  "broadcast_action_applied src name args sh w = broadcast src (ActionApplied name args) sh w"

definition broadcast_clip_sync :: "'w source \<Rightarrow> nat \<Rightarrow> string \<Rightarrow> share \<Rightarrow> 'w \<Rightarrow> share \<times> 'w" where
  "broadcast_clip_sync src sq t sh w = broadcast src (ClipSync sq t) sh w"

definition broadcast_rpc_result ::
  "'w source \<Rightarrow> nat \<Rightarrow> json option \<Rightarrow> string option \<Rightarrow> share \<Rightarrow> 'w \<Rightarrow> share \<times> 'w" where
  "broadcast_rpc_result src rid ok err sh w = broadcast src (RpcResult rid ok err) sh w"

definition broadcast_agent_event :: "'w source \<Rightarrow> json \<Rightarrow> share \<Rightarrow> 'w \<Rightarrow> share \<times> 'w" where
  "broadcast_agent_event src event sh w = broadcast src (AgentEvent event) sh w"

definition broadcast_decision_taken :: "'w source \<Rightarrow> string \<Rightarrow> string \<Rightarrow> share \<Rightarrow> 'w \<Rightarrow> share \<times> 'w" where
  "broadcast_decision_taken src call_id who sh w = broadcast src (AgentDecisionTaken call_id who) sh w"

section \<open>Catching up and access\<close>

definition begin_buffering :: "nat \<Rightarrow> share \<Rightarrow> share" where
  "begin_buffering vid sh =
     update_viewer vid (\<lambda>v. if vw_state v = Live then v else v\<lparr>vw_state := Buffering []\<rparr>) sh"

definition snapshot_ready :: "nat \<Rightarrow> string \<Rightarrow> u16 \<Rightarrow> u16 \<Rightarrow> share \<Rightarrow> share" where
  "snapshot_ready vid b64 cols rows sh = (case find_viewer vid sh of
     None \<Rightarrow> sh
   | Some v \<Rightarrow>
       (let queued = (case vw_state v of Buffering buf \<Rightarrow> buf | Live \<Rightarrow> []);
            sh1 = update_viewer vid (\<lambda>v. v\<lparr>vw_state := Live\<rparr>) sh
        in sh1\<lparr>sh_sent := (sh_sent sh1)(vid := sh_sent sh1 vid @ Snapshot b64 cols rows # queued)\<rparr>))"

definition set_title :: "string \<Rightarrow> share \<Rightarrow> share" where
  "set_title title sh = sh\<lparr>sh_title := title\<rparr>"

definition viewer_access :: "nat \<Rightarrow> share \<Rightarrow> access option" where
  "viewer_access vid sh = map_option vw_access (find_viewer vid sh)"

definition mode_for :: "nat \<Rightarrow> access \<Rightarrow> host_msg" where
  "mode_for proto access = Mode (read_only access) (if 2 \<le> proto then Some access else None)"

definition change_access :: "nat \<Rightarrow> access \<Rightarrow> share \<Rightarrow> share" where
  "change_access vid access sh = (case find_viewer vid sh of
     None \<Rightarrow> sh
   | Some v \<Rightarrow> send_to vid (mode_for (vw_proto v) access)
                (update_viewer vid (\<lambda>v. v\<lparr>vw_access := access\<rparr>) sh))"

definition set_viewer_access ::
  "'w source \<Rightarrow> nat \<Rightarrow> access \<Rightarrow> share \<Rightarrow> 'w \<Rightarrow> bool \<times> share \<times> 'w" where
  "set_viewer_access src vid access sh w =
     (if find_viewer vid sh = None then (False, sh, w)
      else (True, presence src (change_access vid access sh) w))"

definition viewer_count :: "share \<Rightarrow> nat" where
  "viewer_count sh = length (sh_viewers sh)"

definition tab_type_min_proto :: "share \<Rightarrow> nat" where
  "tab_type_min_proto sh =
     (case sh_tab_type sh of TerminalTab \<Rightarrow> REMOTE_PROTO_V1 | AgentTab \<Rightarrow> 2 | AppTab \<Rightarrow> 3)"

definition join_window_closed :: "nat \<Rightarrow> share \<Rightarrow> bool" where
  "join_window_closed now sh =
     (case sh_ttl sh of None \<Rightarrow> False | Some ttl \<Rightarrow> ttl \<le> now - sh_created_at sh)"

definition end_all :: "string \<Rightarrow> share \<Rightarrow> share" where
  "end_all reason sh =
     sh\<lparr>sh_sent := (\<lambda>i. if find_viewer i sh = None then sh_sent sh i else sh_sent sh i @ [End reason]),
        sh_viewers := [], sh_stopped := True\<rparr>"

section \<open>Joining and leaving\<close>

text \<open>The insertion of a viewer, under the viewers lock; \<open>None\<close> when the share is stopped.\<close>

definition admit :: "nat \<Rightarrow> nat \<Rightarrow> string \<Rightarrow> json list \<Rightarrow> share \<Rightarrow> share option" where
  "admit vid proto name history sh =
     (if sh_stopped sh then None
      else
        let welcome = Welcome proto (sh_title sh) (fst (sh_size sh)) (snd (sh_size sh))
              (if 2 \<le> proto then Some (sh_tab_type sh) else None);
            mode = mode_for proto (sh_access sh);
            catch_up = (if sh_tab_type sh = AgentTab \<and> 2 \<le> proto \<and> history \<noteq> []
                        then [AgentSnapshot history] else []);
            v = \<lparr>vw_proto = proto,
                 vw_state = (if sh_tab_type sh = AgentTab \<or> sh_tab_type sh = AppTab then Live else Buffering []),
                 vw_name = name, vw_access = sh_access sh, vw_viewport = None\<rparr>
        in Some (sh\<lparr>sh_viewers := sh_viewers sh @ [(vid, v)],
                    sh_sent := (sh_sent sh)(vid := sh_sent sh vid @ [welcome, mode] @ catch_up)\<rparr>))"

definition leave :: "'w source \<Rightarrow> nat \<Rightarrow> share \<Rightarrow> 'w \<Rightarrow> share \<times> 'w" where
  "leave src vid sh w =
     (if find_viewer vid sh = None then (sh, w)
      else case notify_viewport src (remove_viewer vid sh) w of (sh1, w1) \<Rightarrow> presence src sh1 w1)"

definition kick :: "'w source \<Rightarrow> nat \<Rightarrow> share \<Rightarrow> 'w \<Rightarrow> bool \<times> share \<times> 'w" where
  "kick src vid sh w =
     (if sh_stopped sh \<or> find_viewer vid sh = None then (False, sh, w)
      else case notify_viewport src (send_to vid (End ''removed by host'') (remove_viewer vid sh)) w of
        (sh1, w1) \<Rightarrow> (True, presence src sh1 w1))"

section \<open>A frame from a viewer\<close>

datatype frame_result = Continue | Fail string

text \<open>An injection whose failure is only logged.\<close>

definition inject_logged :: "'w source \<Rightarrow> nat \<Rightarrow> access \<Rightarrow> input_payload \<Rightarrow> share \<Rightarrow> 'w \<Rightarrow> share \<times> 'w" where
  "inject_logged src vid access payload sh w = snd (so_inject src vid access payload sh w)"

definition set_viewport :: "nat \<Rightarrow> u16 \<Rightarrow> u16 \<Rightarrow> share \<Rightarrow> share" where
  "set_viewport vid cols rows sh = update_viewer vid (\<lambda>v. v\<lparr>vw_viewport := Some (cols, rows)\<rparr>) sh"

definition handle_frame ::
  "'w source \<Rightarrow> (string \<Rightarrow> bytes option) \<Rightarrow> nat \<Rightarrow> client_msg \<Rightarrow> share \<Rightarrow> 'w \<Rightarrow> frame_result \<times> share \<times> 'w" where
  "handle_frame src b64dec vid msg sh w = (case msg of
     InputMsg b64 \<Rightarrow>
       if sh_tab_type sh \<noteq> TerminalTab \<and> sh_tab_type sh \<noteq> AppTab then (Continue, sh, w)
       else (case viewer_access vid sh of
         None \<Rightarrow> (Continue, sh, w)
       | Some access \<Rightarrow>
           if \<not> may_steer access then (Continue, sh, w)
           else (case b64dec b64 of
             None \<Rightarrow> (Fail ''input b64'', sh, w)
           | Some bs \<Rightarrow> (Continue, inject_logged src vid access (Bytes bs) sh w)))
   | ResizeMsg cols rows \<Rightarrow> (Continue, notify_viewport src (set_viewport vid cols rows sh) w)
   | Ping \<Rightarrow> (Continue, if find_viewer vid sh = None then sh else send_to vid Pong sh, w)
   | Hello _ _ _ _ \<Rightarrow> (Fail ''unexpected Hello'', sh, w)
   | AgentPrompt t \<Rightarrow>
       if sh_tab_type sh \<noteq> AgentTab \<and> sh_tab_type sh \<noteq> AppTab then (Continue, sh, w)
       else (case viewer_access vid sh of
         None \<Rightarrow> (Continue, sh, w)
       | Some access \<Rightarrow>
           if \<not> may_steer access then (Continue, sh, w)
           else (Continue, inject_logged src vid access (PPrompt t) sh w))
   | AgentAnswer call_id allow reason \<Rightarrow>
       if sh_tab_type sh \<noteq> AgentTab then (Continue, sh, w)
       else (case viewer_access vid sh of
         None \<Rightarrow> (Continue, sh, w)
       | Some access \<Rightarrow>
           if \<not> may_approve access then (Continue, sh, w)
           else (case so_inject src vid access (PAnswer call_id allow reason) sh w of
             (Inr Raced, sh1, w1) \<Rightarrow>
               (Continue, broadcast_decision_taken src call_id ''somebody else'' sh1 w1)
           | (_, sh1, w1) \<Rightarrow> (Continue, sh1, w1)))
   | AgentCancel \<Rightarrow>
       if sh_tab_type sh \<noteq> AgentTab \<and> sh_tab_type sh \<noteq> AppTab then (Continue, sh, w)
       else (case viewer_access vid sh of
         None \<Rightarrow> (Continue, sh, w)
       | Some access \<Rightarrow>
           if \<not> may_steer access then (Continue, sh, w)
           else (Continue, inject_logged src vid access PCancel sh w))
   | Rpc rid cmd args \<Rightarrow>
       if sh_tab_type sh \<noteq> AppTab then (Continue, sh, w)
       else (case viewer_access vid sh of
         None \<Rightarrow> (Continue, sh, w)
       | Some access \<Rightarrow> (Continue, inject_logged src vid access (PRpc rid cmd args) sh w))
   | Action name args \<Rightarrow>
       if sh_tab_type sh \<noteq> AppTab then (Continue, sh, w)
       else (case viewer_access vid sh of
         None \<Rightarrow> (Continue, sh, w)
       | Some access \<Rightarrow>
           if \<not> may_steer access then (Continue, sh, w)
           else (Continue, inject_logged src vid access (PAction name args) sh w))
   | ClipPush t \<Rightarrow>
       if sh_tab_type sh \<noteq> AppTab then (Continue, sh, w)
       else (case viewer_access vid sh of
         None \<Rightarrow> (Continue, sh, w)
       | Some access \<Rightarrow>
           if \<not> may_steer access then (Continue, sh, w)
           else (Continue, inject_logged src vid access (PClip t) sh w)))"

text \<open>A file stream beside the connection is served only to a connected viewer of an app share, on a
  host that has files to serve; the check is made for each stream.\<close>

definition file_stream_served :: "bool \<Rightarrow> nat \<Rightarrow> share \<Rightarrow> bool" where
  "file_stream_served has_file_source vid sh \<longleftrightarrow>
     has_file_source \<and> viewer_access vid sh \<noteq> None \<and> sh_tab_type sh = AppTab"

section \<open>Who may do what\<close>

text \<open>The table of powers: which frames of a viewer at a level reach the tab of each kind.\<close>

fun permitted :: "shared_tab_type \<Rightarrow> access \<Rightarrow> client_msg \<Rightarrow> bool" where
  "permitted kind level (InputMsg _) \<longleftrightarrow> kind \<noteq> AgentTab \<and> level \<noteq> View"
| "permitted kind level (AgentPrompt _) \<longleftrightarrow> kind \<noteq> TerminalTab \<and> level \<noteq> View"
| "permitted kind level AgentCancel \<longleftrightarrow> kind \<noteq> TerminalTab \<and> level \<noteq> View"
| "permitted kind level (AgentAnswer _ _ _) \<longleftrightarrow> kind = AgentTab \<and> level = Approve"
| "permitted kind level (Rpc _ _ _) \<longleftrightarrow> kind = AppTab"
| "permitted kind level (Action _ _) \<longleftrightarrow> kind = AppTab \<and> level \<noteq> View"
| "permitted kind level (ClipPush _) \<longleftrightarrow> kind = AppTab \<and> level \<noteq> View"
| "permitted _ _ _ \<longleftrightarrow> False"

fun payload_of :: "(string \<Rightarrow> bytes option) \<Rightarrow> client_msg \<Rightarrow> input_payload option" where
  "payload_of b64dec (InputMsg b64) = map_option Bytes (b64dec b64)"
| "payload_of _ (AgentPrompt t) = Some (PPrompt t)"
| "payload_of _ AgentCancel = Some PCancel"
| "payload_of _ (AgentAnswer cid allow reason) = Some (PAnswer cid allow reason)"
| "payload_of _ (Rpc rid cmd args) = Some (PRpc rid cmd args)"
| "payload_of _ (Action name args) = Some (PAction name args)"
| "payload_of _ (ClipPush t) = Some (PClip t)"
| "payload_of _ _ = None"

fun answered_call_id :: "client_msg \<Rightarrow> string option" where
  "answered_call_id (AgentAnswer cid _ _) = Some cid"
| "answered_call_id _ = None"

lemma may_steer_iff: "may_steer a \<longleftrightarrow> a \<noteq> View"
  by (cases a) auto

lemma may_approve_iff: "may_approve a \<longleftrightarrow> a = Approve"
  by (cases a) auto


end
