(* ===== verification/Remote_Invariant.thy ===== *)
theory Remote_Invariant
  imports Remote_Share
begin

text \<open>
  A share as a transition system: one step per atomic change, and the invariant of its viewers
  and channels, preserved by every step. What a viewer is ever sent is a channel its version of
  the client can follow.
\<close>

section \<open>How a share evolves\<close>

text \<open>A frame that is fanned out to everybody.\<close>

fun is_stream_frame :: "host_msg \<Rightarrow> bool" where
  "is_stream_frame (Welcome _ _ _ _ _) = False"
| "is_stream_frame (Mode _ _) = False"
| "is_stream_frame (End _) = False"
| "is_stream_frame (AgentSnapshot _) = False"
| "is_stream_frame _ = True"

text \<open>One atomic change of a running share, whoever makes it: a viewer's connection, the host's UI or
  the tab's output; and, made by the hub alone, a viewer's admission and the end of the share.\<close>

inductive running_step :: "share \<Rightarrow> share \<Rightarrow> bool" where
  st_broadcast: "is_stream_frame msg \<Longrightarrow> running_step sh (broadcast_fan msg sh)"
| st_presence: "running_step sh (presence_fan sh)"
| st_buffering: "running_step sh (begin_buffering vid sh)"
| st_ready: "running_step sh (snapshot_ready vid b64 cols rows sh)"
| st_access: "running_step sh (change_access vid access sh)"
| st_viewport: "running_step sh (set_viewport vid cols rows sh)"
| st_pong: "find_viewer vid sh \<noteq> None \<Longrightarrow> running_step sh (send_to vid Pong sh)"
| st_title: "running_step sh (set_title t sh)"
| st_size: "running_step sh (sh\<lparr>sh_size := sz\<rparr>)"
| st_leave: "running_step sh (remove_viewer vid sh)"
| st_kick: "find_viewer vid sh \<noteq> None \<Longrightarrow> running_step sh (send_to vid (End reason) (remove_viewer vid sh))"

inductive share_step :: "share \<Rightarrow> share \<Rightarrow> bool" where
  st_running: "running_step sh sh' \<Longrightarrow> share_step sh sh'"
| st_admit: "sh_sent sh vid = [] \<Longrightarrow> find_viewer vid sh = None \<Longrightarrow> tab_type_min_proto sh \<le> proto
    \<Longrightarrow> admit vid proto name history sh = Some sh' \<Longrightarrow> share_step sh sh'"
| st_end: "share_step sh (end_all reason sh)"

inductive_cases share_stepE: "share_step sh sh'"

text \<open>What a viewer of version \<open>p\<close> can parse.\<close>

fun speaks :: "nat \<Rightarrow> host_msg \<Rightarrow> bool" where
  "speaks p (Mode _ a) \<longleftrightarrow> (a \<noteq> None \<longleftrightarrow> 2 \<le> p)"
| "speaks p (Welcome q _ _ _ tt) \<longleftrightarrow> q = p \<and> (tt \<noteq> None \<longleftrightarrow> 2 \<le> p)"
| "speaks p m \<longleftrightarrow> (is_v2_only m \<longrightarrow> 2 \<le> p) \<and> (is_v3_only m \<longrightarrow> 3 \<le> p)"

fun is_end :: "host_msg \<Rightarrow> bool" where
  "is_end (End _) = True" | "is_end _ = False"

fun is_mode :: "host_msg \<Rightarrow> bool" where
  "is_mode (Mode _ _) = True" | "is_mode _ = False"

fun is_welcome :: "host_msg \<Rightarrow> bool" where
  "is_welcome (Welcome _ _ _ _ _) = True" | "is_welcome _ = False"

text \<open>A channel a client of version \<open>p\<close> can follow: a welcome in its version, its powers, then only
  frames it can parse.\<close>

fun opened :: "nat \<Rightarrow> host_msg list \<Rightarrow> bool" where
  "opened p (m0 # m1 # rest) \<longleftrightarrow> is_welcome m0 \<and> is_mode m1
     \<and> list_all (speaks p) (m0 # m1 # rest) \<and> filter is_welcome (m1 # rest) = []"
| "opened p _ \<longleftrightarrow> False"

definition last_mode :: "host_msg list \<Rightarrow> host_msg option" where
  "last_mode ms = (if filter is_mode ms = [] then None else Some (last (filter is_mode ms)))"

definition queue_ok :: "nat \<Rightarrow> viewer_state \<Rightarrow> bool" where
  "queue_ok p st = (case st of Live \<Rightarrow> True
     | Buffering buf \<Rightarrow> length buf \<le> MAX_PENDING_FRAMES
         \<and> list_all (\<lambda>m. speaks p m \<and> is_stream_frame m) buf)"

definition connected_ok :: "viewer \<Rightarrow> host_msg list \<Rightarrow> bool" where
  "connected_ok v ms \<longleftrightarrow> opened (vw_proto v) ms \<and> filter is_end ms = []
     \<and> last_mode ms = Some (mode_for (vw_proto v) (vw_access v)) \<and> queue_ok (vw_proto v) (vw_state v)"

definition departed_ok :: "host_msg list \<Rightarrow> bool" where
  "departed_ok ms \<longleftrightarrow> ms = [] \<or> (\<exists>p. opened p ms \<and> filter is_end (butlast ms) = [])"

definition share_inv :: "share \<Rightarrow> bool" where
  "share_inv sh \<longleftrightarrow> distinct (map fst (sh_viewers sh)) \<and> (sh_stopped sh \<longrightarrow> sh_viewers sh = [])
     \<and> (\<forall>i. case find_viewer i sh of
          Some v \<Rightarrow> connected_ok v (sh_sent sh i) | None \<Rightarrow> departed_ok (sh_sent sh i))"

text \<open>Appending to a channel.\<close>

lemma opened_append:
  "opened p ms \<Longrightarrow> list_all (speaks p) xs \<Longrightarrow> filter is_welcome xs = [] \<Longrightarrow> opened p (ms @ xs)"
  by (cases "(p, ms)" rule: opened.cases) auto

lemma last_mode_append:
  "last_mode (ms @ xs) = (case last_mode xs of None \<Rightarrow> last_mode ms | Some m \<Rightarrow> Some m)"
  by (simp add: last_mode_def)

lemma stream_frame_facts:
  "is_stream_frame m \<Longrightarrow> \<not> is_welcome m \<and> \<not> is_mode m \<and> \<not> is_end m"
  by (cases m) auto

lemma stream_frames_facts:
  assumes "list_all is_stream_frame xs"
  shows "filter is_welcome xs = []" "filter is_mode xs = []" "filter is_end xs = []" "last_mode xs = None"
  using assms stream_frame_facts by (auto simp: list_all_iff filter_empty_conv last_mode_def)

lemma connected_append:
  assumes "connected_ok v ms" "list_all (\<lambda>m. speaks (vw_proto v) m \<and> is_stream_frame m) xs"
  shows "connected_ok v (ms @ xs)"
proof -
  from assms(2) have "list_all is_stream_frame xs" "list_all (speaks (vw_proto v)) xs"
    by (auto simp: list_all_iff)
  with assms(1) stream_frames_facts [of xs] show ?thesis
    by (auto simp: connected_ok_def opened_append last_mode_append)
qed

lemma connected_departs:
  "connected_ok v ms \<Longrightarrow> departed_ok ms \<and> departed_ok (ms @ [End r])"
proof -
  assume c: "connected_ok v ms"
  then have "opened (vw_proto v) ms" "filter is_end ms = []" by (simp_all add: connected_ok_def)
  moreover from this(1) have "opened (vw_proto v) (ms @ [End r])" by (rule opened_append) simp_all
  ultimately show "departed_ok ms \<and> departed_ok (ms @ [End r])"
    by (auto simp: departed_ok_def filter_empty_conv dest: in_set_butlastD)
qed

lemma connected_cong:
  "vw_proto v' = vw_proto v \<Longrightarrow> vw_access v' = vw_access v \<Longrightarrow> queue_ok (vw_proto v) (vw_state v')
    \<Longrightarrow> connected_ok v ms \<Longrightarrow> connected_ok v' ms"
  by (simp add: connected_ok_def)

text \<open>Looking up viewers after each change.\<close>

lemma find_update [simp]:
  "find_viewer i (update_viewer vid f sh) = map_option (if i = vid then f else id) (find_viewer i sh)"
proof -
  have "map_of (map (\<lambda>(j, v). (j, if j = vid then f v else v)) vs) i
      = map_option (if i = vid then f else id) (map_of vs i)" for vs
    by (induction vs) auto
  then show ?thesis by (simp add: find_viewer_def update_viewer_def)
qed

lemma find_remove [simp]:
  "find_viewer i (remove_viewer vid sh) = (if i = vid then None else find_viewer i sh)"
proof -
  have "map_of (filter (\<lambda>(j, v). j \<noteq> vid) vs) i = (if i = vid then None else map_of vs i)"
    for vs :: "(nat \<times> viewer) list"
    by (induction vs) auto
  from this [of "sh_viewers sh"] show ?thesis by (simp add: find_viewer_def remove_viewer_def)
qed

lemma find_send [simp]: "find_viewer i (send_to vid m sh) = find_viewer i sh"
  by (simp add: send_to_def find_viewer_def)

lemma map_fst_update [simp]: "map fst (sh_viewers (update_viewer vid f sh)) = map fst (sh_viewers sh)"
  by (simp add: update_viewer_def case_prod_beta comp_def)

lemma update_viewer_simps [simp]:
  "sh_sent (update_viewer vid f sh) = sh_sent sh" "sh_stopped (update_viewer vid f sh) = sh_stopped sh"
  "sh_viewers (update_viewer vid f sh) = [] \<longleftrightarrow> sh_viewers sh = []"
  by (simp_all add: update_viewer_def)

text \<open>Every change keeps the invariant.\<close>

lemma share_invD:
  assumes "share_inv sh"
  shows "find_viewer i sh = Some v \<Longrightarrow> connected_ok v (sh_sent sh i)"
    "find_viewer i sh = None \<Longrightarrow> departed_ok (sh_sent sh i)"
    "distinct (map fst (sh_viewers sh))" "sh_stopped sh \<Longrightarrow> sh_viewers sh = []"
proof -
  from assms have a: "case find_viewer i sh of Some v \<Rightarrow> connected_ok v (sh_sent sh i)
      | None \<Rightarrow> departed_ok (sh_sent sh i)" unfolding share_inv_def by blast
  then show "find_viewer i sh = Some v \<Longrightarrow> connected_ok v (sh_sent sh i)"
    "find_viewer i sh = None \<Longrightarrow> departed_ok (sh_sent sh i)" by simp_all
  from assms show "distinct (map fst (sh_viewers sh))" "sh_stopped sh \<Longrightarrow> sh_viewers sh = []"
    by (simp_all add: share_inv_def)
qed

lemma offer_state:
  assumes "connected_ok v ms" "is_stream_frame m"
  shows "case fst (offer m v) of Some v' \<Rightarrow> connected_ok v' (ms @ snd (offer m v))
    | None \<Rightarrow> departed_ok (ms @ snd (offer m v))"
proof (cases "withheld m v")
  case True
  with assms(1) show ?thesis by (simp add: offer_def)
next
  case w: False
  with assms(2) have s: "speaks (vw_proto v) m"
    by (cases m) (auto simp: withheld_def)
  show ?thesis
  proof (cases "vw_state v")
    case Live
    with w assms s connected_append [of v ms "[m]"] show ?thesis by (simp add: offer_def)
  next
    case (Buffering buf)
    show ?thesis
    proof (cases "MAX_PENDING_FRAMES \<le> length buf")
      case True
      with w Buffering connected_departs [OF assms(1)] show ?thesis by (simp add: offer_def)
    next
      case False
      from assms(1) Buffering have "queue_ok (vw_proto v) (Buffering buf)" by (simp add: connected_ok_def)
      with False s assms(2) have "queue_ok (vw_proto v) (Buffering (buf @ [m]))"
        by (simp add: queue_ok_def)
      with w Buffering False assms(1) show ?thesis
        by (simp add: offer_def connected_ok_def)
    qed
  qed
qed

lemma find_broadcast:
  assumes "distinct (map fst (sh_viewers sh))"
  shows "find_viewer i (broadcast_fan m sh) = Option.bind (find_viewer i sh) (\<lambda>v. fst (offer m v))"
proof -
  have "distinct (map fst vs) \<Longrightarrow>
      map_of (List.map_filter (\<lambda>(j, v). map_option (Pair j) (fst (offer m v))) vs) i
      = Option.bind (map_of vs i) (\<lambda>v. fst (offer m v))" for vs
  proof (induction vs)
    case (Cons a vs)
    obtain j v where a: "a = (j, v)" by fastforce
    have notin: "map_of vs j = None" using Cons.prems a by (simp add: map_of_eq_None_iff)
    with Cons a show ?case
      by (cases "fst (offer m v)") (auto simp: List.map_filter_simps)
  qed (simp add: List.map_filter_simps)
  with assms show ?thesis by (simp add: find_viewer_def broadcast_fan_def)
qed

lemma broadcast_distinct:
  assumes "distinct (map fst (sh_viewers sh))"
  shows "distinct (map fst (sh_viewers (broadcast_fan m sh)))"
proof -
  have sub: "set (map fst (List.map_filter (\<lambda>(j, v). map_option (Pair j) (fst (offer m v))) vs)) \<subseteq> set (map fst vs)"
    for vs by (induction vs) (auto simp: List.map_filter_simps split: option.splits)
  have "distinct (map fst vs) \<Longrightarrow>
      distinct (map fst (List.map_filter (\<lambda>(j, v). map_option (Pair j) (fst (offer m v))) vs))" for vs
  proof (induction vs)
    case (Cons a vs)
    with sub [of vs] show ?case by (cases a) (auto simp: List.map_filter_simps split: option.splits)
  qed (simp add: List.map_filter_simps)
  with assms show ?thesis by (simp add: broadcast_fan_def)
qed

lemma inv_broadcast:
  assumes "share_inv sh" "is_stream_frame m"
  shows "share_inv (broadcast_fan m sh)"
proof -
  have "case find_viewer i (broadcast_fan m sh) of
      Some v \<Rightarrow> connected_ok v (sh_sent (broadcast_fan m sh) i)
    | None \<Rightarrow> departed_ok (sh_sent (broadcast_fan m sh) i)" for i
  proof (cases "find_viewer i sh")
    case None
    then show ?thesis
      using share_invD(2,3) [OF assms(1)] by (simp add: find_broadcast) (simp add: broadcast_fan_def)
  next
    case (Some v)
    have "sh_sent (broadcast_fan m sh) i = sh_sent sh i @ snd (offer m v)"
      using Some by (simp add: broadcast_fan_def)
    with offer_state [OF share_invD(1) [OF assms(1) Some] assms(2)] Some show ?thesis
      using share_invD(3) [OF assms(1)] by (cases "fst (offer m v)") (simp_all add: find_broadcast)
  qed
  moreover have "sh_stopped (broadcast_fan m sh) \<longrightarrow> sh_viewers (broadcast_fan m sh) = []"
    using share_invD(4) [OF assms(1)] by (simp add: broadcast_fan_def List.map_filter_simps)
  ultimately show ?thesis
    using broadcast_distinct [OF share_invD(3) [OF assms(1)]] unfolding share_inv_def by blast
qed

lemma find_presence:
  "find_viewer i (presence_fan sh) = map_option (\<lambda>v. case vw_state v of
     Buffering buf \<Rightarrow> if length buf < MAX_PENDING_FRAMES
        then v\<lparr>vw_state := Buffering (buf @ [Presence (length (sh_viewers sh))])\<rparr> else v
   | Live \<Rightarrow> v) (find_viewer i sh)"
proof -
  have "map_of (map (\<lambda>(i, v). (i, f v)) vs) i = map_option f (map_of vs i)" for f :: "viewer \<Rightarrow> viewer" and vs
    by (induction vs) auto
  then show ?thesis by (simp add: find_viewer_def presence_fan_def Let_def)
qed

lemma presence_fan_simps [simp]:
  "map fst (sh_viewers (presence_fan sh)) = map fst (sh_viewers sh)"
  "sh_stopped (presence_fan sh) = sh_stopped sh"
  "sh_viewers (presence_fan sh) = [] \<longleftrightarrow> sh_viewers sh = []"
  by (simp_all add: presence_fan_def Let_def case_prod_beta comp_def)

lemma inv_presence: "share_inv sh \<Longrightarrow> share_inv (presence_fan sh)"
proof -
  assume inv: "share_inv sh"
  let ?m = "Presence (length (sh_viewers sh))"
  have "case find_viewer i (presence_fan sh) of
      Some v \<Rightarrow> connected_ok v (sh_sent (presence_fan sh) i)
    | None \<Rightarrow> departed_ok (sh_sent (presence_fan sh) i)" for i
  proof (cases "find_viewer i sh")
    case None
    then show ?thesis using share_invD(2) [OF inv None]
      by (simp add: find_presence) (simp add: presence_fan_def Let_def)
  next
    case (Some v)
    note c = share_invD(1) [OF inv Some]
    have sent: "sh_sent (presence_fan sh) i = (if vw_state v = Live then sh_sent sh i @ [?m] else sh_sent sh i)"
      using Some by (simp add: presence_fan_def Let_def)
    show ?thesis
    proof (cases "vw_state v")
      case Live
      with Some c sent connected_append [OF c, of "[?m]"] show ?thesis by (simp add: find_presence)
    next
      case (Buffering buf)
      with c have "queue_ok (vw_proto v) (Buffering buf)" by (simp add: connected_ok_def)
      then have "length buf < MAX_PENDING_FRAMES \<longrightarrow> queue_ok (vw_proto v) (Buffering (buf @ [?m]))"
        by (simp add: queue_ok_def)
      with Some Buffering c sent show ?thesis by (simp add: find_presence connected_ok_def)
    qed
  qed
  with inv show ?thesis unfolding share_inv_def by simp
qed

text \<open>A change of one viewer that leaves its channel, or extends it, and nobody else.\<close>

lemma inv_update:
  assumes "share_inv sh"
    and "\<And>v. find_viewer vid sh = Some v \<Longrightarrow> connected_ok (f v) (sh_sent sh vid @ xs)"
    and "find_viewer vid sh = None \<Longrightarrow> xs = []"
  shows "share_inv ((update_viewer vid f sh)\<lparr>sh_sent := (sh_sent sh)(vid := sh_sent sh vid @ xs)\<rparr>)"
    (is "share_inv ?sh'")
proof -
  have find: "find_viewer i ?sh' = map_option (if i = vid then f else id) (find_viewer i sh)" for i
    using find_update [of i vid f sh] by (simp add: find_viewer_def)
  have "case find_viewer i ?sh' of Some v \<Rightarrow> connected_ok v (sh_sent ?sh' i)
    | None \<Rightarrow> departed_ok (sh_sent ?sh' i)" for i
    using share_invD(1,2) [OF assms(1), of i] assms(2,3)
    by (cases "find_viewer i sh") (auto simp: find)
  moreover have "distinct (map fst (sh_viewers ?sh'))" "sh_stopped ?sh' \<longrightarrow> sh_viewers ?sh' = []"
    using share_invD(3,4) [OF assms(1)] by simp_all
  ultimately show ?thesis unfolding share_inv_def by blast
qed

lemma inv_update_same:
  assumes "share_inv sh" "\<And>v. find_viewer vid sh = Some v \<Longrightarrow> connected_ok (f v) (sh_sent sh vid)"
  shows "share_inv (update_viewer vid f sh)"
  using inv_update [OF assms(1), of vid f "[]"] assms(2) by (simp add: update_viewer_def)

lemma inv_buffering: "share_inv sh \<Longrightarrow> share_inv (begin_buffering vid sh)"
  unfolding begin_buffering_def
  by (rule inv_update_same) (auto dest!: share_invD(1) simp: connected_ok_def queue_ok_def)

lemma inv_viewport: "share_inv sh \<Longrightarrow> share_inv (set_viewport vid cols rows sh)"
  unfolding set_viewport_def
  by (rule inv_update_same) (auto dest!: share_invD(1) simp: connected_ok_def)

lemma inv_ready:
  assumes "share_inv sh"
  shows "share_inv (snapshot_ready vid b64 cols rows sh)"
proof (cases "find_viewer vid sh")
  case (Some v)
  note c = share_invD(1) [OF assms Some]
  define queued where "queued = (case vw_state v of Buffering buf \<Rightarrow> buf | Live \<Rightarrow> [])"
  from c have q: "list_all (\<lambda>m. speaks (vw_proto v) m \<and> is_stream_frame m) (Snapshot b64 cols rows # queued)"
    by (auto simp: queued_def connected_ok_def queue_ok_def split: viewer_state.splits)
  have "connected_ok (v\<lparr>vw_state := Live\<rparr>) (sh_sent sh vid @ Snapshot b64 cols rows # queued)"
    using connected_append [OF c q] by (simp add: connected_ok_def queue_ok_def)
  with inv_update [OF assms, of vid "\<lambda>v. v\<lparr>vw_state := Live\<rparr>" "Snapshot b64 cols rows # queued"] Some
  show ?thesis by (simp add: snapshot_ready_def queued_def Let_def)
qed (simp add: snapshot_ready_def assms)

lemma inv_access:
  assumes "share_inv sh"
  shows "share_inv (change_access vid access sh)"
proof (cases "find_viewer vid sh")
  case (Some v)
  note c = share_invD(1) [OF assms Some]
  let ?m = "mode_for (vw_proto v) access"
  have "opened (vw_proto v) (sh_sent sh vid @ [?m])"
    using c by (intro opened_append) (simp_all add: connected_ok_def mode_for_def)
  then have "connected_ok (v\<lparr>vw_access := access\<rparr>) (sh_sent sh vid @ [?m])"
    using c by (simp add: connected_ok_def last_mode_append last_mode_def mode_for_def)
  with inv_update [OF assms, of vid "\<lambda>v. v\<lparr>vw_access := access\<rparr>" "[?m]"] Some
  show ?thesis by (simp add: change_access_def send_to_def)
qed (simp add: change_access_def assms)

lemma inv_pong:
  assumes "share_inv sh" "find_viewer vid sh \<noteq> None"
  shows "share_inv (send_to vid Pong sh)"
proof -
  from assms(2) obtain v where v: "find_viewer vid sh = Some v" by blast
  have "update_viewer vid (\<lambda>v. v) sh = sh" by (simp add: update_viewer_def)
  with inv_update [OF assms(1), of vid "\<lambda>v. v" "[Pong]"] connected_append [OF share_invD(1) [OF assms(1) v], of "[Pong]"] v
  show ?thesis by (simp add: send_to_def)
qed

lemma inv_remove:
  assumes "share_inv sh" "xs = [] \<or> find_viewer vid sh \<noteq> None \<and> xs = [End reason]"
  shows "share_inv ((remove_viewer vid sh)\<lparr>sh_sent := (sh_sent sh)(vid := sh_sent sh vid @ xs)\<rparr>)"
    (is "share_inv ?sh'")
proof -
  have find: "find_viewer i ?sh' = (if i = vid then None else find_viewer i sh)" for i
    using find_remove [of i vid sh] by (simp add: find_viewer_def)
  have "case find_viewer i ?sh' of Some v \<Rightarrow> connected_ok v (sh_sent ?sh' i)
    | None \<Rightarrow> departed_ok (sh_sent ?sh' i)" for i
    using share_invD(1,2) [OF assms(1), of i] assms(2) connected_departs
    by (cases "find_viewer i sh") (auto simp: find)
  moreover have "distinct (map fst (sh_viewers ?sh'))" "sh_stopped ?sh' \<longrightarrow> sh_viewers ?sh' = []"
    using share_invD(3,4) [OF assms(1)] by (simp_all add: remove_viewer_def distinct_map_filter)
  ultimately show ?thesis unfolding share_inv_def by blast
qed

lemma inv_leave: "share_inv sh \<Longrightarrow> share_inv (remove_viewer vid sh)"
  using inv_remove [of sh "[]" vid] by (simp add: remove_viewer_def)

lemma inv_kick:
  "share_inv sh \<Longrightarrow> find_viewer vid sh \<noteq> None \<Longrightarrow> share_inv (send_to vid (End reason) (remove_viewer vid sh))"
  using inv_remove [of sh "[End reason]" vid reason] by (simp add: send_to_def remove_viewer_def)

lemma inv_end:
  assumes "share_inv sh"
  shows "share_inv (end_all reason sh)"
proof -
  have "departed_ok (sh_sent (end_all reason sh) i)" for i
    using share_invD(1,2) [OF assms, of i] connected_departs
    by (cases "find_viewer i sh") (auto simp: end_all_def)
  then show ?thesis by (simp add: share_inv_def find_viewer_def) (simp add: end_all_def)
qed

lemma inv_admit:
  assumes "share_inv sh" "sh_sent sh vid = []" "find_viewer vid sh = None" "tab_type_min_proto sh \<le> proto"
    and "admit vid proto name history sh = Some sh'"
  shows "share_inv sh'"
proof -
  define v where "v = \<lparr>vw_proto = proto,
     vw_state = (if sh_tab_type sh = AgentTab \<or> sh_tab_type sh = AppTab then Live else Buffering []),
     vw_name = name, vw_access = sh_access sh, vw_viewport = None\<rparr>"
  have v: "sh_viewers sh' = sh_viewers sh @ [(vid, v)]"
    and rest: "\<And>i. i \<noteq> vid \<Longrightarrow> sh_sent sh' i = sh_sent sh i" "sh_stopped sh' = False"
    using assms(5) by (auto simp: admit_def Let_def v_def split: if_splits)
  have c: "connected_ok v (sh_sent sh' vid)"
    using assms(2,5) by (auto simp: admit_def Let_def connected_ok_def last_mode_def mode_for_def
        queue_ok_def v_def split: if_splits)
  have find: "find_viewer i sh' = (if i = vid then Some v else find_viewer i sh)" for i
    using assms(3) v by (auto simp: find_viewer_def map_add_def split: option.splits)
  have "distinct (map fst (sh_viewers sh'))"
    using v share_invD(3) [OF assms(1)] assms(3) by (auto simp: find_viewer_def map_of_eq_None_iff)
  moreover have "case find_viewer i sh' of Some v \<Rightarrow> connected_ok v (sh_sent sh' i)
    | None \<Rightarrow> departed_ok (sh_sent sh' i)" for i
    using share_invD(1,2) [OF assms(1), of i] c rest(1) [of i]
    by (cases "find_viewer i sh") (auto simp: find)
  ultimately show ?thesis using rest(2) unfolding share_inv_def by blast
qed

lemma share_inv_cong:
  "share_inv sh \<Longrightarrow> sh_viewers sh' = sh_viewers sh \<Longrightarrow> sh_sent sh' = sh_sent sh
    \<Longrightarrow> sh_stopped sh' = sh_stopped sh \<Longrightarrow> share_inv sh'"
  by (simp add: share_inv_def find_viewer_def cong: option.case_cong)

lemma inv_title: "share_inv sh \<Longrightarrow> share_inv (set_title t sh)"
  by (erule share_inv_cong) (simp_all add: set_title_def)

lemma inv_size: "share_inv sh \<Longrightarrow> share_inv (sh\<lparr>sh_size := sz\<rparr>)"
  by (erule share_inv_cong) simp_all

lemma running_step_inv: "running_step sh sh' \<Longrightarrow> share_inv sh \<Longrightarrow> share_inv sh'"
  by (induction rule: running_step.induct)
     (auto intro: inv_broadcast inv_presence inv_buffering inv_ready inv_access inv_viewport inv_pong
       inv_leave inv_kick inv_title inv_size)

lemma share_step_inv: "share_step sh sh' \<Longrightarrow> share_inv sh \<Longrightarrow> share_inv sh'"
  by (auto elim!: share_stepE intro: running_step_inv inv_admit inv_end)

lemma running_steps_inv: "running_step\<^sup>*\<^sup>* sh sh' \<Longrightarrow> share_inv sh \<Longrightarrow> share_inv sh'"
  by (induction rule: rtranclp_induct) (auto intro: running_step_inv)

text \<open>What a running share keeps: what it is, and the channels of everybody who is not on it.\<close>

definition keeps :: "share \<Rightarrow> share \<Rightarrow> bool" where
  "keeps sh sh' \<longleftrightarrow> sh_stopped sh' = sh_stopped sh \<and> sh_id sh' = sh_id sh \<and> sh_token sh' = sh_token sh
     \<and> sh_created_at sh' = sh_created_at sh \<and> sh_ttl sh' = sh_ttl sh \<and> sh_access sh' = sh_access sh
     \<and> sh_tab_type sh' = sh_tab_type sh
     \<and> (\<forall>i. find_viewer i sh = None \<longrightarrow> find_viewer i sh' = None \<and> sh_sent sh' i = sh_sent sh i)"

lemma keeps_refl [simp]: "keeps sh sh"
  by (simp add: keeps_def)

lemma keeps_trans: "keeps a b \<Longrightarrow> keeps b c \<Longrightarrow> keeps a c"
  by (simp add: keeps_def)

lemma keeps_broadcast: "keeps sh (broadcast_fan m sh)"
proof -
  have "find_viewer i (broadcast_fan m sh) = None" if "find_viewer i sh = None" for i
  proof -
    have "map_of vs i = None \<Longrightarrow>
        map_of (List.map_filter (\<lambda>(j, v). map_option (Pair j) (fst (offer m v))) vs) i = None" for vs
      by (induction vs) (auto simp: List.map_filter_simps split: option.splits if_splits)
    with that show ?thesis by (simp add: find_viewer_def broadcast_fan_def)
  qed
  then show ?thesis by (simp add: keeps_def) (simp add: broadcast_fan_def)
qed

lemma share_fields:
  "sh_id (update_viewer vid f sh) = sh_id sh" "sh_token (update_viewer vid f sh) = sh_token sh"
  "sh_created_at (update_viewer vid f sh) = sh_created_at sh" "sh_ttl (update_viewer vid f sh) = sh_ttl sh"
  "sh_access (update_viewer vid f sh) = sh_access sh" "sh_tab_type (update_viewer vid f sh) = sh_tab_type sh"
  "sh_id (remove_viewer vid sh) = sh_id sh" "sh_token (remove_viewer vid sh) = sh_token sh"
  "sh_created_at (remove_viewer vid sh) = sh_created_at sh" "sh_ttl (remove_viewer vid sh) = sh_ttl sh"
  "sh_access (remove_viewer vid sh) = sh_access sh" "sh_tab_type (remove_viewer vid sh) = sh_tab_type sh"
  "sh_stopped (remove_viewer vid sh) = sh_stopped sh" "sh_sent (remove_viewer vid sh) = sh_sent sh"
  "sh_id (send_to vid m sh) = sh_id sh" "sh_token (send_to vid m sh) = sh_token sh"
  "sh_created_at (send_to vid m sh) = sh_created_at sh" "sh_ttl (send_to vid m sh) = sh_ttl sh"
  "sh_access (send_to vid m sh) = sh_access sh" "sh_tab_type (send_to vid m sh) = sh_tab_type sh"
  "sh_stopped (send_to vid m sh) = sh_stopped sh"
  "sh_sent (send_to vid m sh) = (sh_sent sh)(vid := sh_sent sh vid @ [m])"
  by (simp_all add: update_viewer_def remove_viewer_def send_to_def)

lemma running_keeps: "running_step sh sh' \<Longrightarrow> keeps sh sh'"
proof (induction rule: running_step.induct)
  case (st_broadcast msg sh)
  show ?case by (rule keeps_broadcast)
next
  case (st_presence sh)
  show ?case by (simp add: keeps_def find_presence) (simp add: presence_fan_def Let_def)
next
  case (st_ready sh vid b64 cols rows)
  show ?case
  proof (cases "find_viewer vid sh")
    case (Some v)
    have "find_viewer i (snapshot_ready vid b64 cols rows sh) = None" if "find_viewer i sh = None" for i
      using that Some find_update [of i vid "\<lambda>v. v\<lparr>vw_state := Live\<rparr>" sh]
      by (simp add: snapshot_ready_def Let_def find_viewer_def)
    with Some show ?thesis
      by (auto simp: keeps_def) (auto simp: snapshot_ready_def update_viewer_def Let_def)
  qed (simp add: snapshot_ready_def)
next
  case (st_access sh vid access)
  show ?case
    by (auto simp: keeps_def change_access_def split: option.splits)
       (auto simp: send_to_def update_viewer_def)
next
  case (st_title sh t)
  show ?case by (simp add: keeps_def set_title_def find_viewer_def)
next
  case (st_size sh sz)
  show ?case by (simp add: keeps_def find_viewer_def)
qed (auto simp: keeps_def begin_buffering_def set_viewport_def share_fields)

lemma running_steps_keep: "running_step\<^sup>*\<^sup>* sh sh' \<Longrightarrow> keeps sh sh'"
  by (induction rule: rtranclp_induct) (auto intro: keeps_trans running_keeps)

end
