(* ===== verification/Remote_Hub.thy ===== *)
theory Remote_Hub
  imports Remote_Invariant
begin

text \<open>
  The hub: the shares of an app, the door (\<open>handle_incoming\<close>), starting, stopping, kicking and
  regrading (\<open>RemoteHub\<close> of \<open>crates/tabverse-remote/src/lib.rs\<close>). The tabs behind the shares enter
  through the interface \<open>share_source\<close>; what is proved here holds for any tabs that keep to it.
  The network endpoint, the connection tasks and the timers are not modelled: a connection is
  the sequence of its steps, interleaved freely with everybody else's.
\<close>

section \<open>The interface to the tab\<close>

text \<open>
  What the hub relies on from a tab behind a share: whatever it does when it is asked for a
  snapshot or given input, it changes the share only through the share's own operations.
\<close>

locale share_source =
  fixes src :: "'w source"
  assumes request_steps: "running_step\<^sup>*\<^sup>* sh (fst (so_request_snapshot src vid sh w))"
    and inject_steps: "running_step\<^sup>*\<^sup>* sh (fst (snd (so_inject src vid access payload sh w)))"
begin

lemma presence_steps: "running_step\<^sup>*\<^sup>* sh (fst (presence src sh w))"
  by (auto simp: presence_def intro: st_presence)

lemma notify_viewport_fst [simp]: "fst (notify_viewport src sh w) = sh"
  by (simp add: notify_viewport_def)

lemma broadcast_steps:
  assumes "is_stream_frame msg"
  shows "running_step\<^sup>*\<^sup>* sh (fst (broadcast src msg sh w))"
proof -
  have "running_step sh (broadcast_fan msg sh)" using assms by (rule st_broadcast)
  then show ?thesis using presence_steps [of "broadcast_fan msg sh" w]
    by (auto simp: broadcast_def Let_def intro: converse_rtranclp_into_rtranclp)
qed

lemma handle_frame_steps: "running_step\<^sup>*\<^sup>* sh (fst (snd (handle_frame src b64dec vid msg sh w)))"
proof -
  have i: "running_step\<^sup>*\<^sup>* sh (fst (inject_logged src vid access payload sh w))" for access payload
    using inject_steps by (simp add: inject_logged_def)
  have v: "running_step sh (set_viewport vid cols rows sh)" for cols rows by (rule st_viewport)
  have p: "running_step\<^sup>*\<^sup>* sh (if find_viewer vid sh = None then sh else send_to vid Pong sh)"
    by (auto intro: st_pong)
  show ?thesis
  proof (cases msg)
    case (AgentAnswer cid allow reason)
    show ?thesis
    proof (cases "sh_tab_type sh = AgentTab \<and> (\<exists>v. find_viewer vid sh = Some v \<and> may_approve (vw_access v))")
      case True
      then obtain v where fv: "find_viewer vid sh = Some v" "may_approve (vw_access v)" by blast
      obtain r sh1 w1 where e: "so_inject src vid (vw_access v) (PAnswer cid allow reason) sh w = (r, sh1, w1)"
        by (metis prod_cases3)
      with inject_steps [of sh vid "vw_access v" "PAnswer cid allow reason" w] have s1: "running_step\<^sup>*\<^sup>* sh sh1"
        by simp
      moreover have "running_step\<^sup>*\<^sup>* sh1 (fst (broadcast_decision_taken src cid ''somebody else'' sh1 w1))"
        unfolding broadcast_decision_taken_def by (rule broadcast_steps) simp
      ultimately have "running_step\<^sup>*\<^sup>* sh (fst (broadcast_decision_taken src cid ''somebody else'' sh1 w1))"
        by (rule rtranclp_trans)
      with s1 AgentAnswer True fv e show ?thesis
        by (simp add: handle_frame_def viewer_access_def split: sum.splits input_outcome.splits)
    qed (auto simp: AgentAnswer handle_frame_def viewer_access_def split: option.splits)
  qed (use i v p in \<open>auto simp: handle_frame_def viewer_access_def split: option.splits\<close>)
qed

lemma leave_steps: "running_step\<^sup>*\<^sup>* sh (fst (leave src vid sh w))"
proof -
  have "running_step sh (remove_viewer vid sh)" by (rule st_leave)
  then show ?thesis using presence_steps
    by (auto simp: leave_def notify_viewport_def intro: converse_rtranclp_into_rtranclp)
qed

lemma kick_steps: "running_step\<^sup>*\<^sup>* sh (fst (snd (kick src vid sh w)))"
  using presence_steps st_kick [of vid sh "''removed by host''"]
  by (auto simp: kick_def notify_viewport_def intro: converse_rtranclp_into_rtranclp)

lemma set_viewer_access_steps: "running_step\<^sup>*\<^sup>* sh (fst (snd (set_viewer_access src vid access sh w)))"
  using presence_steps st_access [of sh vid access]
  by (auto simp: set_viewer_access_def intro: converse_rtranclp_into_rtranclp)

end

section \<open>The hub\<close>

text \<open>
  Every share ever started, which of them the hub still lists, the next viewer id and the world.
  A share that was stopped is no longer listed, but the connections it still has hold on to it.
\<close>

record 'w hub =
  hb_shares :: "string \<Rightarrow> share option"
  hb_listed :: "string \<Rightarrow> bool"
  hb_next_viewer :: nat
  hb_world :: 'w

definition hub_new :: "'w \<Rightarrow> 'w hub" where
  "hub_new w = \<lparr>hb_shares = (\<lambda>_. None), hb_listed = (\<lambda>_. False), hb_next_viewer = 0, hb_world = w\<rparr>"

definition hub_share :: "string \<Rightarrow> 'w hub \<Rightarrow> share option" where
  "hub_share sid hub = (if hb_listed hub sid then hb_shares hub sid else None)"

definition put_share :: "string \<Rightarrow> share \<times> 'w \<Rightarrow> 'w hub \<Rightarrow> 'w hub" where
  "put_share sid shw hub =
     hub\<lparr>hb_shares := (hb_shares hub)(sid := Some (fst shw)), hb_world := snd shw\<rparr>"

record share_opts =
  op_title :: string
  op_ttl :: "nat option"
  op_access :: access

text \<open>\<open>share_start\<close>: the id and the token are drawn at random, the time is the caller's.\<close>

definition new_share :: "'w source \<Rightarrow> string \<Rightarrow> string \<Rightarrow> nat \<Rightarrow> share_opts \<Rightarrow> 'w \<Rightarrow> share" where
  "new_share src sid token now opts w =
     \<lparr>sh_id = sid, sh_token = token, sh_title = op_title opts,
      sh_size = (case so_grid src w of Some v \<Rightarrow> (vp_cols v, vp_rows v) | None \<Rightarrow> (0, 0)),
      sh_viewers = [], sh_sent = (\<lambda>_. []), sh_stopped = False, sh_created_at = now,
      sh_ttl = op_ttl opts, sh_access = op_access opts, sh_tab_type = so_kind src\<rparr>"

definition share_start ::
  "'w source \<Rightarrow> string \<Rightarrow> string \<Rightarrow> nat \<Rightarrow> share_opts \<Rightarrow> 'w hub \<Rightarrow> 'w hub" where
  "share_start src sid token now opts hub =
     (let sh = new_share src sid token now opts (hb_world hub) in
      (put_share sid (sh, so_bind src (hb_world hub)) hub)\<lparr>hb_listed := (hb_listed hub)(sid := True)\<rparr>)"

definition share_stop :: "string \<Rightarrow> 'w hub \<Rightarrow> 'w hub" where
  "share_stop sid hub = (case hub_share sid hub of
     None \<Rightarrow> hub
   | Some sh \<Rightarrow> (put_share sid (end_all ''host stopped sharing'' sh, hb_world hub) hub)
                 \<lparr>hb_listed := (hb_listed hub)(sid := False)\<rparr>)"

definition share_kick :: "'w source \<Rightarrow> string \<Rightarrow> nat \<Rightarrow> 'w hub \<Rightarrow> bool \<times> 'w hub" where
  "share_kick src sid vid hub = (case hub_share sid hub of
     None \<Rightarrow> (False, hub)
   | Some sh \<Rightarrow> (case kick src vid sh (hb_world hub) of (removed, shw) \<Rightarrow> (removed, put_share sid shw hub)))"

definition hub_set_access :: "'w source \<Rightarrow> string \<Rightarrow> nat \<Rightarrow> access \<Rightarrow> 'w hub \<Rightarrow> (string + unit) \<times> 'w hub" where
  "hub_set_access src sid vid access hub = (case hub_share sid hub of
     None \<Rightarrow> (Inl (''unknown share '' @ sid), hub)
   | Some sh \<Rightarrow>
       (case set_viewer_access src vid access sh (hb_world hub) of (changed, shw) \<Rightarrow>
          (if changed then Inr () else Inl (''no viewer '' @ show_nat vid @ '' connected to share '' @ sid),
           put_share sid shw hub)))"

section \<open>A knock on the door\<close>

text \<open>What becomes of a connection: closed without a frame, refused with one \<open>End\<close>, or admitted.\<close>

datatype join_outcome = Closed string | Refused host_msg | Joined nat

definition handle_incoming ::
  "(string \<Rightarrow> 'w source) \<Rightarrow> nat \<Rightarrow> client_msg \<Rightarrow> 'w hub \<Rightarrow> join_outcome \<times> 'w hub" where
  "handle_incoming srcs now first hub = (case first of
     Hello name proto sid token \<Rightarrow>
       (let effective = negotiate proto in
        case hub_share sid hub of
          None \<Rightarrow> (Closed (''unknown share '' @ sid), hub)
        | Some sh \<Rightarrow>
            if sh_token sh \<noteq> token then (Closed (''bad token for share '' @ sid), hub)
            else if join_window_closed now sh then (Refused (End ''ticket expired''), hub)
            else if effective < tab_type_min_proto sh
            then (Refused (End ''this share needs a newer Tabverse''), hub)
            else
              let vid = hb_next_viewer hub;
                  hub1 = hub\<lparr>hb_next_viewer := vid + 1\<rparr>;
                  src = srcs sid
              in case admit vid effective name (so_history src (hb_world hub)) sh of
                   None \<Rightarrow> (Refused (End ''host stopped sharing''), hub1)
                 | Some sh1 \<Rightarrow>
                     (case presence src sh1 (hb_world hub) of (sh2, w2) \<Rightarrow>
                        (Joined vid, put_share sid (so_request_snapshot src vid sh2 w2) hub1)))
   | _ \<Rightarrow> (Closed ''first frame was not Hello'', hub))"

section \<open>The hub as a transition system\<close>

text \<open>Everything that can happen to a hub: a share is started (under a fresh id), somebody knocks, a
  connected viewer's frame arrives or its connection ends, the host kicks, regrades or stops,
  and a tab does anything a tab may do to its share.\<close>

inductive hub_step :: "(string \<Rightarrow> 'w source) \<Rightarrow> (string \<Rightarrow> bytes option) \<Rightarrow> 'w hub \<Rightarrow> 'w hub \<Rightarrow> bool"
  for srcs b64dec where
  hs_start: "hb_shares hub sid = None \<Longrightarrow>
    hub_step srcs b64dec hub (share_start (srcs sid) sid token now opts hub)"
| hs_knock: "hub_step srcs b64dec hub (snd (handle_incoming srcs now msg hub))"
| hs_frame: "hb_shares hub sid = Some sh \<Longrightarrow>
    hub_step srcs b64dec hub (put_share sid (snd (handle_frame (srcs sid) b64dec vid msg sh (hb_world hub))) hub)"
| hs_leave: "hb_shares hub sid = Some sh \<Longrightarrow>
    hub_step srcs b64dec hub (put_share sid (leave (srcs sid) vid sh (hb_world hub)) hub)"
| hs_kick: "hub_step srcs b64dec hub (snd (share_kick (srcs sid) sid vid hub))"
| hs_access: "hub_step srcs b64dec hub (snd (hub_set_access (srcs sid) sid vid access hub))"
| hs_stop: "hub_step srcs b64dec hub (share_stop sid hub)"
| hs_tab: "hb_shares hub sid = Some sh \<Longrightarrow> running_step\<^sup>*\<^sup>* sh sh' \<Longrightarrow>
    hub_step srcs b64dec hub (put_share sid (sh', w') hub)"

definition hub_inv :: "'w hub \<Rightarrow> bool" where
  "hub_inv hub \<longleftrightarrow> (\<forall>sid sh. hb_shares hub sid = Some sh \<longrightarrow>
     share_inv sh \<and> (hb_listed hub sid \<or> sh_stopped sh)
     \<and> (\<forall>i \<ge> hb_next_viewer hub. find_viewer i sh = None \<and> sh_sent sh i = []))"

lemma hub_invD:
  assumes "hub_inv hub" "hb_shares hub sid = Some sh"
  shows "share_inv sh" "hb_listed hub sid \<or> sh_stopped sh"
    "hb_next_viewer hub \<le> i \<Longrightarrow> find_viewer i sh = None \<and> sh_sent sh i = []"
  using assms unfolding hub_inv_def by blast+

text \<open>Replacing a share by one it runs on to.\<close>

lemma inv_put:
  assumes "hub_inv hub" "hb_shares hub sid = Some sh" "running_step\<^sup>*\<^sup>* sh sh'"
  shows "hub_inv (put_share sid (sh', w') hub)"
proof -
  from running_steps_keep [OF assms(3)] have k: "sh_stopped sh' = sh_stopped sh"
    "\<And>i. find_viewer i sh = None \<Longrightarrow> find_viewer i sh' = None \<and> sh_sent sh' i = sh_sent sh i"
    by (auto simp: keeps_def)
  with hub_invD [OF assms(1,2)] running_steps_inv [OF assms(3)] assms(1) show ?thesis
    by (auto simp: hub_inv_def put_share_def)
qed

lemma inv_put':
  assumes "hub_inv hub" "hb_shares hub sid = Some sh" "running_step\<^sup>*\<^sup>* sh (fst shw)"
  shows "hub_inv (put_share sid shw hub)"
  using inv_put [OF assms(1,2), of "fst shw" "snd shw"] assms(3) by simp

lemma hub_share_Some: "hub_share sid hub = Some sh \<longleftrightarrow> hb_listed hub sid \<and> hb_shares hub sid = Some sh"
  by (simp add: hub_share_def)

lemma share_inv_new: "share_inv (new_share src sid token now opts w)"
  by (simp add: share_inv_def new_share_def find_viewer_def departed_ok_def)

text \<open>What any step keeps of a share: it is never forgotten, it stays stopped, and nobody who is not
  connected to it is connected again or sent anything.\<close>

definition hub_keeps :: "string \<Rightarrow> share \<Rightarrow> 'w hub \<Rightarrow> 'w hub \<Rightarrow> bool" where
  "hub_keeps sid sh hub hub' \<longleftrightarrow> hb_next_viewer hub \<le> hb_next_viewer hub'
     \<and> (\<exists>sh'. hb_shares hub' sid = Some sh' \<and> (sh_stopped sh \<longrightarrow> sh_stopped sh')
          \<and> (\<forall>i < hb_next_viewer hub. find_viewer i sh = None \<longrightarrow>
               find_viewer i sh' = None \<and> sh_sent sh' i = sh_sent sh i))"

lemma put_keeps:
  assumes "hb_shares hub sid = Some sh" "hb_shares hub sid' = Some sh'" "keeps sh' (fst shw)"
  shows "hub_keeps sid sh hub (put_share sid' shw hub)"
  using assms by (auto simp: hub_keeps_def put_share_def keeps_def)

locale hub_sources =
  fixes srcs :: "string \<Rightarrow> 'w source"
  assumes sources: "share_source (srcs sid)"
begin

lemma admit_hub_inv:
  assumes inv: "hub_inv hub" and sh: "hub_share sid hub = Some sh"
    and ver: "tab_type_min_proto sh \<le> p" and adm: "admit (hb_next_viewer hub) p name hist sh = Some sh1"
    and steps: "running_step\<^sup>*\<^sup>* sh1 sh2"
  shows "hub_inv (put_share sid (sh2, w2) (hub\<lparr>hb_next_viewer := hb_next_viewer hub + 1\<rparr>))"
proof -
  let ?n = "hb_next_viewer hub"
  from sh have s: "hb_shares hub sid = Some sh" "hb_listed hub sid" by (simp_all add: hub_share_Some)
  have fresh: "find_viewer ?n sh = None" "sh_sent sh ?n = []"
    using hub_invD(3) [OF inv s(1), of ?n] by simp_all
  have i1: "share_inv sh1" by (rule inv_admit [OF hub_invD(1) [OF inv s(1)] fresh(2,1) ver adm])
  have new: "find_viewer i sh1 = None \<and> sh_sent sh1 i = []" if "?n + 1 \<le> i" for i
    using adm hub_invD(3) [OF inv s(1), of i] that
    by (auto simp: admit_def Let_def find_viewer_def map_add_def split: if_splits)
  from running_steps_keep [OF steps] new have "find_viewer i sh2 = None \<and> sh_sent sh2 i = []" if "?n + 1 \<le> i" for i
    using that by (auto simp: keeps_def)
  with running_steps_inv [OF steps i1] s inv show ?thesis
    by (auto simp: hub_inv_def put_share_def)
qed

lemma knock_inv: "hub_inv hub \<Longrightarrow> hub_inv (snd (handle_incoming srcs now msg hub))"
proof (cases msg)
  case (Hello name proto sid token)
  assume inv: "hub_inv hub"
  have bump: "hub_inv (hub\<lparr>hb_next_viewer := hb_next_viewer hub + 1\<rparr>)"
    using inv by (auto simp: hub_inv_def)
  show ?thesis
  proof (cases "hub_share sid hub")
    case None
    with inv Hello show ?thesis by (simp add: handle_incoming_def Let_def)
  next
    case (Some sh)
    let ?hist = "so_history (srcs sid) (hb_world hub)"
    show ?thesis
    proof (cases "sh_token sh \<noteq> token \<or> join_window_closed now sh \<or> negotiate proto < tab_type_min_proto sh")
      case True
      with inv Hello Some show ?thesis by (auto simp: handle_incoming_def Let_def)
    next
      case ok: False
      show ?thesis
      proof (cases "admit (hb_next_viewer hub) (negotiate proto) name ?hist sh")
        case None
        with bump Hello Some ok show ?thesis by (simp add: handle_incoming_def Let_def)
      next
        case adm: (Some sh1)
        obtain sh2 w2 where p: "presence (srcs sid) sh1 (hb_world hub) = (sh2, w2)" by fastforce
        obtain sh3 w3 where q: "so_request_snapshot (srcs sid) (hb_next_viewer hub) sh2 w2 = (sh3, w3)"
          by fastforce
        have "running_step\<^sup>*\<^sup>* sh1 sh2" using share_source.presence_steps [OF sources [of sid], of sh1 "hb_world hub"] p by simp
        moreover have "running_step\<^sup>*\<^sup>* sh2 sh3"
          using share_source.request_steps [OF sources [of sid], of sh2 "hb_next_viewer hub" w2] q by simp
        ultimately have "running_step\<^sup>*\<^sup>* sh1 sh3" by (rule rtranclp_trans)
        from admit_hub_inv [OF inv Some _ adm this] ok Hello Some adm p q show ?thesis
          by (simp add: handle_incoming_def Let_def)
      qed
    qed
  qed
qed (simp_all add: handle_incoming_def)

lemma hub_step_inv: "hub_step srcs b64dec hub hub' \<Longrightarrow> hub_inv hub \<Longrightarrow> hub_inv hub'"
proof (induction rule: hub_step.induct)
  case (hs_start hub sid token now opts)
  then show ?case
    by (auto simp: hub_inv_def share_start_def put_share_def Let_def share_inv_new)
       (auto simp: new_share_def find_viewer_def)
next
  case (hs_knock hub now msg)
  then show ?case by (rule knock_inv)
next
  case (hs_frame hub sid sh vid msg)
  from inv_put' [OF hs_frame(2,1) share_source.handle_frame_steps [OF sources]] show ?case .
next
  case (hs_leave hub sid sh vid)
  from inv_put' [OF hs_leave(2,1) share_source.leave_steps [OF sources]] show ?case .
next
  case (hs_kick hub sid vid)
  show ?case
  proof (cases "hub_share sid hub")
    case (Some sh)
    then have "hb_shares hub sid = Some sh" by (simp add: hub_share_Some)
    from inv_put' [OF hs_kick this share_source.kick_steps [OF sources [of sid], of sh vid "hb_world hub"]] Some
    show ?thesis by (cases "kick (srcs sid) vid sh (hb_world hub)") (simp add: share_kick_def)
  qed (simp add: share_kick_def hs_kick)
next
  case (hs_access hub sid vid access)
  show ?case
  proof (cases "hub_share sid hub")
    case (Some sh)
    then have "hb_shares hub sid = Some sh" by (simp add: hub_share_Some)
    from inv_put' [OF hs_access this
        share_source.set_viewer_access_steps [OF sources [of sid], of sh vid access "hb_world hub"]] Some
    show ?thesis
      by (cases "set_viewer_access (srcs sid) vid access sh (hb_world hub)") (simp add: hub_set_access_def)
  qed (simp add: hub_set_access_def hs_access)
next
  case (hs_stop hub sid)
  show ?case
  proof (cases "hub_share sid hub")
    case (Some sh)
    then have s: "hb_shares hub sid = Some sh" by (simp add: hub_share_Some)
    have "find_viewer i (end_all r sh) = None" for i r
      by (simp add: end_all_def find_viewer_def)
    moreover have "sh_sent (end_all r sh) i = []" if "hb_next_viewer hub \<le> i" for i r
      using hub_invD(3) [OF hs_stop s that] by (simp add: end_all_def)
    moreover have "sh_stopped (end_all r sh)" for r by (simp add: end_all_def)
    ultimately show ?thesis
      using Some hs_stop inv_end [OF hub_invD(1) [OF hs_stop s]]
      by (auto simp: share_stop_def hub_inv_def put_share_def)
  qed (simp add: share_stop_def hs_stop)
next
  case (hs_tab hub sid sh sh' w')
  from inv_put [OF hs_tab(3,1,2)] show ?case .
qed

lemma hub_step_keeps:
  assumes "hub_step srcs b64dec hub hub'" "hub_inv hub" "hb_shares hub sid = Some sh"
  shows "hub_keeps sid sh hub hub'"
  using assms
proof (induction rule: hub_step.induct)
  case (hs_start hub sid' token now opts)
  then show ?case by (auto simp: hub_keeps_def share_start_def put_share_def Let_def)
next
  case (hs_knock hub now msg)
  show ?case
  proof (cases msg)
    case (Hello name proto sid' token)
    let ?hist = "so_history (srcs sid') (hb_world hub)"
    show ?thesis
    proof (cases "\<exists>sh0 sh1. hub_share sid' hub = Some sh0 \<and> sh_token sh0 = token \<and> \<not> join_window_closed now sh0
        \<and> tab_type_min_proto sh0 \<le> negotiate proto
        \<and> admit (hb_next_viewer hub) (negotiate proto) name ?hist sh0 = Some sh1")
      case False
      then have "hb_shares (snd (handle_incoming srcs now msg hub)) = hb_shares hub
        \<and> hb_listed (snd (handle_incoming srcs now msg hub)) = hb_listed hub
        \<and> hb_next_viewer hub \<le> hb_next_viewer (snd (handle_incoming srcs now msg hub))"
        by (auto simp: handle_incoming_def Hello Let_def not_less split: option.splits)
      then show ?thesis using hs_knock by (simp add: hub_keeps_def)
    next
      case True
      then obtain sh0 sh1 where j: "hub_share sid' hub = Some sh0" "sh_token sh0 = token"
        "\<not> join_window_closed now sh0" "tab_type_min_proto sh0 \<le> negotiate proto"
        "admit (hb_next_viewer hub) (negotiate proto) name ?hist sh0 = Some sh1" by blast
      obtain sh2 w2 where p: "presence (srcs sid') sh1 (hb_world hub) = (sh2, w2)" by fastforce
      obtain sh3 w3 where q: "so_request_snapshot (srcs sid') (hb_next_viewer hub) sh2 w2 = (sh3, w3)"
        by fastforce
      have "keeps sh1 sh2" using running_steps_keep share_source.presence_steps [OF sources [of sid'], of sh1 "hb_world hub"] p
        by (metis fst_conv)
      moreover have "keeps sh2 sh3"
        using running_steps_keep share_source.request_steps [OF sources [of sid'], of sh2 "hb_next_viewer hub" w2] q
        by (metis fst_conv)
      ultimately have k: "keeps sh1 sh3" by (rule keeps_trans)
      have a: "sh_stopped sh1 = False" "sh_stopped sh0 = False"
        "\<And>i. i < hb_next_viewer hub \<Longrightarrow> find_viewer i sh0 = None \<Longrightarrow> find_viewer i sh1 = None \<and> sh_sent sh1 i = sh_sent sh0 i"
        using j(5) by (auto simp: admit_def Let_def find_viewer_def map_add_def split: if_splits)
      have "snd (handle_incoming srcs now msg hub) =
          put_share sid' (sh3, w3) (hub\<lparr>hb_next_viewer := hb_next_viewer hub + 1\<rparr>)"
        using j p q by (simp add: handle_incoming_def Hello Let_def)
      then show ?thesis using hs_knock(2) j(1) a k
        by (auto simp: hub_keeps_def put_share_def hub_share_Some keeps_def)
    qed
  qed (use hs_knock in \<open>simp_all add: handle_incoming_def hub_keeps_def\<close>)
next
  case (hs_frame hub sid' sh' vid msg)
  from put_keeps [OF hs_frame(3,1) running_steps_keep [OF share_source.handle_frame_steps [OF sources]]]
  show ?case .
next
  case (hs_leave hub sid' sh' vid)
  from put_keeps [OF hs_leave(3,1) running_steps_keep [OF share_source.leave_steps [OF sources]]]
  show ?case .
next
  case (hs_kick hub sid' vid)
  show ?case
  proof (cases "hub_share sid' hub")
    case (Some sh')
    then have "hb_shares hub sid' = Some sh'" by (simp add: hub_share_Some)
    from put_keeps [OF hs_kick(2) this running_steps_keep
        [OF share_source.kick_steps [OF sources [of sid'], of sh' vid "hb_world hub"]]] Some
    show ?thesis by (cases "kick (srcs sid') vid sh' (hb_world hub)") (simp add: share_kick_def)
  qed (use hs_kick in \<open>simp add: share_kick_def hub_keeps_def\<close>)
next
  case (hs_access hub sid' vid access)
  show ?case
  proof (cases "hub_share sid' hub")
    case (Some sh')
    then have "hb_shares hub sid' = Some sh'" by (simp add: hub_share_Some)
    from put_keeps [OF hs_access(2) this running_steps_keep
        [OF share_source.set_viewer_access_steps [OF sources [of sid'], of sh' vid access "hb_world hub"]]] Some
    show ?thesis
      by (cases "set_viewer_access (srcs sid') vid access sh' (hb_world hub)") (simp add: hub_set_access_def)
  qed (use hs_access in \<open>simp add: hub_set_access_def hub_keeps_def\<close>)
next
  case (hs_stop hub sid')
  then show ?case
    by (auto simp: share_stop_def hub_keeps_def put_share_def hub_share_Some split: option.splits)
       (auto simp: end_all_def find_viewer_def)
next
  case (hs_tab hub sid' sh' sh'' w')
  from put_keeps [OF hs_tab(4,1), of "(sh'', w')"] running_steps_keep [OF hs_tab(2)] show ?case by simp
qed

lemma reachable_inv: "(hub_step srcs b64dec)\<^sup>*\<^sup>* (hub_new w) hub \<Longrightarrow> hub_inv hub"
proof (induction rule: rtranclp_induct)
  case base
  show ?case by (simp add: hub_inv_def hub_new_def)
next
  case (step hub hub')
  then show ?case by (blast intro: hub_step_inv)
qed

lemma hub_steps_keep:
  assumes "(hub_step srcs b64dec)\<^sup>*\<^sup>* hub hub'" "hub_inv hub" "hb_shares hub sid = Some sh"
  shows "hub_keeps sid sh hub hub' \<and> hub_inv hub'"
  using assms(1)
proof (induction rule: rtranclp_induct)
  case base
  show ?case using assms by (simp add: hub_keeps_def)
next
  case (step hub1 hub2)
  then obtain sh1 where s1: "hb_shares hub1 sid = Some sh1" "sh_stopped sh \<longrightarrow> sh_stopped sh1"
    "\<And>i. i < hb_next_viewer hub \<Longrightarrow> find_viewer i sh = None \<Longrightarrow> find_viewer i sh1 = None \<and> sh_sent sh1 i = sh_sent sh i"
    "hb_next_viewer hub \<le> hb_next_viewer hub1"
    by (auto simp: hub_keeps_def)
  with hub_step_keeps [OF step(2) _ s1(1)] step(3) have "hub_keeps sid sh1 hub1 hub2" by blast
  with s1 step(2,3) show ?case by (fastforce simp: hub_keeps_def intro: hub_step_inv)
qed

end

end
