(* ===== verification/Remote_Sources.thy ===== *)
theory Remote_Sources
  imports Remote_Hub
begin

text \<open>
  The tabs behind shares: the terminal adapter with its ordered dispatch bridge
  (\<open>source/terminal.rs\<close>, \<open>bridge.rs\<close> of \<open>crates/tabverse-remote\<close>), the agent adapter
  (\<open>source/agent.rs\<close>) and the registry (\<open>source/mod.rs\<close>). The closures the app's glue injects are
  records of functions over a world. One share fronts a terminal at a time.
\<close>

section \<open>The terminal\<close>

text \<open>What the app's glue hands in: the local view (which may answer a snapshot request on the spot or
  later), the PTY, the viewport announcement and the presence callback.\<close>

record 'w terminal_hooks =
  th_data :: "bytes \<Rightarrow> 'w \<Rightarrow> 'w"
  th_exit :: "int option \<Rightarrow> 'w \<Rightarrow> 'w"
  th_snapshot_request :: "nat \<Rightarrow> 'w \<Rightarrow> (string \<times> u16 \<times> u16) option \<times> 'w"
  th_write_pty :: "bytes \<Rightarrow> 'w \<Rightarrow> 'w"
  th_emit_viewport :: "viewport option \<Rightarrow> 'w \<Rightarrow> 'w"
  th_on_presence :: "viewer_info list \<Rightarrow> 'w \<Rightarrow> 'w"

text \<open>The adapter with its bridge: whether a share is attached, the grid, the world outside.\<close>

record 'w term_state =
  ts_attached :: bool
  ts_grid :: viewport
  ts_world :: 'w

definition set_grid :: "viewport \<Rightarrow> 'w term_state \<Rightarrow> 'w term_state" where
  "set_grid grid st = st\<lparr>ts_grid := grid\<rparr>"

definition attach_share :: "'w term_state \<Rightarrow> 'w term_state" where
  "attach_share st = st\<lparr>ts_attached := True\<rparr>"

definition detach_share :: "'w term_state \<Rightarrow> 'w term_state" where
  "detach_share st = st\<lparr>ts_attached := False\<rparr>"

text \<open>\<open>SessionBridge\<close>, each operation under its lock.\<close>

definition inject_snapshot_request ::
  "'w terminal_hooks \<Rightarrow> nat \<Rightarrow> share \<Rightarrow> 'w term_state \<Rightarrow> share \<times> 'w term_state" where
  "inject_snapshot_request hooks vid sh st =
     (if ts_attached st then
        let sh1 = begin_buffering vid sh in
        (case th_snapshot_request hooks vid (ts_world st) of
           (None, w1) \<Rightarrow> (sh1, st\<lparr>ts_world := w1\<rparr>)
         | (Some (b64, cols, rows), w1) \<Rightarrow> (snapshot_ready vid b64 cols rows sh1, st\<lparr>ts_world := w1\<rparr>))
      else (sh, st))"

fun terminal_inject :: "'w terminal_hooks \<Rightarrow> input_payload \<Rightarrow> 'w term_state \<Rightarrow> (string + input_outcome) \<times> 'w term_state" where
  "terminal_inject hooks (Bytes bs) st =
     (Inr Applied, st\<lparr>ts_world := th_write_pty hooks bs (ts_world st)\<rparr>)"
| "terminal_inject hooks (PPrompt _) st = (Inl ''a terminal source cannot take agent input'', st)"
| "terminal_inject hooks (PAnswer _ _ _) st = (Inl ''a terminal source cannot take agent input'', st)"
| "terminal_inject hooks PCancel st = (Inl ''a terminal source cannot take agent input'', st)"
| "terminal_inject hooks (PRpc _ _ _) st = (Inl ''a terminal source cannot take app-share input'', st)"
| "terminal_inject hooks (PAction _ _) st = (Inl ''a terminal source cannot take app-share input'', st)"
| "terminal_inject hooks (PClip _) st = (Inl ''a terminal source cannot take app-share input'', st)"

definition terminal_source :: "'w terminal_hooks \<Rightarrow> 'w term_state source" where
  "terminal_source hooks = \<lparr>
     so_kind = TerminalTab,
     so_grid = (\<lambda>st. Some (ts_grid st)),
     so_request_snapshot = inject_snapshot_request hooks,
     so_history = (\<lambda>_. []),
     so_inject = (\<lambda>vid access payload sh st.
       case terminal_inject hooks payload st of (r, st1) \<Rightarrow> (r, sh, st1)),
     so_apply_viewport = (\<lambda>joint st. st\<lparr>ts_world := th_emit_viewport hooks joint (ts_world st)\<rparr>),
     so_bind = attach_share,
     so_unbind = detach_share,
     so_on_presence = (\<lambda>r st. st\<lparr>ts_world := th_on_presence hooks r (ts_world st)\<rparr>)\<rparr>"

definition dispatch_data ::
  "'w terminal_hooks \<Rightarrow> (bytes \<Rightarrow> string) \<Rightarrow> bytes \<Rightarrow> share \<times> 'w term_state \<Rightarrow> share \<times> 'w term_state" where
  "dispatch_data hooks b64 bs sst = (case sst of (sh, st) \<Rightarrow>
     let st1 = st\<lparr>ts_world := th_data hooks bs (ts_world st)\<rparr> in
     if ts_attached st then broadcast_output (terminal_source hooks) b64 bs sh st1 else (sh, st1))"

definition dispatch_resize ::
  "'w terminal_hooks \<Rightarrow> u16 \<Rightarrow> u16 \<Rightarrow> share \<times> 'w term_state \<Rightarrow> share \<times> 'w term_state" where
  "dispatch_resize hooks cols rows sst = (case sst of (sh, st) \<Rightarrow>
     if ts_attached st then broadcast_resize (terminal_source hooks) cols rows sh st else (sh, st))"

text \<open>The shell exited: the local view first, then the share, which is taken off and stopped.\<close>

definition dispatch_exit ::
  "'w terminal_hooks \<Rightarrow> int option \<Rightarrow> share \<times> 'w term_state \<Rightarrow> share \<times> 'w term_state" where
  "dispatch_exit hooks code sst = (case sst of (sh, st) \<Rightarrow>
     let st1 = st\<lparr>ts_world := th_exit hooks code (ts_world st)\<rparr> in
     if ts_attached st then (end_all ''host stopped sharing'' sh, detach_share st1) else (sh, st1))"

section \<open>The agent\<close>

record 'w agent_hooks =
  ah_prompt :: "string \<Rightarrow> 'w \<Rightarrow> 'w"
  ah_answer :: "string \<Rightarrow> bool \<Rightarrow> string option \<Rightarrow> 'w \<Rightarrow> bool \<times> 'w"
  ah_cancel :: "'w \<Rightarrow> 'w"
  ah_history :: "'w \<Rightarrow> json list"
  ah_set_broadcast :: "bool \<Rightarrow> 'w \<Rightarrow> 'w"
  ah_on_presence :: "viewer_info list \<Rightarrow> 'w \<Rightarrow> 'w"

fun agent_inject :: "'w agent_hooks \<Rightarrow> input_payload \<Rightarrow> 'w \<Rightarrow> (string + input_outcome) \<times> 'w" where
  "agent_inject hooks (Bytes _) w = (Inl ''an agent source cannot take raw terminal bytes'', w)"
| "agent_inject hooks (PPrompt t) w = (Inr Applied, ah_prompt hooks t w)"
| "agent_inject hooks (PAnswer cid allow reason) w =
     (case ah_answer hooks cid allow reason w of (won, w1) \<Rightarrow> (Inr (if won then Applied else Raced), w1))"
| "agent_inject hooks PCancel w = (Inr Applied, ah_cancel hooks w)"
| "agent_inject hooks (PRpc _ _ _) w = (Inl ''an agent source cannot take app-share input'', w)"
| "agent_inject hooks (PAction _ _) w = (Inl ''an agent source cannot take app-share input'', w)"
| "agent_inject hooks (PClip _) w = (Inl ''an agent source cannot take app-share input'', w)"

definition agent_source :: "'w agent_hooks \<Rightarrow> 'w source" where
  "agent_source hooks = \<lparr>
     so_kind = AgentTab,
     so_grid = (\<lambda>_. None),
     so_request_snapshot = (\<lambda>_ sh w. (sh, w)),
     so_history = ah_history hooks,
     so_inject = (\<lambda>vid access payload sh w. case agent_inject hooks payload w of (r, w1) \<Rightarrow> (r, sh, w1)),
     so_apply_viewport = (\<lambda>_ w. w),
     so_bind = ah_set_broadcast hooks True,
     so_unbind = ah_set_broadcast hooks False,
     so_on_presence = ah_on_presence hooks\<rparr>"

section \<open>Both keep to the interface\<close>

lemma inject_snapshot_request_steps:
  "running_step\<^sup>*\<^sup>* sh (fst (inject_snapshot_request hooks vid sh st))"
proof -
  have one: "running_step\<^sup>*\<^sup>* sh (begin_buffering vid sh)" by (intro r_into_rtranclp st_buffering)
  then have "running_step\<^sup>*\<^sup>* sh (snapshot_ready vid b c r (begin_buffering vid sh))" for b c r
    by (rule rtranclp.rtrancl_into_rtrancl) (rule st_ready)
  with one show ?thesis
    by (auto simp: inject_snapshot_request_def Let_def split: prod.splits option.splits)
qed

interpretation terminal: share_source "terminal_source hooks" for hooks :: "'w terminal_hooks"
  by unfold_locales
     (simp_all add: terminal_source_def inject_snapshot_request_steps split: prod.splits)

interpretation agent: share_source "agent_source hooks" for hooks :: "'w agent_hooks"
  by unfold_locales (simp_all add: agent_source_def split: prod.splits)

text \<open>A tab that lives in a part of a larger world.\<close>

definition via :: "('a \<Rightarrow> 'b) \<Rightarrow> ('b \<Rightarrow> 'a \<Rightarrow> 'a) \<Rightarrow> 'b source \<Rightarrow> 'a source" where
  "via look put src = \<lparr>
     so_kind = so_kind src,
     so_grid = (\<lambda>a. so_grid src (look a)),
     so_request_snapshot = (\<lambda>vid sh a. case so_request_snapshot src vid sh (look a) of (sh1, b) \<Rightarrow> (sh1, put b a)),
     so_history = (\<lambda>a. so_history src (look a)),
     so_inject = (\<lambda>vid access payload sh a.
       case so_inject src vid access payload sh (look a) of (r, sh1, b) \<Rightarrow> (r, sh1, put b a)),
     so_apply_viewport = (\<lambda>joint a. put (so_apply_viewport src joint (look a)) a),
     so_bind = (\<lambda>a. put (so_bind src (look a)) a),
     so_unbind = (\<lambda>a. put (so_unbind src (look a)) a),
     so_on_presence = (\<lambda>r a. put (so_on_presence src r (look a)) a)\<rparr>"

lemma share_source_via:
  assumes "share_source src"
  shows "share_source (via look put src)"
proof
  fix sh vid a access payload
  show "running_step\<^sup>*\<^sup>* sh (fst (so_request_snapshot (via look put src) vid sh a))"
    using share_source.request_steps [OF assms, of sh vid "look a"]
    by (cases "so_request_snapshot src vid sh (look a)") (simp add: via_def)
  show "running_step\<^sup>*\<^sup>* sh (fst (snd (so_inject (via look put src) vid access payload sh a)))"
    using share_source.inject_steps [OF assms, of sh vid access payload "look a"]
    by (cases "so_inject src vid access payload sh (look a)") (simp add: via_def)
qed

text \<open>The tabs of an app: each share id fronts a terminal or an agent.\<close>

record 'w app_world =
  aw_terms :: "string \<Rightarrow> 'w term_state"
  aw_agents :: "string \<Rightarrow> 'w"

definition app_source ::
  "(string \<Rightarrow> 'w terminal_hooks + 'w agent_hooks) \<Rightarrow> string \<Rightarrow> 'w app_world source" where
  "app_source tabs sid = (case tabs sid of
     Inl hooks \<Rightarrow> via (\<lambda>a. aw_terms a sid) (\<lambda>st a. a\<lparr>aw_terms := (aw_terms a)(sid := st)\<rparr>) (terminal_source hooks)
   | Inr hooks \<Rightarrow> via (\<lambda>a. aw_agents a sid) (\<lambda>w a. a\<lparr>aw_agents := (aw_agents a)(sid := w)\<rparr>) (agent_source hooks))"

interpretation app: hub_sources "app_source tabs" for tabs :: "string \<Rightarrow> 'w terminal_hooks + 'w agent_hooks"
  by (intro hub_sources.intro)
     (auto simp: app_source_def split: sum.splits
       intro: share_source_via terminal.share_source_axioms agent.share_source_axioms)

section \<open>The registry\<close>

definition register :: "string \<Rightarrow> 'w source \<Rightarrow> (string \<Rightarrow> 'w source option) \<Rightarrow> string \<Rightarrow> 'w source option" where
  "register tab_id source entries = entries(tab_id := Some source)"

definition unregister ::
  "string \<Rightarrow> (string \<Rightarrow> 'w source option) \<Rightarrow> 'w source option \<times> (string \<Rightarrow> 'w source option)" where
  "unregister tab_id entries = (entries tab_id, entries(tab_id := None))"

section \<open>A hub to evaluate\<close>

text \<open>One terminal whose view answers snapshots later, and whose world records the last viewport it
  was told.\<close>

definition demo_hooks :: "viewport option terminal_hooks" where
  "demo_hooks = \<lparr>th_data = (\<lambda>_ w. w), th_exit = (\<lambda>_ w. w), th_snapshot_request = (\<lambda>_ w. (None, w)),
     th_write_pty = (\<lambda>_ w. w), th_emit_viewport = (\<lambda>joint _. joint), th_on_presence = (\<lambda>_ w. w)\<rparr>"

definition demo_tabs :: "string \<Rightarrow> viewport option terminal_hooks + viewport option agent_hooks" where
  "demo_tabs sid = Inl demo_hooks"

definition demo_world :: "viewport option app_world" where
  "demo_world = \<lparr>aw_terms = (\<lambda>_. \<lparr>ts_attached = False, ts_grid = \<lparr>vp_cols = 80, vp_rows = 24\<rparr>, ts_world = None\<rparr>),
     aw_agents = (\<lambda>_. None)\<rparr>"

definition demo_opts :: share_opts where
  "demo_opts = \<lparr>op_title = ''zsh'', op_ttl = None, op_access = View\<rparr>"

definition demo_hub1 :: "viewport option app_world hub" where
  "demo_hub1 = share_start (app_source demo_tabs ''s'') ''s'' ''t'' 0 demo_opts (hub_new demo_world)"

definition demo_hub2 :: "viewport option app_world hub" where
  "demo_hub2 = snd (handle_incoming (app_source demo_tabs) 5 (Hello ''Ada'' 1 ''s'' ''t'') demo_hub1)"

lemma demo_reach:
  "(hub_step (app_source demo_tabs) b64dec)\<^sup>*\<^sup>* (hub_new demo_world) demo_hub1"
  "(hub_step (app_source demo_tabs) b64dec)\<^sup>*\<^sup>* (hub_new demo_world) demo_hub2"
proof -
  have "hub_step (app_source demo_tabs) b64dec (hub_new demo_world) demo_hub1"
    unfolding demo_hub1_def by (rule hs_start) (simp add: hub_new_def)
  then show one: "(hub_step (app_source demo_tabs) b64dec)\<^sup>*\<^sup>* (hub_new demo_world) demo_hub1" by simp
  have "hub_step (app_source demo_tabs) b64dec demo_hub1 demo_hub2"
    unfolding demo_hub2_def by (rule hs_knock)
  with one show "(hub_step (app_source demo_tabs) b64dec)\<^sup>*\<^sup>* (hub_new demo_world) demo_hub2"
    by (rule rtranclp.rtrancl_into_rtrancl)
qed

lemmas demo_defs = demo_hub1_def demo_hub2_def demo_opts_def demo_world_def demo_tabs_def demo_hooks_def
  share_start_def new_share_def put_share_def hub_new_def app_source_def via_def terminal_source_def
  attach_share_def handle_incoming_def hub_share_def negotiate_def REMOTE_PROTO_V1_def
  REMOTE_PROTO_VERSION_def join_window_closed_def tab_type_min_proto_def admit_def mode_for_def
  presence_def presence_fan_def inject_snapshot_request_def begin_buffering_def update_viewer_def
  find_viewer_def roster_def MAX_PENDING_FRAMES_def

text \<open>A terminal's viewer is told it is welcome and what it may do; the count that its own arrival
  announced was queued for it, and went with the queue when the snapshot was asked for.\<close>

lemma joiner_misses_own_presence:
  "\<exists>sh v. hb_shares demo_hub2 ''s'' = Some sh \<and> find_viewer 0 sh = Some v \<and> vw_state v = Buffering []
     \<and> sh_sent sh 0 = [Welcome 1 ''zsh'' 80 24 None, Mode True None]"
  by (simp add: demo_defs Let_def)

section \<open>What a viewer is sent\<close>



text \<open>a viewer that left, was kicked, fell behind or whose share was stopped is out for good: in
  every later state of the hub it is not connected and its channel holds what it held.\<close>

theorem departed_for_good:
  assumes "(hub_step (app_source tabs) b64dec)\<^sup>*\<^sup>* (hub_new w) hub" "hb_shares hub sid = Some sh"
    and "i < hb_next_viewer hub" "find_viewer i sh = None"
    and "(hub_step (app_source tabs) b64dec)\<^sup>*\<^sup>* hub hub'"
  shows "\<exists>sh'. hb_shares hub' sid = Some sh' \<and> find_viewer i sh' = None \<and> sh_sent sh' i = sh_sent sh i"
  using app.hub_steps_keep [OF assms(5) app.reachable_inv [OF assms(1)] assms(2)] assms(3,4)
  by (auto simp: hub_keeps_def)

theorem departed_for_good_witness:
  "\<exists>hub' sh'. hub' = share_stop ''s'' (snd (share_kick (app_source demo_tabs ''s'') ''s'' 0 demo_hub2))
     \<and> hb_shares hub' ''s'' = Some sh' \<and> last (sh_sent sh' 0) = End ''removed by host''"
proof -
  let ?kicked = "snd (share_kick (app_source demo_tabs ''s'') ''s'' 0 demo_hub2)"
  have k: "hub_step (app_source demo_tabs) (\<lambda>_. None) demo_hub2 ?kicked" by (rule hs_kick)
  with demo_reach(2) [of "\<lambda>_. None"]
  have r: "(hub_step (app_source demo_tabs) (\<lambda>_. None))\<^sup>*\<^sup>* (hub_new demo_world) ?kicked"
    by (rule rtranclp.rtrancl_into_rtrancl)
  have s: "(hub_step (app_source demo_tabs) (\<lambda>_. None))\<^sup>*\<^sup>* ?kicked (share_stop ''s'' ?kicked)"
    by (intro r_into_rtranclp hs_stop)
  have "\<exists>sh. hb_shares ?kicked ''s'' = Some sh \<and> find_viewer 0 sh = None
      \<and> last (sh_sent sh 0) = End ''removed by host'' \<and> 0 < hb_next_viewer ?kicked"
    by (simp add: demo_defs Let_def share_kick_def kick_def notify_viewport_def send_to_def remove_viewer_def)
  then obtain sh where "hb_shares ?kicked ''s'' = Some sh" "find_viewer 0 sh = None"
      "last (sh_sent sh 0) = End ''removed by host''" "0 < hb_next_viewer ?kicked" by blast
  with departed_for_good [OF r this(1,4,2) s] show ?thesis by auto
qed



section \<open>The door\<close>

text \<open>C12: a connection is admitted exactly when its first frame names a listed share with its token,
  before the invitation expires, in a version that share can be shown in; in every other case
  no share and nothing outside the hub changes, and it learns at most one frame, an end.\<close>

theorem admitted_iff:
  "((\<exists>vid. fst (handle_incoming srcs now first hub) = Joined vid) \<longleftrightarrow>
      (\<exists>name proto sid token sh. first = Hello name proto sid token \<and> hub_share sid hub = Some sh
         \<and> sh_token sh = token \<and> \<not> join_window_closed now sh
         \<and> tab_type_min_proto sh \<le> negotiate proto \<and> \<not> sh_stopped sh))
   \<and> (case fst (handle_incoming srcs now first hub) of
        Joined vid \<Rightarrow> vid = hb_next_viewer hub
      | Refused m \<Rightarrow> is_end m \<and> hb_shares (snd (handle_incoming srcs now first hub)) = hb_shares hub
          \<and> hb_world (snd (handle_incoming srcs now first hub)) = hb_world hub
      | Closed _ \<Rightarrow> snd (handle_incoming srcs now first hub) = hub)"
proof (cases first)
  case (Hello name proto sid token)
  have adm: "admit vid p n h sh = None \<longleftrightarrow> sh_stopped sh" for vid p n h sh
    by (simp add: admit_def Let_def)
  show ?thesis
  proof (cases "hub_share sid hub")
    case (Some sh)
    show ?thesis
    proof (cases "admit (hb_next_viewer hub) (negotiate proto) name (so_history (srcs sid) (hb_world hub)) sh")
      case None
      then have "sh_stopped sh" by (simp add: adm)
      with None Some Hello show ?thesis by (auto simp: handle_incoming_def Let_def)
    next
      case a: (Some sh1)
      then have "\<not> sh_stopped sh" using adm by (metis option.distinct(1))
      with a Some Hello show ?thesis
        by (cases "presence (srcs sid) sh1 (hb_world hub)") (auto simp: handle_incoming_def Let_def)
    qed
  qed (simp add: handle_incoming_def Hello Let_def)
qed (simp_all add: handle_incoming_def)

section \<open>The snapshot hand-off\<close>

fun is_output :: "host_msg \<Rightarrow> bool" where
  "is_output (Output _) = True" | "is_output _ = False"

text \<open>What one broadcast of output does to one viewer that is still there after it.\<close>

lemma broadcast_output_viewer:
  assumes "distinct (map fst (sh_viewers sh))" "(sh', w') = broadcast_output src b64 bs sh w"
    and "find_viewer vid sh' = Some v'"
  shows "\<exists>v. find_viewer vid sh = Some v \<and> distinct (map fst (sh_viewers sh'))
    \<and> (case vw_state v of
         Live \<Rightarrow> vw_state v' = Live \<and> (\<exists>ms. sh_sent sh' vid = sh_sent sh vid @ ms \<and> filter is_output ms = [Output (b64 bs)])
       | Buffering buf \<Rightarrow> sh_sent sh' vid = sh_sent sh vid
           \<and> (\<exists>buf'. vw_state v' = Buffering buf' \<and> filter is_output buf' = filter is_output buf @ [Output (b64 bs)]))"
proof -
  let ?m = "Output (b64 bs)"
  let ?sh1 = "broadcast_fan ?m sh"
  have d1: "distinct (map fst (sh_viewers ?sh1))" by (rule broadcast_distinct [OF assms(1)])
  have sh': "sh' = ?sh1 \<or> sh' = presence_fan ?sh1"
    using assms(2) by (auto simp: broadcast_output_def broadcast_def presence_def Let_def split: if_splits)
  have still: "\<exists>v1. find_viewer vid ?sh1 = Some v1"
    using sh' assms(3) by (auto simp: find_presence)
  from still obtain v1 where v1: "find_viewer vid ?sh1 = Some v1" by blast
  then obtain v where v: "find_viewer vid sh = Some v" "fst (offer ?m v) = Some v1"
    by (auto simp: find_broadcast [OF assms(1)] bind_eq_Some_conv)
  have sent1: "sh_sent ?sh1 vid = sh_sent sh vid @ snd (offer ?m v)"
    using v(1) by (simp add: broadcast_fan_def)
  have w: "\<not> withheld ?m v" by (simp add: withheld_def)
  have d: "distinct (map fst (sh_viewers sh'))" using sh' d1 by auto
  show ?thesis
  proof (cases "vw_state v")
    case Live
    with v w have "v1 = v" "snd (offer ?m v) = [?m]" by (auto simp: offer_def)
    with sh' v1 assms(3) Live sent1 have "vw_state v' = Live"
      "sh_sent sh' vid = sh_sent sh vid @ [?m] \<or> (\<exists>n. sh_sent sh' vid = sh_sent sh vid @ [?m, Presence n])"
      by (auto simp: find_presence) (auto simp: presence_fan_def Let_def)
    with v(1) Live d show ?thesis by auto
  next
    case (Buffering buf)
    with v w have v1': "v1 = v\<lparr>vw_state := Buffering (buf @ [?m])\<rparr>" "snd (offer ?m v) = []"
      by (auto simp: offer_def split: if_splits)
    with sh' v1 assms(3) sent1 have "sh_sent sh' vid = sh_sent sh vid"
      "vw_state v' = Buffering (buf @ [?m]) \<or> (\<exists>n. vw_state v' = Buffering (buf @ [?m, Presence n]))"
      by (auto simp: find_presence split: if_splits) (auto simp: presence_fan_def Let_def)
    with v(1) Buffering d show ?thesis by auto
  qed
qed

text \<open>A viewer that is there after a run of output was there all along.\<close>

lemma dispatch_run:
  assumes "distinct (map fst (sh_viewers sh))" "ts_attached st"
    and "fold (dispatch_data hooks b64) chunks (sh, st) = (sh', st')" "find_viewer vid sh' = Some v'"
  shows "\<exists>v. find_viewer vid sh = Some v \<and> distinct (map fst (sh_viewers sh')) \<and> ts_attached st'
    \<and> (case vw_state v of
         Live \<Rightarrow> vw_state v' = Live \<and> (\<exists>ms. sh_sent sh' vid = sh_sent sh vid @ ms
                   \<and> filter is_output ms = map (Output \<circ> b64) chunks)
       | Buffering buf \<Rightarrow> sh_sent sh' vid = sh_sent sh vid
           \<and> (\<exists>buf'. vw_state v' = Buffering buf'
                \<and> filter is_output buf' = filter is_output buf @ map (Output \<circ> b64) chunks))"
  using assms
proof (induction chunks arbitrary: sh st)
  case Nil
  then show ?case by (auto split: viewer_state.splits)
next
  case (Cons c cs)
  let ?st1 = "st\<lparr>ts_world := th_data hooks c (ts_world st)\<rparr>"
  obtain sh1 st1 where d: "broadcast_output (terminal_source hooks) b64 c sh ?st1 = (sh1, st1)" by fastforce
  with Cons.prems(2) have step: "dispatch_data hooks b64 c (sh, st) = (sh1, st1)"
    by (simp add: dispatch_data_def Let_def)
  have att: "ts_attached st1"
    using d Cons.prems(2) by (auto simp: broadcast_output_def broadcast_def presence_def terminal_source_def Let_def
        split: if_splits)
  have d1: "distinct (map fst (sh_viewers sh1))"
    using d broadcast_distinct [OF Cons.prems(1)]
    by (auto simp: broadcast_output_def broadcast_def presence_def Let_def split: if_splits)
  from Cons.IH [OF d1 att _ Cons.prems(4)] Cons.prems(3) step obtain v1 where
    v1: "find_viewer vid sh1 = Some v1" and rest: "distinct (map fst (sh_viewers sh'))" "ts_attached st'"
    "case vw_state v1 of
         Live \<Rightarrow> vw_state v' = Live \<and> (\<exists>ms. sh_sent sh' vid = sh_sent sh1 vid @ ms
                   \<and> filter is_output ms = map (Output \<circ> b64) cs)
       | Buffering buf \<Rightarrow> sh_sent sh' vid = sh_sent sh1 vid
           \<and> (\<exists>buf'. vw_state v' = Buffering buf'
                \<and> filter is_output buf' = filter is_output buf @ map (Output \<circ> b64) cs)"
    by auto
  from broadcast_output_viewer [OF Cons.prems(1) d [symmetric] v1] obtain v where
    v: "find_viewer vid sh = Some v"
    "case vw_state v of
         Live \<Rightarrow> vw_state v1 = Live \<and> (\<exists>ms. sh_sent sh1 vid = sh_sent sh vid @ ms \<and> filter is_output ms = [Output (b64 c)])
       | Buffering buf \<Rightarrow> sh_sent sh1 vid = sh_sent sh vid
           \<and> (\<exists>buf'. vw_state v1 = Buffering buf' \<and> filter is_output buf' = filter is_output buf @ [Output (b64 c)])"
    by blast
  show ?case
  proof (cases "vw_state v")
    case Live
    with v(2) obtain ms where "vw_state v1 = Live" "sh_sent sh1 vid = sh_sent sh vid @ ms" "filter is_output ms = [Output (b64 c)]"
      by auto
    with rest v(1) Live show ?thesis by auto
  next
    case (Buffering buf)
    with v(2) rest v(1) show ?thesis by auto
  qed
qed

text \<open>A live viewer is never dropped by output.\<close>

lemma live_stays:
  assumes "distinct (map fst (sh_viewers sh))" "ts_attached st"
    and "fold (dispatch_data hooks b64) chunks (sh, st) = (sh', st')"
    and "find_viewer vid sh = Some v" "vw_state v = Live"
  shows "\<exists>v'. find_viewer vid sh' = Some v'"
  using assms
proof (induction chunks arbitrary: sh st v)
  case (Cons c cs)
  let ?st1 = "st\<lparr>ts_world := th_data hooks c (ts_world st)\<rparr>"
  let ?m = "Output (b64 c)"
  obtain sh1 st1 where d: "broadcast_output (terminal_source hooks) b64 c sh ?st1 = (sh1, st1)" by fastforce
  then have cs: "sh1 = broadcast_fan ?m sh \<or> sh1 = presence_fan (broadcast_fan ?m sh)" "ts_attached st1"
    using Cons.prems(2) by (auto simp: broadcast_output_def broadcast_def presence_def terminal_source_def Let_def
        split: if_splits)
  have "find_viewer vid (broadcast_fan ?m sh) = Some v"
    using Cons.prems(4,5) by (simp add: find_broadcast [OF Cons.prems(1)] offer_def withheld_def)
  with cs(1) Cons.prems(5) have "find_viewer vid sh1 = Some v" by (auto simp: find_presence)
  moreover have "distinct (map fst (sh_viewers sh1))" using cs(1) broadcast_distinct [OF Cons.prems(1)] by auto
  moreover have "dispatch_data hooks b64 c (sh, st) = (sh1, st1)"
    using Cons.prems(2) d by (simp add: dispatch_data_def Let_def)
  then have "fold (dispatch_data hooks b64) cs (sh1, st1) = (sh', st')"
    using Cons.prems(3) by simp
  ultimately show ?case using Cons.IH cs(2) Cons.prems(5) by blast
qed simp

text \<open>C13: the snapshot and what follows it are the terminal's output without a gap or a repetition: the
  view is asked at some point of the stream, output goes on, the view answers, output goes on;
  if the viewer is still there it is sent the snapshot and after it exactly the output since
  the point where the view was asked, in order.\<close>

theorem snapshot_handoff_gapless:
  assumes "share_inv sh" "find_viewer vid sh = Some v" "vw_state v = Buffering old" "ts_attached st"
    and "fst (th_snapshot_request hooks vid (ts_world st)) = None"
    and "fold (dispatch_data hooks b64) before (inject_snapshot_request hooks vid sh st) = (sh2, st2)"
    and "find_viewer vid sh2 \<noteq> None"
    and "fold (dispatch_data hooks b64) after (snapshot_ready vid snap cols rows sh2, st2) = (sh3, st3)"
  shows "\<exists>rest. sh_sent sh3 vid = sh_sent sh vid @ Snapshot snap cols rows # rest
    \<and> filter is_output rest = map (Output \<circ> b64) (before @ after)"
proof -
  obtain st1 where inj: "inject_snapshot_request hooks vid sh st = (begin_buffering vid sh, st1)" "ts_attached st1"
    using assms(4,5)
    by (cases "th_snapshot_request hooks vid (ts_world st)") (auto simp: inject_snapshot_request_def Let_def)
  have b: "find_viewer vid (begin_buffering vid sh) = Some (v\<lparr>vw_state := Buffering []\<rparr>)"
    "sh_sent (begin_buffering vid sh) vid = sh_sent sh vid"
    "distinct (map fst (sh_viewers (begin_buffering vid sh)))"
    using assms(2,3) share_invD(3) [OF assms(1)] by (simp_all add: begin_buffering_def)
  from assms(7) obtain v2 where v2: "find_viewer vid sh2 = Some v2" by blast
  have "fold (dispatch_data hooks b64) before (begin_buffering vid sh, st1) = (sh2, st2)"
    using assms(6) inj(1) by simp
  from dispatch_run [OF b(3) inj(2) this v2] b(1,2) obtain buf where
    p1: "sh_sent sh2 vid = sh_sent sh vid" "vw_state v2 = Buffering buf" "distinct (map fst (sh_viewers sh2))"
      "ts_attached st2" "filter is_output buf = map (Output \<circ> b64) before"
    by auto
  let ?sh = "snapshot_ready vid snap cols rows sh2"
  have r: "sh_sent ?sh vid = sh_sent sh vid @ Snapshot snap cols rows # buf"
    "distinct (map fst (sh_viewers ?sh))"
    using v2 p1(1,2,3) by (simp_all add: snapshot_ready_def Let_def)
  have rv: "find_viewer vid ?sh = Some (v2\<lparr>vw_state := Live\<rparr>)"
    using v2 find_update [of vid vid "\<lambda>v. v\<lparr>vw_state := Live\<rparr>" sh2]
    by (simp add: snapshot_ready_def Let_def find_viewer_def)
  obtain v3 where v3: "find_viewer vid sh3 = Some v3"
    using live_stays [OF r(2) p1(4) assms(8) rv] by auto
  from dispatch_run [OF r(2) p1(4) assms(8) v3] rv obtain ms where
    "sh_sent sh3 vid = sh_sent ?sh vid @ ms" "filter is_output ms = map (Output \<circ> b64) after"
    by auto
  with r(1) p1(5) show ?thesis by simp
qed

text \<open>A share with one viewer catching up, and its terminal.\<close>

definition demo_share :: share where
  "demo_share = \<lparr>sh_id = ''s'', sh_token = ''t'', sh_title = ''zsh'', sh_size = (80, 24),
     sh_viewers = [(0, \<lparr>vw_proto = 1, vw_state = Buffering [], vw_name = ''Ada'', vw_access = View,
                        vw_viewport = Some (40, 10)\<rparr>)],
     sh_sent = (\<lambda>i. if i = 0 then [Welcome 1 ''zsh'' 80 24 None, Mode True None] else []),
     sh_stopped = False, sh_created_at = 0, sh_ttl = None, sh_access = View, sh_tab_type = TerminalTab\<rparr>"

definition demo_term :: "viewport option term_state" where
  "demo_term = \<lparr>ts_attached = True, ts_grid = \<lparr>vp_cols = 80, vp_rows = 24\<rparr>,
     ts_world = Some \<lparr>vp_cols = 40, vp_rows = 10\<rparr>\<rparr>"

lemma demo_share_inv: "share_inv demo_share"
  by (simp add: share_inv_def demo_share_def find_viewer_def connected_ok_def departed_ok_def last_mode_def
      mode_for_def queue_ok_def)

definition demo_text :: "bytes \<Rightarrow> string" where
  "demo_text bs = map (\<lambda>b. char_of (unat b)) bs"

lemmas demo_share_defs = demo_text_def demo_share_def demo_term_def demo_hooks_def dispatch_data_def broadcast_output_def
  broadcast_def broadcast_fan_def stalled_def offer_def withheld_def inject_snapshot_request_def
  begin_buffering_def update_viewer_def snapshot_ready_def find_viewer_def MAX_PENDING_FRAMES_def
  terminal_source_def Let_def List.map_filter_simps

theorem snapshot_handoff_gapless_witness:
  "\<exists>sh3 st3 rest. fold (dispatch_data demo_hooks demo_text) [[99]]
       (snapshot_ready 0 ''snap'' 80 24
         (fst (fold (dispatch_data demo_hooks demo_text) [[97], [98]] (inject_snapshot_request demo_hooks 0 demo_share demo_term))),
        demo_term) = (sh3, st3)
     \<and> sh_sent sh3 0 = sh_sent demo_share 0 @ Snapshot ''snap'' 80 24 # rest
     \<and> filter is_output rest = [Output ''a'', Output ''b'', Output ''c'']"
proof -
  obtain sh2 st2 where f: "fold (dispatch_data demo_hooks demo_text) [[97], [98]]
      (inject_snapshot_request demo_hooks 0 demo_share demo_term) = (sh2, st2)" by fastforce
  then have st2: "st2 = demo_term" and there: "find_viewer 0 sh2 \<noteq> None"
    by (auto simp: demo_share_defs)
  obtain sh3 st3 where g: "fold (dispatch_data demo_hooks demo_text) [[99]] (snapshot_ready 0 ''snap'' 80 24 sh2, st2) = (sh3, st3)"
    by fastforce
  obtain v where "find_viewer 0 demo_share = Some v" "vw_state v = Buffering []"
    by (auto simp: demo_share_def find_viewer_def)
  moreover have "ts_attached demo_term" "fst (th_snapshot_request demo_hooks 0 (ts_world demo_term)) = None"
    by (simp_all add: demo_term_def demo_hooks_def)
  moreover have "map (Output \<circ> demo_text) ([[97], [98]] @ [[99]]) = [Output ''a'', Output ''b'', Output ''c'']"
    by code_simp
  ultimately have "\<exists>rest. sh_sent sh3 0 = sh_sent demo_share 0 @ Snapshot ''snap'' 80 24 # rest
     \<and> filter is_output rest = [Output ''a'', Output ''b'', Output ''c'']"
    using snapshot_handoff_gapless [OF demo_share_inv _ _ _ _ f there g] by simp
  with f g st2 show ?thesis by auto
qed

section \<open>Whose viewport counts\<close>

text \<open>when a viewer leaves or is kicked the tab is told the smallest viewport of those who remain;
  when one is dropped because it fell behind it is not, and goes on being fitted to a viewer
  that is gone.\<close>

theorem dropped_viewer_constrains:
  "ts_world (snd (leave (terminal_source demo_hooks) 0 demo_share demo_term)) = None
   \<and> joint_viewport (fst (leave (terminal_source demo_hooks) 0 demo_share demo_term)) = None
   \<and> ts_world (snd (snd (kick (terminal_source demo_hooks) 0 demo_share demo_term))) = None
   \<and> (let behind = demo_share\<lparr>sh_viewers := [(0, (snd (hd (sh_viewers demo_share)))
                        \<lparr>vw_state := Buffering (replicate MAX_PENDING_FRAMES (Output []))\<rparr>)]\<rparr>;
          after = dispatch_data demo_hooks demo_text [97] (behind, demo_term)
      in joint_viewport behind = ts_world demo_term
       \<and> sh_viewers (fst after) = [] \<and> joint_viewport (fst after) = None
       \<and> ts_world (snd after) = Some \<lparr>vp_cols = 40, vp_rows = 10\<rparr>)"
proof -
  have "ts_world (snd (leave (terminal_source demo_hooks) 0 demo_share demo_term)) = None
   \<and> joint_viewport (fst (leave (terminal_source demo_hooks) 0 demo_share demo_term)) = None
   \<and> ts_world (snd (snd (kick (terminal_source demo_hooks) 0 demo_share demo_term))) = None"
    by (simp add: demo_share_defs leave_def kick_def notify_viewport_def presence_def presence_fan_def
        remove_viewer_def send_to_def joint_viewport_def)
  moreover have "length (replicate MAX_PENDING_FRAMES (Output [])) = MAX_PENDING_FRAMES" by simp
  ultimately show ?thesis
    unfolding Let_def dispatch_data_def broadcast_output_def broadcast_def
    by (simp add: demo_share_def demo_term_def demo_hooks_def stalled_def broadcast_fan_def offer_def
        withheld_def presence_def presence_fan_def joint_viewport_def terminal_source_def
        List.map_filter_simps find_viewer_def)
qed

end
