(* ===== verification/Term_Sessions.thy ===== *)
theory Term_Sessions
  imports Rust_Str Tab_Json
begin

text \<open>
  The PTY session engine (\<open>crates/tabverse-term/src/lib.rs\<close>) and the start of a shell with the
  integration scripts (\<open>shell_integration.rs\<close>). The operating system is a parameter: opening a
  PTY, spawning, reading the environment and writing files are the functions of a host record
  over a world, and every one of them may fail. The texts of the generated scripts are shell
  and PowerShell code and a parameter too.
\<close>

section \<open>The host\<close>

text \<open>A step of the outside world: an answer or an error, and the world after it.\<close>

type_synonym ('w, 'a) io = "'w \<Rightarrow> (string + 'a) \<times> 'w"

definition io_bind :: "('w, 'a) io \<Rightarrow> ('a \<Rightarrow> ('w, 'b) io) \<Rightarrow> ('w, 'b) io" where
  "io_bind m f w = (case m w of (Inl e, w1) \<Rightarrow> (Inl e, w1) | (Inr x, w1) \<Rightarrow> f x w1)"

definition io_pure :: "'a \<Rightarrow> ('w, 'a) io" where
  "io_pure x w = (Inr x, w)"

text \<open>\<open>context(..)\<close>: the text of an error becomes that of its context.\<close>

definition io_context :: "string \<Rightarrow> ('w, 'a) io \<Rightarrow> ('w, 'a) io" where
  "io_context msg m w = (case m w of (Inl _, w1) \<Rightarrow> (Inl msg, w1) | ok \<Rightarrow> ok)"

fun io_each :: "('a \<Rightarrow> ('w, unit) io) \<Rightarrow> 'a list \<Rightarrow> ('w, unit) io" where
  "io_each f [] = io_pure ()"
| "io_each f (x # xs) = io_bind (f x) (\<lambda>_. io_each f xs)"

record pty_size =
  ps_rows :: nat
  ps_cols :: nat

record shell_command =
  cmd_program :: string
  cmd_args :: "string list"
  cmd_env :: "(string \<times> string) list"
  cmd_cwd :: string

record 'w host =
  ho_var :: "string \<Rightarrow> string option"
  ho_windows :: bool
  ho_pkg_version :: string
  ho_script :: "string \<Rightarrow> string"
  ho_mkdir :: "string \<Rightarrow> ('w, unit) io"
  ho_write_file :: "string \<Rightarrow> string \<Rightarrow> ('w, unit) io"
  ho_version_output :: "string \<Rightarrow> 'w \<Rightarrow> string option"
  ho_openpty :: "pty_size \<Rightarrow> ('w, unit) io"
  ho_spawn :: "shell_command \<Rightarrow> ('w, unit) io"
  ho_clone_reader :: "('w, unit) io"
  ho_take_writer :: "('w, unit) io"
  ho_first_input :: "string \<Rightarrow> ('w, unit) io"
  ho_flush :: "('w, unit) io"
  ho_uuid :: "'w \<Rightarrow> string \<times> 'w"
  ho_pty_write :: "string \<Rightarrow> bytes \<Rightarrow> ('w, unit) io"
  ho_pty_resize :: "string \<Rightarrow> pty_size \<Rightarrow> ('w, unit) io"
  ho_pty_kill :: "string \<Rightarrow> 'w \<Rightarrow> 'w"

definition default_shell :: "'w host \<Rightarrow> string" where
  "default_shell h =
     (if ho_windows h then ''powershell.exe''
      else case ho_var h ''SHELL'' of Some s \<Rightarrow> s | None \<Rightarrow> ''/bin/zsh'')"

definition home_dir :: "'w host \<Rightarrow> string option" where
  "home_dir h = (case ho_var h ''HOME'' of Some d \<Rightarrow> Some d | None \<Rightarrow> ho_var h ''USERPROFILE'')"

section \<open>Shell integration\<close>

text \<open>\<open>Path::join\<close> with a relative path and \<open>Path::file_name\<close>, on Unix separators.\<close>

definition path_join :: "string \<Rightarrow> string \<Rightarrow> string" where
  "path_join a b =
     (if a = [] then b else if last a = CHR ''/'' then a @ b else a @ ''/'' @ b)"

definition path_file_name :: "string \<Rightarrow> string option" where
  "path_file_name p =
     (let parts = filter (\<lambda>s. s \<noteq> [] \<and> s \<noteq> ''.'') (split_on (CHR ''/'') p) in
      if parts = [] \<or> last parts = ''..'' then None else Some (last parts))"

definition integration_dir :: "'w host \<Rightarrow> string + string" where
  "integration_dir h =
     (case home_dir h of
        None \<Rightarrow> Inl ''neither HOME nor USERPROFILE is set''
      | Some home \<Rightarrow> Inr (path_join (path_join home ''.tabverse'') ''shell''))"

text \<open>\<open>str::parse::<u32>\<close>: digits with an optional plus sign, below \<open>2 ^ 32\<close>.\<close>

definition is_digit :: "char \<Rightarrow> bool" where
  "is_digit c \<longleftrightarrow> 48 \<le> (of_char c :: nat) \<and> (of_char c :: nat) \<le> 57"

definition digits_value :: "string \<Rightarrow> nat" where
  "digits_value s = foldl (\<lambda>v c. v * 10 + ((of_char c :: nat) - 48)) 0 s"

definition parse_u32 :: "string \<Rightarrow> nat option" where
  "parse_u32 s =
     (let ds = (case s of c # cs \<Rightarrow> (if c = CHR ''+'' then cs else s) | [] \<Rightarrow> []) in
      if ds \<noteq> [] \<and> list_all is_digit ds \<and> digits_value ds < 2 ^ 32 then Some (digits_value ds) else None)"

definition fish_version :: "string \<Rightarrow> (nat \<times> nat \<times> nat) option" where
  "fish_version txt =
     (case split_on (CHR ''.'') (last (split_on (CHR '' '') (trim txt))) of
        major # minor # rest \<Rightarrow>
          (case (parse_u32 major, parse_u32 minor, parse_u32 (case rest of p # _ \<Rightarrow> p | [] \<Rightarrow> ''0'')) of
             (Some a, Some b, Some c) \<Rightarrow> Some (a, b, c)
           | _ \<Rightarrow> None)
      | _ \<Rightarrow> None)"

definition version_at_least :: "nat \<times> nat \<times> nat \<Rightarrow> nat \<times> nat \<times> nat \<Rightarrow> bool" where
  "version_at_least v m =
     (case v of (a, b, c) \<Rightarrow> (case m of (a', b', c') \<Rightarrow>
        a' < a \<or> a' = a \<and> (b' < b \<or> b' = b \<and> c' \<le> c)))"

definition fish_knows_no_mark_prompt :: "'w host \<Rightarrow> string \<Rightarrow> 'w \<Rightarrow> bool" where
  "fish_knows_no_mark_prompt h shell w =
     (case ho_version_output h shell w of
        None \<Rightarrow> False
      | Some out \<Rightarrow>
          (case fish_version out of Some v \<Rightarrow> version_at_least v (4, 0, 6) | None \<Rightarrow> False))"

definition shell_name :: "string \<Rightarrow> string" where
  "shell_name shell = (case path_file_name shell of Some n \<Rightarrow> n | None \<Rightarrow> [])"

abbreviation integration_on :: "string \<times> string" where
  "integration_on \<equiv> (''TABVERSE_SHELL_INTEGRATION'', ''1'')"

definition prepare :: "'w host \<Rightarrow> string \<Rightarrow> ('w, (string \<times> string) list) io" where
  "prepare h shell =
     (case integration_dir h of
        Inl e \<Rightarrow> (\<lambda>w. (Inl e, w))
      | Inr dir \<Rightarrow>
          io_bind (io_context (''cannot create '' @ dir) (ho_mkdir h dir)) (\<lambda>_.
            let name = shell_name shell;
                file = (\<lambda>f. ho_write_file h (path_join dir f) (ho_script h f)) in
            if name = ''zsh'' then
              io_bind (io_each file [''.zshenv'', ''.zprofile'', ''.zshrc'']) (\<lambda>_.
                io_pure ([(''ZDOTDIR'', dir), integration_on] @
                  (case ho_var h ''ZDOTDIR'' of Some u \<Rightarrow> [(''TABVERSE_USER_ZDOTDIR'', u)] | None \<Rightarrow> [])))
            else if name = ''bash'' then
              io_bind (file ''bashrc'') (\<lambda>_.
                io_pure [(''TABVERSE_BASH_RC'', path_join dir ''bashrc''), integration_on])
            else if name = ''fish'' then
              io_bind (file ''fish_init.fish'') (\<lambda>_ w.
                (Inr ([(''TABVERSE_FISH_INIT'', path_join dir ''fish_init.fish''), integration_on] @
                  (if fish_knows_no_mark_prompt h shell w then [(''TABVERSE_FISH_NO_MARK'', ''1'')] else [])), w))
            else if name = ''pwsh'' \<or> name = ''pwsh.exe'' then
              io_bind (file ''pwsh_init.ps1'') (\<lambda>_.
                io_pure [(''TABVERSE_PWSH_INIT'', path_join dir ''pwsh_init.ps1''), integration_on])
            else io_pure []))"

definition args_for :: "string \<Rightarrow> (string \<times> string) list \<Rightarrow> string list" where
  "args_for shell env =
     (let name = shell_name shell in
      case (if name = ''bash'' then map_of env ''TABVERSE_BASH_RC'' else None) of
        Some rc \<Rightarrow> [''--rcfile'', rc, ''-i'']
      | None \<Rightarrow>
          (if name = ''fish'' \<and> ''TABVERSE_FISH_INIT'' \<in> set (map fst env) then
             (if ''TABVERSE_FISH_NO_MARK'' \<in> set (map fst env)
              then [''--features'', ''no-mark-prompt''] else [])
             @ [''-C'', ''source $TABVERSE_FISH_INIT'']
           else if (name = ''pwsh'' \<or> name = ''pwsh.exe'') \<and> ''TABVERSE_PWSH_INIT'' \<in> set (map fst env) then
             [''-NoLogo'', ''-NoExit'', ''-Command'', ''. $env:TABVERSE_PWSH_INIT'']
           else []))"

section \<open>The session manager\<close>

record spawn_opts =
  so_shell :: "string option"
  so_cwd :: "string option"
  so_cols :: nat
  so_rows :: nat
  so_env :: "(string \<times> string) list"
  so_integration :: bool
  so_run_on_start :: "string option"

record 'w terms =
  tm_ids :: "string list"
  tm_world :: 'w

definition pty_size_of :: "nat \<Rightarrow> nat \<Rightarrow> pty_size" where
  "pty_size_of cols rows = \<lparr>ps_rows = max rows 2, ps_cols = max cols 2\<rparr>"

definition command_for :: "'w host \<Rightarrow> spawn_opts \<Rightarrow> (string \<times> string) list \<Rightarrow> shell_command" where
  "command_for h opts ienv =
     (let shell = (case so_shell opts of Some s \<Rightarrow> s | None \<Rightarrow> default_shell h);
          iargs = args_for shell ienv
      in \<lparr>cmd_program = shell,
          cmd_args = (if iargs = [] then (if ho_windows h then [] else [''-l'']) else iargs),
          cmd_env = [(''TERM'', ''xterm-256color''), (''COLORTERM'', ''truecolor''),
                     (''TABVERSE'', ho_pkg_version h)] @ ienv @ so_env opts,
          cmd_cwd = (case so_cwd opts of Some d \<Rightarrow> d
                     | None \<Rightarrow> (case home_dir h of Some d \<Rightarrow> d | None \<Rightarrow> ''/''))\<rparr>)"

text \<open>\<open>unwrap_or_default\<close>: a failure to prepare is no integration.\<close>

definition integration_env :: "'w host \<Rightarrow> spawn_opts \<Rightarrow> ('w, (string \<times> string) list) io" where
  "integration_env h opts w =
     (if so_integration opts
      then (case prepare h (case so_shell opts of Some s \<Rightarrow> s | None \<Rightarrow> default_shell h) w of
              (Inl _, w1) \<Rightarrow> (Inr [], w1) | ok \<Rightarrow> ok)
      else (Inr [], w))"

definition start_shell :: "'w host \<Rightarrow> spawn_opts \<Rightarrow> ('w, unit) io" where
  "start_shell h opts =
     io_bind (io_context ''openpty failed'' (ho_openpty h (pty_size_of (so_cols opts) (so_rows opts)))) (\<lambda>_.
     io_bind (integration_env h opts) (\<lambda>ienv.
     io_bind (io_context ''spawn shell failed'' (ho_spawn h (command_for h opts ienv))) (\<lambda>_.
     io_bind (io_context ''clone pty reader failed'' (ho_clone_reader h)) (\<lambda>_.
     io_bind (io_context ''take pty writer failed'' (ho_take_writer h)) (\<lambda>_.
       case so_run_on_start opts of
         None \<Rightarrow> io_pure ()
       | Some c \<Rightarrow>
           io_bind (io_context ''send run_on_start failed''
             (ho_first_input h (c @ (if ho_windows h then [cr, nl] else [nl])))) (\<lambda>_.
           io_context ''flush run_on_start failed'' (ho_flush h)))))))"

definition create :: "'w host \<Rightarrow> spawn_opts \<Rightarrow> 'w terms \<Rightarrow> (string + string) \<times> 'w terms" where
  "create h opts t =
     (case start_shell h opts (tm_world t) of
        (Inl e, w) \<Rightarrow> (Inl e, t\<lparr>tm_world := w\<rparr>)
      | (Inr _, w) \<Rightarrow>
          (let (i, w1) = ho_uuid h w in (Inr i, \<lparr>tm_ids = List.insert i (tm_ids t), tm_world = w1\<rparr>)))"

definition with_session ::
  "string \<Rightarrow> ('w, unit) io \<Rightarrow> 'w terms \<Rightarrow> (string + unit) \<times> 'w terms" where
  "with_session i act t =
     (if i \<in> set (tm_ids t)
      then (let (r, w) = act (tm_world t) in (r, t\<lparr>tm_world := w\<rparr>))
      else (Inl (''unknown session '' @ i), t))"

definition terms_write :: "'w host \<Rightarrow> string \<Rightarrow> bytes \<Rightarrow> 'w terms \<Rightarrow> (string + unit) \<times> 'w terms" where
  "terms_write h i data = with_session i (ho_pty_write h i data)"

definition terms_resize :: "'w host \<Rightarrow> string \<Rightarrow> nat \<Rightarrow> nat \<Rightarrow> 'w terms \<Rightarrow> (string + unit) \<times> 'w terms" where
  "terms_resize h i cols rows = with_session i (ho_pty_resize h i (pty_size_of cols rows))"

definition terms_remove :: "string \<Rightarrow> 'w terms \<Rightarrow> 'w terms" where
  "terms_remove i t = t\<lparr>tm_ids := removeAll i (tm_ids t)\<rparr>"

definition terms_kill :: "'w host \<Rightarrow> string \<Rightarrow> 'w terms \<Rightarrow> (string + unit) \<times> 'w terms" where
  "terms_kill h i t =
     (case with_session i (\<lambda>w. (Inr (), ho_pty_kill h i w)) t of
        (Inl e, t1) \<Rightarrow> (Inl e, t1)
      | (Inr _, t1) \<Rightarrow> (Inr (), terms_remove i t1))"

section \<open>Facts\<close>

lemma io_bind_Inr:
  "io_bind m f w = (Inr y, w2) \<longleftrightarrow> (\<exists>x w1. m w = (Inr x, w1) \<and> f x w1 = (Inr y, w2))"
  by (auto simp: io_bind_def split: prod.splits sum.splits)

text \<open>What \<open>prepare\<close> put into the environment is what \<open>args_for\<close> looks for: the four shells
  with a hook of their own are started through it, and every other shell, \<open>zsh\<close> included, gets
  no argument from the integration and so stays a login shell.\<close>

lemma args_of_prepared:
  assumes "prepare h shell w = (Inr env, w1)"
  shows "args_for shell env = [] \<longleftrightarrow> shell_name shell \<notin> {''bash'', ''fish'', ''pwsh'', ''pwsh.exe''}"
proof -
  obtain dir where dir: "integration_dir h = Inr dir"
    using assms by (cases "integration_dir h") (auto simp: prepare_def)
  consider "shell_name shell = ''zsh''" | "shell_name shell = ''bash''" | "shell_name shell = ''fish''"
    | "shell_name shell \<in> {''pwsh'', ''pwsh.exe''}"
    | "shell_name shell \<notin> {''zsh'', ''bash'', ''fish'', ''pwsh'', ''pwsh.exe''}" by blast
  then show ?thesis
    using assms dir
    by cases (auto simp: prepare_def Let_def io_bind_Inr io_pure_def args_for_def)
qed

lemma create_id:
  "create h opts t = (Inr i, t1) \<Longrightarrow> i \<in> set (tm_ids t1)"
  by (auto simp: create_def split: prod.splits sum.splits)

lemma create_failed: "create h opts t = (Inl e, t1) \<Longrightarrow> tm_ids t1 = tm_ids t"
  by (auto simp: create_def split: prod.splits sum.splits)

lemma terms_kill_gone:
  "terms_kill h i t = (r, t1) \<Longrightarrow> i \<notin> set (tm_ids t1) \<and> (r = Inr () \<longleftrightarrow> i \<in> set (tm_ids t))"
  by (auto simp: terms_kill_def with_session_def terms_remove_def Let_def split: if_splits prod.splits sum.splits)

end
