(* ===== verification/Runtime_Store.thy ===== *)
theory Runtime_Store
  imports Rust_Str "HOL-Library.Product_Lexorder" "HOL-Library.List_Lexorder" "HOL-Library.Char_ord"
begin

text \<open>
  The supervisor's runtime database (\<open>crates/tabverse-runtime/src/lib.rs\<close>). Its tables are
  lists of rows and every SQL statement of the source is written out as the list operation it
  denotes. SQLite itself is not part of the program: where a connection or a statement fails
  for a reason of its own (disk, lock, permissions), the fault is an argument of the operation,
  and a transaction that fails changes nothing. Integers of SQL are \<open>i64\<close>: a stored
  generation is an \<open>int\<close> whose sign is checked when it is read back.
\<close>

section \<open>Rows and records\<close>

type_synonym store_error = string

record runtime_record =
  rr_id :: string
  rr_kind :: string
  rr_generation :: "64 word"
  rr_state :: string
  rr_host :: string
  rr_checkpoint :: "string option"

record runtime_row =
  row_id :: string
  row_kind :: string
  row_generation :: int
  row_state :: string
  row_host :: string
  row_checkpoint :: "string option"
  row_created :: int
  row_updated :: int

record interruption =
  in_runtime :: string
  in_generation :: int
  in_reason :: string
  in_at :: int

record host_row =
  ho_instance :: string
  ho_heartbeat :: int
  ho_stopped :: "int option"

record runtime_db =
  db_runtimes :: "runtime_row list"
  db_interruptions :: "interruption list"
  db_hosts :: "host_row list"

definition empty_db :: runtime_db where
  "empty_db = \<lparr>db_runtimes = [], db_interruptions = [], db_hosts = []\<rparr>"

definition HOST_STALE_AFTER_SECONDS :: int where "HOST_STALE_AFTER_SECONDS = 5"
definition SCHEMA_VERSION :: int where "SCHEMA_VERSION = 1"
definition APPLICATION_ID :: int where "APPLICATION_ID = 0x54565233"

section \<open>Records in and out\<close>

text \<open>A connection either opens or reports its fault.\<close>

definition connection :: "store_error option \<Rightarrow> store_error + unit" where
  "connection fault = (case fault of Some e \<Rightarrow> Inl e | None \<Rightarrow> Inr ())"

text \<open>\<open>INSERT \<dots> ON CONFLICT(id) DO UPDATE\<close>: the kind and the creation time of a row that is
  there already are not in the update list.\<close>

definition row_of :: "int \<Rightarrow> runtime_record \<Rightarrow> runtime_row" where
  "row_of now r =
     \<lparr>row_id = rr_id r, row_kind = rr_kind r, row_generation = int (unat (rr_generation r)),
      row_state = rr_state r, row_host = rr_host r, row_checkpoint = rr_checkpoint r,
      row_created = now, row_updated = now\<rparr>"

definition update_row :: "runtime_row \<Rightarrow> runtime_row \<Rightarrow> runtime_row" where
  "update_row new old =
     old\<lparr>row_generation := row_generation new, row_state := row_state new,
         row_host := row_host new, row_checkpoint := row_checkpoint new,
         row_updated := row_updated new\<rparr>"

definition upsert :: "runtime_row \<Rightarrow> runtime_row list \<Rightarrow> runtime_row list" where
  "upsert new rows =
     (if list_ex (\<lambda>r. row_id r = row_id new) rows
      then map (\<lambda>r. if row_id r = row_id new then update_row new r else r) rows
      else rows @ [new])"

definition put ::
  "store_error option \<Rightarrow> int \<Rightarrow> runtime_record \<Rightarrow> runtime_db \<Rightarrow> (store_error + unit) \<times> runtime_db"
where
  "put fault now r db =
     (if 2 ^ 63 \<le> unat (rr_generation r) then (Inl ''runtime generation overflow'', db)
      else case connection fault of
             Inl e \<Rightarrow> (Inl e, db)
           | Inr _ \<Rightarrow> (Inr (), db\<lparr>db_runtimes := upsert (row_of now r) (db_runtimes db)\<rparr>))"

definition generation_from_row :: "int \<Rightarrow> store_error + 64 word" where
  "generation_from_row v = (if v < 0 then Inl ''out of range integral type conversion'' else Inr (word_of_int v))"

definition record_of :: "runtime_row \<Rightarrow> store_error + runtime_record" where
  "record_of row =
     res_bind (generation_from_row (row_generation row)) (\<lambda>g.
       Inr \<lparr>rr_id = row_id row, rr_kind = row_kind row, rr_generation = g,
            rr_state = row_state row, rr_host = row_host row, rr_checkpoint = row_checkpoint row\<rparr>)"

definition find_row :: "string \<Rightarrow> runtime_row list \<Rightarrow> runtime_row option" where
  "find_row i rows = find (\<lambda>r. row_id r = i) rows"

definition get ::
  "store_error option \<Rightarrow> string \<Rightarrow> runtime_db \<Rightarrow> store_error + runtime_record option" where
  "get fault i db =
     res_bind (connection fault) (\<lambda>_.
       case find_row i (db_runtimes db) of
         None \<Rightarrow> Inr None
       | Some row \<Rightarrow> res_bind (record_of row) (\<lambda>r. Inr (Some r)))"

text \<open>\<open>collect::<Result<Vec<_>>>\<close> stops at the first row that does not read.\<close>

fun collect_rows :: "runtime_row list \<Rightarrow> store_error + runtime_record list" where
  "collect_rows [] = Inr []"
| "collect_rows (r # rs) =
     res_bind (record_of r) (\<lambda>x. res_bind (collect_rows rs) (\<lambda>xs. Inr (x # xs)))"

definition list_order :: "runtime_row \<Rightarrow> int \<times> string" where
  "list_order r = (row_created r, row_id r)"

definition list_runtimes :: "store_error option \<Rightarrow> runtime_db \<Rightarrow> store_error + runtime_record list" where
  "list_runtimes fault db =
     res_bind (connection fault) (\<lambda>_. collect_rows (sort_key list_order (db_runtimes db)))"

definition interruptions_of :: "string \<Rightarrow> runtime_db \<Rightarrow> nat" where
  "interruptions_of i db = length (filter (\<lambda>x. in_runtime x = i) (db_interruptions db))"

definition interruption_count :: "store_error option \<Rightarrow> string \<Rightarrow> runtime_db \<Rightarrow> store_error + nat" where
  "interruption_count fault i db = res_bind (connection fault) (\<lambda>_. Inr (interruptions_of i db))"

section \<open>The host lease\<close>

definition heartbeat ::
  "store_error option \<Rightarrow> string \<Rightarrow> int \<Rightarrow> runtime_db \<Rightarrow> (store_error + unit) \<times> runtime_db" where
  "heartbeat fault host now db =
     (case connection fault of
        Inl e \<Rightarrow> (Inl e, db)
      | Inr _ \<Rightarrow>
          (let mine = \<lambda>h. ho_instance h = host \<and> ho_stopped h = None;
               changed = length (filter mine (db_hosts db));
               db' = db\<lparr>db_hosts := map (\<lambda>h. if mine h then h\<lparr>ho_heartbeat := now\<rparr> else h) (db_hosts db)\<rparr>
           in if changed = 1 then (Inr (), db')
              else (Inl ''runtime host lease is no longer owned'', db')))"

definition release ::
  "store_error option \<Rightarrow> string \<Rightarrow> int \<Rightarrow> runtime_db \<Rightarrow> (store_error + unit) \<times> runtime_db" where
  "release fault host now db =
     (case connection fault of
        Inl e \<Rightarrow> (Inl e, db)
      | Inr _ \<Rightarrow>
          (Inr (), db\<lparr>db_hosts := map (\<lambda>h. if ho_instance h = host \<and> ho_stopped h = None
                                          then h\<lparr>ho_stopped := Some now\<rparr> else h) (db_hosts db)\<rparr>))"

text \<open>\<open>i64::saturating_sub\<close>.\<close>

definition sat_sub_i64 :: "int \<Rightarrow> int \<Rightarrow> int" where
  "sat_sub_i64 a b = max (- (2 ^ 63)) (min (2 ^ 63 - 1) (a - b))"

definition terminal_states :: "string list" where
  "terminal_states = [''stopped'', ''exited'', ''interrupted'']"

definition orphaned :: "string \<Rightarrow> runtime_row \<Rightarrow> bool" where
  "orphaned host row \<longleftrightarrow> row_host row \<noteq> host \<and> row_state row \<notin> set terminal_states"

definition live_hosts :: "string \<Rightarrow> int \<Rightarrow> host_row list \<Rightarrow> host_row list" where
  "live_hosts host cutoff hs =
     sort_key (\<lambda>h. - ho_heartbeat h)
       (filter (\<lambda>h. ho_instance h \<noteq> host \<and> ho_stopped h = None \<and> cutoff < ho_heartbeat h) hs)"

definition upsert_host :: "string \<Rightarrow> int \<Rightarrow> host_row list \<Rightarrow> host_row list" where
  "upsert_host host now hs =
     (if list_ex (\<lambda>h. ho_instance h = host) hs
      then map (\<lambda>h. if ho_instance h = host then h\<lparr>ho_heartbeat := now, ho_stopped := None\<rparr> else h) hs
      else hs @ [\<lparr>ho_instance = host, ho_heartbeat = now, ho_stopped = None\<rparr>])"

text \<open>The clock of the caller and SQLite's \<open>unixepoch()\<close> are two arguments.\<close>

definition claim_host ::
  "string \<Rightarrow> int \<Rightarrow> int \<Rightarrow> int \<Rightarrow> runtime_db \<Rightarrow> (store_error + unit) \<times> runtime_db" where
  "claim_host host now stale_after epoch db =
     (let cutoff = sat_sub_i64 now stale_after in
      case live_hosts host cutoff (db_hosts db) of
        h # _ \<Rightarrow> (Inl (''runtime supervisor '' @ ho_instance h @ '' still owns runtime.db''), db)
      | [] \<Rightarrow>
          (let torn = filter (orphaned host) (db_runtimes db);
               stale = \<lambda>h. ho_instance h \<noteq> host \<and> ho_stopped h = None \<and> ho_heartbeat h \<le> cutoff
           in (Inr (),
               \<lparr>db_runtimes = map (\<lambda>r. if orphaned host r
                                       then r\<lparr>row_state := ''interrupted'', row_updated := epoch\<rparr> else r)
                                (db_runtimes db),
                db_interruptions = db_interruptions db @
                  map (\<lambda>r. \<lparr>in_runtime = row_id r, in_generation = row_generation r,
                            in_reason = ''runtime-host-stale'', in_at = epoch\<rparr>) torn,
                db_hosts = upsert_host host now
                  (map (\<lambda>h. if stale h then h\<lparr>ho_stopped := Some now\<rparr> else h) (db_hosts db))\<rparr>)))"

section \<open>Opening the file\<close>

text \<open>What \<open>validate_schema\<close> reads of a database file, and the tables behind it.\<close>

record db_schema =
  sc_application :: int
  sc_version :: int
  sc_tables :: "(string \<times> string list) list"
  sc_migrations :: "int list"

definition current_tables :: "(string \<times> string list) list" where
  "current_tables =
     [(''runtime_hosts'', [''instance'', ''heartbeat_at'', ''stopped_at'']),
      (''runtime_interruptions'', [''id'', ''runtime_id'', ''generation'', ''reason'', ''occurred_at'']),
      (''runtimes'', [''id'', ''kind'', ''generation'', ''state'', ''host_instance'',
                      ''checkpoint_json'', ''created_at'', ''updated_at'']),
      (''schema_migrations'', [''version'', ''applied_at''])]"

definition TABLES :: "string list" where
  "TABLES = [''runtime_hosts'', ''runtime_interruptions'', ''runtimes'', ''schema_migrations'']"

definition validate_schema :: "db_schema \<Rightarrow> store_error + unit" where
  "validate_schema sc =
     (if \<not> (sc_application sc = APPLICATION_ID \<and> sc_version sc = SCHEMA_VERSION \<and>
             map fst (sc_tables sc) = TABLES \<and> sc_migrations sc = [SCHEMA_VERSION])
      then Inl ''not the current V3 runtime.db schema''
      else case find (\<lambda>(t, cols). map_of (sc_tables sc) t \<noteq> Some cols) current_tables of
             Some (t, _) \<Rightarrow> Inl (''noncurrent '' @ t @ '' table'')
           | None \<Rightarrow> Inr ())"

text \<open>The file a connection creates has no tables until the first transaction commits;
  \<open>CREATE TABLE IF NOT EXISTS\<close> and \<open>INSERT OR IGNORE\<close> leave what is there.\<close>

definition blank_schema :: db_schema where
  "blank_schema = \<lparr>sc_application = 0, sc_version = 0, sc_tables = [], sc_migrations = []\<rparr>"

definition migrate :: "db_schema \<Rightarrow> db_schema" where
  "migrate sc =
     \<lparr>sc_application = APPLICATION_ID, sc_version = SCHEMA_VERSION,
      sc_tables = sort_key fst (sc_tables sc @ filter (\<lambda>(t, _). t \<notin> fst ` set (sc_tables sc)) current_tables),
      sc_migrations = (if SCHEMA_VERSION \<in> set (sc_migrations sc) then sc_migrations sc
                       else sort (sc_migrations sc @ [SCHEMA_VERSION]))\<rparr>"

type_synonym db_file = "(db_schema \<times> runtime_db) option"

text \<open>Where opening is cut short by a fault: before the file is touched, or in the transaction
  that creates the tables, or in the claim.\<close>

datatype open_fault = NoFault | ConnectionFault store_error | CreateFault store_error | ClaimFault store_error

definition open_at ::
  "open_fault \<Rightarrow> string \<Rightarrow> int \<Rightarrow> int \<Rightarrow> int \<Rightarrow> db_file \<Rightarrow> (store_error + unit) \<times> db_file" where
  "open_at fault host now stale_after epoch disk =
     (case (case disk of Some (sc, _) \<Rightarrow> validate_schema sc | None \<Rightarrow> Inr ()) of
        Inl e \<Rightarrow> (Inl e, disk)
      | Inr _ \<Rightarrow>
        (let (sc, db) = (case disk of Some x \<Rightarrow> x | None \<Rightarrow> (blank_schema, empty_db));
             sc' = migrate sc in
         case fault of
           ConnectionFault e \<Rightarrow> (Inl e, disk)
         | CreateFault e \<Rightarrow> (Inl e, Some (sc, db))
         | _ \<Rightarrow>
           (case (if disk = None then validate_schema sc' else Inr ()) of
              Inl e \<Rightarrow> (Inl e, Some (sc', db))
            | Inr _ \<Rightarrow>
              (case fault of
                 ClaimFault e \<Rightarrow> (Inl e, Some (sc', db))
               | _ \<Rightarrow>
                 (let (r, db') = claim_host host now stale_after epoch db in (r, Some (sc', db')))))))"

section \<open>The specification: records by id, counts, one owner\<close>

record store_spec =
  sp_records :: "string \<Rightarrow> runtime_record option"
  sp_torn :: "string \<Rightarrow> nat"
  sp_owner :: "(string \<times> int) option"

definition row_record :: "runtime_row \<Rightarrow> runtime_record" where
  "row_record row =
     \<lparr>rr_id = row_id row, rr_kind = row_kind row, rr_generation = word_of_int (row_generation row),
      rr_state = row_state row, rr_host = row_host row, rr_checkpoint = row_checkpoint row\<rparr>"

definition unstopped :: "host_row list \<Rightarrow> host_row list" where
  "unstopped hs = filter (\<lambda>h. ho_stopped h = None) hs"

definition owner_of :: "host_row list \<Rightarrow> (string \<times> int) option" where
  "owner_of hs = (case unstopped hs of [] \<Rightarrow> None | h # _ \<Rightarrow> Some (ho_instance h, ho_heartbeat h))"

definition abs_store :: "runtime_db \<Rightarrow> store_spec" where
  "abs_store db =
     \<lparr>sp_records = (\<lambda>i. map_option row_record (find_row i (db_runtimes db))),
      sp_torn = (\<lambda>i. interruptions_of i db),
      sp_owner = owner_of (db_hosts db)\<rparr>"

definition store_ok :: "runtime_db \<Rightarrow> bool" where
  "store_ok db \<longleftrightarrow>
     distinct (map row_id (db_runtimes db)) \<and>
     (\<forall>r \<in> set (db_runtimes db). 0 \<le> row_generation r \<and> row_generation r < 2 ^ 63) \<and>
     distinct (map ho_instance (db_hosts db)) \<and>
     length (unstopped (db_hosts db)) \<le> 1"

text \<open>One call of the store, with the fault it may meet, and what it answers.\<close>

datatype store_op =
    OpPut int runtime_record
  | OpGet string
  | OpCount string
  | OpHeartbeat string int
  | OpRelease string int
  | OpClaim string int int int

datatype store_reply = Done | Got "runtime_record option" | Count nat

definition reply :: "('a \<Rightarrow> store_reply) \<Rightarrow> store_error + 'a \<Rightarrow> store_error + store_reply" where
  "reply f r = res_bind r (\<lambda>x. Inr (f x))"

fun store_exec :: "store_error option \<times> store_op \<Rightarrow> runtime_db \<Rightarrow> (store_error + store_reply) \<times> runtime_db" where
  "store_exec (fault, OpPut now r) db = apfst (reply (\<lambda>_. Done)) (put fault now r db)"
| "store_exec (fault, OpGet i) db = (reply Got (get fault i db), db)"
| "store_exec (fault, OpCount i) db = (reply Count (interruption_count fault i db), db)"
| "store_exec (fault, OpHeartbeat h now) db = apfst (reply (\<lambda>_. Done)) (heartbeat fault h now db)"
| "store_exec (fault, OpRelease h now) db = apfst (reply (\<lambda>_. Done)) (release fault h now db)"
| "store_exec (fault, OpClaim h now stale epoch) db =
     (case fault of
        Some e \<Rightarrow> (Inl e, db)
      | None \<Rightarrow> apfst (reply (\<lambda>_. Done)) (claim_host h now stale epoch db))"

definition spec_put :: "runtime_record \<Rightarrow> store_spec \<Rightarrow> store_spec" where
  "spec_put r s =
     s\<lparr>sp_records := (sp_records s)(rr_id r \<mapsto>
        (case sp_records s (rr_id r) of None \<Rightarrow> r | Some old \<Rightarrow> r\<lparr>rr_kind := rr_kind old\<rparr>))\<rparr>"

definition spec_orphaned :: "string \<Rightarrow> runtime_record \<Rightarrow> bool" where
  "spec_orphaned host r \<longleftrightarrow> rr_host r \<noteq> host \<and> rr_state r \<notin> set terminal_states"

definition spec_claim :: "string \<Rightarrow> int \<Rightarrow> store_spec \<Rightarrow> store_spec" where
  "spec_claim host now s =
     \<lparr>sp_records = (\<lambda>i. map_option
        (\<lambda>r. if spec_orphaned host r then r\<lparr>rr_state := ''interrupted''\<rparr> else r) (sp_records s i)),
      sp_torn = (\<lambda>i. sp_torn s i +
        (case sp_records s i of Some r \<Rightarrow> (if spec_orphaned host r then 1 else 0) | None \<Rightarrow> 0)),
      sp_owner = Some (host, now)\<rparr>"

text \<open>The owner is refused to others only while its last heartbeat is recent.\<close>

definition spec_refused :: "string \<Rightarrow> int \<Rightarrow> int \<Rightarrow> store_spec \<Rightarrow> string option" where
  "spec_refused host now stale s =
     (case sp_owner s of
        Some (h, t) \<Rightarrow> (if h \<noteq> host \<and> sat_sub_i64 now stale < t then Some h else None)
      | None \<Rightarrow> None)"

fun spec_op :: "store_op \<Rightarrow> store_spec \<Rightarrow> (store_error + store_reply) \<times> store_spec" where
  "spec_op (OpPut now r) s = (Inr Done, spec_put r s)"
| "spec_op (OpGet i) s = (Inr (Got (sp_records s i)), s)"
| "spec_op (OpCount i) s = (Inr (Count (sp_torn s i)), s)"
| "spec_op (OpHeartbeat h now) s =
     (if map_option fst (sp_owner s) = Some h then (Inr Done, s\<lparr>sp_owner := Some (h, now)\<rparr>)
      else (Inl ''runtime host lease is no longer owned'', s))"
| "spec_op (OpRelease h now) s =
     (Inr Done, if map_option fst (sp_owner s) = Some h then s\<lparr>sp_owner := None\<rparr> else s)"
| "spec_op (OpClaim h now stale epoch) s =
     (case spec_refused h now stale s of
        Some live \<Rightarrow> (Inl (''runtime supervisor '' @ live @ '' still owns runtime.db''), s)
      | None \<Rightarrow> (Inr Done, spec_claim h now s))"

definition spec_exec :: "store_error option \<times> store_op \<Rightarrow> store_spec \<Rightarrow> (store_error + store_reply) \<times> store_spec" where
  "spec_exec call s =
     (case call of
        (fault, OpPut now r) \<Rightarrow>
          (if 2 ^ 63 \<le> unat (rr_generation r) then (Inl ''runtime generation overflow'', s)
           else case fault of Some e \<Rightarrow> (Inl e, s) | None \<Rightarrow> spec_op (snd call) s)
      | (Some e, _) \<Rightarrow> (Inl e, s)
      | (None, op) \<Rightarrow> spec_op op s)"

fun run_calls_on :: "('c \<Rightarrow> 's \<Rightarrow> 'r \<times> 's) \<Rightarrow> 'c list \<Rightarrow> 's \<Rightarrow> 'r list \<times> 's" where
  "run_calls_on exec [] s = ([], s)"
| "run_calls_on exec (c # cs) s =
     (let (r, s1) = exec c s; (rs, s2) = run_calls_on exec cs s1 in (r # rs, s2))"

section \<open>The tables implement the specification\<close>

lemma find_row_simps [simp]:
  "find_row i [] = None"
  "find_row i (r # rs) = (if row_id r = i then Some r else find_row i rs)"
  by (simp_all add: find_row_def)

lemma find_row_append: "find_row i (xs @ ys) = (case find_row i xs of None \<Rightarrow> find_row i ys | Some r \<Rightarrow> Some r)"
  by (induction xs) auto

lemma find_row_None: "find_row i rows = None \<longleftrightarrow> i \<notin> row_id ` set rows"
  by (induction rows) auto

lemma find_row_Some: "find_row i rows = Some r \<Longrightarrow> r \<in> set rows \<and> row_id r = i"
  by (induction rows) (auto split: if_splits)

lemma find_row_map:
  "(\<And>r. row_id (f r) = row_id r) \<Longrightarrow> find_row i (map f rows) = map_option f (find_row i rows)"
  by (induction rows) auto

lemma row_id_update [simp]: "row_id (update_row new old) = row_id old"
  by (simp add: update_row_def)

lemma row_id_row_of [simp]: "row_id (row_of now r) = rr_id r"
  by (simp add: row_of_def)

lemma list_ex_key: "list_ex (\<lambda>r. f r = i) rows \<longleftrightarrow> i \<in> f ` set rows"
  by (auto simp: list_ex_iff)

lemma find_row_upsert:
  "find_row i (upsert new rows) =
     (if i = row_id new
      then Some (case find_row i rows of None \<Rightarrow> new | Some old \<Rightarrow> update_row new old)
      else find_row i rows)"
proof (cases "row_id new \<in> row_id ` set rows")
  case True
  then have up: "upsert new rows = map (\<lambda>r. if row_id r = row_id new then update_row new r else r) rows"
    by (simp add: upsert_def list_ex_key)
  have "find_row i (upsert new rows)
     = map_option (\<lambda>r. if row_id r = row_id new then update_row new r else r) (find_row i rows)"
    unfolding up by (rule find_row_map) simp
  moreover have "i = row_id new \<Longrightarrow> find_row i rows \<noteq> None"
    using True by (simp add: find_row_None)
  ultimately show ?thesis
    by (cases "find_row i rows") (auto dest: find_row_Some)
next
  case False
  then have up: "upsert new rows = rows @ [new]"
    by (simp add: upsert_def list_ex_key)
  from False have "find_row (row_id new) rows = None" by (simp add: find_row_None)
  then show ?thesis
    by (auto simp: up find_row_append split: option.splits)
qed

lemma word_of_row_generation:
  "unat (rr_generation r) < 2 ^ 63 \<Longrightarrow> row_record (row_of now r) = r"
  by (simp add: row_record_def row_of_def)

lemma rr_kind_row_record [simp]: "rr_kind (row_record row) = row_kind row"
  by (simp add: row_record_def)

lemma row_record_update:
  "row_id old = rr_id r \<Longrightarrow> row_record (update_row (row_of now r) old) = r\<lparr>rr_kind := row_kind old\<rparr>"
  by (simp add: row_record_def row_of_def update_row_def)

lemma record_of_ok: "0 \<le> row_generation row \<Longrightarrow> record_of row = Inr (row_record row)"
  by (simp add: record_of_def generation_from_row_def row_record_def)

lemma distinct_upsert: "distinct (map row_id rows) \<Longrightarrow> distinct (map row_id (upsert new rows))"
  by (auto simp: upsert_def list_ex_iff comp_def if_distrib [of row_id] cong: if_cong)

lemma set_upsert: "set (upsert new rows) \<subseteq> insert new (set rows \<union> update_row new ` set rows)"
  by (auto simp: upsert_def)


lemma abs_put:
  assumes ok: "unat (rr_generation r) < 2 ^ 63"
  shows "abs_store (db\<lparr>db_runtimes := upsert (row_of now r) (db_runtimes db)\<rparr>) = spec_put r (abs_store db)"
proof -
  have "map_option row_record (find_row i (upsert (row_of now r) (db_runtimes db)))
      = (sp_records (spec_put r (abs_store db))) i" for i
    by (auto simp: find_row_upsert spec_put_def abs_store_def word_of_row_generation [OF ok]
        row_record_update split: option.splits dest!: find_row_Some)
  then show ?thesis
    by (simp add: abs_store_def spec_put_def interruptions_of_def fun_eq_iff)
qed

lemma store_ok_put:
  assumes ok: "store_ok db" and gen: "unat (rr_generation r) < 2 ^ 63"
  shows "store_ok (db\<lparr>db_runtimes := upsert (row_of now r) (db_runtimes db)\<rparr>)"
proof -
  have new: "0 \<le> row_generation (row_of now r) \<and> row_generation (row_of now r) < 2 ^ 63"
  proof -
    have "int (unat (rr_generation r)) < int (2 ^ 63)" using gen by (simp only: of_nat_less_iff)
    then show ?thesis by (simp add: row_of_def)
  qed
  moreover have "row_generation (update_row (row_of now r) old) = row_generation (row_of now r)" for old
    by (simp add: update_row_def)
  ultimately have "\<forall>x \<in> set (upsert (row_of now r) (db_runtimes db)).
      0 \<le> row_generation x \<and> row_generation x < 2 ^ 63"
    using ok set_upsert [of "row_of now r" "db_runtimes db"] unfolding store_ok_def by (auto simp: subset_eq)
  with ok distinct_upsert [of "db_runtimes db" "row_of now r"] show ?thesis
    by (simp add: store_ok_def)
qed

text \<open>With distinct instances and one unstopped host, the owner is that host.\<close>

lemma unstopped_one:
  assumes "length (unstopped hs) \<le> 1" "h \<in> set hs" "ho_stopped h = None"
  shows "unstopped hs = [h]"
proof -
  have "h \<in> set (unstopped hs)" using assms by (simp add: unstopped_def)
  with assms(1) show ?thesis by (cases "unstopped hs") auto
qed

lemma owner_of_iff:
  assumes "length (unstopped hs) \<le> 1"
  shows "owner_of hs = Some (i, t) \<longleftrightarrow>
    (\<exists>h \<in> set hs. ho_stopped h = None \<and> ho_instance h = i \<and> ho_heartbeat h = t)"
proof (cases "unstopped hs")
  case Nil
  then show ?thesis by (auto simp: owner_of_def unstopped_def filter_empty_conv)
next
  case (Cons h rest)
  then have "h \<in> set hs" "ho_stopped h = None" by (auto simp: unstopped_def filter_eq_Cons_iff)
  with Cons assms show ?thesis
    by (auto simp: owner_of_def dest: unstopped_one [OF assms])
qed

lemma owner_of_None: "owner_of hs = None \<longleftrightarrow> (\<forall>h \<in> set hs. ho_stopped h \<noteq> None)"
  by (cases "unstopped hs") (auto simp: owner_of_def unstopped_def filter_empty_conv filter_eq_Cons_iff)

lemma sum_filter_distinct:
  assumes "distinct (map row_id rows)"
  shows "length (filter (\<lambda>r. row_id r = i \<and> P r) rows)
    = (case find_row i rows of Some r \<Rightarrow> (if P r then 1 else 0) | None \<Rightarrow> 0)"
  using assms
proof (induction rows)
  case (Cons r rows)
  have "row_id r = i \<Longrightarrow> filter (\<lambda>r. row_id r = i \<and> P r) rows = []"
    using Cons.prems by (auto simp: filter_empty_conv) (metis imageI)
  with Cons show ?case by auto
qed simp


text \<open>The lease: one row without an end at most, and what each statement makes of it.\<close>

lemma unstopped_map_heartbeat:
  "unstopped (map (\<lambda>h. if ho_instance h = host \<and> ho_stopped h = None then h\<lparr>ho_heartbeat := now\<rparr> else h) hs)
   = map (\<lambda>h. if ho_instance h = host then h\<lparr>ho_heartbeat := now\<rparr> else h) (unstopped hs)"
  by (induction hs) (auto simp: unstopped_def)

lemma unstopped_release:
  "unstopped (map (\<lambda>h. if ho_instance h = host \<and> ho_stopped h = None then h\<lparr>ho_stopped := Some now\<rparr> else h) hs)
   = filter (\<lambda>h. ho_instance h \<noteq> host) (unstopped hs)"
  by (induction hs) (auto simp: unstopped_def)

lemma comp_instance_if:
  "(\<And>h. ho_instance (f h) = ho_instance h) \<Longrightarrow> ho_instance \<circ> (\<lambda>h. if P h then f h else h) = ho_instance"
  by auto

lemma owner_short:
  assumes "length (unstopped hs) \<le> 1"
  obtains "unstopped hs = []" "owner_of hs = None"
  | h where "unstopped hs = [h]" "ho_stopped h = None" "owner_of hs = Some (ho_instance h, ho_heartbeat h)"
proof (cases "unstopped hs")
  case Nil
  then show thesis by (intro that(1)) (simp_all add: owner_of_def)
next
  case (Cons h rest)
  moreover from this have "ho_stopped h = None" by (auto simp: unstopped_def filter_eq_Cons_iff)
  ultimately show thesis using assms by (intro that(2) [of h]) (auto simp: owner_of_def)
qed

lemma filter_mine: "filter (\<lambda>h. ho_instance h = host \<and> ho_stopped h = None) hs
    = filter (\<lambda>h. ho_instance h = host) (unstopped hs)"
  by (induction hs) (auto simp: unstopped_def)

lemma heartbeat_refines:
  assumes ok: "store_ok db"
  shows "apfst (reply (\<lambda>_. Done)) (heartbeat None host now db) = (r, db') \<Longrightarrow>
    store_ok db' \<and> (r, abs_store db') = spec_op (OpHeartbeat host now) (abs_store db)"
proof -
  from ok have "length (unstopped (db_hosts db)) \<le> 1" by (simp add: store_ok_def)
  then show "apfst (reply (\<lambda>_. Done)) (heartbeat None host now db) = (r, db') \<Longrightarrow> ?thesis"
    by (cases rule: owner_short)
      (use ok in \<open>auto simp: heartbeat_def connection_def Let_def filter_mine store_ok_def abs_store_def
        unstopped_map_heartbeat comp_instance_if interruptions_of_def reply_def owner_of_def
        split: if_splits\<close>)
qed

lemma release_refines:
  assumes ok: "store_ok db"
  shows "apfst (reply (\<lambda>_. Done)) (release None host now db) = (r, db') \<Longrightarrow>
    store_ok db' \<and> (r, abs_store db') = spec_op (OpRelease host now) (abs_store db)"
proof -
  from ok have "length (unstopped (db_hosts db)) \<le> 1" by (simp add: store_ok_def)
  then show "apfst (reply (\<lambda>_. Done)) (release None host now db) = (r, db') \<Longrightarrow> ?thesis"
    by (cases rule: owner_short)
      (use ok in \<open>auto simp: release_def connection_def store_ok_def abs_store_def
        unstopped_release comp_instance_if interruptions_of_def reply_def owner_of_def
        split: if_splits\<close>)
qed


lemma claim_live:
  assumes "length (unstopped hs) \<le> 1"
  shows "live_hosts host cutoff hs =
    (case owner_of hs of
       Some (i, t) \<Rightarrow> (if i \<noteq> host \<and> cutoff < t then unstopped hs else [])
     | None \<Rightarrow> [])"
proof -
  have eq: "filter (\<lambda>h. ho_instance h \<noteq> host \<and> ho_stopped h = None \<and> cutoff < ho_heartbeat h) hs
      = filter (\<lambda>h. ho_instance h \<noteq> host \<and> cutoff < ho_heartbeat h) (unstopped hs)"
    by (induction hs) (auto simp: unstopped_def)
  from assms show ?thesis
    unfolding live_hosts_def eq by (cases rule: owner_short) auto
qed

lemma instances_upsert_host:
  "distinct (map ho_instance hs) \<Longrightarrow> distinct (map ho_instance (upsert_host host now hs))"
  by (auto simp: upsert_host_def list_ex_iff comp_instance_if)

lemma unstopped_claim:
  assumes inst: "distinct (map ho_instance hs)"
    and rest: "\<And>h. h \<in> set hs \<Longrightarrow> ho_instance h \<noteq> host \<Longrightarrow> ho_stopped h \<noteq> None"
  shows "\<exists>h. unstopped (upsert_host host now hs) = [h] \<and> ho_instance h = host \<and> ho_heartbeat h = now"
proof (cases "host \<in> ho_instance ` set hs")
  case False
  then have "unstopped hs = []"
    using rest by (auto simp: unstopped_def filter_empty_conv)
  moreover have "upsert_host host now hs = hs @ [\<lparr>ho_instance = host, ho_heartbeat = now, ho_stopped = None\<rparr>]"
    using False by (simp add: upsert_host_def list_ex_key)
  ultimately show ?thesis by (simp add: unstopped_def)
next
  case True
  then have up: "upsert_host host now hs
      = map (\<lambda>h. if ho_instance h = host then h\<lparr>ho_heartbeat := now, ho_stopped := None\<rparr> else h) hs"
    by (simp add: upsert_host_def list_ex_key)
  from True obtain h where h: "h \<in> set hs" "ho_instance h = host" by auto
  then obtain xs ys where hs: "hs = xs @ h # ys" by (auto dest: split_list)
  with inst h have "\<forall>x \<in> set xs \<union> set ys. ho_instance x \<noteq> host" 
    unfolding hs by auto (metis imageI)+
  with rest hs h show ?thesis
    unfolding up by (auto simp: unstopped_def filter_empty_conv)
qed

definition mark_orphan :: "string \<Rightarrow> int \<Rightarrow> runtime_row \<Rightarrow> runtime_row" where
  "mark_orphan host epoch r =
     (if orphaned host r then r\<lparr>row_state := ''interrupted'', row_updated := epoch\<rparr> else r)"

lemma row_id_mark_orphan [simp]: "row_id (mark_orphan host epoch r) = row_id r"
  "row_generation (mark_orphan host epoch r) = row_generation r"
  by (simp_all add: mark_orphan_def)

lemma spec_orphaned_record [simp]: "spec_orphaned host (row_record r) = orphaned host r"
  by (simp add: spec_orphaned_def orphaned_def row_record_def)

lemma row_record_mark_orphan:
  "row_record (mark_orphan host epoch r) =
     (if orphaned host r then (row_record r)\<lparr>rr_state := ''interrupted''\<rparr> else row_record r)"
  by (simp add: mark_orphan_def row_record_def)

lemma claim_refines:
  assumes ok: "store_ok db"
    and run: "apfst (reply (\<lambda>_. Done)) (claim_host host now stale epoch db) = (r, db')"
  shows "store_ok db' \<and> (r, abs_store db') = spec_op (OpClaim host now stale epoch) (abs_store db)"
proof -
  define cutoff where "cutoff = sat_sub_i64 now stale"
  have one: "length (unstopped (db_hosts db)) \<le> 1" and ids: "distinct (map row_id (db_runtimes db))"
    and inst: "distinct (map ho_instance (db_hosts db))" using ok by (simp_all add: store_ok_def)
  have refused: "spec_refused host now stale (abs_store db) =
      (case live_hosts host cutoff (db_hosts db) of [] \<Rightarrow> None | h # _ \<Rightarrow> Some (ho_instance h))"
    unfolding claim_live [OF one] using one
    by (cases rule: owner_short) (simp_all add: spec_refused_def abs_store_def cutoff_def)
  show ?thesis
  proof (cases "live_hosts host cutoff (db_hosts db)")
    case (Cons h hs)
    with run refused ok show ?thesis
      by (auto simp: claim_host_def cutoff_def [symmetric] Let_def reply_def)
  next
    case Nil
    define hosts where "hosts = map (\<lambda>h. if ho_instance h \<noteq> host \<and> ho_stopped h = None \<and>
      ho_heartbeat h \<le> cutoff then h\<lparr>ho_stopped := Some now\<rparr> else h) (db_hosts db)"
    have fin: "r = Inr Done" and db': "db' =
       \<lparr>db_runtimes = map (mark_orphan host epoch) (db_runtimes db),
        db_interruptions = db_interruptions db @
          map (\<lambda>r. \<lparr>in_runtime = row_id r, in_generation = row_generation r,
                    in_reason = ''runtime-host-stale'', in_at = epoch\<rparr>) (filter (orphaned host) (db_runtimes db)),
        db_hosts = upsert_host host now hosts\<rparr>"
      using run Nil by (auto simp: claim_host_def cutoff_def [symmetric] Let_def reply_def hosts_def
          mark_orphan_def [abs_def])
    have inst': "distinct (map ho_instance hosts)"
      using inst by (simp add: hosts_def comp_instance_if)
    have quiet: "\<not> cutoff < ho_heartbeat h"
      if "h \<in> set (db_hosts db)" "ho_instance h \<noteq> host" "ho_stopped h = None" for h
      using that arg_cong [OF Nil, of set] by (auto simp: live_hosts_def)
    have "ho_stopped h \<noteq> None" if "h \<in> set hosts" "ho_instance h \<noteq> host" for h
      using that quiet by (fastforce simp: hosts_def not_less split: if_splits)
    from unstopped_claim [OF inst' this]
    obtain h where h: "unstopped (upsert_host host now hosts) = [h]" "ho_instance h = host" "ho_heartbeat h = now"
      by blast
    have ok': "store_ok db'"
      using ok instances_upsert_host [OF inst'] h by (auto simp: store_ok_def db' comp_def)
    have count: "length (filter (\<lambda>r. orphaned host r \<and> row_id r = i) (db_runtimes db)) =
        (case find_row i (db_runtimes db) of Some r \<Rightarrow> (if orphaned host r then 1 else 0) | None \<Rightarrow> 0)" for i
      using sum_filter_distinct [OF ids, of i "orphaned host"] by (simp add: conj_commute)
    have "abs_store db' = spec_claim host now (abs_store db)"
      unfolding abs_store_def spec_claim_def db'
      by (auto simp: fun_eq_iff find_row_map interruptions_of_def count owner_of_def h
          option.map_comp comp_def row_record_mark_orphan split: option.splits)
    with ok' show ?thesis using fin refused Nil by simp
  qed
qed

lemma store_exec_refines:
  assumes ok: "store_ok db" and run: "store_exec call db = (r, db')"
  shows "store_ok db' \<and> spec_exec call (abs_store db) = (r, abs_store db')"
proof -
  obtain fault op where call: "call = (fault, op)" by (cases call)
  show ?thesis
  proof (cases op)
    case (OpPut now rec)
    with ok run call show ?thesis
      by (cases fault) (auto simp: put_def connection_def reply_def spec_exec_def store_ok_put abs_put not_le
          split: if_splits)
  next
    case (OpGet i)
    have "\<forall>row. find_row i (db_runtimes db) = Some row \<longrightarrow> record_of row = Inr (row_record row)"
      using ok by (auto simp: store_ok_def dest!: find_row_Some intro: record_of_ok)
    with ok run call OpGet show ?thesis
      by (cases fault) (auto simp: get_def connection_def reply_def spec_exec_def abs_store_def
          split: option.splits)
  next
    case (OpCount i)
    with ok run call show ?thesis
      by (cases fault) (auto simp: interruption_count_def connection_def reply_def spec_exec_def abs_store_def)
  next
    case (OpHeartbeat h now)
    with ok run call heartbeat_refines [OF ok, of h now r db'] show ?thesis
      by (cases fault) (auto simp: heartbeat_def [of "Some _"] connection_def [of "Some _"] reply_def spec_exec_def)
  next
    case (OpRelease h now)
    with ok run call release_refines [OF ok, of h now r db'] show ?thesis
      by (cases fault) (auto simp: release_def [of "Some _"] connection_def [of "Some _"] reply_def spec_exec_def)
  next
    case (OpClaim h now stale epoch)
    with ok run call claim_refines [OF ok, of h now stale epoch r db'] show ?thesis
      by (cases fault) (auto simp: spec_exec_def)
  qed
qed

lemma run_calls_refines:
  "store_ok db \<Longrightarrow> run_calls_on store_exec calls db = (rs, db') \<Longrightarrow>
   store_ok db' \<and> run_calls_on spec_exec calls (abs_store db) = (rs, abs_store db')"
proof (induction calls arbitrary: db rs)
  case (Cons c cs)
  from Cons.prems(2) obtain r db1 rs1 where
    "store_exec c db = (r, db1)" "run_calls_on store_exec cs db1 = (rs1, db')" "rs = r # rs1"
    by (auto simp: Let_def split: prod.splits)
  with store_exec_refines [OF Cons.prems(1)] Cons.IH [of db1 rs1] show ?case by simp
qed simp

definition spec_empty :: store_spec where
  "spec_empty = \<lparr>sp_records = (\<lambda>_. None), sp_torn = (\<lambda>_. 0), sp_owner = None\<rparr>"

lemma store_ok_empty: "store_ok empty_db" "abs_store empty_db = spec_empty"
  by (auto simp: store_ok_def empty_db_def unstopped_def abs_store_def spec_empty_def
      interruptions_of_def owner_of_def)

text \<open>C14: Refinement: whatever sequence of puts, gets, counts, heartbeats, releases and claims
  hosts send to a new database, with faults anywhere, every answer is that of the
  specification: a map from ids to records, a count of interruptions per id and one owner with
  its last heartbeat. In the specification a claim by another host is refused exactly while the
  owner's heartbeat is younger than the cutoff, a claim that succeeds marks exactly the
  other hosts' unfinished records interrupted and counts each once, and only the owner's
  heartbeat is accepted.\<close>

theorem store_refines_spec:
  "fst (run_calls_on store_exec calls empty_db) = fst (run_calls_on spec_exec calls spec_empty)"
  using run_calls_refines [OF store_ok_empty(1), of calls] by (cases "run_calls_on store_exec calls empty_db") (simp add: store_ok_empty)

section \<open>The interface of the store\<close>

text \<open>What a client of the store relies on: a put that succeeds changes the one record, whose
  kind stays what it was first, and a put that fails changes nothing.\<close>

locale record_store =
  fixes sput :: "runtime_record \<Rightarrow> 's \<Rightarrow> (store_error + unit) \<times> 's"
    and sget :: "string \<Rightarrow> 's \<Rightarrow> runtime_record option"
  assumes put_done: "sput r s = (Inr (), s') \<Longrightarrow> sget i s' =
      (if i = rr_id r
       then Some (case sget i s of None \<Rightarrow> r | Some old \<Rightarrow> r\<lparr>rr_kind := rr_kind old\<rparr>)
       else sget i s)"
    and put_failed: "sput r s = (Inl e, s') \<Longrightarrow> s' = s"
begin

lemma put_other: "sput r s = (x, s') \<Longrightarrow> i \<noteq> rr_id r \<Longrightarrow> sget i s' = sget i s"
  by (cases x) (auto dest: put_failed simp: put_done)

lemma kind_stays:
  assumes "sput r s = (x, s')" "sget i s = Some a"
  shows "\<exists>b. sget i s' = Some b \<and> rr_kind b = rr_kind a"
  using assms by (cases x) (auto dest: put_failed simp: put_done)

lemma put_known:
  assumes "sput r s = (Inr (), s')"
  shows "\<exists>a. sget (rr_id r) s' = Some a \<and> rr_state a = rr_state r \<and>
    rr_generation a = rr_generation r \<and> rr_host a = rr_host r \<and> rr_checkpoint a = rr_checkpoint r"
  using put_done [OF assms, of "rr_id r"] by (auto split: option.splits)

end

definition stored :: "string \<Rightarrow> runtime_db \<Rightarrow> runtime_record option" where
  "stored i db = map_option row_record (find_row i (db_runtimes db))"

lemma put_cases:
  "put fault now r db =
     (if 2 ^ 63 \<le> unat (rr_generation r) then (Inl ''runtime generation overflow'', db)
      else case fault of Some e \<Rightarrow> (Inl e, db)
           | None \<Rightarrow> (Inr (), db\<lparr>db_runtimes := upsert (row_of now r) (db_runtimes db)\<rparr>))"
  by (cases fault) (simp_all add: put_def connection_def)

lemma put_Inr_iff:
  "put fault now r db = (Inr (), db') \<longleftrightarrow> unat (rr_generation r) < 2 ^ 63 \<and> fault = None \<and>
     db' = db\<lparr>db_runtimes := upsert (row_of now r) (db_runtimes db)\<rparr>"
  by (cases fault) (auto simp: put_cases)

lemma stored_put:
  assumes "put fault now r db = (Inr (), db')"
  shows "stored i db' = (if i = rr_id r
       then Some (case stored i db of None \<Rightarrow> r | Some old \<Rightarrow> r\<lparr>rr_kind := rr_kind old\<rparr>)
       else stored i db)"
proof -
  from assms have g: "unat (rr_generation r) < 2 ^ 63"
    and db': "db' = db\<lparr>db_runtimes := upsert (row_of now r) (db_runtimes db)\<rparr>"
    unfolding put_Inr_iff by simp_all
  have "stored i db' = sp_records (abs_store db') i" by (simp add: stored_def abs_store_def)
  also have "\<dots> = sp_records (spec_put r (abs_store db)) i"
    unfolding db' abs_put [OF g] ..
  finally show ?thesis by (simp add: spec_put_def abs_store_def stored_def)
qed

interpretation rt: record_store "put fault now" stored for fault now
  by unfold_locales (auto simp: stored_put put_cases split: if_splits option.splits)

lemma get_stored:
  assumes "store_ok db"
  shows "get None i db = Inr (stored i db)"
proof -
  have "\<forall>row. find_row i (db_runtimes db) = Some row \<longrightarrow> record_of row = Inr (row_record row)"
    using assms by (auto simp: store_ok_def dest!: find_row_Some intro: record_of_ok)
  then show ?thesis by (auto simp: get_def connection_def stored_def split: option.splits)
qed

section \<open>Listing\<close>

lemma collect_rows_ok:
  "\<forall>r \<in> set rows. 0 \<le> row_generation r \<Longrightarrow> collect_rows rows = Inr (map row_record rows)"
  by (induction rows) (simp_all add: record_of_ok)

lemma rr_id_row_record [simp]: "rr_id (row_record row) = row_id row"
  by (simp add: row_record_def)

text \<open>Every record is listed exactly once, oldest first.\<close>

lemma list_runtimes_complete:
  assumes "store_ok db"
  shows "\<exists>rs. list_runtimes None db = Inr rs \<and> distinct (map rr_id rs) \<and>
    (\<forall>i r. stored i db = Some r \<longleftrightarrow> r \<in> set rs \<and> rr_id r = i)"
proof -
  let ?rows = "sort_key list_order (db_runtimes db)"
  have "list_runtimes None db = Inr (map row_record ?rows)"
    using assms by (simp add: list_runtimes_def connection_def collect_rows_ok store_ok_def)
  moreover have "distinct (map rr_id (map row_record ?rows))"
    using assms by (simp add: store_ok_def comp_def distinct_map inj_on_def)
  moreover have "stored i db = Some r \<longleftrightarrow> r \<in> set (map row_record ?rows) \<and> rr_id r = i" for i r
  proof
    assume "stored i db = Some r"
    then show "r \<in> set (map row_record ?rows) \<and> rr_id r = i"
      by (auto simp: stored_def dest!: find_row_Some)
  next
    assume "r \<in> set (map row_record ?rows) \<and> rr_id r = i"
    then obtain row where r: "row \<in> set (db_runtimes db)" "r = row_record row" and "rr_id r = i"
      unfolding set_map set_sort by blast
    from this(2,3) have "row_id row = i" by simp
    note row = r this
    then have "i \<in> row_id ` set (db_runtimes db)" by (metis imageI)
    then obtain row' where row': "find_row i (db_runtimes db) = Some row'"
      using find_row_None [of i "db_runtimes db"] by (cases "find_row i (db_runtimes db)") simp_all
    have "inj_on row_id (set (db_runtimes db))" using assms by (simp add: store_ok_def distinct_map)
    then have "row' = row" by (rule inj_onD) (use find_row_Some [OF row'] row in simp_all)
    with row row' show "stored i db = Some r" by (simp add: stored_def)
  qed
  ultimately show ?thesis by blast
qed


section \<open>The lease does not fence writes\<close>

text \<open>A supervisor that loses its lease to another learns it only from its next heartbeat:
  from the other's claim on its heartbeats are refused and leave the database as it is, but its
  puts succeed all the same and overwrite what the claim recorded, the interrupted state
  included.\<close>

theorem superseded_host_still_writes:
  assumes ok: "store_ok db" and claim: "claim_host new now stale epoch db = (Inr (), db1)"
    and other: "rr_host r \<noteq> new" and gen: "unat (rr_generation r) < 2 ^ 63"
  shows "heartbeat None (rr_host r) t db1 = (Inl ''runtime host lease is no longer owned'', db1) \<and>
    (\<exists>db2. put None t r db1 = (Inr (), db2) \<and> db_hosts db2 = db_hosts db1 \<and>
      (\<exists>a. stored (rr_id r) db2 = Some a \<and> rr_state a = rr_state r \<and> rr_host a = rr_host r))"
proof -
  have "apfst (reply (\<lambda>_. Done)) (claim_host new now stale epoch db) = (Inr Done, db1)"
    by (simp add: claim reply_def)
  from claim_refines [OF ok this] have ok1: "store_ok db1" and owner: "owner_of (db_hosts db1) = Some (new, now)"
    by (auto simp: abs_store_def spec_claim_def split: option.splits)
  from ok1 owner have free: "\<forall>h \<in> set (db_hosts db1). ho_stopped h = None \<longrightarrow> ho_instance h \<noteq> rr_host r"
    using other owner_of_iff [of "db_hosts db1"] unstopped_one [of "db_hosts db1"]
    by (auto simp: store_ok_def owner_of_def split: list.splits)
  then have "map (\<lambda>h. if ho_instance h = rr_host r \<and> ho_stopped h = None then h\<lparr>ho_heartbeat := t\<rparr> else h)
      (db_hosts db1) = db_hosts db1"
    by (intro map_idI) (auto split: if_split)
  moreover have "filter (\<lambda>h. ho_instance h = rr_host r \<and> ho_stopped h = None) (db_hosts db1) = []"
    using free by (auto simp: filter_empty_conv)
  ultimately have beat: "heartbeat None (rr_host r) t db1 = (Inl ''runtime host lease is no longer owned'', db1)"
    by (simp add: heartbeat_def connection_def)
  obtain db2 where db2: "put None t r db1 = (Inr (), db2)" "db_hosts db2 = db_hosts db1"
    using gen by (auto simp: put_Inr_iff)
  with beat rt.put_known [OF db2(1)] show ?thesis by blast
qed

definition demo_record :: "string \<Rightarrow> string \<Rightarrow> runtime_record" where
  "demo_record host state = \<lparr>rr_id = ''t'', rr_kind = ''terminal'', rr_generation = 1,
     rr_state = state, rr_host = host, rr_checkpoint = None\<rparr>"

definition demo_db :: runtime_db where
  "demo_db = snd (put None 0 (demo_record ''a'' ''attached'') (snd (claim_host ''a'' 0 5 0 empty_db)))"

lemmas store_eval = demo_db_def demo_record_def empty_db_def put_def connection_def claim_host_def
  live_hosts_def sat_sub_i64_def upsert_host_def orphaned_def terminal_states_def upsert_def row_of_def

lemma superseded_host_still_writes_witness:
  "heartbeat None ''a'' 11 (snd (claim_host ''b'' 10 5 10 demo_db))
    = (Inl ''runtime host lease is no longer owned'', snd (claim_host ''b'' 10 5 10 demo_db)) \<and>
   (\<exists>db2. put None 11 (demo_record ''a'' ''attached'') (snd (claim_host ''b'' 10 5 10 demo_db)) = (Inr (), db2))"
proof -
  have "store_ok demo_db" by (simp add: store_eval store_ok_def unstopped_def)
  moreover have "claim_host ''b'' 10 5 10 demo_db = (Inr (), snd (claim_host ''b'' 10 5 10 demo_db))"
    by (simp add: store_eval)
  moreover have "rr_host (demo_record ''a'' ''attached'') = ''a''"
    "unat (rr_generation (demo_record ''a'' ''attached'')) < 2 ^ 63" by (simp_all add: demo_record_def)
  ultimately show ?thesis
    using superseded_host_still_writes [of demo_db "''b''" 10 5 10 _ "demo_record ''a'' ''attached''" 11]
    by fastforce
qed

section \<open>Opening\<close>

lemma validate_blank: "validate_schema blank_schema = Inl ''not the current V3 runtime.db schema''"
  by (simp add: validate_schema_def blank_schema_def APPLICATION_ID_def)

text \<open>A start that is cut off after SQLite created the file and before the first
  transaction committed leaves a file that no later start accepts: whoever opens it, whenever,
  is told that it is not the current schema, and the file stays as it is.\<close>

theorem torn_creation_refused:
  "open_at fault host2 now2 stale2 epoch2 (snd (open_at (CreateFault e) host now stale epoch None))
   = (Inl ''not the current V3 runtime.db schema'', snd (open_at (CreateFault e) host now stale epoch None))"
  by (simp add: open_at_def validate_blank)

text \<open>A first start that is not cut off writes the current schema and takes the lease; a file
  whose schema is not the current one is never changed.\<close>

definition current_schema :: db_schema where
  "current_schema = \<lparr>sc_application = APPLICATION_ID, sc_version = SCHEMA_VERSION,
     sc_tables = current_tables, sc_migrations = [SCHEMA_VERSION]\<rparr>"

lemma validate_iff_current: "validate_schema sc = Inr () \<longleftrightarrow> sc = current_schema"
proof
  assume valid: "validate_schema sc = Inr ()"
  then have names: "map fst (sc_tables sc) = TABLES" and rest: "sc_application sc = APPLICATION_ID"
    "sc_version sc = SCHEMA_VERSION" "sc_migrations sc = [SCHEMA_VERSION]"
    and cols: "\<forall>(t, cols) \<in> set current_tables. map_of (sc_tables sc) t = Some cols"
    by (auto simp: validate_schema_def find_None_iff split: if_splits option.splits)
  from names obtain a b c d where "sc_tables sc = [(''runtime_hosts'', a),
      (''runtime_interruptions'', b), (''runtimes'', c), (''schema_migrations'', d)]"
    by (auto simp: TABLES_def map_eq_Cons_conv)
  with cols have "sc_tables sc = current_tables" by (simp add: current_tables_def)
  with rest show "sc = current_schema" by (cases sc) (simp add: current_schema_def)
next
  assume "sc = current_schema"
  then show "validate_schema sc = Inr ()"
    by (simp add: validate_schema_def current_schema_def TABLES_def current_tables_def)
qed

lemma open_rejects_unchanged:
  "sc \<noteq> current_schema \<Longrightarrow> \<exists>e. open_at fault host now stale epoch (Some (sc, db)) = (Inl e, Some (sc, db))"
  by (cases "validate_schema sc") (auto simp: open_at_def validate_iff_current)

lemma migrate_current: "migrate current_schema = current_schema"
  by (simp add: migrate_def current_schema_def current_tables_def)

lemma open_current:
  "open_at NoFault host now stale epoch (Some (current_schema, db)) =
     (let (r, db') = claim_host host now stale epoch db in (r, Some (current_schema, db')))"
  by (simp add: open_at_def validate_iff_current [THEN iffD2] migrate_current)

lemma migrate_blank: "migrate blank_schema = current_schema"
  by (simp add: migrate_def blank_schema_def current_schema_def current_tables_def)

lemma open_fresh:
  "open_at NoFault host now stale epoch None =
     (Inr (), Some (current_schema, snd (claim_host host now stale epoch empty_db)))"
  by (simp add: open_at_def validate_iff_current [THEN iffD2] migrate_blank claim_host_def
      empty_db_def live_hosts_def Let_def)

end
