(* ===== verification/Term_Backend.thy ===== *)
theory Term_Backend
  imports Term_Replay Term_Sessions Runtime_Store "HOL-Library.AList"
begin

text \<open>
  Helper-owned terminal sessions (\<open>crates/tabverse-term/src/backend.rs\<close>). The state of a
  session lives in an \<open>Arc\<close> that the PTY's callbacks keep after the row is gone, so the rows and
  the states are two maps. A sink is whatever identifies its owner; what it is told is logged.
  Each operation is the sequence of its lock regions; where the source gives up the lock in
  between (the callbacks, the end of a spawn) the regions are definitions of their own, so that
  their interleavings can be written down.
\<close>

section \<open>State\<close>

record 'k rt_state =
  st_replay :: replay_ring
  st_sink :: "'k option"
  st_exited :: "32 word option option"

record runtime_session =
  se_internal :: string
  se_cwd :: "string option"
  se_generation :: "64 word"

datatype sink_event = OnOutput bytes | OnExit "32 word option"

record ('k, 'w) helper =
  hp_terms :: "'w terms"
  hp_sessions :: "(session_id \<times> runtime_session) list"
  hp_states :: "session_id \<Rightarrow> 'k rt_state option"
  hp_store :: "runtime_db option"
  hp_host :: string
  hp_log :: "('k \<times> sink_event) list"

record session_meta =
  me_id :: session_id
  me_generation :: "64 word"
  me_cwd :: "string option"
  me_exited :: "32 word option option"
  me_attached :: bool

text \<open>What a call meets: the host, the JSON printer, SQLite's clock and its fault, if any.\<close>

record 'w site =
  si_host :: "'w host"
  si_render :: "json \<Rightarrow> string"
  si_now :: int
  si_fault :: "store_error option"

definition helper_new :: "'w \<Rightarrow> ('k, 'w) helper" where
  "helper_new w =
     \<lparr>hp_terms = \<lparr>tm_ids = [], tm_world = w\<rparr>, hp_sessions = [], hp_states = (\<lambda>_. None),
      hp_store = None, hp_host = ''ephemeral'', hp_log = []\<rparr>"

definition helper_persistent :: "'w \<Rightarrow> runtime_db \<Rightarrow> string \<Rightarrow> ('k, 'w) helper" where
  "helper_persistent w db host =
     \<lparr>hp_terms = \<lparr>tm_ids = [], tm_world = w\<rparr>, hp_sessions = [], hp_states = (\<lambda>_. None),
      hp_store = Some db, hp_host = host, hp_log = []\<rparr>"

section \<open>Parts of the operations\<close>

text \<open>\<open>Debug\<close> of an id; a row with its state.\<close>

definition debug_id :: "session_id \<Rightarrow> string" where
  "debug_id i = ''SessionId('' @ to_hex i @ '')''"

definition find_session ::
  "('k, 'w) helper \<Rightarrow> session_id \<Rightarrow> string + runtime_session \<times> 'k rt_state" where
  "find_session hp i =
     (case (map_of (hp_sessions hp) i, hp_states hp i) of
        (Some s, Some st) \<Rightarrow> Inr (s, st)
      | _ \<Rightarrow> Inl (''unknown helper session '' @ debug_id i))"

definition show_u64 :: "64 word \<Rightarrow> string" where
  "show_u64 w = show_nat (unat w)"

text \<open>How \<open>ProtocolError\<close> prints.\<close>

fun protocol_error_text :: "protocol_error \<Rightarrow> string" where
  "protocol_error_text (FrameTooLarge n) = ''frame body is too large: '' @ show_nat n"
| "protocol_error_text (FrameTooShort n) = ''frame body is too short: '' @ show_nat n"
| "protocol_error_text (UnknownVersion v) = ''unsupported protocol version: '' @ show_nat (unat v)"
| "protocol_error_text (UnknownKind v) = ''unknown frame kind: '' @ show_nat (unat v)"
| "protocol_error_text Unauthorized = ''unauthorized helper connection''"
| "protocol_error_text (StaleGeneration expected received) =
     ''stale generation: expected '' @ show_u64 expected @ '', received '' @ show_u64 received"
| "protocol_error_text InvalidSessionId = ''invalid helper session id''"
| "protocol_error_text Poisoned = ''decoder rejected an earlier frame''"
| "protocol_error_text AttachInProgress = ''an attach is already in progress''"
| "protocol_error_text NoAttachInProgress = ''no attach is in progress''"

definition check_generation :: "runtime_session \<Rightarrow> 64 word \<Rightarrow> string + unit" where
  "check_generation s received =
     (if received \<noteq> se_generation s
      then Inl (''stale helper session generation: expected '' @ show_u64 (se_generation s) @
                '', received '' @ show_u64 received)
      else Inr ())"

definition record_for ::
  "'w site \<Rightarrow> string \<Rightarrow> session_id \<Rightarrow> 64 word \<Rightarrow> string \<Rightarrow> string option \<Rightarrow> runtime_record" where
  "record_for si host i g state cwd =
     \<lparr>rr_id = to_hex i, rr_kind = ''terminal'', rr_generation = g, rr_state = state, rr_host = host,
      rr_checkpoint = map_option (\<lambda>d. si_render si (JObj [(''cwd'', JStr d)])) cwd\<rparr>"

definition persist ::
  "'w site \<Rightarrow> session_id \<Rightarrow> 64 word \<Rightarrow> string \<Rightarrow> string option \<Rightarrow> ('k, 'w) helper
   \<Rightarrow> (string + unit) \<times> ('k, 'w) helper" where
  "persist si i g state cwd hp =
     (case hp_store hp of
        None \<Rightarrow> (Inr (), hp)
      | Some db \<Rightarrow>
          (let (r, db') = put (si_fault si) (si_now si) (record_for si (hp_host hp) i g state cwd) db
           in (r, hp\<lparr>hp_store := Some db'\<rparr>)))"

definition set_state ::
  "session_id \<Rightarrow> ('k rt_state \<Rightarrow> 'k rt_state) \<Rightarrow> ('k, 'w) helper \<Rightarrow> ('k, 'w) helper" where
  "set_state i f hp = hp\<lparr>hp_states := (hp_states hp)(i := map_option f (hp_states hp i))\<rparr>"

definition sink_of :: "session_id \<Rightarrow> ('k, 'w) helper \<Rightarrow> 'k option" where
  "sink_of i hp = (case hp_states hp i of Some st \<Rightarrow> st_sink st | None \<Rightarrow> None)"

definition tell :: "'k option \<Rightarrow> sink_event \<Rightarrow> ('k, 'w) helper \<Rightarrow> ('k, 'w) helper" where
  "tell sink ev hp = (case sink of Some k \<Rightarrow> hp\<lparr>hp_log := hp_log hp @ [(k, ev)]\<rparr> | None \<Rightarrow> hp)"

text \<open>\<open>fetch_add(1)\<close> on the row's counter; it wraps.\<close>

definition bump_generation :: "session_id \<Rightarrow> ('k, 'w) helper \<Rightarrow> ('k, 'w) helper" where
  "bump_generation i hp =
     (case map_of (hp_sessions hp) i of
        Some s \<Rightarrow> hp\<lparr>hp_sessions := AList.update i (s\<lparr>se_generation := se_generation s + 1\<rparr>) (hp_sessions hp)\<rparr>
      | None \<Rightarrow> hp)"

definition forget_session :: "session_id \<Rightarrow> ('k, 'w) helper \<Rightarrow> ('k, 'w) helper" where
  "forget_session i hp = hp\<lparr>hp_sessions := AList.delete i (hp_sessions hp)\<rparr>"

section \<open>The PTY's callbacks\<close>

text \<open>Under the state lock, the chunk goes into the ring and the sink is read; it is told after
  the lock is given up.\<close>

definition data_push :: "session_id \<Rightarrow> bytes \<Rightarrow> ('k, 'w) helper \<Rightarrow> 'k option \<times> ('k, 'w) helper" where
  "data_push i bs hp =
     (let hp1 = set_state i (\<lambda>st. st\<lparr>st_replay := ring_push (st_replay st) bs\<rparr>) hp
      in (sink_of i hp1, hp1))"

definition on_data :: "session_id \<Rightarrow> bytes \<Rightarrow> ('k, 'w) helper \<Rightarrow> ('k, 'w) helper" where
  "on_data i bs hp = (let (sink, hp1) = data_push i bs hp in tell sink (OnOutput bs) hp1)"

definition exit_mark ::
  "session_id \<Rightarrow> 32 word option \<Rightarrow> ('k, 'w) helper \<Rightarrow> 'k option \<times> ('k, 'w) helper" where
  "exit_mark i code hp =
     (let hp1 = set_state i (\<lambda>st. st\<lparr>st_exited := Some code\<rparr>) hp in (sink_of i hp1, hp1))"

definition exit_record :: "'w site \<Rightarrow> session_id \<Rightarrow> ('k, 'w) helper \<Rightarrow> ('k, 'w) helper" where
  "exit_record si i hp =
     (case hp_store hp of
        None \<Rightarrow> hp
      | Some db \<Rightarrow>
          (case get (si_fault si) (to_hex i) db of
             Inr (Some rec) \<Rightarrow>
               hp\<lparr>hp_store := Some (snd (put (si_fault si) (si_now si) (rec\<lparr>rr_state := ''exited''\<rparr>) db))\<rparr>
           | _ \<Rightarrow> hp))"

text \<open>The waiter thread: the callback, and then the session manager forgets the PTY.\<close>

definition on_exit ::
  "'w site \<Rightarrow> session_id \<Rightarrow> string \<Rightarrow> 32 word option \<Rightarrow> ('k, 'w) helper \<Rightarrow> ('k, 'w) helper" where
  "on_exit si i internal code hp =
     (let (sink, hp1) = exit_mark i code hp;
          hp2 = exit_record si i (forget_session i (tell sink (OnExit code) hp1))
      in hp2\<lparr>hp_terms := terms_remove internal (hp_terms hp2)\<rparr>)"

section \<open>Operations\<close>

text \<open>Spawning: the shell starts; the row is inserted; unless the shell is dead by then, its
  record is written. The id is a fresh random one.\<close>

definition spawn_create ::
  "'w site \<Rightarrow> session_id \<Rightarrow> 'k \<Rightarrow> spawn_opts \<Rightarrow> ('k, 'w) helper \<Rightarrow> (string + string) \<times> ('k, 'w) helper" where
  "spawn_create si i sink opts hp =
     (let hp1 = hp\<lparr>hp_states := (hp_states hp)(i \<mapsto>
                  \<lparr>st_replay = ring_default, st_sink = Some sink, st_exited = None\<rparr>)\<rparr>;
          (r, t) = create (si_host si) opts (hp_terms hp1)
      in (r, hp1\<lparr>hp_terms := t\<rparr>))"

definition spawn_insert ::
  "session_id \<Rightarrow> string \<Rightarrow> string option \<Rightarrow> ('k, 'w) helper \<Rightarrow> ('k, 'w) helper" where
  "spawn_insert i internal cwd hp =
     hp\<lparr>hp_sessions := AList.update i \<lparr>se_internal = internal, se_cwd = cwd, se_generation = 1\<rparr> (hp_sessions hp)\<rparr>"

definition has_exited :: "session_id \<Rightarrow> ('k, 'w) helper \<Rightarrow> bool" where
  "has_exited i hp = (case hp_states hp i of Some st \<Rightarrow> st_exited st \<noteq> None | None \<Rightarrow> False)"

definition spawn_settle ::
  "'w site \<Rightarrow> session_id \<Rightarrow> string option \<Rightarrow> bool \<Rightarrow> ('k, 'w) helper \<Rightarrow> (string + session_id) \<times> ('k, 'w) helper" where
  "spawn_settle si i cwd exited hp =
     (if exited then (Inr i, forget_session i hp)
      else (case persist si i 1 ''attached'' cwd hp of
              (Inl e, hp1) \<Rightarrow> (Inl e, hp1)
            | (Inr _, hp1) \<Rightarrow> (Inr i, hp1)))"

definition spawn ::
  "'w site \<Rightarrow> session_id \<Rightarrow> 'k \<Rightarrow> spawn_opts \<Rightarrow> ('k, 'w) helper \<Rightarrow> (string + session_id) \<times> ('k, 'w) helper" where
  "spawn si i sink opts hp =
     (case spawn_create si i sink opts hp of
        (Inl e, hp1) \<Rightarrow> (Inl e, hp1)
      | (Inr internal, hp1) \<Rightarrow>
          (let hp2 = spawn_insert i internal (so_cwd opts) hp1
           in spawn_settle si i (so_cwd opts) (has_exited i hp2) hp2))"

definition current_session ::
  "session_id \<Rightarrow> 64 word \<Rightarrow> ('k, 'w) helper \<Rightarrow> string + runtime_session \<times> 'k rt_state" where
  "current_session i g hp =
     res_bind (find_session hp i) (\<lambda>(s, st). res_bind (check_generation s g) (\<lambda>_. Inr (s, st)))"

definition attached_terms ::
  "session_id \<Rightarrow> 64 word \<Rightarrow> (string \<Rightarrow> 'w terms \<Rightarrow> (string + unit) \<times> 'w terms) \<Rightarrow> ('k, 'w) helper
   \<Rightarrow> (string + unit) \<times> ('k, 'w) helper" where
  "attached_terms i g act hp =
     (case current_session i g hp of
        Inl e \<Rightarrow> (Inl e, hp)
      | Inr (s, st) \<Rightarrow>
          (if st_sink st = None then (Inl ''session is detached'', hp)
           else (let (r, t) = act (se_internal s) (hp_terms hp) in (r, hp\<lparr>hp_terms := t\<rparr>))))"

definition helper_write ::
  "'w site \<Rightarrow> session_id \<Rightarrow> 64 word \<Rightarrow> bytes \<Rightarrow> ('k, 'w) helper \<Rightarrow> (string + unit) \<times> ('k, 'w) helper" where
  "helper_write si i g data = attached_terms i g (\<lambda>internal. terms_write (si_host si) internal data)"

definition helper_resize ::
  "'w site \<Rightarrow> session_id \<Rightarrow> 64 word \<Rightarrow> nat \<Rightarrow> nat \<Rightarrow> ('k, 'w) helper \<Rightarrow> (string + unit) \<times> ('k, 'w) helper" where
  "helper_resize si i g cols rows =
     attached_terms i g (\<lambda>internal. terms_resize (si_host si) internal cols rows)"

definition helper_detach ::
  "'w site \<Rightarrow> session_id \<Rightarrow> 64 word \<Rightarrow> ('k, 'w) helper \<Rightarrow> (string + 64 word) \<times> ('k, 'w) helper" where
  "helper_detach si i g hp =
     (case current_session i g hp of
        Inl e \<Rightarrow> (Inl e, hp)
      | Inr (s, _) \<Rightarrow>
          (let next = se_generation s + 1;
               hp1 = bump_generation i (set_state i (\<lambda>st. st\<lparr>st_sink := None\<rparr>) hp)
           in case persist si i next ''detached'' (se_cwd s) hp1 of
                (Inl e, hp2) \<Rightarrow> (Inl e, hp2)
              | (Inr _, hp2) \<Rightarrow> (Inr next, hp2)))"

definition helper_begin_attach ::
  "'w site \<Rightarrow> session_id \<Rightarrow> ('k, 'w) helper \<Rightarrow> (string + 64 word) \<times> ('k, 'w) helper" where
  "helper_begin_attach si i hp =
     (case find_session hp i of
        Inl e \<Rightarrow> (Inl e, hp)
      | Inr (s, st) \<Rightarrow>
          (case begin_attach (st_replay st) of
             (Inl e, _) \<Rightarrow> (Inl (protocol_error_text e), hp)
           | (Inr _, ring) \<Rightarrow>
               (let next = se_generation s + 1;
                    hp1 = bump_generation i (set_state i (\<lambda>st. st\<lparr>st_replay := ring, st_sink := None\<rparr>) hp)
                in case persist si i next ''attaching'' (se_cwd s) hp1 of
                     (Inl e, hp2) \<Rightarrow> (Inl e, hp2)
                   | (Inr _, hp2) \<Rightarrow> (Inr next, hp2))))"

text \<open>\<open>deliver_replay\<close> is the caller's; it may fail.\<close>

definition helper_complete_attach ::
  "'w site \<Rightarrow> session_id \<Rightarrow> 64 word \<Rightarrow> 'k \<Rightarrow> (attach_batch \<Rightarrow> string + unit) \<Rightarrow> ('k, 'w) helper
   \<Rightarrow> (string + attach_batch) \<times> ('k, 'w) helper" where
  "helper_complete_attach si i g sink deliver hp =
     (case current_session i g hp of
        Inl e \<Rightarrow> (Inl e, hp)
      | Inr (s, st) \<Rightarrow>
          (case finish_attach (st_replay st) of
             (Inl e, _) \<Rightarrow> (Inl (protocol_error_text e), hp)
           | (Inr batch, ring) \<Rightarrow>
               (let hp1 = set_state i (\<lambda>st. st\<lparr>st_replay := ring\<rparr>) hp in
                case deliver batch of
                  Inl e \<Rightarrow> (Inl e, hp1)
                | Inr _ \<Rightarrow>
                    (let hp2 = set_state i (\<lambda>st. st\<lparr>st_sink := Some sink\<rparr>) hp1
                     in case persist si i g ''attached'' (se_cwd s) hp2 of
                          (Inl e, hp3) \<Rightarrow> (Inl e, hp3)
                        | (Inr _, hp3) \<Rightarrow> (Inr batch, hp3)))))"

definition helper_terminate ::
  "'w site \<Rightarrow> session_id \<Rightarrow> 64 word \<Rightarrow> ('k, 'w) helper \<Rightarrow> (string + unit) \<times> ('k, 'w) helper" where
  "helper_terminate si i g hp =
     (case current_session i g hp of
        Inl e \<Rightarrow> (Inl e, hp)
      | Inr (s, _) \<Rightarrow>
          (let hp1 = forget_session i hp;
               (r, t) = terms_kill (si_host si) (se_internal s) (hp_terms hp1);
               hp2 = hp1\<lparr>hp_terms := t\<rparr>
           in case r of
                Inl e \<Rightarrow> (Inl e, hp2)
              | Inr _ \<Rightarrow> persist si i g ''stopped'' (se_cwd s) hp2))"

text \<open>The drained rows come in the map's order, which is the order of the list here.\<close>

fun kill_each :: "'w site \<Rightarrow> (session_id \<times> runtime_session) list \<Rightarrow> ('k, 'w) helper \<Rightarrow> ('k, 'w) helper" where
  "kill_each si [] hp = hp"
| "kill_each si ((i, s) # rest) hp =
     (let (_, t) = terms_kill (si_host si) (se_internal s) (hp_terms hp);
          (_, hp1) = persist si i (se_generation s) ''stopped'' (se_cwd s) (hp\<lparr>hp_terms := t\<rparr>)
      in kill_each si rest hp1)"

definition kill_all :: "'w site \<Rightarrow> ('k, 'w) helper \<Rightarrow> ('k, 'w) helper" where
  "kill_all si hp = kill_each si (hp_sessions hp) (hp\<lparr>hp_sessions := []\<rparr>)"

definition meta_of :: "('k, 'w) helper \<Rightarrow> session_id \<times> runtime_session \<Rightarrow> session_meta" where
  "meta_of hp row =
     \<lparr>me_id = fst row, me_generation = se_generation (snd row), me_cwd = se_cwd (snd row),
      me_exited = (case hp_states hp (fst row) of Some st \<Rightarrow> st_exited st | None \<Rightarrow> None),
      me_attached = (sink_of (fst row) hp \<noteq> None)\<rparr>"

definition helper_list :: "('k, 'w) helper \<Rightarrow> session_meta list" where
  "helper_list hp = sort_key (\<lambda>m. me_id m) (map (meta_of hp) (hp_sessions hp))"

definition replay_snapshot :: "session_id \<Rightarrow> ('k, 'w) helper \<Rightarrow> string + bytes" where
  "replay_snapshot i hp = res_bind (find_session hp i) (\<lambda>(_, st). Inr (ring_snapshot (st_replay st)))"

end
