(* ===== verification/Term_Lifecycle.thy ===== *)
theory Term_Lifecycle
  imports Term_Backend
begin

text \<open>
  The life of helper-owned sessions: what every operation of \<open>Term_Backend\<close> keeps, the records
  the supervisor's database holds of them, who may act on a session, and the ways in which a
  fault or a race leaves a session behind.
\<close>

section \<open>What the parts of an operation change\<close>

lemma set_state_simps [simp]:
  "hp_sessions (set_state i f hp) = hp_sessions hp"
  "hp_terms (set_state i f hp) = hp_terms hp"
  "hp_store (set_state i f hp) = hp_store hp"
  "hp_host (set_state i f hp) = hp_host hp"
  "hp_log (set_state i f hp) = hp_log hp"
  "hp_states (set_state i f hp) j = (if j = i then map_option f (hp_states hp i) else hp_states hp j)"
  by (simp_all add: set_state_def)

lemma tell_simps [simp]:
  "hp_sessions (tell k ev hp) = hp_sessions hp" "hp_terms (tell k ev hp) = hp_terms hp"
  "hp_store (tell k ev hp) = hp_store hp" "hp_host (tell k ev hp) = hp_host hp"
  "hp_states (tell k ev hp) = hp_states hp"
  "hp_log (tell k ev hp) = hp_log hp @ (case k of Some s \<Rightarrow> [(s, ev)] | None \<Rightarrow> [])"
  by (auto simp: tell_def split: option.splits)

lemma bump_simps [simp]:
  "hp_terms (bump_generation i hp) = hp_terms hp"
  "hp_store (bump_generation i hp) = hp_store hp"
  "hp_host (bump_generation i hp) = hp_host hp"
  "hp_log (bump_generation i hp) = hp_log hp"
  "hp_states (bump_generation i hp) = hp_states hp"
  by (auto simp: bump_generation_def split: option.splits)

lemma sessions_bump [simp]:
  "map_of (hp_sessions (bump_generation i hp)) j =
     (if j = i then map_option (\<lambda>s. s\<lparr>se_generation := se_generation s + 1\<rparr>) (map_of (hp_sessions hp) i)
      else map_of (hp_sessions hp) j)"
  by (auto simp: bump_generation_def update_conv split: option.splits)

lemma forget_simps [simp]:
  "hp_terms (forget_session i hp) = hp_terms hp"
  "hp_store (forget_session i hp) = hp_store hp"
  "hp_host (forget_session i hp) = hp_host hp"
  "hp_log (forget_session i hp) = hp_log hp"
  "hp_states (forget_session i hp) = hp_states hp"
  "map_of (hp_sessions (forget_session i hp)) j = (if j = i then None else map_of (hp_sessions hp) j)"
  by (simp_all add: forget_session_def delete_conv fun_upd_def)

lemma insert_simps [simp]:
  "hp_terms (spawn_insert i internal cwd hp) = hp_terms hp"
  "hp_store (spawn_insert i internal cwd hp) = hp_store hp"
  "hp_host (spawn_insert i internal cwd hp) = hp_host hp"
  "hp_log (spawn_insert i internal cwd hp) = hp_log hp"
  "hp_states (spawn_insert i internal cwd hp) = hp_states hp"
  "map_of (hp_sessions (spawn_insert i internal cwd hp)) j =
     (if j = i then Some \<lparr>se_internal = internal, se_cwd = cwd, se_generation = 1\<rparr>
      else map_of (hp_sessions hp) j)"
  by (simp_all add: spawn_insert_def update_conv)

lemma persist_frame:
  assumes "persist si i g state cwd hp = (r, hp')"
  shows "hp_sessions hp' = hp_sessions hp" "hp_terms hp' = hp_terms hp" "hp_states hp' = hp_states hp"
    "hp_host hp' = hp_host hp" "hp_log hp' = hp_log hp"
  using assms by (auto simp: persist_def Let_def split: option.splits prod.splits)

text \<open>The record of a session, where the helper keeps any.\<close>

definition record_of_session :: "('k, 'w) helper \<Rightarrow> session_id \<Rightarrow> runtime_record option" where
  "record_of_session hp i = Option.bind (hp_store hp) (stored (to_hex i))"

lemma record_cong: "hp_store hp' = hp_store hp \<Longrightarrow> record_of_session hp' i = record_of_session hp i"
  by (simp add: record_of_session_def)

lemma record_simps [simp]:
  "record_of_session (set_state i f hp) = record_of_session hp"
  "record_of_session (tell k ev hp) = record_of_session hp"
  "record_of_session (bump_generation i hp) = record_of_session hp"
  "record_of_session (forget_session i hp) = record_of_session hp"
  "record_of_session (spawn_insert i internal cwd hp) = record_of_session hp"
  "record_of_session (hp\<lparr>hp_terms := t\<rparr>) = record_of_session hp"
  by (simp_all add: record_of_session_def [abs_def])


lemma persist_record:
  assumes "persist si i g state cwd hp = (Inr (), hp')" "hp_store hp \<noteq> None"
  shows "\<exists>a. record_of_session hp' i = Some a \<and> rr_state a = state \<and> rr_generation a = g \<and> rr_host a = hp_host hp"
  using assms rt.put_known [where r = "record_for si (hp_host hp) i g state cwd"]
  by (fastforce simp: persist_def record_of_session_def record_for_def split: prod.splits)

lemma persist_other:
  assumes "persist si i g state cwd hp = (r, hp')" "j \<noteq> i"
  shows "record_of_session hp' j = record_of_session hp j"
  using assms rt.put_other [where r = "record_for si (hp_host hp) i g state cwd" and i = "to_hex j"]
  by (fastforce simp: persist_def record_of_session_def record_for_def to_hex_inj split: prod.splits option.splits)

lemma persist_ok:
  assumes "si_fault si = None" "unat g < 2 ^ 63"
  shows "\<exists>hp'. persist si i g state cwd hp = (Inr (), hp')"
  using assms by (auto simp: persist_def put_cases record_for_def split: option.splits)

lemma persist_failed: "persist si i g state cwd hp = (Inl e, hp') \<Longrightarrow> hp' = hp"
  by (auto simp: persist_def Let_def dest: rt.put_failed split: option.splits prod.splits)

lemma persist_no_store: "hp_store hp = None \<Longrightarrow> persist si i g state cwd hp = (Inr (), hp)"
  by (simp add: persist_def)

lemma find_session_Inr:
  "find_session hp i = Inr (s, st) \<longleftrightarrow> map_of (hp_sessions hp) i = Some s \<and> hp_states hp i = Some st"
  by (auto simp: find_session_def split: option.splits)

lemma check_generation_Inr: "check_generation s g = Inr x \<longleftrightarrow> g = se_generation s"
  by (simp add: check_generation_def)

lemma current_session_Inr:
  "current_session i g hp = Inr (s, st) \<longleftrightarrow>
     map_of (hp_sessions hp) i = Some s \<and> hp_states hp i = Some st \<and> g = se_generation s"
  by (auto simp: current_session_def res_bind_Inr_iff find_session_Inr check_generation_Inr)

text \<open>A stale generation, or an id without a row, gets an error and changes nothing.\<close>

lemma stale_inert:
  assumes "\<And>s. map_of (hp_sessions hp) i = Some s \<Longrightarrow> se_generation s \<noteq> g"
  shows "\<exists>e. current_session i g hp = Inl e \<and> helper_write si i g data hp = (Inl e, hp) \<and>
    helper_resize si i g cols rows hp = (Inl e, hp) \<and> helper_detach si i g hp = (Inl e, hp) \<and>
    helper_complete_attach si i g sink deliver hp = (Inl e, hp) \<and> helper_terminate si i g hp = (Inl e, hp)"
proof -
  have "current_session i g hp \<noteq> Inr x" for x
    using assms by (cases x) (auto simp: current_session_Inr)
  then obtain e where "current_session i g hp = Inl e" by (cases "current_session i g hp") auto
  then show ?thesis
    by (auto simp: helper_write_def helper_resize_def attached_terms_def helper_detach_def
        helper_complete_attach_def helper_terminate_def)
qed

section \<open>Runs\<close>

datatype 'k backend_op =
    BSpawn session_id 'k spawn_opts
  | BWrite session_id "64 word" bytes
  | BResize session_id "64 word" nat nat
  | BDetach session_id "64 word"
  | BBegin session_id
  | BComplete session_id "64 word" 'k "attach_batch \<Rightarrow> string + unit"
  | BTerminate session_id "64 word"
  | BKillAll
  | BData session_id bytes
  | BExit session_id string "32 word option"

fun backend_do :: "'w site \<Rightarrow> 'k backend_op \<Rightarrow> ('k, 'w) helper \<Rightarrow> ('k, 'w) helper" where
  "backend_do si (BSpawn i sink opts) hp = snd (spawn si i sink opts hp)"
| "backend_do si (BWrite i g data) hp = snd (helper_write si i g data hp)"
| "backend_do si (BResize i g cols rows) hp = snd (helper_resize si i g cols rows hp)"
| "backend_do si (BDetach i g) hp = snd (helper_detach si i g hp)"
| "backend_do si (BBegin i) hp = snd (helper_begin_attach si i hp)"
| "backend_do si (BComplete i g sink deliver) hp = snd (helper_complete_attach si i g sink deliver hp)"
| "backend_do si (BTerminate i g) hp = snd (helper_terminate si i g hp)"
| "backend_do si BKillAll hp = kill_all si hp"
| "backend_do si (BData i bs) hp = on_data i bs hp"
| "backend_do si (BExit i internal code) hp = on_exit si i internal code hp"

text \<open>What a run assumes of the outside: ids are fresh, callbacks come for shells that were
  started, an exit comes once and with the name of its own PTY.\<close>

fun enabled :: "'w site \<Rightarrow> 'k backend_op \<Rightarrow> ('k, 'w) helper \<Rightarrow> bool" where
  "enabled si (BSpawn i sink opts) hp \<longleftrightarrow>
     hp_states hp i = None \<and> map_of (hp_sessions hp) i = None \<and> record_of_session hp i = None \<and>
     (case create (si_host si) opts (hp_terms hp) of (Inr internal, _) \<Rightarrow> internal \<notin> set (tm_ids (hp_terms hp)) | _ \<Rightarrow> True)"
| "enabled si (BData i bs) hp \<longleftrightarrow> hp_states hp i \<noteq> None"
| "enabled si (BExit i internal code) hp \<longleftrightarrow>
     (\<exists>st. hp_states hp i = Some st \<and> st_exited st = None) \<and>
     (\<forall>(j, s) \<in> set (hp_sessions hp). se_internal s = internal \<longleftrightarrow> j = i)"
| "enabled si _ hp \<longleftrightarrow> True"

text \<open>No fault of the store, and generations with room below \<open>2 ^ 63\<close>.\<close>

definition calm :: "'w site \<Rightarrow> ('k, 'w) helper \<Rightarrow> bool" where
  "calm si hp \<longleftrightarrow> si_fault si = None \<and> (\<forall>(i, s) \<in> set (hp_sessions hp). unat (se_generation s) + 1 < 2 ^ 63)"

section \<open>The invariant\<close>

definition store_fine :: "('k, 'w) helper \<Rightarrow> bool" where
  "store_fine hp \<longleftrightarrow> (case hp_store hp of Some db \<Rightarrow> store_ok db | None \<Rightarrow> True)"

definition live_states :: "string list" where
  "live_states = [''attached'', ''detached'', ''attaching'']"

definition tracked :: "('k, 'w) helper \<Rightarrow> session_id \<Rightarrow> bool" where
  "tracked hp i \<longleftrightarrow>
     (case map_of (hp_sessions hp) i of
        Some s \<Rightarrow>
          (\<exists>st. hp_states hp i = Some st \<and> st_exited st = None \<and> se_internal s \<in> set (tm_ids (hp_terms hp)) \<and>
            (hp_store hp \<noteq> None \<longrightarrow>
              (\<exists>a. record_of_session hp i = Some a \<and> rr_generation a = se_generation s \<and>
                rr_host a = hp_host hp \<and> rr_state a \<in> set live_states \<and>
                (rr_state a = ''attached'' \<longleftrightarrow> st_sink st \<noteq> None))))
      | None \<Rightarrow>
          hp_states hp i \<noteq> None \<longrightarrow>
            (\<forall>a. record_of_session hp i = Some a \<longrightarrow> rr_state a \<in> {''stopped'', ''exited''}))"

definition own_ptys :: "('k, 'w) helper \<Rightarrow> bool" where
  "own_ptys hp \<longleftrightarrow>
     (\<forall>i j s t. map_of (hp_sessions hp) i = Some s \<longrightarrow> map_of (hp_sessions hp) j = Some t \<longrightarrow>
        se_internal s = se_internal t \<longrightarrow> i = j)"

definition helper_inv :: "('k, 'w) helper \<Rightarrow> bool" where
  "helper_inv hp \<longleftrightarrow> store_fine hp \<and> own_ptys hp \<and> (\<forall>i. tracked hp i)"

text \<open>An operation on one session leaves the others alone.\<close>

definition same_at :: "session_id \<Rightarrow> ('k, 'w) helper \<Rightarrow> ('k, 'w) helper \<Rightarrow> bool" where
  "same_at j hp hp' \<longleftrightarrow>
     map_of (hp_sessions hp') j = map_of (hp_sessions hp) j \<and> hp_states hp' j = hp_states hp j \<and>
     record_of_session hp' j = record_of_session hp j \<and> hp_host hp' = hp_host hp \<and>
     (hp_store hp' = None \<longleftrightarrow> hp_store hp = None) \<and>
     (\<forall>s. map_of (hp_sessions hp) j = Some s \<longrightarrow> se_internal s \<in> set (tm_ids (hp_terms hp)) \<longrightarrow>
        se_internal s \<in> set (tm_ids (hp_terms hp')))"

lemma tracked_same: "same_at j hp hp' \<Longrightarrow> tracked hp j \<Longrightarrow> tracked hp' j"
  by (auto simp: same_at_def tracked_def split: option.splits)

lemma persist_store_None:
  "persist si i g state cwd hp = (r, hp') \<Longrightarrow> hp_store hp' = None \<longleftrightarrow> hp_store hp = None"
  by (auto simp: persist_def Let_def split: option.splits prod.splits)

lemma put_store_ok:
  assumes "put fault now r db = (x, db')" "store_ok db"
  shows "store_ok db'"
proof (cases "2 ^ 63 \<le> unat (rr_generation r)")
  case False
  then have "unat (rr_generation r) < 2 ^ 63" by simp
  from store_ok_put [OF assms(2) this] assms False show ?thesis
    by (auto simp: put_cases split: option.splits)
qed (use assms in \<open>auto simp: put_cases\<close>)

lemma persist_store_fine:
  assumes "persist si i g state cwd hp = (r, hp')" "store_fine hp"
  shows "store_fine hp'"
  using assms by (auto simp: persist_def store_fine_def intro: put_store_ok
      split: option.splits prod.splits)

lemma persist_same:
  "persist si i g state cwd hp = (r, hp') \<Longrightarrow> j \<noteq> i \<Longrightarrow> same_at j hp hp'"
  by (simp add: same_at_def persist_frame persist_other persist_store_None)

lemma own_ptys_sub:
  assumes "own_ptys hp"
    and "\<And>i s. map_of (hp_sessions hp') i = Some s \<Longrightarrow>
      \<exists>t. map_of (hp_sessions hp) i = Some t \<and> se_internal t = se_internal s"
  shows "own_ptys hp'"
  using assms unfolding own_ptys_def by metis

lemma helper_invI:
  assumes "helper_inv hp" "store_fine hp'" "own_ptys hp'" "tracked hp' i"
    and "\<And>j. j \<noteq> i \<Longrightarrow> same_at j hp hp'"
  shows "helper_inv hp'"
  using assms tracked_same unfolding helper_inv_def by metis

lemma roomy: "calm si hp \<Longrightarrow> map_of (hp_sessions hp) i = Some s \<Longrightarrow> unat (se_generation s) + 1 < 2 ^ 63"
  by (auto simp: calm_def dest!: map_of_SomeD)

lemma unat_Suc_gen: "unat (g :: 64 word) + 1 < 2 ^ 63 \<Longrightarrow> unat (g + 1) = unat g + 1"
  by (simp add: unat_word_ariths)


section \<open>Every operation keeps it\<close>

lemma tracked_row:
  assumes "helper_inv hp" "map_of (hp_sessions hp) i = Some s"
  shows "\<exists>st. hp_states hp i = Some st \<and> st_exited st = None \<and> se_internal s \<in> set (tm_ids (hp_terms hp))"
  using assms unfolding helper_inv_def tracked_def by (auto split: option.splits) (metis option.simps(5))

text \<open>Writing the record of a session that stays.\<close>

lemma persist_tracked:
  assumes p: "persist si i g state cwd hp = (Inr (), hp')"
    and row: "map_of (hp_sessions hp) i = Some s" "hp_states hp i = Some st" "st_exited st = None"
      "se_internal s \<in> set (tm_ids (hp_terms hp))" "g = se_generation s"
    and state: "state \<in> set live_states" "state = ''attached'' \<longleftrightarrow> st_sink st \<noteq> None"
  shows "tracked hp' i"
proof -
  have "hp_store hp' \<noteq> None \<longrightarrow> (\<exists>a. record_of_session hp' i = Some a \<and> rr_generation a = se_generation s \<and>
      rr_host a = hp_host hp \<and> rr_state a \<in> set live_states \<and>
      (rr_state a = ''attached'' \<longleftrightarrow> st_sink st \<noteq> None))"
    using persist_record [OF p] persist_store_None [OF p] row(5) state by auto
  with row show ?thesis by (simp add: tracked_def persist_frame [OF p])
qed

lemma inv_parts:
  assumes "helper_inv hp"
  shows "store_fine hp" "own_ptys hp" "tracked hp i"
  using assms by (simp_all add: helper_inv_def)

text \<open>An operation that changes the row and the state of one session and then writes its record.\<close>

lemma persist_inv:
  assumes inv: "helper_inv hp" and row: "map_of (hp_sessions hp) i = Some s"
    and others: "\<And>j. j \<noteq> i \<Longrightarrow> map_of (hp_sessions hp1) j = map_of (hp_sessions hp) j \<and> hp_states hp1 j = hp_states hp j"
    and this_one: "map_of (hp_sessions hp1) i = Some s1" "se_internal s1 = se_internal s"
      "hp_states hp1 i = Some st1" "st_exited st1 = None"
    and rest: "hp_terms hp1 = hp_terms hp" "hp_store hp1 = hp_store hp" "hp_host hp1 = hp_host hp"
    and p: "persist si i (se_generation s1) state cwd hp1 = (Inr (), hp2)"
    and state: "state \<in> set live_states" "state = ''attached'' \<longleftrightarrow> st_sink st1 \<noteq> None"
  shows "helper_inv hp2"
proof (rule helper_invI [OF inv, where i = i])
  show "store_fine hp2"
    using inv_parts(1) [OF inv] by (intro persist_store_fine [OF p]) (simp add: rest store_fine_def)
  show "own_ptys hp2"
  proof (rule own_ptys_sub [OF inv_parts(2) [OF inv]])
    fix j t
    assume "map_of (hp_sessions hp2) j = Some t"
    then show "\<exists>t'. map_of (hp_sessions hp) j = Some t' \<and> se_internal t' = se_internal t"
      using this_one row others [of j] by (cases "j = i") (simp_all add: persist_frame [OF p])
  qed
  have "se_internal s1 \<in> set (tm_ids (hp_terms hp1))"
    using tracked_row [OF inv row] this_one(2) rest(1) by auto
  then show "tracked hp2 i"
    using this_one state by (intro persist_tracked [OF p]) auto
  show "same_at j hp hp2" if "j \<noteq> i" for j
    using persist_same [OF p that] others [OF that] record_cong [OF rest(2), of j] rest
    by (simp add: same_at_def)
qed

lemma detach_inv:
  assumes inv: "helper_inv hp" and calm: "calm si hp"
  shows "helper_inv (snd (helper_detach si i g hp))"
proof (cases "current_session i g hp")
  case (Inl e)
  with inv show ?thesis by (simp add: helper_detach_def)
next
  case (Inr x)
  then obtain s st where cur: "current_session i g hp = Inr (s, st)" by (cases x) auto
  then have row: "map_of (hp_sessions hp) i = Some s" "hp_states hp i = Some st"
    by (simp_all add: current_session_Inr)
  define hp1 where "hp1 = bump_generation i (set_state i (\<lambda>st. st\<lparr>st_sink := None\<rparr>) hp)"
  define s1 where "s1 = s\<lparr>se_generation := se_generation s + 1\<rparr>"
  have "unat (se_generation s1) < 2 ^ 63"
    using roomy [OF calm row(1)] unat_Suc_gen by (simp add: s1_def)
  then obtain hp2 where p: "persist si i (se_generation s1) ''detached'' (se_cwd s) hp1 = (Inr (), hp2)"
    using persist_ok calm by (metis calm_def)
  have "helper_inv hp2"
    by (rule persist_inv [OF inv row(1), of hp1 s1 "st\<lparr>st_sink := None\<rparr>", OF _ _ _ _ _ _ _ _ p])
      (use row tracked_row [OF inv row(1)] in \<open>auto simp: hp1_def s1_def live_states_def\<close>)
  then show ?thesis
    using p by (simp add: helper_detach_def cur hp1_def s1_def)
qed

lemma begin_inv:
  assumes inv: "helper_inv hp" and calm: "calm si hp"
  shows "helper_inv (snd (helper_begin_attach si i hp))"
proof (cases "find_session hp i")
  case (Inl e)
  with inv show ?thesis by (simp add: helper_begin_attach_def)
next
  case (Inr x)
  then obtain s st where cur: "find_session hp i = Inr (s, st)" by (cases x) auto
  then have row: "map_of (hp_sessions hp) i = Some s" "hp_states hp i = Some st"
    by (simp_all add: find_session_Inr)
  obtain r ring where ring: "begin_attach (st_replay st) = (r, ring)" by (cases "begin_attach (st_replay st)")
  define hp1 where "hp1 = bump_generation i (set_state i (\<lambda>st. st\<lparr>st_replay := ring, st_sink := None\<rparr>) hp)"
  define s1 where "s1 = s\<lparr>se_generation := se_generation s + 1\<rparr>"
  have "unat (se_generation s1) < 2 ^ 63"
    using roomy [OF calm row(1)] unat_Suc_gen by (simp add: s1_def)
  then obtain hp2 where p: "persist si i (se_generation s1) ''attaching'' (se_cwd s) hp1 = (Inr (), hp2)"
    using persist_ok calm by (metis calm_def)
  have "helper_inv hp2"
    by (rule persist_inv [OF inv row(1), of hp1 s1 "st\<lparr>st_replay := ring, st_sink := None\<rparr>", OF _ _ _ _ _ _ _ _ p])
      (use row tracked_row [OF inv row(1)] in \<open>auto simp: hp1_def s1_def live_states_def\<close>)
  then show ?thesis
    using p inv by (cases r) (simp_all add: helper_begin_attach_def cur ring hp1_def s1_def)
qed


text \<open>An operation that changes only histories and the world outside.\<close>

lemma frame_inv:
  assumes inv: "helper_inv hp"
    and "hp_sessions hp' = hp_sessions hp" "hp_store hp' = hp_store hp" "hp_host hp' = hp_host hp"
      "tm_ids (hp_terms hp') = tm_ids (hp_terms hp)"
    and states: "\<And>j. rel_option (\<lambda>x y. st_sink x = st_sink y \<and> st_exited x = st_exited y)
      (hp_states hp j) (hp_states hp' j)"
  shows "helper_inv hp'"
proof -
  have "tracked hp' j" for j
    using inv_parts(3) [OF inv, of j] states [of j] record_cong [OF assms(3), of j]
    unfolding tracked_def assms(2-5)
    by (cases "hp_states hp j"; cases "hp_states hp' j") (auto split: option.splits)
  with inv assms(2,3) show ?thesis by (simp add: helper_inv_def store_fine_def own_ptys_def)
qed

lemma set_replay_inv: "helper_inv hp \<Longrightarrow> helper_inv (set_state i (\<lambda>st. st\<lparr>st_replay := f st\<rparr>) hp)"
  by (erule frame_inv) (auto simp: option.rel_map option.rel_refl)

lemma tell_inv: "helper_inv hp \<Longrightarrow> helper_inv (tell k ev hp)"
  by (erule frame_inv) (auto simp: option.rel_refl)

lemma data_inv: "helper_inv hp \<Longrightarrow> helper_inv (on_data i bs hp)"
  by (simp add: on_data_def data_push_def Let_def tell_inv set_replay_inv)

lemma ids_with_session: "with_session i act t = (r, t') \<Longrightarrow> tm_ids t' = tm_ids t"
  by (auto simp: with_session_def Let_def split: if_splits prod.splits)

lemma attached_terms_inv:
  assumes "helper_inv hp" and ids: "\<And>internal t r t'. act internal t = (r, t') \<Longrightarrow> tm_ids t' = tm_ids t"
  shows "helper_inv (snd (attached_terms i g act hp))"
proof -
  have "tm_ids (snd (act internal t)) = tm_ids t" for internal t
    using ids [of internal t] by (cases "act internal t") simp
  then have "helper_inv (hp\<lparr>hp_terms := snd (act internal (hp_terms hp))\<rparr>)" for internal
    using assms(1) by (intro frame_inv [OF assms(1)]) (auto simp: option.rel_refl)
  with assms(1) show ?thesis
    by (auto simp: attached_terms_def split: sum.splits prod.splits) (metis snd_conv)
qed

lemma write_inv: "helper_inv hp \<Longrightarrow> helper_inv (snd (helper_write si i g data hp))"
  unfolding helper_write_def by (erule attached_terms_inv) (simp add: terms_write_def ids_with_session)

lemma resize_inv: "helper_inv hp \<Longrightarrow> helper_inv (snd (helper_resize si i g cols rows hp))"
  unfolding helper_resize_def by (erule attached_terms_inv) (simp add: terms_resize_def ids_with_session)

lemma complete_inv:
  assumes inv: "helper_inv hp" and calm: "calm si hp"
  shows "helper_inv (snd (helper_complete_attach si i g sink deliver hp))"
proof (cases "current_session i g hp")
  case (Inl e)
  with inv show ?thesis by (simp add: helper_complete_attach_def)
next
  case (Inr x)
  then obtain s st where cur: "current_session i g hp = Inr (s, st)" by (cases x) auto
  then have row: "map_of (hp_sessions hp) i = Some s" "hp_states hp i = Some st" and g: "g = se_generation s"
    by (simp_all add: current_session_Inr)
  obtain r ring where ring: "finish_attach (st_replay st) = (r, ring)" by (cases "finish_attach (st_replay st)")
  define hp1 where "hp1 = set_state i (\<lambda>st. st\<lparr>st_replay := ring\<rparr>) hp"
  define hp2 where "hp2 = set_state i (\<lambda>st. st\<lparr>st_sink := Some sink\<rparr>) hp1"
  have "helper_inv hp1" unfolding hp1_def by (rule set_replay_inv [OF inv])
  have "unat (se_generation s) < 2 ^ 63" using roomy [OF calm row(1)] by simp
  then obtain hp3 where p: "persist si i (se_generation s) ''attached'' (se_cwd s) hp2 = (Inr (), hp3)"
    using persist_ok calm by (metis calm_def)
  have "helper_inv hp3"
    by (rule persist_inv [OF inv row(1), of hp2 s "st\<lparr>st_replay := ring, st_sink := Some sink\<rparr>", OF _ _ _ _ _ _ _ _ p])
      (use row tracked_row [OF inv row(1)] in \<open>auto simp: hp1_def hp2_def live_states_def\<close>)
  with inv \<open>helper_inv hp1\<close> show ?thesis
    using p by (cases r; cases "deliver (projr r)")
      (simp_all add: helper_complete_attach_def cur [unfolded g] ring hp1_def hp2_def g)
qed


section \<open>Ends of a session\<close>

lemma own_ptys_forget: "own_ptys hp \<Longrightarrow> own_ptys (forget_session i hp)"
  by (erule own_ptys_sub) (auto split: if_splits)

text \<open>A row that is gone, with its PTY, and whose record says so.\<close>

lemma gone_inv:
  fixes hp hp' :: "('k, 'w) helper"
  assumes inv: "helper_inv hp" and fine: "store_fine hp'"
    and rows: "\<And>j. map_of (hp_sessions hp') j = (if j = i then None else map_of (hp_sessions hp) j)"
    and states: "\<And>j. j \<noteq> i \<Longrightarrow> hp_states hp' j = hp_states hp j"
    and others: "\<And>j. j \<noteq> i \<Longrightarrow> record_of_session hp' j = record_of_session hp j"
    and store: "hp_host hp' = hp_host hp" "hp_store hp' = None \<longleftrightarrow> hp_store hp = None"
    and ids: "set (tm_ids (hp_terms hp')) = set (tm_ids (hp_terms hp)) - {internal}"
    and own: "\<And>j s. j \<noteq> i \<Longrightarrow> map_of (hp_sessions hp) j = Some s \<Longrightarrow> se_internal s \<noteq> internal"
    and gone: "\<And>a. record_of_session hp' i = Some a \<Longrightarrow> rr_state a \<in> {''stopped'', ''exited''}"
  shows "helper_inv hp'"
proof (rule helper_invI [OF inv fine, where i = i])
  show "own_ptys hp'"
    using inv_parts(2) [OF inv] by (rule own_ptys_sub) (auto simp: rows split: if_splits)
  show "tracked hp' i" using gone by (simp add: tracked_def rows)
  show "same_at j hp hp'" if "j \<noteq> i" for j
    using that own [OF that] by (auto simp: same_at_def rows states others store ids)
qed

lemma terminate_inv:
  assumes inv: "helper_inv hp" and calm: "calm si hp"
  shows "helper_inv (snd (helper_terminate si i g hp))"
proof (cases "current_session i g hp")
  case (Inl e)
  with inv show ?thesis by (simp add: helper_terminate_def)
next
  case (Inr x)
  then obtain s st where cur: "current_session i g hp = Inr (s, st)" by (cases x) auto
  then have row: "map_of (hp_sessions hp) i = Some s" "hp_states hp i = Some st" and g: "g = se_generation s"
    by (simp_all add: current_session_Inr)
  have mine: "se_internal s \<in> set (tm_ids (hp_terms hp))" using tracked_row [OF inv row(1)] by blast
  define t where "t = terms_remove (se_internal s)
    ((hp_terms hp)\<lparr>tm_world := ho_pty_kill (si_host si) (se_internal s) (tm_world (hp_terms hp))\<rparr>)"
  have kill: "terms_kill (si_host si) (se_internal s) (hp_terms hp) = (Inr (), t)"
    using mine by (simp add: terms_kill_def with_session_def t_def)
  define hp1 where "hp1 = (forget_session i hp)\<lparr>hp_terms := t\<rparr>"
  have "unat (se_generation s) < 2 ^ 63" using roomy [OF calm row(1)] by simp
  then obtain hp2 where p: "persist si i (se_generation s) ''stopped'' (se_cwd s) hp1 = (Inr (), hp2)"
    using persist_ok calm by (metis calm_def)
  have "helper_inv hp2"
  proof (rule gone_inv [OF inv, where i = i and internal = "se_internal s"])
    show "store_fine hp2"
      using inv_parts(1) [OF inv] by (intro persist_store_fine [OF p]) (simp add: hp1_def store_fine_def)
    show "record_of_session hp2 i = Some a \<Longrightarrow> rr_state a \<in> {''stopped'', ''exited''}" for a
      using persist_record [OF p] persist_store_None [OF p]
      by (cases "hp_store hp1") (auto simp: record_of_session_def)
    show "j \<noteq> i \<Longrightarrow> map_of (hp_sessions hp) j = Some s' \<Longrightarrow> se_internal s' \<noteq> se_internal s" for j s'
      using inv_parts(2) [OF inv] row(1) unfolding own_ptys_def by metis
  qed (auto simp: persist_frame [OF p] persist_store_None [OF p] persist_other [OF p] hp1_def t_def terms_remove_def)
  then show ?thesis
    using p kill by (simp add: helper_terminate_def cur [unfolded g] g hp1_def)
qed

text \<open>The record an exit leaves.\<close>

lemma stored_generation:
  "store_ok db \<Longrightarrow> stored i db = Some a \<Longrightarrow> unat (rr_generation a) < 2 ^ 63 \<and> rr_id a = i"
proof -
  assume "store_ok db" "stored i db = Some a"
  then obtain row where "row \<in> set (db_runtimes db)" "a = row_record row" "row_id row = i"
    by (auto simp: stored_def dest!: find_row_Some)
  with \<open>store_ok db\<close> have "0 \<le> row_generation row" "row_generation row < 2 ^ 63" "a = row_record row" "rr_id a = i"
    by (auto simp: store_ok_def)
  moreover have "unat (word_of_int (row_generation row) :: 64 word) = nat (row_generation row)"
    using \<open>0 \<le> row_generation row\<close> \<open>row_generation row < 2 ^ 63\<close>
    by (simp add: unat_eq_nat_uint unsigned_of_int take_bit_int_eq_self)
  ultimately show ?thesis by (simp add: row_record_def)
qed

lemma exit_record_frame [simp]:
  "hp_sessions (exit_record si i hp) = hp_sessions hp" "hp_terms (exit_record si i hp) = hp_terms hp"
  "hp_states (exit_record si i hp) = hp_states hp" "hp_host (exit_record si i hp) = hp_host hp"
  "hp_log (exit_record si i hp) = hp_log hp"
  by (auto simp: exit_record_def split: option.splits sum.splits)

lemma exit_record_effect:
  assumes fine: "store_fine hp" and fault: "si_fault si = None"
  shows "store_fine (exit_record si i hp)" (is ?fine)
    and "hp_store (exit_record si i hp) = None \<longleftrightarrow> hp_store hp = None" (is ?store)
    and "record_of_session (exit_record si i hp) j =
      (if j = i then map_option (\<lambda>a. a\<lparr>rr_state := ''exited''\<rparr>) (record_of_session hp i)
       else record_of_session hp j)" (is ?row)
proof -
  have "?fine \<and> ?store \<and> ?row"
  proof (cases "hp_store hp")
    case None
    then show ?thesis by (simp add: exit_record_def store_fine_def record_of_session_def)
  next
    case (Some db)
    then have ok: "store_ok db" using fine by (simp add: store_fine_def)
    show ?thesis
    proof (cases "stored (to_hex i) db")
      case None
      with Some ok show ?thesis
        by (simp add: exit_record_def get_stored [OF ok] fault record_of_session_def store_fine_def)
    next
      case (Some a)
      with stored_generation [OF ok] have gen: "unat (rr_generation a) < 2 ^ 63" and i: "rr_id a = to_hex i"
        by blast+
      define b where "b = a\<lparr>rr_state := ''exited''\<rparr>"
      obtain db' where p: "put None (si_now si) b db = (Inr (), db')"
        using gen by (auto simp: put_Inr_iff b_def)
      from stored_put [OF p] have "stored (to_hex k) db' = (if k = i then Some b else stored (to_hex k) db)" for k
        using Some i by (auto simp: b_def to_hex_inj)
      with Some \<open>hp_store hp = Some db\<close> put_store_ok [OF p ok] p show ?thesis
        by (auto simp: exit_record_def get_stored [OF ok] fault record_of_session_def store_fine_def b_def)
    qed
  qed
  then show ?fine ?store ?row by blast+
qed

lemma exit_inv:
  fixes hp :: "('k, 'w) helper"
  assumes inv: "helper_inv hp" and fault: "si_fault si = None"
    and en: "enabled si (BExit i internal code :: 'k backend_op) hp"
  shows "helper_inv (on_exit si i internal code hp)"
proof -
  define hp1 where "hp1 = forget_session i (tell (sink_of i (set_state i (\<lambda>st. st\<lparr>st_exited := Some code\<rparr>) hp))
    (OnExit code) (set_state i (\<lambda>st. st\<lparr>st_exited := Some code\<rparr>) hp))"
  have exit: "on_exit si i internal code hp
      = (exit_record si i hp1)\<lparr>hp_terms := terms_remove internal (hp_terms hp1)\<rparr>"
    by (simp add: on_exit_def exit_mark_def Let_def hp1_def)
  have fine: "store_fine hp1" using inv_parts(1) [OF inv] by (simp add: hp1_def store_fine_def)
  have hp1: "hp_store hp1 = hp_store hp" "record_of_session hp1 = record_of_session hp"
    "hp_host hp1 = hp_host hp" "hp_terms hp1 = hp_terms hp"
    "map_of (hp_sessions hp1) j = (if j = i then None else map_of (hp_sessions hp) j)"
    "j \<noteq> i \<Longrightarrow> hp_states hp1 j = hp_states hp j" for j
    by (simp_all add: hp1_def)
  note effect = exit_record_effect [OF fine fault, of i, unfolded hp1]
  show ?thesis
    unfolding exit
  proof (rule gone_inv [OF inv, where i = i and internal = internal])
    show "store_fine ((exit_record si i hp1)\<lparr>hp_terms := terms_remove internal (hp_terms hp1)\<rparr>)"
      using effect(1) by (simp add: store_fine_def)
    show "rr_state a \<in> {''stopped'', ''exited''}"
      if "record_of_session ((exit_record si i hp1)\<lparr>hp_terms := terms_remove internal (hp_terms hp1)\<rparr>) i = Some a" for a
      using that by (auto simp: effect(3))
    show "se_internal s \<noteq> internal" if "j \<noteq> i" "map_of (hp_sessions hp) j = Some s" for j s
      using en that by (auto dest!: map_of_SomeD)
  qed (auto simp: effect(2,3) hp1 terms_remove_def)
qed

text \<open>Killing all: every row's record ends as stopped, whatever \<open>kill\<close> answers.\<close>

lemma ids_kill: "terms_kill h x t = (r, t') \<Longrightarrow> set (tm_ids t') = set (tm_ids t) - {x}"
  by (auto simp: terms_kill_def with_session_def terms_remove_def Let_def split: if_splits)

lemma kill_each_effect:
  assumes "store_fine hp" "si_fault si = None" "\<forall>(i, s) \<in> set rows. unat (se_generation s) < 2 ^ 63"
    and "hp' = kill_each si rows hp"
  shows "store_fine hp' \<and> hp_sessions hp' = hp_sessions hp \<and> hp_states hp' = hp_states hp \<and>
    (hp_store hp' = None \<longleftrightarrow> hp_store hp = None) \<and>
    (\<forall>i a. record_of_session hp' i = Some a \<longrightarrow>
      (if i \<in> fst ` set rows then rr_state a = ''stopped'' else record_of_session hp i = Some a))"
  using assms
proof (induction rows arbitrary: hp)
  case Nil
  then show ?case by simp
next
  case (Cons row rows)
  obtain i s where row: "row = (i, s)" by (cases row)
  obtain r t where t: "terms_kill (si_host si) (se_internal s) (hp_terms hp) = (r, t)"
    by (cases "terms_kill (si_host si) (se_internal s) (hp_terms hp)")
  have "unat (se_generation s) < 2 ^ 63" using Cons.prems(3) by (simp add: row)
  then obtain hp1 where p: "persist si i (se_generation s) ''stopped'' (se_cwd s) (hp\<lparr>hp_terms := t\<rparr>) = (Inr (), hp1)"
    using persist_ok [OF Cons.prems(2)] by blast
  have fine: "store_fine hp1"
    using Cons.prems(1) by (intro persist_store_fine [OF p]) (simp add: store_fine_def)
  have hp': "hp' = kill_each si rows hp1" using Cons.prems(4) by (simp add: row t p)
  have new: "rr_state a = ''stopped''" if "record_of_session hp1 i = Some a" for a
    using that persist_record [OF p] persist_store_None [OF p]
    by (cases "hp_store hp") (auto simp: record_of_session_def)
  have old: "record_of_session hp1 j = record_of_session hp j" if "j \<noteq> i" for j
    using persist_other [OF p that] by simp
  have "\<forall>(i, s) \<in> set rows. unat (se_generation s) < 2 ^ 63" using Cons.prems(3) by simp
  note IH = Cons.IH [OF fine Cons.prems(2) this hp']
  have "if j \<in> fst ` set (row # rows) then rr_state a = ''stopped'' else record_of_session hp j = Some a"
    if a: "record_of_session hp' j = Some a" for j a
  proof (cases "j \<in> fst ` set rows")
    case True
    with IH a show ?thesis by simp
  next
    case False
    with IH a have "record_of_session hp1 j = Some a" by simp
    with False new old [of j] show ?thesis by (cases "j = i") (simp_all add: row)
  qed
  with IH show ?case by (simp add: persist_frame [OF p] persist_store_None [OF p])
qed

lemma kill_all_inv:
  assumes inv: "helper_inv hp" and calm: "calm si hp"
  shows "helper_inv (kill_all si hp)"
proof -
  define hp0 where "hp0 = hp\<lparr>hp_sessions := []\<rparr>"
  have all: "store_fine (kill_all si hp) \<and> hp_sessions (kill_all si hp) = [] \<and>
      hp_states (kill_all si hp) = hp_states hp \<and>
      (\<forall>i a. record_of_session (kill_all si hp) i = Some a \<longrightarrow>
        (if map_of (hp_sessions hp) i \<noteq> None then rr_state a = ''stopped'' else record_of_session hp i = Some a))"
    using kill_each_effect [of hp0 si "hp_sessions hp" "kill_all si hp"] inv_parts(1) [OF inv] calm
    by (fastforce simp: kill_all_def hp0_def store_fine_def calm_def record_of_session_def map_of_eq_None_iff)
  have "tracked (kill_all si hp) i" for i
    using all inv_parts(3) [OF inv, of i]
    by (cases "map_of (hp_sessions hp) i") (auto simp: tracked_def)
  with all show ?thesis by (simp add: helper_inv_def own_ptys_def)
qed


text \<open>A new session: the ids the outside gives are fresh.\<close>

lemma spawn_inv:
  fixes hp :: "('k, 'w) helper"
  assumes inv: "helper_inv hp" and calm: "calm si hp"
    and en: "enabled si (BSpawn i sink opts :: 'k backend_op) hp"
  shows "helper_inv (snd (spawn si i sink opts hp))"
proof -
  define st where "st = \<lparr>st_replay = ring_default, st_sink = Some sink, st_exited = None\<rparr>"
  obtain r t where create: "create (si_host si) opts (hp_terms hp) = (r, t)"
    by (cases "create (si_host si) opts (hp_terms hp)")
  define hp1 where "hp1 = hp\<lparr>hp_states := (hp_states hp)(i \<mapsto> st), hp_terms := t\<rparr>"
  have start: "spawn_create si i sink opts hp = (r, hp1)"
    by (simp add: spawn_create_def Let_def create hp1_def st_def)
  have fresh: "hp_states hp i = None" "map_of (hp_sessions hp) i = None" "record_of_session hp i = None"
    using en by simp_all
  have fault: "si_fault si = None" using calm by (simp add: calm_def)
  show ?thesis
  proof (cases r)
    case (Inl e)
    with create_failed [of "si_host si" opts "hp_terms hp" e t] create
    have ids: "tm_ids t = tm_ids (hp_terms hp)" by simp
    have "helper_inv hp1"
    proof (rule helper_invI [OF inv, where i = i])
      show "store_fine hp1" "own_ptys hp1"
        using inv_parts [OF inv] by (simp_all add: hp1_def store_fine_def own_ptys_def)
      show "tracked hp1 i" using fresh by (simp add: tracked_def hp1_def record_of_session_def)
      show "j \<noteq> i \<Longrightarrow> same_at j hp hp1" for j
        by (simp add: same_at_def hp1_def ids record_of_session_def)
    qed
    with Inl start show ?thesis by (simp add: spawn_def)
  next
    case (Inr internal)
    have ids: "set (tm_ids t) = insert internal (set (tm_ids (hp_terms hp)))"
      using create Inr by (auto simp: create_def split: prod.splits sum.splits)
    have new: "internal \<notin> set (tm_ids (hp_terms hp))" using en create Inr by simp
    define hp2 where "hp2 = spawn_insert i internal (so_cwd opts) hp1"
    have alive: "\<not> has_exited i hp2" by (simp add: has_exited_def hp2_def hp1_def st_def)
    obtain hp3 where p: "persist si i 1 ''attached'' (so_cwd opts) hp2 = (Inr (), hp3)"
      using persist_ok [OF fault, of 1] by fastforce
    have "helper_inv hp3"
    proof (rule helper_invI [OF inv, where i = i])
      show "store_fine hp3"
        using inv_parts(1) [OF inv] by (intro persist_store_fine [OF p]) (simp add: hp2_def hp1_def store_fine_def)
      show "own_ptys hp3"
        unfolding own_ptys_def
      proof (intro allI impI)
        fix j k u v
        assume uv: "map_of (hp_sessions hp3) j = Some u" "map_of (hp_sessions hp3) k = Some v"
          "se_internal u = se_internal v"
        have older: "se_internal w \<noteq> internal" if "map_of (hp_sessions hp) l = Some w" for l w
          using tracked_row [OF inv that] new by auto
        show "j = k"
          using uv older [of j u] older [of k v] inv_parts(2) [OF inv] unfolding own_ptys_def
          by (auto simp: persist_frame [OF p] hp2_def hp1_def split: if_splits)
      qed
      show "tracked hp3 i"
        by (rule persist_tracked [OF p]) (auto simp: hp2_def hp1_def st_def ids live_states_def)
      show "same_at j hp hp3" if "j \<noteq> i" for j
        using persist_same [OF p that] that
        by (auto simp: same_at_def hp2_def hp1_def ids record_of_session_def)
    qed
    with Inr start alive p show ?thesis
      by (simp add: spawn_def spawn_settle_def Let_def hp2_def)
  qed
qed

lemma backend_do_inv:
  "helper_inv hp \<Longrightarrow> calm si hp \<Longrightarrow> enabled si op hp \<Longrightarrow> helper_inv (backend_do si op hp)"
  by (cases op) (simp_all only: backend_do.simps spawn_inv write_inv resize_inv detach_inv begin_inv
      complete_inv terminate_inv kill_all_inv data_inv, simp_all add: exit_inv calm_def)

text \<open>Runs of a new helper over a database of earlier records.\<close>

inductive helper_run :: "('k, 'w) helper \<Rightarrow> ('k, 'w) helper \<Rightarrow> bool" for hp0 where
  start: "helper_run hp0 hp0"
| step: "helper_run hp0 hp \<Longrightarrow> calm si hp \<Longrightarrow> enabled si op hp \<Longrightarrow> helper_run hp0 (backend_do si op hp)"

lemma helper_run_inv: "helper_run hp0 hp \<Longrightarrow> helper_inv hp0 \<Longrightarrow> helper_inv hp"
  by (induction rule: helper_run.induct) (auto intro: backend_do_inv)

lemma persistent_inv: "store_ok db \<Longrightarrow> helper_inv (helper_persistent w db host)"
  by (simp add: helper_inv_def helper_persistent_def store_fine_def own_ptys_def tracked_def)


section \<open>A concrete host\<close>

definition demo_host :: "nat host" where
  "demo_host =
     \<lparr>ho_var = (\<lambda>_. None), ho_windows = False, ho_pkg_version = ''1'', ho_script = (\<lambda>_. []),
      ho_mkdir = (\<lambda>_. io_pure ()), ho_write_file = (\<lambda>_ _. io_pure ()), ho_version_output = (\<lambda>_ _. None),
      ho_openpty = (\<lambda>_. io_pure ()), ho_spawn = (\<lambda>_. io_pure ()), ho_clone_reader = io_pure (),
      ho_take_writer = io_pure (), ho_first_input = (\<lambda>_. io_pure ()), ho_flush = io_pure (),
      ho_uuid = (\<lambda>n. (replicate n CHR ''u'', Suc n)), ho_pty_write = (\<lambda>_ _. io_pure ()),
      ho_pty_resize = (\<lambda>_ _. io_pure ()), ho_pty_kill = (\<lambda>_ w. w)\<rparr>"

definition demo_site :: "store_error option \<Rightarrow> nat site" where
  "demo_site fault = \<lparr>si_host = demo_host, si_render = (\<lambda>_. []), si_now = 0, si_fault = fault\<rparr>"

definition demo_opts :: spawn_opts where
  "demo_opts = \<lparr>so_shell = None, so_cwd = None, so_cols = 80, so_rows = 24, so_env = [],
     so_integration = False, so_run_on_start = None\<rparr>"

definition demo_start :: "(nat, nat) helper" where
  "demo_start = helper_persistent 0 empty_db ''h''"

definition demo_attached :: "(nat, nat) helper" where
  "demo_attached = backend_do (demo_site None) (BSpawn 7 1 demo_opts) demo_start"

definition demo_detached :: "(nat, nat) helper" where
  "demo_detached = backend_do (demo_site None) (BDetach 7 1) demo_attached"

lemma demo_simps [simp]:
  "so_cwd demo_opts = None" "si_host (demo_site fault) = demo_host" "si_fault (demo_site fault) = fault"
  "si_now (demo_site fault) = 0"
  by (simp_all add: demo_opts_def demo_site_def)

lemma demo_create:
  "create demo_host demo_opts t =
     (Inr (replicate (tm_world t) CHR ''u''),
      \<lparr>tm_ids = List.insert (replicate (tm_world t) CHR ''u'') (tm_ids t), tm_world = Suc (tm_world t)\<rparr>)"
  by (simp add: create_def start_shell_def io_bind_def io_pure_def io_context_def integration_env_def
      demo_host_def demo_opts_def)

lemma demo_attached_eq:
  "demo_attached =
    \<lparr>hp_terms = \<lparr>tm_ids = [[]], tm_world = 1\<rparr>,
     hp_sessions = [(7, \<lparr>se_internal = [], se_cwd = None, se_generation = 1\<rparr>)],
     hp_states = (\<lambda>_. None)(7 \<mapsto> \<lparr>st_replay = ring_default, st_sink = Some 1, st_exited = None\<rparr>),
     hp_store = Some \<lparr>db_runtimes = [row_of 0 (record_for (demo_site None) ''h'' 7 1 ''attached'' None)],
       db_interruptions = [], db_hosts = []\<rparr>,
     hp_host = ''h'', hp_log = []\<rparr>"
  by (simp add: demo_attached_def demo_start_def spawn_def spawn_create_def demo_create
      helper_persistent_def spawn_insert_def spawn_settle_def has_exited_def persist_def Let_def
      put_cases upsert_def empty_db_def record_for_def List.insert_def)

lemma demo_helper_run: "helper_run demo_start demo_attached" "helper_run demo_start demo_detached"
proof -
  have "calm (demo_site None) demo_start" "enabled (demo_site None) (BSpawn 7 (1::nat) demo_opts) demo_start"
    by (simp_all add: calm_def demo_start_def helper_persistent_def demo_create
        record_of_session_def stored_def empty_db_def)
  from helper_run.step [OF helper_run.start this]
  show one: "helper_run demo_start demo_attached" by (simp add: demo_attached_def)
  have "calm (demo_site None) demo_attached"
    by (simp add: demo_attached_eq calm_def)
  from helper_run.step [OF one this, of "BDetach 7 1"]
  show "helper_run demo_start demo_detached" by (simp add: demo_detached_def)
qed


section \<open>Generations only grow\<close>

definition gen_kept :: "session_id \<Rightarrow> ('k, 'w) helper \<Rightarrow> ('k, 'w) helper \<Rightarrow> bool" where
  "gen_kept i hp hp' \<longleftrightarrow>
     (\<forall>t. map_of (hp_sessions hp') i = Some t \<longrightarrow>
        (\<exists>s. map_of (hp_sessions hp) i = Some s \<and> unat (se_generation s) \<le> unat (se_generation t))) \<and>
     (hp_states hp i \<noteq> None \<longrightarrow> hp_states hp' i \<noteq> None)"

lemma gen_kept_refl: "gen_kept i hp hp"
  by (simp add: gen_kept_def)

lemma gen_kept_trans: "gen_kept i a b \<Longrightarrow> gen_kept i b c \<Longrightarrow> gen_kept i a c"
  unfolding gen_kept_def by (meson order_trans)

lemma gen_kept_same:
  "hp_sessions hp' = hp_sessions hp \<Longrightarrow> hp_states hp' = hp_states hp \<Longrightarrow> gen_kept i hp hp'"
  by (simp add: gen_kept_def)

lemma gen_kept_state: "gen_kept i hp (set_state j f hp)"
  by (simp add: gen_kept_def)

lemma gen_kept_forget: "gen_kept i hp (forget_session j hp)"
  by (simp add: gen_kept_def)

lemma gen_kept_bump: "calm si hp \<Longrightarrow> gen_kept i hp (bump_generation j hp)"
  using roomy [of si hp j] unat_Suc_gen by (fastforce simp: gen_kept_def)

lemma gen_kept_persist: "persist si j g state cwd hp = (r, hp') \<Longrightarrow> gen_kept i hp hp'"
  by (rule gen_kept_same) (simp_all add: persist_frame)

lemma calm_state [simp]: "calm si (set_state i f hp) = calm si hp"
  by (simp add: calm_def)

lemma gen_kept_attached_terms: "gen_kept i hp (snd (attached_terms j g act hp))"
  by (rule gen_kept_same) (auto simp: attached_terms_def split: sum.splits prod.splits)

lemma gen_kept_moved:
  assumes "calm si hp" "persist si' j g state cwd (bump_generation k (set_state l f hp)) = (r, hp')"
  shows "gen_kept i hp hp'"
  using gen_kept_state gen_kept_bump [of si "set_state l f hp"] gen_kept_persist [OF assms(2)] assms(1)
  by (metis calm_state gen_kept_trans)

lemma gen_kept_detach: "calm si hp \<Longrightarrow> gen_kept i hp (snd (helper_detach si j g hp))"
  by (auto simp: helper_detach_def Let_def gen_kept_refl intro: gen_kept_moved split: sum.splits prod.splits)

lemma gen_kept_begin: "calm si hp \<Longrightarrow> gen_kept i hp (snd (helper_begin_attach si j hp))"
  by (auto simp: helper_begin_attach_def Let_def gen_kept_refl intro: gen_kept_moved split: sum.splits prod.splits)

lemma gen_kept_complete: "gen_kept i hp (snd (helper_complete_attach si j g sink deliver hp))"
  by (auto simp: helper_complete_attach_def Let_def gen_kept_refl gen_kept_state split: sum.splits prod.splits
      intro: gen_kept_trans [OF gen_kept_trans [OF gen_kept_state gen_kept_state]] gen_kept_persist)

lemma gen_kept_terminate: "gen_kept i hp (snd (helper_terminate si j g hp))"
proof -
  have "gen_kept i hp ((forget_session j hp)\<lparr>hp_terms := t\<rparr>)" for t
    using gen_kept_forget [of i hp j] by (simp add: gen_kept_def)
  moreover from this have "gen_kept i hp (snd (persist si j g state cwd ((forget_session j hp)\<lparr>hp_terms := t\<rparr>)))"
    for g state cwd t using gen_kept_trans gen_kept_persist by (metis surj_pair snd_conv)
  ultimately show ?thesis
    by (auto simp: helper_terminate_def Let_def gen_kept_refl split: sum.splits prod.splits)
qed

lemma gen_kept_on_exit: "gen_kept i hp (on_exit si j internal code hp)"
  by (auto simp: on_exit_def exit_mark_def Let_def gen_kept_def)

lemma gen_kept_on_data: "gen_kept i hp (on_data j bs hp)"
  by (auto simp: on_data_def data_push_def Let_def gen_kept_def)

lemma kill_each_frame: "hp_sessions (kill_each si rows hp) = hp_sessions hp \<and> hp_states (kill_each si rows hp) = hp_states hp"
proof (induction si rows hp rule: kill_each.induct)
  case (2 si i s rest hp)
  then show ?case by (auto simp: Let_def persist_frame split: prod.splits)
qed simp

lemma gen_kept_kill_all: "gen_kept i hp (kill_all si hp)"
  by (simp add: kill_all_def gen_kept_def kill_each_frame)

lemma gen_kept_spawn:
  assumes "i \<noteq> j"
  shows "gen_kept i hp (snd (spawn si j sink opts hp))"
  using assms
  by (auto simp: spawn_def spawn_create_def spawn_settle_def Let_def gen_kept_def persist_frame
      split: sum.splits prod.splits if_splits)

lemma gen_kept_step:
  "calm si hp \<Longrightarrow> enabled si op hp \<Longrightarrow> hp_states hp i \<noteq> None \<Longrightarrow> gen_kept i hp (backend_do si op hp)"
  by (cases op) (auto simp: helper_write_def helper_resize_def gen_kept_attached_terms gen_kept_detach
      gen_kept_begin gen_kept_complete gen_kept_terminate gen_kept_kill_all gen_kept_on_data gen_kept_on_exit
      gen_kept_spawn simp del: enabled.simps(2-) intro!: gen_kept_spawn)

lemma gen_kept_run: "helper_run hp hp' \<Longrightarrow> hp_states hp i \<noteq> None \<Longrightarrow> gen_kept i hp hp' \<and> hp_states hp' i \<noteq> None"
proof (induction rule: helper_run.induct)
  case start
  then show ?case by (simp add: gen_kept_refl)
next
  case (step hp1 si op)
  then have "gen_kept i hp1 (backend_do si op hp1)" by (intro gen_kept_step) auto
  with step show ?case using gen_kept_trans by (fastforce simp: gen_kept_def)
qed


text \<open>Whoever is superseded stays out. Once a detach or an attach has handed out the next
  generation of a session, the former holder's generation is refused by every operation that
  acts on the session, in every state reached afterwards, and each refusal leaves everything as
  it is: no input, no resize, no detach, no completed attach and no termination of a client
  that was replaced.\<close>

theorem superseded_forever:
  assumes holder: "map_of (hp_sessions hp) i = Some s" "hp_states hp i \<noteq> None" and calm: "calm si hp"
    and taken: "helper_detach si i (se_generation s) hp = (Inr g', hp1) \<or> helper_begin_attach si i hp = (Inr g', hp1)"
    and later: "helper_run hp1 hp2"
  shows "g' = se_generation s + 1 \<and>
    (\<exists>e. helper_write si2 i (se_generation s) data hp2 = (Inl e, hp2) \<and>
      helper_resize si2 i (se_generation s) cols rows hp2 = (Inl e, hp2) \<and>
      helper_detach si2 i (se_generation s) hp2 = (Inl e, hp2) \<and>
      helper_complete_attach si2 i (se_generation s) sink deliver hp2 = (Inl e, hp2) \<and>
      helper_terminate si2 i (se_generation s) hp2 = (Inl e, hp2))"
proof -
  have next_gen: "g' = se_generation s + 1 \<and> hp_states hp1 i \<noteq> None \<and>
      map_of (hp_sessions hp1) i = Some (s\<lparr>se_generation := se_generation s + 1\<rparr>)"
    using taken holder
    by (auto simp: helper_detach_def helper_begin_attach_def current_session_Inr find_session_Inr Let_def
        persist_frame split: sum.splits prod.splits)
  have grown: "unat (se_generation s + 1) = unat (se_generation s) + 1"
    using roomy [OF calm holder(1)] by (rule unat_Suc_gen)
  have "se_generation t \<noteq> se_generation s" if "map_of (hp_sessions hp2) i = Some t" for t
    using gen_kept_run [OF later, of i] next_gen that grown by (auto simp: gen_kept_def)
  from stale_inert [OF this, where si = si2 and data = data and cols = cols and rows = rows and sink = sink
      and deliver = deliver] next_gen show ?thesis by blast
qed

lemma superseded_forever_witness:
  "\<exists>e. helper_write (demo_site None) 7 1 [] demo_detached = (Inl e, demo_detached)"
proof -
  have row: "map_of (hp_sessions demo_attached) 7 = Some \<lparr>se_internal = [], se_cwd = None, se_generation = 1\<rparr>"
    "hp_states demo_attached 7 \<noteq> None" and calm: "calm (demo_site None) demo_attached"
    by (simp_all add: demo_attached_eq calm_def)
  have "helper_detach (demo_site None) 7 1 demo_attached = (Inr 2, demo_detached)"
    by (simp add: demo_detached_def helper_detach_def current_session_def find_session_def check_generation_def
        persist_def put_cases record_for_def Let_def demo_attached_eq bump_generation_def set_state_def)
  with superseded_forever [OF row calm _ helper_run.start, of 2 demo_detached, where ?si2.0 = "demo_site None"
      and data = "[]"]
  show ?thesis by fastforce
qed


section \<open>Attaching\<close>

text \<open>The output one client is told.\<close>

definition outputs_to :: "'k \<Rightarrow> ('k \<times> sink_event) list \<Rightarrow> bytes" where
  "outputs_to k log = concat (map (\<lambda>(k', ev). if k' = k then (case ev of OnOutput bs \<Rightarrow> bs | _ \<Rightarrow> []) else []) log)"

fun data_all :: "session_id \<Rightarrow> bytes list \<Rightarrow> ('k, 'w) helper \<Rightarrow> ('k, 'w) helper" where
  "data_all i [] hp = hp"
| "data_all i (bs # rest) hp = data_all i rest (on_data i bs hp)"

lemma outputs_to_append [simp]: "outputs_to k (xs @ ys) = outputs_to k xs @ outputs_to k ys"
  by (simp add: outputs_to_def)

lemma on_data_effect:
  assumes "hp_states hp i = Some st"
  shows "hp_states (on_data i bs hp) i = Some (st\<lparr>st_replay := ring_push (st_replay st) bs\<rparr>)"
    "hp_log (on_data i bs hp) = hp_log hp @ (case st_sink st of Some k \<Rightarrow> [(k, OnOutput bs)] | None \<Rightarrow> [])"
    "hp_sessions (on_data i bs hp) = hp_sessions hp" "hp_store (on_data i bs hp) = hp_store hp"
    "hp_host (on_data i bs hp) = hp_host hp"
  using assms by (simp_all add: on_data_def data_push_def Let_def sink_of_def)

lemma data_all_effect:
  assumes "hp_states hp i = Some st"
  shows "hp_states (data_all i cs hp) i = Some (st\<lparr>st_replay := push_chunks (st_replay st) cs\<rparr>) \<and>
    hp_log (data_all i cs hp) = hp_log hp @ (case st_sink st of Some k \<Rightarrow> map (\<lambda>c. (k, OnOutput c)) cs | None \<Rightarrow> []) \<and>
    hp_sessions (data_all i cs hp) = hp_sessions hp \<and> hp_store (data_all i cs hp) = hp_store hp \<and>
    hp_host (data_all i cs hp) = hp_host hp"
  using assms
proof (induction cs arbitrary: hp st)
  case (Cons c cs)
  from Cons.IH [OF on_data_effect(1) [OF Cons.prems]] show ?case
    by (auto simp: on_data_effect [OF Cons.prems] split: option.splits)
qed (simp split: option.split)

text \<open>C26: Nothing is lost or repeated across an attach. When an attach begins and completes and
  the session prints before, during and after, then what the new client is handed and told is
  exactly the history held when the attach began followed by everything printed since, in
  order; nobody is told anything in between.\<close>

theorem attach_then_live:
  assumes opened: "helper_begin_attach si i hp = (Inr g, hp1)" and known: "hp_states hp i = Some st"
    and hp2: "hp2 = data_all i during hp1"
    and completed: "helper_complete_attach si2 i g sink deliver hp2 = (Inr batch, hp3)"
    and hp4: "hp4 = data_all i after hp3"
  shows "ab_snapshot batch @ ab_delta batch @ outputs_to sink (drop (length (hp_log hp3)) (hp_log hp4))
      = ring_snapshot (st_replay st) @ concat during @ concat after
    \<and> hp_log hp3 = hp_log hp \<and> sink_of i hp4 = Some sink"
proof -
  obtain ring where ring: "begin_attach (st_replay st) = (Inr (), ring)"
    and hp1: "hp_states hp1 i = Some (st\<lparr>st_replay := ring, st_sink := None\<rparr>)" "hp_log hp1 = hp_log hp"
    using opened known
    by (auto simp: helper_begin_attach_def find_session_Inr Let_def persist_frame split: sum.splits prod.splits)
  from ring have "r_attach ring = Some \<lparr>as_snapshot = ring_snapshot (st_replay st), as_delta = []\<rparr>"
    by (auto simp: begin_attach_def split: if_splits)
  then have open_attach: "r_attach (push_chunks ring during)
      = Some \<lparr>as_snapshot = ring_snapshot (st_replay st), as_delta = concat during\<rparr>"
    by (simp add: push_chunks_attach)
  from data_all_effect [OF hp1(1), of during]
  have hp2': "hp_states hp2 i = Some (st\<lparr>st_replay := push_chunks ring during, st_sink := None\<rparr>)"
    "hp_log hp2 = hp_log hp"
    by (simp_all add: hp2 hp1(2))
  have batch: "ab_snapshot batch = ring_snapshot (st_replay st)" "ab_delta batch = concat during"
    and hp3: "\<exists>st3. hp_states hp3 i = Some st3 \<and> st_sink st3 = Some sink" "hp_log hp3 = hp_log hp"
    using completed hp2' open_attach
    by (auto simp: helper_complete_attach_def current_session_Inr Let_def persist_frame finish_attach_def
        split: sum.splits prod.splits)
  then obtain st3 where st3: "hp_states hp3 i = Some st3" "st_sink st3 = Some sink" by blast
  from data_all_effect [OF st3(1), of after] have "hp_log hp4 = hp_log hp3 @ map (\<lambda>c. (sink, OnOutput c)) after"
    and "sink_of i hp4 = Some sink"
    by (simp_all add: hp4 st3(2) sink_of_def)
  with batch hp3(2) show ?thesis
    by (simp add: outputs_to_def comp_def)
qed


definition demo_attaching :: "(nat, nat) helper" where
  "demo_attaching = snd (helper_begin_attach (demo_site None) 7 demo_attached)"

lemma attach_then_live_witness:
  "\<exists>batch hp3. helper_complete_attach (demo_site None) 7 2 5 (\<lambda>_. Inr ()) (data_all 7 [[1], [2]] demo_attaching) = (Inr batch, hp3)
    \<and> ab_snapshot batch @ ab_delta batch @ outputs_to 5 (drop (length (hp_log hp3)) (hp_log (data_all 7 [[3]] hp3)))
      = [1, 2, 3]"
proof -
  have opened: "helper_begin_attach (demo_site None) 7 demo_attached = (Inr 2, demo_attaching)"
    by (simp add: demo_attaching_def helper_begin_attach_def find_session_def ring_default_def ring_new_def
        begin_attach_def persist_def put_cases record_for_def Let_def demo_attached_eq bump_generation_def
        set_state_def)
  have known: "hp_states demo_attached 7 = Some \<lparr>st_replay = ring_default, st_sink = Some 1, st_exited = None\<rparr>"
    by (simp add: demo_attached_eq)
  obtain batch hp3 where completed: "helper_complete_attach (demo_site None) 7 2 5 (\<lambda>_. Inr ())
      (data_all 7 [[1], [2]] demo_attaching) = (Inr batch, hp3)"
    by (simp add: demo_attaching_def helper_begin_attach_def find_session_def ring_default_def ring_new_def
        begin_attach_def persist_def put_cases record_for_def Let_def demo_attached_eq bump_generation_def
        set_state_def on_data_def data_push_def tell_def sink_of_def ring_push_def enforce_limits_def
        helper_complete_attach_def current_session_def check_generation_def finish_attach_def)
  with attach_then_live [OF opened known refl completed refl, of "[[3]]"] show ?thesis
    by (auto simp: ring_default_def ring_new_def ring_snapshot_def)
qed

section \<open>Sessions left behind\<close>

text \<open>What can happen to a session short of completing an attach of it.\<close>

definition no_completion :: "session_id \<Rightarrow> 'k backend_op \<Rightarrow> bool" where
  "no_completion i op \<longleftrightarrow> (case op of BComplete j _ _ _ \<Rightarrow> j \<noteq> i | _ \<Rightarrow> True)"

inductive uncompleted :: "session_id \<Rightarrow> ('k, 'w) helper \<Rightarrow> ('k, 'w) helper \<Rightarrow> bool" for i hp0 where
  unc_start: "uncompleted i hp0 hp0"
| unc_step: "uncompleted i hp0 hp \<Longrightarrow> enabled si op hp \<Longrightarrow> no_completion i op \<Longrightarrow>
    uncompleted i hp0 (backend_do si op hp)"

definition attach_open :: "session_id \<Rightarrow> ('k, 'w) helper \<Rightarrow> bool" where
  "attach_open i hp \<longleftrightarrow> (\<exists>st. hp_states hp i = Some st \<and> r_attach (st_replay st) \<noteq> None)"

lemma attach_open_state:
  "attach_open i hp \<Longrightarrow> (\<And>st. r_attach (st_replay st) \<noteq> None \<Longrightarrow> r_attach (st_replay (f st)) \<noteq> None) \<Longrightarrow>
   attach_open i (set_state j f hp)"
  by (auto simp: attach_open_def)

lemma attach_open_cong: "hp_states hp' = hp_states hp \<Longrightarrow> attach_open i hp' = attach_open i hp"
  by (simp add: attach_open_def)

lemma attach_open_persist: "persist si j g state cwd hp = (r, hp') \<Longrightarrow> attach_open i hp' = attach_open i hp"
  by (rule attach_open_cong) (simp add: persist_frame)

lemma attach_open_simps [simp]:
  "attach_open i (bump_generation j hp) = attach_open i hp"
  "attach_open i (tell k ev hp) = attach_open i hp"
  "attach_open i (forget_session j hp) = attach_open i hp"
  "attach_open i (exit_record si j hp) = attach_open i hp"
  "attach_open i (spawn_insert j internal cwd hp) = attach_open i hp"
  "attach_open i (hp\<lparr>hp_terms := t\<rparr>) = attach_open i hp"
  by (simp_all add: attach_open_def)

lemma attach_open_step:
  assumes "attach_open i hp" "enabled si op hp" "no_completion i op"
  shows "attach_open i (backend_do si op hp)"
proof (cases op)
  case (BSpawn j sink opts)
  with assms have "j \<noteq> i" by (auto simp: attach_open_def)
  with assms(1) BSpawn show ?thesis
    by (auto simp: spawn_def spawn_create_def spawn_settle_def Let_def attach_open_persist attach_open_def persist_frame
        split: sum.splits prod.splits)
next
  case (BDetach j g)
  with assms(1) show ?thesis
    by (auto simp: helper_detach_def Let_def attach_open_persist attach_open_state split: sum.splits prod.splits)
next
  case (BBegin j)
  have "r_attach (st_replay st) = None \<and> r_attach ring \<noteq> None" if "begin_attach (st_replay st) = (Inr x, ring)"
    for st :: "'a rt_state" and x ring using that by (auto simp: begin_attach_def split: if_splits)
  with BBegin assms(1) show ?thesis
    by (fastforce simp: helper_begin_attach_def Let_def attach_open_persist attach_open_state
        split: sum.splits prod.splits)
next
  case (BComplete j g sink deliver)
  with assms have "j \<noteq> i" by (simp add: no_completion_def)
  with assms(1) BComplete show ?thesis
    by (auto simp: helper_complete_attach_def Let_def attach_open_persist attach_open_def persist_frame
        split: sum.splits prod.splits)
next
  case (BTerminate j g)
  with assms(1) show ?thesis
    by (auto simp: helper_terminate_def Let_def split: sum.splits prod.splits)
      (metis attach_open_persist attach_open_simps(3,6) surj_pair snd_conv)
next
  case BKillAll
  with assms(1) show ?thesis by (simp add: kill_all_def attach_open_def kill_each_frame)
next
  case (BData j bs)
  with assms(1) show ?thesis
    by (auto simp: on_data_def data_push_def Let_def ring_push_attach intro: attach_open_state)
next
  case (BExit j internal code)
  with assms(1) show ?thesis
    by (auto simp: on_exit_def exit_mark_def Let_def intro: attach_open_state)
qed (use assms(1) in \<open>auto simp: helper_write_def helper_resize_def attached_terms_def split: sum.splits prod.splits\<close>)


lemma attach_open_refuses: "attach_open i hp \<Longrightarrow> \<exists>e. helper_begin_attach si i hp = (Inl e, hp)"
  by (cases "find_session hp i")
    (auto simp: attach_open_def helper_begin_attach_def find_session_Inr begin_attach_def)

text \<open>An attach whose record cannot be written wedges the session. The reservation of the
  replay is made first and is not given back, and since the caller got an error it never
  completes what was begun: whatever happens afterwards short of a completion, every attach of
  that session is refused, for as long as it runs.\<close>

theorem failed_attach_wedges:
  assumes failed: "helper_begin_attach si i hp = (Inl e, hp1)" and row: "find_session hp i = Inr (s, st)"
    and idle: "r_attach (st_replay st) = None"
    and later: "uncompleted i hp1 hp2"
  shows "(\<exists>e2. helper_begin_attach si2 i hp2 = (Inl e2, hp2)) \<and> sink_of i hp1 = None \<and>
    map_of (hp_sessions hp1) i = Some (s\<lparr>se_generation := se_generation s + 1\<rparr>)"
proof -
  obtain ring where ring: "begin_attach (st_replay st) = (Inr (), ring)" "r_attach ring \<noteq> None"
    using idle by (simp add: begin_attach_def)
  have hp1: "hp_states hp1 i = Some (st\<lparr>st_replay := ring, st_sink := None\<rparr>)"
    "map_of (hp_sessions hp1) i = Some (s\<lparr>se_generation := se_generation s + 1\<rparr>)"
    using failed row ring(1)
    by (auto simp: helper_begin_attach_def find_session_Inr Let_def persist_frame split: sum.splits prod.splits)
  with ring(2) have "attach_open i hp1" by (simp add: attach_open_def)
  with later have "attach_open i hp2"
    by (induction rule: uncompleted.induct) (auto intro: attach_open_step)
  then have "\<exists>e2. helper_begin_attach si2 i hp2 = (Inl e2, hp2)" by (rule attach_open_refuses)
  with hp1 show ?thesis by (simp add: sink_of_def)
qed

lemma failed_attach_wedges_witness:
  "\<exists>e2. helper_begin_attach (demo_site None) 7 (snd (helper_begin_attach (demo_site (Some ''disk full'')) 7 demo_attached))
    = (Inl e2, snd (helper_begin_attach (demo_site (Some ''disk full'')) 7 demo_attached))"
proof -
  let ?st = "\<lparr>st_replay = ring_default, st_sink = Some 1, st_exited = None\<rparr>"
  let ?s = "\<lparr>se_internal = [], se_cwd = None, se_generation = 1\<rparr>"
  have row: "find_session demo_attached 7 = Inr (?s, ?st)"
    by (simp add: find_session_def demo_attached_eq)
  have idle: "r_attach (st_replay ?st) = None" by (simp add: ring_default_def ring_new_def)
  have "helper_begin_attach (demo_site (Some ''disk full'')) 7 demo_attached
      = (Inl ''disk full'', snd (helper_begin_attach (demo_site (Some ''disk full'')) 7 demo_attached))"
    by (simp add: helper_begin_attach_def find_session_def ring_default_def ring_new_def
        begin_attach_def persist_def put_cases record_for_def Let_def demo_attached_eq bump_generation_def
        set_state_def)
  from failed_attach_wedges [OF this row idle unc_start, of "demo_site None"] show ?thesis by blast
qed

text \<open>A shell that exits between the end of a spawn's check and the write of its record is
  recorded as attached for good: the exit finds no record to update, and the spawn then writes
  one for a session that is no longer listed. The caller is told that the spawn succeeded.\<close>

theorem exit_during_spawn_recorded_attached:
  assumes store: "hp_store hp \<noteq> None" "store_fine hp" "record_of_session hp i = None"
    and fault: "si_fault si = None"
    and check: "\<not> has_exited i (spawn_insert i internal cwd hp)"
    and exit: "hp1 = on_exit si i internal code (spawn_insert i internal cwd hp)"
    and settle: "spawn_settle si i cwd False hp1 = (r, hp2)"
  shows "r = Inr i \<and> map_of (hp_sessions hp2) i = None \<and>
    (\<exists>a. record_of_session hp2 i = Some a \<and> rr_state a = ''attached'')"
proof -
  define hp0 where "hp0 = forget_session i (tell (sink_of i (set_state i (\<lambda>st. st\<lparr>st_exited := Some code\<rparr>)
    (spawn_insert i internal cwd hp))) (OnExit code)
    (set_state i (\<lambda>st. st\<lparr>st_exited := Some code\<rparr>) (spawn_insert i internal cwd hp)))"
  have hp1: "hp1 = (exit_record si i hp0)\<lparr>hp_terms := terms_remove internal (hp_terms hp0)\<rparr>"
    by (simp add: exit on_exit_def exit_mark_def Let_def hp0_def)
  have fine: "store_fine hp0" using store(2) by (simp add: hp0_def store_fine_def)
  have hp0: "hp_store hp0 \<noteq> None" using store(1) by (simp add: hp0_def)
  note effect = exit_record_effect [OF fine fault, of i]
  have "hp_store hp1 \<noteq> None" "map_of (hp_sessions hp1) i = None"
    using effect(2) hp0 by (simp_all add: hp1) (simp add: hp0_def)
  moreover obtain hp3 where p: "persist si i 1 ''attached'' cwd hp1 = (Inr (), hp3)"
    using persist_ok [OF fault, of 1] by fastforce
  moreover from p settle have "r = Inr i" "hp2 = hp3" by (simp_all add: spawn_settle_def)
  ultimately show ?thesis
    using persist_record [OF p] by (auto simp: persist_frame [OF p])
qed

definition demo_created :: "(nat, nat) helper" where
  "demo_created = snd (spawn_create (demo_site None) 7 1 demo_opts demo_start)"

lemma exit_during_spawn_recorded_attached_witness:
  "\<exists>hp2. spawn_settle (demo_site None) 7 None False
      (on_exit (demo_site None) 7 [] (Some 0) (spawn_insert 7 [] None demo_created)) = (Inr 7, hp2) \<and>
    map_of (hp_sessions hp2) 7 = None \<and> (\<exists>a. record_of_session hp2 7 = Some a \<and> rr_state a = ''attached'')"
proof -
  have created: "demo_created = demo_start\<lparr>hp_states := (hp_states demo_start)(7 \<mapsto>
      \<lparr>st_replay = ring_default, st_sink = Some 1, st_exited = None\<rparr>),
      hp_terms := \<lparr>tm_ids = [[]], tm_world = 1\<rparr>\<rparr>"
    by (simp add: demo_created_def spawn_create_def demo_create demo_start_def helper_persistent_def List.insert_def)
  have "hp_store demo_created \<noteq> None" "store_fine demo_created" "record_of_session demo_created 7 = None"
    "\<not> has_exited 7 (spawn_insert 7 [] None demo_created)"
    by (simp_all add: created demo_start_def helper_persistent_def store_fine_def store_ok_empty
        record_of_session_def stored_def empty_db_def has_exited_def)
      (simp add: store_ok_empty [unfolded empty_db_def])
  moreover obtain r hp2 where "spawn_settle (demo_site None) 7 None False
      (on_exit (demo_site None) 7 [] (Some 0) (spawn_insert 7 [] None demo_created)) = (r, hp2)"
    by (metis surj_pair)
  ultimately show ?thesis
    using exit_during_spawn_recorded_attached [of demo_created 7 "demo_site None" "[]" None _ "Some 0" r hp2]
    by simp
qed

text \<open>A spawn whose record cannot be written reports the error of the store and leaves the shell
  running and listed.\<close>

lemma failed_spawn_runs_on:
  assumes "spawn_create si i sink opts hp = (Inr internal, hp1)" "hp_store hp = Some db" "si_fault si = Some e"
  shows "\<exists>hp2. spawn si i sink opts hp = (Inl e, hp2) \<and> map_of (hp_sessions hp2) i \<noteq> None \<and>
    sink_of i hp2 = Some sink \<and> hp_terms hp2 = hp_terms hp1"
  using assms by (auto simp: spawn_def spawn_create_def spawn_settle_def Let_def has_exited_def persist_def put_cases
      record_for_def sink_of_def spawn_insert_def update_conv split: prod.splits)

end
