(* ===== verification/Term_Transport.thy ===== *)
theory Term_Transport
  imports Term_Protocol
begin

text \<open>
  The framed stream over a local socket (\<open>crates/tabverse-term/src/transport.rs\<close>): receiving
  through the incremental decoder, sending, and both sides of the authentication. The socket
  is a list of reads, each some bytes or a failure; an empty read is the end of the stream, and
  an exhausted list is a read that still blocks.
\<close>

section \<open>Receiving\<close>

datatype transport_error = IoError string | ProtocolFailed protocol_error | RemoteError string | ClosedStream

type_synonym reads = "(string + bytes) list"

record framed =
  fr_decoder :: decoder
  fr_pending :: "frame list"

definition framed_new :: framed where
  "framed_new = \<lparr>fr_decoder = decoder_new, fr_pending = []\<rparr>"

text \<open>The read loop of \<open>recv\<close>; \<open>None\<close> while it waits.\<close>

fun recv_loop ::
  "framed \<Rightarrow> reads \<Rightarrow> (transport_error + frame) option \<times> framed \<times> reads" where
  "recv_loop fr [] = (None, fr, [])"
| "recv_loop fr (Inl e # rs) = (Some (Inl (IoError e)), fr, rs)"
| "recv_loop fr (Inr chunk # rs) =
     (if chunk = [] then (Some (Inl ClosedStream), fr, rs)
      else case decoder_push (fr_decoder fr) chunk of
             (Inl e, d) \<Rightarrow> (Some (Inl (ProtocolFailed e)), fr\<lparr>fr_decoder := d\<rparr>, rs)
           | (Inr frames, d) \<Rightarrow>
               (case fr_pending fr @ frames of
                  [] \<Rightarrow> recv_loop (fr\<lparr>fr_decoder := d\<rparr>) rs
                | f # rest \<Rightarrow> (Some (Inr f), \<lparr>fr_decoder = d, fr_pending = rest\<rparr>, rs)))"

definition framed_recv ::
  "framed \<Rightarrow> reads \<Rightarrow> (transport_error + frame) option \<times> framed \<times> reads" where
  "framed_recv fr rs =
     (case fr_pending fr of
        f # rest \<Rightarrow> (Some (Inr f), fr\<lparr>fr_pending := rest\<rparr>, rs)
      | [] \<Rightarrow> recv_loop fr rs)"

section \<open>Sending\<close>

text \<open>A frame goes out as its encoding, if the socket takes it.\<close>

definition framed_send :: "(bytes \<Rightarrow> string + unit) \<Rightarrow> frame \<Rightarrow> transport_error + bytes" where
  "framed_send out f =
     (case encode f of
        Inl e \<Rightarrow> Inl (ProtocolFailed e)
      | Inr bs \<Rightarrow> (case out bs of Inl e \<Rightarrow> Inl (IoError e) | Inr _ \<Rightarrow> Inr bs))"

section \<open>Authentication\<close>

definition read_welcome :: "frame \<Rightarrow> transport_error + 64 word \<times> 256 word" where
  "read_welcome answer =
     (if f_kind answer \<noteq> KWelcome \<or> length (f_payload answer) \<noteq> 40
      then Inl (ProtocolFailed Unauthorized)
      else Inr (word_of_nat (from_be (drop 32 (f_payload answer))),
                word_of_nat (from_be (take 32 (f_payload answer)))))"

text \<open>What the client sends first, and what it makes of the answer.\<close>

definition authenticate_client ::
  "(bytes \<Rightarrow> string + unit) \<Rightarrow> auth_token \<Rightarrow> 256 word \<Rightarrow> framed \<Rightarrow> reads
   \<Rightarrow> (transport_error + 64 word \<times> 256 word) option \<times> framed \<times> reads" where
  "authenticate_client out tok nonce fr rs =
     (case framed_send out (frame_new KHello 0 0 (hello_payload tok nonce)) of
        Inl e \<Rightarrow> (Some (Inl e), fr, rs)
      | Inr _ \<Rightarrow>
          (case framed_recv fr rs of
             (None, fr1, rs1) \<Rightarrow> (None, fr1, rs1)
           | (Some (Inl e), fr1, rs1) \<Rightarrow> (Some (Inl e), fr1, rs1)
           | (Some (Inr answer), fr1, rs1) \<Rightarrow> (Some (read_welcome answer), fr1, rs1)))"

definition unauthorized_frame :: frame where
  "unauthorized_frame = frame_new KError 0 0 (map (\<lambda>c. of_char c) ''unauthorized'')"

text \<open>The server's side: the answer frame it attempts to send and the verdict.\<close>

definition authenticate_server ::
  "(bytes \<Rightarrow> string + unit) \<Rightarrow> auth_token \<Rightarrow> 256 word \<Rightarrow> 64 word \<Rightarrow> framed \<Rightarrow> reads
   \<Rightarrow> ((transport_error + unit) \<times> frame) option \<times> framed \<times> reads" where
  "authenticate_server out tok nonce caps fr rs =
     (case framed_recv fr rs of
        (None, fr1, rs1) \<Rightarrow> (None, fr1, rs1)
      | (Some first, fr1, rs1) \<Rightarrow>
          (case (case first of
                   Inl _ \<Rightarrow> None
                 | Inr f \<Rightarrow> (case handshake_accept (handshake_new tok nonce caps) f of
                              (Inl _, _) \<Rightarrow> None | (Inr w, _) \<Rightarrow> Some w)) of
             Some welcome \<Rightarrow>
               (Some (case framed_send out welcome of Inl e \<Rightarrow> Inl e | Inr _ \<Rightarrow> Inr (), welcome), fr1, rs1)
           | None \<Rightarrow> (Some (Inl (ProtocolFailed Unauthorized), unauthorized_frame), fr1, rs1)))"

section \<open>Frames come out in order\<close>

definition data_reads :: "bytes list \<Rightarrow> reads" where
  "data_reads cs = map Inr cs"

definition framed_ok :: "framed \<Rightarrow> bool" where
  "framed_ok fr \<longleftrightarrow> \<not> d_poisoned (fr_decoder fr) \<and> scan_frame (d_buffer (fr_decoder fr)) = More"

lemma decoder_push_ok:
  assumes "\<not> d_poisoned d" "decode_available (d_buffer d @ c) = (Inr fs, b)"
  shows "decoder_push d c = (Inr fs, d\<lparr>d_buffer := b\<rparr>)"
  using assms by (simp add: decoder_push_def)

text \<open>One receive over reads that decode: the first frame, or waiting when there is none.\<close>

lemma recv_loop_decodes:
  assumes "framed_ok fr" "fr_pending fr = []" "[] \<notin> set cs"
    and "decode_available (d_buffer (fr_decoder fr) @ concat cs) = (Inr gs, t)"
  shows "case gs of
      [] \<Rightarrow> \<exists>fr1. recv_loop fr (data_reads cs) = (None, fr1, [])
    | g # hs \<Rightarrow> \<exists>fr1 cs1 ks. recv_loop fr (data_reads cs) = (Some (Inr g), fr1, data_reads cs1) \<and>
        framed_ok fr1 \<and> [] \<notin> set cs1 \<and> hs = fr_pending fr1 @ ks \<and>
        decode_available (d_buffer (fr_decoder fr1) @ concat cs1) = (Inr ks, t)"
  using assms
proof (induction cs arbitrary: fr)
  case Nil
  then have "gs = []" by (simp add: framed_ok_def helper_frames.drain_More)
  then show ?case by (simp add: data_reads_def)
next
  case (Cons c cs)
  let ?b = "d_buffer (fr_decoder fr)"
  obtain r b where rb: "decode_available (?b @ c) = (r, b)" by (cases "decode_available (?b @ c)")
  have "r \<noteq> Inl e" for e
    using helper_frames.drain_append_error [of "?b @ c" e b "concat cs"] rb Cons.prems(4) by auto
  then obtain fs where fs: "decode_available (?b @ c) = (Inr fs, b)" using rb by (cases r) auto
  have more: "scan_frame b = More" by (rule helper_frames.drain_leftover [OF fs])
  obtain ks where ks: "decode_available (b @ concat cs) = (Inr ks, t)" "gs = fs @ ks"
    using helper_frames.drain_append [OF fs, of "concat cs"] Cons.prems(4)
    by (cases "decode_available (b @ concat cs)"; cases "fst (decode_available (b @ concat cs))") auto
  define d where "d = (fr_decoder fr)\<lparr>d_buffer := b\<rparr>"
  have push: "decoder_push (fr_decoder fr) c = (Inr fs, d)"
    using decoder_push_ok [OF _ fs] Cons.prems(1) by (simp add: framed_ok_def d_def)
  have ok: "framed_ok \<lparr>fr_decoder = d, fr_pending = ps\<rparr>" for ps
    using Cons.prems(1) more by (simp add: framed_ok_def d_def)
  show ?case
  proof (cases fs)
    case Nil
    have "recv_loop fr (data_reads (c # cs)) = recv_loop \<lparr>fr_decoder = d, fr_pending = []\<rparr> (data_reads cs)"
      using push Nil Cons.prems(2,3) by (cases fr) (auto simp: data_reads_def)
    with Cons.IH [OF ok, of "[]"] Cons.prems(3) ks Nil show ?thesis
      by (simp add: d_def cong: list.case_cong)
  next
    case (Cons f hs)
    then have "recv_loop fr (data_reads (c # cs)) = (Some (Inr f), \<lparr>fr_decoder = d, fr_pending = hs\<rparr>, data_reads cs)"
      using push Cons.prems(2,3) by (auto simp: data_reads_def)
    with Cons ks ok Cons.prems(3) show ?thesis by (fastforce simp: d_def)
  qed
qed


text \<open>As many receives as one asks for.\<close>

fun recv_times :: "nat \<Rightarrow> framed \<Rightarrow> reads \<Rightarrow> (transport_error + frame) option list" where
  "recv_times 0 fr rs = []"
| "recv_times (Suc n) fr rs = (case framed_recv fr rs of (r, fr1, rs1) \<Rightarrow> r # recv_times n fr1 rs1)"

lemma recv_times_decodes:
  assumes "framed_ok fr" "[] \<notin> set cs"
    and "decode_available (d_buffer (fr_decoder fr) @ concat cs) = (Inr gs, t)"
  shows "recv_times (length (fr_pending fr @ gs)) fr (data_reads cs) = map (\<lambda>f. Some (Inr f)) (fr_pending fr @ gs)"
  using assms
proof (induction "length (fr_pending fr @ gs)" arbitrary: fr cs gs)
  case 0
  then show ?case by simp
next
  case (Suc n)
  show ?case
  proof (cases "fr_pending fr")
    case (Cons p ps)
    have "framed_ok (fr\<lparr>fr_pending := ps\<rparr>)" using Suc.prems(1) by (simp add: framed_ok_def)
    with Suc.hyps(1) [of "fr\<lparr>fr_pending := ps\<rparr>" gs cs] Suc.hyps(2) Suc.prems Cons show ?thesis
      by (simp add: framed_recv_def)
  next
    case Nil
    with Suc.hyps(2) obtain g hs where gs: "gs = g # hs" by (cases gs) auto
    from recv_loop_decodes [OF Suc.prems(1) Nil Suc.prems(2,3)]
    obtain fr1 cs1 ks where one: "recv_loop fr (data_reads cs) = (Some (Inr g), fr1, data_reads cs1)"
      and inv: "framed_ok fr1" "[] \<notin> set cs1" "hs = fr_pending fr1 @ ks"
        "decode_available (d_buffer (fr_decoder fr1) @ concat cs1) = (Inr ks, t)"
      by (auto simp: gs)
    from Suc.hyps(1) [OF _ inv(1,2,4)] Suc.hyps(2) Nil gs inv(3) one show ?thesis
      by (simp add: framed_recv_def)
  qed
qed

text \<open>However the socket cuts a stream of encoded frames into reads, receiving returns exactly
  those frames in order, one per call.\<close>

theorem recv_returns_frames_in_order:
  assumes "list_all2 (\<lambda>f bs. encode f = Inr bs) fs bss" "concat cs = concat bss" "[] \<notin> set cs"
  shows "recv_times (length fs) framed_new (data_reads cs) = map (\<lambda>f. Some (Inr f)) fs"
proof -
  have "decode_available (concat cs) = (Inr fs, [])"
    using helper_frames.drain_encodings [OF assms(1), of "[]"] assms(2) by simp
  then show ?thesis
    using recv_times_decodes [of framed_new cs fs "[]"] assms(3)
    by (simp add: framed_new_def framed_ok_def decoder_new_def)
qed

lemma welcome_bytes: "\<exists>bs. encode (welcome_of nonce caps) = Inr bs"
  by (simp add: encode_Inr welcome_of_def frame_new_def proto_consts)

lemma recv_first:
  assumes "encode f = Inr (concat cs)" "[] \<notin> set cs"
  shows "\<exists>fr1 rs1. framed_recv framed_new (data_reads cs) = (Some (Inr f), fr1, rs1)"
proof -
  have "decode_available (concat cs) = (Inr [f], [])"
    using helper_frames.drain_encodings [of "[f]" "[concat cs]" "[]"] assms(1) by simp
  with recv_loop_decodes [of framed_new cs "[f]" "[]"] assms(2) show ?thesis
    by (auto simp: framed_recv_def framed_new_def framed_ok_def decoder_new_def)
qed

lemma u64_bytes: "(word_of_nat (from_be (be_bytes 8 (unat w))) :: 64 word) = w"
proof -
  have "unat w < 2 ^ LENGTH(64)" by (rule unsigned_less)
  then have "unat w < 256 ^ 8" by simp
  then show ?thesis by (simp only: from_be_bytes mod_less) simp
qed

lemma u256_bytes: "(word_of_nat (from_be (be_bytes 32 (unat w))) :: 256 word) = w"
proof -
  have "unat w < 2 ^ LENGTH(256)" by (rule unsigned_less)
  then have "unat w < 256 ^ 32" by simp
  then show ?thesis by (simp only: from_be_bytes mod_less) simp
qed

text \<open>Both ends agree. A client with the token, whatever reads its Hello arrives in, makes the
  server accept it and send one Welcome; and that Welcome, whatever reads it arrives in, gives
  the client the server's capabilities and nonce. Without the token the server's one answer is
  the same frame whatever was wrong, and the client that reads it fails as unauthorized.\<close>

theorem authentication_agrees:
  assumes hello: "encode (frame_new KHello 0 0 (hello_payload tok cnonce)) = Inr (concat cs)" "[] \<notin> set cs"
    and reply: "encode (welcome_of nonce caps) = Inr (concat ds)" "[] \<notin> set ds"
    and out: "\<And>bs. out bs = Inr ()"
  shows "fst (authenticate_server out tok nonce caps framed_new (data_reads cs)) = Some (Inr (), welcome_of nonce caps) \<and>
    fst (authenticate_client out tok cnonce framed_new (data_reads ds)) = Some (Inr (caps, nonce))"
proof
  obtain fr1 rs1 where first: "framed_recv framed_new (data_reads cs)
      = (Some (Inr (frame_new KHello 0 0 (hello_payload tok cnonce))), fr1, rs1)"
    using recv_first [OF hello] by blast
  have "hello_from tok (frame_new KHello 0 0 (hello_payload tok cnonce))"
    by (auto simp: hello_from_def frame_new_def)
  then show "fst (authenticate_server out tok nonce caps framed_new (data_reads cs)) = Some (Inr (), welcome_of nonce caps)"
    by (simp add: authenticate_server_def first handshake_accept_eq handshake_new_def framed_send_def reply(1) out)
  obtain fr2 rs2 where answer: "framed_recv framed_new (data_reads ds) = (Some (Inr (welcome_of nonce caps)), fr2, rs2)"
    using recv_first [OF reply] by blast
  have "read_welcome (welcome_of nonce caps) = Inr (caps, nonce)"
    by (simp add: read_welcome_def welcome_of_def frame_new_def proto_consts u64_bytes u256_bytes)
  then show "fst (authenticate_client out tok cnonce framed_new (data_reads ds)) = Some (Inr (caps, nonce))"
    by (simp add: authenticate_client_def answer framed_send_def hello(1) out)
qed

text \<open>Byte by byte.\<close>

definition byte_reads :: "frame \<Rightarrow> bytes list" where
  "byte_reads f = map (\<lambda>b. [b]) (projr (encode f))"

lemma concat_byte_reads: "encode f = Inr bs \<Longrightarrow> encode f = Inr (concat (byte_reads f)) \<and> [] \<notin> set (byte_reads f)"
  by (auto simp: byte_reads_def)

lemma recv_returns_frames_in_order_witness:
  "recv_times 1 framed_new (data_reads (byte_reads (welcome_of 1 2))) = [Some (Inr (welcome_of 1 2))]"
proof -
  obtain bs where "encode (welcome_of 1 2) = Inr bs" using welcome_bytes by blast
  from concat_byte_reads [OF this]
  show ?thesis
    using recv_returns_frames_in_order [of "[welcome_of 1 2]" "[concat (byte_reads (welcome_of 1 2))]"
      "byte_reads (welcome_of 1 2)"] by simp
qed

lemma authentication_agrees_witness:
  "fst (authenticate_client (\<lambda>_. Inr ()) (AuthToken 5) 9 framed_new (data_reads (byte_reads (welcome_of 3 7))))
    = Some (Inr (7, 3))"
proof -
  obtain hs ws where "encode (frame_new KHello 0 0 (hello_payload (AuthToken 5) 9)) = Inr hs"
    "encode (welcome_of 3 7) = Inr ws"
    using encode_hello welcome_bytes by blast
  from concat_byte_reads [OF this(1)] concat_byte_reads [OF this(2)]
  show ?thesis
    using authentication_agrees [where tok = "AuthToken 5" and cnonce = 9 and nonce = 3 and caps = 7
      and out = "\<lambda>_. Inr ()"] by blast
qed

text \<open>Whatever else the first frame is, or the failure to read one, the peer sees one answer.\<close>

lemma server_refusal_uniform:
  assumes "fst (authenticate_server out tok nonce caps fr rs) = Some (r, answer)"
  shows "answer = unauthorized_frame \<and> r = Inl (ProtocolFailed Unauthorized) \<or>
    answer = welcome_of nonce caps \<and> (\<exists>f. fst (framed_recv fr rs) = Some (Inr f) \<and> hello_from tok f)"
  using assms
  by (auto simp: authenticate_server_def handshake_accept_eq handshake_new_def
      split: prod.splits option.splits sum.splits if_splits)

end
