(* ===== verification/Term_Helper.thy ===== *)
theory Term_Helper
  imports Term_Lifecycle Term_Transport "HOL-Library.Multiset"
begin

text \<open>
  The helper process (\<open>crates/tabverse-term/src/helper.rs\<close>): requests of an authenticated client,
  the frames they are answered with, and the idle rule of the listener. The sink of a session
  names the client and the generation it was made for. JSON text is a parameter: reading a
  payload into a value and printing one. The hand-over of a new terminal's first output runs
  in two threads and is a step relation of its own.
\<close>

section \<open>Requests\<close>

record sink =
  sk_client :: nat
  sk_generation :: "64 word"

record 'w server =
  sv_site :: "'w site"
  sv_parse :: "bytes \<Rightarrow> string + json"
  sv_number :: "json \<Rightarrow> nat option"
  sv_list :: "session_meta list \<Rightarrow> bytes"
  sv_exit :: "32 word option \<Rightarrow> bytes"
  sv_utf8 :: "string \<Rightarrow> bytes"
  sv_out :: "nat \<Rightarrow> frame \<Rightarrow> string + unit"

definition default_cols :: nat where "default_cols = 80"
definition default_rows :: nat where "default_rows = 24"

text \<open>Derived deserialisation of a request: optional members may be missing or null; a member
  with a default may only be missing.\<close>

fun json_opt_string :: "json option \<Rightarrow> string option option" where
  "json_opt_string None = Some None"
| "json_opt_string (Some JNull) = Some None"
| "json_opt_string (Some (JStr s)) = Some (Some s)"
| "json_opt_string _ = None"

definition json_u16 :: "(json \<Rightarrow> nat option) \<Rightarrow> nat option \<Rightarrow> json option \<Rightarrow> nat option" where
  "json_u16 number def v =
     (case v of
        None \<Rightarrow> def
      | Some x \<Rightarrow> Option.bind (number x) (\<lambda>n. if n < 2 ^ 16 then Some n else None))"

fun json_pairs :: "json list \<Rightarrow> (string \<times> string) list option" where
  "json_pairs [] = Some []"
| "json_pairs (JArr [JStr k, JStr v] # rest) = map_option (\<lambda>xs. (k, v) # xs) (json_pairs rest)"
| "json_pairs _ = None"

fun json_env :: "json option \<Rightarrow> (string \<times> string) list option" where
  "json_env None = Some []"
| "json_env (Some (JArr xs)) = json_pairs xs"
| "json_env _ = None"

fun json_flag :: "json option \<Rightarrow> bool option" where
  "json_flag None = Some False"
| "json_flag (Some (JBool b)) = Some b"
| "json_flag _ = None"

definition spawn_request :: "(json \<Rightarrow> nat option) \<Rightarrow> json \<Rightarrow> string + spawn_opts" where
  "spawn_request number v =
     (case (json_as_object v, json_opt_string (json_get ''shell'' v), json_opt_string (json_get ''cwd'' v),
            json_u16 number (Some default_cols) (json_get ''cols'' v),
            json_u16 number (Some default_rows) (json_get ''rows'' v),
            json_env (json_get ''env'' v), json_flag (json_get ''shell_integration'' v),
            json_opt_string (json_get ''run_on_start'' v)) of
        (Some _, Some shell, Some cwd, Some cols, Some rows, Some env, Some integration, Some run) \<Rightarrow>
          Inr \<lparr>so_shell = shell, so_cwd = cwd, so_cols = cols, so_rows = rows, so_env = env,
               so_integration = integration, so_run_on_start = run\<rparr>
      | _ \<Rightarrow> Inl ''invalid spawn request'')"

definition resize_request :: "(json \<Rightarrow> nat option) \<Rightarrow> json \<Rightarrow> string + nat \<times> nat" where
  "resize_request number v =
     (case (json_as_object v, json_u16 number None (json_get ''cols'' v), json_u16 number None (json_get ''rows'' v)) of
        (Some _, Some cols, Some rows) \<Rightarrow> Inr (cols, rows)
      | _ \<Rightarrow> Inl ''invalid resize request'')"

text \<open>What a sink sends for an event of session \<open>i\<close>.\<close>

fun sink_frame :: "'w server \<Rightarrow> session_id \<Rightarrow> sink \<Rightarrow> sink_event \<Rightarrow> frame" where
  "sink_frame sv i k (OnOutput bs) = frame_new KOutput i (sk_generation k) bs"
| "sink_frame sv i k (OnExit code) = frame_new KExit i (sk_generation k) (sv_exit sv code)"

text \<open>Sending frames one after another; the first failure ends it.\<close>

fun send_all :: "'w server \<Rightarrow> nat \<Rightarrow> frame list \<Rightarrow> (string + unit) \<times> frame list" where
  "send_all sv c [] = (Inr (), [])"
| "send_all sv c (f # fs) =
     (case sv_out sv c f of
        Inl e \<Rightarrow> (Inl e, [])
      | Inr _ \<Rightarrow> (case send_all sv c fs of (r, sent) \<Rightarrow> (r, f # sent)))"

definition replay_frames :: "session_id \<Rightarrow> 64 word \<Rightarrow> attach_batch \<Rightarrow> frame list" where
  "replay_frames i g batch =
     frame_new KSnapshot i g (ab_snapshot batch) #
     (if ab_delta batch = [] then [] else [frame_new KOutput i g (ab_delta batch)])"

type_synonym 'w state = "(sink, 'w) helper"

text \<open>An attach is two operations; another client may come between them.\<close>

definition attach_finish ::
  "'w server \<Rightarrow> nat \<Rightarrow> session_id \<Rightarrow> 64 word \<Rightarrow> 'w state \<Rightarrow> (string + unit) \<times> frame list \<times> 'w state" where
  "attach_finish sv c i g hp =
     (case helper_complete_attach (sv_site sv) i g \<lparr>sk_client = c, sk_generation = g\<rparr>
             (\<lambda>batch. fst (send_all sv c (replay_frames i g batch))) hp of
        (r, hp1) \<Rightarrow>
          (map_sum id (\<lambda>_. ()) r,
           (case current_session i g hp of
              Inr (_, st) \<Rightarrow>
                (case finish_attach (st_replay st) of
                   (Inr batch, _) \<Rightarrow> snd (send_all sv c (replay_frames i g batch))
                 | _ \<Rightarrow> [])
            | Inl _ \<Rightarrow> []),
           hp1))"

text \<open>\<open>dispatch\<close> for client \<open>c\<close>: the result, the frames sent to the client, the new state. The id
  of a spawn is the fresh random one.\<close>

definition dispatch ::
  "'w server \<Rightarrow> nat \<Rightarrow> session_id \<Rightarrow> frame \<Rightarrow> 'w state \<Rightarrow> (string + unit) \<times> frame list \<times> 'w state" where
  "dispatch sv c fresh req hp =
     (let i = f_session_id req; g = f_generation req; si = sv_site sv;
          answer = (\<lambda>f hp1. case send_all sv c [f] of (r, sent) \<Rightarrow> (r, sent, hp1))
      in case f_kind req of
           KSpawn \<Rightarrow>
             (case res_bind (sv_parse sv (f_payload req)) (spawn_request (sv_number sv)) of
                Inl e \<Rightarrow> (Inl e, [], hp)
              | Inr opts \<Rightarrow>
                  (case spawn si fresh \<lparr>sk_client = c, sk_generation = 1\<rparr> opts hp of
                     (Inl e, hp1) \<Rightarrow> (Inl e, [], hp1)
                   | (Inr j, hp1) \<Rightarrow> answer (frame_new KSpawn j 1 []) hp1))
         | KInput \<Rightarrow> (case helper_write si i g (f_payload req) hp of (r, hp1) \<Rightarrow> (r, [], hp1))
         | KResize \<Rightarrow>
             (case res_bind (sv_parse sv (f_payload req)) (resize_request (sv_number sv)) of
                Inl e \<Rightarrow> (Inl e, [], hp)
              | Inr (cols, rows) \<Rightarrow> (case helper_resize si i g cols rows hp of (r, hp1) \<Rightarrow> (r, [], hp1)))
         | KDetach \<Rightarrow>
             (case helper_detach si i g hp of
                (Inl e, hp1) \<Rightarrow> (Inl e, [], hp1)
              | (Inr next, hp1) \<Rightarrow> answer (frame_new KDetach i next []) hp1)
         | KAttach \<Rightarrow>
             (case helper_begin_attach si i hp of
                (Inl e, hp1) \<Rightarrow> (Inl e, [], hp1)
              | (Inr g1, hp1) \<Rightarrow> attach_finish sv c i g1 hp1)
         | KList \<Rightarrow> answer (frame_new KList 0 g (sv_list sv (helper_list hp))) hp
         | KTerminate \<Rightarrow>
             (case helper_terminate si i g hp of
                (Inl e, hp1) \<Rightarrow> (Inl e, [], hp1)
              | (Inr _, hp1) \<Rightarrow> answer (frame_new KTerminate i g []) hp1)
         | KKillAll \<Rightarrow> answer (frame_new KKillAll 0 g []) (kill_all si hp)
         | _ \<Rightarrow> (Inl ''unsupported helper request'', [], hp))"

text \<open>One turn of the client's loop: an error is sent back, with the ids of its request; that
  sending may fail unnoticed.\<close>

definition serve ::
  "'w server \<Rightarrow> nat \<Rightarrow> session_id \<Rightarrow> frame \<Rightarrow> 'w state \<Rightarrow> frame list \<times> 'w state" where
  "serve sv c fresh req hp =
     (case dispatch sv c fresh req hp of
        (Inr _, sent, hp1) \<Rightarrow> (sent, hp1)
      | (Inl e, sent, hp1) \<Rightarrow>
          (sent @ snd (send_all sv c [frame_new KError (f_session_id req) (f_generation req) (sv_utf8 sv e)]), hp1))"

text \<open>When the listener gives up: no client, no session, no other driver, and quiet for long
  enough.\<close>

definition listener_idle :: "nat \<Rightarrow> 'w state \<Rightarrow> bool \<Rightarrow> nat \<Rightarrow> nat \<Rightarrow> bool" where
  "listener_idle clients hp keep_alive elapsed idle_timeout \<longleftrightarrow>
     clients = 0 \<and> helper_list hp = [] \<and> \<not> keep_alive \<and> idle_timeout \<le> elapsed"

section \<open>A new terminal's first output\<close>

text \<open>
  The client's thread sends the Spawn frame, stores \<open>active\<close>, takes the buffer's lock and sends
  what is in the buffer; the PTY's thread reads \<open>active\<close> and then either sends the chunk itself
  or puts it into the buffer, for which it needs the lock.
\<close>

datatype drain_at = SendSpawn | SetActive | TakeLock | Draining "bytes list" | Drained

datatype pty_at = PtyIdle | PtySends bytes | PtyBuffers bytes

record relay =
  rl_active :: bool
  rl_buffer :: "bytes list"
  rl_client :: drain_at
  rl_pty :: pty_at
  rl_printed :: "bytes list"
  rl_spawned :: bool
  rl_sent :: "bytes list"

definition relay_start :: relay where
  "relay_start = \<lparr>rl_active = False, rl_buffer = [], rl_client = SendSpawn, rl_pty = PtyIdle,
     rl_printed = [], rl_spawned = False, rl_sent = []\<rparr>"

fun lock_held :: "drain_at \<Rightarrow> bool" where
  "lock_held (Draining _) \<longleftrightarrow> True"
| "lock_held _ \<longleftrightarrow> False"

inductive relay_step :: "relay \<Rightarrow> relay \<Rightarrow> bool" where
  pty_reads: "rl_pty r = PtyIdle \<Longrightarrow>
    relay_step r (r\<lparr>rl_pty := (if rl_active r then PtySends c else PtyBuffers c), rl_printed := rl_printed r @ [c]\<rparr>)"
| pty_sends: "rl_pty r = PtySends c \<Longrightarrow>
    relay_step r (r\<lparr>rl_pty := PtyIdle, rl_sent := rl_sent r @ [c]\<rparr>)"
| pty_buffers: "rl_pty r = PtyBuffers c \<Longrightarrow> \<not> lock_held (rl_client r) \<Longrightarrow>
    relay_step r (r\<lparr>rl_pty := PtyIdle, rl_buffer := rl_buffer r @ [c]\<rparr>)"
| spawn_sent: "rl_client r = SendSpawn \<Longrightarrow>
    relay_step r (r\<lparr>rl_client := SetActive, rl_spawned := True\<rparr>)"
| activated: "rl_client r = SetActive \<Longrightarrow>
    relay_step r (r\<lparr>rl_client := TakeLock, rl_active := True\<rparr>)"
| locked: "rl_client r = TakeLock \<Longrightarrow>
    relay_step r (r\<lparr>rl_client := Draining (rl_buffer r), rl_buffer := []\<rparr>)"
| drained_one: "rl_client r = Draining (c # cs) \<Longrightarrow>
    relay_step r (r\<lparr>rl_client := Draining cs, rl_sent := rl_sent r @ [c]\<rparr>)"
| drained_all: "rl_client r = Draining [] \<Longrightarrow>
    relay_step r (r\<lparr>rl_client := Drained\<rparr>)"

inductive relay_run :: "relay \<Rightarrow> relay \<Rightarrow> bool" for r0 where
  relay_here: "relay_run r0 r0"
| relay_more: "relay_run r0 r \<Longrightarrow> relay_step r r' \<Longrightarrow> relay_run r0 r'"

definition in_flight :: "relay \<Rightarrow> bytes list" where
  "in_flight r =
     (case rl_client r of Draining cs \<Rightarrow> cs | _ \<Rightarrow> []) @ rl_buffer r @
     (case rl_pty r of PtySends c \<Rightarrow> [c] | PtyBuffers c \<Rightarrow> [c] | PtyIdle \<Rightarrow> [])"

definition relay_inv :: "relay \<Rightarrow> bool" where
  "relay_inv r \<longleftrightarrow>
     mset (rl_printed r) = mset (rl_sent r) + mset (in_flight r) \<and>
     (rl_active r \<longrightarrow> rl_spawned r) \<and>
     (rl_client r = SendSpawn \<or> rl_client r = SetActive \<longleftrightarrow> \<not> rl_active r) \<and>
     (rl_client r = SendSpawn \<longleftrightarrow> \<not> rl_spawned r) \<and>
     (\<not> rl_active r \<longrightarrow> rl_sent r = [] \<and> (\<forall>c. rl_pty r \<noteq> PtySends c))"

lemma relay_inv_step: "relay_step r r' \<Longrightarrow> relay_inv r \<Longrightarrow> relay_inv r'"
  by (induction rule: relay_step.induct) (auto simp: relay_inv_def in_flight_def)

lemma relay_run_inv: "relay_run relay_start r \<Longrightarrow> relay_inv r"
proof (induction rule: relay_run.induct)
  case relay_here
  show ?case by (simp add: relay_inv_def in_flight_def relay_start_def)
qed (rule relay_inv_step)

text \<open>However the two threads interleave, nothing is sent twice or made up, and no output
  overtakes the announcement of the terminal: what was printed is, counted with multiplicity,
  what was sent and what is still buffered or in a thread's hands, and nothing is sent before
  the Spawn frame.\<close>

theorem relay_conserves:
  assumes "relay_run relay_start r"
  shows "mset (rl_printed r) = mset (rl_sent r) + mset (in_flight r) \<and> (rl_sent r \<noteq> [] \<longrightarrow> rl_spawned r)"
  using relay_run_inv [OF assms] by (auto simp: relay_inv_def)

fun relay_do :: "nat \<Rightarrow> bytes \<Rightarrow> relay \<Rightarrow> relay" where
  "relay_do n c r =
     (if n = 0 then r\<lparr>rl_pty := (if rl_active r then PtySends c else PtyBuffers c), rl_printed := rl_printed r @ [c]\<rparr>
      else if n = 1 then (case rl_pty r of
          PtySends d \<Rightarrow> r\<lparr>rl_pty := PtyIdle, rl_sent := rl_sent r @ [d]\<rparr>
        | PtyBuffers d \<Rightarrow> r\<lparr>rl_pty := PtyIdle, rl_buffer := rl_buffer r @ [d]\<rparr>
        | PtyIdle \<Rightarrow> r)
      else (case rl_client r of
          SendSpawn \<Rightarrow> r\<lparr>rl_client := SetActive, rl_spawned := True\<rparr>
        | SetActive \<Rightarrow> r\<lparr>rl_client := TakeLock, rl_active := True\<rparr>
        | TakeLock \<Rightarrow> r\<lparr>rl_client := Draining (rl_buffer r), rl_buffer := []\<rparr>
        | Draining [] \<Rightarrow> r\<lparr>rl_client := Drained\<rparr>
        | Draining (d # ds) \<Rightarrow> r\<lparr>rl_client := Draining ds, rl_sent := rl_sent r @ [d]\<rparr>
        | Drained \<Rightarrow> r))"

fun relay_may :: "nat \<Rightarrow> relay \<Rightarrow> bool" where
  "relay_may n r =
     (if n = 0 then rl_pty r = PtyIdle
      else if n = 1 then (case rl_pty r of PtyIdle \<Rightarrow> False | PtySends _ \<Rightarrow> True | PtyBuffers _ \<Rightarrow> \<not> lock_held (rl_client r))
      else rl_client r \<noteq> Drained)"

lemma relay_do_step:
  assumes "relay_may n r"
  shows "relay_step r (relay_do n c r)"
proof -
  consider "n = 0" | "n = 1" | "n \<noteq> 0" "n \<noteq> 1" by blast
  then show ?thesis
  proof cases
    case 1
    with assms pty_reads [of r c] show ?thesis by simp
  next
    case 2
    with assms show ?thesis by (auto intro: pty_sends pty_buffers split: pty_at.splits)
  next
    case 3
    with assms show ?thesis
      by (cases "rl_client r") (auto intro: relay_step.intros split: list.splits)
  qed
qed

fun relay_plays :: "(nat \<times> bytes) list \<Rightarrow> relay \<Rightarrow> relay option" where
  "relay_plays [] r = Some r"
| "relay_plays ((n, c) # xs) r = (if relay_may n r then relay_plays xs (relay_do n c r) else None)"

lemma relay_plays_run: "relay_run r0 r \<Longrightarrow> relay_plays xs r = Some r' \<Longrightarrow> relay_run r0 r'"
proof (induction xs arbitrary: r)
  case (Cons x xs)
  obtain n c where "x = (n, c)" by (cases x)
  with Cons show ?case
    by (auto split: if_splits intro: relay_more relay_do_step simp del: relay_do.simps relay_may.simps)
qed simp

text \<open>It can lose output, and it can turn output around. A chunk whose thread read the flag
  before it was stored and got the lock after the buffer was sent stays in the buffer for good;
  a chunk read after the flag was stored is sent before an older one still in the buffer.\<close>

theorem relay_loses_and_reorders:
  "(\<exists>r. relay_run relay_start r \<and> rl_client r = Drained \<and> rl_pty r = PtyIdle \<and>
      rl_printed r = [a] \<and> rl_sent r = [] \<and> rl_buffer r = [a]) \<and>
   (\<exists>r. relay_run relay_start r \<and> rl_client r = Drained \<and> rl_pty r = PtyIdle \<and>
      rl_printed r = [a, b] \<and> rl_sent r = [b, a] \<and> rl_buffer r = [])"
proof
  let ?m = "(2 :: nat, [] :: bytes)"
  have "relay_plays [(0, a), ?m, ?m, ?m, ?m, (1, [])] relay_start =
      Some \<lparr>rl_active = True, rl_buffer = [a], rl_client = Drained, rl_pty = PtyIdle,
        rl_printed = [a], rl_spawned = True, rl_sent = []\<rparr>"
    by (simp add: relay_start_def)
  from relay_plays_run [OF relay_here this]
  show "\<exists>r. relay_run relay_start r \<and> rl_client r = Drained \<and> rl_pty r = PtyIdle \<and>
      rl_printed r = [a] \<and> rl_sent r = [] \<and> rl_buffer r = [a]" by (intro exI conjI, assumption) simp_all
  have "relay_plays [(0, a), (1, []), ?m, ?m, (0, b), (1, []), ?m, ?m, ?m] relay_start =
      Some \<lparr>rl_active = True, rl_buffer = [], rl_client = Drained, rl_pty = PtyIdle,
        rl_printed = [a, b], rl_spawned = True, rl_sent = [b, a]\<rparr>"
    by (simp add: relay_start_def)
  from relay_plays_run [OF relay_here this]
  show "\<exists>r. relay_run relay_start r \<and> rl_client r = Drained \<and> rl_pty r = PtyIdle \<and>
      rl_printed r = [a, b] \<and> rl_sent r = [b, a] \<and> rl_buffer r = []" by (intro exI conjI, assumption) simp_all
qed

lemma relay_conserves_witness:
  "\<exists>r. relay_run relay_start r \<and> rl_sent r = [[2], [1]] \<and>
     mset (rl_printed r) = mset (rl_sent r) + mset (in_flight r)"
proof -
  let ?m = "(2 :: nat, [] :: bytes)"
  have "relay_plays [(0, [1]), (1, []), ?m, ?m, (0, [2]), (1, []), ?m, ?m, ?m] relay_start =
      Some \<lparr>rl_active = True, rl_buffer = [], rl_client = Drained, rl_pty = PtyIdle,
        rl_printed = [[1], [2]], rl_spawned = True, rl_sent = [[2], [1]]\<rparr>"
    by (simp add: relay_start_def)
  note run = relay_plays_run [OF relay_here this]
  have "rl_sent r = [[2], [1]] \<Longrightarrow> relay_run relay_start r \<Longrightarrow> ?thesis" for r
    using relay_conserves [of r] by blast
  from this [OF _ run] show ?thesis by simp
qed

text \<open>What is in the buffer after the draining stays there.\<close>

lemma drained_step:
  "relay_step r r' \<Longrightarrow> rl_client r = Drained \<Longrightarrow>
   rl_client r' = Drained \<and> prefix (rl_buffer r) (rl_buffer r')"
  by (induction rule: relay_step.induct) auto

lemma drained_buffer_stays:
  "relay_run r r' \<Longrightarrow> rl_client r = Drained \<Longrightarrow> rl_client r' = Drained \<and> prefix (rl_buffer r) (rl_buffer r')"
  by (induction rule: relay_run.induct) (auto dest: drained_step intro: prefix_order.trans)


section \<open>Requests and answers\<close>

text \<open>Every request that fails is answered by one error frame with the request's own session and
  generation, after whatever had been sent before it failed; one that succeeds never is.\<close>

lemma serve_error:
  assumes "dispatch sv c fresh req hp = (Inl e, sent, hp1)" "\<And>f. sv_out sv c f = Inr ()"
  shows "serve sv c fresh req hp =
    (sent @ [frame_new KError (f_session_id req) (f_generation req) (sv_utf8 sv e)], hp1)"
  using assms by (simp add: serve_def)

text \<open>A request of a client that was replaced does nothing but give it that error.\<close>

lemma serve_stale:
  assumes "f_kind req \<in> {KInput, KDetach, KTerminate}" "\<And>f. sv_out sv c f = Inr ()"
    and "\<And>s. map_of (hp_sessions hp) (f_session_id req) = Some s \<Longrightarrow> se_generation s \<noteq> f_generation req"
  shows "\<exists>e. serve sv c fresh req hp =
    ([frame_new KError (f_session_id req) (f_generation req) (sv_utf8 sv e)], hp)"
proof -
  from stale_inert [of hp "f_session_id req" "f_generation req", OF assms(3)]
  obtain e0 where "current_session (f_session_id req) (f_generation req) hp = Inl e0" by blast
  then obtain e where "dispatch sv c fresh req hp = (Inl e, [], hp)"
    using assms(1) by (auto simp: dispatch_def Let_def helper_write_def attached_terms_def helper_detach_def
        helper_terminate_def)
  from serve_error [OF this assms(2)] show ?thesis by auto
qed

text \<open>An attach that nobody disturbs answers with the history and then takes over the output.\<close>

lemma serve_attach:
  assumes kind: "f_kind req = KAttach" and out: "\<And>f. sv_out sv c f = Inr ()"
    and calm: "si_fault (sv_site sv) = None" "unat (se_generation s) + 1 < 2 ^ 63"
    and row: "find_session hp (f_session_id req) = Inr (s, st)" and idle: "r_attach (st_replay st) = None"
  shows "\<exists>hp1. serve sv c fresh req hp =
      ([frame_new KSnapshot (f_session_id req) (se_generation s + 1) (ring_snapshot (st_replay st))], hp1) \<and>
    sink_of (f_session_id req) hp1 = Some \<lparr>sk_client = c, sk_generation = se_generation s + 1\<rparr>"
proof -
  let ?i = "f_session_id req"
  let ?g = "se_generation s + 1"
  define ring where "ring = snd (begin_attach (st_replay st))"
  have ring: "begin_attach (st_replay st) = (Inr (), ring)"
    "r_attach ring = Some \<lparr>as_snapshot = ring_snapshot (st_replay st), as_delta = []\<rparr>"
    using idle by (simp_all add: begin_attach_def ring_def)
  have gen: "unat ?g < 2 ^ 63" using unat_Suc_gen [OF calm(2)] calm(2) by simp
  define hp0 where "hp0 = bump_generation ?i (set_state ?i (\<lambda>st. st\<lparr>st_replay := ring, st_sink := None\<rparr>) hp)"
  obtain hp1 where p1: "persist (sv_site sv) ?i ?g ''attaching'' (se_cwd s) hp0 = (Inr (), hp1)"
    using persist_ok [OF calm(1) gen] by blast
  have begun: "helper_begin_attach (sv_site sv) ?i hp = (Inr ?g, hp1)"
    using p1 by (simp add: helper_begin_attach_def row ring(1) hp0_def Let_def)
  have cur: "current_session ?i ?g hp1 = Inr (s\<lparr>se_generation := ?g\<rparr>, st\<lparr>st_replay := ring, st_sink := None\<rparr>)"
    using row by (simp add: current_session_Inr persist_frame [OF p1] hp0_def find_session_Inr)
  define hp2 where "hp2 = set_state ?i (\<lambda>st. st\<lparr>st_sink := Some \<lparr>sk_client = c, sk_generation = ?g\<rparr>\<rparr>)
    (set_state ?i (\<lambda>st. st\<lparr>st_replay := ring\<lparr>r_attach := None\<rparr>\<rparr>) hp1)"
  obtain hp3 where p2: "persist (sv_site sv) ?i ?g ''attached'' (se_cwd s) hp2 = (Inr (), hp3)"
    using persist_ok [OF calm(1) gen] by blast
  have sink: "sink_of ?i hp3 = Some \<lparr>sk_client = c, sk_generation = ?g\<rparr>"
    using row by (simp add: sink_of_def persist_frame [OF p2] hp2_def persist_frame [OF p1] hp0_def find_session_Inr)
  have "attach_finish sv c ?i ?g hp1 = (Inr (), [frame_new KSnapshot ?i ?g (ring_snapshot (st_replay st))], hp3)"
    using p2 by (simp add: attach_finish_def helper_complete_attach_def cur finish_attach_def ring(2) Let_def
        replay_frames_def out hp2_def)
  then have "serve sv c fresh req hp = ([frame_new KSnapshot ?i ?g (ring_snapshot (st_replay st))], hp3)"
    by (simp add: serve_def dispatch_def kind begun Let_def)
  with sink show ?thesis by blast
qed

text \<open>Between the two halves of an attach another client may take the session over with the
  generation the list shows; the first client's second half is then refused as stale, and the
  reservation it made stays open, so nobody attaches again.\<close>

lemma takeover_wedges_attach:
  assumes opened: "helper_begin_attach si i hp = (Inr g, hp1)"
    and taken: "helper_detach si2 i g hp1 = (Inr g2, hp2)" and row: "find_session hp i = Inr (s, st)"
    and finish: "attach_finish sv c i g hp2 = (r, sent, hp3)"
    and later: "uncompleted i hp3 hp4"
  shows "(\<exists>e. r = Inl e) \<and> sent = [] \<and> (\<exists>e. helper_begin_attach si3 i hp4 = (Inl e, hp4))"
proof -
  obtain ring where ring: "begin_attach (st_replay st) = (Inr (), ring)" and g: "g = se_generation s + 1"
    and hp1: "hp_states hp1 i = Some (st\<lparr>st_replay := ring, st_sink := None\<rparr>)"
      "map_of (hp_sessions hp1) i = Some (s\<lparr>se_generation := se_generation s + 1\<rparr>)"
    using opened row
    by (auto simp: helper_begin_attach_def find_session_Inr Let_def persist_frame split: sum.splits prod.splits)
  from ring have open_attach: "r_attach ring \<noteq> None" by (auto simp: begin_attach_def split: if_splits)
  have hp2: "hp_states hp2 i = Some (st\<lparr>st_replay := ring, st_sink := None\<rparr>)"
    "map_of (hp_sessions hp2) i = Some (s\<lparr>se_generation := se_generation s + 1 + 1\<rparr>)"
    using taken hp1
    by (auto simp: helper_detach_def current_session_Inr Let_def persist_frame split: sum.splits prod.splits)
  have "(w :: 64 word) + 1 \<noteq> w" for w by simp
  then have "se_generation t \<noteq> g" if "map_of (hp_sessions hp2) i = Some t" for t
    using that hp2(2) g by auto
  from stale_inert [of hp2 i g, OF this] obtain e where cur: "current_session i g hp2 = Inl e" by blast
  then have fin: "r = Inl e" "sent = []" "hp3 = hp2"
    using finish by (auto simp: attach_finish_def helper_complete_attach_def)
  have "attach_open i hp3" using hp2(1) open_attach fin(3) by (simp add: attach_open_def)
  with later have "attach_open i hp4"
    by (induction rule: uncompleted.induct) (auto intro: attach_open_step)
  then show ?thesis using fin(1,2) attach_open_refuses by blast
qed

end
