(* ===== verification/Term_Client.thy ===== *)
theory Term_Client
  imports Term_Transport
begin

text \<open>
  The GUI's client of the helper (\<open>crates/tabverse-term/src/client.rs\<close>): one pending request at
  a time, and a reader thread that gives each frame either to that request or to the event
  callback. Requests are numbered in the order they are made; the answer of a request is the
  first message on its channel.
\<close>

section \<open>State\<close>

record pending =
  pd_number :: nat
  pd_expected :: kind
  pd_session :: "session_id option"

record client =
  cl_pending :: "pending option"
  cl_alive :: bool
  cl_next :: nat
  cl_answers :: "(nat \<times> frame) list"
  cl_events :: "frame list"

definition client_new :: client where
  "client_new = \<lparr>cl_pending = None, cl_alive = True, cl_next = 0, cl_answers = [], cl_events = []\<rparr>"

section \<open>The reader\<close>

definition answers_pending :: "frame \<Rightarrow> pending \<Rightarrow> bool" where
  "answers_pending f p \<longleftrightarrow>
     f_kind f = KError \<or>
     f_kind f = pd_expected p \<and> (case pd_session p of None \<Rightarrow> True | Some s \<Rightarrow> f_session_id f = s)"

definition client_frame :: "frame \<Rightarrow> client \<Rightarrow> client" where
  "client_frame f cl =
     (case cl_pending cl of
        Some p \<Rightarrow>
          (if answers_pending f p
           then cl\<lparr>cl_pending := None, cl_answers := cl_answers cl @ [(pd_number p, f)]\<rparr>
           else cl\<lparr>cl_events := cl_events cl @ [f]\<rparr>)
      | None \<Rightarrow> cl\<lparr>cl_events := cl_events cl @ [f]\<rparr>)"

definition disconnected_frame :: frame where
  "disconnected_frame = frame_new KError 0 0 (map (\<lambda>c. of_char c) ''disconnected'')"

text \<open>The end of the reader: first it is no longer alive, then it wakes the pending request.\<close>

definition reader_dead :: "client \<Rightarrow> client" where
  "reader_dead cl = cl\<lparr>cl_alive := False\<rparr>"

definition reader_wakes :: "client \<Rightarrow> client" where
  "reader_wakes cl =
     (case cl_pending cl of
        Some p \<Rightarrow> cl\<lparr>cl_pending := None, cl_answers := cl_answers cl @ [(pd_number p, disconnected_frame)]\<rparr>
      | None \<Rightarrow> cl)"

section \<open>Requests\<close>

definition client_send :: "(bytes \<Rightarrow> string + unit) \<Rightarrow> frame \<Rightarrow> client \<Rightarrow> transport_error + bytes" where
  "client_send out f cl = (if \<not> cl_alive cl then Inl ClosedStream else framed_send out f)"

text \<open>A request up to its sending; \<open>Inr n\<close> when it waits as number \<open>n\<close>. The check of \<open>alive\<close> is
  a step before the rest.\<close>

definition request_open :: "kind \<Rightarrow> session_id option \<Rightarrow> client \<Rightarrow> client" where
  "request_open expected session cl =
     cl\<lparr>cl_pending := Some \<lparr>pd_number = cl_next cl, pd_expected = expected, pd_session = session\<rparr>,
        cl_next := cl_next cl + 1\<rparr>"

definition request_start ::
  "(bytes \<Rightarrow> string + unit) \<Rightarrow> frame \<Rightarrow> kind \<Rightarrow> session_id option \<Rightarrow> client
   \<Rightarrow> (transport_error + nat) \<times> client" where
  "request_start out f expected session cl =
     (if \<not> cl_alive cl then (Inl ClosedStream, cl)
      else let cl1 = request_open expected session cl in
        case framed_send out f of
          Inl e \<Rightarrow> (Inl e, cl1\<lparr>cl_pending := None\<rparr>)
        | Inr _ \<Rightarrow> (Inr (cl_next cl), cl1))"

text \<open>The end of the wait: the answer on the request's channel, or, when there is none in time,
  the pending request is taken back. \<open>lossy\<close> is \<open>String::from_utf8_lossy\<close>.\<close>

definition request_finish :: "(bytes \<Rightarrow> string) \<Rightarrow> nat \<Rightarrow> client \<Rightarrow> (transport_error + frame) \<times> client" where
  "request_finish lossy n cl =
     (case map_of (cl_answers cl) n of
        Some f \<Rightarrow>
          (if f_kind f = KError then (Inl (RemoteError (lossy (f_payload f))), cl) else (Inr f, cl))
      | None \<Rightarrow> (Inl (IoError ''helper request timed out''), cl\<lparr>cl_pending := None\<rparr>))"

definition client_close :: "client \<Rightarrow> client" where
  "client_close cl = cl\<lparr>cl_alive := False\<rparr>"

section \<open>Every frame has one destination\<close>

fun client_frames :: "frame list \<Rightarrow> client \<Rightarrow> client" where
  "client_frames [] cl = cl"
| "client_frames (f # fs) cl = client_frames fs (client_frame f cl)"

lemma client_frames_idle:
  "cl_pending cl = None \<Longrightarrow>
   client_frames fs cl = cl\<lparr>cl_events := cl_events cl @ fs\<rparr>"
proof (induction fs arbitrary: cl)
  case (Cons f fs)
  then have "client_frame f cl = cl\<lparr>cl_events := cl_events cl @ [f]\<rparr>" by (simp add: client_frame_def)
  with Cons show ?case by simp
qed simp

lemma client_frames_waiting:
  assumes "cl_pending cl = Some p"
  shows "client_frames fs cl =
    (case dropWhile (\<lambda>f. \<not> answers_pending f p) fs of
       [] \<Rightarrow> cl\<lparr>cl_events := cl_events cl @ fs\<rparr>
     | a # later \<Rightarrow>
         cl\<lparr>cl_pending := None, cl_answers := cl_answers cl @ [(pd_number p, a)],
            cl_events := cl_events cl @ takeWhile (\<lambda>f. \<not> answers_pending f p) fs @ later\<rparr>)"
  using assms
proof (induction fs arbitrary: cl)
  case (Cons f fs)
  show ?case
  proof (cases "answers_pending f p")
    case True
    then have "client_frame f cl = cl\<lparr>cl_pending := None, cl_answers := cl_answers cl @ [(pd_number p, f)]\<rparr>"
      using Cons.prems by (simp add: client_frame_def)
    with True show ?thesis by (simp add: client_frames_idle)
  next
    case False
    then have step: "client_frame f cl = cl\<lparr>cl_events := cl_events cl @ [f]\<rparr>"
      using Cons.prems by (simp add: client_frame_def)
    have "cl_pending (cl\<lparr>cl_events := cl_events cl @ [f]\<rparr>) = Some p" using Cons.prems by simp
    note IH = Cons.IH [OF this]
    show ?thesis
    proof (cases "dropWhile (\<lambda>f. \<not> answers_pending f p) fs")
      case Nil
      then have none: "dropWhile (\<lambda>f. \<not> answers_pending f p) (f # fs) = []" using False by simp
      show ?thesis unfolding none using IH [unfolded Nil] step by simp
    next
      case (Cons a later)
      then have "dropWhile (\<lambda>f. \<not> answers_pending f p) (f # fs) = a # later" using False by simp
      then show ?thesis using IH [unfolded Cons] False step by (simp del: dropWhile.simps(2))
    qed
  qed
qed simp

text \<open>C27: A request that was sent gets the first frame that answers it, whatever else arrives, and
  every other frame reaches the event callback in order; without an answer it times out,
  withdraws, and whatever comes later is an event. Nothing the helper sends is dropped or seen
  twice.\<close>

theorem request_gets_first_answer:
  assumes start: "request_start out req expected session cl = (Inr n, cl1)"
    and fresh: "\<forall>(m, f) \<in> set (cl_answers cl). m < cl_next cl"
  defines "p \<equiv> \<lparr>pd_number = n, pd_expected = expected, pd_session = session\<rparr>"
  shows "case dropWhile (\<lambda>f. \<not> answers_pending f p) fs of
      a # later \<Rightarrow>
        fst (request_finish lossy n (client_frames fs cl1)) =
          (if f_kind a = KError then Inl (RemoteError (lossy (f_payload a))) else Inr a) \<and>
        cl_events (client_frames fs cl1) = cl_events cl @ takeWhile (\<lambda>f. \<not> answers_pending f p) fs @ later
    | [] \<Rightarrow>
        request_finish lossy n (client_frames fs cl1) =
          (Inl (IoError ''helper request timed out''),
           cl1\<lparr>cl_pending := None, cl_events := cl_events cl @ fs\<rparr>)"
proof -
  have cl1: "cl_pending cl1 = Some p" "cl_answers cl1 = cl_answers cl" "cl_events cl1 = cl_events cl" "n = cl_next cl"
    using start by (auto simp: request_start_def request_open_def Let_def p_def split: if_splits sum.splits)
  then have none: "map_of (cl_answers cl) n = None"
    using fresh by (auto simp: map_of_eq_None_iff)
  have p: "pd_number p = n" by (simp add: p_def)
  show ?thesis
  proof (cases "dropWhile (\<lambda>f. \<not> answers_pending f p) fs")
    case Nil
    show ?thesis
      unfolding client_frames_waiting [OF cl1(1)] Nil using none by (simp add: request_finish_def cl1(2,3))
  next
    case (Cons a later)
    show ?thesis
      unfolding client_frames_waiting [OF cl1(1)] Cons using none
      by (simp add: request_finish_def cl1(2,3) p map_add_def)
  qed
qed

lemma client_started:
  "request_start (\<lambda>_. Inr ()) unauthorized_frame k s client_new = (Inr 0, request_open k s client_new)"
  by (simp add: request_start_def client_new_def framed_send_def encode_def unauthorized_frame_def
      frame_new_def proto_consts)

lemma request_gets_first_answer_witness:
  "fst (request_finish (\<lambda>_. []) 0 (client_frames [frame_new KOutput 1 1 [], frame_new KList 0 0 []]
      (request_open KList None client_new))) = Inr (frame_new KList 0 0 [])"
  using request_gets_first_answer [OF client_started [of KList None],
    where fs = "[frame_new KOutput 1 1 [], frame_new KList 0 0 []]" and lossy = "\<lambda>_. []"]
  by (simp add: client_new_def answers_pending_def frame_new_def)

text \<open>An error frame answers whatever request is pending, whichever session it is about: a
  refused keystroke of one terminal fails a request about another, and the true answer to
  that request is later taken for an event.\<close>

theorem foreign_error_fails_request:
  assumes start: "request_start out req expected (Some i) cl = (Inr n, cl1)"
    and fresh: "\<forall>(m, f) \<in> set (cl_answers cl). m < cl_next cl"
    and other: "f_kind e = KError" "f_session_id e \<noteq> i" and answer: "f_kind a = expected" "f_session_id a = i"
  shows "fst (request_finish lossy n (client_frames [e, a] cl1)) = Inl (RemoteError (lossy (f_payload e))) \<and>
    cl_events (client_frames [e, a] cl1) = cl_events cl @ [a]"
proof -
  have cl1: "cl_pending cl1 = Some \<lparr>pd_number = n, pd_expected = expected, pd_session = Some i\<rparr>"
    "cl_answers cl1 = cl_answers cl" "cl_events cl1 = cl_events cl" "n = cl_next cl"
    using start by (auto simp: request_start_def request_open_def Let_def split: if_splits sum.splits)
  have "map_of (cl_answers cl) n = None"
    using fresh cl1(4) by (auto simp: map_of_eq_None_iff)
  with cl1 other(1) show ?thesis
    by (simp add: client_frame_def answers_pending_def request_finish_def map_add_def)
qed

lemma foreign_error_fails_request_witness:
  "fst (request_finish (\<lambda>_. []) 0 (client_frames [frame_new KError 2 1 [], frame_new KTerminate 1 1 []]
      (request_open KTerminate (Some 1) client_new))) = Inl (RemoteError [])"
  using foreign_error_fails_request [OF client_started [of KTerminate "Some 1"], where e = "frame_new KError 2 1 []"
    and a = "frame_new KTerminate 1 1 []" and lossy = "\<lambda>_. []"]
  by (simp add: client_new_def frame_new_def)

text \<open>A request that passed the check of \<open>alive\<close> just before the reader ended, and became pending
  just after the reader looked for one, is woken by nobody.\<close>

lemma request_after_wake_waits:
  assumes "cl_pending cl = None"
  shows "cl_pending (request_open k s (reader_wakes (reader_dead cl))) \<noteq> None \<and>
    cl_answers (request_open k s (reader_wakes (reader_dead cl))) = cl_answers cl"
  using assms by (simp add: request_open_def reader_wakes_def reader_dead_def)

end
