(* ===== verification/Tools_Edit.thy ===== *)
theory Tools_Edit
  imports Rust_Str "HOL-Library.Multiset"
begin

text \<open>
  Locating and replacing the text an edit names
  (\<open>crates/tabverse-agent-tools/src/edit_diff.rs\<close>). Unicode normalisation to NFKC is a crate of
  its own and a parameter.
\<close>

section \<open>Line endings and the byte order mark\<close>

datatype line_ending = Lf | Crlf

fun ending_str :: "line_ending \<Rightarrow> string" where
  "ending_str Lf = [nl]"
| "ending_str Crlf = [cr, nl]"

record edit =
  ed_old :: string
  ed_new :: string

definition detect_line_ending :: "string \<Rightarrow> line_ending" where
  "detect_line_ending content = (if str_find [cr, nl] content \<noteq> None then Crlf else Lf)"

definition normalize_to_lf :: "string \<Rightarrow> string" where
  "normalize_to_lf txt = str_replace [cr, nl] [nl] txt"

fun restore_line_endings :: "string \<Rightarrow> line_ending \<Rightarrow> string" where
  "restore_line_endings txt Lf = txt"
| "restore_line_endings txt Crlf = str_replace [nl] [cr, nl] txt"

abbreviation bom :: string where "bom \<equiv> [CHR 0xEF, CHR 0xBB, CHR 0xBF]"

definition strip_bom :: "string \<Rightarrow> string \<times> string" where
  "strip_bom content = (if prefix bom content then (bom, drop 3 content) else ([], content))"

section \<open>The relaxed equivalence\<close>

text \<open>The characters that read alike, as their UTF-8 texts.\<close>

definition plain_char :: "string \<Rightarrow> string" where
  "plain_char c =
     (if c \<in> set (map (\<lambda>b. [CHR 0xE2, CHR 0x80, b]) [CHR 0x98, CHR 0x99, CHR 0x9A, CHR 0x9B])
      then [CHR 0x27]
      else if c \<in> set (map (\<lambda>b. [CHR 0xE2, CHR 0x80, b]) [CHR 0x9C, CHR 0x9D, CHR 0x9E, CHR 0x9F])
      then [CHR 0x22]
      else if c \<in> set ([CHR 0xE2, CHR 0x88, CHR 0x92] # map (\<lambda>b. [CHR 0xE2, CHR 0x80, b])
                  [CHR 0x90, CHR 0x91, CHR 0x92, CHR 0x93, CHR 0x94, CHR 0x95])
      then [CHR 0x2D]
      else if c \<in> set ([[CHR 0xC2, CHR 0xA0], [CHR 0xE2, CHR 0x80, CHR 0xAF], [CHR 0xE2, CHR 0x81, CHR 0x9F],
                   [CHR 0xE3, CHR 0x80, CHR 0x80]] @ map (\<lambda>b. [CHR 0xE2, CHR 0x80, b])
                  [CHR 0x82, CHR 0x83, CHR 0x84, CHR 0x85, CHR 0x86, CHR 0x87, CHR 0x88, CHR 0x89, CHR 0x8A])
      then [CHR 0x20]
      else c)"

definition normalize_for_fuzzy_match :: "(string \<Rightarrow> string) \<Rightarrow> string \<Rightarrow> string" where
  "normalize_for_fuzzy_match nfkc txt =
     (let trimmed = join [nl] (map trim_end (split_on nl (nfkc txt)))
      in concat (map plain_char (rchars trimmed)))"

record found =
  fo_index :: nat
  fo_length :: nat
  fo_fuzzy :: bool

definition fuzzy_find :: "(string \<Rightarrow> string) \<Rightarrow> string \<Rightarrow> string \<Rightarrow> found option" where
  "fuzzy_find nfkc content old =
     (case str_find old content of
        Some i \<Rightarrow> Some \<lparr>fo_index = i, fo_length = length old, fo_fuzzy = False\<rparr>
      | None \<Rightarrow>
          (let fuzzy_old = normalize_for_fuzzy_match nfkc old in
           map_option (\<lambda>i. \<lparr>fo_index = i, fo_length = length fuzzy_old, fo_fuzzy = True\<rparr>)
             (str_find fuzzy_old (normalize_for_fuzzy_match nfkc content))))"

definition count_occurrences :: "string \<Rightarrow> string \<Rightarrow> nat" where
  "count_occurrences haystack needle = (if needle = [] then 0 else count_matches needle haystack)"

section \<open>Applying edits\<close>

record matched =
  ma_edit :: nat
  ma_index :: nat
  ma_length :: nat
  ma_new :: string

definition edit_tag :: "nat \<Rightarrow> string" where
  "edit_tag i = ''edits['' @ show_nat i @ '']''"

fun match_edits ::
  "string \<Rightarrow> (string \<Rightarrow> string) \<Rightarrow> nat \<Rightarrow> string \<Rightarrow> nat \<Rightarrow> edit list \<Rightarrow> string + matched list" where
  "match_edits base key n_edits path i [] = Inr []"
| "match_edits base key n_edits path i (e # es) =
     (let needle = key (ed_old e) in
      case str_find needle base of
        None \<Rightarrow> Inl (edit_tag i @ '' of '' @ show_nat n_edits @ '' for '' @ path @
          '': oldText was not found in the file. Read the file again and quote the current text exactly.'')
      | Some index \<Rightarrow>
          (let occurrences = count_occurrences base needle in
           if 1 < occurrences
           then Inl (edit_tag i @ '' of '' @ show_nat n_edits @ '' for '' @ path @ '': oldText appears '' @
             show_nat occurrences @ '' times. Include enough surrounding context to make it unique.'')
           else res_bind (match_edits base key n_edits path (i + 1) es) (\<lambda>ms.
             Inr (\<lparr>ma_edit = i, ma_index = index, ma_length = length needle, ma_new = ed_new e\<rparr> # ms))))"

fun find_overlap :: "matched list \<Rightarrow> (matched \<times> matched) option" where
  "find_overlap (m # n # ms) =
     (if ma_index n < ma_index m + ma_length m then Some (m, n) else find_overlap (n # ms))"
| "find_overlap _ = None"

text \<open>\<open>replace_range\<close>, and the loop from the right.\<close>

definition splice :: "matched \<Rightarrow> string \<Rightarrow> string" where
  "splice m s = take (ma_index m) s @ ma_new m @ drop (ma_index m + ma_length m) s"

definition splice_all :: "matched list \<Rightarrow> string \<Rightarrow> string" where
  "splice_all ms s = foldr splice ms s"

fun preserve_lines :: "string list \<Rightarrow> string list \<Rightarrow> string list \<Rightarrow> string list" where
  "preserve_lines (x # xs) (b # bs) (l # ls) = (if b = l then x else l) # preserve_lines xs bs ls"
| "preserve_lines _ _ ls = ls"

definition preserve_unchanged_lines :: "string \<Rightarrow> string \<Rightarrow> string \<Rightarrow> string" where
  "preserve_unchanged_lines original normalized_base edited =
     (let original_lines = split_on nl original; base_lines = split_on nl normalized_base in
      if length base_lines \<noteq> length original_lines then edited
      else join [nl] (preserve_lines original_lines base_lines (split_on nl edited)))"

definition normal_edit :: "edit \<Rightarrow> edit" where
  "normal_edit e = \<lparr>ed_old = normalize_to_lf (ed_old e), ed_new = normalize_to_lf (ed_new e)\<rparr>"

fun first_empty :: "nat \<Rightarrow> edit list \<Rightarrow> nat option" where
  "first_empty i [] = None"
| "first_empty i (e # es) = (if ed_old e = [] then Some i else first_empty (i + 1) es)"

definition any_fuzzy :: "(string \<Rightarrow> string) \<Rightarrow> string \<Rightarrow> edit list \<Rightarrow> bool" where
  "any_fuzzy nfkc content es \<longleftrightarrow>
     list_ex (\<lambda>e. case fuzzy_find nfkc content (ed_old e) of Some m \<Rightarrow> fo_fuzzy m | None \<Rightarrow> False) es"

definition apply_edits ::
  "(string \<Rightarrow> string) \<Rightarrow> string \<Rightarrow> edit list \<Rightarrow> string \<Rightarrow> string + string" where
  "apply_edits nfkc content edits path =
     (if edits = []
      then Inl (''no edits supplied for '' @ path @ '': edits must contain at least one replacement'')
      else let normalized = map normal_edit edits in
        case first_empty 0 normalized of
          Some i \<Rightarrow> Inl (edit_tag i @ '' for '' @ path @
            '' has an empty oldText; it must name the text to replace'')
        | None \<Rightarrow>
            (let fuzzy = any_fuzzy nfkc content normalized;
                 key = (if fuzzy then normalize_for_fuzzy_match nfkc else (\<lambda>s. s));
                 base = key content
             in case match_edits base key (length normalized) path 0 normalized of
                  Inl e \<Rightarrow> Inl e
                | Inr ms \<Rightarrow>
                    (let sorted = sort_key ma_index ms in
                     case find_overlap sorted of
                       Some (m, n) \<Rightarrow> Inl (edit_tag (ma_edit m) @ '' and '' @ edit_tag (ma_edit n) @ '' overlap in '' @
                         path @ ''. Merge them into one edit or target disjoint regions.'')
                     | None \<Rightarrow>
                         (let out = splice_all sorted base in
                          if out = content
                          then Inl (''applying the edits to '' @ path @
                            '' produced no change; oldText and newText are identical'')
                          else Inr (if fuzzy then preserve_unchanged_lines content base out else out)))))"

text \<open>Where the first difference is, and the summary of a change.\<close>

fun first_diff :: "nat \<Rightarrow> string list \<Rightarrow> string list \<Rightarrow> nat option" where
  "first_diff i (b # bs) (a # as) = (if b \<noteq> a then Some i else first_diff (i + 1) bs as)"
| "first_diff i [] [] = None"
| "first_diff i _ _ = Some i"

definition first_changed_line :: "string \<Rightarrow> string \<Rightarrow> nat option" where
  "first_changed_line before after = first_diff 1 (split_on nl before) (split_on nl after)"

definition summarize_change :: "string \<Rightarrow> string \<Rightarrow> string" where
  "summarize_change before after =
     (let b = length (split_on nl before); a = length (split_on nl after) in
      if a = b then show_nat b @ '' lines, content changed in place''
      else if b < a then show_nat b @ '' -> '' @ show_nat a @ '' lines (+'' @ show_nat (a - b) @ '')''
      else show_nat b @ '' -> '' @ show_nat a @ '' lines (-'' @ show_nat (b - a) @ '')'')"

section \<open>What a successful call did\<close>

text \<open>Pieces of text between gaps.\<close>

fun weave :: "string list \<Rightarrow> string list \<Rightarrow> string" where
  "weave (g # gs) (x # xs) = g @ x @ weave gs xs"
| "weave (g # gs) [] = g"
| "weave [] xs = []"

fun apart_from :: "nat \<Rightarrow> matched list \<Rightarrow> string \<Rightarrow> bool" where
  "apart_from p [] s \<longleftrightarrow> p \<le> length s"
| "apart_from p (m # ms) s \<longleftrightarrow>
     p \<le> ma_index m \<and> apart_from (ma_index m + ma_length m) ms s"

lemma apart_from_le: "apart_from p ms s \<Longrightarrow> p \<le> length s"
  by (induction ms arbitrary: p) fastforce+

lemma splice_all_weave:
  assumes "apart_from p ms s"
  shows "\<exists>gaps. length gaps = Suc (length ms) \<and>
    drop p s = weave gaps (map (\<lambda>m. take (ma_length m) (drop (ma_index m) s)) ms) \<and>
    drop p (splice_all ms s) = weave gaps (map ma_new ms) \<and>
    take p (splice_all ms s) = take p s"
  using assms
proof (induction ms arbitrary: p)
  case Nil
  show ?case by (intro exI [of _ "[drop p s]"]) (simp add: splice_all_def)
next
  case (Cons m ms)
  let ?i = "ma_index m" and ?q = "ma_index m + ma_length m"
  from Cons.prems have p: "p \<le> ?i" and rest: "apart_from ?q ms s" by simp_all
  from apart_from_le [OF rest] have q: "?q \<le> length s" .
  define t where "t = splice_all ms s"
  from Cons.IH [OF rest] obtain gaps where gaps: "length gaps = Suc (length ms)"
    "drop ?q s = weave gaps (map (\<lambda>m. take (ma_length m) (drop (ma_index m) s)) ms)"
    "drop ?q t = weave gaps (map ma_new ms)" "take ?q t = take ?q s"
    by (auto simp: t_def)
  have before: "take ?i t = take ?i s"
    using arg_cong [OF gaps(4), of "take ?i"] by (simp add: min_def)
  have whole: "splice_all (m # ms) s = take ?i s @ ma_new m @ weave gaps (map ma_new ms)"
    by (simp add: splice_all_def splice_def t_def [symmetric, unfolded splice_all_def] before gaps(3))
  have "drop p s = take (?i - p) (drop p s) @ take (ma_length m) (drop ?i s) @ drop ?q s"
  proof -
    have "drop p s = take (?i - p) (drop p s) @ drop ?i s"
      using append_take_drop_id [of "?i - p" "drop p s"] p by simp
    moreover have "drop ?i s = take (ma_length m) (drop ?i s) @ drop ?q s"
      using append_take_drop_id [of "ma_length m" "drop ?i s"] by (simp add: add.commute)
    ultimately show ?thesis by metis
  qed
  moreover have "drop p (splice_all (m # ms) s) = take (?i - p) (drop p s) @ ma_new m @ weave gaps (map ma_new ms)"
    using p q by (simp add: whole drop_take)
  moreover have "take p (splice_all (m # ms) s) = take p s"
    using p q by (simp add: whole min_def)
  ultimately show ?case
    using gaps(1,2) by (intro exI [of _ "take (?i - p) (drop p s) # gaps"]) simp
qed

lemma no_overlap_apart:
  assumes "find_overlap ms = None" "\<And>m. m \<in> set ms \<Longrightarrow> ma_index m + ma_length m \<le> length s"
  shows "apart_from 0 ms s"
proof -
  have "apart_from p ms s" if "ms = [] \<longrightarrow> p \<le> length s" "ms \<noteq> [] \<longrightarrow> p \<le> ma_index (hd ms)" for p
    using assms that
  proof (induction ms arbitrary: p rule: find_overlap.induct)
    case (1 m n ms)
    then show ?case by (auto split: if_splits)
  qed auto
  then show ?thesis by simp
qed

definition matches_at :: "(string \<Rightarrow> string) \<Rightarrow> string \<Rightarrow> edit \<Rightarrow> matched \<Rightarrow> bool" where
  "matches_at key base e m \<longleftrightarrow>
     str_find (key (ed_old e)) base = Some (ma_index m) \<and> ma_length m = length (key (ed_old e)) \<and>
     ma_new m = ed_new e \<and> count_occurrences base (key (ed_old e)) \<le> 1"

lemma match_edits_Inr:
  "match_edits base key n path i es = Inr ms \<Longrightarrow> list_all2 (matches_at key base) es ms"
  by (induction base key n path i es arbitrary: ms rule: match_edits.induct)
    (auto simp: Let_def res_bind_Inr_iff matches_at_def split: option.splits if_splits)

lemma first_empty_None: "first_empty i es = None \<longleftrightarrow> (\<forall>e \<in> set es. ed_old e \<noteq> [])"
  by (induction es arbitrary: i) auto

lemma matches_at_piece:
  "matches_at key base e m \<Longrightarrow>
   take (ma_length m) (drop (ma_index m) base) = key (ed_old e) \<and> ma_index m + ma_length m \<le> length base \<and>
   ma_new m = ed_new e \<and> count_occurrences base (key (ed_old e)) \<le> 1"
  using str_find_Some [of "key (ed_old e)" base "ma_index m"] by (auto simp: matches_at_def)

lemma all_matches_at:
  assumes "list_all2 (matches_at key base) es ms"
  shows "map (\<lambda>m. take (ma_length m) (drop (ma_index m) base)) ms = map (\<lambda>e. key (ed_old e)) es"
    and "map ma_new ms = map ed_new es"
    and "\<And>m. m \<in> set ms \<Longrightarrow> ma_index m + ma_length m \<le> length base"
    and "\<forall>e \<in> set es. count_occurrences base (key (ed_old e)) \<le> 1"
  using assms
  by (induction rule: list_all2_induct) (auto dest!: matches_at_piece)

text \<open>What a successful edit did. The searched text falls into pieces, and the result has the
  same gaps with every old text replaced by its new one, each edit used exactly once and
  each old text not ambiguous. Without the relaxed equivalence the searched text is the
  content itself, so everything outside the old texts is kept byte for byte.\<close>

lemma apply_edits_weave:
  assumes "apply_edits nfkc content edits path = Inr out"
  defines "fuzzy \<equiv> any_fuzzy nfkc content (map normal_edit edits)"
  defines "key \<equiv> if fuzzy then normalize_for_fuzzy_match nfkc else (\<lambda>s. s)"
  shows "\<exists>gaps es. mset es = mset (map normal_edit edits) \<and> length gaps = Suc (length es) \<and>
    key content = weave gaps (map (\<lambda>e. key (ed_old e)) es) \<and>
    (\<forall>e \<in> set es. ed_old e \<noteq> [] \<and> count_occurrences (key content) (key (ed_old e)) \<le> 1) \<and>
    weave gaps (map ed_new es) \<noteq> content \<and>
    out = (if fuzzy then preserve_unchanged_lines content (key content) (weave gaps (map ed_new es))
           else weave gaps (map ed_new es))"
proof -
  let ?es = "map normal_edit edits"
  from assms(1) obtain ms where filled: "first_empty 0 ?es = None"
    and ms: "match_edits (key content) key (length ?es) path 0 ?es = Inr ms"
    and sep: "find_overlap (sort_key ma_index ms) = None"
    and out: "splice_all (sort_key ma_index ms) (key content) \<noteq> content"
      "out = (if fuzzy then preserve_unchanged_lines content (key content) (splice_all (sort_key ma_index ms) (key content))
              else splice_all (sort_key ma_index ms) (key content))"
    by (auto simp: apply_edits_def Let_def fuzzy_def key_def split: if_splits option.splits sum.splits)
  have "list_all2 (matches_at key (key content))\<inverse>\<inverse> ms ?es"
    unfolding list.rel_flip by (rule match_edits_Inr [OF ms])
  from list_all2_reorder_left_invariance [OF this, of "sort_key ma_index ms"]
  obtain es where es: "list_all2 (matches_at key (key content)) es (sort_key ma_index ms)" "mset es = mset ?es"
    by (auto simp: list.rel_flip)
  note all = all_matches_at [OF es(1)]
  from splice_all_weave [OF no_overlap_apart [OF sep all(3)]]
  obtain gaps where gaps: "length gaps = Suc (length (sort_key ma_index ms))"
    "key content = weave gaps (map (\<lambda>e. key (ed_old e)) es)"
    "splice_all (sort_key ma_index ms) (key content) = weave gaps (map ed_new es)"
    by (auto simp: all(1,2))
  moreover have "length es = length (sort_key ma_index ms)" using es(1) by (rule list_all2_lengthD)
  moreover have "\<forall>e \<in> set es. ed_old e \<noteq> []"
    using filled es(2) unfolding first_empty_None by (metis set_mset_mset)
  ultimately show ?thesis using es(2) all(4) out by (intro exI [of _ gaps] exI [of _ es]) auto
qed

section \<open>What slips through\<close>

text \<open>An old text of blanks that does not occur as it is becomes empty in the relaxed search, is
  found at the start of the file and is not counted as ambiguous.\<close>

definition blanks :: "nat \<Rightarrow> string" where
  "blanks n = replicate n (CHR 0x20)"

lemma rchars_blanks: "rchars (blanks n) = replicate n [CHR 0x20]"
proof (induction n)
  case (Suc n)
  have "takeWhile is_cont (blanks n) = []" "dropWhile is_cont (blanks n) = blanks n"
    by (cases n; simp add: blanks_def is_cont_def)+
  with Suc show ?case by (simp add: blanks_def)
qed (simp add: blanks_def)

lemma trim_end_blanks: "trim_end (blanks n) = []"
  by (simp add: trim_end_def rchars_blanks is_white_def dropWhile_eq_Nil_conv [THEN iffD2])

lemma normalize_blanks: "normalize_to_lf (blanks n) = blanks n" "split_on nl (blanks n) = [blanks n]"
  by (induction n) (simp_all add: normalize_to_lf_def blanks_def)

lemma fuzzy_blanks: "nfkc (blanks n) = blanks n \<Longrightarrow> normalize_for_fuzzy_match nfkc (blanks n) = []"
  by (simp add: normalize_for_fuzzy_match_def normalize_blanks trim_end_blanks)

text \<open>An old text of blanks that the file does not contain is not refused: its new text is
  put in front of the whole file.\<close>

theorem blank_edit_inserts_at_front:
  assumes blank: "0 < n" "nfkc (blanks n) = blanks n" and absent: "str_find (blanks n) content = None"
  defines "base \<equiv> normalize_for_fuzzy_match nfkc content"
  assumes changed: "normalize_to_lf new @ base \<noteq> content"
  shows "apply_edits nfkc content [\<lparr>ed_old = blanks n, ed_new = new\<rparr>] path
    = Inr (preserve_unchanged_lines content base (normalize_to_lf new @ base))"
proof -
  have "blanks n \<noteq> []" using blank(1) by (simp add: blanks_def)
  moreover have "any_fuzzy nfkc content [\<lparr>ed_old = blanks n, ed_new = normalize_to_lf new\<rparr>]"
    by (simp add: any_fuzzy_def fuzzy_find_def absent fuzzy_blanks [of nfkc, OF blank(2)] Let_def)
  ultimately show ?thesis
    using changed
    by (simp add: apply_edits_def normal_edit_def normalize_blanks fuzzy_blanks [of nfkc, OF blank(2)] Let_def
        count_occurrences_def splice_all_def splice_def base_def)
qed

lemma blank_edit_inserts_at_front_witness:
  "apply_edits (\<lambda>s. s) [CHR 0x61, nl] [\<lparr>ed_old = blanks 2, ed_new = [CHR 0x62, nl]\<rparr>] ''f''
   = Inr [CHR 0x62, nl, CHR 0x61, nl]"
proof -
  have "0 < (2 :: nat)" "str_find (blanks 2) [CHR 0x61, nl] = None"
    "normalize_for_fuzzy_match (\<lambda>s. s) [CHR 0x61, nl] = [CHR 0x61, nl]"
    "normalize_to_lf [CHR 0x62, nl] = [CHR 0x62, nl]"
    "preserve_unchanged_lines [CHR 0x61, nl] [CHR 0x61, nl] [CHR 0x62, nl, CHR 0x61, nl] = [CHR 0x62, nl, CHR 0x61, nl]"
    by code_simp+
  with blank_edit_inserts_at_front [of 2 "\<lambda>s. s" "[CHR 0x61, nl]" "[CHR 0x62, nl]" "''f''"]
  show ?thesis by simp
qed

text \<open>Overlapping occurrences count once, so an old text that fits in two places passes for
  unique.\<close>

lemma overlapping_occurrences_pass:
  "apply_edits (\<lambda>s. s) ''aaa'' [\<lparr>ed_old = ''aa'', ed_new = ''b''\<rparr>] path = Inr ''ba''
   \<and> str_find ''aa'' (drop 1 ''aaa'') = Some 0"
  by code_simp

text \<open>A relaxed edit that adds a line leaves every line after it in its normalised form.\<close>

lemma relaxed_insertion_rewrites_rest:
  "apply_edits (\<lambda>s. s)
     (''a'' @ [CHR 0xE2, CHR 0x80, CHR 0x9C, nl] @ [CHR 0xE2, CHR 0x80, CHR 0x98])
     [\<lparr>ed_old = ''a'' @ [CHR 0x22], ed_new = ''x'' @ [nl] @ ''y''\<rparr>] path
   = Inr (''x'' @ [nl] @ ''y'' @ [nl, CHR 0x27])"
  by code_simp

section \<open>Line endings\<close>

lemma str_replace_char: "str_replace [c] to s = concat (map (\<lambda>x. if x = c then to else [x]) s)"
  by (induction "[c]" to s rule: str_replace.induct) (auto simp: prefix_def)

lemma restore_append: "restore_line_endings (s @ t) e = restore_line_endings s e @ restore_line_endings t e"
  by (cases e) (simp_all add: str_replace_char)

lemma restore_weave: "restore_line_endings (weave gs xs) e
    = weave (map (\<lambda>g. restore_line_endings g e) gs) (map (\<lambda>x. restore_line_endings x e) xs)"
proof (induction gs xs rule: weave.induct)
  case (3 xs)
  show ?case by (cases e) simp_all
qed (simp_all add: restore_append)

text \<open>A text of one kind of line end: without a carriage return before a newline, or with one
  before every newline.\<close>

fun all_crlf :: "string \<Rightarrow> bool" where
  "all_crlf [] \<longleftrightarrow> True"
| "all_crlf [c] \<longleftrightarrow> c \<noteq> nl"
| "all_crlf (a # b # s) \<longleftrightarrow> a \<noteq> nl \<and> (if a = cr \<and> b = nl then all_crlf s else all_crlf (b # s))"

lemma restore_normalize_crlf: "all_crlf s \<Longrightarrow> restore_line_endings (normalize_to_lf s) Crlf = s"
  by (induction s rule: all_crlf.induct) (auto simp: normalize_to_lf_def str_replace_char split: if_splits)

lemma normalize_no_crlf: "str_find [cr, nl] s = None \<Longrightarrow> normalize_to_lf s = s"
  unfolding normalize_to_lf_def by (induction s) (auto split: if_splits)

definition one_ending :: "string \<Rightarrow> bool" where
  "one_ending s \<longleftrightarrow> str_find [cr, nl] s = None \<or> all_crlf s"

lemma detect_restores:
  "one_ending s \<Longrightarrow> restore_line_endings (normalize_to_lf s) (detect_line_ending s) = s"
  using restore_normalize_crlf [of s]
  by (auto simp: one_ending_def detect_line_ending_def normalize_no_crlf)

text \<open>A file with both kinds does not survive: a bare newline comes back with a carriage return.\<close>

lemma mixed_endings_rewritten:
  "restore_line_endings (normalize_to_lf ([CHR 0x61, nl, CHR 0x62, cr, nl])) (detect_line_ending [CHR 0x61, nl, CHR 0x62, cr, nl])
   = [CHR 0x61, cr, nl, CHR 0x62, cr, nl]"
  by code_simp

lemma strip_bom_append: "strip_bom s = (b, body) \<Longrightarrow> b @ body = s"
  by (auto simp: strip_bom_def prefix_def split: if_splits)

end
