(* ===== verification/Tools_Files.thy ===== *)
theory Tools_Files
  imports Tools_Edit Agent_Types
begin

text \<open>
  The files and paths the tools act on: the environment trait and the local one
  (\<open>crates/tabverse-agent-tools/src/env.rs\<close>), path resolution (\<open>path.rs\<close>), and the tools that
  write and edit a file (\<open>tools/write.rs\<close>, \<open>tools/edit.rs\<close>). The disk is a tree of folders
  and files whose operations may be refused or cut short; an absolute path names one node (no
  links, no dot-dot). Unicode normalisation and the JSON text parser are crates of their own and
  parameters.
\<close>

section \<open>The disk and \<open>std::fs\<close>\<close>

datatype node = Folder | File string

datatype fault = Refused | CutAfter nat

text \<open>\<open>dk_faults\<close> is what goes wrong with the coming operations, \<open>dk_stops\<close> what the coming looks at
  the cancel token see.\<close>

record disk =
  dk_nodes :: "string list \<Rightarrow> node option"
  dk_faults :: "fault option list"
  dk_stops :: "bool list"

text \<open>\<open>Path::components\<close> of an absolute path.\<close>

definition comps :: "string \<Rightarrow> string list" where
  "comps p = filter (\<lambda>s. s \<noteq> [] \<and> s \<noteq> ''.'') (split_on (CHR 0x2F) p)"

definition node_at :: "disk \<Rightarrow> string list \<Rightarrow> node option" where
  "node_at d p = (if p = [] then Some Folder else dk_nodes d p)"

definition next_fault :: "disk \<Rightarrow> fault option \<times> disk" where
  "next_fault d = (case dk_faults d of [] \<Rightarrow> (None, d) | f # fs \<Rightarrow> (f, d\<lparr>dk_faults := fs\<rparr>))"

definition fs_read :: "string \<Rightarrow> disk \<Rightarrow> string option \<times> disk" where
  "fs_read p d = (case next_fault d of
     (Some _, d1) \<Rightarrow> (None, d1)
   | (None, d1) \<Rightarrow> (case node_at d1 (comps p) of Some (File b) \<Rightarrow> (Some b, d1) | _ \<Rightarrow> (None, d1)))"

text \<open>\<open>create_dir_all\<close>: the missing folders above, none of them in the place of a file.\<close>

fun make_dirs :: "string list \<Rightarrow> string list \<Rightarrow> disk \<Rightarrow> bool \<times> disk" where
  "make_dirs up [] d = (True, d)"
| "make_dirs up (c # cs) d =
     (let p = up @ [c] in
      case node_at d p of
        Some Folder \<Rightarrow> make_dirs p cs d
      | Some (File _) \<Rightarrow> (False, d)
      | None \<Rightarrow> make_dirs p cs (d\<lparr>dk_nodes := (dk_nodes d)(p := Some Folder)\<rparr>))"

definition fs_create_dir_all :: "string list \<Rightarrow> disk \<Rightarrow> bool \<times> disk" where
  "fs_create_dir_all p d = (case next_fault d of
     (Some _, d1) \<Rightarrow> (False, d1)
   | (None, d1) \<Rightarrow> make_dirs [] p d1)"

text \<open>\<open>fs::write\<close> truncates the file and writes; a fault part-way leaves what was written.\<close>

definition fs_write :: "string list \<Rightarrow> string \<Rightarrow> disk \<Rightarrow> bool \<times> disk" where
  "fs_write p content d = (case next_fault d of
     (Some Refused, d1) \<Rightarrow> (False, d1)
   | (f, d1) \<Rightarrow>
       (if p = [] \<or> node_at d1 p = Some Folder \<or> node_at d1 (butlast p) \<noteq> Some Folder then (False, d1)
        else case f of
          Some (CutAfter n) \<Rightarrow> (False, d1\<lparr>dk_nodes := (dk_nodes d1)(p := Some (File (take n content)))\<rparr>)
        | _ \<Rightarrow> (True, d1\<lparr>dk_nodes := (dk_nodes d1)(p := Some (File content))\<rparr>)))"

section \<open>The environment\<close>

text \<open>The trait, with the cancel token of the context, as operations on a world.\<close>

record 'w exec_env =
  ev_cwd :: string
  ev_exists :: "'w \<Rightarrow> string \<Rightarrow> bool"
  ev_read :: "string \<Rightarrow> 'w \<Rightarrow> (string + string) \<times> 'w"
  ev_write :: "string \<Rightarrow> string \<Rightarrow> 'w \<Rightarrow> (string + unit) \<times> 'w"
  ev_stopped :: "'w \<Rightarrow> bool \<times> 'w"

definition is_absolute :: "string \<Rightarrow> bool" where
  "is_absolute p \<longleftrightarrow> prefix ''/'' p"

text \<open>\<open>Path::join\<close> for a relative path.\<close>

definition path_join :: "string \<Rightarrow> string \<Rightarrow> string" where
  "path_join base p = (if base = [] \<or> last base = CHR 0x2F then base @ p else base @ ''/'' @ p)"

definition absolute_path :: "'w exec_env \<Rightarrow> string \<Rightarrow> string" where
  "absolute_path env p = (if is_absolute p then p else path_join (ev_cwd env) p)"

definition local_exists :: "disk \<Rightarrow> string \<Rightarrow> bool" where
  "local_exists d p \<longleftrightarrow> node_at d (comps p) \<noteq> None"

definition local_read_file :: "string \<Rightarrow> disk \<Rightarrow> (string + string) \<times> disk" where
  "local_read_file p d = (case fs_read p d of
     (Some b, d1) \<Rightarrow> (Inr b, d1)
   | (None, d1) \<Rightarrow> (Inl (''failed to read '' @ p), d1))"

text \<open>\<open>Path::parent\<close> of an absolute path is none for the root alone.\<close>

definition local_write_file :: "string \<Rightarrow> string \<Rightarrow> disk \<Rightarrow> (string + unit) \<times> disk" where
  "local_write_file p content d =
     (let cs = comps p;
          (made, d1) = (if cs = [] then (True, d) else fs_create_dir_all (butlast cs) d)
      in if \<not> made then (Inl (''failed to create '' @ join ''/'' ([] # butlast cs)), d1)
         else case fs_write cs content d1 of
           (True, d2) \<Rightarrow> (Inr (), d2)
         | (False, d2) \<Rightarrow> (Inl (''failed to write '' @ p), d2))"

definition look_at_token :: "disk \<Rightarrow> bool \<times> disk" where
  "look_at_token d = (case dk_stops d of [] \<Rightarrow> (False, d) | b # bs \<Rightarrow> (b, d\<lparr>dk_stops := bs\<rparr>))"

definition local_env :: "string \<Rightarrow> disk exec_env" where
  "local_env cwd = \<lparr>ev_cwd = cwd, ev_exists = local_exists, ev_read = local_read_file,
     ev_write = local_write_file, ev_stopped = look_at_token\<rparr>"

section \<open>Paths\<close>

definition unicode_spaces :: "string list" where
  "unicode_spaces = [[CHR 0xC2, CHR 0xA0], [CHR 0xE2, CHR 0x80, CHR 0x80], [CHR 0xE2, CHR 0x80, CHR 0x81],
     [CHR 0xE2, CHR 0x80, CHR 0x82], [CHR 0xE2, CHR 0x80, CHR 0x83], [CHR 0xE2, CHR 0x80, CHR 0x84],
     [CHR 0xE2, CHR 0x80, CHR 0x85], [CHR 0xE2, CHR 0x80, CHR 0x86], [CHR 0xE2, CHR 0x80, CHR 0x87],
     [CHR 0xE2, CHR 0x80, CHR 0x88], [CHR 0xE2, CHR 0x80, CHR 0x89], [CHR 0xE2, CHR 0x80, CHR 0x8A],
     [CHR 0xE2, CHR 0x80, CHR 0xAF], [CHR 0xE2, CHR 0x81, CHR 0x9F], [CHR 0xE3, CHR 0x80, CHR 0x80]]"

definition normalize_tool_path :: "string \<Rightarrow> string" where
  "normalize_tool_path p =
     (let collapsed = concat (map (\<lambda>c. if c \<in> set unicode_spaces then '' '' else c) (rchars p))
      in if prefix ''@'' collapsed then drop 1 collapsed else collapsed)"

definition resolve_tool_path :: "'w exec_env \<Rightarrow> string \<Rightarrow> string" where
  "resolve_tool_path env p = absolute_path env (normalize_tool_path p)"

text \<open>The scan over characters: a blank before \<open>AM.\<close> or \<open>PM.\<close>, in either case.\<close>

definition before_meridiem :: "string list \<Rightarrow> bool" where
  "before_meridiem cs = (case cs of
     a # m # dot # _ \<Rightarrow> a \<in> {''A'', ''P'', ''a'', ''p''} \<and> m \<in> {''M'', ''m''} \<and> dot = ''.''
   | _ \<Rightarrow> False)"

fun narrow_spaces :: "string list \<Rightarrow> string list" where
  "narrow_spaces [] = []"
| "narrow_spaces (c # cs) =
     (if c = '' '' \<and> before_meridiem cs then [CHR 0xE2, CHR 0x80, CHR 0xAF] else c) # narrow_spaces cs"

definition narrow_space_before_meridiem :: "string \<Rightarrow> string" where
  "narrow_space_before_meridiem s = concat (narrow_spaces (rchars s))"

text \<open>\<open>Vec::dedup\<close> removes repetitions next to each other.\<close>

definition read_variants :: "(string \<Rightarrow> string) \<Rightarrow> string \<Rightarrow> string list" where
  "read_variants nfd base =
     (let quote = str_replace [CHR 0x27] [CHR 0xE2, CHR 0x80, CHR 0x99]
      in remdups_adj [base, narrow_space_before_meridiem base, nfd base, quote base, quote (nfd base)])"

definition resolve_read_path :: "(string \<Rightarrow> string) \<Rightarrow> 'w exec_env \<Rightarrow> string \<Rightarrow> 'w \<Rightarrow> string" where
  "resolve_read_path nfd env p w =
     (let resolved = resolve_tool_path env p in
      case find (ev_exists env w) (read_variants nfd resolved) of
        Some candidate \<Rightarrow> candidate
      | None \<Rightarrow> resolved)"

section \<open>Arguments\<close>

text \<open>What the derived deserialisers read: a struct from an object or from its fields in order, a
  string, an optional unsigned number. A failure of \<open>parse_input\<close> is reported as its context.\<close>

definition struct_fields :: "string list \<Rightarrow> json \<Rightarrow> (string \<Rightarrow> json option) option" where
  "struct_fields names v = (case v of
     JObj kvs \<Rightarrow> Some (map_of kvs)
   | JArr vs \<Rightarrow> (if length vs \<le> length names then Some (map_of (zip names vs)) else None)
   | _ \<Rightarrow> None)"

definition string_field :: "(string \<Rightarrow> json option) \<Rightarrow> string \<Rightarrow> string option" where
  "string_field fs name = Option.bind (fs name) json_as_str"

definition parse_input :: "string \<Rightarrow> (json \<Rightarrow> 'a option) \<Rightarrow> json \<Rightarrow> string + 'a" where
  "parse_input tool de v = (case de v of
     Some x \<Rightarrow> Inr x
   | None \<Rightarrow> Inl (''invalid arguments for the `'' @ tool @ ''` tool''))"

definition location_file :: "string \<Rightarrow> tool_location" where
  "location_file p = \<lparr>tl_path = p, tl_line = None\<rparr>"

definition location_at_line :: "string \<Rightarrow> nat \<Rightarrow> tool_location" where
  "location_at_line p n = \<lparr>tl_path = p, tl_line = Some n\<rparr>"

definition output_text :: "string \<Rightarrow> tool_output" where
  "output_text t = \<lparr>o_content = [TextBlock t], o_truncation = None, o_location = None\<rparr>"

definition with_location :: "tool_location \<Rightarrow> tool_output \<Rightarrow> tool_output" where
  "with_location l out = out\<lparr>o_location := Some l\<rparr>"

text \<open>\<open>bail_if_cancelled()?\<close> in front of the rest.\<close>

definition bail_if_cancelled :: "'w exec_env \<Rightarrow> ('w \<Rightarrow> (string + 'a) \<times> 'w) \<Rightarrow> 'w \<Rightarrow> (string + 'a) \<times> 'w" where
  "bail_if_cancelled env rest w = (case ev_stopped env w of
     (True, w1) \<Rightarrow> (Inl ''operation cancelled'', w1)
   | (False, w1) \<Rightarrow> rest w1)"

section \<open>The write tool\<close>

definition write_input :: "json \<Rightarrow> (string \<times> string) option" where
  "write_input v = Option.bind (struct_fields [''path'', ''content''] v) (\<lambda>fs.
     case (string_field fs ''path'', string_field fs ''content'') of
       (Some p, Some c) \<Rightarrow> Some (p, c)
     | _ \<Rightarrow> None)"

definition write_execute :: "'w exec_env \<Rightarrow> json \<Rightarrow> 'w \<Rightarrow> (string + tool_output) \<times> 'w" where
  "write_execute env input w = (case parse_input ''write'' write_input input of
     Inl e \<Rightarrow> (Inl e, w)
   | Inr (p, content) \<Rightarrow> bail_if_cancelled env (\<lambda>w1.
       let resolved = resolve_tool_path env p in
       case ev_write env resolved content w1 of
         (Inl e, w2) \<Rightarrow> (Inl e, w2)
       | (Inr _, w2) \<Rightarrow> bail_if_cancelled env (\<lambda>w3.
           (Inr (with_location (location_file resolved)
              (output_text (''Wrote '' @ show_nat (length content) @ '' bytes to '' @ p))), w3)) w2) w)"

section \<open>The edit tool\<close>

text \<open>What the tool relies on: NFKC, and \<open>serde_json\<close> reading the edits from a text or a value, with
  the text of its errors.\<close>

record edit_ext =
  ee_nfkc :: "string \<Rightarrow> string"
  ee_from_str :: "string \<Rightarrow> string + edit list"
  ee_error :: "json \<Rightarrow> string"

definition edit_spec :: "json \<Rightarrow> edit option" where
  "edit_spec v = Option.bind (struct_fields [''old_text'', ''new_text''] v) (\<lambda>fs.
     case (string_field fs ''old_text'', string_field fs ''new_text'') of
       (Some a, Some b) \<Rightarrow> Some \<lparr>ed_old = a, ed_new = b\<rparr>
     | _ \<Rightarrow> None)"

fun all_some :: "'a option list \<Rightarrow> 'a list option" where
  "all_some [] = Some []"
| "all_some (None # xs) = None"
| "all_some (Some x # xs) = map_option ((#) x) (all_some xs)"

definition bad_edit :: "string \<Rightarrow> string" where
  "bad_edit e = ''invalid arguments for the `edit` tool: '' @ e"

definition edits_field :: "edit_ext \<Rightarrow> json option \<Rightarrow> string + edit list" where
  "edits_field ext v = (case v of
     Some (JStr raw) \<Rightarrow> (case ee_from_str ext raw of
         Inr es \<Rightarrow> Inr es
       | Inl e \<Rightarrow> Inl (bad_edit (''`edits` was a string but not valid JSON ('' @ e @ '')'')))
   | Some (JArr vs) \<Rightarrow> (case all_some (map edit_spec vs) of
         Some es \<Rightarrow> Inr es
       | None \<Rightarrow> Inl (bad_edit (ee_error ext (JArr vs))))
   | None \<Rightarrow> Inr []
   | Some _ \<Rightarrow> Inl (bad_edit ''`edits` must be an array''))"

definition legacy_edit :: "(string \<times> json) list \<Rightarrow> edit list" where
  "legacy_edit kvs = (case (map_of kvs ''old_text'', map_of kvs ''new_text'') of
     (Some (JStr a), Some (JStr b)) \<Rightarrow> [\<lparr>ed_old = a, ed_new = b\<rparr>]
   | _ \<Rightarrow> [])"

definition parse_edit_input :: "edit_ext \<Rightarrow> json \<Rightarrow> string + (string \<times> edit list)" where
  "parse_edit_input ext v = (case v of
     JObj kvs \<Rightarrow> (case map_of kvs ''path'' of
         Some (JStr p) \<Rightarrow> res_bind (edits_field ext (map_of kvs ''edits'')) (\<lambda>es.
             let edits = es @ legacy_edit kvs in
             if edits = [] then Inl (bad_edit ''supply at least one edit'') else Inr (p, edits))
       | _ \<Rightarrow> Inl (bad_edit ''`path` must be a string''))
   | _ \<Rightarrow> Inl (bad_edit ''expected an object''))"

text \<open>The text the file holds is edited as \<open>\<lparr>before, after, summary\<rparr>\<close>: without the byte order mark,
  with plain newlines, and put back in the file's own line end.\<close>

definition edit_text :: "edit_ext \<Rightarrow> string \<Rightarrow> edit list \<Rightarrow> string \<Rightarrow> string + (string \<times> string \<times> string)" where
  "edit_text ext original edits path =
     (let (mark, body) = strip_bom original;
          ending = detect_line_ending body;
          normalized = normalize_to_lf body
      in res_bind (apply_edits (ee_nfkc ext) normalized edits path) (\<lambda>edited.
           Inr (normalized, edited, mark @ restore_line_endings edited ending)))"

definition edit_execute :: "edit_ext \<Rightarrow> 'w exec_env \<Rightarrow> json \<Rightarrow> 'w \<Rightarrow> (string + tool_output) \<times> 'w" where
  "edit_execute ext env input w = (case parse_edit_input ext input of
     Inl e \<Rightarrow> (Inl e, w)
   | Inr (p, edits) \<Rightarrow> bail_if_cancelled env (\<lambda>w1.
       let resolved = resolve_tool_path env p in
       if \<not> ev_exists env w1 resolved then (Inl (''file not found: '' @ p), w1)
       else case ev_read env resolved w1 of
         (Inl e, w2) \<Rightarrow> (Inl e, w2)
       | (Inr raw, w2) \<Rightarrow> (case edit_text ext (utf8_lossy raw) edits p of
           Inl e \<Rightarrow> (Inl e, w2)
         | Inr (before, after, restored) \<Rightarrow> bail_if_cancelled env (\<lambda>w3.
             case ev_write env resolved restored w3 of
               (Inl e, w4) \<Rightarrow> (Inl e, w4)
             | (Inr _, w4) \<Rightarrow>
                 (Inr (with_location
                    (case first_changed_line before after of
                       Some l \<Rightarrow> location_at_line resolved l
                     | None \<Rightarrow> location_file resolved)
                    (output_text (''Applied '' @ show_nat (length edits) @ '' edit(s) to '' @ p @
                      '' ('' @ summarize_change before after @ '')''))), w4)) w2)) w)"

section \<open>The contract of an environment\<close>

text \<open>What a tool relies on: reading returns what a file holds and changes nothing, writing replaces
  the one file it names, and a failed write leaves every other file alone.\<close>

locale file_env =
  fixes E :: "'w exec_env" and holds :: "'w \<Rightarrow> string \<Rightarrow> string option"
    and same_file :: "string \<Rightarrow> string \<Rightarrow> bool"
  assumes read_ok: "ev_read E p w = (Inr b, w') \<Longrightarrow> holds w p = Some b \<and> holds w' = holds w"
    and read_failed: "ev_read E p w = (Inl e, w') \<Longrightarrow> holds w' = holds w"
    and write_ok: "ev_write E p c w = (Inr u, w') \<Longrightarrow>
          holds w' q = (if same_file p q then Some c else holds w q)"
    and write_failed: "ev_write E p c w = (Inl e, w') \<Longrightarrow> \<not> same_file p q \<Longrightarrow> holds w' q = holds w q"
    and stopped_keeps: "ev_stopped E w = (stop, w') \<Longrightarrow> holds w' = holds w"
begin

lemma bail_ok:
  "bail_if_cancelled E rest w = (Inr x, w') \<Longrightarrow> \<exists>w1. holds w1 = holds w \<and> rest w1 = (Inr x, w')"
  using stopped_keeps by (fastforce simp: bail_if_cancelled_def split: prod.splits bool.splits)

lemma bail_write_ok:
  assumes "bail_if_cancelled E (\<lambda>w. case ev_write E p c w of
      (Inl e, w4) \<Rightarrow> (Inl e, w4) | (Inr _, w4) \<Rightarrow> (Inr x, w4)) w = (Inr out, w')"
  shows "\<exists>w3. holds w3 = holds w \<and> ev_write E p c w3 = (Inr (), w')"
proof -
  from bail_ok [OF assms] obtain w3 where w3: "holds w3 = holds w"
    "(case ev_write E p c w3 of (Inl e, w4) \<Rightarrow> (Inl e, w4) | (Inr _, w4) \<Rightarrow> (Inr x, w4)) = (Inr out, w')"
    by blast
  obtain r w4 where "ev_write E p c w3 = (r, w4)" by (cases "ev_write E p c w3")
  with w3 show ?thesis by (cases r) auto
qed

lemma write_tool_ok:
  assumes "write_execute E input w = (Inr out, w')" "write_input input = Some (p, c)"
  shows "holds w' q = (if same_file (resolve_tool_path E p) q then Some c else holds w q)"
proof -
  let ?r = "resolve_tool_path E p"
  from assms obtain w1 where w1: "holds w1 = holds w" and "(case ev_write E ?r c w1 of
         (Inl e, w2) \<Rightarrow> (Inl e, w2)
       | (Inr _, w2) \<Rightarrow> bail_if_cancelled E (\<lambda>w3.
           (Inr (with_location (location_file ?r)
              (output_text (''Wrote '' @ show_nat (length c) @ '' bytes to '' @ p))), w3)) w2) = (Inr out, w')"
    by (auto simp: write_execute_def parse_input_def Let_def dest: bail_ok)
  then obtain u w2 where w2: "ev_write E ?r c w1 = (Inr u, w2)" "holds w' = holds w2"
    by (auto split: prod.splits sum.splits dest!: bail_ok)
  from write_ok [OF w2(1), of q] w1 w2(2) show ?thesis by simp
qed

lemma edit_tool_ok:
  assumes "edit_execute ext E input w = (Inr out, w')" "parse_edit_input ext input = Inr (p, edits)"
  shows "\<exists>raw before after new. holds w (resolve_tool_path E p) = Some raw \<and>
    edit_text ext (utf8_lossy raw) edits p = Inr (before, after, new) \<and>
    (\<forall>q. holds w' q = (if same_file (resolve_tool_path E p) q then Some new else holds w q))"
proof -
  let ?r = "resolve_tool_path E p"
  from assms obtain w1 raw w2 before after new w3 where w1: "holds w1 = holds w"
    and read: "ev_read E ?r w1 = (Inr raw, w2)"
    and new: "edit_text ext (utf8_lossy raw) edits p = Inr (before, after, new)"
    and w3: "holds w3 = holds w2" "ev_write E ?r new w3 = (Inr (), w')"
    by (auto simp: edit_execute_def Let_def dest!: bail_ok bail_write_ok split: if_splits prod.splits sum.splits)
  from read_ok [OF read] w1 w3(1) have "holds w ?r = Some raw" "holds w3 = holds w" by simp_all
  with new write_ok [OF w3(2)] show ?thesis by auto
qed

end

section \<open>The local environment keeps the contract\<close>

definition local_holds :: "disk \<Rightarrow> string \<Rightarrow> string option" where
  "local_holds d p = (case node_at d (comps p) of Some (File b) \<Rightarrow> Some b | _ \<Rightarrow> None)"

definition same_path :: "string \<Rightarrow> string \<Rightarrow> bool" where
  "same_path p q \<longleftrightarrow> comps p = comps q"

lemma local_env_simps [simp]:
  "ev_cwd (local_env cwd) = cwd" "ev_exists (local_env cwd) = local_exists"
  "ev_read (local_env cwd) = local_read_file" "ev_write (local_env cwd) = local_write_file"
  "ev_stopped (local_env cwd) = look_at_token"
  by (simp_all add: local_env_def)

lemma next_fault_nodes: "next_fault d = (f, d') \<Longrightarrow> dk_nodes d' = dk_nodes d \<and> dk_stops d' = dk_stops d"
  by (auto simp: next_fault_def split: list.splits)

lemma node_at_cong: "dk_nodes d' = dk_nodes d \<Longrightarrow> node_at d' = node_at d"
  by (rule ext) (simp add: node_at_def)

lemma node_at_update: "node_at (d\<lparr>dk_nodes := (dk_nodes d)(p := x)\<rparr>) q
    = (if q = [] then Some Folder else if q = p then x else node_at d q)"
  by (simp add: node_at_def)

lemma local_holds_cong: "dk_nodes d' = dk_nodes d \<Longrightarrow> local_holds d' = local_holds d"
  by (rule ext) (simp add: local_holds_def node_at_def)

lemma fs_read_nodes:
  assumes "fs_read p d = (r, d')"
  shows "dk_nodes d' = dk_nodes d \<and> (\<forall>b. r = Some b \<longrightarrow> local_holds d p = Some b)"
proof -
  obtain f d1 where f: "next_fault d = (f, d1)" by (cases "next_fault d")
  note same = next_fault_nodes [OF f, THEN conjunct1]
  from assms f same show ?thesis
    by (auto simp: fs_read_def local_holds_def node_at_cong [OF same] split: option.splits node.splits)
qed

lemma look_at_token_nodes: "look_at_token d = (b, d') \<Longrightarrow> dk_nodes d' = dk_nodes d \<and> dk_faults d' = dk_faults d"
  by (auto simp: look_at_token_def split: list.splits)

text \<open>Making folders changes no file.\<close>

definition file_at :: "disk \<Rightarrow> string list \<Rightarrow> string option" where
  "file_at d p = (case node_at d p of Some (File b) \<Rightarrow> Some b | _ \<Rightarrow> None)"

lemma local_holds_file_at: "local_holds d p = file_at d (comps p)"
  by (simp add: local_holds_def file_at_def)

lemma file_at_cong: "dk_nodes d' = dk_nodes d \<Longrightarrow> file_at d' = file_at d"
  by (rule ext) (simp add: file_at_def node_at_def)

lemma make_dirs_files: "make_dirs up cs d = (ok, d') \<Longrightarrow> file_at d' = file_at d"
proof (induction up cs d rule: make_dirs.induct)
  case (2 up c cs d)
  let ?p = "up @ [c]"
  show ?case
  proof (cases "node_at d ?p")
    case None
    have "file_at (d\<lparr>dk_nodes := (dk_nodes d)(?p := Some Folder)\<rparr>) = file_at d"
      using None by (auto simp: file_at_def node_at_update fun_eq_iff node_at_def)
    with 2 None show ?thesis by (simp add: Let_def)
  next
    case (Some n)
    with 2 show ?thesis by (cases n) (auto simp: Let_def)
  qed
qed simp

lemma next_fault_files: "next_fault d = (f, d') \<Longrightarrow> file_at d' = file_at d"
  by (rule file_at_cong) (simp add: next_fault_nodes)

lemma fs_create_files:
  assumes "fs_create_dir_all p d = (ok, d')"
  shows "file_at d' = file_at d"
proof -
  obtain f d1 where f: "next_fault d = (f, d1)" by (cases "next_fault d")
  with assms have "d' = d1 \<or> make_dirs [] p d1 = (ok, d')"
    by (auto simp: fs_create_dir_all_def split: option.splits)
  with next_fault_files [OF f] make_dirs_files [of "[]" p d1 ok d'] show ?thesis by auto
qed

lemma fs_write_files:
  assumes "fs_write p c d = (ok, d')"
  shows "(ok \<longrightarrow> file_at d' = (file_at d)(p := Some c)) \<and> (\<forall>q. q \<noteq> p \<longrightarrow> file_at d' q = file_at d q)"
proof -
  obtain f d1 where f: "next_fault d = (f, d1)" by (cases "next_fault d")
  note d1 = next_fault_files [OF f]
  have upd: "p \<noteq> [] \<Longrightarrow> file_at (d1\<lparr>dk_nodes := (dk_nodes d1)(p := Some (File t))\<rparr>) = (file_at d)(p := Some t)" for t
    unfolding d1 [symmetric] by (simp add: file_at_def node_at_def fun_eq_iff)
  show ?thesis
  proof (cases "f = Some Refused \<or> p = [] \<or> node_at d1 p = Some Folder \<or> node_at d1 (butlast p) \<noteq> Some Folder")
    case True
    then have "ok = False \<and> d' = d1"
      using assms f by (auto simp: fs_write_def split: option.splits fault.splits)
    with d1 show ?thesis by simp
  next
    case False
    then consider "f = None" "ok" "d' = d1\<lparr>dk_nodes := (dk_nodes d1)(p := Some (File c))\<rparr>"
      | n where "f = Some (CutAfter n)" "\<not> ok" "d' = d1\<lparr>dk_nodes := (dk_nodes d1)(p := Some (File (take n c)))\<rparr>"
      using assms f by (auto simp: fs_write_def split: option.splits fault.splits)
    then show ?thesis using False by cases (simp_all add: upd)
  qed
qed

lemma local_write_files:
  assumes "local_write_file p c d = (r, d')"
  shows "((\<exists>u. r = Inr u) \<longrightarrow> file_at d' = (file_at d)(comps p := Some c)) \<and>
    (\<forall>q. q \<noteq> comps p \<longrightarrow> file_at d' q = file_at d q)"
proof -
  obtain ok d1 where d1: "(if comps p = [] then (True, d) else fs_create_dir_all (butlast (comps p)) d) = (ok, d1)"
    by (metis surj_pair)
  then have files: "file_at d1 = file_at d" by (auto dest: fs_create_files split: if_splits)
  obtain ok2 d2 where d2: "fs_write (comps p) c d1 = (ok2, d2)" by (cases "fs_write (comps p) c d1")
  show ?thesis
  proof (cases ok)
    case True
    then have "d' = d2" "(\<exists>u. r = Inr u) \<longleftrightarrow> ok2"
      using assms d1 d2 by (auto simp: local_write_file_def Let_def split: bool.splits if_splits)
    with fs_write_files [OF d2] files show ?thesis by simp
  next
    case False
    then have "d' = d1" "\<exists>e. r = Inl e"
      using assms d1 by (auto simp: local_write_file_def Let_def split: if_splits)
    with files show ?thesis by auto
  qed
qed

lemma local_read_holds:
  assumes "local_read_file p d = (r, d')"
  shows "local_holds d' = local_holds d \<and> (\<forall>b. r = Inr b \<longrightarrow> local_holds d p = Some b)"
proof -
  obtain x d1 where x: "fs_read p d = (x, d1)" by (cases "fs_read p d")
  with assms have "d' = d1" "\<And>b. r = Inr b \<Longrightarrow> x = Some b"
    by (auto simp: local_read_file_def split: option.splits)
  with fs_read_nodes [OF x] local_holds_cong [of d1 d] show ?thesis by simp
qed

interpretation lenv: file_env "local_env cwd" local_holds same_path for cwd
proof
  fix p c w q e b w' stop and u :: unit
  show "local_holds w p = Some b \<and> local_holds w' = local_holds w"
    if "ev_read (local_env cwd) p w = (Inr b, w')"
    using local_read_holds [of p w "Inr b" w'] that by simp
  show "local_holds w' = local_holds w" if "ev_read (local_env cwd) p w = (Inl e, w')"
    using local_read_holds [of p w "Inl e" w'] that by simp
  show "local_holds w' q = (if same_path p q then Some c else local_holds w q)"
    if "ev_write (local_env cwd) p c w = (Inr u, w')"
    using local_write_files [of p c w "Inr u" w'] that by (simp add: local_holds_file_at same_path_def)
  show "local_holds w' q = local_holds w q"
    if "ev_write (local_env cwd) p c w = (Inl e, w')" "\<not> same_path p q"
    using local_write_files [of p c w "Inl e" w'] that by (simp add: local_holds_file_at same_path_def)
  show "local_holds w' = local_holds w" if "ev_stopped (local_env cwd) w = (stop, w')"
    using local_holds_cong [of w' w] look_at_token_nodes [of w stop w'] that by simp
qed

section \<open>What an edit does to a file\<close>

lemma weave_prefix: "gs \<noteq> [] \<Longrightarrow> b @ weave gs xs = weave ((b @ hd gs) # tl gs) xs"
  by (cases gs; cases xs) auto

lemma edit_text_exact:
  assumes run: "edit_text ext original edits path = Inr (before, after, new)"
  defines "body \<equiv> snd (strip_bom original)"
  assumes ending: "one_ending body"
    and exact: "\<not> any_fuzzy (ee_nfkc ext) (normalize_to_lf body) (map normal_edit edits)"
  defines "put \<equiv> \<lambda>s. restore_line_endings s (detect_line_ending body)"
  shows "\<exists>gaps es. mset es = mset (map normal_edit edits) \<and> length gaps = Suc (length es) \<and>
    original = weave gaps (map (\<lambda>e. put (ed_old e)) es) \<and> new = weave gaps (map (\<lambda>e. put (ed_new e)) es)"
proof -
  obtain mark where bom: "strip_bom original = (mark, body)" by (simp add: body_def prod_eq_iff)
  from run bom have edited: "apply_edits (ee_nfkc ext) (normalize_to_lf body) edits path = Inr after"
    and new: "new = mark @ put after"
    by (auto simp: edit_text_def Let_def res_bind_Inr_iff put_def)
  from apply_edits_weave [OF edited] exact obtain gaps es where
    es: "mset es = mset (map normal_edit edits)" "length gaps = Suc (length es)"
    and old: "normalize_to_lf body = weave gaps (map ed_old es)" and after: "after = weave gaps (map ed_new es)"
    by auto
  define gs where "gs = map put gaps"
  have gs: "gs \<noteq> []" "length gs = Suc (length es)" using es(2) by (auto simp: gs_def)
  have put_weave: "put (weave gaps xs) = weave gs (map put xs)" for xs
    by (simp add: put_def gs_def restore_weave)
  have "original = mark @ body" using strip_bom_append [OF bom] by simp
  also have "body = put (normalize_to_lf body)" using detect_restores [OF ending] by (simp add: put_def)
  finally have "original = mark @ weave gs (map (\<lambda>e. put (ed_old e)) es)"
    by (simp add: old put_weave comp_def)
  moreover have "new = mark @ weave gs (map (\<lambda>e. put (ed_new e)) es)"
    by (simp add: new after put_weave comp_def)
  moreover have "length ((mark @ hd gs) # tl gs) = Suc (length es)" using gs by simp
  ultimately show ?thesis
    using es(1) unfolding weave_prefix [OF gs(1)] by blast
qed


definition demo_ext :: edit_ext where
  "demo_ext = \<lparr>ee_nfkc = (\<lambda>s. s), ee_from_str = (\<lambda>_. Inl ''''), ee_error = (\<lambda>_. '''')\<rparr>"

definition demo_disk :: "string \<Rightarrow> disk" where
  "demo_disk b = \<lparr>dk_nodes = [[''w''] \<mapsto> Folder, [''w'', ''f''] \<mapsto> File b], dk_faults = [], dk_stops = []\<rparr>"

definition demo_edit :: json where
  "demo_edit = JObj [(''path'', JStr ''f''), (''old_text'', JStr ''b''), (''new_text'', JStr ''c'')]"


section \<open>What a failed edit leaves\<close>

text \<open>A tree: what a path names stands in a folder.\<close>

definition tree_ok :: "disk \<Rightarrow> bool" where
  "tree_ok d \<longleftrightarrow> (\<forall>p. p \<noteq> [] \<and> dk_nodes d p \<noteq> None \<longrightarrow> node_at d (butlast p) = Some Folder)"

definition no_faults :: "disk \<Rightarrow> bool" where
  "no_faults d \<longleftrightarrow> list_all (\<lambda>f. f = None) (dk_faults d)"

lemma tree_prefix_folder:
  "tree_ok d \<Longrightarrow> node_at d (p @ q) \<noteq> None \<Longrightarrow> q \<noteq> [] \<Longrightarrow> node_at d p = Some Folder"
proof (induction q rule: rev_induct)
  case (snoc c q)
  then have "node_at d (p @ q) = Some Folder"
    by (auto simp: tree_ok_def node_at_def butlast_append dest!: spec [of _ "p @ q @ [c]"])
  with snoc show ?case by (cases "q = []") auto
qed simp

lemma next_fault_none: "no_faults d \<Longrightarrow> \<exists>d1. next_fault d = (None, d1) \<and> no_faults d1 \<and> dk_nodes d1 = dk_nodes d"
  by (cases "dk_faults d") (auto simp: next_fault_def no_faults_def)

lemma make_dirs_there:
  "(\<And>n. node_at d (up @ take n cs) = Some Folder) \<Longrightarrow> make_dirs up cs d = (True, d)"
proof (induction cs arbitrary: up)
  case (Cons c cs)
  have "node_at d (up @ [c]) = Some Folder" using Cons.prems [of 1] by simp
  moreover have "make_dirs (up @ [c]) cs d = (True, d)"
    by (rule Cons.IH) (use Cons.prems [of "Suc n" for n] in simp)
  ultimately show ?case by simp
qed simp

lemma overwrite_succeeds:
  assumes tree: "tree_ok d" and quiet: "no_faults d" and there: "local_holds d p \<noteq> None"
  shows "\<exists>d'. local_write_file p c d = (Inr (), d')"
proof -
  from there obtain b where b: "node_at d (comps p) = Some (File b)"
    by (auto simp: local_holds_def split: option.splits node.splits)
  then have ne: "comps p \<noteq> []" by (auto simp: node_at_def)
  have up: "node_at d (take n (butlast (comps p))) = Some Folder" for n
  proof -
    have "comps p = take n (butlast (comps p)) @ drop n (butlast (comps p)) @ [last (comps p)]"
      using ne by (metis append_assoc append_butlast_last_id append_take_drop_id)
    with b show ?thesis
      using tree_prefix_folder [OF tree, of "take n (butlast (comps p))" "drop n (butlast (comps p)) @ [last (comps p)]"]
      by (metis Nil_is_append_conv not_Cons_self2 option.distinct(1))
  qed
  obtain d1 where d1: "next_fault d = (None, d1)" "no_faults d1" "dk_nodes d1 = dk_nodes d"
    using next_fault_none [OF quiet] by blast
  have same: "node_at d1 = node_at d" by (rule node_at_cong [OF d1(3)])
  have "make_dirs [] (butlast (comps p)) d1 = (True, d1)"
    by (rule make_dirs_there) (simp add: same up)
  then have made: "fs_create_dir_all (butlast (comps p)) d = (True, d1)"
    by (simp add: fs_create_dir_all_def d1(1))
  obtain d2 where d2: "next_fault d1 = (None, d2)" "dk_nodes d2 = dk_nodes d1"
    using next_fault_none [OF d1(2)] by blast
  have "node_at d2 = node_at d" using node_at_cong [OF d2(2)] same by simp
  then have "\<exists>d'. fs_write (comps p) c d1 = (True, d')"
    using ne b up [of "length (comps p)"] by (simp add: fs_write_def d2(1))
  with ne made show ?thesis by (auto simp: local_write_file_def)
qed

definition calm :: "disk \<Rightarrow> disk \<Rightarrow> bool" where
  "calm d d' \<longleftrightarrow> dk_nodes d' = dk_nodes d \<and> (no_faults d \<longrightarrow> no_faults d')"

lemma calm_refl: "calm d d" by (simp add: calm_def)

lemma calm_trans: "calm d d' \<Longrightarrow> calm d' d'' \<Longrightarrow> calm d d''" by (simp add: calm_def)

lemma calm_stop: "look_at_token d = (b, d') \<Longrightarrow> calm d d'"
  using look_at_token_nodes [of d b d'] by (simp add: calm_def no_faults_def)

lemma calm_next: "next_fault d = (f, d') \<Longrightarrow> calm d d'"
  by (auto simp: next_fault_def calm_def no_faults_def split: list.splits)

lemma calm_read:
  assumes "local_read_file p d = (r, d')"
  shows "calm d d' \<and> (\<forall>b. r = Inr b \<longrightarrow> local_holds d p = Some b)"
proof -
  obtain f d1 where f: "next_fault d = (f, d1)" by (cases "next_fault d")
  with assms have "d' = d1"
    by (auto simp: local_read_file_def fs_read_def split: option.splits node.splits prod.splits)
  with calm_next [OF f] local_read_holds [OF assms] show ?thesis by simp
qed

lemma bail_error:
  assumes "bail_if_cancelled (local_env cwd) rest d = (Inl e, d')"
  shows "calm d d' \<or> (\<exists>d1. calm d d1 \<and> rest d1 = (Inl e, d'))"
proof -
  obtain b d1 where b: "look_at_token d = (b, d1)" by (cases "look_at_token d")
  with assms calm_stop [OF b] show ?thesis by (cases b) (auto simp: bail_if_cancelled_def)
qed

lemma edit_error_cases:
  assumes run: "edit_execute ext (local_env cwd) input d = (Inl e, d')"
  shows "calm d d' \<or> (\<exists>d1 p c. calm d d1 \<and> local_holds d1 p \<noteq> None \<and> local_write_file p c d1 = (Inl e, d'))"
proof (cases "parse_edit_input ext input")
  case (Inl e')
  with run show ?thesis by (simp add: edit_execute_def calm_refl)
next
  case (Inr pe)
  obtain p edits where pe: "pe = (p, edits)" by (cases pe)
  let ?r = "resolve_tool_path (local_env cwd) p"
  from run Inr pe consider "calm d d'"
    | d1 where "calm d d1" "\<not> local_exists d1 ?r" "d' = d1"
    | d1 r d2 where "calm d d1" "local_read_file ?r d1 = (r, d2)" "d' = d2"
    | d1 raw d2 new d3 where "calm d d1" "local_read_file ?r d1 = (Inr raw, d2)" "calm d2 d3"
        "d' = d3 \<or> local_write_file ?r new d3 = (Inl e, d')"
    by (auto simp: edit_execute_def Let_def dest!: bail_error split: if_splits prod.splits sum.splits)
      (meson calm_refl)+
  then show ?thesis
  proof cases
    case (3 d1 r d2)
    with calm_read [OF 3(2)] show ?thesis by (auto intro: calm_trans)
  next
    case (4 d1 raw d2 new d3)
    from calm_read [OF 4(2)] have c: "calm d1 d2" "local_holds d1 ?r = Some raw" by simp_all
    from c 4(1,3) have "calm d d3" "calm d1 d3" by (blast intro: calm_trans)+
    moreover from this(2) have "local_holds d3 ?r = Some raw"
      using c(2) local_holds_cong [of d3 d1] by (simp add: calm_def)
    ultimately show ?thesis using 4(4) by (metis option.distinct(1))
  qed auto
qed

text \<open>A refused edit changes nothing. On a disk that does not fail, an edit call that returns an
  error, whatever the reason, leaves every file and folder as it was.\<close>

theorem edit_error_harmless:
  assumes run: "edit_execute ext (local_env cwd) input d = (Inl e, d')"
    and disk: "tree_ok d" "no_faults d"
  shows "dk_nodes d' = dk_nodes d"
proof (rule ccontr)
  assume changed: "dk_nodes d' \<noteq> dk_nodes d"
  with edit_error_cases [OF run] obtain d1 p c where d1: "calm d d1" "local_holds d1 p \<noteq> None"
    and failed: "local_write_file p c d1 = (Inl e, d')"
    by (auto simp: calm_def)
  from d1(1) have same: "node_at d1 = node_at d" "dk_nodes d1 = dk_nodes d" "no_faults d1"
    using disk(2) node_at_cong [of d1 d] by (simp_all add: calm_def)
  then have "tree_ok d1" using disk(1) by (simp add: tree_ok_def)
  from overwrite_succeeds [OF this same(3) d1(2), of c] failed show False by simp
qed

lemma demo_tree: "tree_ok (demo_disk b)"
  by (auto simp: tree_ok_def demo_disk_def node_at_def split: if_splits)

lemma edit_error_harmless_witness:
  "fst (edit_execute demo_ext (local_env ''/w'') demo_edit (demo_disk ''xy'')) =
     Inl (''edits[0] of 1 for f: oldText was not found in the file. Read the file again and quote the current text exactly.'') \<and>
   dk_nodes (snd (edit_execute demo_ext (local_env ''/w'') demo_edit (demo_disk ''xy''))) = dk_nodes (demo_disk ''xy'')"
proof -
  have fails: "fst (edit_execute demo_ext (local_env ''/w'') demo_edit (demo_disk ''xy'')) =
     Inl (''edits[0] of 1 for f: oldText was not found in the file. Read the file again and quote the current text exactly.'')"
    by code_simp
  then obtain d' where run: "edit_execute demo_ext (local_env ''/w'') demo_edit (demo_disk ''xy'') =
     (Inl (''edits[0] of 1 for f: oldText was not found in the file. Read the file again and quote the current text exactly.''), d')"
    by (cases "edit_execute demo_ext (local_env ''/w'') demo_edit (demo_disk ''xy'')") simp
  have "no_faults (demo_disk ''xy'')" by (simp add: no_faults_def demo_disk_def)
  from edit_error_harmless [OF run demo_tree this] run show ?thesis by simp
qed

text \<open>The disk read lossily is written back: an invalid byte far from the edit is replaced.\<close>

lemma edit_rewrites_invalid_bytes:
  "local_holds (snd (edit_execute demo_ext (local_env ''/w'') demo_edit (demo_disk (''b'' @ [CHR 0xFF])))) ''/w/f''
   = Some (''c'' @ [CHR 0xEF, CHR 0xBF, CHR 0xBD])"
  by code_simp

text \<open>A write that was stopped while it ran reports an error although the file was written.\<close>

lemma cancelled_write_done:
  "fst (write_execute (local_env ''/w'') (JObj [(''path'', JStr ''f''), (''content'', JStr ''z'')])
      ((demo_disk ''a'')\<lparr>dk_stops := [False, True]\<rparr>)) = Inl ''operation cancelled'' \<and>
   local_holds (snd (write_execute (local_env ''/w'') (JObj [(''path'', JStr ''f''), (''content'', JStr ''z'')])
      ((demo_disk ''a'')\<lparr>dk_stops := [False, True]\<rparr>))) ''/w/f'' = Some ''z''"
  by code_simp

end
