(* ===== verification/Tools_Read.thy ===== *)
theory Tools_Read
  imports Tools_Files
begin

unbundle bit_operations_syntax


text \<open>
  Reading a file or an image, a window of lines at a time
  (\<open>crates/tabverse-agent-tools/src/tools/read.rs\<close>). Arithmetic on \<open>usize\<close> is that of 64 bits.
\<close>

section \<open>Arguments\<close>

definition is_digit :: "char \<Rightarrow> bool" where
  "is_digit c \<longleftrightarrow> 48 \<le> (of_char c :: nat) \<and> (of_char c :: nat) \<le> 57"

definition digits_value :: "string \<Rightarrow> nat" where
  "digits_value s = foldl (\<lambda>n c. n * 10 + (of_char c - 48)) 0 s"

text \<open>An unsigned number of 64 bits, or none: absent and null are none.\<close>

definition de_usize :: "json \<Rightarrow> nat option" where
  "de_usize v = (case v of
     JNum s \<Rightarrow> (if s \<noteq> [] \<and> list_all is_digit s \<and> digits_value s < 2 ^ 64 then Some (digits_value s) else None)
   | _ \<Rightarrow> None)"

definition opt_usize_field :: "(string \<Rightarrow> json option) \<Rightarrow> string \<Rightarrow> nat option option" where
  "opt_usize_field fs name = (case fs name of
     None \<Rightarrow> Some None
   | Some JNull \<Rightarrow> Some None
   | Some v \<Rightarrow> map_option Some (de_usize v))"

record read_args =
  ra_path :: string
  ra_offset :: "nat option"
  ra_limit :: "nat option"

definition read_input :: "json \<Rightarrow> read_args option" where
  "read_input v = Option.bind (struct_fields [''path'', ''offset'', ''limit''] v) (\<lambda>fs.
     case (string_field fs ''path'', opt_usize_field fs ''offset'', opt_usize_field fs ''limit'') of
       (Some p, Some off, Some l) \<Rightarrow> Some \<lparr>ra_path = p, ra_offset = off, ra_limit = l\<rparr>
     | _ \<Rightarrow> None)"

section \<open>Images\<close>

definition detect_image_mime :: "string \<Rightarrow> string option" where
  "detect_image_mime b =
     (if prefix (CHR 0x89 # ''PNG'') b then Some ''image/png''
      else if prefix [CHR 0xFF, CHR 0xD8, CHR 0xFF] b then Some ''image/jpeg''
      else if prefix ''GIF87a'' b \<or> prefix ''GIF89a'' b then Some ''image/gif''
      else if 12 < length b \<and> prefix ''RIFF'' b \<and> take 4 (drop 8 b) = ''WEBP'' then Some ''image/webp''
      else if prefix ''BM'' b then Some ''image/bmp''
      else None)"

definition B64 :: string where
  "B64 = ''ABCDEFGHIJKLMNOPQRSTUVWXYZabcdefghijklmnopqrstuvwxyz0123456789+/''"

definition byte_word :: "char \<Rightarrow> 32 word" where
  "byte_word c = word_of_nat (of_char c)"

definition sextet :: "nat \<Rightarrow> 32 word \<Rightarrow> char" where
  "sextet k n = B64 ! unat (drop_bit k n AND 63)"

fun base64_encode :: "string \<Rightarrow> string" where
  "base64_encode [] = []"
| "base64_encode [a] =
     (let n = push_bit 16 (byte_word a) in [sextet 18 n, sextet 12 n, CHR ''='', CHR ''=''])"
| "base64_encode [a, b] =
     (let n = push_bit 16 (byte_word a) OR push_bit 8 (byte_word b)
      in [sextet 18 n, sextet 12 n, sextet 6 n, CHR ''=''])"
| "base64_encode (a # b # c # rest) =
     (let n = push_bit 16 (byte_word a) OR push_bit 8 (byte_word b) OR byte_word c
      in [sextet 18 n, sextet 12 n, sextet 6 n, sextet 0 n] @ base64_encode rest)"

section \<open>The read tool\<close>

text \<open>The window: \<open>start + limit\<close> in \<open>usize\<close>. A debug build panics on overflow; a release build wraps to
  less than \<open>start\<close>, and slicing panics.\<close>

definition read_window :: "nat \<Rightarrow> nat option \<Rightarrow> string \<Rightarrow> (string, string) outcome" where
  "read_window offset lim txt =
     (if 1 < offset \<or> lim \<noteq> None
      then let lines = split_on nl txt; start = min (offset - 1) (length lines)
        in case lim of
             Some l \<Rightarrow>
               (if 2 ^ 64 \<le> start + l then Panic
                else Ok (join [nl] (drop start (take (min (start + l) (length lines)) lines))))
           | None \<Rightarrow> Ok (join [nl] (drop start lines))
      else Ok txt)"

definition read_output :: "string \<Rightarrow> nat \<Rightarrow> string \<Rightarrow> tool_output" where
  "read_output path offset windowed =
     (let out = truncate_head windowed limits_default; info = td_info out;
          notice = (if tr_truncated info
            then [nl, nl] @ ''[truncated: showing '' @ show_nat (tr_lines info) @ '' of '' @
              show_nat (tr_original_lines info) @ '' lines, '' @ format_size (tr_bytes info) @ '']''
            else [])
      in \<lparr>o_content = [TextBlock (td_text out @ notice)], o_truncation = Some info,
          o_location = Some (location_at_line path (offset mod 2 ^ 32))\<rparr>)"

definition image_output :: "string \<Rightarrow> string \<Rightarrow> string \<Rightarrow> tool_output" where
  "image_output path mime b =
     \<lparr>o_content = [ImageBlock (base64_encode b) mime], o_truncation = None,
      o_location = Some (location_file path)\<rparr>"

definition read_execute ::
  "(string \<Rightarrow> string) \<Rightarrow> 'w exec_env \<Rightarrow> json \<Rightarrow> 'w \<Rightarrow> (string, tool_output) outcome \<times> 'w" where
  "read_execute nfd env input w = (case parse_input ''read'' read_input input of
     Inl e \<Rightarrow> (Err e, w)
   | Inr args \<Rightarrow> (case ev_stopped env w of
       (True, w1) \<Rightarrow> (Err ''operation cancelled'', w1)
     | (False, w1) \<Rightarrow>
         (let resolved = resolve_read_path nfd env (ra_path args) w1 in
          if \<not> ev_exists env w1 resolved then (Err (''file not found: '' @ ra_path args), w1)
          else case ev_read env resolved w1 of
            (Inl e, w2) \<Rightarrow> (Err e, w2)
          | (Inr b, w2) \<Rightarrow> (case detect_image_mime b of
              Some mime \<Rightarrow> (Ok (image_output resolved mime b), w2)
            | None \<Rightarrow>
                (let offset = max 1 (case ra_offset args of Some n \<Rightarrow> n | None \<Rightarrow> 1) in
                 case read_window offset (ra_limit args) (utf8_lossy b) of
                   Ok windowed \<Rightarrow> (Ok (read_output resolved offset windowed), w2)
                 | Err e \<Rightarrow> (Err e, w2)
                 | Panic \<Rightarrow> (Panic, w2))))))"

section \<open>Base64 is reversible\<close>

text \<open>A reader of the standard alphabet, written independently.\<close>

fun b64_value :: "char \<Rightarrow> nat" where
  "b64_value c = (let n = of_char c in
     if 65 \<le> n \<and> n \<le> 90 then n - 65 else if 97 \<le> n \<and> n \<le> 122 then n - 71
     else if 48 \<le> n \<and> n \<le> 57 then n + 4 else if n = 43 then 62 else 63)"

fun base64_decode :: "string \<Rightarrow> string" where
  "base64_decode (p # q # r # s # rest) =
     (let a = b64_value p * 4 + b64_value q div 16;
          b = b64_value q mod 16 * 16 + b64_value r div 4;
          c = b64_value r mod 4 * 64 + b64_value s
      in (if r = CHR ''='' then [char_of a] else if s = CHR ''='' then [char_of a, char_of b]
          else [char_of a, char_of b, char_of c]) @ base64_decode rest)"
| "base64_decode _ = []"

fun b64_code :: "nat \<Rightarrow> nat" where
  "b64_code k = (if k < 26 then k + 65 else if k < 52 then k + 71 else if k < 62 then k - 4
     else if k = 62 then 43 else 47)"

lemma B64_codes: "B64 = map (\<lambda>k. char_of (b64_code k)) [0..<64]"
  by code_simp

lemma b64_table: "k < 64 \<Longrightarrow> b64_value (B64 ! k) = k \<and> B64 ! k \<noteq> CHR ''=''"
proof -
  assume k: "k < 64"
  then have "of_char (B64 ! k) = b64_code k"
    by (simp add: B64_codes)
  moreover from this have "B64 ! k \<noteq> CHR ''=''" using k by (auto split: if_splits)
  ultimately show ?thesis using k by (auto simp: Let_def split: if_splits)
qed

declare b64_value.simps [simp del] b64_code.simps [simp del]

lemma sextet_eq: "sextet k n = B64 ! (unat n div 2 ^ k mod 64)"
proof -
  have eq: "drop_bit k n AND 63 = take_bit 6 (drop_bit k n)"
    by (simp add: take_bit_eq_mask mask_eq_exp_minus_1)
  have "unat (drop_bit k n AND 63) = unat n div 2 ^ k mod 64"
    by (simp only: eq unsigned_take_bit_eq unat_drop_bit_eq take_bit_eq_mod [where 'a = nat]
        drop_bit_eq_div [where 'a = nat]) simp
  then show ?thesis by (simp only: sextet_def)
qed

lemma or_is_add:
  assumes x: "unat x < 2 ^ m"
  shows "push_bit m y OR x = push_bit m y + (x :: 32 word)"
proof -
  have "take_bit m (unat x) = unat x" using x by (simp add: take_bit_nat_eq_self)
  then have "take_bit m x = x"
    by (metis unsigned_take_bit_eq word_unat_eq_iff)
  then have "\<not> bit x n" if "m \<le> n" for n
    using that by (metis bit_take_bit_iff leD)
  then have "push_bit m y AND x = 0"
    by (auto simp: bit_eq_iff bit_simps)
  then show ?thesis by (rule disjunctive_add_eq_or [symmetric])
qed

lemma byte_word_less: "unat (byte_word c) = of_char c" "unat (byte_word c) < 256"
proof -
  have "(of_char c :: nat) < 256" by (cases c) (simp add: of_char_def horner_sum_simps split: bool.split)
  then have "of_char c mod 4294967296 = (of_char c :: nat)" by (intro mod_less) linarith
  then show "unat (byte_word c) = of_char c" "unat (byte_word c) < 256"
    by (simp_all add: byte_word_def unat_of_nat)
qed

text \<open>The three bytes of a group as one number, and its four digits.\<close>

lemma group_number:
  "unat (push_bit 16 (byte_word a) OR push_bit 8 (byte_word b) OR byte_word c)
     = of_char a * 65536 + of_char b * 256 + of_char c"
proof -
  have small: "(of_char x :: nat) < 256" for x :: char
    using byte_word_less [of x] by simp
  have lo: "push_bit 8 (byte_word b) OR byte_word c = word_of_nat (of_char b * 256 + of_char c)"
    using or_is_add [of "byte_word c" 8 "byte_word b"] byte_word_less [of c]
    by (simp add: push_bit_eq_mult byte_word_def)
  have lo_n: "unat (push_bit 8 (byte_word b) OR byte_word c) = of_char b * 256 + of_char c"
  proof -
    have "of_char b * 256 + of_char c < (4294967296 :: nat)" using small [of b] small [of c] by linarith
    then show ?thesis unfolding lo by (simp add: unat_of_nat del: of_nat_add of_nat_mult)
  qed
  then have "push_bit 16 (byte_word a) OR (push_bit 8 (byte_word b) OR byte_word c)
      = word_of_nat (of_char a * 65536 + of_char b * 256 + of_char c)"
    using or_is_add [of "push_bit 8 (byte_word b) OR byte_word c" 16 "byte_word a"] small [of b] small [of c] lo
    by (simp add: push_bit_eq_mult byte_word_def)
  moreover have "of_char a * 65536 + of_char b * 256 + of_char c < (4294967296 :: nat)"
    using small [of a] small [of b] small [of c] by linarith
  ultimately show ?thesis by (simp add: unat_of_nat or.assoc del: of_nat_add of_nat_mult)
qed

lemma byte_word_zero [simp]: "byte_word (CHR 0x00) = 0"
  by (simp add: byte_word_def)

lemma cut_digits:
  fixes x q :: nat
  shows "q < 16 \<Longrightarrow> (16 * x + q) mod 64 div 16 = x mod 4" "q < 16 \<Longrightarrow> (16 * x + q) mod 64 mod 16 = q"
    and "q < 4 \<Longrightarrow> (4 * x + q) mod 64 div 4 = x mod 16" "q < 4 \<Longrightarrow> (4 * x + q) mod 64 mod 4 = q"
  using mod_mult2_eq [of "16 * x + q" 16 4] mod_mult2_eq [of "4 * x + q" 4 16] by simp_all

lemma digit_arith:
  fixes a b c :: nat
  assumes "a < 256" "b < 256" "c < 256"
  defines "n \<equiv> a * 65536 + b * 256 + c"
  shows "n div 2 ^ 18 mod 64 * 4 + n div 2 ^ 12 mod 64 div 16 = a"
    and "n div 2 ^ 12 mod 64 mod 16 * 16 + n div 2 ^ 6 mod 64 div 4 = b"
    and "n div 2 ^ 6 mod 64 mod 4 * 64 + n div 2 ^ 0 mod 64 = c"
proof -
  have n: "n = 256 * (256 * a + b) + c" by (simp add: n_def)
  have hi: "n div 256 = 256 * a + b" unfolding n using assms(3) by simp
  have "n div 64 = 4 * (256 * a + b) + c div 64"
    using div_mult_self4 [of 64 "4 * (256 * a + b)" c] by (simp add: n)
  moreover have "n div 4096 = 16 * a + b div 16"
    using div_mult2_eq [of n 256 16] div_mult_self4 [of 16 "16 * a" b] by (simp add: hi)
  moreover have "n div 262144 = a div 4"
    using div_mult2_eq [of n 256 1024] div_mult2_eq [of "256 * a + b" 256 4] assms(2) by (simp add: hi)
  ultimately have parts: "n div 2 ^ 6 = 4 * (256 * a + b) + c div 64" "n div 2 ^ 12 = 16 * a + b div 16"
    "n div 2 ^ 18 = a div 4" "n div 2 ^ 0 = n" by simp_all
  have small: "b div 16 < 16" "c div 64 < 4" "a div 4 < 64" using assms(1-3) by simp_all
  show "n div 2 ^ 18 mod 64 * 4 + n div 2 ^ 12 mod 64 div 16 = a"
    unfolding parts cut_digits(1) [OF small(1)] mod_less [OF small(3)] by simp
  show "n div 2 ^ 12 mod 64 mod 16 * 16 + n div 2 ^ 6 mod 64 div 4 = b"
  proof -
    have "(256 * a + b) mod 16 = b mod 16" using mod_mult_self4 [of 16 "16 * a" b] by simp
    then show ?thesis
      unfolding parts cut_digits(2) [OF small(1)] cut_digits(3) [OF small(2)] by simp
  qed
  show "n div 2 ^ 6 mod 64 mod 4 * 64 + n div 2 ^ 0 mod 64 = c"
  proof -
    have "n mod 64 = c mod 64" using mod_mult_self4 [of 64 "4 * (256 * a + b)" c] by (simp add: n)
    then show ?thesis unfolding parts cut_digits(4) [OF small(2)] by simp
  qed
qed

lemma sextet_digit: "b64_value (sextet k n) = unat n div 2 ^ k mod 64" "sextet k n \<noteq> CHR ''=''"
  unfolding sextet_eq using b64_table [of "unat n div 2 ^ k mod 64"] by simp_all

lemma decode_group:
  assumes "unat n = of_char a * 65536 + of_char b * 256 + of_char c"
  shows "b64_value (sextet 18 n) * 4 + b64_value (sextet 12 n) div 16 = of_char a"
    and "b64_value (sextet 12 n) mod 16 * 16 + b64_value (sextet 6 n) div 4 = of_char b"
    and "b64_value (sextet 6 n) mod 4 * 64 + b64_value (sextet 0 n) = of_char c"
proof -
  have small: "(of_char x :: nat) < 256" for x :: char using byte_word_less [of x] by simp
  note digits = digit_arith [OF small small small, of a b c, folded assms]
  show "b64_value (sextet 18 n) * 4 + b64_value (sextet 12 n) div 16 = of_char a"
    unfolding sextet_digit by (rule digits(1))
  show "b64_value (sextet 12 n) mod 16 * 16 + b64_value (sextet 6 n) div 4 = of_char b"
    unfolding sextet_digit by (rule digits(2))
  show "b64_value (sextet 6 n) mod 4 * 64 + b64_value (sextet 0 n) = of_char c"
    unfolding sextet_digit by (rule digits(3))
qed

text \<open>An image attachment is its file: reading the text back gives every byte, and the text is four
  characters for every three bytes begun.\<close>

theorem base64_roundtrip:
  "base64_decode (base64_encode b) = b \<and> length (base64_encode b) = 4 * ((length b + 2) div 3)"
proof (induction b rule: base64_encode.induct)
  case (2 a)
  have "unat (push_bit 16 (byte_word a)) = of_char a * 65536 + of_char (CHR 0x00) * 256 + of_char (CHR 0x00)"
    using group_number [of a "CHR 0x00" "CHR 0x00"] by simp
  from decode_group(1) [OF this] show ?case by (simp add: Let_def)
next
  case (3 a b)
  have "unat (push_bit 16 (byte_word a) OR push_bit 8 (byte_word b))
      = of_char a * 65536 + of_char b * 256 + of_char (CHR 0x00)"
    using group_number [of a b "CHR 0x00"] by simp
  from decode_group(1,2) [OF this] show ?case by (simp add: Let_def sextet_digit(2))
next
  case (4 a b c rest)
  have "length (a # b # c # rest) + 2 = length rest + 2 + 3" by simp
  then have "(length (a # b # c # rest) + 2) div 3 = Suc ((length rest + 2) div 3)"
    by (metis Suc_eq_plus1 div_add_self2 zero_neq_numeral)
  with 4 decode_group [OF group_number, of a b c] show ?case by (simp add: Let_def sextet_digit(2))
qed simp

section \<open>Windows\<close>

lemma read_window_lines:
  assumes "1 \<le> offset" "min (offset - 1) (length (split_on nl txt)) + k < 2 ^ 64"
  shows "read_window offset (Some k) txt = Ok (join [nl] (take k (drop (offset - 1) (split_on nl txt))))"
proof -
  let ?ls = "split_on nl txt"
  have "drop (min (offset - 1) (length ?ls)) (take (min (min (offset - 1) (length ?ls) + k) (length ?ls)) ?ls)
      = take k (drop (offset - 1) ?ls)"
    by (cases "offset - 1 \<le> length ?ls") (simp_all add: drop_take min_def)
  with assms show ?thesis by (simp add: read_window_def Let_def)
qed

text \<open>A limit near the top of \<open>usize\<close> stops the agent: the sum overflows.\<close>

lemma read_window_panics:
  "read_window offset lim txt = Panic \<longleftrightarrow>
     (\<exists>l. lim = Some l \<and> 2 ^ 64 \<le> min (offset - 1) (length (split_on nl txt)) + l)"
  by (auto simp: read_window_def Let_def split: option.splits)

lemma join_append: "a \<noteq> [] \<Longrightarrow> b \<noteq> [] \<Longrightarrow> join sep (a @ b) = join sep a @ sep @ join sep b"
proof (induction a)
  case (Cons x a)
  then show ?case by (cases "a = []") (simp_all add: join_Cons)
qed simp

lemma join_pages:
  assumes "0 < k" "n = 0 \<or> (n - 1) * k < length ls"
  shows "join [nl] (map (\<lambda>i. join [nl] (take k (drop (i * k) ls))) [0..<n]) = join [nl] (take (n * k) ls)"
  using assms(2)
proof (induction n)
  case (Suc n)
  show ?case
  proof (cases "n = 0")
    case False
    let ?pages = "map (\<lambda>i. join [nl] (take k (drop (i * k) ls))) [0..<n]"
    from Suc.prems have "n * k < length ls" by simp
    moreover from this have "(n - 1) * k < length ls"
      using le_less_trans [OF mult_le_mono1 [of "n - 1" n k]] by simp
    ultimately have IH: "join [nl] ?pages = join [nl] (take (n * k) ls)" and rest: "take k (drop (n * k) ls) \<noteq> []"
      using Suc.IH assms(1) by auto
    have "take (Suc n * k) ls = take (n * k) ls @ take k (drop (n * k) ls)"
      using take_add [of "n * k" k ls] by (simp add: add.commute)
    moreover have "take (n * k) ls \<noteq> []" using False assms(1) \<open>n * k < length ls\<close> by auto
    ultimately have "join [nl] (take (Suc n * k) ls)
        = join [nl] ?pages @ [nl] @ join [nl] (take k (drop (n * k) ls))"
      using join_append [of "take (n * k) ls" "take k (drop (n * k) ls)" "[nl]"] rest IH by metis
    moreover have "join [nl] (?pages @ [join [nl] (take k (drop (n * k) ls))])
        = join [nl] ?pages @ [nl] @ join [nl] [join [nl] (take k (drop (n * k) ls))]"
      using False by (intro join_append) auto
    ultimately show ?thesis by simp
  qed simp
qed simp

text \<open>Reading a file page by page gives all of it: the windows of \<open>k\<close> lines that start at lines 1,
  \<open>k + 1\<close>, \<open>2 * k + 1\<close> and so on, until the lines are used up, joined by newlines, are the text.\<close>

theorem read_pages:
  assumes k: "0 < k" "k < 2 ^ 63" and small: "length (split_on nl txt) < 2 ^ 63"
  defines "n \<equiv> (length (split_on nl txt) + k - 1) div k"
  shows "\<exists>pages. length pages = n \<and> join [nl] pages = txt \<and>
    (\<forall>i < n. read_window (i * k + 1) (Some k) txt = Ok (pages ! i))"
proof -
  let ?ls = "split_on nl txt"
  let ?pages = "map (\<lambda>i. join [nl] (take k (drop (i * k) ?ls))) [0..<n]"
  obtain L where L: "length ?ls = Suc L" by (metis length_split_on)
  have n: "(n - 1) * k < length ?ls" "length ?ls \<le> n * k"
  proof -
    have "n * k \<le> length ?ls + k - 1" by (simp add: n_def)
    moreover have "length ?ls + k - 1 < n * k + k"
      using k(1) dividend_less_div_times [of k "length ?ls + k - 1"] by (simp add: n_def)
    ultimately show "(n - 1) * k < length ?ls" "length ?ls \<le> n * k"
      using k(1) by (simp_all add: L diff_mult_distrib)
  qed
  have "join [nl] ?pages = txt"
    using join_pages [OF k(1), of n ?ls] n by simp
  moreover have "read_window (i * k + 1) (Some k) txt = Ok (?pages ! i)" if i: "i < n" for i
    using read_window_lines [of "i * k + 1" "txt" k] k(2) small i by simp
  ultimately show ?thesis by (intro exI [of _ ?pages]) simp
qed

lemma read_pages_witness:
  "\<exists>pages. length pages = 2 \<and> join [nl] pages = [CHR ''a'', nl, CHR ''b'', nl, CHR ''c''] \<and>
    read_window 3 (Some 2) [CHR ''a'', nl, CHR ''b'', nl, CHR ''c''] = Ok (pages ! 1)"
proof -
  let ?t = "[CHR ''a'', nl, CHR ''b'', nl, CHR ''c'']"
  have n: "length (split_on nl ?t) = 3" by simp
  obtain pages where "length pages = (3 + 2 - 1) div (2 :: nat)" "join [nl] pages = ?t"
    and pages: "\<And>i. i < (3 + 2 - 1) div 2 \<Longrightarrow> read_window (i * 2 + 1) (Some 2) ?t = Ok (pages ! i)"
    using read_pages [of 2 ?t] unfolding n by auto
  with pages [of 1] show ?thesis by (intro exI [of _ pages]) simp
qed

text \<open>Within the ceilings the tool shows the window as it is.\<close>

lemma read_output_whole:
  assumes "length (split_on nl w) \<le> DEFAULT_MAX_OUTPUT_LINES" "length w \<le> DEFAULT_MAX_OUTPUT_BYTES"
  shows "joined_text (read_output p offset w) = w"
proof -
  have "\<not> tr_truncated (td_info (truncate_head w limits_default)) \<and> td_text (truncate_head w limits_default) = w"
    using assms join_length [of "split_on nl w" nl]
    by (simp add: truncate_head_def Tools_Truncate.truncate_def limits_default_def Let_def byte_loop.simps kept_size_def)
  then show ?thesis by (simp add: read_output_def joined_text_def Let_def)
qed

end
