(* ===== verification/Tools_Bash.thy ===== *)
theory Tools_Bash
  imports Tools_Files Complex_Main
begin


text \<open>
  Running a shell command (\<open>crates/tabverse-agent-tools/src/tools/bash.rs\<close>). The command is the host's:
  what the poll loop sees of it is a list of looks, and what its pipes held is given with
  whether they ever close. Spilling the full output to a temporary file is a parameter.
\<close>

section \<open>The timeout\<close>

text \<open>A number as the JSON reader makes it.\<close>

datatype f64 = Finite rat | NotFinite

definition MAX_TIMEOUT_SECONDS :: rat where "MAX_TIMEOUT_SECONDS = 600"

definition validate_timeout :: "f64 option \<Rightarrow> string + unit" where
  "validate_timeout timeout = (case timeout of
     None \<Rightarrow> Inr ()
   | Some NotFinite \<Rightarrow> Inl ''invalid timeout: must be a finite positive number of seconds''
   | Some (Finite v) \<Rightarrow>
       (if v \<le> 0 then Inl ''invalid timeout: must be a finite positive number of seconds''
        else if MAX_TIMEOUT_SECONDS < v then Inl ''invalid timeout: maximum is 600 seconds''
        else Inr ()))"

text \<open>\<open>Duration::from_secs_f64\<close> in nanoseconds.\<close>

definition nanoseconds :: "f64 \<Rightarrow> nat" where
  "nanoseconds v = (case v of
     Finite r \<Rightarrow> (let (n, d) = quotient_of r in round_half_even (nat n * 10 ^ 9) (nat d))
   | NotFinite \<Rightarrow> 0)"

section \<open>Watching the command\<close>

datatype wait = Running | Exit "int option" | WaitError string

text \<open>One turn of the loop: the chunks that had arrived, what \<open>try_wait\<close> said, the cancel flag, the
  time since the start.\<close>

record look =
  lk_chunks :: "string list"
  lk_wait :: wait
  lk_cancelled :: bool
  lk_elapsed :: nat

datatype bash_outcome = Exited "int option" | TimedOut nat | Cancelled | Failed string

text \<open>The loop over the looks: what it forwarded, how it ended and whether it killed the command's
  group; none while the command still runs.\<close>

fun poll_loop :: "nat option \<Rightarrow> look list \<Rightarrow> (string list \<times> bash_outcome \<times> bool) option" where
  "poll_loop deadline [] = None"
| "poll_loop deadline (l # ls) =
     (case lk_wait l of
        WaitError e \<Rightarrow> Some (lk_chunks l, Failed e, False)
      | Exit code \<Rightarrow> Some (lk_chunks l, Exited code, False)
      | Running \<Rightarrow>
          (if lk_cancelled l then Some (lk_chunks l, Cancelled, True)
           else case deadline of
             Some d \<Rightarrow>
               (if d \<le> lk_elapsed l then Some (lk_chunks l, TimedOut d, True)
                else map_option (\<lambda>(cs, r). (lk_chunks l @ cs, r)) (poll_loop deadline ls))
           | None \<Rightarrow> map_option (\<lambda>(cs, r). (lk_chunks l @ cs, r)) (poll_loop deadline ls)))"

section \<open>The result\<close>

definition combine_output :: "string \<Rightarrow> string \<Rightarrow> string" where
  "combine_output out err =
     (let combined = utf8_lossy out; errors = utf8_lossy err in
      if errors = [] then combined
      else combined @ (if combined \<noteq> [] \<and> last combined \<noteq> nl then [nl] else []) @ errors)"

definition show_int :: "int \<Rightarrow> string" where
  "show_int i = (if i < 0 then ''-'' @ show_nat (nat (- i)) else show_nat (nat i))"

definition outcome_note :: "bash_outcome \<Rightarrow> string" where
  "outcome_note r = (case r of
     TimedOut d \<Rightarrow> [nl, nl] @ ''[timed out after '' @ show_nat (round_half_even d (10 ^ 9)) @ ''s and was killed]''
   | Exited (Some code) \<Rightarrow> (if code = 0 then [] else [nl, nl] @ ''[exit code '' @ show_int code @ '']'')
   | Exited None \<Rightarrow> [nl, nl] @ ''[terminated by signal]''
   | _ \<Rightarrow> [])"

definition bash_output :: "(string \<Rightarrow> string + string) \<Rightarrow> string \<Rightarrow> bash_outcome \<Rightarrow> string + tool_output" where
  "bash_output spill combined r =
     (let out = truncate_tail combined limits_default; info = td_info out in
      res_bind
        (if tr_truncated info
         then res_bind (spill combined) (\<lambda>path. Inr ([nl, nl] @ ''[truncated: showing last '' @
           show_nat (tr_lines info) @ '' of '' @ show_nat (tr_original_lines info) @ '' lines, '' @
           format_size (length combined) @ ''. Full output: '' @ path @ '']''))
         else Inr [])
        (\<lambda>notice. Inr \<lparr>o_content = [TextBlock (td_text out @ notice @ outcome_note r)],
           o_truncation = Some info, o_location = None\<rparr>))"

text \<open>The command after its start: what it printed to either pipe, the chunks still queued when the
  readers ended, and whether the pipes close once it exited (a child of its own may hold them) or
  was killed with its group.\<close>

record command_run =
  cr_looks :: "look list"
  cr_stdout :: string
  cr_stderr :: string
  cr_queued :: "string list"
  cr_closed_after_exit :: bool
  cr_closed_after_kill :: bool

text \<open>None when the call does not return: the loop goes on, or joining the readers waits for pipes that
  stay open.\<close>

definition bash_run ::
  "(string \<Rightarrow> string + string) \<Rightarrow> f64 option \<Rightarrow> command_run \<Rightarrow> (string list \<times> (string + tool_output)) option" where
  "bash_run spill timeout run =
     (case poll_loop (map_option nanoseconds timeout) (cr_looks run) of
        None \<Rightarrow> None
      | Some (chunks, Failed e, _) \<Rightarrow> Some (map utf8_lossy chunks, Inl e)
      | Some (chunks, r, killed) \<Rightarrow>
          (if (if killed then cr_closed_after_kill run else cr_closed_after_exit run)
           then Some (map utf8_lossy (chunks @ cr_queued run),
             if r = Cancelled then Inl ''command cancelled''
             else bash_output spill (combine_output (cr_stdout run) (cr_stderr run)) r)
           else None))"

record bash_args =
  ba_command :: string
  ba_timeout :: "f64 option"

text \<open>\<open>start\<close> is the host starting the shell in a folder of its own group.\<close>

definition bash_execute ::
  "(json \<Rightarrow> bash_args option) \<Rightarrow> (string \<Rightarrow> string \<Rightarrow> string + command_run) \<Rightarrow> (string \<Rightarrow> string + string) \<Rightarrow>
   'w exec_env \<Rightarrow> json \<Rightarrow> 'w \<Rightarrow> (string list \<times> (string + tool_output)) option \<times> 'w" where
  "bash_execute de start spill env input w =
     (case parse_input ''bash'' de input of
        Inl e \<Rightarrow> (Some ([], Inl e), w)
      | Inr args \<Rightarrow> (case validate_timeout (ba_timeout args) of
          Inl e \<Rightarrow> (Some ([], Inl e), w)
        | Inr _ \<Rightarrow> (case ev_stopped env w of
            (True, w1) \<Rightarrow> (Some ([], Inl ''operation cancelled''), w1)
          | (False, w1) \<Rightarrow> (case start (ev_cwd env) (ba_command args) of
              Inl e \<Rightarrow> (Some ([], Inl ''failed to start `/bin/sh`''), w1)
            | Inr run \<Rightarrow> (bash_run spill (ba_timeout args) run, w1)))))"

section \<open>How a command ends\<close>

text \<open>The look that ends the loop.\<close>

definition ends_at :: "nat option \<Rightarrow> look \<Rightarrow> bash_outcome option" where
  "ends_at deadline l = (case lk_wait l of
     WaitError e \<Rightarrow> Some (Failed e)
   | Exit code \<Rightarrow> Some (Exited code)
   | Running \<Rightarrow> if lk_cancelled l then Some Cancelled
       else (case deadline of Some d \<Rightarrow> if d \<le> lk_elapsed l then Some (TimedOut d) else None | None \<Rightarrow> None))"

lemma poll_loop_spec:
  "poll_loop deadline ls = Some (cs, r, killed) \<longleftrightarrow>
     (\<exists>pre l post. ls = pre @ l # post \<and> (\<forall>p \<in> set pre. ends_at deadline p = None) \<and>
       ends_at deadline l = Some r \<and> cs = concat (map lk_chunks (pre @ [l])) \<and>
       killed = (r = Cancelled \<or> (\<exists>d. r = TimedOut d)))"
proof (induction ls arbitrary: cs)
  case (Cons l ls)
  show ?case
  proof (cases "ends_at deadline l")
    case None
    have step: "poll_loop deadline (l # ls) = map_option (\<lambda>(cs, r). (lk_chunks l @ cs, r)) (poll_loop deadline ls)"
      using None by (auto simp: ends_at_def split: wait.splits if_splits option.splits)
    have "(\<exists>cs'. poll_loop deadline ls = Some (cs', r, killed) \<and> cs = lk_chunks l @ cs') \<longleftrightarrow>
        (\<exists>pre m post. l # ls = pre @ m # post \<and> (\<forall>p \<in> set pre. ends_at deadline p = None) \<and>
          ends_at deadline m = Some r \<and> cs = concat (map lk_chunks (pre @ [m])) \<and>
          killed = (r = Cancelled \<or> (\<exists>d. r = TimedOut d)))" (is "?L \<longleftrightarrow> ?R")
    proof
      assume ?L
      then obtain pre m post where "ls = pre @ m # post" "\<forall>p \<in> set pre. ends_at deadline p = None"
        "ends_at deadline m = Some r" "cs = lk_chunks l @ concat (map lk_chunks (pre @ [m]))"
        "killed = (r = Cancelled \<or> (\<exists>d. r = TimedOut d))"
        unfolding Cons.IH by blast
      with None show ?R by (intro exI [of _ "l # pre"] exI [of _ m] exI [of _ post]) simp
    next
      assume ?R
      then obtain pre m post where pre: "l # ls = pre @ m # post" "\<forall>p \<in> set pre. ends_at deadline p = None"
        "ends_at deadline m = Some r" "cs = concat (map lk_chunks (pre @ [m]))"
        "killed = (r = Cancelled \<or> (\<exists>d. r = TimedOut d))" by blast
      with None obtain pre' where "pre = l # pre'" by (cases pre) auto
      with pre show ?L unfolding Cons.IH by auto
    qed
    then show ?thesis unfolding step by auto
  next
    case (Some r')
    have now: "poll_loop deadline (l # ls) = Some (lk_chunks l, r', r' = Cancelled \<or> (\<exists>d. r' = TimedOut d))"
      using Some by (auto simp: ends_at_def split: wait.splits if_splits option.splits)
    show ?thesis
    proof
      assume "poll_loop deadline (l # ls) = Some (cs, r, killed)"
      with now Some show "\<exists>pre m post. l # ls = pre @ m # post \<and> (\<forall>p \<in> set pre. ends_at deadline p = None) \<and>
          ends_at deadline m = Some r \<and> cs = concat (map lk_chunks (pre @ [m])) \<and>
          killed = (r = Cancelled \<or> (\<exists>d. r = TimedOut d))"
        by (intro exI [of _ "[]"] exI [of _ l] exI [of _ ls]) auto
    next
      assume "\<exists>pre m post. l # ls = pre @ m # post \<and> (\<forall>p \<in> set pre. ends_at deadline p = None) \<and>
          ends_at deadline m = Some r \<and> cs = concat (map lk_chunks (pre @ [m])) \<and>
          killed = (r = Cancelled \<or> (\<exists>d. r = TimedOut d))"
      then obtain pre m post where "l # ls = pre @ m # post" "\<forall>p \<in> set pre. ends_at deadline p = None"
          "ends_at deadline m = Some r" "cs = concat (map lk_chunks (pre @ [m]))"
          "killed = (r = Cancelled \<or> (\<exists>d. r = TimedOut d))" by blast
      with Some now show "poll_loop deadline (l # ls) = Some (cs, r, killed)" by (cases pre) auto
    qed
  qed
qed simp

lemma round_half_even_le:
  assumes "N \<le> k * d" "0 < d"
  shows "round_half_even N d \<le> k"
proof (cases "N div d = k")
  case True
  have "k * d + N mod d = N" using div_mult_mod_eq [of N d] by (simp add: True)
  then have "N mod d = 0" using assms(1) by simp
  with True assms(2) show ?thesis by (simp add: round_half_even_def Let_def)
next
  case False
  have "N div d \<le> k" using assms by (simp add: less_Suc_eq_le [symmetric] div_less_iff_less_mult)
  with False show ?thesis by (simp add: round_half_even_def Let_def)
qed

lemma timeout_bounded:
  assumes "validate_timeout (Some t) = Inr ()"
  shows "nanoseconds t \<le> 600 * 10 ^ 9"
proof -
  from assms obtain v where t: "t = Finite v" "0 < v" "v \<le> 600"
    by (auto simp: validate_timeout_def MAX_TIMEOUT_SECONDS_def split: f64.splits if_splits)
  obtain n d where q: "quotient_of v = (n, d)" by (cases "quotient_of v")
  have d: "0 < d" using quotient_of_denom_pos [OF q] .
  have v: "v = of_int n / of_int d" using quotient_of_div [OF q] .
  with t(3) d have "(of_int n :: rat) \<le> of_int (600 * d)" by (simp add: divide_le_eq)
  then have "n \<le> 600 * d" by (simp only: of_int_le_iff)
  then have "nat n \<le> 600 * nat d" using d by linarith
  then have "nat n * 10 ^ 9 \<le> 600 * 10 ^ 9 * nat d" by simp
  then show ?thesis using d by (simp add: nanoseconds_def t(1) q round_half_even_le)
qed

text \<open>C3: How a command that is waited for ends. With a valid timeout, once some look comes at or after
  the deadline the call's loop is over; it was ended by the first look that saw the command gone,
  the stop or the deadline, in that order of precedence, the command was killed in the last two
  cases and only then, and every chunk that arrived up to that look was forwarded, in order.\<close>

theorem bash_loop_ends:
  assumes valid: "validate_timeout (Some t) = Inr ()"
    and late: "l \<in> set ls" "nanoseconds t \<le> lk_elapsed l"
  shows "\<exists>pre m post r. ls = pre @ m # post \<and>
    poll_loop (Some (nanoseconds t)) ls = Some (concat (map lk_chunks (pre @ [m])), r, r = Cancelled \<or> (\<exists>d. r = TimedOut d)) \<and>
    (\<forall>p \<in> set pre. lk_wait p = Running \<and> \<not> lk_cancelled p \<and> lk_elapsed p < nanoseconds t) \<and>
    (case lk_wait m of WaitError e \<Rightarrow> r = Failed e | Exit code \<Rightarrow> r = Exited code
     | Running \<Rightarrow> r = (if lk_cancelled m then Cancelled else TimedOut (nanoseconds t))) \<and>
    nanoseconds t \<le> 600 * 10 ^ 9"
proof -
  let ?d = "Some (nanoseconds t)"
  have stop: "ends_at ?d p = None \<longleftrightarrow> lk_wait p = Running \<and> \<not> lk_cancelled p \<and> lk_elapsed p < nanoseconds t" for p
    by (auto simp: ends_at_def split: wait.splits)
  have "\<exists>x \<in> set ls. ends_at ?d x \<noteq> None" using late stop by (meson not_le)
  from split_list_first_prop [OF this] obtain pre m post
    where split: "ls = pre @ m # post" "ends_at ?d m \<noteq> None" "\<forall>p \<in> set pre. ends_at ?d p = None"
    by auto
  then obtain r where r: "ends_at ?d m = Some r" by blast
  have "poll_loop ?d ls = Some (concat (map lk_chunks (pre @ [m])), r, r = Cancelled \<or> (\<exists>d. r = TimedOut d))"
    unfolding poll_loop_spec using split r by blast
  moreover have "case lk_wait m of WaitError e \<Rightarrow> r = Failed e | Exit code \<Rightarrow> r = Exited code
     | Running \<Rightarrow> r = (if lk_cancelled m then Cancelled else TimedOut (nanoseconds t))"
    using r by (auto simp: ends_at_def split: wait.splits if_splits)
  moreover have "nanoseconds t \<le> 600 * 10 ^ 9"
    using valid by (rule timeout_bounded)
  moreover have "\<forall>p \<in> set pre. lk_wait p = Running \<and> \<not> lk_cancelled p \<and> lk_elapsed p < nanoseconds t"
    using split(3) by (simp only: stop)
  ultimately show ?thesis using split(1) by (intro exI conjI)
qed

lemma bash_loop_ends_witness:
  "\<exists>r. poll_loop (Some (nanoseconds (Finite 2)))
     [\<lparr>lk_chunks = [''a''], lk_wait = Running, lk_cancelled = False, lk_elapsed = 0\<rparr>,
      \<lparr>lk_chunks = [''b''], lk_wait = Running, lk_cancelled = False, lk_elapsed = 3 * 10 ^ 9\<rparr>] = Some r \<and>
   nanoseconds (Finite 2) \<le> 600 * 10 ^ 9"
proof -
  have v: "validate_timeout (Some (Finite 2)) = Inr ()"
    by (simp add: validate_timeout_def MAX_TIMEOUT_SECONDS_def)
  have "nanoseconds (Finite 2) \<le> 3 * 10 ^ 9" by (simp add: nanoseconds_def round_half_even_def)
  with bash_loop_ends [OF v, of "\<lparr>lk_chunks = [''b''], lk_wait = Running, lk_cancelled = False, lk_elapsed = 3 * 10 ^ 9\<rparr>"
    "[\<lparr>lk_chunks = [''a''], lk_wait = Running, lk_cancelled = False, lk_elapsed = 0\<rparr>,
      \<lparr>lk_chunks = [''b''], lk_wait = Running, lk_cancelled = False, lk_elapsed = 3 * 10 ^ 9\<rparr>]"]
  show ?thesis by auto
qed

text \<open>A command that exits leaves its timeout behind. If the shell is gone while something it started
  holds a pipe open, the call returns neither at the deadline nor on a stop: it does not return at
  all while the pipe is held.\<close>

theorem background_child_hangs:
  assumes looks: "cr_looks run = pre @ m # post" "\<forall>p \<in> set pre. ends_at (map_option nanoseconds t) p = None"
    and exit: "lk_wait m = Exit code" and held: "\<not> cr_closed_after_exit run"
  shows "bash_run spill t run = None"
proof -
  have "ends_at (map_option nanoseconds t) m = Some (Exited code)" using exit by (simp add: ends_at_def)
  with looks have "poll_loop (map_option nanoseconds t) (cr_looks run)
      = Some (concat (map lk_chunks (pre @ [m])), Exited code, False)"
    unfolding poll_loop_spec by blast
  with held show ?thesis by (simp add: bash_run_def)
qed

lemma background_child_hangs_witness:
  "bash_run spill (Some (Finite 1)) \<lparr>cr_looks = [\<lparr>lk_chunks = [], lk_wait = Exit (Some 0), lk_cancelled = True, lk_elapsed = 10 ^ 10\<rparr>],
     cr_stdout = [], cr_stderr = [], cr_queued = [], cr_closed_after_exit = False, cr_closed_after_kill = True\<rparr> = None"
  by (rule background_child_hangs [where pre = "[]" and post = "[]" and code = "Some 0"
      and m = "\<lparr>lk_chunks = [], lk_wait = Exit (Some 0), lk_cancelled = True, lk_elapsed = 10 ^ 10\<rparr>"]) simp_all

text \<open>What the watcher is shown is decoded chunk by chunk, so a character cut by the 4096-byte reads
  is shown as replacement characters although the result holds it.\<close>

lemma cut_character_garbled:
  "utf8_lossy [CHR 0xC3] @ utf8_lossy [CHR 0xA9] \<noteq> utf8_lossy [CHR 0xC3, CHR 0xA9]"
  by code_simp

end
