(* ===== verification/Tools_Search.thy ===== *)
theory Tools_Search
  imports Tools_Files
begin


text \<open>
  Searching for files by name and by content (\<open>crates/tabverse-agent-tools/src/tools/glob.rs\<close>,
  \<open>grep.rs\<close>). The walk over the tree, the glob and the regular expression are crates of their
  own and parameters: a walk is the list of its entries, a pattern a predicate, a search of one
  file the list of its matching lines.
\<close>

section \<open>The walk\<close>

record walk_entry =
  we_path :: string
  we_is_file :: bool
  we_modified :: "int option"   \<comment> \<open>since the epoch\<close>

text \<open>\<open>strip_prefix(root)\<close>, or the path when it is not below.\<close>

definition relative_to :: "string \<Rightarrow> string \<Rightarrow> string" where
  "relative_to root p =
     (if prefix (root @ ''/'') p then drop (length root + 1) p else p)"

record search_ext =
  sx_walk :: "string \<Rightarrow> bool \<Rightarrow> walk_entry option list"
  sx_glob :: "string \<Rightarrow> (string \<Rightarrow> bool) option"
  sx_regex :: "string \<Rightarrow> (string \<Rightarrow> (nat option \<times> string) list) option"

definition wanted :: "string \<Rightarrow> (string \<Rightarrow> bool) \<Rightarrow> walk_entry \<Rightarrow> bool" where
  "wanted root matcher e \<longleftrightarrow> we_is_file e \<and> matcher (relative_to root (we_path e))"

definition search_root :: "'w exec_env \<Rightarrow> string option \<Rightarrow> string" where
  "search_root env p = (case p of Some q \<Rightarrow> resolve_tool_path env q | None \<Rightarrow> ev_cwd env)"

section \<open>Glob\<close>

definition MAX_SCAN :: nat where "MAX_SCAN = 20000"

definition hit_of :: "walk_entry \<Rightarrow> string \<times> int" where
  "hit_of e = (we_path e, case we_modified e of Some t \<Rightarrow> t | None \<Rightarrow> 0)"

fun collect_matches ::
  "'w exec_env \<Rightarrow> string \<Rightarrow> (string \<Rightarrow> bool) \<Rightarrow> nat \<Rightarrow> (string \<times> int) list \<Rightarrow> walk_entry option list \<Rightarrow> 'w \<Rightarrow>
   (string + (string \<times> int) list \<times> bool) \<times> 'w" where
  "collect_matches env root matcher limit hits [] w = (Inr (hits, False), w)"
| "collect_matches env root matcher limit hits (e # es) w =
     (case ev_stopped env w of
        (True, w1) \<Rightarrow> (Inl ''operation cancelled'', w1)
      | (False, w1) \<Rightarrow> (case e of
          None \<Rightarrow> collect_matches env root matcher limit hits es w1
        | Some en \<Rightarrow>
            (if \<not> wanted root matcher en then collect_matches env root matcher limit hits es w1
             else let hits' = hits @ [hit_of en] in
               if limit \<le> length hits' then (Inr (hits', True), w1)
               else collect_matches env root matcher limit hits' es w1)))"

definition newest_first :: "(string \<times> int) list \<Rightarrow> (string \<times> int) list" where
  "newest_first hits = sort_key (\<lambda>h. - snd h) hits"

text \<open>The listing and the notice behind it.\<close>

definition glob_body :: "nat \<Rightarrow> (string \<times> int) list \<Rightarrow> bool \<Rightarrow> string \<times> string" where
  "glob_body scan_limit hits stopped =
     (let total = length hits;
          kept = truncate_head (join [nl] (map fst (take DEFAULT_MAX_OUTPUT_LINES (newest_first hits)))) limits_default;
          shown = tr_lines (td_info kept)
      in (td_text kept,
          if stopped
          then [nl, nl] @ ''[scan stopped after '' @ show_nat scan_limit @ '' matches; showing the '' @
            show_nat shown @ '' most recently modified of those. Narrow the pattern or the path for a complete answer]''
          else if shown < total
          then [nl, nl] @ ''[showing '' @ show_nat shown @ '' of '' @ show_nat total @ '' matches]''
          else []))"

record glob_args =
  ga_pattern :: string
  ga_path :: "string option"
  ga_include_ignored :: bool

definition glob_execute ::
  "(json \<Rightarrow> glob_args option) \<Rightarrow> search_ext \<Rightarrow> nat \<Rightarrow> 'w exec_env \<Rightarrow> json \<Rightarrow> 'w \<Rightarrow> (string + tool_output) \<times> 'w" where
  "glob_execute de ext scan_limit env input w =
     (case parse_input ''glob'' de input of
        Inl e \<Rightarrow> (Inl e, w)
      | Inr args \<Rightarrow> bail_if_cancelled env (\<lambda>w1.
          let root = search_root env (ga_path args) in
          case sx_glob ext (ga_pattern args) of
            None \<Rightarrow> (Inl (''invalid glob pattern: '' @ ga_pattern args), w1)
          | Some matcher \<Rightarrow>
              (case collect_matches env root matcher scan_limit [] (sx_walk ext root (ga_include_ignored args)) w1 of
                 (Inl e, w2) \<Rightarrow> (Inl e, w2)
               | (Inr (hits, stopped), w2) \<Rightarrow>
                   (if hits = []
                    then (Inr (output_text (''No files matching `'' @ ga_pattern args @ ''` under '' @ root)), w2)
                    else let (listing, notice) = glob_body scan_limit hits stopped
                      in (Inr (with_location (location_file (fst (hd (newest_first hits))))
                            (output_text (listing @ notice))), w2)))) w)"

section \<open>Grep\<close>

definition GREP_MAX_LINE_LENGTH :: nat where "GREP_MAX_LINE_LENGTH = 500"

record hit =
  hi_path :: string
  hi_line :: nat
  hi_text :: string

definition clamp_line :: "string \<Rightarrow> string" where
  "clamp_line l =
     (if length (rchars l) \<le> GREP_MAX_LINE_LENGTH then l
      else concat (take GREP_MAX_LINE_LENGTH (rchars l)) @ [CHR 0xE2, CHR 0x80, CHR 0xA6] @ '' [line truncated]'')"

definition trim_end_of :: "char list \<Rightarrow> string \<Rightarrow> string" where
  "trim_end_of cs l = rev (dropWhile (\<lambda>c. c \<in> set cs) (rev l))"

definition match_hit :: "string \<Rightarrow> nat option \<times> string \<Rightarrow> hit" where
  "match_hit p m = \<lparr>hi_path = p, hi_line = (case fst m of Some n \<Rightarrow> n | None \<Rightarrow> 0),
     hi_text = clamp_line (trim_end_of [nl, cr] (utf8_lossy (snd m)))\<rparr>"

text \<open>The sink: it stops the file's search once the cap is reached.\<close>

fun sink_matches :: "nat \<Rightarrow> string \<Rightarrow> hit list \<Rightarrow> (nat option \<times> string) list \<Rightarrow> hit list" where
  "sink_matches cap p hits [] = hits"
| "sink_matches cap p hits (m # ms) =
     (if cap \<le> length hits then hits else sink_matches cap p (hits @ [match_hit p m]) ms)"

fun grep_walk ::
  "'w exec_env \<Rightarrow> string \<Rightarrow> (string \<Rightarrow> bool) \<Rightarrow> (string \<Rightarrow> (nat option \<times> string) list) \<Rightarrow> nat \<Rightarrow>
   hit list \<Rightarrow> walk_entry option list \<Rightarrow> 'w \<Rightarrow> (string + hit list) \<times> 'w" where
  "grep_walk env root filt search cap hits [] w = (Inr hits, w)"
| "grep_walk env root filt search cap hits (e # es) w =
     (case ev_stopped env w of
        (True, w1) \<Rightarrow> (Inl ''operation cancelled'', w1)
      | (False, w1) \<Rightarrow>
          (if cap \<le> length hits then (Inr hits, w1)
           else case e of
             None \<Rightarrow> grep_walk env root filt search cap hits es w1
           | Some en \<Rightarrow>
               (if \<not> wanted root filt en then grep_walk env root filt search cap hits es w1
                else grep_walk env root filt search cap
                  (sink_matches cap (we_path en) hits (search (we_path en))) es w1)))"

definition hit_line :: "hit \<Rightarrow> string" where
  "hit_line h = hi_path h @ '':'' @ show_nat (hi_line h) @ '': '' @ hi_text h"

definition grep_body :: "hit list \<Rightarrow> string \<times> string" where
  "grep_body hits =
     (let kept = truncate_head (join [nl] (map hit_line hits)) limits_default; shown = tr_lines (td_info kept) in
      (td_text kept,
       if shown < length hits
       then [nl, nl] @ ''[showing '' @ show_nat shown @ '' of '' @ show_nat (length hits) @ '' matches; the rest did not fit]''
       else []))"

record grep_args =
  gr_pattern :: string
  gr_path :: "string option"
  gr_glob :: "string option"
  gr_case_insensitive :: bool

definition grep_execute ::
  "(json \<Rightarrow> grep_args option) \<Rightarrow> search_ext \<Rightarrow> 'w exec_env \<Rightarrow> json \<Rightarrow> 'w \<Rightarrow> (string + tool_output) \<times> 'w" where
  "grep_execute de ext env input w =
     (case parse_input ''grep'' de input of
        Inl e \<Rightarrow> (Inl e, w)
      | Inr args \<Rightarrow> bail_if_cancelled env (\<lambda>w1.
          let root = search_root env (gr_path args) in
          case sx_regex ext ((if gr_case_insensitive args then ''(?i)'' else []) @ gr_pattern args) of
            None \<Rightarrow> (Inl (''invalid regular expression: '' @ gr_pattern args), w1)
          | Some search \<Rightarrow>
              (case (case gr_glob args of None \<Rightarrow> Inr (\<lambda>_. True)
                     | Some g \<Rightarrow> (case sx_glob ext g of
                         Some m \<Rightarrow> Inr m | None \<Rightarrow> Inl (''invalid glob pattern: '' @ g))) of
                 Inl e \<Rightarrow> (Inl e, w1)
               | Inr filt \<Rightarrow>
                   (case grep_walk env root filt search DEFAULT_MAX_OUTPUT_LINES [] (sx_walk ext root False) w1 of
                      (Inl e, w2) \<Rightarrow> (Inl e, w2)
                    | (Inr [], w2) \<Rightarrow>
                        (Inr (output_text (''No matches for `'' @ gr_pattern args @ ''` under '' @ root)), w2)
                    | (Inr (h # hs), w2) \<Rightarrow>
                        (let (listing, notice) = grep_body (h # hs)
                         in (Inr (with_location (location_at_line (hi_path h) (hi_line h mod 2 ^ 32))
                              (output_text (listing @ notice))), w2))))) w)"

section \<open>What a search finds\<close>

definition wanted_entries :: "string \<Rightarrow> (string \<Rightarrow> bool) \<Rightarrow> walk_entry option list \<Rightarrow> walk_entry list" where
  "wanted_entries root matcher es = filter (wanted root matcher) (List.map_filter id es)"

lemma wanted_entries_simps [simp]:
  "wanted_entries root matcher [] = []"
  "wanted_entries root matcher (None # es) = wanted_entries root matcher es"
  "wanted_entries root matcher (Some e # es) =
     (if wanted root matcher e then e # wanted_entries root matcher es else wanted_entries root matcher es)"
  by (simp_all add: wanted_entries_def List.map_filter_simps)

lemma collect_matches_spec:
  assumes "collect_matches env root matcher limit hits es w = (Inr (found, stopped), w')" "length hits < limit"
  shows "found = hits @ map hit_of (take (limit - length hits) (wanted_entries root matcher es)) \<and>
    (stopped \<longleftrightarrow> limit - length hits \<le> length (wanted_entries root matcher es))"
  using assms
proof (induction es arbitrary: hits w)
  case (Cons e es)
  obtain w1 where w1: "ev_stopped env w = (False, w1)"
    using Cons.prems(1) by (auto split: prod.splits bool.splits)
  show ?case
  proof (cases "e = None \<or> (\<exists>en. e = Some en \<and> \<not> wanted root matcher en)")
    case True
    with Cons.prems(1) w1 have "collect_matches env root matcher limit hits es w1 = (Inr (found, stopped), w')"
      by auto
    from Cons.IH [OF this Cons.prems(2)] True show ?thesis by auto
  next
    case False
    then obtain en where en: "e = Some en" "wanted root matcher en" by (cases e) auto
    show ?thesis
    proof (cases "limit \<le> Suc (length hits)")
      case True
      then have "limit - length hits = Suc 0" using Cons.prems(2) by simp
      with True Cons.prems(1) w1 en show ?thesis by (auto simp: Let_def)
    next
      case False
      then obtain k where k: "limit - length hits = Suc k" "limit - Suc (length hits) = k"
        by (metis Suc_diff_Suc Cons.prems(2))
      have "collect_matches env root matcher limit (hits @ [hit_of en]) es w1 = (Inr (found, stopped), w')"
        using Cons.prems(1) False w1 en by (simp add: Let_def)
      from Cons.IH [OF this] False en k show ?thesis by simp
    qed
  qed
qed auto

lemma mset_newest_first [simp]: "mset (newest_first hits) = mset hits"
  by (simp add: newest_first_def)

lemma newest_first_sorted: "sorted_wrt (\<lambda>a b. snd b \<le> snd a) (newest_first hits)"
  unfolding newest_first_def using sorted_sort_key [of "\<lambda>h. - snd h" hits]
  by (simp add: sorted_map)

text \<open>When the notice is missing, the list is complete: a glob answer without a notice lists every file
  of the walk that matches, each once, newest first. (A file name has no newline.)\<close>

theorem glob_silence_is_complete:
  assumes scan: "collect_matches env root matcher limit [] (entries :: walk_entry option list) w = (Inr (hits, stopped), w')"
    and silent: "snd (glob_body limit hits stopped) = []"
    and some: "hits \<noteq> []" "0 < limit"
    and names: "\<forall>h \<in> set hits. nl \<notin> set (fst h)"
  shows "\<exists>ordered. fst (glob_body limit hits stopped) = join [nl] (map fst ordered) \<and>
    mset ordered = mset (map hit_of (wanted_entries root matcher entries)) \<and>
    sorted_wrt (\<lambda>a b. snd b \<le> snd a) ordered"
proof -
  let ?files = "take DEFAULT_MAX_OUTPUT_LINES (newest_first hits)"
  let ?listing = "join [nl] (map fst ?files)"
  from silent have open_end: "\<not> stopped"
    and all_shown: "length hits \<le> tr_lines (td_info (truncate_head ?listing limits_default))"
    by (auto simp: glob_body_def Let_def split: if_splits)
  from collect_matches_spec [OF scan] some(2) open_end
  have hits: "hits = map hit_of (wanted_entries root matcher entries)" by simp
  have set: "set (newest_first hits) = set hits" by (metis mset_newest_first set_mset_mset)
  have ne: "?files \<noteq> []"
    using some(1) by (metis DEFAULT_MAX_OUTPUT_LINES_def mset_newest_first mset_zero_iff take_eq_Nil zero_neq_numeral)
  have lines: "split_on nl ?listing = map fst ?files"
    using ne names set by (intro split_on_join) (auto simp: list_all_iff dest!: in_set_takeD)
  obtain n where n: "td_text (truncate_head ?listing limits_default) = join [nl] (keep_n Head n (split_on nl ?listing))"
    "tr_lines (td_info (truncate_head ?listing limits_default)) = n" "n \<le> length (split_on nl ?listing)"
    using truncate_spec [of ?listing limits_default Head] by (auto simp: truncate_head_def)
  have len: "length (newest_first hits) = length hits" by (metis mset_newest_first size_mset)
  from n(2,3) all_shown have "length (newest_first hits) \<le> length ?files" by (simp add: lines len)
  then have whole: "?files = newest_first hits" by simp
  have "keep_n Head n (split_on nl ?listing) = map fst ?files"
    using n(2) all_shown len unfolding lines by simp
  with n(1) have "fst (glob_body limit hits stopped) = join [nl] (map fst (newest_first hits))"
    unfolding whole by (simp add: glob_body_def Let_def whole)
  with hits newest_first_sorted show ?thesis by (metis mset_newest_first)
qed

lemma small_listing:
  assumes "length (split_on nl t) \<le> DEFAULT_MAX_OUTPUT_LINES" "length t \<le> DEFAULT_MAX_OUTPUT_BYTES"
  shows "td_text (truncate_head t limits_default) = t"
    and "tr_lines (td_info (truncate_head t limits_default)) = length (split_on nl t)"
proof -
  have "td_text (truncate_head t limits_default) = t \<and> \<not> tr_truncated (td_info (truncate_head t limits_default))"
    unfolding truncate_head_def using assms
    by (intro truncate_small_unchanged) (simp_all add: limits_default_def)
  then show "td_text (truncate_head t limits_default) = t"
    and "tr_lines (td_info (truncate_head t limits_default)) = length (split_on nl t)"
    using truncate_spec [of t limits_default Head] by (auto simp: truncate_head_def)
qed

lemma glob_silence_is_complete_witness:
  "\<exists>ordered. fst (glob_body 5 [(''a'', 1), (''b'', 2)] False) = join [nl] (map fst ordered) \<and>
     mset ordered = mset [(''a'', 1 :: int), (''b'', 2)] \<and> sorted_wrt (\<lambda>a b. snd b \<le> snd a) ordered"
proof -
  let ?e = "\<lambda>p t. Some \<lparr>we_path = p, we_is_file = True, we_modified = Some t\<rparr>"
  have scan: "collect_matches (local_env ''/'') ''/w'' (\<lambda>_. True) 5 [] [?e ''a'' 1, None, ?e ''b'' 2] (demo_disk [])
      = (Inr ([(''a'', 1), (''b'', 2)], False), demo_disk [])"
    by (simp add: look_at_token_def demo_disk_def hit_of_def wanted_def)
  have order: "newest_first [(''a'', 1), (''b'', 2)] = [(''b'', 2), (''a'', 1)]"
    by (simp add: newest_first_def)
  have silent: "snd (glob_body 5 [(''a'', 1), (''b'', 2)] False) = []"
    using small_listing [of "[CHR ''b'', nl, CHR ''a'']"]
    by (simp add: glob_body_def Let_def order DEFAULT_MAX_OUTPUT_LINES_def DEFAULT_MAX_OUTPUT_BYTES_def)
  have entries: "map hit_of (wanted_entries ''/w'' (\<lambda>_. True) [?e ''a'' 1, None, ?e ''b'' 2]) = [(''a'', 1), (''b'', 2)]"
    by (simp add: wanted_def hit_of_def)
  have "[(''a'', 1), (''b'', 2)] \<noteq> []" "0 < (5 :: nat)" "\<forall>h \<in> set [(''a'', 1 :: int), (''b'', 2)]. nl \<notin> set (fst h)"
    by simp_all
  from glob_silence_is_complete [OF scan silent this, unfolded entries] show ?thesis .
qed

text \<open>Grep: the hits are the first ones of the walk up to the cap.\<close>

definition all_hits :: "string \<Rightarrow> (string \<Rightarrow> bool) \<Rightarrow> (string \<Rightarrow> (nat option \<times> string) list) \<Rightarrow>
    walk_entry option list \<Rightarrow> hit list" where
  "all_hits root filt search es =
     concat (map (\<lambda>e. map (match_hit (we_path e)) (search (we_path e))) (wanted_entries root filt es))"

lemma sink_matches_eq:
  "length hits \<le> cap \<Longrightarrow> sink_matches cap p hits ms = hits @ take (cap - length hits) (map (match_hit p) ms)"
proof (induction ms arbitrary: hits)
  case (Cons m ms)
  show ?case
  proof (cases "cap \<le> length hits")
    case False
    then have "cap - length hits = Suc (cap - Suc (length hits))" by simp
    with Cons False show ?thesis by simp
  qed (use Cons.prems in simp)
qed simp

lemma grep_walk_spec:
  assumes "grep_walk env root filt search cap hits es w = (Inr found, w')" "length hits \<le> cap"
  shows "found = hits @ take (cap - length hits) (all_hits root filt search es)"
  using assms
proof (induction es arbitrary: hits w)
  case (Cons e es)
  obtain w1 where w1: "ev_stopped env w = (False, w1)"
    using Cons.prems(1) by (auto split: prod.splits bool.splits)
  show ?case
  proof (cases "cap \<le> length hits")
    case True
    with Cons.prems w1 show ?thesis by simp
  next
    case open_end: False
    show ?thesis
    proof (cases "e = None \<or> (\<exists>en. e = Some en \<and> \<not> wanted root filt en)")
      case True
      with Cons.prems(1) w1 open_end have "grep_walk env root filt search cap hits es w1 = (Inr found, w')"
        by auto
      from Cons.IH [OF this Cons.prems(2)] True show ?thesis by (auto simp: all_hits_def)
    next
      case False
      then obtain en where en: "e = Some en" "wanted root filt en" by (cases e) auto
      let ?ms = "map (match_hit (we_path en)) (search (we_path en))"
      have sink: "sink_matches cap (we_path en) hits (search (we_path en)) = hits @ take (cap - length hits) ?ms"
        by (rule sink_matches_eq [OF Cons.prems(2)])
      have "grep_walk env root filt search cap (hits @ take (cap - length hits) ?ms) es w1 = (Inr found, w')"
        using Cons.prems(1) w1 open_end en by (simp add: sink)
      from Cons.IH [OF this] en open_end show ?thesis
        by (cases "length (search (we_path en)) \<le> cap - length hits") (simp_all add: all_hits_def diff_diff_eq)
    qed
  qed
qed (simp add: all_hits_def)

text \<open>For grep a missing notice means nothing: when there are more matches than the cap and the first
  ones fit the answer, they are listed without any notice that others were left out.\<close>

theorem grep_cap_unreported:
  assumes walk: "grep_walk env root filt search DEFAULT_MAX_OUTPUT_LINES [] entries w = (Inr hits, w')"
    and more: "DEFAULT_MAX_OUTPUT_LINES < length (all_hits root filt search entries)"
    and lines: "\<forall>h \<in> set hits. nl \<notin> set (hit_line h)"
    and fits: "length (join [nl] (map hit_line hits)) \<le> DEFAULT_MAX_OUTPUT_BYTES"
  shows "grep_body hits = (join [nl] (map hit_line hits), []) \<and>
    hits = take DEFAULT_MAX_OUTPUT_LINES (all_hits root filt search entries) \<and>
    length hits < length (all_hits root filt search entries)"
proof -
  let ?listing = "join [nl] (map hit_line hits)"
  from grep_walk_spec [OF walk] have hits: "hits = take DEFAULT_MAX_OUTPUT_LINES (all_hits root filt search entries)"
    by simp
  then have len: "length hits = DEFAULT_MAX_OUTPUT_LINES" using more by simp
  then have "map hit_line hits \<noteq> []" by (auto simp: DEFAULT_MAX_OUTPUT_LINES_def)
  then have split: "split_on nl ?listing = map hit_line hits"
    using lines by (intro split_on_join) (auto simp: list_all_iff)
  have "td_text (truncate_head ?listing limits_default) = ?listing"
    "tr_lines (td_info (truncate_head ?listing limits_default)) = length hits"
    using small_listing [of ?listing] fits by (simp_all add: split len)
  then have "grep_body hits = (?listing, [])" by (simp add: grep_body_def Let_def)
  with hits len more show ?thesis by simp
qed

lemma join_replicate_length: "length (join [nl] (replicate n l)) \<le> n * (length l + 1)"
proof (cases n)
  case (Suc k)
  then have "replicate n l \<noteq> []" by simp
  from join_length [OF this, of nl] show ?thesis by (simp add: sum_list_replicate)
qed simp

lemma grep_cap_unreported_witness:
  "snd (grep_body (replicate DEFAULT_MAX_OUTPUT_LINES \<lparr>hi_path = ''f'', hi_line = 1, hi_text = ''x''\<rparr>)) = [] \<and>
   DEFAULT_MAX_OUTPUT_LINES < length (all_hits ''/w'' (\<lambda>_. True) (\<lambda>_. replicate 2001 (Some 1, ''x''))
     [Some \<lparr>we_path = ''f'', we_is_file = True, we_modified = None\<rparr>])"
proof -
  let ?h = "\<lparr>hi_path = ''f'', hi_line = 1, hi_text = ''x''\<rparr>"
  let ?hs = "replicate DEFAULT_MAX_OUTPUT_LINES ?h"
  let ?es = "[Some \<lparr>we_path = ''f'', we_is_file = True, we_modified = None\<rparr>]"
  have one: "match_hit ''f'' (Some 1, ''x'') = ?h" "hit_line ?h = ''f:1: x''"
    by code_simp+
  note one = this this [simplified]
  have all: "all_hits ''/w'' (\<lambda>_. True) (\<lambda>_. replicate 2001 (Some 1, ''x'')) ?es = replicate 2001 ?h"
    by (simp add: all_hits_def wanted_def one)
  have more: "DEFAULT_MAX_OUTPUT_LINES < length (all_hits ''/w'' (\<lambda>_. True) (\<lambda>_. replicate 2001 (Some 1, ''x'')) ?es)"
    unfolding all by (simp add: DEFAULT_MAX_OUTPUT_LINES_def)
  have walk: "grep_walk (local_env ''/'') ''/w'' (\<lambda>_. True) (\<lambda>_. replicate 2001 (Some 1, ''x''))
      DEFAULT_MAX_OUTPUT_LINES [] ?es (demo_disk []) = (Inr ?hs, demo_disk [])"
    using sink_matches_eq [of "[]" DEFAULT_MAX_OUTPUT_LINES "''f''" "replicate 2001 (Some 1, ''x'')"]
    by (simp add: look_at_token_def demo_disk_def wanted_def one DEFAULT_MAX_OUTPUT_LINES_def)
  have "length (join [nl] (replicate DEFAULT_MAX_OUTPUT_LINES ''f:1: x'')) \<le> DEFAULT_MAX_OUTPUT_BYTES"
    using join_replicate_length [of DEFAULT_MAX_OUTPUT_LINES "''f:1: x''"]
    by (simp add: DEFAULT_MAX_OUTPUT_LINES_def DEFAULT_MAX_OUTPUT_BYTES_def)
  then have fits: "length (join [nl] (map hit_line ?hs)) \<le> DEFAULT_MAX_OUTPUT_BYTES"
    by (simp add: one)
  have "\<forall>h \<in> set ?hs. nl \<notin> set (hit_line h)" by (simp add: one)
  from grep_cap_unreported [OF walk more this fits, THEN conjunct1] more show ?thesis by (metis snd_conv)
qed

text \<open>A scan that meets its limit with the last match says it was stopped, though nothing was left.\<close>

lemma glob_exact_limit_reported:
  "collect_matches (local_env ''/'') ''/w'' (\<lambda>_. True) 1 []
     [Some \<lparr>we_path = ''a'', we_is_file = True, we_modified = Some 1\<rparr>] (demo_disk [])
   = (Inr ([(''a'', 1)], True), demo_disk [])"
  by (simp add: look_at_token_def demo_disk_def hit_of_def wanted_def)

end
