(* ===== verification/State_Store.thy ===== *)
theory State_Store
  imports Runtime_Store "HOL-Library.Multiset"
begin


text \<open>
  The desktop's durable store (\<open>crates/tabverse-state/src/lib.rs\<close>): tab state by scope, settings,
  content preferences and sealed credentials. A table is the list of its rows, each statement the
  list operation it denotes. SQLite's own faults are arguments, and a statement or transaction that
  fails changes nothing. Whether a text is JSON is the parser's to say.
\<close>

section \<open>Tables\<close>

type_synonym 'v table = "(string \<times> 'v \<times> int) list"

text \<open>\<open>INSERT ... ON CONFLICT DO UPDATE\<close>, \<open>DELETE\<close> and \<open>SELECT\<close> by primary key, and the rows in key order.\<close>

fun tb_upsert :: "string \<Rightarrow> 'v \<Rightarrow> int \<Rightarrow> 'v table \<Rightarrow> 'v table" where
  "tb_upsert k v now [] = [(k, v, now)]"
| "tb_upsert k v now ((k', v', t') # rows) =
     (if k' = k then (k, v, now) # rows else (k', v', t') # tb_upsert k v now rows)"

definition tb_delete :: "string \<Rightarrow> 'v table \<Rightarrow> 'v table" where
  "tb_delete k rows = filter (\<lambda>r. fst r \<noteq> k) rows"

definition tb_find :: "'v table \<Rightarrow> string \<Rightarrow> 'v option" where
  "tb_find rows k = map_option fst (map_of rows k)"

definition tb_ordered :: "'v table \<Rightarrow> 'v table" where
  "tb_ordered rows = sort_key fst rows"

definition tb_ok :: "'v table \<Rightarrow> bool" where
  "tb_ok rows \<longleftrightarrow> distinct (map fst rows)"

record app_db =
  ad_scopes :: "string table"
  ad_vault :: "bytes table"
  ad_settings :: "string table"
  ad_prefs :: "string table"

definition empty_app_db :: app_db where
  "empty_app_db = \<lparr>ad_scopes = [], ad_vault = [], ad_settings = [], ad_prefs = []\<rparr>"

section \<open>Checks\<close>

definition MAX_STATE_BYTES :: nat where "MAX_STATE_BYTES = 8 * 1024 * 1024"
definition MAX_SCOPE_LEN :: nat where "MAX_SCOPE_LEN = 120"

datatype state_error =
    ScopeLength | ScopeChars string | BadIdentifier string | NotJson
  | ScopeTooLarge string nat | EmptyCiphertext | Sqlite string

definition scope_char :: "char \<Rightarrow> bool" where
  "scope_char c \<longleftrightarrow>
     (let n = (of_char c :: nat) in
      48 \<le> n \<and> n \<le> 57 \<or> 65 \<le> n \<and> n \<le> 90 \<or> 97 \<le> n \<and> n \<le> 122 \<or> c \<in> {CHR '':'', CHR ''_'', CHR ''-''})"

definition validate_scope :: "string \<Rightarrow> state_error + unit" where
  "validate_scope scope =
     (if scope = [] \<or> MAX_SCOPE_LEN < length scope then Inl ScopeLength
      else if \<not> list_all scope_char scope then Inl (ScopeChars scope)
      else Inr ())"

definition validate_identifier :: "string \<Rightarrow> string \<Rightarrow> state_error + unit" where
  "validate_identifier label v = (if trim v = [] \<or> 255 < length v then Inl (BadIdentifier label) else Inr ())"

definition validate_json :: "(string \<Rightarrow> bool) \<Rightarrow> string \<Rightarrow> state_error + unit" where
  "validate_json is_json t = (if is_json t then Inr () else Inl NotJson)"

definition validate_save :: "(string \<Rightarrow> bool) \<Rightarrow> string \<times> string \<Rightarrow> state_error + unit" where
  "validate_save is_json = (\<lambda>(scope, t).
     res_bind (validate_scope scope) (\<lambda>_.
     res_bind (validate_json is_json t) (\<lambda>_.
       if MAX_STATE_BYTES < length t then Inl (ScopeTooLarge scope (length t)) else Inr ())))"

fun validate_all :: "('a \<Rightarrow> state_error + unit) \<Rightarrow> 'a list \<Rightarrow> state_error + unit" where
  "validate_all f [] = Inr ()"
| "validate_all f (x # xs) = res_bind (f x) (\<lambda>_. validate_all f xs)"

section \<open>Operations\<close>

text \<open>A checked statement: the check, then the connection, which may fail, then the change or the
  answer.\<close>

definition stmt :: "string option \<Rightarrow> state_error + unit \<Rightarrow> (app_db \<Rightarrow> app_db) \<Rightarrow> app_db \<Rightarrow> (state_error + unit) \<times> app_db" where
  "stmt fault check change db = (case check of
     Inl e \<Rightarrow> (Inl e, db)
   | Inr _ \<Rightarrow> (case fault of Some e \<Rightarrow> (Inl (Sqlite e), db) | None \<Rightarrow> (Inr (), change db)))"

definition query :: "string option \<Rightarrow> state_error + unit \<Rightarrow> (app_db \<Rightarrow> 'a) \<Rightarrow> app_db \<Rightarrow> state_error + 'a" where
  "query fault check answer db =
     res_bind check (\<lambda>_. case fault of Some e \<Rightarrow> Inl (Sqlite e) | None \<Rightarrow> Inr (answer db))"

definition save_scope :: "string option \<Rightarrow> (string \<Rightarrow> bool) \<Rightarrow> int \<Rightarrow> string \<Rightarrow> string \<Rightarrow> app_db \<Rightarrow> (state_error + unit) \<times> app_db" where
  "save_scope fault is_json now scope t =
     stmt fault (validate_save is_json (scope, t)) (\<lambda>db. db\<lparr>ad_scopes := tb_upsert scope t now (ad_scopes db)\<rparr>)"

definition load_scope :: "string option \<Rightarrow> string \<Rightarrow> app_db \<Rightarrow> state_error + string option" where
  "load_scope fault scope = query fault (validate_scope scope) (\<lambda>db. tb_find (ad_scopes db) scope)"

definition delete_scope :: "string option \<Rightarrow> string \<Rightarrow> app_db \<Rightarrow> (state_error + unit) \<times> app_db" where
  "delete_scope fault scope =
     stmt fault (validate_scope scope) (\<lambda>db. db\<lparr>ad_scopes := tb_delete scope (ad_scopes db)\<rparr>)"

definition list_scopes :: "string option \<Rightarrow> app_db \<Rightarrow> state_error + string list" where
  "list_scopes fault = query fault (Inr ()) (\<lambda>db. map fst (tb_ordered (ad_scopes db)))"

text \<open>The transaction: every statement of it may fail, which takes all of them back. A fault is the
  number of the statement it strikes, the commit being the last, and SQLite's word.\<close>

fun run_statements :: "(nat \<times> string) option \<Rightarrow> nat \<Rightarrow> (app_db \<Rightarrow> app_db) list \<Rightarrow> app_db \<Rightarrow> state_error + app_db" where
  "run_statements fault i [] db =
     (case fault of Some (j, e) \<Rightarrow> if j = i then Inl (Sqlite e) else Inr db | None \<Rightarrow> Inr db)"
| "run_statements fault i (s # ss) db =
     (case fault of
        Some (j, e) \<Rightarrow> if j = i then Inl (Sqlite e) else run_statements fault (i + 1) ss (s db)
      | None \<Rightarrow> run_statements fault (i + 1) ss (s db))"

definition transaction :: "(nat \<times> string) option \<Rightarrow> (app_db \<Rightarrow> app_db) list \<Rightarrow> app_db \<Rightarrow> (state_error + unit) \<times> app_db" where
  "transaction fault ss db = (case run_statements fault 0 ss db of
     Inl e \<Rightarrow> (Inl e, db) | Inr db' \<Rightarrow> (Inr (), db'))"

definition save_row :: "int \<Rightarrow> string \<times> string \<Rightarrow> app_db \<Rightarrow> app_db" where
  "save_row now = (\<lambda>(scope, t) db. db\<lparr>ad_scopes := tb_upsert scope t now (ad_scopes db)\<rparr>)"

definition delete_row :: "string \<Rightarrow> app_db \<Rightarrow> app_db" where
  "delete_row scope db = db\<lparr>ad_scopes := tb_delete scope (ad_scopes db)\<rparr>"

definition change_scopes ::
  "(nat \<times> string) option \<Rightarrow> (string \<Rightarrow> bool) \<Rightarrow> int \<Rightarrow> (string \<times> string) list \<Rightarrow> string list \<Rightarrow> app_db \<Rightarrow>
   (state_error + unit) \<times> app_db" where
  "change_scopes fault is_json now saves deletes db =
     (case res_bind (validate_all (validate_save is_json) saves) (\<lambda>_. validate_all validate_scope deletes) of
        Inl e \<Rightarrow> (Inl e, db)
      | Inr _ \<Rightarrow> transaction fault (map (save_row now) saves @ map delete_row deletes) db)"

definition load_credential_vault :: "string option \<Rightarrow> string \<Rightarrow> app_db \<Rightarrow> state_error + bytes option" where
  "load_credential_vault fault i =
     query fault (validate_identifier ''credential vault'' i) (\<lambda>db. tb_find (ad_vault db) i)"

definition check_cipher :: "string \<Rightarrow> bytes list \<Rightarrow> state_error + unit" where
  "check_cipher i cs = res_bind (validate_identifier ''credential vault'' i) (\<lambda>_.
     if [] \<in> set cs then Inl EmptyCiphertext else Inr ())"

definition save_credential_vault :: "string option \<Rightarrow> int \<Rightarrow> string \<Rightarrow> bytes \<Rightarrow> app_db \<Rightarrow> (state_error + unit) \<times> app_db" where
  "save_credential_vault fault now i c =
     stmt fault (check_cipher i [c]) (\<lambda>db. db\<lparr>ad_vault := tb_upsert i c now (ad_vault db)\<rparr>)"

text \<open>\<open>UPDATE ... WHERE id AND ciphertext\<close>: whether a row changed.\<close>

definition compare_exchange_credential_vault ::
  "string option \<Rightarrow> int \<Rightarrow> string \<Rightarrow> bytes \<Rightarrow> bytes \<Rightarrow> app_db \<Rightarrow> (state_error + bool) \<times> app_db" where
  "compare_exchange_credential_vault fault now i expected replacement db =
     (case check_cipher i [expected, replacement] of
        Inl e \<Rightarrow> (Inl e, db)
      | Inr _ \<Rightarrow> (case fault of Some e \<Rightarrow> (Inl (Sqlite e), db)
        | None \<Rightarrow>
            (let hit = (\<lambda>r. fst r = i \<and> fst (snd r) = expected);
                 rows = map (\<lambda>r. if hit r then (i, replacement, now) else r) (ad_vault db)
             in (Inr (length (filter hit (ad_vault db)) = 1), db\<lparr>ad_vault := rows\<rparr>))))"

definition load_setting :: "string option \<Rightarrow> string \<Rightarrow> app_db \<Rightarrow> state_error + string option" where
  "load_setting fault k = query fault (validate_identifier ''setting'' k) (\<lambda>db. tb_find (ad_settings db) k)"

definition save_setting :: "string option \<Rightarrow> (string \<Rightarrow> bool) \<Rightarrow> int \<Rightarrow> string \<Rightarrow> string \<Rightarrow> app_db \<Rightarrow> (state_error + unit) \<times> app_db" where
  "save_setting fault is_json now k t =
     stmt fault (res_bind (validate_identifier ''setting'' k) (\<lambda>_. validate_json is_json t))
       (\<lambda>db. db\<lparr>ad_settings := tb_upsert k t now (ad_settings db)\<rparr>)"

definition delete_setting :: "string option \<Rightarrow> string \<Rightarrow> app_db \<Rightarrow> (state_error + unit) \<times> app_db" where
  "delete_setting fault k =
     stmt fault (validate_identifier ''setting'' k) (\<lambda>db. db\<lparr>ad_settings := tb_delete k (ad_settings db)\<rparr>)"

definition setting_rows :: "app_db \<Rightarrow> (string \<times> string) list" where
  "setting_rows db = map (\<lambda>r. (fst r, fst (snd r))) (tb_ordered (ad_settings db))"

definition load_settings :: "string option \<Rightarrow> app_db \<Rightarrow> state_error + (string \<times> string) list" where
  "load_settings fault = query fault (Inr ()) setting_rows"

definition load_content_preference :: "string option \<Rightarrow> string \<Rightarrow> app_db \<Rightarrow> state_error + string option" where
  "load_content_preference fault ty =
     query fault (validate_identifier ''content type'' ty) (\<lambda>db. tb_find (ad_prefs db) ty)"

definition save_content_preference :: "string option \<Rightarrow> int \<Rightarrow> string \<Rightarrow> string \<Rightarrow> app_db \<Rightarrow> (state_error + unit) \<times> app_db" where
  "save_content_preference fault now ty handler =
     stmt fault (res_bind (validate_identifier ''content type'' ty) (\<lambda>_. validate_identifier ''content handler'' handler))
       (\<lambda>db. db\<lparr>ad_prefs := tb_upsert ty handler now (ad_prefs db)\<rparr>)"

definition delete_content_preference :: "string option \<Rightarrow> string \<Rightarrow> app_db \<Rightarrow> (state_error + unit) \<times> app_db" where
  "delete_content_preference fault ty =
     stmt fault (validate_identifier ''content type'' ty) (\<lambda>db. db\<lparr>ad_prefs := tb_delete ty (ad_prefs db)\<rparr>)"

definition factory_reset :: "(nat \<times> string) option \<Rightarrow> app_db \<Rightarrow> (state_error + unit) \<times> app_db" where
  "factory_reset fault = transaction fault [\<lambda>db. db\<lparr>ad_settings := []\<rparr>, \<lambda>db. db\<lparr>ad_prefs := []\<rparr>]"

section \<open>Tables as maps\<close>

lemma tb_find_upsert [simp]: "tb_find (tb_upsert k v now rows) = (tb_find rows)(k \<mapsto> v)"
  by (induction k v now rows rule: tb_upsert.induct) (auto simp: tb_find_def fun_eq_iff)

lemma tb_find_delete [simp]: "tb_find (tb_delete k rows) = (tb_find rows)(k := None)"
  by (induction rows) (auto simp: tb_find_def tb_delete_def fun_eq_iff)

lemma keys_upsert: "set (map fst (tb_upsert k v now rows)) = insert k (set (map fst rows))"
  by (induction k v now rows rule: tb_upsert.induct) auto

lemma tb_ok_upsert [simp]: "tb_ok rows \<Longrightarrow> tb_ok (tb_upsert k v now rows)"
proof (induction k v now rows rule: tb_upsert.induct)
  case (2 k v now k' v' t' rows)
  then show ?case using keys_upsert [of k v now rows] by (auto simp: tb_ok_def image_iff)
qed (simp add: tb_ok_def)

lemma tb_ok_delete [simp]: "tb_ok rows \<Longrightarrow> tb_ok (tb_delete k rows)"
  unfolding tb_ok_def tb_delete_def by (rule distinct_map_filter)

lemma tb_find_None: "tb_find rows k = None \<longleftrightarrow> k \<notin> fst ` set rows"
  by (simp add: tb_find_def map_of_eq_None_iff)

lemma map_of_pairs: "map_of (map (\<lambda>r. (fst r, fst (snd r))) rows) k = tb_find rows k"
  by (induction rows) (auto simp: tb_find_def)

lemma map_of_ordered: "tb_ok rows \<Longrightarrow> map_of (tb_ordered rows) = map_of rows"
  unfolding tb_ok_def tb_ordered_def by (intro map_of_eqI) (auto simp: map_of_eq_Some_iff distinct_map)

definition app_db_ok :: "app_db \<Rightarrow> bool" where
  "app_db_ok db \<longleftrightarrow> tb_ok (ad_scopes db) \<and> tb_ok (ad_vault db) \<and> tb_ok (ad_settings db) \<and> tb_ok (ad_prefs db)"

section \<open>Related changes land together\<close>

lemma stmt_cases: "stmt fault check change db = (r, db') \<Longrightarrow>
    (r = Inr () \<and> db' = change db \<and> check = Inr () \<and> fault = None) \<or> ((\<exists>e. r = Inl e) \<and> db' = db)"
  by (auto simp: stmt_def split: sum.splits option.splits)

lemma run_statements_Inr: "run_statements fault i ss db = Inr db' \<Longrightarrow> db' = fold (\<lambda>s. s) ss db"
  by (induction fault i ss db rule: run_statements.induct) (auto split: option.splits prod.splits if_splits)

lemma transaction_cases: "transaction fault ss db = (r, db') \<Longrightarrow>
    (r = Inr () \<and> db' = fold (\<lambda>s. s) ss db) \<or> ((\<exists>e. r = Inl e) \<and> db' = db)"
  by (auto simp: transaction_def split: sum.splits dest: run_statements_Inr)

lemma fold_saves: "tb_find (ad_scopes (fold (\<lambda>s. s) (map (save_row now) saves) db)) =
    tb_find (ad_scopes db) ++ map_of (rev saves)"
  by (induction saves arbitrary: db) (auto simp: save_row_def map_add_def fun_eq_iff split: option.splits prod.splits)

lemma fold_deletes: "tb_find (ad_scopes (fold (\<lambda>s. s) (map delete_row deletes) db)) =
    tb_find (ad_scopes db) |` (- set deletes)"
  by (induction deletes arbitrary: db) (auto simp: delete_row_def restrict_map_def fun_eq_iff)

lemma fold_rows_rest:
  "ad_vault (fold (\<lambda>s. s) (map (save_row now) saves @ map delete_row deletes) db) = ad_vault db"
  "ad_settings (fold (\<lambda>s. s) (map (save_row now) saves @ map delete_row deletes) db) = ad_settings db"
  "ad_prefs (fold (\<lambda>s. s) (map (save_row now) saves @ map delete_row deletes) db) = ad_prefs db"
proof -
  have del: "ad_vault (fold (\<lambda>s. s) (map delete_row deletes) db) = ad_vault db \<and>
      ad_settings (fold (\<lambda>s. s) (map delete_row deletes) db) = ad_settings db \<and>
      ad_prefs (fold (\<lambda>s. s) (map delete_row deletes) db) = ad_prefs db" for db
    by (induction deletes arbitrary: db) (auto simp: delete_row_def)
  have sav: "ad_vault (fold (\<lambda>s. s) (map (save_row now) saves) db) = ad_vault db \<and>
      ad_settings (fold (\<lambda>s. s) (map (save_row now) saves) db) = ad_settings db \<and>
      ad_prefs (fold (\<lambda>s. s) (map (save_row now) saves) db) = ad_prefs db" for db
    by (induction saves arbitrary: db) (auto simp: save_row_def)
  show "ad_vault (fold (\<lambda>s. s) (map (save_row now) saves @ map delete_row deletes) db) = ad_vault db"
    "ad_settings (fold (\<lambda>s. s) (map (save_row now) saves @ map delete_row deletes) db) = ad_settings db"
    "ad_prefs (fold (\<lambda>s. s) (map (save_row now) saves @ map delete_row deletes) db) = ad_prefs db"
    using del sav by simp_all
qed

lemma validate_all_iff: "validate_all f xs = Inr () \<longleftrightarrow> (\<forall>x \<in> set xs. f x = Inr ())"
  by (induction xs) (auto simp: res_bind_def split: sum.splits)

text \<open>C24: Related changes of tab state land together or not at all. Whatever statement or the commit
  fails, a refused change leaves the database as it was; an accepted one had only valid scopes and
  texts, and afterwards each scope holds nothing if it is among the deleted, else its last saved
  text, else what it held, and no other table changed.\<close>

theorem change_scopes_atomic:
  assumes "change_scopes fault is_json now saves deletes db = (r, db')"
  shows "(r \<noteq> Inr () \<and> db' = db) \<or>
    (r = Inr () \<and> (\<forall>x \<in> set saves. validate_save is_json x = Inr ()) \<and> (\<forall>s \<in> set deletes. validate_scope s = Inr ()) \<and>
     (\<forall>s. tb_find (ad_scopes db') s =
        (if s \<in> set deletes then None
         else case map_of (rev saves) s of Some t \<Rightarrow> Some t | None \<Rightarrow> tb_find (ad_scopes db) s)) \<and>
     ad_vault db' = ad_vault db \<and> ad_settings db' = ad_settings db \<and> ad_prefs db' = ad_prefs db)"
proof (cases "res_bind (validate_all (validate_save is_json) saves) (\<lambda>_. validate_all validate_scope deletes)")
  case (Inl e)
  with assms show ?thesis by (auto simp: change_scopes_def)
next
  case (Inr u)
  then have valid: "\<forall>x \<in> set saves. validate_save is_json x = Inr ()" "\<forall>s \<in> set deletes. validate_scope s = Inr ()"
    by (auto simp: res_bind_Inr_iff simp flip: validate_all_iff)
  from assms Inr have "transaction fault (map (save_row now) saves @ map delete_row deletes) db = (r, db')"
    by (simp add: change_scopes_def)
  from transaction_cases [OF this] show ?thesis
  proof
    assume committed: "r = Inr () \<and> db' = fold (\<lambda>s. s) (map (save_row now) saves @ map delete_row deletes) db"
    then have "tb_find (ad_scopes db') = (tb_find (ad_scopes db) ++ map_of (rev saves)) |` (- set deletes)"
      by (simp add: fold_deletes fold_saves)
    then have "tb_find (ad_scopes db') s = (if s \<in> set deletes then None
         else case map_of (rev saves) s of Some t \<Rightarrow> Some t | None \<Rightarrow> tb_find (ad_scopes db) s)" for s
      by (simp add: restrict_map_def map_add_def)
    with committed valid fold_rows_rest show ?thesis by simp
  qed auto
qed

lemma change_scopes_atomic_witness:
  "snd (change_scopes (Some (1, ''disk full'')) (\<lambda>_. True) 7 [(''a'', ''1'')] [''b''] empty_app_db) = empty_app_db \<and>
   tb_find (ad_scopes (snd (change_scopes None (\<lambda>_. True) 7 [(''a'', ''1'')] [''b''] empty_app_db))) ''a'' = Some ''1''"
proof -
  let ?bad = "change_scopes (Some (1, ''disk full'')) (\<lambda>_. True) 7 [(''a'', ''1'')] [''b''] empty_app_db"
  let ?good = "change_scopes None (\<lambda>_. True) 7 [(''a'', ''1'')] [''b''] empty_app_db"
  have ok: "validate_save (\<lambda>_. True) (''a'', ''1'') = Inr ()" "validate_scope ''b'' = Inr ()"
    by (simp_all add: validate_save_def validate_scope_def validate_json_def scope_char_def MAX_SCOPE_LEN_def
        MAX_STATE_BYTES_def Let_def)
  then have "fst ?bad \<noteq> Inr ()" "fst ?good = Inr ()"
    by (simp_all add: change_scopes_def transaction_def)
  then obtain e b g where bad: "?bad = (Inl e, b)" and good: "?good = (Inr (), g)"
    by (cases ?bad; cases "fst ?bad"; cases ?good) auto
  have "b = empty_app_db" using change_scopes_atomic [OF bad] by simp
  moreover have "tb_find (ad_scopes g) ''a'' = Some ''1''"
    using change_scopes_atomic [OF good] by (auto dest!: spec [of _ "''a''"])
  ultimately show ?thesis by (simp only: bad good snd_conv)
qed

section \<open>One refresh wins\<close>

text \<open>Processes that read the same sealed credential and refresh it, each with its own replacement.\<close>

fun refresh_race :: "(string option \<times> int \<times> bytes) list \<Rightarrow> string \<Rightarrow> bytes \<Rightarrow> app_db \<Rightarrow> (state_error + bool) list \<times> app_db" where
  "refresh_race [] i expected db = ([], db)"
| "refresh_race ((fault, now, replacement) # rest) i expected db =
     (let (r, db1) = compare_exchange_credential_vault fault now i expected replacement db;
          (rs, db2) = refresh_race rest i expected db1
      in (r # rs, db2))"

lemma length_hits: "tb_ok rows \<Longrightarrow>
    length (filter (\<lambda>r. fst r = i \<and> fst (snd r) = v) rows) = (if tb_find rows i = Some v then 1 else 0)"
proof (induction rows)
  case (Cons r rows)
  have "fst r' \<noteq> fst r" if "r' \<in> set rows" for r'
    using Cons.prems that by (auto simp: tb_ok_def) (metis fst_conv imageI)
  then have "fst r = i \<Longrightarrow> filter (\<lambda>r. fst r = i \<and> fst (snd r) = v) rows = []"
    by (auto simp: filter_empty_conv)
  moreover obtain k u t where "r = (k, u, t)" by (cases r)
  ultimately show ?case using Cons by (auto simp: tb_ok_def tb_find_def)
qed (simp add: tb_find_def)

lemma tb_find_replace: "tb_find (map (\<lambda>r. if fst r = i \<and> fst (snd r) = v then (i, v', now) else r) rows) =
    (if tb_find rows i = Some v then (tb_find rows)(i \<mapsto> v') else tb_find rows)"
  by (induction rows) (auto simp: tb_find_def fun_eq_iff)

lemma tb_ok_replace: "tb_ok (map (\<lambda>r. if fst r = i \<and> fst (snd r) = v then (i, v', now) else r) rows) \<longleftrightarrow> tb_ok rows"
proof -
  have "map fst (map (\<lambda>r. if fst r = i \<and> fst (snd r) = v then (i, v', now) else r) rows) = map fst rows"
    by auto
  then show ?thesis by (simp only: tb_ok_def)
qed

lemma compare_exchange_spec:
  assumes "compare_exchange_credential_vault fault now i expected replacement db = (r, db')" "tb_ok (ad_vault db)"
  shows "tb_ok (ad_vault db') \<and>
    (r = Inr True \<longleftrightarrow> tb_find (ad_vault db) i = Some expected \<and> check_cipher i [expected, replacement] = Inr () \<and> fault = None) \<and>
    tb_find (ad_vault db') = (if r = Inr True then (tb_find (ad_vault db))(i \<mapsto> replacement) else tb_find (ad_vault db))"
  using assms
  by (auto simp: compare_exchange_credential_vault_def Let_def length_hits tb_find_replace tb_ok_replace
      split: sum.splits option.splits if_splits)

text \<open>Of the processes that refresh the same credential at most one wins, and exactly one when the
  credential is still what they read and some attempt is valid and meets no fault. The vault
  then holds the winner's replacement, and otherwise what it held.\<close>

theorem one_refresh_wins:
  assumes race: "refresh_race attempts i expected db = (rs, db')" and ok: "tb_ok (ad_vault db)"
    and fresh: "\<forall>(fault, now, replacement) \<in> set attempts. replacement \<noteq> expected"
  defines "fair \<equiv> \<lambda>(fault, now :: int, replacement). fault = None \<and> check_cipher i [expected, replacement] = Inr ()"
  shows "count_list rs (Inr True) =
      (if tb_find (ad_vault db) i = Some expected \<and> (\<exists>a \<in> set attempts. fair a) then 1 else 0) \<and>
    (case find fair attempts of
       Some (_, _, replacement) \<Rightarrow>
         tb_find (ad_vault db') i = (if tb_find (ad_vault db) i = Some expected then Some replacement
           else tb_find (ad_vault db) i)
     | None \<Rightarrow> tb_find (ad_vault db') i = tb_find (ad_vault db) i)"
  using race ok fresh
proof (induction attempts arbitrary: db rs)
  case Nil
  then show ?case by simp
next
  case (Cons a attempts)
  obtain fault now replacement where a: "a = (fault, now, replacement)" by (cases a)
  obtain r db1 where step: "compare_exchange_credential_vault fault now i expected replacement db = (r, db1)" by (metis surj_pair)
  obtain rs1 where rest: "refresh_race attempts i expected db1 = (rs1, db')" "rs = r # rs1"
    using Cons.prems(1) a step by (auto simp: Let_def split: prod.splits)
  note spec = compare_exchange_spec [OF step Cons.prems(2)]
  have ne: "replacement \<noteq> expected" using Cons.prems(3) a by auto
  have IH: "count_list rs1 (Inr True) =
      (if tb_find (ad_vault db1) i = Some expected \<and> (\<exists>a \<in> set attempts. fair a) then 1 else 0) \<and>
    (case find fair attempts of
       Some (_, _, replacement) \<Rightarrow>
         tb_find (ad_vault db') i = (if tb_find (ad_vault db1) i = Some expected then Some replacement
           else tb_find (ad_vault db1) i)
     | None \<Rightarrow> tb_find (ad_vault db') i = tb_find (ad_vault db1) i)"
    using Cons.IH [OF rest(1)] spec Cons.prems(3) by simp
  have won: "r = Inr True \<longleftrightarrow> tb_find (ad_vault db) i = Some expected \<and> fair a"
    using spec by (auto simp: fair_def a)
  show ?case
  proof (cases "r = Inr True")
    case True
    with spec have "tb_find (ad_vault db1) i = Some replacement" by simp
    with IH ne True won show ?thesis
      by (auto simp: rest(2) a split: option.splits)
  next
    case False
    with spec have "tb_find (ad_vault db1) = tb_find (ad_vault db)" by simp
    with IH False won show ?thesis
      by (auto simp: rest(2) split: option.splits)
  qed
qed

lemma one_refresh_wins_witness:
  "count_list (fst (refresh_race [(Some ''locked'', 1, [3]), (None, 2, [4]), (None, 3, [5])] ''codex'' [9]
      (empty_app_db\<lparr>ad_vault := [(''codex'', [9], 0)]\<rparr>))) (Inr True) = 1"
proof -
  let ?db = "empty_app_db\<lparr>ad_vault := [(''codex'', [9], 0)]\<rparr>"
  let ?as = "[(Some ''locked'', 1, [3]), (None, 2, [4]), (None, 3, [5])] :: (string option \<times> int \<times> bytes) list"
  obtain rs db' where race: "refresh_race ?as ''codex'' [9] ?db = (rs, db')" by (metis surj_pair)
  have "tb_ok (ad_vault ?db)" by (simp add: tb_ok_def)
  moreover have "\<forall>(fault, now, replacement) \<in> set ?as. replacement \<noteq> [9]" by simp
  moreover have "tb_find (ad_vault ?db) ''codex'' = Some [9]" by (simp add: tb_find_def)
  moreover have "check_cipher ''codex'' [[9], [4]] = Inr ()" by code_simp
  ultimately have "count_list rs (Inr True) = 1" using one_refresh_wins [OF race] by simp
  then show ?thesis by (simp only: race fst_conv)
qed

section \<open>The settings table as a contract\<close>

text \<open>What the configuration relies on: after a save the setting reads as saved, after a deletion it is
  gone, the others stay, and a failed operation changes nothing.\<close>

locale settings_store =
  fixes rows :: "'w \<Rightarrow> (string \<times> string) list"
    and save :: "string \<Rightarrow> string \<Rightarrow> 'w \<Rightarrow> (state_error + unit) \<times> 'w"
    and remove :: "string \<Rightarrow> 'w \<Rightarrow> (state_error + unit) \<times> 'w"
    and ok :: "'w \<Rightarrow> bool"
  assumes rows_distinct: "ok w \<Longrightarrow> distinct (map fst (rows w))"
    and save_ok: "ok w \<Longrightarrow> save k t w = (Inr u, w') \<Longrightarrow> ok w' \<and> map_of (rows w') = (map_of (rows w))(k \<mapsto> t)"
    and save_failed: "save k t w = (Inl e, w') \<Longrightarrow> w' = w"
    and remove_ok: "ok w \<Longrightarrow> remove k w = (Inr u, w') \<Longrightarrow> ok w' \<and> map_of (rows w') = (map_of (rows w))(k := None)"
    and remove_failed: "remove k w = (Inl e, w') \<Longrightarrow> w' = w"

lemma setting_rows_map: "tb_ok (ad_settings db) \<Longrightarrow> map_of (setting_rows db) = tb_find (ad_settings db)"
  by (rule ext) (simp add: setting_rows_def map_of_pairs tb_find_def map_of_ordered)

lemma setting_rows_distinct: "tb_ok (ad_settings db) \<Longrightarrow> distinct (map fst (setting_rows db))"
proof -
  assume ok: "tb_ok (ad_settings db)"
  have "mset (map fst (setting_rows db)) = mset (map fst (ad_settings db))"
    by (simp add: setting_rows_def tb_ordered_def comp_def)
  then show ?thesis using ok unfolding tb_ok_def by (metis mset_eq_imp_distinct_iff)
qed

interpretation appdb: settings_store setting_rows "save_setting fault is_json now" "delete_setting fault"
    "\<lambda>db. tb_ok (ad_settings db)" for fault is_json now
proof
  fix db db' k t e and u :: unit
  show "tb_ok (ad_settings db) \<Longrightarrow> distinct (map fst (setting_rows db))" by (rule setting_rows_distinct)
  show "tb_ok (ad_settings db) \<Longrightarrow> save_setting fault is_json now k t db = (Inr u, db') \<Longrightarrow>
      tb_ok (ad_settings db') \<and> map_of (setting_rows db') = (map_of (setting_rows db))(k \<mapsto> t)"
    unfolding save_setting_def by (auto simp: setting_rows_map dest!: stmt_cases)
  show "save_setting fault is_json now k t db = (Inl e, db') \<Longrightarrow> db' = db"
    unfolding save_setting_def by (auto dest!: stmt_cases)
  show "tb_ok (ad_settings db) \<Longrightarrow> delete_setting fault k db = (Inr u, db') \<Longrightarrow>
      tb_ok (ad_settings db') \<and> map_of (setting_rows db') = (map_of (setting_rows db))(k := None)"
    unfolding delete_setting_def by (auto simp: setting_rows_map dest!: stmt_cases)
  show "delete_setting fault k db = (Inl e, db') \<Longrightarrow> db' = db"
    unfolding delete_setting_def by (auto dest!: stmt_cases)
qed

text \<open>The scopes are listed in order, each once.\<close>

lemma list_scopes_complete:
  assumes "tb_ok (ad_scopes db)" "list_scopes None db = Inr ss"
  shows "sorted ss \<and> distinct ss \<and> set ss = {s. tb_find (ad_scopes db) s \<noteq> None}"
proof -
  have ss: "ss = map fst (sort_key fst (ad_scopes db))"
    using assms(2) by (simp add: list_scopes_def query_def tb_ordered_def)
  then have "mset ss = mset (map fst (ad_scopes db))" by simp
  with assms(1) have "distinct ss" unfolding tb_ok_def by (metis mset_eq_imp_distinct_iff)
  with ss show ?thesis by (auto simp: tb_find_None)
qed

text \<open>A factory reset keeps tab state and credentials.\<close>

lemma factory_reset_keeps:
  "factory_reset fault db = (r, db') \<Longrightarrow> (r \<noteq> Inr () \<and> db' = db) \<or>
     (r = Inr () \<and> ad_settings db' = [] \<and> ad_prefs db' = [] \<and> ad_scopes db' = ad_scopes db \<and> ad_vault db' = ad_vault db)"
  unfolding factory_reset_def by (auto dest!: transaction_cases)

section \<open>Opening\<close>

definition APP_SCHEMA_VERSION :: int where "APP_SCHEMA_VERSION = 1"
definition APP_APPLICATION_ID :: int where "APP_APPLICATION_ID = 0x54564233"

definition app_tables :: "(string \<times> string list) list" where
  "app_tables =
     [(''content_preferences'', [''content_type'', ''handler_id'', ''updated_at'']),
      (''credential_vault'', [''id'', ''ciphertext'', ''updated_at'']),
      (''schema_migrations'', [''version'', ''applied_at'']),
      (''settings'', [''key'', ''value_json'', ''updated_at'']),
      (''state_scopes'', [''scope'', ''json'', ''updated_at''])]"

definition app_validate_schema :: "db_schema \<Rightarrow> bool" where
  "app_validate_schema sc \<longleftrightarrow>
     sc_application sc = APP_APPLICATION_ID \<and> sc_version sc = APP_SCHEMA_VERSION \<and>
     map fst (sc_tables sc) = map fst app_tables \<and> sc_migrations sc = [APP_SCHEMA_VERSION] \<and>
     list_all (\<lambda>(t, cols). map_of (sc_tables sc) t = Some cols) app_tables"

definition app_initialize :: "db_schema \<Rightarrow> db_schema" where
  "app_initialize sc =
     \<lparr>sc_application = APP_APPLICATION_ID, sc_version = APP_SCHEMA_VERSION,
      sc_tables = sort_key fst (sc_tables sc @ filter (\<lambda>(t, _). t \<notin> fst ` set (sc_tables sc)) app_tables),
      sc_migrations = (if APP_SCHEMA_VERSION \<in> set (sc_migrations sc) then sc_migrations sc
                       else sort (sc_migrations sc @ [APP_SCHEMA_VERSION]))\<rparr>"

text \<open>A fault strikes the connection, which changes nothing, or the transaction that writes the schema,
  after the connection created the file.\<close>

datatype app_open_fault = AppConnectionFault | AppCreateFault

definition app_open :: "app_open_fault option \<Rightarrow> (db_schema \<times> app_db) option \<Rightarrow> bool \<times> (db_schema \<times> app_db) option" where
  "app_open fault disk =
     (if (case disk of Some (sc, _) \<Rightarrow> \<not> app_validate_schema sc | None \<Rightarrow> False) then (False, disk)
      else let (sc, db) = (case disk of Some x \<Rightarrow> x | None \<Rightarrow> (blank_schema, empty_app_db)) in
        case fault of
          Some AppConnectionFault \<Rightarrow> (False, disk)
        | Some AppCreateFault \<Rightarrow> (False, Some (sc, db))
        | None \<Rightarrow> (disk \<noteq> None \<or> app_validate_schema (app_initialize sc), Some (app_initialize sc, db)))"

text \<open>A first start works, later starts find the data as it was, and a foreign file is left alone.\<close>

lemma fresh_schema_valid: "app_validate_schema (app_initialize blank_schema)"
  by (simp add: app_validate_schema_def app_initialize_def blank_schema_def app_tables_def)

lemma app_open_fresh: "app_open None None = (True, Some (app_initialize blank_schema, empty_app_db))"
  by (simp add: app_open_def fresh_schema_valid)

lemma app_open_again:
  "app_open None (Some (sc, db)) = (r, disk) \<Longrightarrow> \<exists>sc'. disk = Some (sc', db) \<and> (r = app_validate_schema sc)
     \<and> (\<not> r \<longrightarrow> sc' = sc)"
  by (auto simp: app_open_def split: if_splits)

text \<open>A first start that is cut off before its transaction committed leaves a file every later start
  refuses, as for the runtime's database.\<close>

lemma app_torn_creation:
  "app_open fault (snd (app_open (Some AppCreateFault) None)) = (False, Some (blank_schema, empty_app_db))"
  by (simp add: app_open_def app_validate_schema_def blank_schema_def APP_APPLICATION_ID_def)

end
