(* ===== verification/App_Config.thy ===== *)
theory App_Config
  imports State_Store Complex_Main
begin

text \<open>
  Settings (\<open>src-tauri/src/config.rs\<close>): the registry of settings with their domains, the
  deserialiser that enforces them, and reading and writing them through the durable store. A value
  is \<open>serde_json::Value\<close> with its number kinds, and TOML scalars are the same scalars. The themes are
  a generated table and a parameter, as are the JSON text parser and printer. The values that only
  the user's file owns (profiles, templates, exclusions, keys) are not registered settings.
\<close>

section \<open>Tokens\<close>

datatype theme_pref = SystemTheme | NamedTheme string
datatype search_engine = DuckDuckGo | Google | Bing | CustomEngine
datatype archive_after = Hours12 | Hours24 | Days7 | ArchiveOff
datatype dns_mode = DnsSystem | Cloudflare | DnsGoogle | Quad9 | DnsCustom

definition SYSTEM_THEME :: string where "SYSTEM_THEME = ''system''"

fun theme_token :: "theme_pref \<Rightarrow> string" where
  "theme_token SystemTheme = SYSTEM_THEME"
| "theme_token (NamedTheme i) = i"

definition theme_from_token :: "string list \<Rightarrow> string \<Rightarrow> theme_pref option" where
  "theme_from_token themes raw =
     (if raw = SYSTEM_THEME then Some SystemTheme
      else if raw \<in> set themes then Some (NamedTheme raw) else None)"

definition engine_table :: "(search_engine \<times> string) list" where
  "engine_table = [(DuckDuckGo, ''duckduckgo''), (Google, ''google''), (Bing, ''bing''), (CustomEngine, ''custom'')]"

definition archive_table :: "(archive_after \<times> string) list" where
  "archive_table = [(Hours12, ''12h''), (Hours24, ''24h''), (Days7, ''7d''), (ArchiveOff, ''off'')]"

definition dns_table :: "(dns_mode \<times> string) list" where
  "dns_table = [(DnsSystem, ''system''), (Cloudflare, ''cloudflare''), (DnsGoogle, ''google''),
     (Quad9, ''quad9''), (DnsCustom, ''custom'')]"

text \<open>What the macro generates from a table.\<close>

definition tokens_of :: "('a \<times> string) list \<Rightarrow> string list" where
  "tokens_of table = map snd table"

definition token_of :: "('a \<times> string) list \<Rightarrow> 'a \<Rightarrow> string" where
  "token_of table v = (case map_of table v of Some t \<Rightarrow> t | None \<Rightarrow> [])"

definition from_token :: "('a \<times> string) list \<Rightarrow> string \<Rightarrow> 'a option" where
  "from_token table raw = map_of (map (\<lambda>(v, t). (t, v)) table) raw"

definition theme_tokens :: "string list \<Rightarrow> string list" where
  "theme_tokens themes = SYSTEM_THEME # themes"

fun doh_url :: "dns_mode \<Rightarrow> string option" where
  "doh_url Cloudflare = Some ''https://cloudflare-dns.com/dns-query''"
| "doh_url DnsGoogle = Some ''https://dns.google/dns-query''"
| "doh_url Quad9 = Some ''https://dns.quad9.net/dns-query''"
| "doh_url DnsSystem = None"
| "doh_url DnsCustom = None"

section \<open>The configuration\<close>

record appearance =
  ap_theme :: theme_pref
  ap_sidebar_width :: nat
  ap_sidebar_pinned :: bool

record browser =
  br_search_engine :: search_engine
  br_custom_search_template :: string
  br_archive_after :: archive_after

record network =
  ne_dns_mode :: dns_mode
  ne_dns_custom_url :: string
  ne_cover_page_traffic :: bool

record terminal_settings =
  te_font_family :: string
  te_font_size :: nat
  te_line_height_percent :: nat
  te_ligatures :: bool
  te_background_tasks :: bool
  te_image_memory_mb :: nat
  te_paste_guard :: bool
  te_completions_url :: string

record config =
  cf_appearance :: appearance
  cf_browser :: browser
  cf_network :: network
  cf_terminal :: terminal_settings

definition default_completions_url :: string where
  "default_completions_url = ''https://raw.githubusercontent.com/spalagu/Tabverse/main/assets/completions/spec.json''"

definition config_default :: config where
  "config_default =
     \<lparr>cf_appearance = \<lparr>ap_theme = SystemTheme, ap_sidebar_width = 248, ap_sidebar_pinned = True\<rparr>,
      cf_browser = \<lparr>br_search_engine = DuckDuckGo, br_custom_search_template = [], br_archive_after = Hours24\<rparr>,
      cf_network = \<lparr>ne_dns_mode = DnsSystem, ne_dns_custom_url = [], ne_cover_page_traffic = False\<rparr>,
      cf_terminal = \<lparr>te_font_family = [], te_font_size = 13, te_line_height_percent = 120, te_ligatures = False,
        te_background_tasks = False, te_image_memory_mb = 128, te_paste_guard = True,
        te_completions_url = default_completions_url\<rparr>\<rparr>"

section \<open>The registry\<close>

definition SIDEBAR_WIDTH_MIN :: nat where "SIDEBAR_WIDTH_MIN = 180"
definition SIDEBAR_WIDTH_MAX :: nat where "SIDEBAR_WIDTH_MAX = 520"
definition TERMINAL_FONT_SIZE_MIN :: nat where "TERMINAL_FONT_SIZE_MIN = 6"
definition TERMINAL_FONT_SIZE_MAX :: nat where "TERMINAL_FONT_SIZE_MAX = 48"
definition TERMINAL_LINE_HEIGHT_MIN :: nat where "TERMINAL_LINE_HEIGHT_MIN = 100"
definition TERMINAL_LINE_HEIGHT_MAX :: nat where "TERMINAL_LINE_HEIGHT_MAX = 200"
definition TERMINAL_IMAGE_MEMORY_MB_MIN :: nat where "TERMINAL_IMAGE_MEMORY_MB_MIN = 16"
definition TERMINAL_IMAGE_MEMORY_MB_MAX :: nat where "TERMINAL_IMAGE_MEMORY_MB_MAX = 512"

record text_rule =
  ru_allow_empty :: bool
  ru_must_contain :: "string option"
  ru_schemes :: "string list option"

datatype setting_kind = Choice "string list" | Number nat nat | Toggle | TextKind text_rule

record setting =
  se_key :: string
  se_kind :: setting_kind
  se_section :: string
  se_str_key :: string

definition SETTINGS :: "string list \<Rightarrow> setting list" where
  "SETTINGS themes =
    [\<lparr>se_key = ''appearance.theme'', se_kind = Choice (theme_tokens themes),
      se_section = ''appearance'', se_str_key = ''settings.appearance.theme''\<rparr>,
     \<lparr>se_key = ''appearance.sidebar_width'', se_kind = Number SIDEBAR_WIDTH_MIN SIDEBAR_WIDTH_MAX,
      se_section = ''appearance'', se_str_key = ''settings.appearance.sidebarWidth''\<rparr>,
     \<lparr>se_key = ''appearance.sidebar_pinned'', se_kind = Toggle,
      se_section = ''appearance'', se_str_key = ''settings.appearance.sidebarPinned''\<rparr>,
     \<lparr>se_key = ''browser.search_engine'', se_kind = Choice (tokens_of engine_table),
      se_section = ''search-engine'', se_str_key = ''settings.searchEngine.engine''\<rparr>,
     \<lparr>se_key = ''browser.custom_search_template'',
      se_kind = TextKind \<lparr>ru_allow_empty = True, ru_must_contain = Some ''%s'', ru_schemes = Some [''http'', ''https'']\<rparr>,
      se_section = ''search-engine'', se_str_key = ''settings.searchEngine.customTemplate''\<rparr>,
     \<lparr>se_key = ''browser.archive_after'', se_kind = Choice (tokens_of archive_table),
      se_section = ''auto-archive'', se_str_key = ''settings.autoArchive.after''\<rparr>,
     \<lparr>se_key = ''network.dns_mode'', se_kind = Choice (tokens_of dns_table),
      se_section = ''network'', se_str_key = ''settings.network.dnsMode''\<rparr>,
     \<lparr>se_key = ''network.dns_custom_url'',
      se_kind = TextKind \<lparr>ru_allow_empty = True, ru_must_contain = None, ru_schemes = Some [''https'', ''http'']\<rparr>,
      se_section = ''network'', se_str_key = ''settings.network.dnsCustomUrl''\<rparr>,
     \<lparr>se_key = ''network.cover_page_traffic'', se_kind = Toggle,
      se_section = ''network'', se_str_key = ''settings.network.coverPageTraffic''\<rparr>,
     \<lparr>se_key = ''terminal.font_family'',
      se_kind = TextKind \<lparr>ru_allow_empty = True, ru_must_contain = None, ru_schemes = None\<rparr>,
      se_section = ''appearance'', se_str_key = ''settings.appearance.terminalFontFamily''\<rparr>,
     \<lparr>se_key = ''terminal.font_size'', se_kind = Number TERMINAL_FONT_SIZE_MIN TERMINAL_FONT_SIZE_MAX,
      se_section = ''appearance'', se_str_key = ''settings.appearance.terminalFontSize''\<rparr>,
     \<lparr>se_key = ''terminal.line_height_percent'', se_kind = Number TERMINAL_LINE_HEIGHT_MIN TERMINAL_LINE_HEIGHT_MAX,
      se_section = ''appearance'', se_str_key = ''settings.appearance.terminalLineHeight''\<rparr>,
     \<lparr>se_key = ''terminal.ligatures'', se_kind = Toggle,
      se_section = ''appearance'', se_str_key = ''settings.appearance.terminalLigatures''\<rparr>,
     \<lparr>se_key = ''terminal.background_tasks'', se_kind = Toggle,
      se_section = ''appearance'', se_str_key = ''settings.appearance.terminalBackgroundTasks''\<rparr>,
     \<lparr>se_key = ''terminal.image_memory_mb'', se_kind = Number TERMINAL_IMAGE_MEMORY_MB_MIN TERMINAL_IMAGE_MEMORY_MB_MAX,
      se_section = ''appearance'', se_str_key = ''settings.appearance.terminalImageMemory''\<rparr>,
     \<lparr>se_key = ''terminal.paste_guard'', se_kind = Toggle,
      se_section = ''appearance'', se_str_key = ''settings.appearance.terminalPasteGuard''\<rparr>,
     \<lparr>se_key = ''terminal.completions_url'',
      se_kind = TextKind \<lparr>ru_allow_empty = False, ru_must_contain = None, ru_schemes = Some [''http'', ''https'']\<rparr>,
      se_section = ''terminal-completions'', se_str_key = ''settings.completions.url''\<rparr>]"

definition find_setting :: "string list \<Rightarrow> string \<Rightarrow> setting option" where
  "find_setting themes key = find (\<lambda>s. se_key s = key) (SETTINGS themes)"

definition setting_for :: "string list \<Rightarrow> string \<Rightarrow> string + setting" where
  "setting_for themes key = (case find_setting themes key of
     Some s \<Rightarrow> Inr s | None \<Rightarrow> Inl (''`'' @ key @ ''` is not a setting''))"

text \<open>\<open>split_once('.')\<close> and its guards.\<close>

definition split_key :: "string \<Rightarrow> string + (string \<times> string)" where
  "split_key key =
     (let sec = takeWhile (\<lambda>c. c \<noteq> CHR ''.'') key; rest = dropWhile (\<lambda>c. c \<noteq> CHR ''.'') key in
      if rest \<noteq> [] \<and> sec \<noteq> [] \<and> tl rest \<noteq> [] \<and> CHR ''.'' \<notin> set (tl rest) then Inr (sec, tl rest)
      else Inl (''`'' @ key @ ''` is not a section.key path''))"

section \<open>Reading a value\<close>

datatype jval = JvNull | JvBool bool | JvInt int | JvFloat rat | JvText string | JvOther

text \<open>What a deserialiser says: a rule of this program, or the value's type.\<close>

datatype de_error = RuleBroken string | WrongType

fun de_string :: "jval \<Rightarrow> de_error + string" where
  "de_string (JvText s) = Inr s"
| "de_string _ = Inl WrongType"

fun de_bool :: "jval \<Rightarrow> de_error + bool" where
  "de_bool (JvBool b) = Inr b"
| "de_bool _ = Inl WrongType"

fun de_i64 :: "jval \<Rightarrow> de_error + int" where
  "de_i64 (JvInt i) = (if - (2 ^ 63) \<le> i \<and> i < 2 ^ 63 then Inr i else Inl WrongType)"
| "de_i64 _ = Inl WrongType"

definition unknown_token :: "string \<Rightarrow> string \<Rightarrow> string list \<Rightarrow> string" where
  "unknown_token field raw tokens = field @ '' must be one of '' @ join '', '' tokens @
     [CHR '' '', CHR 0xE2, CHR 0x80, CHR 0x94, CHR '' ''] @ ''`'' @ raw @ ''` is not''"

definition de_token :: "string \<Rightarrow> string list \<Rightarrow> (string \<Rightarrow> 'a option) \<Rightarrow> jval \<Rightarrow> de_error + 'a" where
  "de_token field tokens from v = res_bind (de_string v) (\<lambda>raw.
     case from raw of Some x \<Rightarrow> Inr x | None \<Rightarrow> Inl (RuleBroken (unknown_token field raw tokens)))"

definition show_signed :: "int \<Rightarrow> string" where
  "show_signed i = (if i < 0 then ''-'' @ show_nat (nat (- i)) else show_nat (nat i))"

definition de_ranged :: "string \<Rightarrow> nat \<Rightarrow> nat \<Rightarrow> jval \<Rightarrow> de_error + nat" where
  "de_ranged field lo hi v = res_bind (de_i64 v) (\<lambda>raw.
     if raw < int lo \<or> int hi < raw
     then Inl (RuleBroken (field @ '' must be between '' @ show_nat lo @ '' and '' @ show_nat hi @
       [CHR '' '', CHR 0xE2, CHR 0x80, CHR 0x94, CHR '' ''] @ show_signed raw @ '' is not''))
     else Inr (nat raw))"

definition text_rule_of :: "string list \<Rightarrow> string \<Rightarrow> text_rule option" where
  "text_rule_of themes key = Option.bind (find_setting themes key) (\<lambda>s.
     case se_kind s of TextKind r \<Rightarrow> Some r | _ \<Rightarrow> None)"

definition ascii_lower :: "char \<Rightarrow> char" where
  "ascii_lower c = (let n = (of_char c :: nat) in if 65 \<le> n \<and> n \<le> 90 then char_of (n + 32) else c)"

definition check_text :: "text_rule \<Rightarrow> string \<Rightarrow> string + unit" where
  "check_text rule v =
     (if v = [] then (if ru_allow_empty rule then Inr () else Inl ''must not be empty'')
      else res_bind
        (case ru_schemes rule of
           Some schemes \<Rightarrow>
             (if list_ex (\<lambda>s. prefix (s @ ''://'') (map ascii_lower v)) schemes then Inr ()
              else Inl (''must be a '' @ join '' or '' (map (\<lambda>s. s @ ''://'') schemes) @ '' address''))
         | None \<Rightarrow> Inr ())
        (\<lambda>_. case ru_must_contain rule of
           Some needle \<Rightarrow> (if str_find needle v \<noteq> None then Inr () else Inl (''must contain '' @ needle))
         | None \<Rightarrow> Inr ()))"

definition de_registered_text :: "string list \<Rightarrow> string \<Rightarrow> jval \<Rightarrow> de_error + string" where
  "de_registered_text themes key v = res_bind (de_string v) (\<lambda>raw.
     case text_rule_of themes key of
       None \<Rightarrow> Inl (RuleBroken (key @ '' carries no text rule in the settings registry''))
     | Some rule \<Rightarrow> (case check_text rule raw of
         Inr _ \<Rightarrow> Inr raw
       | Inl clause \<Rightarrow> Inl (RuleBroken (key @ '' '' @ clause))))"

section \<open>Reading a configuration\<close>

text \<open>The values of a document by section and leaf. A section that is missing is the default's, and so
  is a leaf.\<close>

type_synonym doc = "string \<Rightarrow> string \<Rightarrow> jval option"

definition leaf_or :: "doc \<Rightarrow> string \<Rightarrow> string \<Rightarrow> (jval \<Rightarrow> de_error + 'a) \<Rightarrow> 'a \<Rightarrow> de_error + 'a" where
  "leaf_or d sec leaf de dflt = (case d sec leaf of None \<Rightarrow> Inr dflt | Some v \<Rightarrow> de v)"

definition de_appearance :: "string list \<Rightarrow> doc \<Rightarrow> de_error + appearance" where
  "de_appearance themes d = (let dflt = cf_appearance config_default in
     res_bind (leaf_or d ''appearance'' ''theme'' (de_token ''theme'' (theme_tokens themes) (theme_from_token themes)) (ap_theme dflt)) (\<lambda>theme.
     res_bind (leaf_or d ''appearance'' ''sidebar_width'' (de_ranged ''sidebar_width'' SIDEBAR_WIDTH_MIN SIDEBAR_WIDTH_MAX) (ap_sidebar_width dflt)) (\<lambda>width.
     res_bind (leaf_or d ''appearance'' ''sidebar_pinned'' de_bool (ap_sidebar_pinned dflt)) (\<lambda>pinned.
     Inr \<lparr>ap_theme = theme, ap_sidebar_width = width, ap_sidebar_pinned = pinned\<rparr>))))"

definition de_browser :: "string list \<Rightarrow> doc \<Rightarrow> de_error + browser" where
  "de_browser themes d = (let dflt = cf_browser config_default in
     res_bind (leaf_or d ''browser'' ''search_engine'' (de_token ''search_engine'' (tokens_of engine_table) (from_token engine_table)) (br_search_engine dflt)) (\<lambda>engine.
     res_bind (leaf_or d ''browser'' ''custom_search_template'' (de_registered_text themes ''browser.custom_search_template'') (br_custom_search_template dflt)) (\<lambda>template.
     res_bind (leaf_or d ''browser'' ''archive_after'' (de_token ''archive_after'' (tokens_of archive_table) (from_token archive_table)) (br_archive_after dflt)) (\<lambda>after.
     Inr \<lparr>br_search_engine = engine, br_custom_search_template = template, br_archive_after = after\<rparr>))))"

definition de_network :: "string list \<Rightarrow> doc \<Rightarrow> de_error + network" where
  "de_network themes d = (let dflt = cf_network config_default in
     res_bind (leaf_or d ''network'' ''dns_mode'' (de_token ''dns_mode'' (tokens_of dns_table) (from_token dns_table)) (ne_dns_mode dflt)) (\<lambda>mode.
     res_bind (leaf_or d ''network'' ''dns_custom_url'' (de_registered_text themes ''network.dns_custom_url'') (ne_dns_custom_url dflt)) (\<lambda>url.
     res_bind (leaf_or d ''network'' ''cover_page_traffic'' de_bool (ne_cover_page_traffic dflt)) (\<lambda>cover.
     Inr \<lparr>ne_dns_mode = mode, ne_dns_custom_url = url, ne_cover_page_traffic = cover\<rparr>))))"

definition de_terminal :: "string list \<Rightarrow> doc \<Rightarrow> de_error + terminal_settings" where
  "de_terminal themes d = (let dflt = cf_terminal config_default in
     res_bind (leaf_or d ''terminal'' ''font_family'' (de_registered_text themes ''terminal.font_family'') (te_font_family dflt)) (\<lambda>family.
     res_bind (leaf_or d ''terminal'' ''font_size'' (de_ranged ''font_size'' TERMINAL_FONT_SIZE_MIN TERMINAL_FONT_SIZE_MAX) (te_font_size dflt)) (\<lambda>size.
     res_bind (leaf_or d ''terminal'' ''line_height_percent'' (de_ranged ''line_height_percent'' TERMINAL_LINE_HEIGHT_MIN TERMINAL_LINE_HEIGHT_MAX) (te_line_height_percent dflt)) (\<lambda>height.
     res_bind (leaf_or d ''terminal'' ''ligatures'' de_bool (te_ligatures dflt)) (\<lambda>ligatures.
     res_bind (leaf_or d ''terminal'' ''background_tasks'' de_bool (te_background_tasks dflt)) (\<lambda>tasks.
     res_bind (leaf_or d ''terminal'' ''image_memory_mb'' (de_ranged ''image_memory_mb'' TERMINAL_IMAGE_MEMORY_MB_MIN TERMINAL_IMAGE_MEMORY_MB_MAX) (te_image_memory_mb dflt)) (\<lambda>memory.
     res_bind (leaf_or d ''terminal'' ''paste_guard'' de_bool (te_paste_guard dflt)) (\<lambda>guard.
     res_bind (leaf_or d ''terminal'' ''completions_url'' (de_registered_text themes ''terminal.completions_url'') (te_completions_url dflt)) (\<lambda>url.
     Inr \<lparr>te_font_family = family, te_font_size = size, te_line_height_percent = height, te_ligatures = ligatures,
       te_background_tasks = tasks, te_image_memory_mb = memory, te_paste_guard = guard, te_completions_url = url\<rparr>)))))))))"

definition de_config :: "string list \<Rightarrow> doc \<Rightarrow> de_error + config" where
  "de_config themes d =
     res_bind (de_appearance themes d) (\<lambda>a. res_bind (de_browser themes d) (\<lambda>b.
     res_bind (de_network themes d) (\<lambda>n. res_bind (de_terminal themes d) (\<lambda>t.
     Inr \<lparr>cf_appearance = a, cf_browser = b, cf_network = n, cf_terminal = t\<rparr>))))"

text \<open>\<open>serde_json::to_value\<close> of a configuration.\<close>

definition config_rows :: "config \<Rightarrow> ((string \<times> string) \<times> jval) list" where
  "config_rows c = (let a = cf_appearance c; b = cf_browser c; n = cf_network c; t = cf_terminal c in
    [((''appearance'', ''theme''), JvText (theme_token (ap_theme a))),
     ((''appearance'', ''sidebar_width''), JvInt (int (ap_sidebar_width a))),
     ((''appearance'', ''sidebar_pinned''), JvBool (ap_sidebar_pinned a)),
     ((''browser'', ''search_engine''), JvText (token_of engine_table (br_search_engine b))),
     ((''browser'', ''custom_search_template''), JvText (br_custom_search_template b)),
     ((''browser'', ''archive_after''), JvText (token_of archive_table (br_archive_after b))),
     ((''network'', ''dns_mode''), JvText (token_of dns_table (ne_dns_mode n))),
     ((''network'', ''dns_custom_url''), JvText (ne_dns_custom_url n)),
     ((''network'', ''cover_page_traffic''), JvBool (ne_cover_page_traffic n)),
     ((''terminal'', ''font_family''), JvText (te_font_family t)),
     ((''terminal'', ''font_size''), JvInt (int (te_font_size t))),
     ((''terminal'', ''line_height_percent''), JvInt (int (te_line_height_percent t))),
     ((''terminal'', ''ligatures''), JvBool (te_ligatures t)),
     ((''terminal'', ''background_tasks''), JvBool (te_background_tasks t)),
     ((''terminal'', ''image_memory_mb''), JvInt (int (te_image_memory_mb t))),
     ((''terminal'', ''paste_guard''), JvBool (te_paste_guard t)),
     ((''terminal'', ''completions_url''), JvText (te_completions_url t))])"

definition config_doc :: "config \<Rightarrow> doc" where
  "config_doc c = (\<lambda>sec leaf. map_of (config_rows c) (sec, leaf))"

section \<open>Writing a setting\<close>

text \<open>\<open>to_toml_value\<close>: a whole float becomes the integer, by a saturating cast. An integer above \<open>i64\<close> is
  read as the nearest \<open>f64\<close>, which is at most \<open>2^63\<close> up to the tie at \<open>2^63 + 1024\<close>.\<close>

definition to_toml_value :: "(jval \<Rightarrow> string) \<Rightarrow> string \<Rightarrow> jval \<Rightarrow> string + jval" where
  "to_toml_value print key v = (case v of
     JvText s \<Rightarrow> Inr (JvText s)
   | JvBool b \<Rightarrow> Inr (JvBool b)
   | JvInt i \<Rightarrow>
       (if - (2 ^ 63) \<le> i \<and> i < 2 ^ 63 then Inr (JvInt i)
        else if 0 \<le> i \<and> i \<le> 2 ^ 63 + 1024 then Inr (JvInt (2 ^ 63 - 1)) else Inr (JvFloat (of_int i)))
   | JvFloat r \<Rightarrow>
       (if of_int \<lfloor>r\<rfloor> = r \<and> - (2 ^ 63) \<le> r \<and> r \<le> 2 ^ 63
        then Inr (JvInt (min \<lfloor>r\<rfloor> (2 ^ 63 - 1))) else Inr (JvFloat r))
   | _ \<Rightarrow> Inl (''`'' @ key @ ''` cannot be set to '' @ print v @
       [CHR '' '', CHR 0xE2, CHR 0x80, CHR 0x94, CHR '' ''] @ ''only text, whole numbers and true/false are settable''))"

text \<open>The probe document of one leaf, through the deserialiser a load runs through.\<close>

definition probe_doc :: "string \<Rightarrow> string \<Rightarrow> jval \<Rightarrow> doc" where
  "probe_doc section leaf v = (\<lambda>s l. if s = section \<and> l = leaf then Some v else None)"

definition check_value :: "string list \<Rightarrow> string \<Rightarrow> string \<Rightarrow> jval \<Rightarrow> de_error + unit" where
  "check_value themes section leaf v = res_bind (de_config themes (probe_doc section leaf v)) (\<lambda>_. Inr ())"

definition put_json_path :: "string \<Rightarrow> jval \<Rightarrow> doc \<Rightarrow> string + doc" where
  "put_json_path key v d = res_bind (split_key key) (\<lambda>(section, leaf).
     if section \<in> {''appearance'', ''browser'', ''network'', ''terminal'', ''files'', ''keys''}
     then Inr (d(section := (d section)(leaf \<mapsto> v)))
     else Inl (''configuration has no object section `'' @ section @ ''`''))"

datatype config_error =
    StoreError state_error | SettingError string | ValueError de_error | BadStoredText string | BadConfig de_error

fun overlay_rows ::
  "string list \<Rightarrow> (string \<Rightarrow> jval option) \<Rightarrow> (string \<times> string) list \<Rightarrow> doc \<Rightarrow> config_error + doc" where
  "overlay_rows themes parse [] d = Inr d"
| "overlay_rows themes parse ((key, t) # rows) d =
     (case setting_for themes key of
        Inl e \<Rightarrow> Inl (SettingError e)
      | Inr _ \<Rightarrow> (case parse t of
          None \<Rightarrow> Inl (BadStoredText key)
        | Some v \<Rightarrow> (case put_json_path key v d of
            Inl e \<Rightarrow> Inl (SettingError e)
          | Inr d' \<Rightarrow> overlay_rows themes parse rows d')))"

definition apply_store_settings ::
  "string list \<Rightarrow> (string \<Rightarrow> jval option) \<Rightarrow> state_error + (string \<times> string) list \<Rightarrow> config \<Rightarrow> config_error + config" where
  "apply_store_settings themes parse loaded c = (case loaded of
     Inl e \<Rightarrow> Inl (StoreError e)
   | Inr rows \<Rightarrow> res_bind (overlay_rows themes parse rows (config_doc c)) (\<lambda>d.
       case de_config themes d of Inl e \<Rightarrow> Inl (BadConfig e) | Inr c' \<Rightarrow> Inr c'))"

definition registered_config ::
  "string list \<Rightarrow> (string \<Rightarrow> jval option) \<Rightarrow> string option \<Rightarrow> app_db \<Rightarrow> config_error + config" where
  "registered_config themes parse fault db = apply_store_settings themes parse (load_settings fault db) config_default"

text \<open>\<open>set_with_store\<close> up to the network policy, which reads the configuration back and sets it; its
  result is that of the read.\<close>

definition refresh_network_policy ::
  "string list \<Rightarrow> (string \<Rightarrow> jval option) \<Rightarrow> string option \<Rightarrow> string \<Rightarrow> app_db \<Rightarrow> (config_error + config option)" where
  "refresh_network_policy themes parse fault key db =
     (if takeWhile (\<lambda>c. c \<noteq> CHR ''.'') key \<noteq> ''network'' then Inr None
      else res_bind (registered_config themes parse fault db) (\<lambda>c. Inr (Some c)))"

record set_faults =
  sf_write :: "string option"
  sf_read :: "string option"
  sf_now :: int

definition set_with_store ::
  "string list \<Rightarrow> (string \<Rightarrow> jval option) \<Rightarrow> (jval \<Rightarrow> string) \<Rightarrow> set_faults \<Rightarrow> string \<Rightarrow> jval \<Rightarrow> app_db \<Rightarrow>
   (config_error + unit) \<times> app_db" where
  "set_with_store themes parse print fs key v db =
     (case res_bind (setting_for themes key) (\<lambda>s. res_bind (split_key (se_key s)) (\<lambda>p.
        res_bind (to_toml_value print key v) (\<lambda>candidate. Inr (p, candidate)))) of
        Inl e \<Rightarrow> (Inl (SettingError e), db)
      | Inr ((section, leaf), candidate) \<Rightarrow> (case check_value themes section leaf candidate of
          Inl e \<Rightarrow> (Inl (ValueError e), db)
        | Inr _ \<Rightarrow> (case save_setting (sf_write fs) (\<lambda>t. parse t \<noteq> None) (sf_now fs) key (print v) db of
            (Inl e, db1) \<Rightarrow> (Inl (StoreError e), db1)
          | (Inr _, db1) \<Rightarrow>
              (res_bind (refresh_network_policy themes parse (sf_read fs) key db1) (\<lambda>_. Inr ()), db1))))"

definition reset_with_store ::
  "string list \<Rightarrow> (string \<Rightarrow> jval option) \<Rightarrow> set_faults \<Rightarrow> string \<Rightarrow> app_db \<Rightarrow> (config_error + unit) \<times> app_db" where
  "reset_with_store themes parse fs key db =
     (case setting_for themes key of
        Inl e \<Rightarrow> (Inl (SettingError e), db)
      | Inr _ \<Rightarrow> (case delete_setting (sf_write fs) key db of
          (Inl e, db1) \<Rightarrow> (Inl (StoreError e), db1)
        | (Inr _, db1) \<Rightarrow>
            (res_bind (refresh_network_policy themes parse (sf_read fs) key db1) (\<lambda>_. Inr ()), db1)))"

section \<open>The registry says what the deserialiser accepts\<close>

text \<open>The domain a registry row declares.\<close>

fun kind_accepts :: "setting_kind \<Rightarrow> jval \<Rightarrow> bool" where
  "kind_accepts (Choice options) v = (\<exists>t \<in> set options. v = JvText t)"
| "kind_accepts (Number lo hi) v = (case v of JvInt i \<Rightarrow> int lo \<le> i \<and> i \<le> int hi | _ \<Rightarrow> False)"
| "kind_accepts Toggle v = (case v of JvBool _ \<Rightarrow> True | _ \<Rightarrow> False)"
| "kind_accepts (TextKind rule) v = (case v of JvText t \<Rightarrow> check_text rule t = Inr () | _ \<Rightarrow> False)"

definition accepts :: "string list \<Rightarrow> string \<Rightarrow> jval \<Rightarrow> bool" where
  "accepts themes key v = (case find_setting themes key of Some s \<Rightarrow> kind_accepts (se_kind s) v | None \<Rightarrow> False)"

abbreviation rule_search :: text_rule where
  "rule_search \<equiv> \<lparr>ru_allow_empty = True, ru_must_contain = Some ''%s'', ru_schemes = Some [''http'', ''https'']\<rparr>"
abbreviation rule_dns :: text_rule where
  "rule_dns \<equiv> \<lparr>ru_allow_empty = True, ru_must_contain = None, ru_schemes = Some [''https'', ''http'']\<rparr>"
abbreviation rule_font :: text_rule where
  "rule_font \<equiv> \<lparr>ru_allow_empty = True, ru_must_contain = None, ru_schemes = None\<rparr>"
abbreviation rule_completions :: text_rule where
  "rule_completions \<equiv> \<lparr>ru_allow_empty = False, ru_must_contain = None, ru_schemes = Some [''http'', ''https'']\<rparr>"

lemma accepts_rows:
  "accepts themes ''appearance.theme'' = kind_accepts (Choice (theme_tokens themes))"
  "accepts themes ''appearance.sidebar_width'' = kind_accepts (Number SIDEBAR_WIDTH_MIN SIDEBAR_WIDTH_MAX)"
  "accepts themes ''appearance.sidebar_pinned'' = kind_accepts Toggle"
  "accepts themes ''browser.search_engine'' = kind_accepts (Choice (tokens_of engine_table))"
  "accepts themes ''browser.custom_search_template'' = kind_accepts (TextKind rule_search)"
  "accepts themes ''browser.archive_after'' = kind_accepts (Choice (tokens_of archive_table))"
  "accepts themes ''network.dns_mode'' = kind_accepts (Choice (tokens_of dns_table))"
  "accepts themes ''network.dns_custom_url'' = kind_accepts (TextKind rule_dns)"
  "accepts themes ''network.cover_page_traffic'' = kind_accepts Toggle"
  "accepts themes ''terminal.font_family'' = kind_accepts (TextKind rule_font)"
  "accepts themes ''terminal.font_size'' = kind_accepts (Number TERMINAL_FONT_SIZE_MIN TERMINAL_FONT_SIZE_MAX)"
  "accepts themes ''terminal.line_height_percent'' = kind_accepts (Number TERMINAL_LINE_HEIGHT_MIN TERMINAL_LINE_HEIGHT_MAX)"
  "accepts themes ''terminal.ligatures'' = kind_accepts Toggle"
  "accepts themes ''terminal.background_tasks'' = kind_accepts Toggle"
  "accepts themes ''terminal.image_memory_mb'' = kind_accepts (Number TERMINAL_IMAGE_MEMORY_MB_MIN TERMINAL_IMAGE_MEMORY_MB_MAX)"
  "accepts themes ''terminal.paste_guard'' = kind_accepts Toggle"
  "accepts themes ''terminal.completions_url'' = kind_accepts (TextKind rule_completions)"
  by (rule ext; simp add: accepts_def find_setting_def SETTINGS_def)+

lemma text_rules:
  "text_rule_of themes ''browser.custom_search_template'' = Some rule_search"
  "text_rule_of themes ''network.dns_custom_url'' = Some rule_dns"
  "text_rule_of themes ''terminal.font_family'' = Some rule_font"
  "text_rule_of themes ''terminal.completions_url'' = Some rule_completions"
  by (simp_all add: text_rule_of_def find_setting_def SETTINGS_def)

text \<open>A leaf's deserialiser reads exactly the values of its domain, and writing back what it read gives
  the value.\<close>

definition reads :: "(jval \<Rightarrow> de_error + 'a) \<Rightarrow> ('a \<Rightarrow> jval) \<Rightarrow> (jval \<Rightarrow> bool) \<Rightarrow> bool" where
  "reads de render acc \<longleftrightarrow> (\<forall>v. acc v \<longleftrightarrow> (\<exists>x. de v = Inr x)) \<and> (\<forall>v x. de v = Inr x \<longrightarrow> render x = v)"

lemma de_string_Inr: "de_string v = Inr s \<longleftrightarrow> v = JvText s" by (cases v) auto
lemma de_bool_Inr: "de_bool v = Inr b \<longleftrightarrow> v = JvBool b" by (cases v) auto
lemma de_i64_Inr: "de_i64 v = Inr i \<longleftrightarrow> v = JvInt i \<and> - (2 ^ 63) \<le> i \<and> i < 2 ^ 63" by (cases v) auto

lemma readsI:
  assumes "\<And>v. acc v \<Longrightarrow> \<exists>x. de v = Inr x" "\<And>v x. de v = Inr x \<Longrightarrow> acc v \<and> render x = v"
  shows "reads de render acc"
  using assms unfolding reads_def by blast

lemma de_ranged_Inr:
  assumes "int hi < 2 ^ 63"
  shows "de_ranged fld lo hi v = Inr n \<longleftrightarrow> v = JvInt (int n) \<and> lo \<le> n \<and> n \<le> hi"
proof (cases v)
  case (JvInt i)
  have small: "- (2 ^ 63) \<le> i" "i < 2 ^ 63" if "0 \<le> i" "i \<le> int hi" using that assms by linarith+
  show ?thesis
  proof (cases "int lo \<le> i \<and> i \<le> int hi")
    case True
    with small have "de_ranged fld lo hi v = Inr (nat i)" by (simp add: JvInt de_ranged_def)
    with True JvInt show ?thesis by auto
  next
    case False
    then show ?thesis by (auto simp: JvInt de_ranged_def)
  qed
qed (simp_all add: de_ranged_def)

lemma unit_sum: "(\<forall>e. r \<noteq> Inl e) \<longleftrightarrow> r = Inr ()"
  by (cases r) auto

lemma de_text_Inr:
  "text_rule_of themes key = Some rule \<Longrightarrow>
   de_registered_text themes key v = Inr t \<longleftrightarrow> v = JvText t \<and> check_text rule t = Inr ()"
  by (cases v) (auto simp: de_registered_text_def split: sum.splits)

lemma de_token_Inr: "de_token fld tokens from v = Inr x \<longleftrightarrow> (\<exists>raw. v = JvText raw \<and> from raw = Some x)"
  unfolding de_token_def res_bind_Inr_iff de_string_Inr by (auto split: option.splits)

lemma reads_bool: "reads de_bool JvBool (kind_accepts Toggle)"
  by (rule readsI) (auto simp: de_bool_Inr split: jval.splits)

lemma reads_ranged: "int hi < 2 ^ 63 \<Longrightarrow> reads (de_ranged fld lo hi) (\<lambda>n. JvInt (int n)) (kind_accepts (Number lo hi))"
proof (rule readsI)
  fix v assume hi: "int hi < 2 ^ 63" and "kind_accepts (Number lo hi) v"
  then obtain i where "v = JvInt i" "int lo \<le> i" "i \<le> int hi" by (cases v) auto
  then show "\<exists>x. de_ranged fld lo hi v = Inr x"
    unfolding de_ranged_Inr [OF hi] by (intro exI [of _ "nat i"]) auto
qed (auto simp: de_ranged_Inr)

lemma reads_text:
  "text_rule_of themes key = Some rule \<Longrightarrow> reads (de_registered_text themes key) JvText (kind_accepts (TextKind rule))"
  by (rule readsI) (auto simp: de_text_Inr split: jval.splits)

lemma from_token_Some:
  assumes "distinct (map snd table)" "distinct (map fst table)"
  shows "from_token table raw = Some v \<longleftrightarrow> (v, raw) \<in> set table"
    and "(v, raw) \<in> set table \<Longrightarrow> token_of table v = raw"
proof -
  have "distinct (map fst (map (\<lambda>(v, t). (t, v)) table))"
    using assms(1) by (simp add: comp_def case_prod_unfold)
  from map_of_eq_Some_iff [OF this] show "from_token table raw = Some v \<longleftrightarrow> (v, raw) \<in> set table"
    by (force simp: from_token_def)
  show "(v, raw) \<in> set table \<Longrightarrow> token_of table v = raw"
    using assms(2) by (simp add: token_of_def)
qed

lemma reads_table:
  assumes "distinct (map snd table)" "distinct (map fst table)"
  shows "reads (de_token fld (tokens_of table) (from_token table)) (\<lambda>x. JvText (token_of table x))
    (kind_accepts (Choice (tokens_of table)))"
proof (rule readsI)
  fix v assume "kind_accepts (Choice (tokens_of table)) v"
  then obtain x raw where "(x, raw) \<in> set table" "v = JvText raw" by (auto simp: tokens_of_def)
  then show "\<exists>x. de_token fld (tokens_of table) (from_token table) v = Inr x"
    by (auto simp: de_token_Inr from_token_Some(1) [OF assms])
next
  fix v x assume "de_token fld (tokens_of table) (from_token table) v = Inr x"
  then obtain raw where "v = JvText raw" "(x, raw) \<in> set table"
    by (auto simp: de_token_Inr from_token_Some(1) [OF assms])
  then show "kind_accepts (Choice (tokens_of table)) v \<and> JvText (token_of table x) = v"
    by (force simp: tokens_of_def from_token_Some(2) [OF assms])
qed

lemma tables_distinct:
  "distinct (map snd engine_table)" "distinct (map fst engine_table)"
  "distinct (map snd archive_table)" "distinct (map fst archive_table)"
  "distinct (map snd dns_table)" "distinct (map fst dns_table)"
  by (simp_all add: engine_table_def archive_table_def dns_table_def)

lemma reads_theme:
  "reads (de_token ''theme'' (theme_tokens themes) (theme_from_token themes)) (\<lambda>x. JvText (theme_token x))
    (kind_accepts (Choice (theme_tokens themes)))"
  by (rule readsI) (auto simp: de_token_Inr theme_from_token_def theme_tokens_def split: if_splits)

text \<open>The domains of the whole document: what each section reads, and what it writes back.\<close>

definition doc_ok :: "string list \<Rightarrow> doc \<Rightarrow> bool" where
  "doc_ok themes d \<longleftrightarrow> (\<forall>(sec, leaf) \<in> fst ` set (config_rows config_default).
     \<forall>v. d sec leaf = Some v \<longrightarrow> accepts themes (sec @ ''.'' @ leaf) v)"

definition doc_or_default :: "doc \<Rightarrow> string \<Rightarrow> string \<Rightarrow> jval" where
  "doc_or_default d sec leaf = (case d sec leaf of Some v \<Rightarrow> v | None \<Rightarrow> the (config_doc config_default sec leaf))"

lemma leaf_or_reads:
  assumes "reads de render acc"
  shows "(\<exists>x. leaf_or d sec leaf de dflt = Inr x) \<longleftrightarrow> (\<forall>v. d sec leaf = Some v \<longrightarrow> acc v)"
    and "leaf_or d sec leaf de dflt = Inr x \<Longrightarrow>
      render x = (case d sec leaf of Some v \<Rightarrow> v | None \<Rightarrow> render dflt)"
  using assms by (auto simp: leaf_or_def reads_def split: option.splits)

lemma bounds_small:
  "int SIDEBAR_WIDTH_MAX < 2 ^ 63" "int TERMINAL_FONT_SIZE_MAX < 2 ^ 63"
  "int TERMINAL_LINE_HEIGHT_MAX < 2 ^ 63" "int TERMINAL_IMAGE_MEMORY_MB_MAX < 2 ^ 63"
  by (simp_all add: SIDEBAR_WIDTH_MAX_def TERMINAL_FONT_SIZE_MAX_def TERMINAL_LINE_HEIGHT_MAX_def
      TERMINAL_IMAGE_MEMORY_MB_MAX_def)

lemmas leaf_reads = reads_theme reads_bool
  reads_ranged [OF bounds_small(1)] reads_ranged [OF bounds_small(2)]
  reads_ranged [OF bounds_small(3)] reads_ranged [OF bounds_small(4)]
  reads_table [OF tables_distinct(1,2)] reads_table [OF tables_distinct(3,4)] reads_table [OF tables_distinct(5,6)]
  reads_text [OF text_rules(1)] reads_text [OF text_rules(2)] reads_text [OF text_rules(3)] reads_text [OF text_rules(4)]

lemmas leaf_ok = leaf_reads [THEN leaf_or_reads(1)]
lemmas leaf_back = leaf_reads [THEN leaf_or_reads(2)]

lemma bind_ex: "(\<exists>y. res_bind r f = Inr y) \<longleftrightarrow> (\<exists>x. r = Inr x \<and> (\<exists>y. f x = Inr y))"
  by (cases r) auto

lemma section_iff:
  "(\<exists>a. de_appearance themes d = Inr a) \<longleftrightarrow>
     (\<forall>v. d ''appearance'' ''theme'' = Some v \<longrightarrow> accepts themes ''appearance.theme'' v) \<and>
     (\<forall>v. d ''appearance'' ''sidebar_width'' = Some v \<longrightarrow> accepts themes ''appearance.sidebar_width'' v) \<and>
     (\<forall>v. d ''appearance'' ''sidebar_pinned'' = Some v \<longrightarrow> accepts themes ''appearance.sidebar_pinned'' v)"
  "(\<exists>a. de_browser themes d = Inr a) \<longleftrightarrow>
     (\<forall>v. d ''browser'' ''search_engine'' = Some v \<longrightarrow> accepts themes ''browser.search_engine'' v) \<and>
     (\<forall>v. d ''browser'' ''custom_search_template'' = Some v \<longrightarrow> accepts themes ''browser.custom_search_template'' v) \<and>
     (\<forall>v. d ''browser'' ''archive_after'' = Some v \<longrightarrow> accepts themes ''browser.archive_after'' v)"
  "(\<exists>a. de_network themes d = Inr a) \<longleftrightarrow>
     (\<forall>v. d ''network'' ''dns_mode'' = Some v \<longrightarrow> accepts themes ''network.dns_mode'' v) \<and>
     (\<forall>v. d ''network'' ''dns_custom_url'' = Some v \<longrightarrow> accepts themes ''network.dns_custom_url'' v) \<and>
     (\<forall>v. d ''network'' ''cover_page_traffic'' = Some v \<longrightarrow> accepts themes ''network.cover_page_traffic'' v)"
  "(\<exists>a. de_terminal themes d = Inr a) \<longleftrightarrow>
     (\<forall>v. d ''terminal'' ''font_family'' = Some v \<longrightarrow> accepts themes ''terminal.font_family'' v) \<and>
     (\<forall>v. d ''terminal'' ''font_size'' = Some v \<longrightarrow> accepts themes ''terminal.font_size'' v) \<and>
     (\<forall>v. d ''terminal'' ''line_height_percent'' = Some v \<longrightarrow> accepts themes ''terminal.line_height_percent'' v) \<and>
     (\<forall>v. d ''terminal'' ''ligatures'' = Some v \<longrightarrow> accepts themes ''terminal.ligatures'' v) \<and>
     (\<forall>v. d ''terminal'' ''background_tasks'' = Some v \<longrightarrow> accepts themes ''terminal.background_tasks'' v) \<and>
     (\<forall>v. d ''terminal'' ''image_memory_mb'' = Some v \<longrightarrow> accepts themes ''terminal.image_memory_mb'' v) \<and>
     (\<forall>v. d ''terminal'' ''paste_guard'' = Some v \<longrightarrow> accepts themes ''terminal.paste_guard'' v) \<and>
     (\<forall>v. d ''terminal'' ''completions_url'' = Some v \<longrightarrow> accepts themes ''terminal.completions_url'' v)"
  unfolding de_appearance_def de_browser_def de_network_def de_terminal_def Let_def bind_ex accepts_rows
  by (simp_all only: sum.inject simp_thms ex_simps leaf_ok)

text \<open>A document is accepted exactly when each of its leaves is in the domain of its registry row.\<close>

lemma de_config_iff: "(\<exists>c. de_config themes d = Inr c) \<longleftrightarrow> doc_ok themes d"
  unfolding de_config_def bind_ex
  by (simp only: sum.inject simp_thms ex_simps section_iff)
    (simp add: doc_ok_def config_rows_def Let_def conj_assoc)


section \<open>The registry and the deserialiser agree\<close>

text \<open>The leaves of the document are the registered settings, and their keys are \<open>section.leaf\<close>.\<close>

definition leaves :: "(string \<times> string) list" where
  "leaves = map fst (config_rows config_default)"

lemma split_key_Inr:
  "split_key key = Inr (sec, leaf) \<longleftrightarrow>
     key = sec @ ''.'' @ leaf \<and> sec \<noteq> [] \<and> leaf \<noteq> [] \<and> CHR ''.'' \<notin> set sec \<and> CHR ''.'' \<notin> set leaf"
proof
  assume split: "split_key key = Inr (sec, leaf)"
  let ?sec = "takeWhile (\<lambda>c. c \<noteq> CHR ''.'') key" and ?rest = "dropWhile (\<lambda>c. c \<noteq> CHR ''.'') key"
  have guards: "?rest \<noteq> [] \<and> ?sec \<noteq> [] \<and> tl ?rest \<noteq> [] \<and> CHR ''.'' \<notin> set (tl ?rest) \<and> ?sec = sec \<and> tl ?rest = leaf"
  proof (cases "?rest \<noteq> [] \<and> ?sec \<noteq> [] \<and> tl ?rest \<noteq> [] \<and> CHR ''.'' \<notin> set (tl ?rest)")
    case True
    then have "split_key key = Inr (?sec, tl ?rest)" unfolding split_key_def Let_def by (rule if_P)
    with split True show ?thesis by (simp only: sum.inject prod.inject simp_thms)
  next
    case False
    then have "\<exists>e. split_key key = Inl e" unfolding split_key_def Let_def by (metis if_not_P)
    with split show ?thesis by auto
  qed
  then have sec: "?sec = sec" "sec \<noteq> []" and rest: "?rest \<noteq> []" and leaf: "tl ?rest = leaf" "leaf \<noteq> []" "CHR ''.'' \<notin> set leaf"
    by blast+
  from hd_dropWhile [OF rest] have "hd ?rest = CHR ''.''" by (simp only: not_not)
  with rest leaf(1) have "?rest = ''.'' @ leaf" by (metis append_Cons append_Nil list.collapse)
  with takeWhile_dropWhile_id [of "\<lambda>c. c \<noteq> CHR ''.''" key] sec(1)
  have "sec @ ''.'' @ leaf = key" by (simp only:)
  then have key: "key = sec @ ''.'' @ leaf" by (rule sym)
  moreover have "CHR ''.'' \<notin> set sec" unfolding sec(1) [symmetric] by (auto dest: set_takeWhileD)
  ultimately show "key = sec @ ''.'' @ leaf \<and> sec \<noteq> [] \<and> leaf \<noteq> [] \<and> CHR ''.'' \<notin> set sec \<and> CHR ''.'' \<notin> set leaf"
    using sec(2) leaf(2,3) key by simp
next
  assume "key = sec @ ''.'' @ leaf \<and> sec \<noteq> [] \<and> leaf \<noteq> [] \<and> CHR ''.'' \<notin> set sec \<and> CHR ''.'' \<notin> set leaf"
  moreover from this have "takeWhile (\<lambda>c. c \<noteq> CHR ''.'') (sec @ ''.'' @ leaf) = sec"
      "dropWhile (\<lambda>c. c \<noteq> CHR ''.'') (sec @ ''.'' @ leaf) = ''.'' @ leaf"
    by (auto simp: takeWhile_append dropWhile_append)
  ultimately show "split_key key = Inr (sec, leaf)"
    by (simp add: split_key_def)
qed

lemma leaves_split: "(sec, leaf) \<in> set leaves \<Longrightarrow> split_key (sec @ ''.'' @ leaf) = Inr (sec, leaf)"
  by (auto simp: leaves_def config_rows_def Let_def split_key_Inr)

lemma leaves_sections: "(sec, leaf) \<in> set leaves \<Longrightarrow> sec \<in> {''appearance'', ''browser'', ''network'', ''terminal''}"
  by (auto simp: leaves_def config_rows_def Let_def)

lemma registered_keys: "se_key ` set (SETTINGS themes) = (\<lambda>(sec, leaf). sec @ ''.'' @ leaf) ` set leaves"
  by (simp add: SETTINGS_def leaves_def config_rows_def Let_def)

lemma registered_distinct: "distinct (map se_key (SETTINGS themes))"
  by (simp add: SETTINGS_def)

lemma find_setting_member: "s \<in> set (SETTINGS themes) \<Longrightarrow> find_setting themes (se_key s) = Some s"
proof -
  assume s: "s \<in> set (SETTINGS themes)"
  then have "find_setting themes (se_key s) \<noteq> None" by (auto simp: find_setting_def find_None_iff)
  then obtain s' where found: "find_setting themes (se_key s) = Some s'" by blast
  then have "s' \<in> set (SETTINGS themes)" "se_key s' = se_key s"
    by (auto simp: find_setting_def find_Some_iff)
  with s registered_distinct [of themes] have "s' = s" by (simp add: distinct_map inj_on_def)
  with found show ?thesis by simp
qed

lemma find_setting_Some: "find_setting themes key = Some s \<Longrightarrow> s \<in> set (SETTINGS themes) \<and> se_key s = key"
  by (auto simp: find_setting_def find_Some_iff)

lemma setting_for_Inr: "setting_for themes key = Inr s \<longleftrightarrow> find_setting themes key = Some s"
  by (auto simp: setting_for_def split: option.splits)

lemma registered_leaf:
  assumes "find_setting themes key = Some s"
  obtains sec leaf where "key = sec @ ''.'' @ leaf" "(sec, leaf) \<in> set leaves" "split_key key = Inr (sec, leaf)"
proof -
  from find_setting_Some [OF assms] have "key \<in> se_key ` set (SETTINGS themes)" by blast
  then obtain sec leaf where "(sec, leaf) \<in> set leaves" "key = sec @ ''.'' @ leaf"
    unfolding registered_keys by auto
  with leaves_split that show thesis by blast
qed

lemma doc_ok_alt: "doc_ok themes d \<longleftrightarrow>
    (\<forall>(sec, leaf) \<in> set leaves. \<forall>v. d sec leaf = Some v \<longrightarrow> accepts themes (sec @ ''.'' @ leaf) v)"
  by (simp add: doc_ok_def leaves_def)

text \<open>The registry that the interface shows and the deserialiser that decides agree. For every
  registered setting its key splits into a section and a leaf, and a candidate value passes the
  check before a write exactly when it is in the domain the row declares: one of the choices, a
  whole number between the bounds, true or false, or a text its rule allows.\<close>

theorem registry_is_the_check:
  assumes "s \<in> set (SETTINGS themes)"
  shows "\<exists>sec leaf. split_key (se_key s) = Inr (sec, leaf) \<and>
    (\<forall>v. check_value themes sec leaf v = Inr () \<longleftrightarrow> kind_accepts (se_kind s) v)"
proof -
  note found = find_setting_member [OF assms]
  then obtain sec leaf where leaf: "se_key s = sec @ ''.'' @ leaf" "(sec, leaf) \<in> set leaves"
    "split_key (se_key s) = Inr (sec, leaf)" by (rule registered_leaf)
  have "check_value themes sec leaf v = Inr () \<longleftrightarrow> kind_accepts (se_kind s) v" for v
  proof -
    have "check_value themes sec leaf v = Inr () \<longleftrightarrow> (\<exists>c. de_config themes (probe_doc sec leaf v) = Inr c)"
      by (auto simp: check_value_def res_bind_Inr_iff)
    also have "\<dots> \<longleftrightarrow> accepts themes (sec @ ''.'' @ leaf) v"
      unfolding de_config_iff doc_ok_alt using leaf(2) by (auto simp: probe_doc_def)
    also have "\<dots> \<longleftrightarrow> kind_accepts (se_kind s) v"
      using found leaf(1) by (simp add: accepts_def)
    finally show ?thesis .
  qed
  with leaf(3) show ?thesis by blast
qed

lemma registry_is_the_check_witness:
  "\<exists>sec leaf. split_key ''terminal.font_size'' = Inr (sec, leaf) \<and>
     check_value [] sec leaf (JvInt 48) = Inr () \<and> check_value [] sec leaf (JvInt 49) \<noteq> Inr ()"
proof -
  let ?s = "\<lparr>se_key = ''terminal.font_size'', se_kind = Number TERMINAL_FONT_SIZE_MIN TERMINAL_FONT_SIZE_MAX,
      se_section = ''appearance'', se_str_key = ''settings.appearance.terminalFontSize''\<rparr>"
  have "?s \<in> set (SETTINGS [])" by (simp add: SETTINGS_def)
  from registry_is_the_check [OF this] show ?thesis
    by (auto simp: TERMINAL_FONT_SIZE_MIN_def TERMINAL_FONT_SIZE_MAX_def)
qed

section \<open>What an accepted configuration holds\<close>

text \<open>Every leaf of an accepted configuration is the document's value or the default, and the defaults
  are in their own domains.\<close>

lemma default_leaves:
  "\<forall>(p, v) \<in> set (config_rows config_default). config_doc config_default (fst p) (snd p) = Some v"
  by (simp add: config_doc_def config_rows_def Let_def)

lemma leaf_value:
  assumes "reads de render acc" "leaf_or d sec leaf de dflt = Inr x" "config_doc config_default sec leaf = Some (render dflt)"
  shows "render x = doc_or_default d sec leaf"
  using leaf_or_reads(2) [OF assms(1,2)] assms(3) by (simp add: doc_or_default_def split: option.splits)

lemmas leaf_values = leaf_reads [THEN leaf_value]

lemma appearance_back:
  "de_appearance themes d = Inr a \<Longrightarrow>
     JvText (theme_token (ap_theme a)) = doc_or_default d ''appearance'' ''theme'' \<and>
     JvInt (int (ap_sidebar_width a)) = doc_or_default d ''appearance'' ''sidebar_width'' \<and>
     JvBool (ap_sidebar_pinned a) = doc_or_default d ''appearance'' ''sidebar_pinned''"
  unfolding de_appearance_def Let_def res_bind_Inr_iff using default_leaves
  by (auto dest!: leaf_values simp: config_rows_def Let_def)

lemma browser_back:
  "de_browser themes d = Inr b \<Longrightarrow>
     JvText (token_of engine_table (br_search_engine b)) = doc_or_default d ''browser'' ''search_engine'' \<and>
     JvText (br_custom_search_template b) = doc_or_default d ''browser'' ''custom_search_template'' \<and>
     JvText (token_of archive_table (br_archive_after b)) = doc_or_default d ''browser'' ''archive_after''"
  unfolding de_browser_def Let_def res_bind_Inr_iff using default_leaves
  by (auto dest!: leaf_values simp: config_rows_def Let_def)

lemma network_back:
  "de_network themes d = Inr n \<Longrightarrow>
     JvText (token_of dns_table (ne_dns_mode n)) = doc_or_default d ''network'' ''dns_mode'' \<and>
     JvText (ne_dns_custom_url n) = doc_or_default d ''network'' ''dns_custom_url'' \<and>
     JvBool (ne_cover_page_traffic n) = doc_or_default d ''network'' ''cover_page_traffic''"
  unfolding de_network_def Let_def res_bind_Inr_iff using default_leaves
  by (auto dest!: leaf_values simp: config_rows_def Let_def)

lemma terminal_back:
  "de_terminal themes d = Inr t \<Longrightarrow>
     JvText (te_font_family t) = doc_or_default d ''terminal'' ''font_family'' \<and>
     JvInt (int (te_font_size t)) = doc_or_default d ''terminal'' ''font_size'' \<and>
     JvInt (int (te_line_height_percent t)) = doc_or_default d ''terminal'' ''line_height_percent'' \<and>
     JvBool (te_ligatures t) = doc_or_default d ''terminal'' ''ligatures'' \<and>
     JvBool (te_background_tasks t) = doc_or_default d ''terminal'' ''background_tasks'' \<and>
     JvInt (int (te_image_memory_mb t)) = doc_or_default d ''terminal'' ''image_memory_mb'' \<and>
     JvBool (te_paste_guard t) = doc_or_default d ''terminal'' ''paste_guard'' \<and>
     JvText (te_completions_url t) = doc_or_default d ''terminal'' ''completions_url''"
  unfolding de_terminal_def Let_def res_bind_Inr_iff using default_leaves
  by (auto dest!: leaf_values simp: config_rows_def Let_def)


lemma config_holds:
  assumes "de_config themes d = Inr c" "(sec, leaf) \<in> set leaves"
  shows "config_doc c sec leaf = Some (doc_or_default d sec leaf)"
proof -
  from assms(1) obtain a b n t where c: "c = \<lparr>cf_appearance = a, cf_browser = b, cf_network = n, cf_terminal = t\<rparr>"
    and parts: "de_appearance themes d = Inr a" "de_browser themes d = Inr b" "de_network themes d = Inr n"
      "de_terminal themes d = Inr t"
    by (auto simp: de_config_def res_bind_Inr_iff)
  note held = appearance_back [OF parts(1)] browser_back [OF parts(2)] network_back [OF parts(3)] terminal_back [OF parts(4)]
  have "\<forall>((sec, leaf), v) \<in> set (config_rows c). v = doc_or_default d sec leaf"
    unfolding config_rows_def Let_def c using held by simp
  moreover have "map fst (config_rows c) = leaves" by (simp add: leaves_def config_rows_def Let_def)
  with assms(2) obtain v where "config_doc c sec leaf = Some v"
    unfolding config_doc_def by (metis (no_types) list.set_map map_of_eq_None_iff not_None_eq)
  ultimately show ?thesis
    unfolding config_doc_def by (auto dest: map_of_SomeD)
qed

lemma defaults_ok: "doc_ok themes (config_doc config_default)"
proof -
  have "\<forall>((sec, leaf), v) \<in> set (config_rows config_default). accepts themes (sec @ ''.'' @ leaf) v"
    by (simp add: config_rows_def accepts_rows Let_def config_default_def theme_tokens_def tokens_of_def token_of_def
        engine_table_def archive_table_def dns_table_def check_text_def default_completions_url_def ascii_lower_def
        SIDEBAR_WIDTH_MIN_def SIDEBAR_WIDTH_MAX_def TERMINAL_FONT_SIZE_MIN_def TERMINAL_FONT_SIZE_MAX_def
        TERMINAL_LINE_HEIGHT_MIN_def TERMINAL_LINE_HEIGHT_MAX_def TERMINAL_IMAGE_MEMORY_MB_MIN_def TERMINAL_IMAGE_MEMORY_MB_MAX_def)
  then show ?thesis
    unfolding doc_ok_alt config_doc_def by (auto dest: map_of_SomeD)
qed

text \<open>C23: Every accepted configuration is in its domains. Whatever document of settings is read, if it is
  accepted each field of the result is in the domain its registry row declares, each leaf is the
  document's value or the default, and it is accepted exactly when each leaf it has is in its domain.\<close>

theorem config_typed:
  "(case de_config themes d of
      Inr c \<Rightarrow> (\<forall>(sec, leaf) \<in> set leaves. \<exists>v. config_doc c sec leaf = Some v \<and> v = doc_or_default d sec leaf \<and>
        accepts themes (sec @ ''.'' @ leaf) v)
    | Inl e \<Rightarrow> (\<exists>(sec, leaf) \<in> set leaves. \<exists>v. d sec leaf = Some v \<and> \<not> accepts themes (sec @ ''.'' @ leaf) v))"
proof (cases "de_config themes d")
  case (Inl e)
  with de_config_iff [of themes d] show ?thesis by (auto simp: doc_ok_alt)
next
  case (Inr c)
  then have ok: "doc_ok themes d" using de_config_iff by blast
  have "accepts themes (sec @ ''.'' @ leaf) (doc_or_default d sec leaf)" if l: "(sec, leaf) \<in> set leaves" for sec leaf
  proof -
    from l obtain v where "config_doc config_default sec leaf = Some v"
      unfolding config_doc_def leaves_def by (metis (no_types, opaque_lifting) list.set_map map_of_eq_None_iff not_None_eq)
    with ok defaults_ok [of themes] l show ?thesis
      unfolding doc_ok_alt doc_or_default_def by (fastforce split: option.splits)
  qed
  with config_holds [OF Inr] show ?thesis by (auto simp: Inr)
qed


lemma config_typed_witness:
  "\<exists>c. de_config [] (probe_doc ''terminal'' ''font_size'' (JvInt 14)) = Inr c \<and>
     config_doc c ''terminal'' ''font_size'' = Some (JvInt 14)"
proof -
  let ?d = "probe_doc ''terminal'' ''font_size'' (JvInt 14)"
  have "\<not> (\<exists>(sec, leaf) \<in> set leaves. \<exists>v. ?d sec leaf = Some v \<and> \<not> accepts [] (sec @ ''.'' @ leaf) v)"
    by (auto simp: probe_doc_def accepts_rows TERMINAL_FONT_SIZE_MIN_def TERMINAL_FONT_SIZE_MAX_def)
  with config_typed [where themes = "[]" and d = ?d]
  obtain c where "de_config [] ?d = Inr c"
    and all: "\<forall>(sec, leaf) \<in> set leaves. \<exists>v. config_doc c sec leaf = Some v \<and> v = doc_or_default ?d sec leaf \<and>
        accepts [] (sec @ ''.'' @ leaf) v"
    by (cases "de_config [] ?d") auto
  moreover have "(''terminal'', ''font_size'') \<in> set leaves" by (simp add: leaves_def config_rows_def Let_def)
  ultimately show ?thesis by (fastforce simp: doc_or_default_def probe_doc_def)
qed

text \<open>Reading a configuration that was written out gives it back.\<close>

lemma leaf_again:
  assumes "reads de render acc" "acc (render dflt)" "leaf_or d sec leaf de dflt = Inr x" "d' sec leaf = Some (render x)"
    and "\<And>a b. render a = render b \<Longrightarrow> a = b"
  shows "leaf_or d' sec leaf de dflt' = Inr x"
proof -
  have "acc (render x)"
    using assms(1-3) leaf_or_reads(2) [OF assms(1,3)] unfolding reads_def leaf_or_def by (auto split: option.splits)
  with assms(1) obtain y where y: "de (render x) = Inr y" unfolding reads_def by blast
  with assms(1) have "render y = render x" unfolding reads_def by blast
  with y assms(4,5) show ?thesis by (auto simp: leaf_or_def)
qed

section \<open>Settings over the store\<close>

text \<open>What \<open>app.db\<close> holds is good when every row is a registered key with a value of its domain.\<close>

definition stored_ok :: "string list \<Rightarrow> (string \<Rightarrow> jval option) \<Rightarrow> (string \<rightharpoonup> string) \<Rightarrow> bool" where
  "stored_ok themes parse rows \<longleftrightarrow> (\<forall>k t. rows k = Some t \<longrightarrow> (\<exists>v. parse t = Some v \<and> accepts themes k v))"

definition stored_or_default :: "(string \<Rightarrow> jval option) \<Rightarrow> (string \<rightharpoonup> string) \<Rightarrow> string \<Rightarrow> string \<Rightarrow> jval option" where
  "stored_or_default parse rows sec leaf = (case rows (sec @ ''.'' @ leaf) of
     Some t \<Rightarrow> parse t | None \<Rightarrow> config_doc config_default sec leaf)"

lemma put_json_registered:
  "(sec, leaf) \<in> set leaves \<Longrightarrow> put_json_path (sec @ ''.'' @ leaf) v d = Inr (d(sec := (d sec)(leaf \<mapsto> v)))"
  using leaves_split [of sec leaf] leaves_sections [of sec leaf] by (auto simp: put_json_path_def)

lemma leaves_inj:
  "(sec, leaf) \<in> set leaves \<Longrightarrow> (sec', leaf') \<in> set leaves \<Longrightarrow> sec @ ''.'' @ leaf = sec' @ ''.'' @ leaf' \<longleftrightarrow> sec = sec' \<and> leaf = leaf'"
  using leaves_split [of sec leaf] leaves_split [of sec' leaf'] by (metis prod.inject sum.inject(2))

lemma overlay_rows_iff:
  "(\<exists>d'. overlay_rows themes parse rows d = Inr d') \<longleftrightarrow>
      (\<forall>(k, t) \<in> set rows. find_setting themes k \<noteq> None \<and> parse t \<noteq> None)"
proof (induction rows arbitrary: d)
  case (Cons row rows)
  obtain k t where row: "row = (k, t)" by (cases row)
  show ?case
  proof (cases "find_setting themes k")
    case None
    then show ?thesis by (simp add: row setting_for_def)
  next
    case (Some s)
    then obtain sec leaf where k: "k = sec @ ''.'' @ leaf" "(sec, leaf) \<in> set leaves" by (rule registered_leaf)
    with Some Cons.IH put_json_registered [OF k(2)] show ?thesis
      by (auto simp: row setting_for_def split: option.splits)
  qed
qed simp

lemma overlay_rows_value:
  assumes "distinct (map fst rows)" "overlay_rows themes parse rows d = Inr d'" and l: "(sec, leaf) \<in> set leaves"
  shows "d' sec leaf = (case map_of rows (sec @ ''.'' @ leaf) of Some t \<Rightarrow> parse t | None \<Rightarrow> d sec leaf)"
  using assms(1,2)
proof (induction rows arbitrary: d)
  case (Cons row rows)
  obtain k t where row: "row = (k, t)" by (cases row)
  from Cons.prems(1) have fresh: "map_of rows k = None" and dist: "distinct (map fst rows)"
    by (auto simp: row map_of_eq_None_iff)
  from Cons.prems(2) obtain s v where s: "find_setting themes k = Some s" and v: "parse t = Some v"
    by (auto simp: row setting_for_def split: option.splits)
  from s obtain sec0 leaf0 where k: "k = sec0 @ ''.'' @ leaf0" "(sec0, leaf0) \<in> set leaves" by (rule registered_leaf)
  with Cons.prems(2) s v put_json_registered [OF k(2)]
  have "overlay_rows themes parse rows (d(sec0 := (d sec0)(leaf0 \<mapsto> v))) = Inr d'"
    by (simp add: row setting_for_def)
  from Cons.IH [OF dist this] fresh v leaves_inj [OF l k(2)] show ?case
    by (auto simp: row k(1) split: option.splits)
qed simp

lemma stored_ok_set: "tb_ok (ad_settings db) \<Longrightarrow> stored_ok themes parse (map_of (setting_rows db)) \<longleftrightarrow>
    (\<forall>(k, t) \<in> set (setting_rows db). \<exists>v. parse t = Some v \<and> accepts themes k v)"
  using appdb.rows_distinct by (fastforce simp: stored_ok_def)

lemma accepts_registered: "accepts themes k v \<Longrightarrow> find_setting themes k \<noteq> None"
  by (auto simp: accepts_def split: option.splits)

text \<open>The stored settings form a configuration exactly when every row is good, and it then holds each
  stored value, and the default where none is stored.\<close>

lemma registered_config_iff:
  assumes db: "tb_ok (ad_settings db)"
  shows "(\<exists>c. registered_config themes parse None db = Inr c) \<longleftrightarrow> stored_ok themes parse (map_of (setting_rows db))"
    and "registered_config themes parse None db = Inr c \<Longrightarrow> (sec, leaf) \<in> set leaves \<Longrightarrow>
      config_doc c sec leaf = stored_or_default parse (map_of (setting_rows db)) sec leaf"
proof -
  let ?rows = "setting_rows db"
  note dist = appdb.rows_distinct [OF db]
  have run: "registered_config themes parse None db =
      res_bind (overlay_rows themes parse ?rows (config_doc config_default))
        (\<lambda>d. case de_config themes d of Inl e \<Rightarrow> Inl (BadConfig e) | Inr c' \<Rightarrow> Inr c')"
    by (simp add: registered_config_def apply_store_settings_def load_settings_def query_def)
  have doc: "(\<forall>(sec, leaf) \<in> set leaves. \<forall>v. d sec leaf = Some v \<longrightarrow> accepts themes (sec @ ''.'' @ leaf) v) \<longleftrightarrow>
      (\<forall>(k, t) \<in> set ?rows. \<exists>v. parse t = Some v \<and> accepts themes k v)"
    if d: "overlay_rows themes parse ?rows (config_doc config_default) = Inr d" for d
  proof -
    have good: "find_setting themes k \<noteq> None" "parse t \<noteq> None" if "(k, t) \<in> set ?rows" for k t
      using overlay_rows_iff [of themes parse ?rows "config_doc config_default"] d that by auto
    note held = overlay_rows_value [OF dist d]
    show ?thesis
    proof
      assume all: "\<forall>(sec, leaf) \<in> set leaves. \<forall>v. d sec leaf = Some v \<longrightarrow> accepts themes (sec @ ''.'' @ leaf) v"
      show "\<forall>(k, t) \<in> set ?rows. \<exists>v. parse t = Some v \<and> accepts themes k v"
      proof clarify
        fix k t assume kt: "(k, t) \<in> set ?rows"
        from good [OF kt] obtain s v where "find_setting themes k = Some s" and v: "parse t = Some v" by blast
        then obtain sec leaf where k: "k = sec @ ''.'' @ leaf" "(sec, leaf) \<in> set leaves" using registered_leaf by metis
        have "map_of ?rows k = Some t" using dist kt by simp
        with held [OF k(2)] v all k show "\<exists>v. parse t = Some v \<and> accepts themes k v" by fastforce
      qed
    next
      assume rows: "\<forall>(k, t) \<in> set ?rows. \<exists>v. parse t = Some v \<and> accepts themes k v"
      show "\<forall>(sec, leaf) \<in> set leaves. \<forall>v. d sec leaf = Some v \<longrightarrow> accepts themes (sec @ ''.'' @ leaf) v"
      proof clarify
        fix sec leaf v assume l: "(sec, leaf) \<in> set leaves" and v: "d sec leaf = Some v"
        with held [OF l] rows defaults_ok [of themes] show "accepts themes (sec @ ''.'' @ leaf) v"
          unfolding doc_ok_alt by (fastforce split: option.splits dest: map_of_SomeD)
      qed
    qed
  qed
  show "(\<exists>c. registered_config themes parse None db = Inr c) \<longleftrightarrow> stored_ok themes parse (map_of ?rows)"
  proof (cases "overlay_rows themes parse ?rows (config_doc config_default)")
    case (Inl e)
    then have "\<exists>(k, t) \<in> set ?rows. find_setting themes k = None \<or> parse t = None"
      using overlay_rows_iff [of themes parse ?rows "config_doc config_default"] by auto
    then show ?thesis unfolding run stored_ok_set [OF db] using accepts_registered Inl by fastforce
  next
    case (Inr d)
    then have "(\<exists>c. registered_config themes parse None db = Inr c) \<longleftrightarrow> (\<exists>c. de_config themes d = Inr c)"
      unfolding run by (auto split: sum.splits)
    with de_config_iff [of themes d] doc [OF Inr] show ?thesis
      unfolding stored_ok_set [OF db] doc_ok_alt by simp
  qed
  { assume "registered_config themes parse None db = Inr c" and l: "(sec, leaf) \<in> set leaves"
    then obtain d where d: "overlay_rows themes parse ?rows (config_doc config_default) = Inr d"
      "(case de_config themes d of Inl e \<Rightarrow> Inl (BadConfig e) | Inr c' \<Rightarrow> Inr c') = Inr c"
      unfolding run res_bind_Inr_iff by blast
    from d(2) have c: "de_config themes d = Inr c" by (cases "de_config themes d") auto
    obtain v where "config_doc config_default sec leaf = Some v"
      using l unfolding config_doc_def leaves_def by (metis (no_types, opaque_lifting) list.set_map map_of_eq_None_iff not_None_eq)
    moreover have "\<forall>k t. map_of ?rows k = Some t \<longrightarrow> (\<exists>v. parse t = Some v)"
      using overlay_rows_iff [of themes parse ?rows "config_doc config_default"] d(1) by (auto dest!: map_of_SomeD)
    ultimately show "config_doc c sec leaf = stored_or_default parse (map_of ?rows) sec leaf"
      using config_holds [OF c l] overlay_rows_value [OF dist d(1) l]
      by (fastforce simp: doc_or_default_def stored_or_default_def split: option.splits) }
qed


section \<open>A setting reads back\<close>

text \<open>What is checked is the stored value itself unless it is a float.\<close>

lemma kind_accepts_i64:
  "s \<in> set (SETTINGS themes) \<Longrightarrow> kind_accepts (se_kind s) (JvInt i) \<Longrightarrow> - (2 ^ 63) \<le> i \<and> i < 2 ^ 63 - 1"
  by (auto simp: SETTINGS_def SIDEBAR_WIDTH_MAX_def TERMINAL_FONT_SIZE_MAX_def TERMINAL_LINE_HEIGHT_MAX_def
      TERMINAL_IMAGE_MEMORY_MB_MAX_def)

lemma accepts_kinds:
  "\<not> accepts themes key (JvFloat r)" "\<not> accepts themes key JvNull" "\<not> accepts themes key JvOther"
  "accepts themes key (JvInt i) \<Longrightarrow> - (2 ^ 63) \<le> i \<and> i < 2 ^ 63 - 1"
proof -
  have "\<not> kind_accepts k (JvFloat r)" "\<not> kind_accepts k JvNull" "\<not> kind_accepts k JvOther" for k
    by (cases k; simp)+
  then show "\<not> accepts themes key (JvFloat r)" "\<not> accepts themes key JvNull" "\<not> accepts themes key JvOther"
    by (auto simp: accepts_def split: option.splits)
  show "accepts themes key (JvInt i) \<Longrightarrow> - (2 ^ 63) \<le> i \<and> i < 2 ^ 63 - 1"
    unfolding accepts_def using kind_accepts_i64 find_setting_Some by (fastforce split: option.splits)
qed

lemma candidate_of:
  assumes "\<forall>r. v \<noteq> JvFloat r"
  shows "accepts themes key v \<longleftrightarrow> (\<exists>c. to_toml_value print key v = Inr c \<and> accepts themes key c)"
proof (cases v)
  case (JvInt i)
  show ?thesis using accepts_kinds(1) [of themes key] accepts_kinds(4) [of themes key i] accepts_kinds(4) [of themes key "2 ^ 63 - 1"]
    by (auto simp: to_toml_value_def JvInt)
qed (use assms accepts_kinds in \<open>auto simp: to_toml_value_def\<close>)

lemma check_value_accepts:
  assumes "find_setting themes key = Some s" "split_key key = Inr (sec, leaf)"
  shows "check_value themes sec leaf c = Inr () \<longleftrightarrow> accepts themes key c"
proof -
  obtain sec' leaf' where leaf: "key = sec' @ ''.'' @ leaf'" "(sec', leaf') \<in> set leaves" "split_key key = Inr (sec', leaf')"
    using registered_leaf [OF assms(1)] by metis
  with assms(2) have "sec' = sec" "leaf' = leaf" by auto
  with leaf have l: "key = sec @ ''.'' @ leaf" "(sec, leaf) \<in> set leaves" by auto
  have "check_value themes sec leaf c = Inr () \<longleftrightarrow> (\<exists>x. de_config themes (probe_doc sec leaf c) = Inr x)"
    by (auto simp: check_value_def res_bind_Inr_iff)
  also have "\<dots> \<longleftrightarrow> accepts themes key c"
    unfolding de_config_iff doc_ok_alt using l by (auto simp: probe_doc_def)
  finally show ?thesis .
qed

lemma trim_not_blank: "\<not> is_cont d \<Longrightarrow> \<not> is_white [c] \<Longrightarrow> trim (c # d # s) \<noteq> []"
proof -
  assume "\<not> is_cont d" and c: "\<not> is_white [c]"
  then have r: "rchars (c # d # s) = [c] # rchars (d # s)" by simp
  with c have "trim_start (c # d # s) = c # d # s" by (simp add: trim_start_def del: rchars.simps)
  then have "trim (c # d # s) = concat (rev (dropWhile is_white (rev (rchars (d # s)) @ [[c]])))"
    by (simp add: trim_def trim_end_def r del: rchars.simps)
  then show ?thesis using c by (simp add: dropWhile_append3 del: rchars.simps)
qed

lemma registered_identifier: "find_setting themes key = Some s \<Longrightarrow> validate_identifier ''setting'' key = Inr ()"
proof -
  have "\<forall>k \<in> se_key ` set (SETTINGS themes). validate_identifier ''setting'' k = Inr ()"
    by (simp add: SETTINGS_def validate_identifier_def trim_not_blank is_cont_def is_white_def)
  then show "find_setting themes key = Some s \<Longrightarrow> validate_identifier ''setting'' key = Inr ()"
    using find_setting_Some by fastforce
qed

text \<open>The write itself: what it stores, and when.\<close>

lemma set_with_store_cases:
  assumes "set_with_store themes parse print fs key v db = (r, db')"
  obtains (refused) "r \<noteq> Inr ()" "db' = db"
      "find_setting themes key = None \<or> (\<forall>c. to_toml_value print key v = Inr c \<longrightarrow> \<not> accepts themes key c) \<or>
       sf_write fs \<noteq> None \<or> parse (print v) = None"
    | (stored) c where "to_toml_value print key v = Inr c" "accepts themes key c" "parse (print v) \<noteq> None" "sf_write fs = None"
        "save_setting None (\<lambda>t. parse t \<noteq> None) (sf_now fs) key (print v) db = (Inr (), db')"
        "r = res_bind (refresh_network_policy themes parse (sf_read fs) key db') (\<lambda>_. Inr ())"
proof (cases "find_setting themes key")
  case None
  with assms show thesis by (intro refused) (auto simp: set_with_store_def setting_for_def)
next
  case (Some s)
  then obtain sec leaf where split: "split_key key = Inr (sec, leaf)" by (rule registered_leaf)
  note check = check_value_accepts [OF Some split]
  have key: "se_key s = key" "setting_for themes key = Inr s" using find_setting_Some [OF Some] Some by (auto simp: setting_for_Inr)
  show thesis
  proof (cases "to_toml_value print key v")
    case (Inl e)
    with assms key split show thesis by (intro refused) (auto simp: set_with_store_def)
  next
    case (Inr c)
    show thesis
    proof (cases "accepts themes key c \<and> sf_write fs = None \<and> parse (print v) \<noteq> None")
      case True
      then have ok: "check_value themes sec leaf c = Inr ()" using check by blast
      obtain db1 where save: "save_setting None (\<lambda>t. parse t \<noteq> None) (sf_now fs) key (print v) db = (Inr (), db1)"
        using registered_identifier [OF Some] True by (auto simp: save_setting_def stmt_def validate_json_def)
      from assms True save have "r = res_bind (refresh_network_policy themes parse (sf_read fs) key db1) (\<lambda>_. Inr ())" "db' = db1"
        by (auto simp: set_with_store_def key split Inr ok)
      with save Inr True show thesis by (intro stored) auto
    next
      case False
      with assms check [of c] show thesis
        by (intro refused) (auto simp: set_with_store_def key split Inr save_setting_def stmt_def validate_json_def
            registered_identifier [OF Some] split: sum.splits option.splits)
    qed
  qed
qed


text \<open>A setting that was set reads back. Over settings that are good, setting a registered key to a
  value of its domain leaves the settings good, and the configuration read afterwards holds the
  value at that key and elsewhere what it held; a value outside the domain, an unknown key or a
  write that failed is refused and changes nothing. The value is text, a truth value or a whole
  number that prints and parses back to itself.\<close>

theorem set_then_read:
  assumes set: "set_with_store themes parse print fs key v db = (r, db')"
    and db: "tb_ok (ad_settings db)" and good: "stored_ok themes parse (map_of (setting_rows db))"
    and json: "parse (print v) = Some v" "\<forall>q. v \<noteq> JvFloat q"
  shows "(accepts themes key v \<and> sf_write fs = None \<and>
      (sf_read fs = None \<longrightarrow> r = Inr ()) \<and> tb_ok (ad_settings db') \<and> stored_ok themes parse (map_of (setting_rows db')) \<and>
      (\<exists>c c'. registered_config themes parse None db = Inr c \<and> registered_config themes parse None db' = Inr c' \<and>
        (\<forall>(sec, leaf) \<in> set leaves. config_doc c' sec leaf =
           (if sec @ ''.'' @ leaf = key then Some v else config_doc c sec leaf)))) \<or>
    (\<not> (accepts themes key v \<and> sf_write fs = None) \<and> r \<noteq> Inr () \<and> db' = db)"
  using set
proof (cases rule: set_with_store_cases)
  case refused
  have "\<not> (accepts themes key v \<and> sf_write fs = None)"
    using refused(3) candidate_of [OF json(2), of themes key print] json(1) accepts_registered by fastforce
  with refused(1,2) show ?thesis by blast
next
  case (stored cand)
  then have acc: "accepts themes key v" using candidate_of [OF json(2)] by blast
  let ?rows = "map_of (setting_rows db)" and ?rows' = "map_of (setting_rows db')"
  from appdb.save_ok [OF db stored(5)] have db': "tb_ok (ad_settings db')" and rows': "?rows' = ?rows(key \<mapsto> print v)"
    by blast+
  have good': "stored_ok themes parse ?rows'"
    using good acc json(1) unfolding rows' stored_ok_def by auto
  from good registered_config_iff(1) [OF db] obtain c where c: "registered_config themes parse None db = Inr c" by blast
  from good' registered_config_iff(1) [OF db'] obtain c' where c': "registered_config themes parse None db' = Inr c'" by blast
  have "config_doc c' sec leaf = (if sec @ ''.'' @ leaf = key then Some v else config_doc c sec leaf)"
    if l: "(sec, leaf) \<in> set leaves" for sec leaf
    using registered_config_iff(2) [OF db c l] registered_config_iff(2) [OF db' c' l] json(1)
    by (auto simp: stored_or_default_def rows')
  moreover have "sf_read fs = None \<longrightarrow> r = Inr ()"
    using stored(6) c' by (auto simp: refresh_network_policy_def)
  ultimately show ?thesis using acc stored(4) db' good' c c' by blast
qed

text \<open>Resetting a key takes its row away, whatever it held.\<close>

lemma reset_then_default:
  assumes "find_setting themes key = Some s" "tb_ok (ad_settings db)" "sf_write fs = None"
    "reset_with_store themes parse fs key db = (r, db')"
  shows "tb_ok (ad_settings db') \<and> map_of (setting_rows db') = (map_of (setting_rows db))(key := None)"
proof -
  obtain db1 where del: "delete_setting None key db = (Inr (), db1)"
    using registered_identifier [OF assms(1)] by (simp add: delete_setting_def stmt_def)
  with assms have "db' = db1" by (simp add: reset_with_store_def setting_for_def)
  with appdb.remove_ok [OF assms(2) del] show ?thesis by blast
qed

text \<open>A whole float breaks the configuration. A registered number set to a float that is a whole
  number of its domain is accepted, because the check looks at the integer it stands for; what is
  stored is the float, and from then on no read of the stored settings succeeds, whatever the other
  rows hold, until that row is written again or reset.\<close>

theorem whole_float_breaks_settings:
  assumes s: "s \<in> set (SETTINGS themes)" "se_kind s = Number lo hi" "lo \<le> n" "n \<le> hi"
    and db: "tb_ok (ad_settings db)" and ok: "sf_write fs = None"
    and json: "parse (print (JvFloat (of_nat n))) = Some (JvFloat (of_nat n))"
  shows "\<exists>db'. set_with_store themes parse print fs (se_key s) (JvFloat (of_nat n)) db = (Inr (), db') \<and>
    (\<forall>fault. \<exists>e. registered_config themes parse fault db' = Inl e)"
proof -
  let ?key = "se_key s" and ?v = "JvFloat (of_nat n)"
  note found = find_setting_member [OF s(1)]
  have small: "int n < 2 ^ 63 - 1" using kind_accepts_i64 [OF s(1), of "int n"] s(2-4) by simp
  have cand: "to_toml_value print ?key ?v = Inr (JvInt (int n))"
  proof -
    have "(of_nat n :: rat) = of_int (int n)" by simp
    moreover have "(of_int (- (2 ^ 63)) :: rat) \<le> of_int (int n)" "(of_int (int n) :: rat) \<le> of_int (2 ^ 63)"
      using small unfolding of_int_le_iff by simp_all
    ultimately show ?thesis using small by (simp add: to_toml_value_def)
  qed
  have acc: "accepts themes ?key (JvInt (int n))" using found s(2-4) by (simp add: accepts_def)
  obtain r db' where run: "set_with_store themes parse print fs ?key ?v db = (r, db')" by (metis surj_pair)
  have local: "takeWhile (\<lambda>c. c \<noteq> CHR ''.'') ?key \<noteq> ''network''"
    using s(1,2) by (auto simp: SETTINGS_def)
  have "map_of (setting_rows db') ?key = Some (print ?v) \<and> tb_ok (ad_settings db') \<and> r = Inr ()"
    using run
  proof (cases rule: set_with_store_cases)
    case refused
    with found cand acc ok json show ?thesis by auto
  next
    case (stored c)
    with appdb.save_ok [OF db stored(5)] local show ?thesis by (simp add: refresh_network_policy_def)
  qed
  then have row: "map_of (setting_rows db') ?key = Some (print ?v)" and tb: "tb_ok (ad_settings db')" and r: "r = Inr ()"
    by blast+
  have "\<not> stored_ok themes parse (map_of (setting_rows db'))"
    using row json accepts_kinds(1) unfolding stored_ok_def by fastforce
  with registered_config_iff(1) [OF tb] have none: "registered_config themes parse None db' \<noteq> Inr c" for c by blast
  have "\<exists>e. registered_config themes parse fault db' = Inl e" for fault
  proof (cases fault)
    case None
    with none show ?thesis by (cases "registered_config themes parse fault db'") auto
  qed (simp add: registered_config_def apply_store_settings_def load_settings_def query_def)
  with run r show ?thesis by blast
qed


section \<open>Round trip and examples\<close>

lemma token_engine_inj: "token_of engine_table a = token_of engine_table b \<longleftrightarrow> a = b"
  by (cases a; cases b) (simp_all add: token_of_def engine_table_def)
lemma token_archive_inj: "token_of archive_table a = token_of archive_table b \<longleftrightarrow> a = b"
  by (cases a; cases b) (simp_all add: token_of_def archive_table_def)
lemma token_dns_inj: "token_of dns_table a = token_of dns_table b \<longleftrightarrow> a = b"
  by (cases a; cases b) (simp_all add: token_of_def dns_table_def)

lemma theme_token_inj:
  "t \<noteq> NamedTheme SYSTEM_THEME \<Longrightarrow> t' \<noteq> NamedTheme SYSTEM_THEME \<Longrightarrow> theme_token t = theme_token t' \<longleftrightarrow> t = t'"
  by (cases t; cases t') auto

lemma theme_leaf: "leaf_or d sec leaf (de_token fld tokens (theme_from_token themes)) dflt = Inr t \<Longrightarrow>
    dflt = SystemTheme \<Longrightarrow> t \<noteq> NamedTheme SYSTEM_THEME"
  by (cases "d sec leaf") (auto simp: leaf_or_def de_token_Inr theme_from_token_def split: if_splits)

lemma theme_read:
  assumes "de_config themes d = Inr c"
  shows "ap_theme (cf_appearance c) \<noteq> NamedTheme SYSTEM_THEME"
proof -
  from assms obtain a where a: "de_appearance themes d = Inr a" "cf_appearance c = a"
    by (auto simp: de_config_def res_bind_Inr_iff)
  from a(1) obtain t w pin where t: "leaf_or d ''appearance'' ''theme''
      (de_token ''theme'' (theme_tokens themes) (theme_from_token themes)) (ap_theme (cf_appearance config_default)) = Inr t"
    "Inr \<lparr>ap_theme = t, ap_sidebar_width = w, ap_sidebar_pinned = pin\<rparr> = (Inr a :: de_error + appearance)"
    unfolding de_appearance_def Let_def res_bind_Inr_iff by blast
  from t(2) have "ap_theme a = t" by auto
  moreover have "t \<noteq> NamedTheme SYSTEM_THEME"
    by (rule theme_leaf [OF t(1)]) (simp add: config_default_def)
  ultimately show ?thesis unfolding a(2) by simp
qed

lemma config_eqI:
  assumes rows: "config_rows c = config_rows c'"
    and "ap_theme (cf_appearance c) \<noteq> NamedTheme SYSTEM_THEME" "ap_theme (cf_appearance c') \<noteq> NamedTheme SYSTEM_THEME"
  shows "c = c'"
proof -
  note inj = theme_token_inj [OF assms(2,3)] token_engine_inj token_archive_inj token_dns_inj
  from rows have "cf_appearance c = cf_appearance c'"
    unfolding config_rows_def Let_def by (intro appearance.equality) (simp_all add: inj)
  moreover from rows have "cf_browser c = cf_browser c'"
    unfolding config_rows_def Let_def by (intro browser.equality) (simp_all add: inj)
  moreover from rows have "cf_network c = cf_network c'"
    unfolding config_rows_def Let_def by (intro network.equality) (simp_all add: inj)
  moreover from rows have "cf_terminal c = cf_terminal c'"
    unfolding config_rows_def Let_def by (intro terminal_settings.equality) (simp_all add: inj)
  ultimately show ?thesis by (intro config.equality) simp_all
qed

lemma rows_of_doc:
  assumes "\<And>sec leaf. (sec, leaf) \<in> set leaves \<Longrightarrow> config_doc c sec leaf = config_doc c' sec leaf"
  shows "config_rows c = config_rows c'"
proof -
  have keys: "map fst (config_rows x) = leaves" for x by (simp add: leaves_def config_rows_def Let_def)
  have dist: "distinct leaves" by (simp add: leaves_def config_rows_def Let_def)
  have "config_rows x = map (\<lambda>p. (p, the (config_doc x (fst p) (snd p)))) leaves" for x
    unfolding keys [of x, symmetric] map_map
    by (rule map_idI [symmetric]) (use dist keys [of x] in \<open>auto simp: config_doc_def\<close>)
  with assms show ?thesis by (metis (no_types, lifting) map_eq_conv prod.collapse)
qed

text \<open>Reading back what was written out. The configuration an accepted document gives, written out as
  the interface receives it, reads back as the same configuration.\<close>

theorem config_roundtrip:
  assumes c: "de_config themes d = Inr c"
  shows "de_config themes (config_doc c) = Inr c"
proof -
  from config_typed [of d themes] have typed: "\<forall>(sec, leaf) \<in> set leaves. \<exists>v. config_doc c sec leaf = Some v \<and> accepts themes (sec @ ''.'' @ leaf) v"
    by (fastforce simp: c)
  then have "doc_ok themes (config_doc c)" unfolding doc_ok_alt by fastforce
  then obtain c' where c': "de_config themes (config_doc c) = Inr c'" using de_config_iff by blast
  have "config_doc c' sec leaf = config_doc c sec leaf" if l: "(sec, leaf) \<in> set leaves" for sec leaf
    using config_holds [OF c' l] typed l by (auto simp: doc_or_default_def)
  then have "c' = c"
    using rows_of_doc theme_read [OF c] theme_read [OF c'] config_eqI by blast
  with c' show ?thesis by simp
qed

lemma config_roundtrip_witness:
  "\<exists>c. de_config [''nord''] (probe_doc ''appearance'' ''theme'' (JvText ''nord'')) = Inr c \<and>
     de_config [''nord''] (config_doc c) = Inr c"
proof -
  have "doc_ok [''nord''] (probe_doc ''appearance'' ''theme'' (JvText ''nord''))"
    by (auto simp: doc_ok_alt probe_doc_def accepts_rows theme_tokens_def)
  then obtain c where "de_config [''nord''] (probe_doc ''appearance'' ''theme'' (JvText ''nord'')) = Inr c"
    using de_config_iff by blast
  with config_roundtrip [OF this] show ?thesis by blast
qed

text \<open>A parser and a printer of a few values, for the examples.\<close>

definition demo_texts :: "(string \<times> jval) list" where
  "demo_texts = [(''300'', JvInt 300), (''300.0'', JvFloat 300), (''true'', JvBool True)]"

definition demo_parse :: "string \<Rightarrow> jval option" where "demo_parse = map_of demo_texts"

definition demo_print :: "jval \<Rightarrow> string" where
  "demo_print v = (case find (\<lambda>p. snd p = v) demo_texts of Some p \<Rightarrow> fst p | None \<Rightarrow> ''null'')"

abbreviation calm :: set_faults where "calm \<equiv> \<lparr>sf_write = None, sf_read = None, sf_now = 0\<rparr>"

lemma empty_settings: "tb_ok (ad_settings empty_app_db)" "stored_ok themes parse (map_of (setting_rows empty_app_db))"
  by (simp_all add: empty_app_db_def tb_ok_def stored_ok_def setting_rows_def tb_ordered_def)

lemma set_then_read_witness:
  "\<exists>c. registered_config [] demo_parse None
      (snd (set_with_store [] demo_parse demo_print calm ''appearance.sidebar_width'' (JvInt 300) empty_app_db)) = Inr c \<and>
    config_doc c ''appearance'' ''sidebar_width'' = Some (JvInt 300)"
proof -
  obtain r db' where run: "set_with_store [] demo_parse demo_print calm ''appearance.sidebar_width'' (JvInt 300) empty_app_db = (r, db')"
    by (metis surj_pair)
  have json: "demo_parse (demo_print (JvInt 300)) = Some (JvInt 300)" "\<forall>q. JvInt 300 \<noteq> JvFloat q"
    by (simp_all add: demo_parse_def demo_print_def demo_texts_def)
  have "accepts [] ''appearance.sidebar_width'' (JvInt 300)"
    by (simp add: accepts_rows SIDEBAR_WIDTH_MIN_def SIDEBAR_WIDTH_MAX_def)
  moreover have "(''appearance'', ''sidebar_width'') \<in> set leaves" by (simp add: leaves_def config_rows_def Let_def)
  ultimately show ?thesis using set_then_read [OF run empty_settings json] run by fastforce
qed

lemma whole_float_breaks_settings_witness:
  "\<exists>db'. set_with_store [] demo_parse demo_print calm ''appearance.sidebar_width'' (JvFloat 300) empty_app_db = (Inr (), db') \<and>
    (\<exists>e. registered_config [] demo_parse None db' = Inl e)"
proof -
  let ?s = "\<lparr>se_key = ''appearance.sidebar_width'', se_kind = Number SIDEBAR_WIDTH_MIN SIDEBAR_WIDTH_MAX,
      se_section = ''appearance'', se_str_key = ''settings.appearance.sidebarWidth''\<rparr>"
  have "?s \<in> set (SETTINGS [])" by (simp add: SETTINGS_def)
  from whole_float_breaks_settings [OF this, of SIDEBAR_WIDTH_MIN SIDEBAR_WIDTH_MAX 300 empty_app_db calm demo_parse demo_print]
  show ?thesis
    using empty_settings(1) by (fastforce simp: SIDEBAR_WIDTH_MIN_def SIDEBAR_WIDTH_MAX_def demo_parse_def demo_print_def demo_texts_def)
qed

end
