(* ===== verification/Files_Tree.thy ===== *)
theory Files_Tree
  imports Rust_Str "HOL-Library.AList"
begin

text \<open>
  The file system the files backend (\<open>crates/tabverse-fs\<close>) works on: a tree of folders, files with
  a modification time in seconds, and links, which are leaves here. A path is the list of its
  components from the root. Every call to the system may be refused or stop part-way; what goes
  wrong is a list that the calls consume.
\<close>

datatype ftree = FFile string nat | FDir "(string \<times> ftree) list" | FLink string

type_synonym fpath = "string list"

fun lookup :: "ftree \<Rightarrow> fpath \<Rightarrow> ftree option" where
  "lookup t [] = Some t"
| "lookup (FDir es) (c # cs) = (case map_of es c of Some t \<Rightarrow> lookup t cs | None \<Rightarrow> None)"
| "lookup t (c # cs) = None"

text \<open>Setting or removing the entry at a path whose folder exists.\<close>

fun set_at :: "fpath \<Rightarrow> ftree option \<Rightarrow> ftree \<Rightarrow> ftree" where
  "set_at [] v t = t"
| "set_at [c] v (FDir es) = FDir (case v of Some x \<Rightarrow> AList.update c x es | None \<Rightarrow> AList.delete c es)"
| "set_at (c # cs) v (FDir es) = FDir (case map_of es c of Some t \<Rightarrow> AList.update c (set_at cs v t) es | None \<Rightarrow> es)"
| "set_at (c # cs) v t = t"

fun is_folder :: "ftree option \<Rightarrow> bool" where
  "is_folder (Some (FDir _)) = True"
| "is_folder _ = False"

lemma is_folder_iff: "is_folder x \<longleftrightarrow> (\<exists>es. x = Some (FDir es))"
  by (cases x rule: is_folder.cases) auto

lemma lookup_append: "lookup t (p @ q) = (case lookup t p of Some s \<Rightarrow> lookup s q | None \<Rightarrow> None)"
proof (induction p arbitrary: t)
  case (Cons c p)
  then show ?case by (cases t) (auto split: option.splits)
qed simp

lemma lookup_folder_above: "lookup t (p @ [c]) \<noteq> None \<Longrightarrow> is_folder (lookup t p)"
proof -
  assume "lookup t (p @ [c]) \<noteq> None"
  then obtain s where "lookup t p = Some s" "lookup s [c] \<noteq> None" by (auto simp: lookup_append split: option.splits)
  then show ?thesis by (cases s) auto
qed

lemma lookup_prefix_none: "lookup t p = None \<Longrightarrow> lookup t (p @ q) = None"
  by (simp add: lookup_append)

lemma set_at_step:
  "is_folder (lookup t (butlast p)) \<Longrightarrow> p \<noteq> [] \<Longrightarrow>
   lookup (set_at p v t) (p @ q) = (case v of Some x \<Rightarrow> lookup x q | None \<Rightarrow> None)"
proof (induction p v t rule: set_at.induct)
  case (2 c v es)
  then show ?case by (cases v) (simp_all add: update_conv' delete_conv')
next
  case (3 c d cs v es)
  then show ?case by (cases "map_of es c") (auto simp: update_conv')
qed (auto simp: is_folder_iff split: if_splits)

text \<open>What is not below the path and not above it stays, and what is above it stays a folder.\<close>

lemma set_at_beside: "\<not> prefix p q \<Longrightarrow> \<not> prefix q p \<Longrightarrow> lookup (set_at p v t) q = lookup t q"
proof (induction p v t arbitrary: q rule: set_at.induct)
  case (2 c v es)
  then show ?case by (cases q; cases v) (auto simp: update_conv' delete_conv')
next
  case (3 c d cs v es)
  show ?case
  proof (cases q)
    case (Cons e qs)
    show ?thesis
    proof (cases "map_of es c")
      case (Some t')
      with 3 Cons show ?thesis by (cases "e = c") (auto simp: update_conv')
    qed (simp add: Cons)
  qed (use 3 in simp)
qed auto

lemma set_at_above_folder: "strict_prefix q p \<Longrightarrow> is_folder (lookup (set_at p v t) q) \<longleftrightarrow> is_folder (lookup t q)"
proof (induction p v t arbitrary: q rule: set_at.induct)
  case (2 c v es)
  then show ?case by (auto simp: strict_prefix_def prefix_Cons)
next
  case (3 c d cs v es)
  show ?case
  proof (cases q)
    case (Cons e qs)
    with 3(2) have "e = c" "strict_prefix qs (d # cs)" by (auto simp: strict_prefix_def prefix_Cons)
    with 3(1) Cons show ?thesis by (cases "map_of es c") (auto simp: update_conv')
  qed simp
qed auto

lemma set_at_file_beside:
  assumes "\<not> prefix p q" "\<not> is_folder (lookup t q)"
  shows "lookup (set_at p v t) q = lookup t q"
proof (cases "prefix q p")
  case True
  with assms(1) have "strict_prefix q p" by (auto simp: strict_prefix_def)
  then obtain c r where p: "p = q @ c # r" by (auto elim: strict_prefixE')
  have "set_at (c # r) v s = s" if "\<not> is_folder (Some s)" for s
    using that by (cases s) auto
  show ?thesis
    using assms(2) unfolding p
  proof (induction q arbitrary: t)
    case Nil
    then show ?case by (cases t) auto
  next
    case (Cons e q)
    show ?case
    proof (cases t)
      case (FDir es)
      with Cons show ?thesis by (cases q; cases "map_of es e") (auto simp: update_conv')
    qed auto
  qed
qed (use assms in \<open>simp add: set_at_beside\<close>)

section \<open>The system\<close>

datatype fs_fault = FsRefused | FsCut nat

record fsys =
  fy_tree :: ftree
  fy_faults :: "fs_fault option list"
  fy_now :: nat

abbreviation look :: "fsys \<Rightarrow> fpath \<Rightarrow> ftree option" where
  "look w p \<equiv> lookup (fy_tree w) p"

definition sys_fault :: "fsys \<Rightarrow> fs_fault option \<times> fsys" where
  "sys_fault w = (case fy_faults w of [] \<Rightarrow> (None, w) | f # fs \<Rightarrow> (f, w\<lparr>fy_faults := fs\<rparr>))"

definition put_tree :: "fpath \<Rightarrow> ftree option \<Rightarrow> fsys \<Rightarrow> fsys" where
  "put_tree p v w = w\<lparr>fy_tree := set_at p v (fy_tree w)\<rparr>"

text \<open>\<open>Path::exists\<close> and \<open>Path::is_dir\<close>.\<close>

definition fs_exists :: "fsys \<Rightarrow> fpath \<Rightarrow> bool" where
  "fs_exists w p \<longleftrightarrow> look w p \<noteq> None"

definition fs_is_dir :: "fsys \<Rightarrow> fpath \<Rightarrow> bool" where
  "fs_is_dir w p \<longleftrightarrow> is_folder (look w p)"

definition fs_is_file :: "fsys \<Rightarrow> fpath \<Rightarrow> bool" where
  "fs_is_file w p \<longleftrightarrow> (case look w p of Some (FFile _ _) \<Rightarrow> True | _ \<Rightarrow> False)"

text \<open>\<open>fs::read\<close> of a whole file.\<close>

definition sys_read :: "fpath \<Rightarrow> fsys \<Rightarrow> string option \<times> fsys" where
  "sys_read p w = (case sys_fault w of
     (Some _, w1) \<Rightarrow> (None, w1)
   | (None, w1) \<Rightarrow> (case look w1 p of Some (FFile b _) \<Rightarrow> (Some b, w1) | _ \<Rightarrow> (None, w1)))"

text \<open>\<open>fs::write\<close>: the file is truncated and written; a cut leaves what was written.\<close>

definition sys_write :: "fpath \<Rightarrow> string \<Rightarrow> fsys \<Rightarrow> bool \<times> fsys" where
  "sys_write p content w = (case sys_fault w of
     (Some FsRefused, w1) \<Rightarrow> (False, w1)
   | (f, w1) \<Rightarrow>
       (if p = [] \<or> fs_is_dir w1 p \<or> \<not> fs_is_dir w1 (butlast p) then (False, w1)
        else case f of
          Some (FsCut n) \<Rightarrow> (False, put_tree p (Some (FFile (take n content) (fy_now w1))) w1)
        | _ \<Rightarrow> (True, put_tree p (Some (FFile content (fy_now w1))) w1)))"

text \<open>\<open>create_dir_all\<close>: each missing folder above and the folder itself.\<close>

fun make_folders :: "fpath \<Rightarrow> fpath \<Rightarrow> fsys \<Rightarrow> bool \<times> fsys" where
  "make_folders up [] w = (fs_is_dir w up, w)"
| "make_folders up (c # cs) w =
     (if \<not> fs_is_dir w up then (False, w)
      else let p = up @ [c] in
        if fs_exists w p then make_folders p cs w
        else case sys_fault w of
          (Some _, w1) \<Rightarrow> (False, w1)
        | (None, w1) \<Rightarrow> make_folders p cs (put_tree p (Some (FDir [])) w1))"

definition sys_create_dir_all :: "fpath \<Rightarrow> fsys \<Rightarrow> bool \<times> fsys" where
  "sys_create_dir_all p w = make_folders [] p w"

text \<open>\<open>rename(2)\<close>: over a file or nothing; a folder not into itself.\<close>

definition sys_rename :: "fpath \<Rightarrow> fpath \<Rightarrow> fsys \<Rightarrow> bool \<times> fsys" where
  "sys_rename src dst w = (case sys_fault w of
     (Some _, w1) \<Rightarrow> (False, w1)
   | (None, w1) \<Rightarrow> (case look w1 src of
       None \<Rightarrow> (False, w1)
     | Some t \<Rightarrow>
         (if src = dst then (True, w1)
          else if src = [] \<or> dst = [] \<or> prefix src dst \<or> \<not> fs_is_dir w1 (butlast dst) \<or>
            (case look w1 dst of None \<Rightarrow> False
             | Some (FDir es) \<Rightarrow> \<not> is_folder (Some t) \<or> es \<noteq> []
             | Some _ \<Rightarrow> is_folder (Some t)) then (False, w1)
          else (True, put_tree dst (Some t) (put_tree src None w1)))))"

text \<open>\<open>remove_file\<close>, and \<open>remove_dir_all\<close>, which a fault may stop after some entries.\<close>

definition sys_remove_file :: "fpath \<Rightarrow> fsys \<Rightarrow> bool \<times> fsys" where
  "sys_remove_file p w = (case sys_fault w of
     (Some _, w1) \<Rightarrow> (False, w1)
   | (None, w1) \<Rightarrow> (if p \<noteq> [] \<and> look w1 p \<noteq> None \<and> \<not> fs_is_dir w1 p then (True, put_tree p None w1) else (False, w1)))"

definition sys_remove_dir_all :: "fpath \<Rightarrow> fsys \<Rightarrow> bool \<times> fsys" where
  "sys_remove_dir_all p w = (case sys_fault w of
     (Some FsRefused, w1) \<Rightarrow> (False, w1)
   | (f, w1) \<Rightarrow> (case look w1 p of
       Some (FDir es) \<Rightarrow>
         (if p = [] then (False, w1)
          else case f of
            Some (FsCut n) \<Rightarrow> (False, put_tree p (Some (FDir (drop n es))) w1)
          | _ \<Rightarrow> (True, put_tree p None w1))
     | _ \<Rightarrow> (False, w1)))"

text \<open>\<open>fs::copy\<close> of a file.\<close>

definition sys_copy :: "fpath \<Rightarrow> fpath \<Rightarrow> fsys \<Rightarrow> bool \<times> fsys" where
  "sys_copy src dst w = (case look w src of
     Some (FFile b _) \<Rightarrow> sys_write dst b w
   | _ \<Rightarrow> (False, w))"

end
