(* ===== verification/Files_Backend.thy ===== *)
theory Files_Backend
  imports Files_Tree
begin

text \<open>
  The files backend (\<open>crates/tabverse-fs/src/lib.rs\<close>): opening, paging, saving, copying and moving.
  A link is followed one step, its target is not a link, and a path has no dot-dot. The system's
  trash, git and the base64 encoder are other crates and parameters; \<open>lower\<close> is
  \<open>str::to_lowercase\<close>, whose tables are Unicode's.
\<close>

section \<open>Paths\<close>

definition path_comps :: "string \<Rightarrow> fpath" where
  "path_comps p = filter (\<lambda>s. s \<noteq> [] \<and> s \<noteq> ''.'') (split_on (CHR 0x2F) p)"

definition join_path :: "string \<Rightarrow> string \<Rightarrow> string" where
  "join_path base p =
     (if prefix ''/'' p then p
      else if base = [] \<or> last base = CHR 0x2F then base @ p else base @ ''/'' @ p)"

definition expand_path :: "string \<Rightarrow> string \<Rightarrow> string \<Rightarrow> string" where
  "expand_path home cwd p =
     (let raw = (if prefix ''~'' p
                 then let rest = dropWhile (\<lambda>c. c = CHR 0x2F) (drop 1 p) in
                   if rest = [] then home else join_path home rest
                 else p)
      in if prefix ''/'' raw then raw else join_path cwd raw)"

text \<open>\<open>rsplit_once('.')\<close>.\<close>

definition rsplit_dot :: "string \<Rightarrow> (string \<times> string) option" where
  "rsplit_dot name =
     (if CHR ''.'' \<in> set name
      then Some (rev (tl (dropWhile (\<lambda>c. c \<noteq> CHR ''.'') (rev name))), rev (takeWhile (\<lambda>c. c \<noteq> CHR ''.'') (rev name)))
      else None)"

text \<open>The part a number goes behind, and the extension it goes before.\<close>

definition stem_ext :: "string \<Rightarrow> string \<times> string" where
  "stem_ext name = (case rsplit_dot name of
     Some (s, e) \<Rightarrow> (if s \<noteq> [] then (s, ''.'' @ e) else (name, []))
   | None \<Rightarrow> (name, []))"

definition numbered :: "string \<Rightarrow> nat \<Rightarrow> string" where
  "numbered name n = (let (stem, ext) = stem_ext name in stem @ '' '' @ show_nat n @ ext)"

definition name_numbers :: "nat list" where "name_numbers = [2..<10000]"

definition free_name :: "fsys \<Rightarrow> fpath \<Rightarrow> string \<Rightarrow> fpath" where
  "free_name w dir name =
     (if \<not> fs_exists w (dir @ [name]) then dir @ [name]
      else case find (\<lambda>n. \<not> fs_exists w (dir @ [numbered name n])) name_numbers of
        Some n \<Rightarrow> dir @ [numbered name n]
      | None \<Rightarrow> (let (stem, ext) = stem_ext name in dir @ [stem @ '' copy'' @ ext]))"

section \<open>Copying and moving\<close>

datatype files_error =
    NotThere fpath | NotAFolder fpath | IntoItself | NoName | NotTrashed fpath | CannotCopy fpath | CannotRemove fpath
  | AlreadyExists fpath | CannotWrite fpath | CannotReplace fpath | CannotStat fpath | IsDirectory fpath
  | NotRegular fpath | CannotCreate fpath | CannotRename fpath | CannotRead fpath

text \<open>\<open>copy_tree\<close> with the folder's entries as it reads them; a link is skipped.\<close>

fun copy_tree :: "ftree \<Rightarrow> fpath \<Rightarrow> fsys \<Rightarrow> bool \<times> fsys"
  and copy_entries :: "(string \<times> ftree) list \<Rightarrow> fpath \<Rightarrow> fsys \<Rightarrow> bool \<times> fsys" where
  "copy_tree (FDir es) dst w = (case sys_create_dir_all dst w of
     (False, w1) \<Rightarrow> (False, w1)
   | (True, w1) \<Rightarrow> (case sys_fault w1 of
       (Some _, w2) \<Rightarrow> (False, w2)
     | (None, w2) \<Rightarrow> copy_entries es dst w2))"
| "copy_tree (FFile b m) dst w = sys_write dst b w"
| "copy_tree (FLink l) dst w = (True, w)"
| "copy_entries [] dst w = (True, w)"
| "copy_entries ((c, t) # es) dst w = (case copy_tree t (dst @ [c]) w of
     (False, w1) \<Rightarrow> (False, w1)
   | (True, w1) \<Rightarrow> copy_entries es dst w1)"

type_synonym trasher = "fpath \<Rightarrow> fsys \<Rightarrow> bool \<times> fsys"

definition make_room :: "trasher \<Rightarrow> fpath \<Rightarrow> string \<Rightarrow> bool \<Rightarrow> fsys \<Rightarrow> (files_error + fpath) \<times> fsys" where
  "make_room trash dir name overwrite w =
     (if \<not> overwrite then (Inr (free_name w dir name), w)
      else let incumbent = dir @ [name] in
        if \<not> fs_exists w incumbent then (Inr incumbent, w)
        else case trash incumbent w of
          (True, w1) \<Rightarrow> (Inr incumbent, w1)
        | (False, w1) \<Rightarrow> (Inl (NotTrashed incumbent), w1))"

text \<open>The guards that copying and moving share.\<close>

definition transfer_guard :: "fpath \<Rightarrow> fpath \<Rightarrow> fsys \<Rightarrow> files_error + string" where
  "transfer_guard src dir w =
     (if \<not> fs_exists w src then Inl (NotThere src)
      else if \<not> fs_is_dir w dir then Inl (NotAFolder dir)
      else if fs_is_dir w src \<and> prefix src dir then Inl IntoItself
      else if src = [] then Inl NoName
      else Inr (last src))"

text \<open>The copy of whatever is at the source now.\<close>

definition copy_there :: "fpath \<Rightarrow> fpath \<Rightarrow> fsys \<Rightarrow> bool \<times> fsys" where
  "copy_there src target w = (case look w src of
     Some (FDir es) \<Rightarrow> copy_tree (FDir es) target w
   | _ \<Rightarrow> sys_copy src target w)"

definition copy_into :: "trasher \<Rightarrow> fpath \<Rightarrow> fpath \<Rightarrow> bool \<Rightarrow> fsys \<Rightarrow> (files_error + fpath) \<times> fsys" where
  "copy_into trash src dir overwrite w = (case transfer_guard src dir w of
     Inl e \<Rightarrow> (Inl e, w)
   | Inr name \<Rightarrow> (case make_room trash dir name overwrite w of
       (Inl e, w1) \<Rightarrow> (Inl e, w1)
     | (Inr target, w1) \<Rightarrow> (case copy_there src target w1 of
         (True, w2) \<Rightarrow> (Inr target, w2)
       | (False, w2) \<Rightarrow> (Inl (CannotCopy src), w2))))"

text \<open>When the rename is refused, as it is between file systems: copy, then remove.\<close>

definition remove_source :: "fpath \<Rightarrow> fsys \<Rightarrow> bool \<times> fsys" where
  "remove_source src w = (if fs_is_dir w src then sys_remove_dir_all src w else sys_remove_file src w)"

definition move_into :: "trasher \<Rightarrow> fpath \<Rightarrow> fpath \<Rightarrow> bool \<Rightarrow> fsys \<Rightarrow> (files_error + fpath) \<times> fsys" where
  "move_into trash src dir overwrite w = (case transfer_guard src dir w of
     Inl e \<Rightarrow> (Inl e, w)
   | Inr name \<Rightarrow> (case make_room trash dir name overwrite w of
       (Inl e, w1) \<Rightarrow> (Inl e, w1)
     | (Inr target, w1) \<Rightarrow> (case sys_rename src target w1 of
         (True, w2) \<Rightarrow> (Inr target, w2)
       | (False, w2) \<Rightarrow> (case copy_there src target w2 of
           (False, w3) \<Rightarrow> (Inl (CannotCopy src), w3)
         | (True, w3) \<Rightarrow> (case remove_source src w3 of
             (True, w4) \<Rightarrow> (Inr target, w4)
           | (False, w4) \<Rightarrow> (Inl (CannotRemove src), w4))))))"

definition rename_path :: "fpath \<Rightarrow> fpath \<Rightarrow> fsys \<Rightarrow> (files_error + unit) \<times> fsys" where
  "rename_path from to w =
     (if fs_exists w to then (Inl (AlreadyExists to), w)
      else case sys_rename from to w of
        (True, w1) \<Rightarrow> (Inr (), w1)
      | (False, w1) \<Rightarrow> (Inl (CannotRename from), w1))"

definition create_file :: "fpath \<Rightarrow> fsys \<Rightarrow> (files_error + unit) \<times> fsys" where
  "create_file p w =
     (if fs_exists w p then (Inl (AlreadyExists p), w)
      else case (if p = [] then (True, w) else sys_create_dir_all (butlast p) w) of
        (False, w1) \<Rightarrow> (Inl (CannotCreate p), w1)
      | (True, w1) \<Rightarrow> (case sys_write p [] w1 of
          (True, w2) \<Rightarrow> (Inr (), w2)
        | (False, w2) \<Rightarrow> (Inl (CannotWrite p), w2)))"

definition create_dir :: "fpath \<Rightarrow> fsys \<Rightarrow> (files_error + unit) \<times> fsys" where
  "create_dir p w =
     (if fs_exists w p then (Inl (AlreadyExists p), w)
      else case sys_create_dir_all p w of
        (True, w1) \<Rightarrow> (Inr (), w1)
      | (False, w1) \<Rightarrow> (Inl (CannotCreate p), w1))"

definition trash_path :: "trasher \<Rightarrow> fpath \<Rightarrow> fsys \<Rightarrow> (files_error + unit) \<times> fsys" where
  "trash_path trash p w = (case trash p w of
     (True, w1) \<Rightarrow> (Inr (), w1) | (False, w1) \<Rightarrow> (Inl (NotTrashed p), w1))"

section \<open>Saving\<close>

text \<open>\<open>canonicalize\<close>, which follows a link to what is there.\<close>

definition real_path :: "fsys \<Rightarrow> fpath \<Rightarrow> fpath" where
  "real_path w p = (case look w p of
     Some (FLink target) \<Rightarrow> (if fs_exists w (path_comps target) then path_comps target else p)
   | _ \<Rightarrow> p)"

definition temp_name :: "fpath \<Rightarrow> fpath" where
  "temp_name p = butlast p @ [''.'' @ last p @ ''.tabverse-tmp'']"

definition write_text :: "fpath \<Rightarrow> string \<Rightarrow> fsys \<Rightarrow> (files_error + unit) \<times> fsys" where
  "write_text path content w =
     (let p = real_path w path in
      if p = [] then (Inl (NotRegular p), w)
      else case sys_write (temp_name p) content w of
        (False, w1) \<Rightarrow> (Inl (CannotWrite (temp_name p)), w1)
      | (True, w1) \<Rightarrow> (case sys_rename (temp_name p) p w1 of
          (False, w2) \<Rightarrow> (Inl (CannotReplace p), w2)
        | (True, w2) \<Rightarrow> (Inr (), w2)))"

section \<open>Reading\<close>

datatype file_kind = KText | KImage | KPdf | KAudio | KVideo | KDocument | KArchive | KBinary

definition MAX_TEXT_BYTES :: nat where "MAX_TEXT_BYTES = 4 * 1024 * 1024"
definition MAX_RANGE_BYTES :: nat where "MAX_RANGE_BYTES = 1024 * 1024"

definition kind_table :: "(string list \<times> file_kind \<times> string) list" where
  "kind_table =
    [([''png''], KImage, ''image/png''), ([''jpg'', ''jpeg''], KImage, ''image/jpeg''), ([''gif''], KImage, ''image/gif''),
     ([''webp''], KImage, ''image/webp''), ([''bmp''], KImage, ''image/bmp''), ([''ico''], KImage, ''image/x-icon''),
     ([''svg''], KImage, ''image/svg+xml''), ([''avif''], KImage, ''image/avif''), ([''heic''], KImage, ''image/heic''),
     ([''pdf''], KPdf, ''application/pdf''),
     ([''mp3''], KAudio, ''audio/mpeg''), ([''wav''], KAudio, ''audio/wav''), ([''m4a'', ''aac''], KAudio, ''audio/mp4''),
     ([''flac''], KAudio, ''audio/flac''), ([''ogg'', ''opus''], KAudio, ''audio/ogg''),
     ([''mp4'', ''m4v''], KVideo, ''video/mp4''), ([''mov''], KVideo, ''video/quicktime''), ([''webm''], KVideo, ''video/webm''),
     ([''docx''], KDocument, ''application/vnd.openxmlformats-officedocument.wordprocessingml.document''),
     ([''xlsx'', ''xlsm''], KDocument, ''application/vnd.openxmlformats-officedocument.spreadsheetml.sheet''),
     ([''pptx''], KDocument, ''application/vnd.openxmlformats-officedocument.presentationml.presentation''),
     ([''doc''], KDocument, ''application/msword''), ([''xls''], KDocument, ''application/vnd.ms-excel''),
     ([''zip''], KArchive, ''application/zip''), ([''tar''], KArchive, ''application/x-tar''),
     ([''gz'', ''tgz''], KArchive, ''application/gzip''),
     ([''bz2'', ''xz'', ''zst'', ''7z'', ''rar''], KArchive, ''application/octet-stream''),
     ([''db'', ''sqlite'', ''sqlite3'', ''db3''], KBinary, ''application/vnd.sqlite3''),
     ([''ttf''], KBinary, ''font/ttf''), ([''otf''], KBinary, ''font/otf''), ([''woff''], KBinary, ''font/woff''),
     ([''woff2''], KBinary, ''font/woff2'')]"

text \<open>\<open>inspect::sniff_exec_format\<close>: the magic numbers of executables.\<close>

datatype exec_format = MachO | Elf | Pe | Script

definition sniff_exec_format :: "string \<Rightarrow> exec_format option" where
  "sniff_exec_format head =
     (if prefix ''#!'' head then Some Script
      else if prefix [CHR 0x7F, CHR ''E'', CHR ''L'', CHR ''F''] head then Some Elf
      else if 4 \<le> length head \<and> take 4 head \<in> set
        [[CHR 0xCE, CHR 0xFA, CHR 0xED, CHR 0xFE], [CHR 0xCF, CHR 0xFA, CHR 0xED, CHR 0xFE],
         [CHR 0xFE, CHR 0xED, CHR 0xFA, CHR 0xCE], [CHR 0xFE, CHR 0xED, CHR 0xFA, CHR 0xCF],
         [CHR 0xCA, CHR 0xFE, CHR 0xBA, CHR 0xBE], [CHR 0xBE, CHR 0xBA, CHR 0xFE, CHR 0xCA]] then Some MachO
      else if prefix ''MZ'' head then Some Pe
      else None)"

definition SQLITE_MAGIC :: string where "SQLITE_MAGIC = ''SQLite format 3'' @ [CHR 0x00]"

text \<open>\<open>Path::extension\<close> of the last component.\<close>

definition path_extension :: "fpath \<Rightarrow> string" where
  "path_extension p = (case p of [] \<Rightarrow> [] | _ \<Rightarrow> (case rsplit_dot (last p) of
     Some (s, e) \<Rightarrow> (if s \<noteq> [] then e else []) | None \<Rightarrow> []))"

definition kind_for :: "(string \<Rightarrow> string) \<Rightarrow> fpath \<Rightarrow> string \<Rightarrow> file_kind \<times> string" where
  "kind_for lower p head =
     (case find (\<lambda>(exts, _). lower (path_extension p) \<in> set exts) kind_table of
        Some (_, kind, mime) \<Rightarrow> (kind, mime)
      | None \<Rightarrow>
          if prefix SQLITE_MAGIC head then (KBinary, ''application/vnd.sqlite3'')
          else case sniff_exec_format head of
            Some Script \<Rightarrow> (KText, ''text/x-shellscript'')
          | Some _ \<Rightarrow> (KBinary, ''application/x-executable'')
          | None \<Rightarrow>
              if CHR 0x00 \<in> set head then (KBinary, ''application/octet-stream'') else (KText, ''text/plain''))"

text \<open>What is at a path, following a link.\<close>

definition stat :: "fsys \<Rightarrow> fpath \<Rightarrow> ftree option" where
  "stat w p = look w (real_path w p)"

record read_range_result =
  rr_window :: string
  rr_total :: nat

definition read_range :: "fpath \<Rightarrow> nat \<Rightarrow> nat \<Rightarrow> fsys \<Rightarrow> files_error + read_range_result" where
  "read_range p offset len w = (case stat w p of
     None \<Rightarrow> Inl (CannotStat p)
   | Some (FDir _) \<Rightarrow> Inl (IsDirectory p)
   | Some (FLink _) \<Rightarrow> Inl (CannotStat p)
   | Some (FFile b _) \<Rightarrow>
       (let total = length b; want = min (min len MAX_RANGE_BYTES) (total - offset)
        in Inr \<lparr>rr_window = take want (drop offset b), rr_total = total\<rparr>))"

record stream_file =
  st_bytes :: string
  st_mime :: string
  st_total :: nat
  st_offset :: nat
  st_length :: nat

definition open_stream :: "(string \<Rightarrow> string) \<Rightarrow> fpath \<Rightarrow> nat \<Rightarrow> nat option \<Rightarrow> fsys \<Rightarrow> files_error + stream_file" where
  "open_stream lower p offset len w = (case stat w p of
     None \<Rightarrow> Inl (CannotStat p)
   | Some (FFile b _) \<Rightarrow>
       (let total = length b; start = min offset total;
            n = min (case len of Some n \<Rightarrow> n | None \<Rightarrow> total - start) (total - start)
        in Inr \<lparr>st_bytes = drop start b, st_mime = snd (kind_for lower p (take 4096 b)),
                st_total = total, st_offset = start, st_length = n\<rparr>)
   | Some _ \<Rightarrow> Inl (NotRegular p))"

datatype read_only_reason = NotUtf8 | OnlyPartLoaded

record file_meta =
  fm_size :: nat
  fm_modified :: nat
  fm_kind :: file_kind
  fm_mime :: string
  fm_text :: "string option"
  fm_truncated :: bool
  fm_read_only :: "read_only_reason option"

text \<open>The text part of \<open>read_file\<close>.\<close>

definition load_text :: "string \<Rightarrow> string option \<times> bool \<times> read_only_reason option" where
  "load_text b =
     (let truncated = MAX_TEXT_BYTES < length b;
          bytes = (if truncated then take MAX_TEXT_BYTES b else b)
      in if utf8_valid bytes then (Some bytes, truncated, if truncated then Some OnlyPartLoaded else None)
         else (Some (utf8_lossy bytes), truncated, Some NotUtf8))"

definition read_file :: "(string \<Rightarrow> string) \<Rightarrow> fpath \<Rightarrow> fsys \<Rightarrow> files_error + file_meta" where
  "read_file lower p w = (case stat w p of
     None \<Rightarrow> Inl (CannotStat p)
   | Some (FDir _) \<Rightarrow> Inl (IsDirectory p)
   | Some (FLink _) \<Rightarrow> Inl (CannotStat p)
   | Some (FFile b modified) \<Rightarrow>
       (let (kind, mime) = kind_for lower p (take 4096 b);
            (t, truncated, reason) = (if kind = KText then load_text b else (None, False, None))
        in Inr \<lparr>fm_size = length b, fm_modified = modified, fm_kind = kind, fm_mime = mime, fm_text = t,
                fm_truncated = truncated, fm_read_only = reason\<rparr>))"


section \<open>What an operation below a path leaves alone\<close>

text \<open>Below \<open>r\<close> anything may change; elsewhere files, links and gaps stay and folders stay folders.\<close>

definition kept :: "ftree option \<Rightarrow> ftree option \<Rightarrow> bool" where
  "kept x y \<longleftrightarrow> (if is_folder x then is_folder y else y = x)"

definition same_outside :: "fpath \<Rightarrow> fsys \<Rightarrow> fsys \<Rightarrow> bool" where
  "same_outside r w w' \<longleftrightarrow> (\<forall>q. \<not> prefix r q \<longrightarrow> kept (look w q) (look w' q))"

lemma kept_refl [simp]: "kept x x" by (simp add: kept_def)

lemma kept_trans: "kept x y \<Longrightarrow> kept y z \<Longrightarrow> kept x z"
  by (auto simp: kept_def split: if_splits)

lemma same_refl: "fy_tree w' = fy_tree w \<Longrightarrow> same_outside r w w'" by (simp add: same_outside_def)

lemma same_trans [trans]: "same_outside r w w1 \<Longrightarrow> same_outside r w1 w2 \<Longrightarrow> same_outside r w w2"
  unfolding same_outside_def using kept_trans by blast

lemma same_wider: "same_outside r' w w' \<Longrightarrow> prefix r r' \<Longrightarrow> same_outside r w w'"
  unfolding same_outside_def using prefix_order.trans by blast

lemma put_same: "prefix r p \<Longrightarrow> same_outside r w (put_tree p v w)"
  unfolding same_outside_def kept_def put_tree_def
proof (intro allI impI)
  fix q assume p: "prefix r p" and q: "\<not> prefix r q"
  then have above: "\<not> prefix p q" using prefix_order.trans by blast
  show "if is_folder (look w q) then is_folder (look (w\<lparr>fy_tree := set_at p v (fy_tree w)\<rparr>) q)
     else look (w\<lparr>fy_tree := set_at p v (fy_tree w)\<rparr>) q = look w q"
  proof (cases "prefix q p")
    case True
    with above have "strict_prefix q p" by (auto simp: strict_prefix_def)
    then show ?thesis using set_at_above_folder set_at_file_beside [OF above] by simp
  next
    case False
    then show ?thesis using set_at_beside [OF above False] by simp
  qed
qed

lemma sys_fault_tree [simp]: "sys_fault w = (f, w') \<Longrightarrow> fy_tree w' = fy_tree w \<and> fy_now w' = fy_now w"
  by (auto simp: sys_fault_def split: list.splits)

lemma fault_facts: "sys_fault w = (f, w') \<Longrightarrow> fs_is_dir w' p = fs_is_dir w p"
  "sys_fault w = (f, w') \<Longrightarrow> fs_exists w' p = fs_exists w p"
  by (simp_all add: fs_is_dir_def fs_exists_def)

text \<open>Every system call that succeeds, and what each may change.\<close>

lemma sys_write_same: "sys_write p b w = (ok, w') \<Longrightarrow> prefix r p \<Longrightarrow> same_outside r w w'"
proof -
  assume run: "sys_write p b w = (ok, w')" and r: "prefix r p"
  obtain f w1 where f: "sys_fault w = (f, w1)" by (cases "sys_fault w")
  have "same_outside r w w1" using f by (simp add: same_refl)
  moreover have "same_outside r w1 w'"
    using run r put_same [OF r] unfolding sys_write_def f
    by (auto simp: same_refl split: option.splits fs_fault.splits if_splits)
  ultimately show ?thesis by (rule same_trans)
qed

lemma sys_write_ok: "sys_write p b w = (True, w') \<Longrightarrow>
    fy_tree w' = set_at p (Some (FFile b (fy_now w))) (fy_tree w) \<and> fy_now w' = fy_now w \<and> p \<noteq> [] \<and> fs_is_dir w (butlast p)"
proof -
  assume run: "sys_write p b w = (True, w')"
  obtain f w1 where f: "sys_fault w = (f, w1)" by (cases "sys_fault w")
  from run show ?thesis unfolding sys_write_def f using sys_fault_tree [OF f] fault_facts [OF f]
    by (auto simp: put_tree_def split: option.splits fs_fault.splits if_splits)
qed

lemma folder_above: "fs_is_dir w p \<Longrightarrow> prefix q p \<Longrightarrow> fs_is_dir w q"
proof -
  assume p: "fs_is_dir w p" and "prefix q p"
  then obtain r where r: "p = q @ r" by (auto simp: prefix_def)
  show ?thesis
  proof (cases r)
    case Nil
    with p r show ?thesis by simp
  next
    case (Cons c cs)
    from p have "look w p \<noteq> None" unfolding fs_is_dir_def by (cases "look w p") simp_all
    then have "lookup (fy_tree w) ((q @ [c]) @ cs) \<noteq> None" unfolding r Cons by simp
    then have "lookup (fy_tree w) (q @ [c]) \<noteq> None" by (rule contrapos_nn) (rule lookup_prefix_none)
    then show ?thesis unfolding fs_is_dir_def by (rule lookup_folder_above)
  qed
qed

lemma make_folders_skip: "fs_is_dir w (up @ cs) \<Longrightarrow> make_folders up (cs @ ds) w = make_folders (up @ cs) ds w"
proof (induction cs arbitrary: up)
  case (Cons c cs)
  then have "fs_is_dir w up" "fs_is_dir w (up @ [c])" by (auto intro: folder_above simp: prefix_def)
  moreover from this(2) have "fs_exists w (up @ [c])" by (auto simp: fs_is_dir_def fs_exists_def is_folder_iff)
  ultimately show ?case using Cons.IH [of "up @ [c]"] Cons.prems by simp
qed simp

text \<open>\<open>create_dir_all\<close> of a folder whose parent is there.\<close>

lemma create_dir_child:
  assumes parent: "fs_is_dir w dir" and run: "sys_create_dir_all (dir @ [c]) w = (ok, w')"
  shows "same_outside (dir @ [c]) w w' \<and> fy_now w' = fy_now w \<and>
    (ok \<longrightarrow> (look w (dir @ [c]) = None \<longrightarrow> fy_tree w' = set_at (dir @ [c]) (Some (FDir [])) (fy_tree w)) \<and>
            (look w (dir @ [c]) \<noteq> None \<longrightarrow> fy_tree w' = fy_tree w \<and> fs_is_dir w (dir @ [c])))"
proof -
  have "sys_create_dir_all (dir @ [c]) w = make_folders dir [c] w"
    using make_folders_skip [of w "[]" dir "[c]"] parent by (simp add: sys_create_dir_all_def)
  note run = run [unfolded this]
  show ?thesis
  proof (cases "fs_exists w (dir @ [c])")
    case True
    with run parent show ?thesis by (auto simp: Let_def fs_exists_def same_refl)
  next
    case False
    obtain f w1 where f: "sys_fault w = (f, w1)" by (cases "sys_fault w")
    note t = sys_fault_tree [OF f]
    show ?thesis
    proof (cases f)
      case None
      let ?w2 = "put_tree (dir @ [c]) (Some (FDir [])) w1"
      have here: "is_folder (lookup (set_at (dir @ [c]) (Some (FDir [])) (fy_tree w)) (dir @ [c]))"
        using set_at_step [of "fy_tree w" "dir @ [c]" "Some (FDir [])" "[]"] parent by (simp add: fs_is_dir_def)
      have new: "fy_tree ?w2 = set_at (dir @ [c]) (Some (FDir [])) (fy_tree w)" using t by (simp add: put_tree_def)
      with here run parent False None f have "(ok, w') = (True, ?w2)" by (simp add: Let_def fs_is_dir_def)
      moreover have "same_outside (dir @ [c]) w ?w2"
        by (rule same_trans [OF same_refl put_same]) (use t in simp_all)
      moreover have "fy_now ?w2 = fy_now w" using t by (simp add: put_tree_def)
      ultimately show ?thesis using new False by (auto simp: fs_exists_def)
    next
      case (Some x)
      with run parent False f t show ?thesis by (auto simp: Let_def same_refl)
    qed
  qed
qed


section \<open>The copy\<close>

text \<open>What a copy is: the same files, written now, and no links.\<close>

fun without_links :: "nat \<Rightarrow> ftree \<Rightarrow> ftree" and entries_without_links :: "nat \<Rightarrow> (string \<times> ftree) list \<Rightarrow> (string \<times> ftree) list" where
  "without_links now (FDir es) = FDir (entries_without_links now es)"
| "without_links now (FFile b m) = FFile b now"
| "without_links now (FLink l) = FLink l"
| "entries_without_links now [] = []"
| "entries_without_links now ((c, t) # es) =
     (case t of FLink _ \<Rightarrow> entries_without_links now es | _ \<Rightarrow> (c, without_links now t) # entries_without_links now es)"

fun names_distinct :: "ftree \<Rightarrow> bool" and entries_distinct :: "(string \<times> ftree) list \<Rightarrow> bool" where
  "names_distinct (FDir es) = (distinct (map fst es) \<and> entries_distinct es)"
| "names_distinct (FFile b m) = True"
| "names_distinct (FLink l) = True"
| "entries_distinct [] = True"
| "entries_distinct ((c, t) # es) = (names_distinct t \<and> entries_distinct es)"

lemma set_at_append:
  "lookup t p = Some s \<Longrightarrow> p \<noteq> [] \<Longrightarrow> q \<noteq> [] \<Longrightarrow> set_at (p @ q) v t = set_at p (Some (set_at q v s)) t"
proof (induction p v t rule: set_at.induct)
  case (2 c v es)
  then show ?case by (cases q) (auto split: option.splits)
next
  case (3 c d cs v es)
  then show ?case by (auto split: option.splits)
qed auto

lemma set_at_twice: "is_folder (lookup t (butlast p)) \<Longrightarrow> set_at p (Some x) (set_at p (Some y) t) = set_at p (Some x) t"
proof (induction p "Some y" t rule: set_at.induct)
  case (3 c d cs es)
  then show ?case by (cases "map_of es c") (auto simp: update_conv' update_last)
qed (auto simp: update_last)

lemma update_new: "c \<notin> fst ` set es \<Longrightarrow> AList.update c x es = es @ [(c, x)]"
  by (induction es) auto

lemma sys_write_now: "sys_write p b w = (ok, w') \<Longrightarrow> fy_now w' = fy_now w"
  by (cases "sys_fault w") (auto simp: sys_write_def put_tree_def split: option.splits fs_fault.splits if_splits)

lemma set_at_here: "is_folder (lookup t (butlast p)) \<Longrightarrow> p \<noteq> [] \<Longrightarrow> lookup (set_at p (Some x) t) p = Some x"
  using set_at_step [of t p "Some x" "[]"] by simp

lemma folder_kept: "same_outside (dst @ [c]) w w' \<Longrightarrow> fs_is_dir w dst \<Longrightarrow> fs_is_dir w' dst"
  by (auto simp: same_outside_def kept_def fs_is_dir_def)

lemma parent_folder: "is_folder (lookup t p) \<Longrightarrow> is_folder (lookup t (butlast p))"
  using folder_above [of "\<lparr>fy_tree = t, fy_faults = [], fy_now = 0\<rparr>" p "butlast p"]
  by (simp add: fs_is_dir_def prefixeq_butlast)

lemma set_at_same: "lookup t p = Some x \<Longrightarrow> p \<noteq> [] \<Longrightarrow> set_at p (Some x) t = t"
proof (induction p "Some x" t rule: set_at.induct)
  case (2 c es)
  then show ?case by (auto simp: update_triv split: option.splits)
next
  case (3 c d cs es)
  then show ?case by (auto simp: update_triv split: option.splits)
qed auto

lemma copy_tree_spec:
  "copy_tree t dst w = (ok, w') \<Longrightarrow> dst \<noteq> [] \<Longrightarrow> fs_is_dir w (butlast dst) \<Longrightarrow>
     same_outside dst w w' \<and> fy_now w' = fy_now w \<and>
     (ok \<and> look w dst = None \<and> names_distinct t \<and> (\<forall>l. t \<noteq> FLink l) \<longrightarrow>
        fy_tree w' = set_at dst (Some (without_links (fy_now w) t)) (fy_tree w))"
  "copy_entries es dst w = (ok, w') \<Longrightarrow> dst \<noteq> [] \<Longrightarrow> fs_is_dir w dst \<Longrightarrow>
     same_outside dst w w' \<and> fy_now w' = fy_now w \<and>
     (\<forall>ds. ok \<and> look w dst = Some (FDir ds) \<and> distinct (map fst es) \<and> entries_distinct es \<and> fst ` set es \<inter> fst ` set ds = {} \<longrightarrow>
        fy_tree w' = set_at dst (Some (FDir (ds @ entries_without_links (fy_now w) es))) (fy_tree w))"
proof (induction t dst w and es dst w arbitrary: ok w' and ok w' rule: copy_tree_copy_entries.induct)
  case (1 es dst w)
  obtain made w1 where made: "sys_create_dir_all dst w = (made, w1)" by (cases "sys_create_dir_all dst w")
  have dst: "butlast dst @ [last dst] = dst" using 1 by simp
  from create_dir_child [OF 1(4), of "last dst" made w1] made
  have created: "same_outside dst w w1" "fy_now w1 = fy_now w"
    "made \<Longrightarrow> look w dst = None \<Longrightarrow> fy_tree w1 = set_at dst (Some (FDir [])) (fy_tree w)"
    "made \<Longrightarrow> look w dst \<noteq> None \<Longrightarrow> fy_tree w1 = fy_tree w \<and> fs_is_dir w dst"
    unfolding dst by blast+
  obtain f w2 where f: "sys_fault w1 = (f, w2)" by (cases "sys_fault w1")
  note t2 = sys_fault_tree [OF f]
  have to2: "same_outside dst w w2" by (rule same_trans [OF created(1) same_refl]) (use t2 in simp)
  show ?case
  proof (cases "made \<and> f = None")
    case False
    with 1(2) made f have "\<not> ok" "w' = w1 \<or> w' = w2" by (auto split: bool.splits option.splits)
    with created to2 t2 show ?thesis by auto
  next
    case True
    then have run: "copy_entries es dst w2 = (ok, w')" using 1(2) made f by simp
    have par: "is_folder (lookup (fy_tree w) (butlast dst))" using 1(4) by (simp add: fs_is_dir_def)
    have new: "look w dst = None \<Longrightarrow> look w2 dst = Some (FDir [])"
      using created(3) True t2 set_at_here [OF par 1(3)] by simp
    have there: "fs_is_dir w2 dst"
      using new created(4) True t2 by (cases "look w dst") (auto simp: fs_is_dir_def)
    have IH: "same_outside dst w2 w' \<and> fy_now w' = fy_now w2 \<and>
      (\<forall>ds. ok \<and> look w2 dst = Some (FDir ds) \<and> distinct (map fst es) \<and> entries_distinct es \<and> fst ` set es \<inter> fst ` set ds = {} \<longrightarrow>
        fy_tree w' = set_at dst (Some (FDir (ds @ entries_without_links (fy_now w2) es))) (fy_tree w2))"
      using 1(1) made True f run 1(3) there by simp
    moreover have "fy_tree w' = set_at dst (Some (without_links (fy_now w) (FDir es))) (fy_tree w)"
      if "ok" "look w dst = None" "names_distinct (FDir es)"
    proof -
      from IH that new have "fy_tree w' = set_at dst (Some (FDir (entries_without_links (fy_now w2) es))) (fy_tree w2)"
        by fastforce
      with that created True t2 show ?thesis by (simp add: set_at_twice [OF par])
    qed
    ultimately show ?thesis using to2 t2 created(2) same_trans by fastforce
  qed
next
  case (2 b m dst w)
  then have run: "sys_write dst b w = (ok, w')" by simp
  show ?case using sys_write_same [OF run prefix_order.refl] sys_write_now [OF run] sys_write_ok run by (cases ok) auto
next
  case (3 l dst w)
  then show ?case by (auto simp: same_refl)
next
  case (4 dst w)
  have "set_at dst (Some (FDir ds)) (fy_tree w) = fy_tree w" if "look w dst = Some (FDir ds)" for ds
    using that 4(2) by (rule set_at_same)
  with 4 show ?case by (auto simp: same_refl)
next
  case (5 c t es dst w)
  obtain ok1 w1 where one: "copy_tree t (dst @ [c]) w = (ok1, w1)" by (cases "copy_tree t (dst @ [c]) w")
  from 5(1) [OF one] 5(5) have first: "same_outside (dst @ [c]) w w1" "fy_now w1 = fy_now w"
    "ok1 \<Longrightarrow> look w (dst @ [c]) = None \<Longrightarrow> names_distinct t \<Longrightarrow> \<forall>l. t \<noteq> FLink l \<Longrightarrow>
       fy_tree w1 = set_at (dst @ [c]) (Some (without_links (fy_now w) t)) (fy_tree w)"
    by auto
  have wide: "same_outside dst w w1" by (rule same_wider [OF first(1)]) simp
  show ?case
  proof (cases ok1)
    case False
    with 5(3) one wide first(2) show ?thesis by auto
  next
    case True
    then have run: "copy_entries es dst w1 = (ok, w')" using 5(3) one by simp
    have there: "fs_is_dir w1 dst" by (rule folder_kept [OF first(1) 5(5)])
    have IH: "same_outside dst w1 w' \<and> fy_now w' = fy_now w1 \<and>
      (\<forall>ds. ok \<and> look w1 dst = Some (FDir ds) \<and> distinct (map fst es) \<and> entries_distinct es \<and> fst ` set es \<inter> fst ` set ds = {} \<longrightarrow>
        fy_tree w' = set_at dst (Some (FDir (ds @ entries_without_links (fy_now w1) es))) (fy_tree w1))"
      using 5(2) [OF one [symmetric]] True run 5(4) there by simp
    have "fy_tree w' = set_at dst (Some (FDir (ds @ entries_without_links (fy_now w) ((c, t) # es)))) (fy_tree w)"
      if ok: "ok" and ds: "look w dst = Some (FDir ds)" and dist: "distinct (map fst ((c, t) # es))" "entries_distinct ((c, t) # es)"
        and apart: "fst ` set ((c, t) # es) \<inter> fst ` set ds = {}" for ds
    proof (cases "\<exists>l. t = FLink l")
      case True
      with one have "w1 = w" by auto
      with IH ok ds dist apart True show ?thesis by fastforce
    next
      case False
      let ?t = "without_links (fy_now w) t"
      have par: "is_folder (lookup (fy_tree w) (butlast dst))"
        using parent_folder [of "fy_tree w" dst] ds by simp
      have "map_of ds c = None" using apart by (auto simp: map_of_eq_None_iff)
      with ds have fresh: "look w (dst @ [c]) = None" by (simp add: lookup_append)
      from first(3) [OF \<open>ok1\<close> fresh] dist False
      have "fy_tree w1 = set_at (dst @ [c]) (Some ?t) (fy_tree w)" by simp
      also have "\<dots> = set_at dst (Some (FDir (ds @ [(c, ?t)]))) (fy_tree w)"
        using set_at_append [OF ds 5(4), of "[c]"] apart by (simp add: update_new)
      finally have w1: "fy_tree w1 = \<dots>" .
      then have here: "look w1 dst = Some (FDir (ds @ [(c, ?t)]))" by (simp add: set_at_here [OF par 5(4)])
      have "fst ` set es \<inter> fst ` set (ds @ [(c, ?t)]) = {}" using apart dist by auto
      with IH here ok dist
      have "fy_tree w' = set_at dst (Some (FDir ((ds @ [(c, ?t)]) @ entries_without_links (fy_now w1) es))) (fy_tree w1)"
        by simp
      then show ?thesis using False by (cases t) (simp_all add: w1 set_at_twice [OF par] first(2))
    qed
    with IH wide first(2) same_trans show ?thesis by fastforce
  qed
qed


section \<open>Copying and moving lose nothing\<close>

lemma numbered_in_dir: "free_name w dir name = dir @ [last (free_name w dir name)]"
  by (auto simp: free_name_def Let_def split: option.splits prod.splits)

lemma free_name_fresh:
  assumes "\<exists>n \<in> set name_numbers. \<not> fs_exists w (dir @ [numbered name n])"
  shows "\<not> fs_exists w (free_name w dir name)"
proof (cases "find (\<lambda>n. \<not> fs_exists w (dir @ [numbered name n])) name_numbers")
  case None
  with assms show ?thesis by (auto simp: find_None_iff)
next
  case (Some n)
  then have "\<not> fs_exists w (dir @ [numbered name n])" by (auto simp: find_Some_iff)
  with Some show ?thesis by (auto simp: free_name_def)
qed

text \<open>After 9998 taken numbers the last resort is not looked at, and a copy goes over what is there.\<close>

lemma free_name_last_resort:
  assumes "fs_exists w (dir @ [name])" "\<forall>n \<in> set name_numbers. fs_exists w (dir @ [numbered name n])"
  shows "free_name w dir name = dir @ [fst (stem_ext name) @ '' copy'' @ snd (stem_ext name)]"
proof -
  have "find (\<lambda>n. \<not> fs_exists w (dir @ [numbered name n])) name_numbers = None"
    using assms(2) by (simp add: find_None_iff)
  with assms(1) show ?thesis by (simp add: free_name_def Let_def split: prod.splits)
qed

lemma transfer_guard_Inr: "transfer_guard src dir w = Inr name \<Longrightarrow>
    fs_exists w src \<and> fs_is_dir w dir \<and> src \<noteq> [] \<and> name = last src \<and> (fs_is_dir w src \<longrightarrow> \<not> prefix src dir)"
  by (auto simp: transfer_guard_def split: if_splits)

lemma sys_copy_same: "sys_copy src dst w = (ok, w') \<Longrightarrow> same_outside dst w w'"
  by (auto simp: sys_copy_def same_refl intro: sys_write_same split: option.splits ftree.splits)

lemma copy_there_same: "copy_there src target w = (ok, w') \<Longrightarrow> fs_is_dir w (butlast target) \<Longrightarrow> target \<noteq> [] \<Longrightarrow>
    same_outside target w w'"
  unfolding copy_there_def using copy_tree_spec(1) sys_copy_same
  by (auto simp del: copy_tree.simps split: option.splits ftree.splits)

lemma copy_there_ok:
  assumes "copy_there src target w = (True, w')" "look w src = Some t" "\<forall>l. t \<noteq> FLink l"
    "fs_is_dir w (butlast target)" "target \<noteq> []" "look w target = None" "names_distinct t"
  shows "fy_tree w' = set_at target (Some (without_links (fy_now w) t)) (fy_tree w)"
proof (cases t)
  case (FFile b m)
  with assms(1,2) have "sys_write target b w = (True, w')" by (simp add: copy_there_def sys_copy_def)
  with FFile sys_write_ok show ?thesis by simp
next
  case (FDir es)
  with assms copy_tree_spec(1) [of "FDir es" target w True w'] show ?thesis
    by (simp add: copy_there_def del: copy_tree.simps)
qed (use assms in simp)

text \<open>A copy of a file, or of a folder, without choosing to overwrite.\<close>

lemma copy_into_run:
  assumes "copy_into trash src dir False w = (r, w')" "transfer_guard src dir w = Inr name"
  shows "\<exists>ok. copy_there src (free_name w dir name) w = (ok, w') \<and> r = (if ok then Inr (free_name w dir name) else Inl (CannotCopy src))"
  using assms by (cases "copy_there src (free_name w dir name) w") (auto simp: copy_into_def make_room_def split: bool.splits)


text \<open>With the choice to overwrite, copying an entry into the folder it is in throws the entry itself away
  before it is read.\<close>

definition trash_law :: "trasher \<Rightarrow> bool" where
  "trash_law trash \<longleftrightarrow> (\<forall>p w. fy_tree (snd (trash p w)) = (if fst (trash p w) then set_at p None (fy_tree w) else fy_tree w))"

lemma set_at_gone: "p \<noteq> [] \<Longrightarrow> lookup t p \<noteq> None \<Longrightarrow> lookup (set_at p None t) p = None"
  using set_at_step [of t p None "[]"] lookup_folder_above [of t "butlast p" "last p"] by simp

lemma overwrite_in_place_trashes_source:
  assumes law: "trash_law trash" and src: "look w (dir @ [name]) = Some t" "fs_is_dir w dir"
    and run: "copy_into trash (dir @ [name]) dir True w = (r, w')" and ok: "fst (trash (dir @ [name]) w)"
  shows "r = Inl (CannotCopy (dir @ [name])) \<and> look w' (dir @ [name]) = None"
proof -
  let ?src = "dir @ [name]"
  obtain w1 where trash: "trash ?src w = (True, w1)" using ok by (cases "trash ?src w") auto
  have gone: "look w1 ?src = None"
    using law trash set_at_gone [of ?src "fy_tree w"] src(1) unfolding trash_law_def by (metis append_is_Nil_conv fst_conv not_Cons_self2 option.distinct(1) snd_conv)
  have guard: "transfer_guard ?src dir w = Inr name"
    using src by (simp add: transfer_guard_def fs_exists_def)
  from run gone show ?thesis
    by (auto simp: copy_into_def guard make_room_def Let_def fs_exists_def src(1) trash copy_there_def sys_copy_def)
qed


lemma sys_rename_cases: "sys_rename src dst w = (ok, w') \<Longrightarrow>
    (\<not> ok \<and> fy_tree w' = fy_tree w) \<or>
    (ok \<and> (\<exists>t. look w src = Some t \<and> (src = dst \<longrightarrow> fy_tree w' = fy_tree w) \<and> (src \<noteq> dst \<longrightarrow> fy_tree w' = set_at dst (Some t) (set_at src None (fy_tree w)) \<and>
       src \<noteq> [] \<and> dst \<noteq> [] \<and> \<not> prefix src dst \<and> fs_is_dir w (butlast dst))))"
proof -
  assume run: "sys_rename src dst w = (ok, w')"
  obtain f w1 where f: "sys_fault w = (f, w1)" by (cases "sys_fault w")
  from run show ?thesis
    unfolding sys_rename_def f using sys_fault_tree [OF f] fault_facts [OF f]
    by (auto simp: put_tree_def split: option.splits if_splits)
qed

lemma remove_source_same: "remove_source src w = (ok, w') \<Longrightarrow> same_outside src w w' \<and> (ok \<longrightarrow> fy_tree w' = set_at src None (fy_tree w) \<and> src \<noteq> [])"
proof -
  assume run: "remove_source src w = (ok, w')"
  obtain f w1 where f: "sys_fault w = (f, w1)" by (cases "sys_fault w")
  note t = sys_fault_tree [OF f]
  have one: "same_outside src w w1" using t by (simp add: same_refl)
  have two: "same_outside src w1 (put_tree src v w1)" for v by (rule put_same) simp
  from run show ?thesis
    unfolding remove_source_def sys_remove_dir_all_def sys_remove_file_def f
    using t fault_facts [OF f] one two same_trans [OF one]
    by (auto simp: put_tree_def split: option.splits if_splits fs_fault.splits ftree.splits)
qed

lemma lookup_without_links: "lookup t q = Some (FFile b m) \<Longrightarrow> lookup (without_links now t) q = Some (FFile b now)"
proof (induction t q rule: lookup.induct)
  case (2 es c cs)
  then obtain s where s: "map_of es c = Some s" "lookup s cs = Some (FFile b m)" by (auto split: option.splits)
  from s(2) have "\<forall>l. s \<noteq> FLink l" by (cases cs) auto
  with s(1) have "map_of (entries_without_links now es) c = Some (without_links now s)"
    by (induction es) (auto split: ftree.splits if_splits)
  with 2 s show ?case by simp
qed auto

text \<open>The text of the file at a path, if there is one.\<close>

definition content_at :: "fsys \<Rightarrow> fpath \<Rightarrow> string option" where
  "content_at w p = (case look w p of Some (FFile b _) \<Rightarrow> Some b | _ \<Rightarrow> None)"

lemma content_at_iff: "content_at w p = Some b \<longleftrightarrow> (\<exists>m. look w p = Some (FFile b m))"
  by (auto simp: content_at_def split: option.splits ftree.splits)

lemma content_kept: "kept (look w p) (look w' p) \<Longrightarrow> content_at w p = Some b \<Longrightarrow> content_at w' p = Some b"
  by (auto simp: content_at_iff kept_def split: if_splits)

lemma content_there: "content_at w p = Some b \<Longrightarrow> look w p \<noteq> None" by (auto simp: content_at_iff)

lemma kept_there: "kept x y \<Longrightarrow> x \<noteq> None \<Longrightarrow> y \<noteq> None"
  by (cases y) (auto simp: kept_def split: if_splits)

lemma not_above: "look w target = None \<Longrightarrow> look w p \<noteq> None \<Longrightarrow> \<not> prefix target p"
  by (auto simp: prefix_def lookup_append)

lemma rename_moves:
  assumes ren: "sys_rename src (dir @ [n]) w = (True, w1)" and src: "look w src = Some t" "src \<noteq> []"
    and dir: "fs_is_dir w dir" "\<not> prefix src dir" and fresh: "look w (dir @ [n]) = None"
  shows "content_at w (src @ q) = Some b \<Longrightarrow> content_at w1 ((dir @ [n]) @ q) = Some b"
    and "\<not> prefix src p \<Longrightarrow> content_at w p = Some b \<Longrightarrow> content_at w1 p = Some b"
    and "look w1 src = None"
proof -
  let ?target = "dir @ [n]"
  have "src \<noteq> ?target" using src(1) fresh by auto
  with sys_rename_cases [OF ren] src(1)
  have tree: "fy_tree w1 = set_at ?target (Some t) (set_at src None (fy_tree w))" by auto
  let ?mid = "w\<lparr>fy_tree := set_at src None (fy_tree w)\<rparr>"
  have out: "same_outside src w ?mid" using put_same [of src src w None] by (simp add: put_tree_def)
  have mid: "is_folder (look ?mid dir)" using out dir by (auto simp: same_outside_def kept_def fs_is_dir_def)
  have put: "same_outside ?target ?mid w1"
    using put_same [of ?target ?target ?mid "Some t"] tree by (simp add: same_outside_def put_tree_def)
  show "content_at w (src @ q) = Some b \<Longrightarrow> content_at w1 (?target @ q) = Some b"
    using set_at_step [of "set_at src None (fy_tree w)" ?target "Some t" q] mid src(1)
    by (simp add: content_at_def tree lookup_append)
  show "content_at w1 p = Some b" if p: "\<not> prefix src p" "content_at w p = Some b"
  proof -
    have "kept (look w p) (look ?mid p)" using out p(1) unfolding same_outside_def by blast
    moreover have "kept (look ?mid p) (look w1 p)"
      using put not_above [OF fresh content_there [OF p(2)]] unfolding same_outside_def by blast
    ultimately show ?thesis using content_kept [OF kept_trans p(2)] by blast
  qed
  have "look ?mid src = None" using set_at_gone [OF src(2), of "fy_tree w"] src(1) by simp
  with put not_above [OF fresh, of src] src(1) show "look w1 src = None"
    by (auto simp: same_outside_def kept_def)
qed

lemma copy_stays:
  assumes copy: "copy_there src (dir @ [n]) w1 = (ok, w2)" and t1: "fy_tree w1 = fy_tree w"
    and dir: "fs_is_dir w dir" and fresh: "look w (dir @ [n]) = None"
  shows "content_at w p = Some b \<Longrightarrow> content_at w2 p = Some b"
    and "look w p \<noteq> None \<Longrightarrow> look w2 p \<noteq> None"
    and "ok \<Longrightarrow> look w src = Some t \<Longrightarrow> names_distinct t \<Longrightarrow> \<forall>l. t \<noteq> FLink l \<Longrightarrow> content_at w (src @ q) = Some b \<Longrightarrow>
      content_at w2 ((dir @ [n]) @ q) = Some b"
proof -
  let ?target = "dir @ [n]"
  have dir1: "fs_is_dir w1 (butlast ?target)" using dir t1 by (simp add: fs_is_dir_def)
  have same: "same_outside ?target w w2"
    using same_trans [OF same_refl [OF t1] copy_there_same [OF copy dir1]] by simp
  then have "kept (look w p) (look w2 p)" if "look w p \<noteq> None" for p
    using not_above [OF fresh that] by (simp add: same_outside_def)
  then show "content_at w p = Some b \<Longrightarrow> content_at w2 p = Some b" and "look w p \<noteq> None \<Longrightarrow> look w2 p \<noteq> None"
    using content_kept content_there kept_there by blast+
  assume ok: "ok" and t: "look w src = Some t" "names_distinct t" "\<forall>l. t \<noteq> FLink l" and b: "content_at w (src @ q) = Some b"
  from copy_there_ok [of src ?target w1 w2 t] copy ok t t1 dir1 fresh
  have "fy_tree w2 = set_at ?target (Some (without_links (fy_now w1) t)) (fy_tree w)" by simp
  with b show "content_at w2 (?target @ q) = Some b"
    using set_at_step [of "fy_tree w" ?target "Some (without_links (fy_now w1) t)" q] t(1) dir
    by (auto simp: content_at_iff fs_is_dir_def lookup_append dest: lookup_without_links)
qed



section \<open>Saving is atomic\<close>

lemma same_length_prefix: "length p = length q \<Longrightarrow> prefix p q \<Longrightarrow> p = q"
  by (auto simp: prefix_def)

lemma temp_name_facts: "p \<noteq> [] \<Longrightarrow> temp_name p \<noteq> [] \<and> butlast (temp_name p) = butlast p \<and> \<not> prefix (temp_name p) p \<and> \<not> prefix p (temp_name p)"
proof -
  assume p: "p \<noteq> []"
  have "length (last (temp_name p)) \<noteq> length (last p)" by (simp add: temp_name_def)
  then have "temp_name p \<noteq> p" by auto
  moreover have "length (temp_name p) = length p" using p by (simp add: temp_name_def)
  ultimately have "\<not> prefix (temp_name p) p" "\<not> prefix p (temp_name p)"
    using same_length_prefix by metis+
  then show ?thesis by (simp add: temp_name_def)
qed

lemma rename_over:
  assumes "sys_rename src dst w = (ok, w')"
  shows "ok \<Longrightarrow> src \<noteq> dst \<Longrightarrow> look w src = Some t \<Longrightarrow> \<not> prefix dst src \<Longrightarrow> look w' dst = Some t"
    and "\<not> ok \<Longrightarrow> fy_tree w' = fy_tree w"
    and "\<not> prefix src q \<Longrightarrow> \<not> prefix dst q \<Longrightarrow> kept (look w q) (look w' q)"
proof -
  note cases' = sys_rename_cases [OF assms]
  { assume ok and ne: "src \<noteq> dst" and t: "look w src = Some t" and apart: "\<not> prefix dst src"
    from cases' this have tree: "fy_tree w' = set_at dst (Some t) (set_at src None (fy_tree w))"
      and d: "dst \<noteq> []" "\<not> prefix src dst" "fs_is_dir w (butlast dst)" by auto
    have "\<not> prefix src (butlast dst)" using d(2) prefix_order.trans prefixeq_butlast by blast
    then have "is_folder (lookup (set_at src None (fy_tree w)) (butlast dst))"
      using put_same [of src src w None] d(3) by (auto simp: same_outside_def kept_def fs_is_dir_def put_tree_def)
    from set_at_here [OF this d(1)] show "look w' dst = Some t" by (simp add: tree) }
  { show "\<not> ok \<Longrightarrow> fy_tree w' = fy_tree w" using cases' by blast }
  { assume q: "\<not> prefix src q" "\<not> prefix dst q"
    show "kept (look w q) (look w' q)"
    proof (cases "ok \<and> src \<noteq> dst")
      case True
      with cases' obtain t where tree: "fy_tree w' = set_at dst (Some t) (set_at src None (fy_tree w))" by auto
      let ?mid = "put_tree src None w"
      have "kept (look w q) (look ?mid q)" using put_same [of src src w None] q(1) by (simp add: same_outside_def)
      moreover have "kept (look ?mid q) (look (put_tree dst (Some t) ?mid) q)"
        using put_same [of dst dst ?mid "Some t"] q(2) by (simp add: same_outside_def)
      ultimately show ?thesis by (auto simp: put_tree_def tree intro: kept_trans)
    next
      case False
      with cases' have "fy_tree w' = fy_tree w" by auto
      then show ?thesis by simp
    qed }
qed


lemma write_text_spec:
  assumes run: "write_text path content w = (r, w')"
  defines "p \<equiv> real_path w path"
  shows "(r = Inr () \<longrightarrow> content_at w' p = Some content) \<and>
    (r \<noteq> Inr () \<longrightarrow> kept (look w p) (look w' p)) \<and>
    (\<forall>q. \<not> prefix p q \<and> \<not> prefix (temp_name p) q \<longrightarrow> kept (look w q) (look w' q))"
proof (cases "p = []")
  case True
  with run show ?thesis unfolding write_text_def p_def [symmetric] by auto
next
  case False
  note temp = temp_name_facts [OF False]
  obtain ok1 w1 where wr: "sys_write (temp_name p) content w = (ok1, w1)" by (cases "sys_write (temp_name p) content w")
  have out1: "kept (look w q) (look w1 q)" if "\<not> prefix (temp_name p) q" for q
    using sys_write_same [OF wr prefix_order.refl] that by (simp add: same_outside_def)
  show ?thesis
  proof (cases ok1)
    case False
    with run wr \<open>p \<noteq> []\<close> have "w' = w1" "r \<noteq> Inr ()" unfolding write_text_def p_def [symmetric] by auto
    with out1 temp show ?thesis by blast
  next
    case True
    obtain ok2 w2 where ren: "sys_rename (temp_name p) p w1 = (ok2, w2)" by (cases "sys_rename (temp_name p) p w1")
    have res: "w' = w2" "r = Inr () \<longleftrightarrow> ok2"
      using run wr ren True \<open>p \<noteq> []\<close> unfolding write_text_def p_def [symmetric] by (auto split: bool.splits)
    from sys_write_ok [of "temp_name p" content w w1] wr True
    have "fy_tree w1 = set_at (temp_name p) (Some (FFile content (fy_now w))) (fy_tree w)" "fs_is_dir w (butlast (temp_name p))"
      by auto
    then have "look w1 (temp_name p) = Some (FFile content (fy_now w))"
      using set_at_here [of "fy_tree w" "temp_name p"] temp by (simp add: fs_is_dir_def)
    then have "content_at w2 p = Some content" if ok2
      using rename_over(1) [OF ren that] temp by (auto simp: content_at_iff)
    moreover have "kept (look w p) (look w2 p)" if "\<not> ok2"
      using rename_over(2) [OF ren that] out1 temp by simp
    moreover have "kept (look w q) (look w2 q)" if "\<not> prefix p q" "\<not> prefix (temp_name p) q" for q
      using kept_trans [OF out1 [OF that(2)] rename_over(3) [OF ren that(2,1)]] .
    ultimately show ?thesis unfolding res by blast
  qed
qed

text \<open>C17: Saving is atomic. Whatever call to the system fails and wherever, the file being saved has
  afterwards its new text in full or what it had, and the new text exactly when saving reports
  success; nothing else changes but the temporary file beside it.\<close>

theorem save_is_atomic:
  assumes run: "write_text path content w = (r, w')"
  defines "p \<equiv> real_path w path"
  shows "(r = Inr () \<longrightarrow> content_at w' p = Some content) \<and>
    (r \<noteq> Inr () \<longrightarrow> kept (look w p) (look w' p)) \<and>
    (\<forall>q. \<not> prefix p q \<and> \<not> prefix (temp_name p) q \<longrightarrow> kept (look w q) (look w' q))"
  using write_text_spec [OF run] unfolding p_def .

section \<open>Windows and texts\<close>

lemma concat_pages: "concat (map (\<lambda>i. take L (drop (i * L) xs)) [0..<n]) = take (n * L) xs"
proof (induction n)
  case (Suc n)
  have "take (Suc n * L) xs = take (n * L) xs @ take L (drop (n * L) xs)"
    by (metis add.commute mult_Suc take_add)
  with Suc show ?case by simp
qed simp

text \<open>A window is bounded and pages make the file. Whatever offset and length are asked for, a window
  of a file holds at most as many bytes as asked for and at most a megabyte, they are the file's bytes
  from the offset on, as many as there are, and the total is the file's size; pages of one size
  put together are the file.\<close>

theorem windows_bounded:
  assumes there: "stat w p = Some (FFile b m)" and page: "L \<le> MAX_RANGE_BYTES"
  shows "(\<exists>r. read_range p offset len w = Inr r \<and> rr_total r = length b \<and>
      length (rr_window r) \<le> min len MAX_RANGE_BYTES \<and> rr_window r = take (min len MAX_RANGE_BYTES) (drop offset b)) \<and>
    (\<exists>windows. (\<forall>i < n. \<exists>r. read_range p (i * L) L w = Inr r \<and> windows ! i = rr_window r) \<and> length windows = n \<and>
      concat windows = take (n * L) b)"
proof -
  have run: "read_range p offset len w =
      Inr \<lparr>rr_window = take (min len MAX_RANGE_BYTES) (drop offset b), rr_total = length b\<rparr>" for offset len
    by (simp add: read_range_def there Let_def min_def)
  let ?windows = "map (\<lambda>i. take L (drop (i * L) b)) [0..<n]"
  have "(\<forall>i < n. \<exists>r. read_range p (i * L) L w = Inr r \<and> ?windows ! i = rr_window r) \<and> length ?windows = n \<and>
      concat ?windows = take (n * L) b"
    using page by (simp add: run min_def concat_pages)
  then show ?thesis by (auto simp: run intro: exI [of _ ?windows])
qed

lemma load_text_whole: "load_text b = (Some t, tr, None) \<Longrightarrow> t = b \<and> utf8_valid b \<and> length b \<le> MAX_TEXT_BYTES"
  by (auto simp: load_text_def Let_def split: if_splits)

lemma load_text_small: "utf8_valid b \<Longrightarrow> length b \<le> MAX_TEXT_BYTES \<Longrightarrow> load_text b = (Some b, False, None)"
  by (simp add: load_text_def Let_def)

text \<open>A file too long to load whose cut falls inside a character is said not to be UTF-8.\<close>

lemma cut_character_blamed:
  assumes "MAX_TEXT_BYTES < length b" "\<not> utf8_valid (take MAX_TEXT_BYTES b)"
  shows "snd (snd (load_text b)) = Some NotUtf8"
  using assms by (simp add: load_text_def Let_def)

text \<open>What is opened to be edited is the whole file. When a file is opened as a text that may be saved,
  the text is all its bytes, so saving it unchanged changes nothing; and a text that was saved and is
  within the limits reads back as it was saved.\<close>

theorem opened_text_is_whole:
  assumes opened: "read_file lower p w = Inr m" "fm_text m = Some t" "fm_read_only m = None"
    and direct: "\<forall>l. look w p \<noteq> Some (FLink l)"
  shows "content_at w p = Some t \<and>
    (\<forall>t' w'. write_text p t' w = (Inr (), w') \<and> utf8_valid t' \<and> length t' \<le> MAX_TEXT_BYTES \<and>
       fst (kind_for lower p (take 4096 t')) = KText \<longrightarrow>
       (\<exists>m'. read_file lower p w' = Inr m' \<and> fm_text m' = Some t' \<and> fm_read_only m' = None))"
proof -
  have real: "real_path v p = p" if "\<forall>l. look v p \<noteq> Some (FLink l)" for v
    using that by (auto simp: real_path_def split: option.splits ftree.splits)
  from opened obtain b n where there: "stat w p = Some (FFile b n)"
    by (auto simp: read_file_def split: option.splits ftree.splits)
  obtain kind mime where kind: "kind_for lower p (take 4096 b) = (kind, mime)" by (cases "kind_for lower p (take 4096 b)")
  have "kind = KText" using opened by (auto simp: read_file_def there kind split: if_splits)
  with opened have "load_text b = (Some t, fm_truncated m, None)"
    by (auto simp: read_file_def there kind split: prod.splits)
  from load_text_whole [OF this] there real [OF direct] have first: "content_at w p = Some t"
    by (auto simp: content_at_iff stat_def)
  have "\<exists>m'. read_file lower p w' = Inr m' \<and> fm_text m' = Some t' \<and> fm_read_only m' = None"
    if saved: "write_text p t' w = (Inr (), w')" and t': "utf8_valid t'" "length t' \<le> MAX_TEXT_BYTES"
      "fst (kind_for lower p (take 4096 t')) = KText" for t' w'
  proof -
    from write_text_spec [OF saved] real [OF direct] have "content_at w' p = Some t'" by simp
    then obtain n' where look': "look w' p = Some (FFile t' n')" by (auto simp: content_at_iff)
    then have "stat w' p = Some (FFile t' n')" using real [of w'] by (simp add: stat_def)
    moreover obtain mime' where "kind_for lower p (take 4096 t') = (KText, mime')"
      using t'(3) by (cases "kind_for lower p (take 4096 t')") auto
    ultimately show ?thesis using load_text_small [OF t'(1,2)] by (simp add: read_file_def)
  qed
  with first show ?thesis by blast
qed


section \<open>Examples\<close>

abbreviation demo_fsys :: "fs_fault option list \<Rightarrow> fsys" where
  "demo_fsys faults \<equiv> \<lparr>fy_tree = FDir [(''a'', FDir [(''x.md'', FFile ''hello'' 4), (''l'', FLink ''/b'')]), (''b'', FDir [(''x.md'', FFile ''old'' 4)])],
     fy_faults = faults, fy_now = 9\<rparr>"

abbreviation no_trash :: trasher where "no_trash \<equiv> \<lambda>p w. (False, w)"

lemma two_is_a_number: "2 \<in> set name_numbers"
  unfolding name_numbers_def set_upt by simp

lemma numbered_demo: "numbered ''x.md'' 2 = ''x 2.md''"
  by (simp add: numbered_def stem_ext_def rsplit_dot_def show_nat.simps char_of_def bit_simps)



lemma save_is_atomic_witness:
  "kept (look (demo_fsys [None, Some FsRefused]) [''b'', ''x.md''])
     (look (snd (write_text [''b'', ''x.md''] ''new'' (demo_fsys [None, Some FsRefused]))) [''b'', ''x.md'']) \<and>
   content_at (snd (write_text [''b'', ''x.md''] ''new'' (demo_fsys []))) [''b'', ''x.md''] = Some ''new''"
proof -
  have real: "real_path (demo_fsys faults) [''b'', ''x.md''] = [''b'', ''x.md'']" for faults by (simp add: real_path_def)
  obtain r w' where bad: "write_text [''b'', ''x.md''] ''new'' (demo_fsys [None, Some FsRefused]) = (r, w')" by (metis surj_pair)
  then have "r \<noteq> Inr ()"
    by (auto simp: write_text_def real Let_def temp_name_def sys_write_def sys_fault_def fs_is_dir_def put_tree_def sys_rename_def)
  with save_is_atomic [OF bad] real have "kept (look (demo_fsys [None, Some FsRefused]) [''b'', ''x.md'']) (look w' [''b'', ''x.md''])" by simp
  moreover obtain r2 w2 where good: "write_text [''b'', ''x.md''] ''new'' (demo_fsys []) = (r2, w2)" by (metis surj_pair)
  then have "r2 = Inr ()"
    by (auto simp: write_text_def real Let_def temp_name_def sys_write_def sys_fault_def fs_is_dir_def put_tree_def sys_rename_def)
  with save_is_atomic [OF good] real have "content_at w2 [''b'', ''x.md''] = Some ''new''" by simp
  ultimately show ?thesis using bad good by simp
qed

lemma windows_bounded_witness:
  "\<exists>r. read_range [''a'', ''x.md''] 3 10 (demo_fsys []) = Inr r \<and> rr_window r = ''lo'' \<and> rr_total r = 5"
proof -
  have "stat (demo_fsys []) [''a'', ''x.md''] = Some (FFile ''hello'' 4)" by (simp add: stat_def real_path_def)
  from windows_bounded [OF this, of 2 3 10 0] show ?thesis by (auto simp: MAX_RANGE_BYTES_def)
qed

lemma opened_text_is_whole_witness:
  "\<exists>m. read_file (\<lambda>s. s) [''a'', ''x.md''] (demo_fsys []) = Inr m \<and> content_at (demo_fsys []) [''a'', ''x.md''] = fm_text m"
proof -
  have there: "stat (demo_fsys []) [''a'', ''x.md''] = Some (FFile ''hello'' 4)" by (simp add: stat_def real_path_def)
  have kind: "kind_for (\<lambda>s. s) [''a'', ''x.md''] ''hello'' = (KText, ''text/plain'')"
    by (simp add: kind_for_def kind_table_def path_extension_def rsplit_dot_def SQLITE_MAGIC_def sniff_exec_format_def)
  have "load_text ''hello'' = (Some ''hello'', False, None)"
    by (rule load_text_small) (simp_all add: utf8_valid_ascii MAX_TEXT_BYTES_def)
  with there kind obtain m where m: "read_file (\<lambda>s. s) [''a'', ''x.md''] (demo_fsys []) = Inr m" "fm_text m = Some ''hello''" "fm_read_only m = None"
    by (simp add: read_file_def)
  from opened_text_is_whole [OF this] m show ?thesis by simp
qed


text \<open>Where the rename is refused, as between file systems, a moved folder arrives without its links, and
  they are gone from the source too, though the move reports success.\<close>

lemma move_across_drops_links:
  "fst (move_into no_trash [''a''] [''b''] False (demo_fsys [Some FsRefused])) = Inr [''b'', ''a''] \<and>
   look (demo_fsys [Some FsRefused]) [''a'', ''l''] = Some (FLink ''/b'') \<and>
   look (snd (move_into no_trash [''a''] [''b''] False (demo_fsys [Some FsRefused]))) [''b'', ''a'', ''l''] = None \<and>
   look (snd (move_into no_trash [''a''] [''b''] False (demo_fsys [Some FsRefused]))) [''a'', ''l''] = None"
  by (simp add: move_into_def transfer_guard_def make_room_def free_name_def fs_exists_def fs_is_dir_def sys_rename_def
      sys_fault_def copy_there_def sys_create_dir_all_def put_tree_def remove_source_def sys_remove_dir_all_def Let_def
      sys_write_def)

text \<open>A leading tilde is the home folder whatever follows it.\<close>

lemma tilde_swallows_name: "expand_path ''/home/me'' ''/tmp'' ''~alice/x'' = ''/home/me/alice/x''"
  by (simp add: expand_path_def join_path_def)

end
