(* ===== verification/Files_Archive.thy ===== *)
theory Files_Archive
  imports Files_Backend "HOL-Library.Word"
begin

unbundle bit_operations_syntax

text \<open>
  Making and unpacking archives (\<open>crates/tabverse-fs/src/compress.rs\<close>): the names an archive and
  its folder get, what a selection becomes, and extraction with its guards. The zip, tar and gzip
  readers are other crates: what they yield for a file is the argument \<open>codec\<close>.
\<close>

definition MAX_EXTRACT_ENTRIES :: nat where "MAX_EXTRACT_ENTRIES = 10000"
definition MAX_EXTRACT_BYTES :: "64 word" where "MAX_EXTRACT_BYTES = 2 * 1024 * 1024 * 1024"

section \<open>Names\<close>

definition ignore_case_eq :: "string \<Rightarrow> string \<Rightarrow> bool" where
  "ignore_case_eq a b \<longleftrightarrow>
     (let low = map (\<lambda>c. let n = (of_char c :: nat) in if 65 \<le> n \<and> n \<le> 90 then char_of (n + 32) else c) in low a = low b)"

definition archive_base_name :: "fsys \<Rightarrow> fpath list \<Rightarrow> string" where
  "archive_base_name w entries =
     (let name = (if hd entries = [] then [] else last (hd entries)) in
      if fs_is_dir w (hd entries) then name
      else case rsplit_dot name of
        Some (stem, _) \<Rightarrow> (if stem \<noteq> [] then stem else name)
      | None \<Rightarrow> name)"

definition ARCHIVE_SUFFIXES :: "string list" where
  "ARCHIVE_SUFFIXES = [''.tar.gz'', ''.tar.bz2'', ''.zip'', ''.tgz'', ''.tar'', ''.gz'']"

text \<open>The slice of a suffix's length is taken by bytes, which panics inside a character.\<close>

fun stem_loop :: "string \<Rightarrow> string list \<Rightarrow> (unit, string) outcome" where
  "stem_loop name [] = Ok name"
| "stem_loop name (suf # rest) =
     (if length suf < length name
      then (let at = length name - length suf in
        if \<not> is_char_boundary name at then Panic
        else if ignore_case_eq (drop at name) suf then Ok (take at name)
        else stem_loop name rest)
      else stem_loop name rest)"

definition archive_stem :: "fpath \<Rightarrow> (unit, string) outcome" where
  "archive_stem p = stem_loop (if p = [] then [] else last p) ARCHIVE_SUFFIXES"

definition default_inner_name :: "fpath \<Rightarrow> string" where
  "default_inner_name p =
     (let name = (if p = [] then [] else last p) in
      if 3 < length name \<and> ignore_case_eq (drop (length name - 3) name) ''.gz'' then take (length name - 3) name
      else if 4 < length name \<and> ignore_case_eq (drop (length name - 4) name) ''.tgz'' then take (length name - 4) name @ ''.tar''
      else name)"

section \<open>Making an archive\<close>

text \<open>What a selected entry adds: folders end in a slash, links are left out, children in name order.\<close>

datatype member = MFolder string | MFile string string

fun name_le :: "string \<Rightarrow> string \<Rightarrow> bool" where
  "name_le [] b = True"
| "name_le (a # as) [] = False"
| "name_le (a # as) (b # bs) =
     ((of_char a :: nat) < of_char b \<or> (a = b \<and> name_le as bs))"

fun insert_child :: "string \<times> 'a \<Rightarrow> (string \<times> 'a) list \<Rightarrow> (string \<times> 'a) list" where
  "insert_child x [] = [x]"
| "insert_child x (y # ys) = (if name_le (fst x) (fst y) then x # y # ys else y # insert_child x ys)"

definition sorted_children :: "(string \<times> 'a) list \<Rightarrow> (string \<times> 'a) list" where
  "sorted_children es = foldr insert_child es []"

lemma size_insert_child: "size_list f (insert_child x ys) = f x + size_list f ys + 1"
  by (induction ys) auto

lemma size_sorted_children: "size_list f (sorted_children es) = size_list f es"
  unfolding sorted_children_def by (induction es) (simp_all add: size_insert_child)

function add_tree :: "ftree \<Rightarrow> string \<Rightarrow> member list" and add_children :: "(string \<times> ftree) list \<Rightarrow> string \<Rightarrow> member list" where
  "add_tree (FDir es) arc = MFolder (arc @ ''/'') # add_children (sorted_children es) arc"
| "add_tree (FFile b m) arc = [MFile arc b]"
| "add_tree (FLink l) arc = []"
| "add_children [] arc = []"
| "add_children ((c, t) # es) arc = add_tree t (arc @ ''/'' @ c) @ add_children es arc"
  by pat_completeness auto
termination
  by (relation "measure (\<lambda>x. case x of Inl (t, _) \<Rightarrow> 2 * size t | Inr (es, _) \<Rightarrow> 2 * size_list (size_prod (\<lambda>_. 0) size) es + 1)")
    (auto simp: size_sorted_children comp_def)

text \<open>The target is created before the walk, so the walk sees it.\<close>

datatype archive_error =
    NothingSelected | DestNotFolder | SourceGone fpath | BadFormat | CreateFailed
  | NotAnArchive | InvalidArchive | TooManyEntries | TooManyBytes | EmptyName | Escapes string | NamesNothing string
  | ExtractIo | BadEntry | StemPanic

definition walk_sources :: "fsys \<Rightarrow> fpath list \<Rightarrow> member list" where
  "walk_sources w sources = concat (map (\<lambda>p. case look w p of
     Some t \<Rightarrow> add_tree t (if p = [] then [] else last p) | None \<Rightarrow> []) sources)"

definition archive_create ::
  "(string \<Rightarrow> member list \<Rightarrow> string) \<Rightarrow> fpath list \<Rightarrow> fpath \<Rightarrow> string \<Rightarrow> fsys \<Rightarrow> (archive_error + fpath) \<times> fsys" where
  "archive_create pack entries dest format w =
     (if entries = [] then (Inl NothingSelected, w)
      else if \<not> fs_is_dir w dest then (Inl DestNotFolder, w)
      else case find (\<lambda>p. \<not> fs_exists w p) entries of
        Some p \<Rightarrow> (Inl (SourceGone p), w)
      | None \<Rightarrow>
          if format \<notin> {''zip'', ''tgz''} then (Inl BadFormat, w)
          else let target = free_name w dest (archive_base_name w entries @ ''.'' @ format) in
            case sys_write target [] w of
              (False, w1) \<Rightarrow> (Inl CreateFailed, w1)
            | (True, w1) \<Rightarrow> (case sys_write target (pack format (walk_sources w1 entries)) w1 of
                (False, w2) \<Rightarrow> (Inl CreateFailed, w2)
              | (True, w2) \<Rightarrow> (Inr target, w2)))"

section \<open>Where an entry may land\<close>

definition safe_target :: "fpath \<Rightarrow> string \<Rightarrow> fsys \<Rightarrow> (archive_error + fpath) \<times> fsys" where
  "safe_target root name w =
     (let cleaned = path_comps name; target = root @ cleaned in
      if name = [] then (Inl EmptyName, w)
      else if prefix ''/'' name \<or> ''..'' \<in> set cleaned then (Inl (Escapes name), w)
      else if cleaned = [] then (Inl (NamesNothing name), w)
      else case sys_create_dir_all (butlast target) w of
        (False, w1) \<Rightarrow> (Inl ExtractIo, w1)
      | (True, w1) \<Rightarrow> (if prefix root (butlast target) then (Inr target, w1) else (Inl (Escapes name), w1)))"

definition is_symlink_mode :: "32 word option \<Rightarrow> bool" where
  "is_symlink_mode mode = (case mode of None \<Rightarrow> False | Some m \<Rightarrow> m AND 0xF000 = 0xA000)"

section \<open>Extraction\<close>

text \<open>The content of an entry as its reader yields it: whether it came to an end, and the bytes.\<close>

type_synonym stream = "bool \<times> string"

record zip_entry =
  ze_name :: string
  ze_mode :: "32 word option"
  ze_is_dir :: bool
  ze_size :: "64 word"
  ze_data :: stream

datatype tar_type = TarDirectory | TarRegular | TarOther

record tar_entry =
  te_type :: tar_type
  te_name :: "string option"
  te_size :: "64 word option"
  te_data :: stream

text \<open>\<open>File::create\<close> and \<open>io::copy\<close>.\<close>

definition write_out :: "fpath \<Rightarrow> stream \<Rightarrow> fsys \<Rightarrow> bool \<times> fsys" where
  "write_out target data w = (case sys_write target [] w of
     (False, w1) \<Rightarrow> (False, w1)
   | (True, w1) \<Rightarrow> (case sys_write target (snd data) w1 of
       (ok, w2) \<Rightarrow> (ok \<and> fst data, w2)))"

text \<open>The gate on declared sizes, whose sum is a \<open>u64\<close>.\<close>

definition over_bytes :: "64 word \<Rightarrow> 64 word \<Rightarrow> bool" where
  "over_bytes declared tot \<longleftrightarrow> MAX_EXTRACT_BYTES < declared \<or> MAX_EXTRACT_BYTES < tot"

definition put_file :: "fpath \<Rightarrow> string \<Rightarrow> stream \<Rightarrow> fsys \<Rightarrow> (archive_error + fpath) \<times> fsys" where
  "put_file root name data w = (case safe_target root name w of
     (Inl e, w1) \<Rightarrow> (Inl e, w1)
   | (Inr target, w1) \<Rightarrow> (case write_out target data w1 of
       (True, w2) \<Rightarrow> (Inr target, w2) | (False, w2) \<Rightarrow> (Inl ExtractIo, w2)))"

definition put_folder :: "fpath \<Rightarrow> string \<Rightarrow> fsys \<Rightarrow> (archive_error + unit) \<times> fsys" where
  "put_folder root name w = (case safe_target root name w of
     (Inl e, w1) \<Rightarrow> (Inl e, w1)
   | (Inr target, w1) \<Rightarrow> (case sys_create_dir_all target w1 of
       (True, w2) \<Rightarrow> (Inr (), w2) | (False, w2) \<Rightarrow> (Inl ExtractIo, w2)))"

fun zip_loop :: "fpath \<Rightarrow> zip_entry option list \<Rightarrow> 64 word \<Rightarrow> fpath list \<Rightarrow> fsys \<Rightarrow> (archive_error + fpath list) \<times> fsys" where
  "zip_loop root [] tot files w = (Inr files, w)"
| "zip_loop root (None # es) tot files w = (Inl BadEntry, w)"
| "zip_loop root (Some e # es) tot files w =
     (if is_symlink_mode (ze_mode e) then zip_loop root es tot files w
      else let name = map (\<lambda>c. if c = CHR 0x5C then CHR 0x2F else c) (ze_name e) in
        if ze_is_dir e then (case put_folder root name w of
          (Inl err, w1) \<Rightarrow> (Inl err, w1)
        | (Inr _, w1) \<Rightarrow> zip_loop root es tot files w1)
        else let tot' = tot + ze_size e in
          if over_bytes (ze_size e) tot' then (Inl TooManyBytes, w)
          else case put_file root name (ze_data e) w of
            (Inl err, w1) \<Rightarrow> (Inl err, w1)
          | (Inr target, w1) \<Rightarrow> zip_loop root es tot' (files @ [target]) w1)"

definition extract_zip :: "zip_entry option list option \<Rightarrow> fpath \<Rightarrow> fsys \<Rightarrow> (archive_error + fpath list) \<times> fsys" where
  "extract_zip archive root w = (case archive of
     None \<Rightarrow> (Inl InvalidArchive, w)
   | Some es \<Rightarrow> (if MAX_EXTRACT_ENTRIES < length es then (Inl TooManyEntries, w) else zip_loop root es 0 [] w))"

fun tar_loop :: "fpath \<Rightarrow> tar_entry option list \<Rightarrow> nat \<Rightarrow> 64 word \<Rightarrow> fpath list \<Rightarrow> fsys \<Rightarrow> (archive_error + fpath list) \<times> fsys" where
  "tar_loop root [] count tot files w = (Inr files, w)"
| "tar_loop root (None # es) count tot files w = (Inl BadEntry, w)"
| "tar_loop root (Some e # es) count tot files w =
     (let count' = count + 1 in
      if MAX_EXTRACT_ENTRIES < count' then (Inl TooManyEntries, w)
      else case te_name e of None \<Rightarrow> (Inl BadEntry, w) | Some name \<Rightarrow>
        (case te_type e of
           TarDirectory \<Rightarrow> (case put_folder root name w of
             (Inl err, w1) \<Rightarrow> (Inl err, w1)
           | (Inr _, w1) \<Rightarrow> tar_loop root es count' tot files w1)
         | TarRegular \<Rightarrow> (case te_size e of None \<Rightarrow> (Inl BadEntry, w) | Some declared \<Rightarrow>
             let tot' = tot + declared in
             if over_bytes declared tot' then (Inl TooManyBytes, w)
             else case put_file root name (te_data e) w of
               (Inl err, w1) \<Rightarrow> (Inl err, w1)
             | (Inr target, w1) \<Rightarrow> tar_loop root es count' tot' (files @ [target]) w1)
         | TarOther \<Rightarrow> tar_loop root es count' tot files w))"

text \<open>A lone gzip: at most one byte more than the limit is inflated; a stream that breaks counts as
  nothing written.\<close>

definition extract_gz_single :: "fpath \<Rightarrow> string option \<Rightarrow> stream \<Rightarrow> fpath \<Rightarrow> fsys \<Rightarrow> (archive_error + fpath list) \<times> fsys" where
  "extract_gz_single arc header_name data root w =
     (let name = (case header_name of Some s \<Rightarrow> (if s \<noteq> [] then s else default_inner_name arc) | None \<Rightarrow> default_inner_name arc);
          cap = unat MAX_EXTRACT_BYTES + 1 in
      case safe_target root name w of
        (Inl e, w1) \<Rightarrow> (Inl e, w1)
      | (Inr target, w1) \<Rightarrow> (case sys_write target [] w1 of
          (False, w2) \<Rightarrow> (Inl ExtractIo, w2)
        | (True, w2) \<Rightarrow>
            (let probe = take cap (snd data); whole = fst data \<or> cap \<le> length (snd data) in
             case sys_write target probe w2 of
               (ok, w3) \<Rightarrow>
                 (let written = (if ok \<and> whole then length probe else 0) in
                  if unat MAX_EXTRACT_BYTES < written then (Inl TooManyBytes, snd (sys_remove_file target w3))
                  else (Inr [target], w3)))))"

record codec =
  cd_zip :: "string \<Rightarrow> zip_entry option list option"
  cd_tar :: "string \<Rightarrow> tar_entry option list option"
  cd_gz_name :: "string \<Rightarrow> string option"
  cd_gunzip :: "string \<Rightarrow> stream"

definition extract_tar :: "tar_entry option list option \<Rightarrow> fpath \<Rightarrow> fsys \<Rightarrow> (archive_error + fpath list) \<times> fsys" where
  "extract_tar archive root w = (case archive of
     None \<Rightarrow> (Inl InvalidArchive, w) | Some es \<Rightarrow> tar_loop root es 0 0 [] w)"

definition ustar_at :: "string \<Rightarrow> bool" where
  "ustar_at block \<longleftrightarrow> take 5 (drop 257 block) = ''ustar''"

definition extract_into :: "codec \<Rightarrow> fpath \<Rightarrow> string \<Rightarrow> fpath \<Rightarrow> fsys \<Rightarrow> (archive_error + fpath list) \<times> fsys" where
  "extract_into cd arc bytes root w =
     (let head = take 262 bytes in
      if prefix [CHR ''P'', CHR ''K'', CHR 0x03, CHR 0x04] head \<or> prefix [CHR ''P'', CHR ''K'', CHR 0x05, CHR 0x06] head
      then extract_zip (cd_zip cd bytes) root w
      else if 262 \<le> length head \<and> ustar_at head then extract_tar (cd_tar cd bytes) root w
      else if prefix [CHR 0x1F, CHR 0x8B] head
      then (let (ok, inflated) = cd_gunzip cd bytes; block = take 512 inflated in
        if length block < 512 \<and> \<not> ok then (Inl InvalidArchive, w)
        else if length block = 512 \<and> ustar_at block then extract_tar (cd_tar cd inflated) root w
        else extract_gz_single arc (cd_gz_name cd bytes) (ok, inflated) root w)
      else (Inl NotAnArchive, w))"

definition archive_extract :: "codec \<Rightarrow> fpath \<Rightarrow> fpath \<Rightarrow> fsys \<Rightarrow> (archive_error + fpath \<times> fpath list) \<times> fsys" where
  "archive_extract cd arc dest w =
     (if \<not> fs_is_dir w dest then (Inl DestNotFolder, w)
      else case look w arc of
        Some (FFile bytes _) \<Rightarrow> (case archive_stem arc of
          Ok stem \<Rightarrow>
            (let folder = free_name w dest stem in
             case sys_create_dir_all folder w of
               (False, w1) \<Rightarrow> (Inl CreateFailed, w1)
             | (True, w1) \<Rightarrow> (case extract_into cd arc bytes folder w1 of
                 (Inr files, w2) \<Rightarrow> (Inr (folder, files), w2)
               | (Inl e, w2) \<Rightarrow> (Inl e, snd (sys_remove_dir_all folder w2))))
        | _ \<Rightarrow> (Inl StemPanic, w))
      | _ \<Rightarrow> (Inl NotAnArchive, w))"


section \<open>Nothing lands outside the fresh folder\<close>

text \<open>What may change below \<open>r\<close> only, keeps \<open>r\<close> a folder, and meets no fault where none is due.\<close>

definition inside :: "fpath \<Rightarrow> fsys \<Rightarrow> fsys \<Rightarrow> bool" where
  "inside r w w' \<longleftrightarrow> same_outside r w w' \<and> (fs_is_dir w r \<longrightarrow> fs_is_dir w' r) \<and> (fy_faults w = [] \<longrightarrow> fy_faults w' = [])"

lemma inside_refl [simp]: "inside r w w" by (simp add: inside_def same_refl)

lemma inside_trans [trans]: "inside r w w1 \<Longrightarrow> inside r w1 w2 \<Longrightarrow> inside r w w2"
  unfolding inside_def using same_trans by blast

lemma put_inside: "strict_prefix r p \<Longrightarrow> inside r w (put_tree p v w)"
  unfolding inside_def using put_same [of r p w v] set_at_above_folder [of r p v "fy_tree w"]
  by (auto simp: put_tree_def fs_is_dir_def strict_prefix_def)

lemma fault_inside: "sys_fault w = (f, w') \<Longrightarrow> inside r w w' \<and> (fy_faults w = [] \<longrightarrow> f = None)"
proof -
  assume f: "sys_fault w = (f, w')"
  have "fy_faults w = [] \<longrightarrow> fy_faults w' = [] \<and> f = None" using f by (auto simp: sys_fault_def)
  with sys_fault_tree [OF f] show ?thesis by (simp add: inside_def same_refl fs_is_dir_def)
qed

lemma write_inside: "sys_write p b w = (ok, w') \<Longrightarrow> strict_prefix r p \<Longrightarrow> inside r w w'"
proof -
  assume run: "sys_write p b w = (ok, w')" and p: "strict_prefix r p"
  obtain f w1 where f: "sys_fault w = (f, w1)" by (cases "sys_fault w")
  note one = conjunct1 [OF fault_inside [OF f, of r]]
  show ?thesis
    using run one put_inside [OF p, of w1] inside_trans [OF one put_inside [OF p]] unfolding sys_write_def f
    by (auto split: option.splits fs_fault.splits if_splits)
qed

lemma remove_file_inside: "strict_prefix r p \<Longrightarrow> inside r w (snd (sys_remove_file p w))"
proof -
  assume p: "strict_prefix r p"
  obtain f w1 where f: "sys_fault w = (f, w1)" by (cases "sys_fault w")
  note one = conjunct1 [OF fault_inside [OF f, of r]]
  show ?thesis
    using one inside_trans [OF one put_inside [OF p]] unfolding sys_remove_file_def f
    by (auto split: option.splits)
qed

lemma make_folders_inside: "make_folders up cs w = (ok, w') \<Longrightarrow> prefix r up \<Longrightarrow> inside r w w'"
proof (induction up cs w arbitrary: ok w' rule: make_folders.induct)
  case (2 up c cs w)
  let ?p = "up @ [c]"
  have p: "strict_prefix r ?p" using 2(4) by (auto simp: strict_prefix_def prefix_def)
  show ?case
  proof (cases "fs_is_dir w up")
    case dir: True
    show ?thesis
    proof (cases "fs_exists w ?p")
      case True
      with 2(1) [OF _ refl] dir 2(3) p show ?thesis by (auto simp: Let_def strict_prefix_def)
    next
      case False
      obtain f w1 where f: "sys_fault w = (f, w1)" by (cases "sys_fault w")
      note one = conjunct1 [OF fault_inside [OF f, of r]]
      show ?thesis
      proof (cases f)
        case None
        with False dir f 2(3) have run: "make_folders ?p cs (put_tree ?p (Some (FDir [])) w1) = (ok, w')"
          by (simp add: Let_def)
        have "inside r (put_tree ?p (Some (FDir [])) w1) w'"
          using 2(2) [OF _ refl _ f [symmetric] None run] dir False 2(4) by simp
        then show ?thesis using inside_trans [OF one inside_trans [OF put_inside [OF p]]] by blast
      next
        case (Some x)
        with False dir f 2(3) one show ?thesis by (auto simp: Let_def)
      qed
    qed
  next
    case False
    with 2(3) show ?thesis by simp
  qed
qed auto

lemma create_dirs_inside: "sys_create_dir_all (r @ ds) w = (ok, w') \<Longrightarrow> fs_is_dir w r \<Longrightarrow> inside r w w'"
  using make_folders_skip [of w "[]" r ds] make_folders_inside [of r ds w ok w' r] by (simp add: sys_create_dir_all_def)

text \<open>A place strictly below, reached without going up.\<close>

abbreviation lands :: "fpath \<Rightarrow> fpath \<Rightarrow> bool" where
  "lands root p \<equiv> strict_prefix root p \<and> ''..'' \<notin> set (drop (length root) p)"

lemma safe_target_spec:
  assumes "safe_target root name w = (r, w')" "fs_is_dir w root"
  shows "inside root w w' \<and> (\<forall>t. r = Inr t \<longrightarrow> strict_prefix root t \<and> t = root @ path_comps name \<and> ''..'' \<notin> set (path_comps name))"
proof (cases "name = [] \<or> prefix ''/'' name \<or> ''..'' \<in> set (path_comps name) \<or> path_comps name = []")
  case True
  with assms(1) show ?thesis by (auto simp: safe_target_def Let_def split: if_splits)
next
  case False
  then have last: "butlast (root @ path_comps name) = root @ butlast (path_comps name)" by (simp add: butlast_append)
  obtain ok w1 where made: "sys_create_dir_all (root @ butlast (path_comps name)) w = (ok, w1)"
    by (cases "sys_create_dir_all (root @ butlast (path_comps name)) w")
  from create_dirs_inside [OF made assms(2)] assms(1) False show ?thesis
    by (auto simp: safe_target_def Let_def last made strict_prefix_def split: bool.splits)
qed

lemma write_out_inside: "write_out t data w = (ok, w') \<Longrightarrow> strict_prefix r t \<Longrightarrow> inside r w w'"
proof -
  assume run: "write_out t data w = (ok, w')" and t: "strict_prefix r t"
  obtain ok1 w1 where one: "sys_write t [] w = (ok1, w1)" by (cases "sys_write t [] w")
  obtain ok2 w2 where two: "sys_write t (snd data) w1 = (ok2, w2)" by (cases "sys_write t (snd data) w1")
  show ?thesis using run write_inside [OF one t] inside_trans [OF write_inside [OF one t] write_inside [OF two t]]
    by (auto simp: write_out_def one two split: bool.splits)
qed

lemma put_file_spec: "put_file root name data w = (r, w') \<Longrightarrow> fs_is_dir w root \<Longrightarrow>
    inside root w w' \<and> (\<forall>t. r = Inr t \<longrightarrow> lands root t)"
proof -
  assume run: "put_file root name data w = (r, w')" and dir: "fs_is_dir w root"
  obtain r1 w1 where one: "safe_target root name w = (r1, w1)" by (cases "safe_target root name w")
  note safe = safe_target_spec [OF one dir]
  show ?thesis
  proof (cases r1)
    case (Inr t)
    obtain ok w2 where two: "write_out t data w1 = (ok, w2)" by (cases "write_out t data w1")
    with run safe Inr inside_trans [OF _ write_out_inside [OF two]] show ?thesis
      by (auto simp: put_file_def one split: bool.splits)
  qed (use run safe in \<open>auto simp: put_file_def one\<close>)
qed

lemma put_folder_spec: "put_folder root name w = (r, w') \<Longrightarrow> fs_is_dir w root \<Longrightarrow> inside root w w'"
proof -
  assume run: "put_folder root name w = (r, w')" and dir: "fs_is_dir w root"
  obtain r1 w1 where one: "safe_target root name w = (r1, w1)" by (cases "safe_target root name w")
  note safe = safe_target_spec [OF one dir]
  show ?thesis
  proof (cases r1)
    case (Inr t)
    obtain ok w2 where two: "sys_create_dir_all t w1 = (ok, w2)" by (cases "sys_create_dir_all t w1")
    have "fs_is_dir w1 root" using safe dir by (simp add: inside_def)
    with two safe Inr have "inside root w1 w2" using create_dirs_inside [of root "path_comps name" w1 ok w2] by simp
    with safe inside_trans have "inside root w w2" by blast
    with run Inr two safe show ?thesis by (auto simp: put_folder_def one split: bool.splits)
  qed (use run safe in \<open>auto simp: put_folder_def one\<close>)
qed

lemma zip_loop_inside:
  "zip_loop root es tot files w = (r, w') \<Longrightarrow> fs_is_dir w root \<Longrightarrow> \<forall>f \<in> set files. lands root f \<Longrightarrow>
   inside root w w' \<and> (\<forall>fs. r = Inr fs \<longrightarrow> (\<forall>f \<in> set fs. lands root f))"
proof (induction es arbitrary: tot files w)
  case (Cons x es)
  show ?case
  proof (cases x)
    case (Some e)
    let ?name = "map (\<lambda>c. if c = CHR 0x5C then CHR 0x2F else c) (ze_name e)"
    obtain rf wf where f: "put_folder root ?name w = (rf, wf)" by (cases "put_folder root ?name w")
    obtain rp wp where p: "put_file root ?name (ze_data e) w = (rp, wp)" by (cases "put_file root ?name (ze_data e) w")
    note inf = put_folder_spec [OF f Cons.prems(2)] and inp = put_file_spec [OF p Cons.prems(2)]
    have dirs: "fs_is_dir wf root" "fs_is_dir wp root" using inf inp Cons.prems(2) by (simp_all add: inside_def)
    consider (link) "is_symlink_mode (ze_mode e)" | (folder) "\<not> is_symlink_mode (ze_mode e)" "ze_is_dir e"
      | (plain) "\<not> is_symlink_mode (ze_mode e)" "\<not> ze_is_dir e" by blast
    then show ?thesis
    proof cases
      case link
      with Cons.prems Some have "zip_loop root es tot files w = (r, w')" by simp
      from Cons.IH [OF this Cons.prems(2,3)] show ?thesis .
    next
      case folder
      show ?thesis
      proof (cases rf)
        case (Inr u)
        with Cons.prems Some folder f have "zip_loop root es tot files wf = (r, w')" by (simp add: Let_def)
        from Cons.IH [OF this dirs(1) Cons.prems(3)] inf inside_trans show ?thesis by blast
      qed (use Cons.prems Some folder f inf in \<open>auto simp: Let_def\<close>)
    next
      case plain
      show ?thesis
      proof (cases "over_bytes (ze_size e) (tot + ze_size e)")
        case False
        show ?thesis
        proof (cases rp)
          case (Inr t)
          with Cons.prems Some plain p False have "zip_loop root es (tot + ze_size e) (files @ [t]) wp = (r, w')"
            by (simp add: Let_def)
          from Cons.IH [OF this dirs(2)] Cons.prems(3) inp Inr inside_trans show ?thesis by auto
        qed (use Cons.prems Some plain p inp False in \<open>auto simp: Let_def\<close>)
      qed (use Cons.prems Some plain in \<open>auto simp: Let_def\<close>)
    qed
  qed (use Cons.prems in auto)
qed auto


lemma tar_loop_inside:
  "tar_loop root es count tot files w = (r, w') \<Longrightarrow> fs_is_dir w root \<Longrightarrow> \<forall>f \<in> set files. lands root f \<Longrightarrow>
   inside root w w' \<and> (\<forall>fs. r = Inr fs \<longrightarrow> (\<forall>f \<in> set fs. lands root f))"
proof (induction es arbitrary: count tot files w)
  case (Cons x es)
  show ?case
  proof (cases "(\<exists>e name. x = Some e \<and> te_name e = Some name) \<and> \<not> MAX_EXTRACT_ENTRIES < count + 1")
    case True
    then obtain e name where e: "x = Some e" "te_name e = Some name" and few: "\<not> MAX_EXTRACT_ENTRIES < count + 1" by blast
    obtain rf wf where f: "put_folder root name w = (rf, wf)" by (cases "put_folder root name w")
    obtain rp wp where p: "put_file root name (te_data e) w = (rp, wp)" by (cases "put_file root name (te_data e) w")
    note inf = put_folder_spec [OF f Cons.prems(2)] and inp = put_file_spec [OF p Cons.prems(2)]
    have dirs: "fs_is_dir wf root" "fs_is_dir wp root" using inf inp Cons.prems(2) by (simp_all add: inside_def)
    show ?thesis
    proof (cases "te_type e")
      case TarDirectory
      show ?thesis
      proof (cases rf)
        case (Inr u)
        with Cons.prems(1) e few TarDirectory f have "tar_loop root es (count + 1) tot files wf = (r, w')" by simp
        from Cons.IH [OF this dirs(1) Cons.prems(3)] inf inside_trans show ?thesis by blast
      qed (use Cons.prems e few TarDirectory f inf in auto)
    next
      case TarRegular
      show ?thesis
      proof (cases "\<exists>d. te_size e = Some d \<and> \<not> over_bytes d (tot + d)")
        case True
        then obtain d where d: "te_size e = Some d" "\<not> over_bytes d (tot + d)" by blast
        show ?thesis
        proof (cases rp)
          case (Inr t)
          with Cons.prems(1) e few TarRegular d p have "tar_loop root es (count + 1) (tot + d) (files @ [t]) wp = (r, w')"
            by (simp add: Let_def)
          from Cons.IH [OF this dirs(2)] Cons.prems(3) inp Inr inside_trans show ?thesis by auto
        qed (use Cons.prems e few TarRegular d p inp in \<open>auto simp: Let_def\<close>)
      next
        case False
        with Cons.prems(1) e few TarRegular have "w' = w \<and> (\<forall>fs. r \<noteq> Inr fs)"
          by (cases "te_size e") (auto simp: Let_def)
        then show ?thesis by simp
      qed
    next
      case TarOther
      with Cons.prems(1) e few have "tar_loop root es (count + 1) tot files w = (r, w')" by simp
      from Cons.IH [OF this Cons.prems(2,3)] show ?thesis .
    qed
  next
    case False
    have "w' = w \<and> (\<forall>fs. r \<noteq> Inr fs)"
    proof (cases x)
      case (Some e)
      with False Cons.prems(1) show ?thesis by (cases "te_name e") (auto simp: Let_def split: if_splits)
    qed (use Cons.prems(1) in auto)
    then show ?thesis by simp
  qed
qed auto

lemma extract_gz_inside:
  assumes run: "extract_gz_single arc nm data root w = (r, w')" and dir: "fs_is_dir w root"
  shows "inside root w w' \<and> (\<forall>fs. r = Inr fs \<longrightarrow> (\<forall>f \<in> set fs. lands root f))"
proof -
  define name where "name = (case nm of Some s \<Rightarrow> (if s \<noteq> [] then s else default_inner_name arc) | None \<Rightarrow> default_inner_name arc)"
  define probe where "probe = take (unat MAX_EXTRACT_BYTES + 1) (snd data)"
  obtain r1 w1 where one: "safe_target root name w = (r1, w1)" by (cases "safe_target root name w")
  note safe = safe_target_spec [OF one dir]
  note run = run [unfolded extract_gz_single_def Let_def, folded name_def probe_def, unfolded one]
  show ?thesis
  proof (cases r1)
    case (Inr t)
    with safe have t: "strict_prefix root t" "inside root w w1" "lands root t" by auto
    obtain ok2 w2 where two: "sys_write t [] w1 = (ok2, w2)" by (cases "sys_write t [] w1")
    obtain ok3 w3 where three: "sys_write t probe w2 = (ok3, w3)" by (cases "sys_write t probe w2")
    have to2: "inside root w w2" using t inside_trans write_inside [OF two t(1)] by blast
    then have to3: "inside root w w3" using inside_trans write_inside [OF three t(1)] by blast
    then have "inside root w (snd (sys_remove_file t w3))" using inside_trans remove_file_inside [OF t(1)] by blast
    moreover have "(r, w') = (Inl ExtractIo, w2) \<or> (r, w') = (Inr [t], w3) \<or>
        (r, w') = (Inl TooManyBytes, snd (sys_remove_file t w3))"
      using run unfolding Inr by (cases ok2) (simp_all only: sum.case prod.case bool.case two three split: if_split, metis+)
    ultimately show ?thesis using to2 to3 t(3) by auto
  next
    case (Inl e)
    with run have "r = Inl e" "w' = w1" by auto
    with safe show ?thesis by simp
  qed
qed

lemma if_E: "(if c then a else b) = x \<Longrightarrow> (c \<Longrightarrow> a = x \<Longrightarrow> P) \<Longrightarrow> (\<not> c \<Longrightarrow> b = x \<Longrightarrow> P) \<Longrightarrow> P"
  by (simp split: if_splits)

lemma extract_into_inside:
  assumes run: "extract_into cd arc bytes root w = (r, w')" and dir: "fs_is_dir w root"
  shows "inside root w w' \<and> (\<forall>fs. r = Inr fs \<longrightarrow> (\<forall>f \<in> set fs. lands root f))"
proof -
  have zip: "extract_zip a root w = (r, w') \<Longrightarrow> ?thesis" for a
    using zip_loop_inside [OF _ dir, of _ 0 "[]" r w'] by (auto simp: extract_zip_def split: option.splits if_splits)
  have tar: "extract_tar a root w = (r, w') \<Longrightarrow> ?thesis" for a
    using tar_loop_inside [OF _ dir, of _ 0 0 "[]" r w'] by (auto simp: extract_tar_def split: option.splits)
  have gz: "extract_gz_single arc nm data root w = (r, w') \<Longrightarrow> ?thesis" for nm data
    using extract_gz_inside [OF _ dir] by blast
  have none: "(r, w') = (Inl e, w) \<Longrightarrow> ?thesis" for e by simp
  obtain ok inflated where gun: "cd_gunzip cd bytes = (ok, inflated)" by (cases "cd_gunzip cd bytes")
  note run = run [unfolded extract_into_def Let_def gun prod.case]
  show ?thesis
    using run by (elim if_E) (erule zip tar gz | rule none, erule sym)+
qed

text \<open>The folder made for an archive.\<close>

lemma fresh_folder:
  assumes made: "sys_create_dir_all (free_name w dest stem) w = (ok, w1)" and dest: "fs_is_dir w dest"
    and free: "\<exists>n \<in> set name_numbers. \<not> fs_exists w (dest @ [numbered stem n])"
  shows "look w (free_name w dest stem) = None" and "butlast (free_name w dest stem) = dest"
    and "free_name w dest stem \<noteq> []"
    and "same_outside (free_name w dest stem) w w1" and "ok \<Longrightarrow> fs_is_dir w1 (free_name w dest stem)"
    and "fy_faults w = [] \<Longrightarrow> fy_faults w1 = [] \<and> ok"
proof -
  let ?f = "free_name w dest stem"
  obtain c where f: "?f = dest @ [c]" using numbered_in_dir by blast
  show fresh: "look w ?f = None" using free_name_fresh [OF free] by (simp add: fs_exists_def)
  show "butlast ?f = dest" "?f \<noteq> []" by (simp_all add: f)
  from create_dir_child [OF dest] made f fresh
  have dir: "same_outside ?f w w1" "ok \<Longrightarrow> fy_tree w1 = set_at ?f (Some (FDir [])) (fy_tree w)" by auto
  show "same_outside ?f w w1" by (rule dir(1))
  show "fs_is_dir w1 ?f" if ok
    using dir(2) [OF that] set_at_here [of "fy_tree w" ?f "FDir []"] dest by (simp add: fs_is_dir_def f)
  have run: "make_folders dest [c] w = (ok, w1)"
    using made make_folders_skip [of w "[]" dest "[c]"] dest by (simp add: sys_create_dir_all_def f)
  show "fy_faults w1 = [] \<and> ok" if "fy_faults w = []"
  proof -
    have calm: "sys_fault w = (None, w)" using that by (simp add: sys_fault_def)
    have new: "\<not> fs_exists w (dest @ [c])" using fresh by (simp add: fs_exists_def f)
    let ?w = "put_tree (dest @ [c]) (Some (FDir [])) w"
    have "make_folders dest [c] w = (fs_is_dir ?w (dest @ [c]), ?w)"
      by (simp only: make_folders.simps dest new calm Let_def if_True if_False simp_thms prod.case option.case)
    with run have "w1 = ?w" "ok = fs_is_dir ?w (dest @ [c])" by simp_all
    moreover have "fs_is_dir ?w (dest @ [c])"
      using set_at_here [of "fy_tree w" "dest @ [c]" "FDir []"] dest by (simp add: fs_is_dir_def put_tree_def)
    ultimately show ?thesis using that by (simp add: put_tree_def)
  qed
qed

lemma remove_dir_same: "same_outside p w (snd (sys_remove_dir_all p w))"
proof -
  obtain f w1 where f: "sys_fault w = (f, w1)" by (cases "sys_fault w")
  have one: "same_outside p w w1" using f by (simp add: same_refl)
  show ?thesis
    using one same_trans [OF one put_same [of p p w1]] unfolding sys_remove_dir_all_def f
    by (auto split: option.splits fs_fault.splits ftree.splits)
qed

text \<open>The steps of an extraction that got as far as its folder.\<close>

lemma archive_extract_cases:
  assumes run: "archive_extract cd arc dest w = (r, w')" and stem: "archive_stem arc = Ok stem"
  obtains (refused) "w' = w" "\<forall>x. r \<noteq> Inr x"
  | (unmade) w1 where "fs_is_dir w dest" "sys_create_dir_all (free_name w dest stem) w = (False, w1)" "w' = w1" "\<forall>x. r \<noteq> Inr x"
  | (done_ok) w1 bytes files where "fs_is_dir w dest" "sys_create_dir_all (free_name w dest stem) w = (True, w1)"
      "extract_into cd arc bytes (free_name w dest stem) w1 = (Inr files, w')" "r = Inr (free_name w dest stem, files)"
  | (undone) w1 bytes e w2 where "fs_is_dir w dest" "sys_create_dir_all (free_name w dest stem) w = (True, w1)"
      "extract_into cd arc bytes (free_name w dest stem) w1 = (Inl e, w2)" "r = Inl e"
      "w' = snd (sys_remove_dir_all (free_name w dest stem) w2)"
proof (cases "fs_is_dir w dest \<and> (\<exists>bytes m. look w arc = Some (FFile bytes m))")
  case False
  with run have "w' = w \<and> (\<forall>x. r \<noteq> Inr x)"
    by (auto simp: archive_extract_def split: if_splits option.splits ftree.splits)
  then show thesis by (intro refused) auto
next
  case True
  then obtain bytes m where arc: "look w arc = Some (FFile bytes m)" and dest: "fs_is_dir w dest" by blast
  let ?f = "free_name w dest stem"
  obtain ok w1 where made: "sys_create_dir_all ?f w = (ok, w1)" by (cases "sys_create_dir_all ?f w")
  obtain res w2 where ext: "extract_into cd arc bytes ?f w1 = (res, w2)" by (cases "extract_into cd arc bytes ?f w1")
  show thesis
  proof (cases ok)
    case False
    with run dest arc stem made show thesis by (intro unmade) (auto simp: archive_extract_def Let_def)
  next
    case True
    show thesis
    proof (cases res)
      case (Inl e)
      with run dest arc stem made ext True show thesis by (intro undone [OF dest]) (auto simp: archive_extract_def Let_def)
    next
      case (Inr files)
      with run dest arc stem made ext True show thesis by (intro done_ok [OF dest]) (auto simp: archive_extract_def Let_def)
    qed
  qed
qed

text \<open>C18: Extraction is confined to a fresh folder. Whatever the archive says, whatever names its entries have
  and whichever call to the system fails, every file and link outside is afterwards what it was; a
  successful extraction went into a folder that did not exist, inside the one asked for, and every
  file it reports is inside that folder, reached without going up.\<close>

theorem extraction_confined:
  assumes run: "archive_extract cd arc dest w = (r, w')" and stem: "archive_stem arc = Ok stem"
    and free: "\<exists>n \<in> set name_numbers. \<not> fs_exists w (dest @ [numbered stem n])"
  shows "(\<forall>q. look w q \<noteq> None \<longrightarrow> kept (look w q) (look w' q)) \<and>
    (\<forall>folder files. r = Inr (folder, files) \<longrightarrow> look w folder = None \<and> butlast folder = dest \<and>
       (\<forall>f \<in> set files. strict_prefix folder f \<and> ''..'' \<notin> set (drop (length folder) f)))"
  using run stem
proof (cases rule: archive_extract_cases)
  case refused
  then show ?thesis by simp
next
  case (unmade w1)
  note f = fresh_folder [OF unmade(2,1) free]
  from f(4) not_above [OF f(1)] have "\<forall>q. look w q \<noteq> None \<longrightarrow> kept (look w q) (look w1 q)"
    unfolding same_outside_def by metis
  with unmade(3,4) show ?thesis by simp
next
  case (done_ok w1 bytes files)
  note f = fresh_folder [OF done_ok(2,1) free]
  note ext = extract_into_inside [OF done_ok(3) f(5) [OF TrueI]]
  have "same_outside (free_name w dest stem) w w'" using same_trans [OF f(4)] ext by (simp add: inside_def)
  with not_above [OF f(1)] have "\<forall>q. look w q \<noteq> None \<longrightarrow> kept (look w q) (look w' q)"
    unfolding same_outside_def by metis
  with ext done_ok(4) f(1,2) show ?thesis by auto
next
  case (undone w1 bytes e w2)
  note f = fresh_folder [OF undone(2,1) free]
  note ext = extract_into_inside [OF undone(3) f(5) [OF TrueI]]
  have "same_outside (free_name w dest stem) w w'"
    unfolding undone(5) using same_trans [OF same_trans [OF f(4)] remove_dir_same] ext by (simp add: inside_def)
  with not_above [OF f(1)] have "\<forall>q. look w q \<noteq> None \<longrightarrow> kept (look w q) (look w' q)"
    unfolding same_outside_def by metis
  with undone(4) show ?thesis by simp
qed

text \<open>C19: A refused archive leaves nothing behind. When no call to the system fails, an extraction that is
  refused, for its names, its sizes, its number of entries or because it cannot be read, leaves
  every path as it was: the fresh folder is gone with all that was written into it.\<close>

theorem refused_archive_leaves_nothing:
  assumes run: "archive_extract cd arc dest w = (Inl e, w')" and stem: "archive_stem arc = Ok stem"
    and free: "\<exists>n \<in> set name_numbers. \<not> fs_exists w (dest @ [numbered stem n])" and calm: "fy_faults w = []"
  shows "kept (look w q) (look w' q)"
  using run stem
proof (cases rule: archive_extract_cases)
  case (unmade w1)
  with fresh_folder(6) [OF unmade(2,1) free calm] show ?thesis by simp
next
  case (undone w1 bytes e2 w2)
  let ?f = "free_name w dest stem"
  note f = fresh_folder [OF undone(2,1) free]
  note ext = extract_into_inside [OF undone(3) f(5) [OF TrueI]]
  from ext f(5) [OF TrueI] f(6) [OF calm] have dir2: "fs_is_dir w2 ?f" and "fy_faults w2 = []"
    unfolding inside_def by blast+
  then have w2: "fs_is_dir w2 ?f" "sys_fault w2 = (None, w2)" by (simp_all add: sys_fault_def)
  from dir2 obtain es where es: "look w2 ?f = Some (FDir es)" unfolding fs_is_dir_def is_folder_iff by blast
  have w': "w' = put_tree ?f None w2"
    unfolding undone(5) sys_remove_dir_all_def w2 by (simp add: es f(3))
  have gone: "look w' ?f = None"
    using set_at_gone [OF f(3), of "fy_tree w2"] es by (simp add: w' put_tree_def)
  have same: "same_outside ?f w w'"
    unfolding undone(5) using same_trans [OF same_trans [OF f(4)] remove_dir_same] ext by (simp add: inside_def)
  show ?thesis
  proof (cases "prefix ?f q")
    case True
    then obtain s where q: "q = ?f @ s" by (auto simp: prefix_def)
    have "look w q = None" "look w' q = None" unfolding q using lookup_prefix_none [OF f(1)] lookup_prefix_none [OF gone] by blast+
    then show ?thesis by simp
  next
    case False
    with same show ?thesis by (simp add: same_outside_def)
  qed
qed auto


section \<open>The guards on size\<close>

definition file_sizes :: "zip_entry option list \<Rightarrow> nat list" where
  "file_sizes es = concat (map (\<lambda>x. case x of
     Some e \<Rightarrow> (if is_symlink_mode (ze_mode e) \<or> ze_is_dir e then [] else [unat (ze_size e)]) | None \<Rightarrow> []) es)"

definition tar_sizes :: "tar_entry option list \<Rightarrow> nat list" where
  "tar_sizes es = concat (map (\<lambda>x. case x of
     Some e \<Rightarrow> (case te_type e of TarRegular \<Rightarrow> (case te_size e of Some n \<Rightarrow> [unat n] | None \<Rightarrow> []) | _ \<Rightarrow> []) | None \<Rightarrow> []) es)"

text \<open>One more declared size within the limits does not wrap.\<close>

lemma within_bytes:
  assumes "\<not> over_bytes d (tot + d)" "unat tot \<le> unat MAX_EXTRACT_BYTES"
  shows "unat (tot + d) = unat tot + unat d" "unat (tot + d) \<le> unat MAX_EXTRACT_BYTES"
proof -
  have m: "unat MAX_EXTRACT_BYTES = 2147483648" by (simp add: MAX_EXTRACT_BYTES_def)
  from assms(1) have "unat d \<le> 2147483648" "unat (tot + d) \<le> 2147483648"
    unfolding over_bytes_def word_less_nat_alt m by simp_all
  with assms(2) m have "unat tot + unat d < 2 ^ LENGTH(64)" by simp
  then show "unat (tot + d) = unat tot + unat d" by (subst unat_add_lem [symmetric]) simp_all
  show "unat (tot + d) \<le> unat MAX_EXTRACT_BYTES" using m \<open>unat (tot + d) \<le> 2147483648\<close> by simp
qed

lemma zip_loop_bound:
  "zip_loop root es tot files w = (Inr fs, w') \<Longrightarrow> unat tot \<le> unat MAX_EXTRACT_BYTES \<Longrightarrow>
     unat tot + sum_list (file_sizes es) \<le> unat MAX_EXTRACT_BYTES \<and> length fs = length files + length (file_sizes es)"
proof (induction root es tot files w rule: zip_loop.induct)
  case (3 root e es tot files w)
  show ?case
  proof (cases "is_symlink_mode (ze_mode e)")
    case True
    with 3(1,4,5) show ?thesis by (simp add: file_sizes_def)
  next
    case link: False
    let ?name = "map (\<lambda>c. if c = CHR 0x5C then CHR 0x2F else c) (ze_name e)"
    show ?thesis
    proof (cases "ze_is_dir e")
      case True
      obtain x w1 where put: "put_folder root ?name w = (x, w1)" by (cases "put_folder root ?name w")
      with 3(4) link True obtain u where x: "x = Inr u" and go: "zip_loop root es tot files w1 = (Inr fs, w')"
        by (cases x) (auto simp: Let_def)
      from 3(2) [OF link refl True put [symmetric] x go 3(5)] True show ?thesis by (simp add: file_sizes_def)
    next
      case False
      from 3(4) link False have ok: "\<not> over_bytes (ze_size e) (tot + ze_size e)" by (auto simp: Let_def split: if_splits)
      obtain x w1 where put: "put_file root ?name (ze_data e) w = (x, w1)" by (cases "put_file root ?name (ze_data e) w")
      with 3(4) link False ok obtain t where x: "x = Inr t"
        and go: "zip_loop root es (tot + ze_size e) (files @ [t]) w1 = (Inr fs, w')"
        by (cases x) (auto simp: Let_def)
      from 3(3) [OF link refl False refl ok put [symmetric] x go within_bytes(2) [OF ok 3(5)]] within_bytes(1) [OF ok 3(5)]
      show ?thesis using link False by (simp add: file_sizes_def)
    qed
  qed
qed (simp_all add: file_sizes_def)

lemma tar_loop_bound:
  "tar_loop root es count tot files w = (Inr fs, w') \<Longrightarrow> unat tot \<le> unat MAX_EXTRACT_BYTES \<Longrightarrow> count \<le> MAX_EXTRACT_ENTRIES \<Longrightarrow>
     count + length es \<le> MAX_EXTRACT_ENTRIES \<and> unat tot + sum_list (tar_sizes es) \<le> unat MAX_EXTRACT_BYTES \<and>
     length fs = length files + length (tar_sizes es)"
proof (induction root es count tot files w rule: tar_loop.induct)
  case (3 root e es count tot files w)
  from 3(4) obtain name where few: "\<not> MAX_EXTRACT_ENTRIES < count + 1" and name: "te_name e = Some name"
    by (auto simp: Let_def split: if_splits option.splits)
  show ?case
  proof (cases "te_type e")
    case TarDirectory
    obtain x w1 where put: "put_folder root name w = (x, w1)" by (cases "put_folder root name w")
    with 3(4) few name TarDirectory obtain u where x: "x = Inr u"
      and go: "tar_loop root es (count + 1) tot files w1 = (Inr fs, w')"
      by (cases x) (auto simp: Let_def)
    from 3(1) [OF refl few name TarDirectory put [symmetric] x go 3(5)] few TarDirectory show ?thesis
      by (simp add: tar_sizes_def)
  next
    case TarRegular
    from 3(4) few name TarRegular obtain d where d: "te_size e = Some d" by (auto simp: Let_def split: option.splits)
    with 3(4) few name TarRegular have ok: "\<not> over_bytes d (tot + d)" by (auto simp: Let_def split: if_splits)
    obtain x w1 where put: "put_file root name (te_data e) w = (x, w1)" by (cases "put_file root name (te_data e) w")
    with 3(4) few name TarRegular d ok obtain t where x: "x = Inr t"
      and go: "tar_loop root es (count + 1) (tot + d) (files @ [t]) w1 = (Inr fs, w')"
      by (cases x) (auto simp: Let_def)
    from 3(2) [OF refl few name TarRegular d refl ok put [symmetric] x go within_bytes(2) [OF ok 3(5)]] within_bytes(1) [OF ok 3(5)]
      few TarRegular d show ?thesis by (simp add: tar_sizes_def)
  next
    case TarOther
    with 3(4) few name have go: "tar_loop root es (count + 1) tot files w = (Inr fs, w')" by (simp add: Let_def)
    from 3(3) [OF refl few name TarOther go 3(5)] few TarOther show ?thesis by (simp add: tar_sizes_def)
  qed
qed (simp_all add: tar_sizes_def)

text \<open>C20: An extraction is bounded. A zip or a tar that was extracted holds at most 10,000 entries, and the
  sizes its files declare come, as numbers that cannot wrap, to at most 2 GiB in all; one path is
  reported for each of its files.\<close>

theorem extraction_bounded:
  "(extract_zip (Some zs) root w = (Inr files, w') \<longrightarrow>
      length zs \<le> 10000 \<and> sum_list (file_sizes zs) \<le> 2 ^ 31 \<and> length files = length (file_sizes zs)) \<and>
   (extract_tar (Some ts) root w = (Inr files, w') \<longrightarrow>
      length ts \<le> 10000 \<and> sum_list (tar_sizes ts) \<le> 2 ^ 31 \<and> length files = length (tar_sizes ts))"
  using zip_loop_bound [of root zs 0 "[]" w files w'] tar_loop_bound [of root ts 0 0 "[]" w files w']
  by (auto simp: extract_zip_def extract_tar_def MAX_EXTRACT_ENTRIES_def MAX_EXTRACT_BYTES_def split: if_splits)

text \<open>A small archive and a disk to unpack it on.\<close>

abbreviation demo_codec :: "string \<Rightarrow> codec" where
  "demo_codec name \<equiv> \<lparr>cd_zip = \<lambda>b. Some [Some \<lparr>ze_name = ''ok'', ze_mode = None, ze_is_dir = False, ze_size = 2, ze_data = (True, ''hi'')\<rparr>,
      Some \<lparr>ze_name = name, ze_mode = None, ze_is_dir = False, ze_size = 4, ze_data = (True, ''evil'')\<rparr>],
     cd_tar = \<lambda>b. None, cd_gz_name = \<lambda>b. None, cd_gunzip = \<lambda>b. (True, b)\<rparr>"

abbreviation zip_disk :: fsys where
  "zip_disk \<equiv> \<lparr>fy_tree = FDir [(''d'', FDir [(''p.zip'', FFile [CHR ''P'', CHR ''K'', CHR 0x03, CHR 0x04] 4), (''own'', FFile ''mine'' 4)])],
     fy_faults = [], fy_now = 9\<rparr>"

lemma demo_stem: "archive_stem [''d'', ''p.zip''] = Ok ''p''"
  by (simp add: archive_stem_def ARCHIVE_SUFFIXES_def ignore_case_eq_def is_char_boundary_def is_cont_def)

lemma demo_room: "\<exists>n \<in> set name_numbers. \<not> fs_exists zip_disk ([''d''] @ [numbered ''p'' n])"
  by (rule bexI [OF _ two_is_a_number])
    (simp add: numbered_def stem_ext_def rsplit_dot_def show_nat.simps char_of_def bit_simps fs_exists_def)

lemma extraction_confined_witness:
  "kept (look zip_disk [''d'', ''own'']) (look (snd (archive_extract (demo_codec ''../own'') [''d'', ''p.zip''] [''d''] zip_disk)) [''d'', ''own''])"
proof -
  obtain r w' where run: "archive_extract (demo_codec ''../own'') [''d'', ''p.zip''] [''d''] zip_disk = (r, w')" by (metis surj_pair)
  from extraction_confined [OF run demo_stem demo_room, THEN conjunct1, rule_format, of "[''d'', ''own'']"] run
  show ?thesis by simp
qed

lemma demo_refused:
  "fst (archive_extract (demo_codec ''../own'') [''d'', ''p.zip''] [''d''] zip_disk) = Inl (Escapes ''../own'')"
proof -
  have free: "free_name zip_disk [''d''] ''p'' = [''d'', ''p'']" by (simp add: free_name_def fs_exists_def)
  show ?thesis
    unfolding archive_extract_def demo_stem
    by (simp add: free fs_is_dir_def sys_create_dir_all_def fs_exists_def sys_fault_def put_tree_def extract_into_def
        extract_zip_def MAX_EXTRACT_ENTRIES_def is_symlink_mode_def over_bytes_def MAX_EXTRACT_BYTES_def put_file_def
        safe_target_def path_comps_def write_out_def sys_write_def Let_def)
qed

lemma refused_archive_leaves_nothing_witness:
  "kept (look zip_disk [''d'', ''p'', ''ok''])
     (look (snd (archive_extract (demo_codec ''../own'') [''d'', ''p.zip''] [''d''] zip_disk)) [''d'', ''p'', ''ok''])"
proof -
  obtain r w' where run: "archive_extract (demo_codec ''../own'') [''d'', ''p.zip''] [''d''] zip_disk = (r, w')" by (metis surj_pair)
  with demo_refused have "archive_extract (demo_codec ''../own'') [''d'', ''p.zip''] [''d''] zip_disk = (Inl (Escapes ''../own''), w')" by simp
  from refused_archive_leaves_nothing [OF this demo_stem demo_room, of "[''d'', ''p'', ''ok'']"] run show ?thesis by simp
qed

lemma extraction_bounded_witness:
  "fst (extract_zip (cd_zip (demo_codec ''sub/b'') []) [] \<lparr>fy_tree = FDir [], fy_faults = [], fy_now = 9\<rparr>) = Inr [[''ok''], [''sub'', ''b'']] \<and>
   sum_list (file_sizes (the (cd_zip (demo_codec ''sub/b'') []))) \<le> 2 ^ 31"
proof -
  let ?zs = "the (cd_zip (demo_codec ''sub/b'') [])"
  obtain w' where "extract_zip (Some ?zs) [] \<lparr>fy_tree = FDir [], fy_faults = [], fy_now = 9\<rparr> = (Inr [[''ok''], [''sub'', ''b'']], w')"
    by (simp add: fs_is_dir_def sys_create_dir_all_def fs_exists_def sys_fault_def put_tree_def
        extract_zip_def MAX_EXTRACT_ENTRIES_def is_symlink_mode_def over_bytes_def MAX_EXTRACT_BYTES_def put_file_def
        safe_target_def path_comps_def write_out_def sys_write_def Let_def)
  from this conjunct1 [OF extraction_bounded, rule_format, OF this] show ?thesis by simp
qed

section \<open>What falls short\<close>

text \<open>An archive whose name has a character of several bytes where a suffix would start cannot be
  unpacked: the slice panics.\<close>

lemma short_names_panic:
  "archive_stem [[CHR 0xE6, CHR 0x96, CHR 0x87, CHR 0xE4, CHR 0xBB, CHR 0xB6, CHR ''.'', CHR ''z'', CHR ''i'', CHR ''p'']] = Panic"
  by (simp add: archive_stem_def ARCHIVE_SUFFIXES_def ignore_case_eq_def is_char_boundary_def is_cont_def)

text \<open>A gzip that breaks off in the middle, or fails its checksum, is reported as extracted.\<close>

lemma broken_gzip_reported_extracted:
  assumes "safe_target root (default_inner_name arc) w = (Inr target, w1)" and "sys_write target [] w1 = (True, w2)"
    and "length part \<le> unat MAX_EXTRACT_BYTES"
  shows "fst (extract_gz_single arc None (False, part) root w) = Inr [target]"
  using assms by (simp add: extract_gz_single_def Let_def split: prod.split)

text \<open>Two names of a zip that differ in their slashes name one file, and the later entry replaces the
  earlier without a word; both are reported.\<close>

lemma backslash_names_collide:
  "fst (extract_zip (Some [Some \<lparr>ze_name = ''a/b'', ze_mode = None, ze_is_dir = False, ze_size = 1, ze_data = (True, ''1'')\<rparr>,
     Some \<lparr>ze_name = [CHR ''a'', CHR 0x5C, CHR ''b''], ze_mode = None, ze_is_dir = False, ze_size = 1, ze_data = (True, ''2'')\<rparr>]) []
     \<lparr>fy_tree = FDir [], fy_faults = [], fy_now = 9\<rparr>) = Inr [[''a'', ''b''], [''a'', ''b'']]"
  by (simp add: fs_is_dir_def sys_create_dir_all_def fs_exists_def sys_fault_def put_tree_def
      extract_zip_def MAX_EXTRACT_ENTRIES_def is_symlink_mode_def over_bytes_def MAX_EXTRACT_BYTES_def put_file_def
      safe_target_def path_comps_def write_out_def sys_write_def Let_def)

text \<open>An archive put inside the folder it is made of finds itself there: the walk runs after the
  archive's file was created.\<close>

lemma archive_sees_itself:
  "MFile ''a/a.zip'' '''' \<in> set (walk_sources
     (snd (sys_write [''a'', ''a.zip''] [] \<lparr>fy_tree = FDir [(''a'', FDir [])], fy_faults = [], fy_now = 9\<rparr>)) [[''a'']])"
  by (simp add: sys_write_def sys_fault_def fs_is_dir_def put_tree_def walk_sources_def sorted_children_def)

text \<open>A making that fails leaves the started archive behind.\<close>

lemma failed_archive_stays:
  "\<exists>w'. archive_create (\<lambda>f ms. ''PK...'') [[''d'', ''own'']] [''d''] ''zip'' (zip_disk\<lparr>fy_faults := [None, Some (FsCut 2)]\<rparr>) = (Inl CreateFailed, w') \<and>
     content_at w' [''d'', ''own.zip''] = Some ''PK''"
  by (simp add: archive_create_def fs_is_dir_def fs_exists_def archive_base_name_def rsplit_dot_def free_name_def
      sys_write_def sys_fault_def put_tree_def content_at_def Let_def)

end
