(* ===== verification/Files_Search.thy ===== *)
theory Files_Search
  imports Files_Backend "HOL-Library.List_Lexorder" "HOL-Library.Char_ord"
begin

text \<open>
  Search and replace over a folder (\<open>crates/tabverse-fs/src/search.rs\<close>) with the walk below it and
  its exclusions (\<open>WalkRules\<close>, \<open>Exclusions\<close>, \<open>IgnoreStack\<close> and \<open>walk\<close> of \<open>lib.rs\<close>). Regular expressions,
  globs and gitignore rules are other crates, and the case tables of Unicode are data: all four are
  the argument \<open>match_ext\<close>. Line and column numbers are natural numbers: a file above 8 MiB is not
  read, so they fit in 32 bits.
\<close>

section \<open>What is looked for\<close>

record grep_options =
  go_case_sensitive :: bool
  go_whole_word :: bool
  go_regex :: bool
  go_include_hidden :: bool
  go_include :: "string option"
  go_exclude :: "string option"

datatype ignore_match = NoMatch | Ignores | Whitelists

record match_ext =
  mx_lower :: "string \<Rightarrow> string"
  mx_regex :: "string \<Rightarrow> bool \<Rightarrow> (string \<Rightarrow> (nat \<times> nat) list) option"
  mx_glob :: "string \<Rightarrow> (fpath \<Rightarrow> bool) option"
  mx_gitignore :: "string \<Rightarrow> fpath \<Rightarrow> bool \<Rightarrow> ignore_match"

datatype search_error = BadPattern | BadGlob string | PreviewGone fpath | PreviewStale fpath

datatype needle = Plain string grep_options | Pattern "string \<Rightarrow> (nat \<times> nat) list"

definition needle_build :: "match_ext \<Rightarrow> string \<Rightarrow> grep_options \<Rightarrow> search_error + needle" where
  "needle_build ext query opts =
     (if go_regex opts
      then (let pattern = (if go_whole_word opts
                  then [CHR 0x5C] @ ''b(?:'' @ query @ '')'' @ [CHR 0x5C] @ ''b'' else query) in
        case mx_regex ext pattern (\<not> go_case_sensitive opts) of
          None \<Rightarrow> Inl BadPattern | Some re \<Rightarrow> Inr (Pattern re))
      else Inr (Plain (if go_case_sensitive opts then query else mx_lower ext query) opts))"

definition is_word_byte :: "char \<Rightarrow> bool" where
  "is_word_byte c \<longleftrightarrow> (let n = (of_char c :: nat) in
     (48 \<le> n \<and> n \<le> 57) \<or> (65 \<le> n \<and> n \<le> 90) \<or> (97 \<le> n \<and> n \<le> 122) \<or> n = 95)"

definition is_whole_word :: "string \<Rightarrow> nat \<Rightarrow> nat \<Rightarrow> bool" where
  "is_whole_word hay start end_at \<longleftrightarrow>
     (start = 0 \<or> \<not> is_word_byte (hay ! (start - 1))) \<and>
     (length hay \<le> end_at \<or> \<not> is_word_byte (hay ! end_at))"

text \<open>The loop of \<open>find_all\<close>.\<close>

function plain_matches :: "string \<Rightarrow> bool \<Rightarrow> string \<Rightarrow> nat \<Rightarrow> (nat \<times> nat) list" where
  "plain_matches query whole hay pos = (case str_find query (drop pos hay) of
     None \<Rightarrow> []
   | Some n \<Rightarrow>
       (let start = pos + n; end_at = start + length query;
            here = (if \<not> whole \<or> is_whole_word hay start end_at then [(start, end_at)] else []);
            next_pos = max end_at (start + 1) in
        if length hay \<le> next_pos then here else here @ plain_matches query whole hay next_pos))"
  by pat_completeness auto
termination
  by (relation "measure (\<lambda>(_, _, hay, pos). length hay - pos)") auto

declare plain_matches.simps [simp del]

definition find_all :: "match_ext \<Rightarrow> needle \<Rightarrow> string \<Rightarrow> (nat \<times> nat) list" where
  "find_all ext n line = (case n of
     Pattern re \<Rightarrow> re line
   | Plain query opts \<Rightarrow>
       (if query = [] then []
        else plain_matches query (go_whole_word opts) (if go_case_sensitive opts then line else mx_lower ext line) 0))"

definition looks_binary :: "string \<Rightarrow> bool" where
  "looks_binary bytes \<longleftrightarrow> CHR 0x00 \<in> set (take 8192 bytes)"

section \<open>What is excluded\<close>

text \<open>An optional glob; a blank one is none.\<close>

definition compile_glob :: "match_ext \<Rightarrow> string option \<Rightarrow> search_error + (fpath \<Rightarrow> bool) option" where
  "compile_glob ext raw = (case raw of
     None \<Rightarrow> Inr None
   | Some p \<Rightarrow> (if trim p = [] then Inr None
       else case mx_glob ext p of None \<Rightarrow> Inl (BadGlob p) | Some m \<Rightarrow> Inr (Some m)))"

record path_filter =
  pf_include :: "(fpath \<Rightarrow> bool) option"
  pf_exclude :: "(fpath \<Rightarrow> bool) option"

definition filter_from_options :: "match_ext \<Rightarrow> grep_options \<Rightarrow> search_error + path_filter" where
  "filter_from_options ext opts = (case compile_glob ext (go_include opts) of
     Inl e \<Rightarrow> Inl e
   | Inr inc \<Rightarrow> (case compile_glob ext (go_exclude opts) of
       Inl e \<Rightarrow> Inl e | Inr exc \<Rightarrow> Inr \<lparr>pf_include = inc, pf_exclude = exc\<rparr>))"

definition filter_admits :: "path_filter \<Rightarrow> fpath \<Rightarrow> bool" where
  "filter_admits f rel \<longleftrightarrow>
     (case pf_include f of None \<Rightarrow> True | Some m \<Rightarrow> m rel) \<and>
     (case pf_exclude f of None \<Rightarrow> True | Some m \<Rightarrow> \<not> m rel)"

definition WALK_EXCLUDE :: "string list" where
  "WALK_EXCLUDE = [''.git'', ''node_modules'', ''target'', ''dist'', ''dist-web'', ''.cache'', ''.venv'',
     ''__pycache__'', ''.next'', ''.gradle'', ''Pods'', ''DerivedData'']"

record walk_rules =
  wr_exclude :: "string list"
  wr_respect_gitignore :: bool

record exclusions =
  xc_custom :: "(fpath \<Rightarrow> bool) list"
  xc_respect_gitignore :: bool

fun compile_custom :: "match_ext \<Rightarrow> string list \<Rightarrow> search_error + (fpath \<Rightarrow> bool) list" where
  "compile_custom ext [] = Inr []"
| "compile_custom ext (raw # rest) =
     (let t = trim raw in
      if t = [] then compile_custom ext rest
      else case mx_glob ext t of
        None \<Rightarrow> Inl (BadGlob t)
      | Some m \<Rightarrow> (case compile_custom ext rest of Inl e \<Rightarrow> Inl e | Inr ms \<Rightarrow> Inr (m # ms)))"

definition exclusions_compile :: "match_ext \<Rightarrow> walk_rules \<Rightarrow> search_error + exclusions" where
  "exclusions_compile ext rules = (case compile_custom ext (wr_exclude rules) of
     Inl e \<Rightarrow> Inl e
   | Inr ms \<Rightarrow> Inr \<lparr>xc_custom = ms, xc_respect_gitignore = wr_respect_gitignore rules\<rparr>)"

definition dir_admitted :: "exclusions \<Rightarrow> string \<Rightarrow> bool" where
  "dir_admitted ex name \<longleftrightarrow> \<not> (name \<in> set WALK_EXCLUDE \<or> list_ex (\<lambda>m. m [name]) (xc_custom ex))"

text \<open>The gitignore files met on the way down, the deepest last; a file that cannot be read has no rules.\<close>

type_synonym ignore_stack = "(fpath \<times> (fpath \<Rightarrow> bool \<Rightarrow> ignore_match)) list"

definition add_layer_for :: "match_ext \<Rightarrow> fpath \<Rightarrow> ignore_stack \<Rightarrow> fsys \<Rightarrow> ignore_stack \<times> fsys" where
  "add_layer_for ext dir layers w =
     (let p = dir @ [''.gitignore''] in
      case stat w p of
        Some (FFile _ _) \<Rightarrow> (case sys_read (real_path w p) w of
          (Some b, w1) \<Rightarrow> (layers @ [(dir, mx_gitignore ext b)], w1)
        | (None, w1) \<Rightarrow> (layers @ [(dir, mx_gitignore ext [])], w1))
      | _ \<Rightarrow> (layers, w))"

fun ignored_from :: "ignore_stack \<Rightarrow> fpath \<Rightarrow> bool \<Rightarrow> bool" where
  "ignored_from [] p is_dir = False"
| "ignored_from ((dir, m) # up) p is_dir =
     (if \<not> prefix dir p then ignored_from up p is_dir
      else case m (drop (length dir) p) is_dir of
        NoMatch \<Rightarrow> ignored_from up p is_dir | Ignores \<Rightarrow> True | Whitelists \<Rightarrow> False)"

definition ignored :: "ignore_stack \<Rightarrow> fpath \<Rightarrow> bool \<Rightarrow> bool" where
  "ignored layers p is_dir = ignored_from (rev layers) p is_dir"

section \<open>The files below a folder\<close>

definition MAX_FILE_BYTES :: nat where "MAX_FILE_BYTES = 8 * 1024 * 1024"

definition name_hidden :: "string \<Rightarrow> bool" where
  "name_hidden name \<longleftrightarrow> prefix ''.'' name"

text \<open>Whether the walk goes down into a folder.\<close>

definition descends :: "exclusions \<Rightarrow> bool \<Rightarrow> ignore_stack \<Rightarrow> fpath \<Rightarrow> string \<Rightarrow> bool" where
  "descends ex hid layers dir name \<longleftrightarrow>
     dir_admitted ex name \<and> \<not> (xc_respect_gitignore ex \<and> ignored layers (dir @ [name]) True) \<and>
     (name_hidden name \<longrightarrow> hid)"

text \<open>Whether a file counts for a search.\<close>

definition counts :: "exclusions \<Rightarrow> bool \<Rightarrow> path_filter \<Rightarrow> fpath \<Rightarrow> ignore_stack \<Rightarrow> fpath \<Rightarrow> string \<Rightarrow> string \<Rightarrow> bool" where
  "counts ex hid filt root layers dir name bytes \<longleftrightarrow>
     (name_hidden name \<longrightarrow> hid) \<and>
     \<not> (xc_respect_gitignore ex \<and> ignored layers (dir @ [name]) False) \<and>
     length bytes \<le> MAX_FILE_BYTES \<and> filter_admits filt (drop (length root) (dir @ [name]))"

type_synonym pending_dir = "fpath \<times> (string \<times> ftree) list \<times> ignore_stack"

text \<open>One folder of \<open>files_under\<close>: the folders to go into and the files that count. Any call may fail,
  and what cannot be looked at is passed over.\<close>

fun scan_folder ::
  "match_ext \<Rightarrow> exclusions \<Rightarrow> bool \<Rightarrow> path_filter \<Rightarrow> fpath \<Rightarrow> fpath \<Rightarrow> ignore_stack \<Rightarrow> (string \<times> ftree) list \<Rightarrow> fsys \<Rightarrow>
   (pending_dir list \<times> fpath list) \<times> fsys" where
  "scan_folder ext ex hid filt root dir layers [] w = (([], []), w)"
| "scan_folder ext ex hid filt root dir layers ((name, t) # es) w =
     (case sys_fault w of
        (Some _, w1) \<Rightarrow> scan_folder ext ex hid filt root dir layers es w1
      | (None, w1) \<Rightarrow> (case t of
          FLink _ \<Rightarrow> scan_folder ext ex hid filt root dir layers es w1
        | FDir sub \<Rightarrow>
            (if \<not> descends ex hid layers dir name then scan_folder ext ex hid filt root dir layers es w1
             else let (below, w2) = add_layer_for ext (dir @ [name]) layers w1;
                      ((ds, fs), w3) = scan_folder ext ex hid filt root dir layers es w2 in
               (((dir @ [name], sub, below) # ds, fs), w3))
        | FFile bytes _ \<Rightarrow>
            (let ((ds, fs), w2) = scan_folder ext ex hid filt root dir layers es w1 in
             ((ds, if counts ex hid filt root layers dir name bytes then (dir @ [name]) # fs else fs), w2))))"

definition pending_size :: "pending_dir list \<Rightarrow> nat" where
  "pending_size stack = sum_list (map (\<lambda>(_, es, _). Suc (size_list (size_prod (\<lambda>_. 0) size) es)) stack)"

lemma scan_steps:
  "sys_fault w = (Some g, w1) \<Longrightarrow>
     scan_folder ext ex hid filt root dir layers ((name, t) # es) w = scan_folder ext ex hid filt root dir layers es w1"
  "sys_fault w = (None, w1) \<Longrightarrow>
     scan_folder ext ex hid filt root dir layers ((name, FLink l) # es) w = scan_folder ext ex hid filt root dir layers es w1"
  "sys_fault w = (None, w1) \<Longrightarrow> \<not> descends ex hid layers dir name \<Longrightarrow>
     scan_folder ext ex hid filt root dir layers ((name, FDir sub) # es) w = scan_folder ext ex hid filt root dir layers es w1"
  "sys_fault w = (None, w1) \<Longrightarrow> descends ex hid layers dir name \<Longrightarrow> add_layer_for ext (dir @ [name]) layers w1 = (below, w2) \<Longrightarrow>
     scan_folder ext ex hid filt root dir layers es w2 = ((ds, fs), w3) \<Longrightarrow>
     scan_folder ext ex hid filt root dir layers ((name, FDir sub) # es) w = (((dir @ [name], sub, below) # ds, fs), w3)"
  "sys_fault w = (None, w1) \<Longrightarrow> scan_folder ext ex hid filt root dir layers es w1 = ((ds, fs), w3) \<Longrightarrow>
     scan_folder ext ex hid filt root dir layers ((name, FFile b m) # es) w =
       ((ds, if counts ex hid filt root layers dir name b then (dir @ [name]) # fs else fs), w3)"
  by simp_all

declare scan_folder.simps(2) [simp del]

text \<open>The induction over a scan, one case for each thing an entry may be.\<close>

lemma scan_folder_induct [consumes 1, case_names empty skipped folder counted]:
  assumes "scan_folder ext ex hid filt root dir layers es w = ((ds, fs), w')"
    and empty: "\<And>w. P [] w [] [] w"
    and skipped: "\<And>name t es w w1 ds fs w'. fy_tree w1 = fy_tree w \<Longrightarrow> P es w1 ds fs w' \<Longrightarrow>
      (fy_faults w = [] \<longrightarrow> w1 = w \<and> (\<forall>sub. t = FDir sub \<longrightarrow> \<not> descends ex hid layers dir name) \<and>
        (\<forall>b m. t = FFile b m \<longrightarrow> \<not> counts ex hid filt root layers dir name b)) \<Longrightarrow> P ((name, t) # es) w ds fs w'"
    and folder: "\<And>name sub es w w1 below w2 ds fs w'. sys_fault w = (None, w1) \<Longrightarrow> descends ex hid layers dir name \<Longrightarrow>
      add_layer_for ext (dir @ [name]) layers w1 = (below, w2) \<Longrightarrow> P es w2 ds fs w' \<Longrightarrow>
      P ((name, FDir sub) # es) w ((dir @ [name], sub, below) # ds) fs w'"
    and counted: "\<And>name b m es w w1 ds fs w'. sys_fault w = (None, w1) \<Longrightarrow>
      counts ex hid filt root layers dir name b \<Longrightarrow> P es w1 ds fs w' \<Longrightarrow> P ((name, FFile b m) # es) w ds ((dir @ [name]) # fs) w'"
  shows "P es w ds fs w'"
  using assms(1)
proof (induction es arbitrary: w ds fs w')
  case Nil
  then show ?case using empty by simp
next
  case (Cons e es)
  obtain name t where e: "e = (name, t)" by (cases e)
  obtain f w1 where f: "sys_fault w = (f, w1)" by (cases "sys_fault w")
  have same: "fy_tree w1 = fy_tree w" and calm: "fy_faults w = [] \<Longrightarrow> w1 = w \<and> f = None"
    using sys_fault_tree [OF f] f by (auto simp: sys_fault_def)
  show ?case
  proof (cases f)
    case (Some g)
    have "scan_folder ext ex hid filt root dir layers es w1 = ((ds, fs), w')"
      using Cons.prems scan_steps(1) [OF f [unfolded Some]] by (simp add: e)
    from Cons.IH [OF this] show ?thesis unfolding e by (rule skipped [OF same]) (use calm Some in auto)
  next
    case None
    note f = f [unfolded None]
    show ?thesis
    proof (cases t)
      case (FLink l)
      have "scan_folder ext ex hid filt root dir layers es w1 = ((ds, fs), w')"
        using Cons.prems scan_steps(2) [OF f] by (simp add: e FLink)
      from Cons.IH [OF this] show ?thesis unfolding e FLink by (rule skipped [OF same]) (use calm in simp)
    next
      case (FDir sub)
      show ?thesis
      proof (cases "descends ex hid layers dir name")
        case False
        have "scan_folder ext ex hid filt root dir layers es w1 = ((ds, fs), w')"
          using Cons.prems scan_steps(3) [OF f False] by (simp add: e FDir)
        from Cons.IH [OF this] show ?thesis unfolding e FDir by (rule skipped [OF same]) (use calm False in simp)
      next
        case True
        obtain below w2 where a: "add_layer_for ext (dir @ [name]) layers w1 = (below, w2)"
          by (cases "add_layer_for ext (dir @ [name]) layers w1")
        obtain ds2 fs2 w3 where s: "scan_folder ext ex hid filt root dir layers es w2 = ((ds2, fs2), w3)"
          by (cases "scan_folder ext ex hid filt root dir layers es w2") auto
        have "ds = (dir @ [name], sub, below) # ds2" "fs = fs2" "w' = w3"
          using Cons.prems scan_steps(4) [OF f True a s] by (simp_all add: e FDir)
        with folder [OF f True a Cons.IH [OF s]] show ?thesis by (simp add: e FDir)
      qed
    next
      case (FFile b m)
      obtain ds2 fs2 w3 where s: "scan_folder ext ex hid filt root dir layers es w1 = ((ds2, fs2), w3)"
        by (cases "scan_folder ext ex hid filt root dir layers es w1") auto
      have r: "ds = ds2" "w' = w3" "fs = (if counts ex hid filt root layers dir name b then (dir @ [name]) # fs2 else fs2)"
        using Cons.prems scan_steps(5) [OF f s] by (simp_all add: e FFile)
      show ?thesis
      proof (cases "counts ex hid filt root layers dir name b")
        case True
        with counted [OF f True Cons.IH [OF s]] r show ?thesis by (simp add: e FFile)
      next
        case False
        with r s have "scan_folder ext ex hid filt root dir layers es w1 = ((ds, fs), w')" by simp
        from Cons.IH [OF this] show ?thesis unfolding e FFile by (rule skipped [OF same]) (use calm False in simp)
      qed
    qed
  qed
qed

lemma scan_folder_size:
  "scan_folder ext ex hid filt root dir layers es w = ((ds, fs), w') \<Longrightarrow>
     pending_size ds \<le> size_list (size_prod (\<lambda>_. 0) size) es"
  by (induction rule: scan_folder_induct) (auto simp: pending_size_def)

text \<open>The stack of folders, the last pushed on top.\<close>

function files_loop ::
  "match_ext \<Rightarrow> exclusions \<Rightarrow> bool \<Rightarrow> path_filter \<Rightarrow> fpath \<Rightarrow> pending_dir list \<Rightarrow> fpath list \<Rightarrow> fsys \<Rightarrow> fpath list \<times> fsys" where
  "files_loop ext ex hid filt root [] out w = (out, w)"
| "files_loop ext ex hid filt root ((dir, es, layers) # stack) out w =
     (case sys_fault w of
        (Some _, w1) \<Rightarrow> files_loop ext ex hid filt root stack out w1
      | (None, w1) \<Rightarrow>
          (case scan_folder ext ex hid filt root dir layers es w1 of
             ((ds, fs), w2) \<Rightarrow> files_loop ext ex hid filt root (rev ds @ stack) (out @ fs) w2))"
  by pat_completeness auto
termination
  by (relation "measure (\<lambda>(_, _, _, _, _, stack, _, _). pending_size stack)")
    (auto simp: pending_size_def rev_map [symmetric] sum_list_rev dest!: scan_folder_size [OF sym])

definition files_under :: "match_ext \<Rightarrow> exclusions \<Rightarrow> bool \<Rightarrow> path_filter \<Rightarrow> fpath \<Rightarrow> fsys \<Rightarrow> fpath list \<times> fsys" where
  "files_under ext ex hid filt root w =
     (let (layers, w1) = add_layer_for ext root [] w;
          (out, w2) = (case look w1 root of
             Some (FDir es) \<Rightarrow> files_loop ext ex hid filt root [(root, es, layers)] [] w1
           | _ \<Rightarrow> ([], snd (sys_fault w1)))
      in (sort out, w2))"

text \<open>\<open>walk\<close>, the listing for quick-open: the same walk with a cap, looked at before each entry, and
  \<open>.env\<close> among the visible files.\<close>

definition listed :: "exclusions \<Rightarrow> bool \<Rightarrow> (fpath \<Rightarrow> bool) option \<Rightarrow> fpath \<Rightarrow> ignore_stack \<Rightarrow> fpath \<Rightarrow> string \<Rightarrow> bool" where
  "listed ex hid name_filter root layers dir name \<longleftrightarrow>
     (name_hidden name \<longrightarrow> hid \<or> name = ''.env'') \<and>
     \<not> (xc_respect_gitignore ex \<and> ignored layers (dir @ [name]) False) \<and>
     (case name_filter of None \<Rightarrow> True | Some m \<Rightarrow> m (drop (length root) (dir @ [name])))"

text \<open>One folder; no list of folders when the cap ended the walk.\<close>

fun walk_folder ::
  "match_ext \<Rightarrow> exclusions \<Rightarrow> bool \<Rightarrow> (fpath \<Rightarrow> bool) option \<Rightarrow> nat \<Rightarrow> fpath \<Rightarrow> fpath \<Rightarrow> ignore_stack \<Rightarrow>
   (string \<times> ftree) list \<Rightarrow> pending_dir list \<Rightarrow> fpath list \<Rightarrow> fsys \<Rightarrow> pending_dir list option \<times> fpath list \<times> fsys" where
  "walk_folder ext ex hid nf cap root dir layers [] subdirs out w = (Some subdirs, out, w)"
| "walk_folder ext ex hid nf cap root dir layers ((name, t) # es) subdirs out w =
     (if cap \<le> length out then (None, out, w)
      else case sys_fault w of
        (Some _, w1) \<Rightarrow> walk_folder ext ex hid nf cap root dir layers es subdirs out w1
      | (None, w1) \<Rightarrow> (case t of
          FLink _ \<Rightarrow> walk_folder ext ex hid nf cap root dir layers es subdirs out w1
        | FDir sub \<Rightarrow>
            (if \<not> descends ex hid layers dir name then walk_folder ext ex hid nf cap root dir layers es subdirs out w1
             else let (below, w2) = add_layer_for ext (dir @ [name]) layers w1 in
               walk_folder ext ex hid nf cap root dir layers es (subdirs @ [(dir @ [name], sub, below)]) out w2)
        | FFile _ _ \<Rightarrow>
            walk_folder ext ex hid nf cap root dir layers es subdirs
              (if listed ex hid nf root layers dir name then out @ [drop (length root) (dir @ [name])] else out) w1))"

lemma walk_folder_size:
  "walk_folder ext ex hid nf cap root dir layers es subdirs out w = (Some ds, out', w') \<Longrightarrow>
     pending_size ds \<le> pending_size subdirs + size_list (size_prod (\<lambda>_. 0) size) es"
proof (induction es arbitrary: subdirs out w)
  case (Cons e es)
  obtain name t where e: "e = (name, t)" by (cases e)
  obtain f w1 where f: "sys_fault w = (f, w1)" by (cases "sys_fault w")
  obtain below w2 where a: "add_layer_for ext (dir @ [name]) layers w1 = (below, w2)"
    by (cases "add_layer_for ext (dir @ [name]) layers w1")
  from Cons.prems have "\<exists>subs out2 w3. walk_folder ext ex hid nf cap root dir layers es subs out2 w3 = (Some ds, out', w') \<and>
      (subs = subdirs \<or> (\<exists>sub. t = FDir sub \<and> subs = subdirs @ [(dir @ [name], sub, below)]))"
    unfolding e walk_folder.simps(2) f by (auto simp: a split: if_splits option.splits ftree.splits)
  then obtain subs out2 w3 where go: "walk_folder ext ex hid nf cap root dir layers es subs out2 w3 = (Some ds, out', w')"
    and subs: "subs = subdirs \<or> (\<exists>sub. t = FDir sub \<and> subs = subdirs @ [(dir @ [name], sub, below)])" by blast
  from Cons.IH [OF go] subs show ?case by (auto simp: e pending_size_def)
qed simp

function walk_loop ::
  "match_ext \<Rightarrow> exclusions \<Rightarrow> bool \<Rightarrow> (fpath \<Rightarrow> bool) option \<Rightarrow> nat \<Rightarrow> fpath \<Rightarrow> pending_dir list \<Rightarrow> fpath list \<Rightarrow> fsys \<Rightarrow>
   (fpath list \<times> bool) \<times> fsys" where
  "walk_loop ext ex hid nf cap root [] out w = ((out, False), w)"
| "walk_loop ext ex hid nf cap root ((dir, es, layers) # stack) out w =
     (case sys_fault w of
        (Some _, w1) \<Rightarrow> walk_loop ext ex hid nf cap root stack out w1
      | (None, w1) \<Rightarrow>
          (case walk_folder ext ex hid nf cap root dir layers es [] out w1 of
             (None, out1, w2) \<Rightarrow> ((out1, True), w2)
           | (Some ds, out1, w2) \<Rightarrow> walk_loop ext ex hid nf cap root (rev ds @ stack) out1 w2))"
  by pat_completeness auto
termination
  by (relation "measure (\<lambda>(_, _, _, _, _, _, stack, _, _). pending_size stack)")
    (auto simp: pending_size_def rev_map [symmetric] sum_list_rev dest!: walk_folder_size [OF sym])

definition walk_files ::
  "match_ext \<Rightarrow> fpath \<Rightarrow> nat \<Rightarrow> bool \<Rightarrow> string option \<Rightarrow> walk_rules \<Rightarrow> fsys \<Rightarrow> (search_error + fpath list \<times> bool) \<times> fsys" where
  "walk_files ext root cap hid name rules w =
     (case exclusions_compile ext rules of
        Inl e \<Rightarrow> (Inl e, w)
      | Inr ex \<Rightarrow> (case compile_glob ext name of
          Inl e \<Rightarrow> (Inl e, w)
        | Inr nf \<Rightarrow>
            (let (layers, w1) = add_layer_for ext root [] w in
             case look w1 root of
               Some (FDir es) \<Rightarrow> (case walk_loop ext ex hid nf cap root [(root, es, layers)] [] w1 of
                 ((out, truncated), w2) \<Rightarrow> (Inr (sort out, truncated), w2))
             | _ \<Rightarrow> (Inr ([], False), snd (sys_fault w1)))))"

section \<open>Searching\<close>

record file_hit =
  fh_rel :: fpath
  fh_path :: fpath
  fh_line :: nat
  fh_col :: nat
  fh_text :: string

record search_result =
  sr_hits :: "file_hit list"
  sr_files_matched :: nat
  sr_files_scanned :: nat
  sr_truncated :: bool

text \<open>The text of a file a search can look at.\<close>

definition readable_text :: "string \<Rightarrow> string option" where
  "readable_text bytes = (if looks_binary bytes \<or> \<not> utf8_valid bytes then None else Some bytes)"

definition chars_taken :: "string \<Rightarrow> string" where
  "chars_taken line = concat (take 400 (rchars line))"

text \<open>The hits of one line, up to the cap; whether the cap cut them off.\<close>

fun push_hits :: "nat \<Rightarrow> (nat \<Rightarrow> file_hit) \<Rightarrow> (nat \<times> nat) list \<Rightarrow> file_hit list \<Rightarrow> file_hit list \<times> bool" where
  "push_hits cap mk [] hits = (hits, False)"
| "push_hits cap mk (s # ss) hits =
     (if cap \<le> length hits then (hits, True) else push_hits cap mk ss (hits @ [mk (fst s)]))"

definition hit_at :: "fpath \<Rightarrow> fpath \<Rightarrow> nat \<Rightarrow> string \<Rightarrow> nat \<Rightarrow> file_hit" where
  "hit_at root path i line start = \<lparr>fh_rel = drop (length root) path, fh_path = path, fh_line = i + 1, fh_col = start + 1,
     fh_text = chars_taken line\<rparr>"

fun hits_of_lines ::
  "nat \<Rightarrow> (string \<Rightarrow> (nat \<times> nat) list) \<Rightarrow> fpath \<Rightarrow> fpath \<Rightarrow> nat \<Rightarrow> string list \<Rightarrow> file_hit list \<Rightarrow> file_hit list \<times> bool" where
  "hits_of_lines cap spans_of root path i [] hits = (hits, False)"
| "hits_of_lines cap spans_of root path i (line # ls) hits =
     (case push_hits cap (hit_at root path i line) (spans_of line) hits of
        (hits1, True) \<Rightarrow> (hits1, True)
      | (hits1, False) \<Rightarrow> hits_of_lines cap spans_of root path (i + 1) ls hits1)"

fun grep_files ::
  "nat \<Rightarrow> (string \<Rightarrow> (nat \<times> nat) list) \<Rightarrow> fpath \<Rightarrow> fpath list \<Rightarrow> search_result \<Rightarrow> fsys \<Rightarrow> search_result \<times> fsys" where
  "grep_files cap spans_of root [] res w = (res, w)"
| "grep_files cap spans_of root (path # ps) res w =
     (if cap \<le> length (sr_hits res) then (res\<lparr>sr_truncated := True\<rparr>, w)
      else case sys_read path w of
        (None, w1) \<Rightarrow> grep_files cap spans_of root ps res w1
      | (Some bytes, w1) \<Rightarrow> (case readable_text bytes of
          None \<Rightarrow> grep_files cap spans_of root ps res w1
        | Some content \<Rightarrow>
            (let (hits, cut) = hits_of_lines cap spans_of root path 0 (str_lines content) (sr_hits res) in
             grep_files cap spans_of root ps
               \<lparr>sr_hits = hits,
                sr_files_matched = sr_files_matched res + (if length (sr_hits res) < length hits then 1 else 0),
                sr_files_scanned = sr_files_scanned res + 1,
                sr_truncated = sr_truncated res \<or> cut\<rparr> w1)))"

text \<open>What the three operations begin with.\<close>

definition search_setup ::
  "match_ext \<Rightarrow> string \<Rightarrow> grep_options \<Rightarrow> walk_rules \<Rightarrow> search_error + path_filter \<times> exclusions \<times> needle" where
  "search_setup ext query opts rules = (case filter_from_options ext opts of
     Inl e \<Rightarrow> Inl e
   | Inr filt \<Rightarrow> (case exclusions_compile ext rules of
       Inl e \<Rightarrow> Inl e
     | Inr ex \<Rightarrow> (case needle_build ext query opts of Inl e \<Rightarrow> Inl e | Inr n \<Rightarrow> Inr (filt, ex, n))))"

definition grep_folder ::
  "match_ext \<Rightarrow> fpath \<Rightarrow> string \<Rightarrow> grep_options \<Rightarrow> nat \<Rightarrow> walk_rules \<Rightarrow> fsys \<Rightarrow> (search_error + search_result) \<times> fsys" where
  "grep_folder ext root query opts max_hits rules w =
     (case search_setup ext query opts rules of
        Inl e \<Rightarrow> (Inl e, w)
      | Inr (filt, ex, n) \<Rightarrow>
          (let none = \<lparr>sr_hits = [], sr_files_matched = 0, sr_files_scanned = 0, sr_truncated = False\<rparr> in
           if query = [] then (Inr none, w)
           else case files_under ext ex (go_include_hidden opts) filt root w of
             (ps, w1) \<Rightarrow> (case grep_files max_hits (find_all ext n) root ps none w1 of (res, w2) \<Rightarrow> (Inr res, w2))))"

section \<open>Replacing\<close>

record skip_site =
  sk_rel :: fpath
  sk_line :: nat
  sk_col :: nat

record replace_stamp =
  st_path :: fpath
  st_modified :: "nat option"

record replace_plan =
  rp_stamps :: "replace_stamp list option"
  rp_skip :: "skip_site list option"

record replace_result =
  rr_files_changed :: nat
  rr_replacements :: nat
  rr_failed :: "fpath list"

text \<open>A slice of a line by bytes, which panics outside the line and inside a character.\<close>

definition line_slice :: "string \<Rightarrow> nat \<Rightarrow> nat \<Rightarrow> string option" where
  "line_slice line a b =
     (if a \<le> b \<and> b \<le> length line \<and> is_char_boundary line a \<and> is_char_boundary line b
      then Some (take (b - a) (drop a line)) else None)"

text \<open>One line rebuilt around its spans, with the number of places changed; None is a panic.\<close>

fun weave_line :: "string \<Rightarrow> (nat \<Rightarrow> bool) \<Rightarrow> string \<Rightarrow> nat \<Rightarrow> (nat \<times> nat) list \<Rightarrow> (string \<times> nat) option" where
  "weave_line repl skip line pos [] = map_option (\<lambda>s. (s, 0)) (line_slice line pos (length line))"
| "weave_line repl skip line pos ((a, b) # ss) =
     (if skip (a + 1)
      then (case line_slice line pos b of
          None \<Rightarrow> None
        | Some kept_text \<Rightarrow> map_option (\<lambda>(s, n). (kept_text @ s, n)) (weave_line repl skip line b ss))
      else (case line_slice line pos a of
          None \<Rightarrow> None
        | Some before \<Rightarrow> map_option (\<lambda>(s, n). (before @ repl @ s, Suc n)) (weave_line repl skip line b ss)))"

fun weave_lines ::
  "(string \<Rightarrow> (nat \<times> nat) list) \<Rightarrow> string \<Rightarrow> (nat \<Rightarrow> nat \<Rightarrow> bool) \<Rightarrow> nat \<Rightarrow> string list \<Rightarrow> (string list \<times> nat) option" where
  "weave_lines spans_of repl skip i [] = Some ([], 0)"
| "weave_lines spans_of repl skip i (line # ls) =
     (case (if spans_of line = [] then Some (line, 0) else weave_line repl (skip (i + 1)) line 0 (spans_of line)) of
        None \<Rightarrow> None
      | Some (s, n) \<Rightarrow> map_option (\<lambda>(ss, m). (s # ss, n + m)) (weave_lines spans_of repl skip (i + 1) ls))"

definition rebuild_text ::
  "(string \<Rightarrow> (nat \<times> nat) list) \<Rightarrow> string \<Rightarrow> (nat \<Rightarrow> nat \<Rightarrow> bool) \<Rightarrow> string \<Rightarrow> (string \<times> nat) option" where
  "rebuild_text spans_of repl skip content =
     map_option (\<lambda>(ss, n). (join [nl] ss @ (if content \<noteq> [] \<and> last content = nl then [nl] else []), n))
       (weave_lines spans_of repl skip 0 (str_lines content))"

definition skipped_at :: "skip_site list \<Rightarrow> fpath \<Rightarrow> nat \<Rightarrow> nat \<Rightarrow> bool" where
  "skipped_at sites rel line col \<longleftrightarrow> list_ex (\<lambda>s. sk_rel s = rel \<and> sk_line s = line \<and> sk_col s = col) sites"

fun replace_files ::
  "(string \<Rightarrow> (nat \<times> nat) list) \<Rightarrow> string \<Rightarrow> skip_site list \<Rightarrow> fpath list option \<Rightarrow> fpath \<Rightarrow> fpath list \<Rightarrow> replace_result \<Rightarrow> fsys \<Rightarrow>
   (search_error, replace_result) outcome \<times> fsys" where
  "replace_files spans_of repl skips only root [] res w = (Ok res, w)"
| "replace_files spans_of repl skips only root (path # ps) res w =
     (let rel = drop (length root) path in
      if (case only of None \<Rightarrow> False | Some rels \<Rightarrow> rel \<notin> set rels)
      then replace_files spans_of repl skips only root ps res w
      else case sys_read path w of
        (None, w1) \<Rightarrow> replace_files spans_of repl skips only root ps res w1
      | (Some bytes, w1) \<Rightarrow> (case readable_text bytes of
          None \<Rightarrow> replace_files spans_of repl skips only root ps res w1
        | Some content \<Rightarrow> (case rebuild_text spans_of repl (skipped_at skips rel) content of
            None \<Rightarrow> (Panic, w1)
          | Some (rebuilt, n) \<Rightarrow>
              (if 0 < n \<and> rebuilt \<noteq> content
               then (case sys_write path rebuilt w1 of
                   (False, w2) \<Rightarrow> replace_files spans_of repl skips only root ps (res\<lparr>rr_failed := rr_failed res @ [rel]\<rparr>) w2
                 | (True, w2) \<Rightarrow> replace_files spans_of repl skips only root ps
                     (res\<lparr>rr_files_changed := rr_files_changed res + 1, rr_replacements := rr_replacements res + n\<rparr>) w2)
               else replace_files spans_of repl skips only root ps res w1))))"

text \<open>The modification time in whole seconds, where there is something at the path.\<close>

definition modified_now :: "fsys \<Rightarrow> fpath \<Rightarrow> nat option option" where
  "modified_now w p = (case stat w p of None \<Rightarrow> None | Some (FFile _ m) \<Rightarrow> Some (Some m) | Some _ \<Rightarrow> Some None)"

fun check_stamps :: "fsys \<Rightarrow> replace_stamp list \<Rightarrow> search_error option" where
  "check_stamps w [] = None"
| "check_stamps w (st # sts) = (case modified_now w (st_path st) of
     None \<Rightarrow> Some (PreviewGone (st_path st))
   | Some now \<Rightarrow> (if st_modified st \<noteq> now then Some (PreviewStale (st_path st)) else check_stamps w sts))"

definition plan_stamps :: "replace_plan option \<Rightarrow> replace_stamp list" where
  "plan_stamps plan = (case plan of None \<Rightarrow> [] | Some p \<Rightarrow> (case rp_stamps p of None \<Rightarrow> [] | Some sts \<Rightarrow> sts))"

definition plan_skip :: "replace_plan option \<Rightarrow> skip_site list" where
  "plan_skip plan = (case plan of None \<Rightarrow> [] | Some p \<Rightarrow> (case rp_skip p of None \<Rightarrow> [] | Some s \<Rightarrow> s))"

definition replace_all ::
  "match_ext \<Rightarrow> fpath \<Rightarrow> string \<Rightarrow> string \<Rightarrow> grep_options \<Rightarrow> fpath list option \<Rightarrow> replace_plan option \<Rightarrow> walk_rules \<Rightarrow> fsys \<Rightarrow>
   (search_error, replace_result) outcome \<times> fsys" where
  "replace_all ext root query repl opts only plan rules w =
     (case search_setup ext query opts rules of
        Inl e \<Rightarrow> (Err e, w)
      | Inr (filt, ex, n) \<Rightarrow>
          (let none = \<lparr>rr_files_changed = 0, rr_replacements = 0, rr_failed = []\<rparr> in
           if query = [] then (Ok none, w)
           else case check_stamps w (plan_stamps plan) of
             Some e \<Rightarrow> (Err e, w)
           | None \<Rightarrow> (case files_under ext ex (go_include_hidden opts) filt root w of
               (ps, w1) \<Rightarrow> replace_files (find_all ext n) repl (plan_skip plan) only root ps none w1)))"

section \<open>The preview\<close>

record preview_site =
  ps_line :: nat
  ps_col :: nat
  ps_before_len :: nat
  ps_after_len :: nat
  ps_context :: "(nat \<times> string) list"

record preview_file =
  pv_rel :: fpath
  pv_path :: fpath
  pv_modified :: "nat option"
  pv_before :: string
  pv_sites :: "preview_site list"

record preview_result =
  rv_files :: "preview_file list"
  rv_replacements :: nat
  rv_files_matched :: nat

text \<open>\<open>line.chars().take(n).count()\<close>: the characters of the line, at most \<open>n\<close> of them.\<close>

definition chars_upto :: "string \<Rightarrow> nat \<Rightarrow> nat" where
  "chars_upto line n = length (take n (rchars line))"

definition site_context :: "string list \<Rightarrow> nat \<Rightarrow> (nat \<times> string) list" where
  "site_context lines i =
     (if 0 < i then [(i, chars_taken (lines ! (i - 1)))] else []) @ [(i + 1, chars_taken (lines ! i))] @
     (if i + 1 < length lines then [(i + 2, chars_taken (lines ! (i + 1)))] else [])"

definition sites_of_line :: "(string \<Rightarrow> (nat \<times> nat) list) \<Rightarrow> string \<Rightarrow> string list \<Rightarrow> nat \<Rightarrow> preview_site list" where
  "sites_of_line spans_of repl lines i = map (\<lambda>(start, end_at).
     let line = lines ! i; col = chars_upto line start + 1 in
     \<lparr>ps_line = i + 1, ps_col = col, ps_before_len = chars_upto line end_at - (col - 1),
      ps_after_len = length (rchars repl), ps_context = site_context lines i\<rparr>) (spans_of (lines ! i))"

definition sites_of_text :: "(string \<Rightarrow> (nat \<times> nat) list) \<Rightarrow> string \<Rightarrow> string \<Rightarrow> preview_site list" where
  "sites_of_text spans_of repl content =
     (let lines = str_lines content in concat (map (sites_of_line spans_of repl lines) [0..<length lines]))"

fun preview_files ::
  "(string \<Rightarrow> (nat \<times> nat) list) \<Rightarrow> string \<Rightarrow> fpath list option \<Rightarrow> fpath \<Rightarrow> fpath list \<Rightarrow> preview_result \<Rightarrow> fsys \<Rightarrow> preview_result \<times> fsys" where
  "preview_files spans_of repl only root [] res w = (res, w)"
| "preview_files spans_of repl only root (path # ps) res w =
     (let rel = drop (length root) path in
      if (case only of None \<Rightarrow> False | Some rels \<Rightarrow> rel \<notin> set rels) then preview_files spans_of repl only root ps res w
      else case sys_read path w of
        (None, w1) \<Rightarrow> preview_files spans_of repl only root ps res w1
      | (Some bytes, w1) \<Rightarrow> (case readable_text bytes of
          None \<Rightarrow> preview_files spans_of repl only root ps res w1
        | Some content \<Rightarrow>
            (let sites = sites_of_text spans_of repl content in
             if sites = [] then preview_files spans_of repl only root ps res w1
             else preview_files spans_of repl only root ps
               \<lparr>rv_files = rv_files res @ [\<lparr>pv_rel = rel, pv_path = path,
                    pv_modified = (case modified_now w1 path of Some m \<Rightarrow> m | None \<Rightarrow> None), pv_before = content, pv_sites = sites\<rparr>],
                rv_replacements = rv_replacements res + length sites,
                rv_files_matched = rv_files_matched res + 1\<rparr> w1)))"

definition replace_preview ::
  "match_ext \<Rightarrow> fpath \<Rightarrow> string \<Rightarrow> string \<Rightarrow> grep_options \<Rightarrow> fpath list option \<Rightarrow> walk_rules \<Rightarrow> fsys \<Rightarrow>
   (search_error + preview_result) \<times> fsys" where
  "replace_preview ext root query repl opts only rules w =
     (case search_setup ext query opts rules of
        Inl e \<Rightarrow> (Inl e, w)
      | Inr (filt, ex, n) \<Rightarrow>
          (let none = \<lparr>rv_files = [], rv_replacements = 0, rv_files_matched = 0\<rparr> in
           if query = [] then (Inr none, w)
           else case files_under ext ex (go_include_hidden opts) filt root w of
             (ps, w1) \<Rightarrow> (case preview_files (find_all ext n) repl only root ps none w1 of (res, w2) \<Rightarrow> (Inr res, w2))))"


section \<open>Occurrences in valid text\<close>

lemma width_within:
  assumes w: "char_width (a @ b) \<noteq> 0" and a: "a \<noteq> []" and at: "is_char_boundary (a @ b) (length a)"
  shows "char_width (a @ b) \<le> length a"
proof (rule ccontr)
  assume "\<not> ?thesis"
  with char_width_spec [OF w] a have "is_cont ((a @ b) ! length a)" "length a < length (a @ b)" "0 < length a" by auto
  with at show False by (auto simp: is_char_boundary_def)
qed

lemma utf8_split: "utf8_valid (a @ b) \<Longrightarrow> is_char_boundary (a @ b) (length a) \<Longrightarrow> utf8_valid a \<and> utf8_valid b"
proof (induction "length a" arbitrary: a rule: less_induct)
  case less
  show ?case
  proof (cases "a = []")
    case False
    let ?k = "char_width (a @ b)"
    have w: "?k \<noteq> 0" using utf8_width [OF less(2)] False by simp
    have k: "?k \<le> length a" by (rule width_within [OF w False less(3)])
    have wa: "char_width a = ?k"
    proof -
      have "char_width a \<noteq> 0"
        using w k False
        by (cases a) (auto simp: char_width_def Let_def split: if_splits
          intro: cont_bytes_take first_cont_take dest: cont_bytes_take first_cont_take)
      then show ?thesis using char_width_append [of a b] by simp
    qed
    have "utf8_valid (drop ?k a @ b)" using utf8_step [OF w] less(2) k by simp
    moreover have "is_char_boundary (drop ?k a @ b) (length (drop ?k a))"
      using less(3) k by (auto simp: is_char_boundary_def nth_append)
    ultimately have "utf8_valid (drop ?k a) \<and> utf8_valid b" using less(1) [of "drop ?k a"] w k False by simp
    then show ?thesis using utf8_step [of a] wa w by simp
  qed (use less in \<open>simp add: utf8_valid.simps\<close>)
qed

lemma utf8_head: "utf8_valid b \<Longrightarrow> is_char_boundary (a @ b) (length a)"
  using char_width_spec [of b] utf8_width [of b] by (cases b) (auto simp: is_char_boundary_def)

text \<open>An occurrence of a valid text in a valid text begins and ends between characters.\<close>

definition bounded_matches :: "string \<Rightarrow> string \<Rightarrow> bool" where
  "bounded_matches q s \<longleftrightarrow>
     (\<forall>a b. s = a @ q @ b \<longrightarrow> is_char_boundary s (length a) \<and> is_char_boundary s (length a + length q))"

lemma valid_bounded: "utf8_valid q \<Longrightarrow> utf8_valid s \<Longrightarrow> q \<noteq> [] \<Longrightarrow> bounded_matches q s"
  unfolding bounded_matches_def
proof (intro allI impI)
  fix a b assume q: "utf8_valid q" "q \<noteq> []" and s: "utf8_valid s" "s = a @ q @ b"
  from char_width_spec [OF utf8_width [OF q]] have start: "is_char_boundary s (length a)"
    unfolding s(2) using q(2) by (cases q) (auto simp: is_char_boundary_def nth_append)
  with s utf8_split [of a "q @ b"] have "utf8_valid (q @ b)" by simp
  then have "utf8_valid b" using utf8_rest [OF q(1)] by simp
  from utf8_head [OF this, of "a @ q"] start show "is_char_boundary s (length a) \<and> is_char_boundary s (length a + length q)"
    by (simp add: s(2))
qed

section \<open>Replacing in one text\<close>

lemma str_replace_find:
  "q \<noteq> [] \<Longrightarrow> str_replace q r s = (case str_find q s of None \<Rightarrow> s
     | Some n \<Rightarrow> take n s @ r @ str_replace q r (drop (n + length q) s))"
  by (induction s) (auto split: option.splits)

lemma count_matches_find:
  "q \<noteq> [] \<Longrightarrow> count_matches q s = (case str_find q s of None \<Rightarrow> 0
     | Some n \<Rightarrow> Suc (count_matches q (drop (n + length q) s)))"
  by (induction s) (auto split: option.splits)

lemma weave_plain:
  "q \<noteq> [] \<Longrightarrow> bounded_matches q line \<Longrightarrow> pos \<le> length line \<Longrightarrow> is_char_boundary line pos \<Longrightarrow>
     weave_line r (\<lambda>_. False) line pos (plain_matches q False line pos) =
       Some (str_replace q r (drop pos line), count_matches q (drop pos line))"
proof (induction "length line - pos" arbitrary: pos rule: less_induct)
  case less
  have whole: "is_char_boundary line (length line)" by (simp add: is_char_boundary_def)
  show ?case
  proof (cases "str_find q (drop pos line)")
    case None
    with less(2-5) whole show ?thesis
      by (subst plain_matches.simps) (simp add: str_replace_find count_matches_find line_slice_def)
  next
    case (Some n)
    let ?b = "pos + n + length q"
    from str_find_Some [OF Some] have fits: "?b \<le> length line" and "take (length q) (drop (pos + n) line) = q"
      using less(4) by (auto simp: add.commute)
    then have "line = take (pos + n) line @ q @ drop ?b line"
      by (metis append_take_drop_id drop_drop add.commute)
    with less(3) have ends: "is_char_boundary line (pos + n)" "is_char_boundary line ?b"
      using fits unfolding bounded_matches_def by (metis add_leD1 length_take min.absorb2)+
    have here: "line_slice line pos (pos + n) = Some (take n (drop pos line))"
      using fits ends less(5) by (simp add: line_slice_def)
    have step: "plain_matches q False line pos = (pos + n, ?b) # (if length line \<le> ?b then [] else plain_matches q False line ?b)"
      using Some less(2) by (subst plain_matches.simps) (cases q; simp add: Let_def)
    have rest: "weave_line r (\<lambda>_. False) line ?b (if length line \<le> ?b then [] else plain_matches q False line ?b) =
        Some (str_replace q r (drop ?b line), count_matches q (drop ?b line))"
    proof (cases "length line \<le> ?b")
      case True
      with fits whole show ?thesis by (simp add: line_slice_def)
    next
      case False
      then have "length line - ?b < length line - pos" using less(2) by (cases q) auto
      from less(1) [OF this less(2,3) fits ends(2)] False show ?thesis by simp
    qed
    have "drop (n + length q) (drop pos line) = drop ?b line" by (simp add: add.commute add.left_commute)
    with here rest less(2) Some show ?thesis
      unfolding step by (simp add: str_replace_find [of q r "drop pos line"] count_matches_find [of q "drop pos line"])
  qed
qed

text \<open>An occurrence without a newline does not reach over one.\<close>

lemma prefix_line: "nl \<notin> set q \<Longrightarrow> prefix q (a @ nl # b) \<Longrightarrow> prefix q a"
proof (induction q arbitrary: a)
  case (Cons x q)
  show ?case
  proof (cases a)
    case Nil
    with Cons.prems show ?thesis by simp
  next
    case a: (Cons y a')
    with Cons.prems Cons.IH [of a'] show ?thesis by simp
  qed
qed simp

lemma str_replace_line:
  "nl \<notin> set q \<Longrightarrow> q \<noteq> [] \<Longrightarrow> str_replace q r (a @ nl # b) = str_replace q r a @ nl # str_replace q r b"
proof (induction "length a" arbitrary: a rule: less_induct)
  case less
  show ?case
  proof (cases a)
    case Nil
    with less(2,3) prefix_line [of q "[]" b] show ?thesis by auto
  next
    case (Cons x xs)
    show ?thesis
    proof (cases "prefix q a")
      case True
      then have "drop (length q) (a @ nl # b) = drop (length q) a @ nl # b" by (auto simp: prefix_def)
      with less(1) [of "drop (length q) a"] less(2,3) True Cons show ?thesis
        by (cases q) (auto simp: prefix_def)
    next
      case False
      then have "\<not> prefix q (a @ nl # b)" using prefix_line [OF less(2)] by blast
      with less(1) [of xs] less(2,3) False Cons show ?thesis by simp
    qed
  qed
qed

lemma count_matches_line:
  "nl \<notin> set q \<Longrightarrow> q \<noteq> [] \<Longrightarrow> count_matches q (a @ nl # b) = count_matches q a + count_matches q b"
proof (induction "length a" arbitrary: a rule: less_induct)
  case less
  show ?case
  proof (cases a)
    case Nil
    with less(2,3) prefix_line [of q "[]" b] show ?thesis by auto
  next
    case (Cons x xs)
    show ?thesis
    proof (cases "prefix q a")
      case True
      then have "drop (length q) (a @ nl # b) = drop (length q) a @ nl # b" by (auto simp: prefix_def)
      with less(1) [of "drop (length q) a"] less(2,3) True Cons show ?thesis
        by (cases q) (auto simp: prefix_def)
    next
      case False
      then have "\<not> prefix q (a @ nl # b)" using prefix_line [OF less(2)] by blast
      with less(1) [of xs] less(2,3) False Cons show ?thesis by simp
    qed
  qed
qed

text \<open>The lines of a text that has no carriage return.\<close>

lemma lines_cases [case_names rest line]:
  assumes "nl \<notin> set s \<Longrightarrow> P" "\<And>l r. s = l @ nl # r \<Longrightarrow> nl \<notin> set l \<Longrightarrow> P"
  shows P
  using assms split_list_first [of nl s] by blast

lemma weave_lines_plain:
  assumes q: "q \<noteq> []" and valid: "utf8_valid q"
  shows "\<forall>l \<in> set ls. utf8_valid l \<Longrightarrow>
    weave_lines (\<lambda>l. plain_matches q False l 0) r (\<lambda>_ _. False) i ls =
      Some (map (str_replace q r) ls, sum_list (map (count_matches q) ls))"
proof (induction ls arbitrary: i)
  case (Cons l ls)
  have "weave_line r (\<lambda>_. False) l 0 (plain_matches q False l 0) = Some (str_replace q r l, count_matches q l)"
    using weave_plain [OF q valid_bounded [OF valid _ q], of l 0 r] Cons.prems by simp
  moreover have "str_replace q r l = l \<and> count_matches q l = 0" if "plain_matches q False l 0 = []"
    using that q by (subst (asm) plain_matches.simps) (auto simp: str_replace_find count_matches_find Let_def split: option.splits if_splits)
  ultimately show ?case using Cons by auto
qed simp

lemma lines_of_text:
  assumes q: "q \<noteq> []" "nl \<notin> set q"
  shows "cr \<notin> set s \<Longrightarrow> utf8_valid s \<Longrightarrow>
    join [nl] (map (str_replace q r) (str_lines s)) @ (if s \<noteq> [] \<and> last s = nl then [nl] else []) = str_replace q r s \<and>
    sum_list (map (count_matches q) (str_lines s)) = count_matches q s \<and> (\<forall>l \<in> set (str_lines s). utf8_valid l)"
proof (induction "length s" arbitrary: s rule: less_induct)
  case less
  show ?case
  proof (cases s rule: lines_cases)
    case rest
    then have "s \<noteq> [] \<Longrightarrow> last s \<noteq> nl" by (metis last_in_set)
    with rest less(3) show ?thesis by (cases "s = []") (simp_all add: str_lines_rest)
  next
    case (line l b)
    have "l = [] \<or> last l \<noteq> cr" using less(2) line by (metis UnCI last_in_set set_append)
    with line have lines: "str_lines s = l # str_lines b" by (simp add: str_lines_line)
    have "is_char_boundary s (length l)" by (simp add: line is_char_boundary_def is_cont_def)
    with utf8_split [of l "nl # b"] less(3) line have valid: "utf8_valid l" "utf8_valid (nl # b)" by simp_all
    have "utf8_valid b" using utf8_rest [of "[nl]" b] valid(2) by (simp add: utf8_valid_ascii)
    with less(1) [of b] less(2) line
    have IH: "join [nl] (map (str_replace q r) (str_lines b)) @ (if b \<noteq> [] \<and> last b = nl then [nl] else []) = str_replace q r b"
      "sum_list (map (count_matches q) (str_lines b)) = count_matches q b" "\<forall>l \<in> set (str_lines b). utf8_valid l" by auto
    show ?thesis
    proof (cases "b = []")
      case True
      then have "str_lines b = []" by (simp add: str_lines_def)
      with True show ?thesis using IH valid(1) str_replace_line [OF q(2,1), of r l "[]"] count_matches_line [OF q(2,1), of l "[]"]
        by (simp add: lines) (simp add: line)
    next
      case False
      then have "str_lines b \<noteq> []" by (cases b) (auto simp: str_lines_def split: list.splits)
      with False IH valid(1) str_replace_line [OF q(2,1), of r l b] count_matches_line [OF q(2,1), of l b] show ?thesis
        by (simp add: lines join_Cons) (simp add: line split: if_splits)
    qed
  qed
qed

text \<open>Line by line, the replacement is that of \<open>str::replace\<close> on the whole text.\<close>

lemma rebuild_plain:
  assumes "q \<noteq> []" "nl \<notin> set q" "utf8_valid q" "cr \<notin> set s" "utf8_valid s"
  shows "rebuild_text (\<lambda>l. plain_matches q False l 0) r (\<lambda>_ _. False) s = Some (str_replace q r s, count_matches q s)"
  using lines_of_text [OF assms(1,2,4,5), of r] weave_lines_plain [OF assms(1,3), of "str_lines s" r 0]
  by (simp add: rebuild_text_def)

section \<open>The walk finds what it should\<close>

text \<open>What a walk from a folder is meant to find, where every call succeeds.\<close>

inductive found_below ::
  "match_ext \<Rightarrow> exclusions \<Rightarrow> bool \<Rightarrow> path_filter \<Rightarrow> fpath \<Rightarrow> fsys \<Rightarrow> fpath \<Rightarrow> (string \<times> ftree) list \<Rightarrow> ignore_stack \<Rightarrow> fpath \<Rightarrow> bool"
  for ext ex hid filt root w where
  here: "(name, FFile bytes m) \<in> set es \<Longrightarrow> counts ex hid filt root layers dir name bytes \<Longrightarrow>
      found_below ext ex hid filt root w dir es layers (dir @ [name])"
| below: "(name, FDir sub) \<in> set es \<Longrightarrow> descends ex hid layers dir name \<Longrightarrow>
      found_below ext ex hid filt root w (dir @ [name]) sub (fst (add_layer_for ext (dir @ [name]) layers w)) p \<Longrightarrow>
      found_below ext ex hid filt root w dir es layers p"

lemma layer_calm: "fy_faults w = [] \<Longrightarrow> snd (add_layer_for ext dir layers w) = w"
  by (auto simp: add_layer_for_def Let_def sys_read_def sys_fault_def split: option.splits ftree.splits)

lemma calm_fault: "fy_faults w = [] \<Longrightarrow> sys_fault w = (None, w)"
  by (simp add: sys_fault_def)

text \<open>A calm scan: what it lists and what it leaves to do.\<close>

lemma scan_calm:
  "scan_folder ext ex hid filt root dir layers es w = ((ds, fs), w') \<Longrightarrow> fy_faults w = [] \<Longrightarrow>
     w' = w \<and>
     set fs = {dir @ [name] | name bytes m. (name, FFile bytes m) \<in> set es \<and> counts ex hid filt root layers dir name bytes} \<and>
     set ds = {(dir @ [name], sub, fst (add_layer_for ext (dir @ [name]) layers w)) | name sub.
        (name, FDir sub) \<in> set es \<and> descends ex hid layers dir name}"
proof (induction rule: scan_folder_induct)
  case (skipped name t es w w1 ds fs w')
  then have w1: "w1 = w" "fy_faults w1 = []" and not_dir: "\<forall>sub. t = FDir sub \<longrightarrow> \<not> descends ex hid layers dir name"
    and not_file: "\<forall>b m. t = FFile b m \<longrightarrow> \<not> counts ex hid filt root layers dir name b" by simp_all
  from skipped(3) [OF w1(2)] w1(1) have IH: "w' = w"
    "set fs = {dir @ [name] | name bytes m. (name, FFile bytes m) \<in> set es \<and> counts ex hid filt root layers dir name bytes}"
    "set ds = {(dir @ [name], sub, fst (add_layer_for ext (dir @ [name]) layers w)) | name sub.
        (name, FDir sub) \<in> set es \<and> descends ex hid layers dir name}" by simp_all
  show ?case
  proof (intro conjI)
    show "set fs = {dir @ [name'] | name' bytes m. (name', FFile bytes m) \<in> set ((name, t) # es) \<and> counts ex hid filt root layers dir name' bytes}"
      unfolding IH(2) using not_file by fastforce
    show "set ds = {(dir @ [name'], sub, fst (add_layer_for ext (dir @ [name']) layers w)) | name' sub.
        (name', FDir sub) \<in> set ((name, t) # es) \<and> descends ex hid layers dir name'}"
      unfolding IH(3) using not_dir by fastforce
  qed (rule IH(1))
next
  case (folder name sub es w w1 below w2 ds fs w')
  have w: "w1 = w" "w2 = w" "below = fst (add_layer_for ext (dir @ [name]) layers w)"
    using folder(1,3,5) layer_calm [of w ext "dir @ [name]" layers] by (auto simp: calm_fault)
  from folder(4) folder(5) w have IH: "w' = w"
    "set fs = {dir @ [name] | name bytes m. (name, FFile bytes m) \<in> set es \<and> counts ex hid filt root layers dir name bytes}"
    "set ds = {(dir @ [name], sub, fst (add_layer_for ext (dir @ [name]) layers w)) | name sub.
        (name, FDir sub) \<in> set es \<and> descends ex hid layers dir name}" by simp_all
  show ?case
  proof (intro conjI)
    show "set fs = {dir @ [name'] | name' bytes m. (name', FFile bytes m) \<in> set ((name, FDir sub) # es) \<and> counts ex hid filt root layers dir name' bytes}"
      unfolding IH(2) by auto
    show "set ((dir @ [name], sub, below) # ds) = {(dir @ [name'], sub', fst (add_layer_for ext (dir @ [name']) layers w)) | name' sub'.
        (name', FDir sub') \<in> set ((name, FDir sub) # es) \<and> descends ex hid layers dir name'}"
      unfolding list.set IH(3) w(3) using folder(2) by auto
  qed (rule IH(1))
next
  case (counted name b m es w w1 ds fs w')
  have w: "w1 = w" using counted(1,4) by (auto simp: calm_fault)
  from counted(3,4) w have IH: "w' = w"
    "set fs = {dir @ [name] | name bytes m. (name, FFile bytes m) \<in> set es \<and> counts ex hid filt root layers dir name bytes}"
    "set ds = {(dir @ [name], sub, fst (add_layer_for ext (dir @ [name]) layers w)) | name sub.
        (name, FDir sub) \<in> set es \<and> descends ex hid layers dir name}" by simp_all
  show ?case
  proof (intro conjI)
    show "set ((dir @ [name]) # fs) = {dir @ [name'] | name' bytes m'. (name', FFile bytes m') \<in> set ((name, FFile b m) # es) \<and> counts ex hid filt root layers dir name' bytes}"
      unfolding list.set IH(2) using counted(2) by auto
    show "set ds = {(dir @ [name'], sub', fst (add_layer_for ext (dir @ [name']) layers w)) | name' sub'.
        (name', FDir sub') \<in> set ((name, FFile b m) # es) \<and> descends ex hid layers dir name'}"
      unfolding IH(3) by auto
  qed (rule IH(1))
qed auto

lemma loop_calm:
  "fy_faults w = [] \<Longrightarrow> snd (files_loop ext ex hid filt root stack out w) = w \<and>
     set (fst (files_loop ext ex hid filt root stack out w)) =
       set out \<union> {p. \<exists>(dir, es, layers) \<in> set stack. found_below ext ex hid filt root w dir es layers p}"
proof (induction ext ex hid filt root stack out w rule: files_loop.induct)
  case (2 ext ex hid filt root dir es layers stack out w)
  note calm = calm_fault [OF 2(3)]
  obtain ds fs w2 where s: "scan_folder ext ex hid filt root dir layers es w = ((ds, fs), w2)"
    by (cases "scan_folder ext ex hid filt root dir layers es w") auto
  note sc = scan_calm [OF s 2(3)]
  then have w2: "w2 = w" by simp
  have step: "files_loop ext ex hid filt root ((dir, es, layers) # stack) out w =
      files_loop ext ex hid filt root (rev ds @ stack) (out @ fs) w"
    using s w2 by (simp add: calm)
  note IH = 2(1) [OF calm [symmetric] refl s [symmetric] refl, unfolded w2, OF 2(3)]
  note IH = conjunct1 [OF IH, folded step] conjunct2 [OF IH, folded step]
  have fs: "set fs = {dir @ [name] | name bytes m. (name, FFile bytes m) \<in> set es \<and> counts ex hid filt root layers dir name bytes}"
    and ds: "set ds = {(dir @ [name], sub, fst (add_layer_for ext (dir @ [name]) layers w)) | name sub.
      (name, FDir sub) \<in> set es \<and> descends ex hid layers dir name}" using sc by simp_all
  have "found_below ext ex hid filt root w dir es layers p \<longleftrightarrow>
      p \<in> set fs \<or> (\<exists>(dir, es, layers) \<in> set ds. found_below ext ex hid filt root w dir es layers p)" (is "?l \<longleftrightarrow> ?f \<or> ?d") for p
  proof
    assume ?l
    then show "?f \<or> ?d"
    proof (cases rule: found_below.cases)
      case (here name bytes m)
      then have ?f unfolding fs by blast
      then show ?thesis ..
    next
      case (below name sub)
      then have "(dir @ [name], sub, fst (add_layer_for ext (dir @ [name]) layers w)) \<in> set ds" unfolding ds by blast
      with below(3) have ?d by blast
      then show ?thesis ..
    qed
  next
    assume "?f \<or> ?d"
    then show ?l
    proof
      assume ?f
      then show ?l unfolding fs by (auto intro: found_below.here)
    next
      assume ?d
      then show ?l unfolding ds by (auto intro: found_below.below)
    qed
  qed
  then have "set (out @ fs) \<union> {p. \<exists>(dir, es, layers) \<in> set (rev ds @ stack). found_below ext ex hid filt root w dir es layers p} =
      set out \<union> {p. \<exists>(dir, es, layers) \<in> set ((dir, es, layers) # stack). found_below ext ex hid filt root w dir es layers p}"
    by auto
  then show ?case using IH by simp
qed auto

text \<open>Whatever fails, what a scan lists are files of the folder, each once, and what it leaves are its folders.\<close>

lemma layer_tree: "fy_tree (snd (add_layer_for ext dir layers w)) = fy_tree w"
proof -
  obtain f w1 where f: "sys_fault w = (f, w1)" by (cases "sys_fault w")
  have "fy_tree (snd (sys_read p w)) = fy_tree w" for p
    using sys_fault_tree [OF f] by (simp add: sys_read_def f split: option.splits ftree.splits)
  then show ?thesis by (auto simp: add_layer_for_def Let_def split: option.splits ftree.splits prod.splits)
      (metis snd_conv)+
qed

lemma scan_lists:
  "scan_folder ext ex hid filt root dir layers es w = ((ds, fs), w') \<Longrightarrow> distinct (map fst es) \<Longrightarrow>
     fy_tree w' = fy_tree w \<and>
     (\<forall>p \<in> set fs. \<exists>n b m. p = dir @ [n] \<and> (n, FFile b m) \<in> set es \<and> length b \<le> MAX_FILE_BYTES) \<and>
     (\<forall>d \<in> set ds. \<exists>n sub l. d = (dir @ [n], sub, l) \<and> (n, FDir sub) \<in> set es) \<and>
     distinct fs \<and> distinct (map fst ds) \<and> (\<forall>d \<in> set ds. fst d \<notin> set fs)"
proof (induction rule: scan_folder_induct)
  case (skipped name t es w w1 ds fs w')
  then show ?case by (simp; meson)
next
  case (folder name sub es w w1 below w2 ds fs w')
  then have new: "name \<notin> fst ` set es" by simp
  have "fy_tree w2 = fy_tree w" using sys_fault_tree [OF folder(1)] layer_tree [of ext "dir @ [name]" layers w1] folder(3) by simp
  moreover have "\<forall>p \<in> set fs. p \<noteq> dir @ [name]" "\<forall>d \<in> set ds. fst d \<noteq> dir @ [name]"
    using folder(4,5) new by (fastforce simp: image_iff)+
  ultimately show ?case using folder(4,5) by (simp; force)
next
  case (counted name b m es w w1 ds fs w')
  then have new: "name \<notin> fst ` set es" by simp
  have "\<forall>p \<in> set fs. p \<noteq> dir @ [name]" "\<forall>d \<in> set ds. fst d \<noteq> dir @ [name]"
    using counted(3,4) new by (fastforce simp: image_iff)+
  moreover have "length b \<le> MAX_FILE_BYTES" using counted(2) by (simp add: counts_def)
  ultimately show ?case using counted(3,4) sys_fault_tree [OF counted(1)] by (simp; metis)
qed simp

definition beside :: "fpath \<Rightarrow> fpath \<Rightarrow> bool" where
  "beside p q \<longleftrightarrow> \<not> prefix p q \<and> \<not> prefix q p"

text \<open>The folders still to do lie beside each other and hold no file listed so far.\<close>

definition loop_inv :: "fsys \<Rightarrow> pending_dir list \<Rightarrow> fpath list \<Rightarrow> bool" where
  "loop_inv w stack out \<longleftrightarrow> distinct out \<and>
     (\<forall>p \<in> set out. p \<noteq> [] \<and> (\<exists>b m. look w p = Some (FFile b m) \<and> length b \<le> MAX_FILE_BYTES)) \<and>
     (\<forall>(d, es, l) \<in> set stack. look w d = Some (FDir es) \<and> names_distinct (FDir es) \<and> (\<forall>p \<in> set out. \<not> prefix d p)) \<and>
     sorted_wrt (\<lambda>a b. beside (fst a) (fst b)) stack"

lemma beside_child: "beside d e \<Longrightarrow> beside (d @ [n]) e"
  by (auto simp: beside_def prefix_def append_eq_append_conv2)

lemma beside_siblings: "n \<noteq> m \<Longrightarrow> beside (d @ [n]) (d @ [m])"
  by (auto simp: beside_def prefix_def)

lemma entries_distinct_member: "entries_distinct es \<Longrightarrow> (n, t) \<in> set es \<Longrightarrow> names_distinct t"
  by (induction es) auto

lemma look_child: "look w d = Some (FDir es) \<Longrightarrow> distinct (map fst es) \<Longrightarrow> (n, t) \<in> set es \<Longrightarrow> look w (d @ [n]) = Some t"
  by (simp add: lookup_append)

lemma loop_inv_step:
  assumes inv: "loop_inv w ((dir, es, layers) # stack) out"
    and s: "scan_folder ext ex hid filt root dir layers es w = ((ds, fs), w')"
  shows "loop_inv w (rev ds @ stack) (out @ fs)"
proof -
  from inv have dir: "look w dir = Some (FDir es)" "distinct (map fst es)" "entries_distinct es" "\<forall>p \<in> set out. \<not> prefix dir p"
    and rest: "\<And>d es l. (d, es, l) \<in> set stack \<Longrightarrow> look w d = Some (FDir es) \<and> names_distinct (FDir es) \<and> (\<forall>p \<in> set out. \<not> prefix d p)"
    and apart: "\<forall>b \<in> set stack. beside dir (fst b)" "sorted_wrt (\<lambda>a b. beside (fst a) (fst b)) stack"
    and out: "distinct out" "\<forall>p \<in> set out. p \<noteq> [] \<and> (\<exists>b m. look w p = Some (FFile b m) \<and> length b \<le> MAX_FILE_BYTES)"
    by (auto simp: loop_inv_def)
  from scan_lists [OF s dir(2)]
  have files: "\<And>p. p \<in> set fs \<Longrightarrow> \<exists>n b m. p = dir @ [n] \<and> (n, FFile b m) \<in> set es \<and> length b \<le> MAX_FILE_BYTES"
    and dirs: "\<And>d. d \<in> set ds \<Longrightarrow> \<exists>n sub l. d = (dir @ [n], sub, l) \<and> (n, FDir sub) \<in> set es"
    and once: "distinct fs" "distinct (map fst ds)" "\<forall>d \<in> set ds. fst d \<notin> set fs" by blast+
  have new_files: "p \<noteq> [] \<and> (\<exists>b m. look w p = Some (FFile b m) \<and> length b \<le> MAX_FILE_BYTES) \<and> prefix dir p" if "p \<in> set fs" for p
    using files [OF that] look_child [OF dir(1,2)] by fastforce
  have new_dirs: "look w d = Some (FDir sub) \<and> names_distinct (FDir sub) \<and> (\<exists>n. d = dir @ [n])" if "(d, sub, l) \<in> set ds" for d sub l
    using dirs [OF that] look_child [OF dir(1,2)] entries_distinct_member [OF dir(3)] by fastforce
  have d1: "distinct (out @ fs)" using out(1) once(1) new_files dir(4) by auto
  have d2: "\<forall>p \<in> set (out @ fs). p \<noteq> [] \<and> (\<exists>b m. look w p = Some (FFile b m) \<and> length b \<le> MAX_FILE_BYTES)"
    using out(2) new_files by auto
  have d3: "look w d = Some (FDir sub) \<and> names_distinct (FDir sub) \<and> (\<forall>p \<in> set (out @ fs). \<not> prefix d p)"
    if "(d, sub, l) \<in> set (rev ds @ stack)" for d sub l
  proof (cases "(d, sub, l) \<in> set ds")
    case True
    from new_dirs [OF True] obtain n where d: "d = dir @ [n]" by blast
    have "\<not> prefix d p" if "p \<in> set out" for p using dir(4) that unfolding d by (auto simp: prefix_def)
    moreover have "\<not> prefix d p" if p: "p \<in> set fs" for p
    proof -
      from files [OF p] obtain m where "p = dir @ [m]" by blast
      with once(3) True p d show ?thesis by (auto simp: prefix_def)
    qed
    ultimately show ?thesis using new_dirs [OF True] by auto
  next
    case False
    with that have in_rest: "(d, sub, l) \<in> set stack" by simp
    have "\<not> prefix d p" if p: "p \<in> set fs" for p
    proof -
      from files [OF p] obtain m where "p = dir @ [m]" by blast
      with apart(1) in_rest beside_child [of dir d m] show ?thesis by (fastforce simp: beside_def)
    qed
    with rest [OF in_rest] show ?thesis by auto
  qed
  have d4: "sorted_wrt (\<lambda>a b. beside (fst a) (fst b)) (rev ds @ stack)"
  proof -
    have "beside (fst a) (fst b)" if "a \<in> set ds" "b \<in> set ds" "fst a \<noteq> fst b" for a b
      using dirs [OF that(1)] dirs [OF that(2)] that(3) beside_siblings by fastforce
    then have "sorted_wrt (\<lambda>a b. beside (fst a) (fst b)) (rev ds)"
      using once(2) unfolding sorted_wrt_iff_nth_less by (auto simp: rev_nth distinct_conv_nth)
    moreover have "beside (fst a) (fst b)" if "a \<in> set ds" "b \<in> set stack" for a b
      using dirs [OF that(1)] apart(1) that(2) beside_child by fastforce
    ultimately show ?thesis using apart(2) by (auto simp: sorted_wrt_append)
  qed
  show ?thesis unfolding loop_inv_def using d1 d2 d3 d4 by fast
qed

lemma loop_inv_tree: "fy_tree w' = fy_tree w \<Longrightarrow> loop_inv w' stack out = loop_inv w stack out"
  by (simp add: loop_inv_def)

lemma loop_lists:
  "files_loop ext ex hid filt root stack out w = (ps, w') \<Longrightarrow> loop_inv w stack out \<Longrightarrow>
     fy_tree w' = fy_tree w \<and> loop_inv w [] ps"
proof (induction ext ex hid filt root stack out w rule: files_loop.induct)
  case (2 ext ex hid filt root dir es layers stack out w)
  obtain f w1 where f: "sys_fault w = (f, w1)" by (cases "sys_fault w")
  note t1 = conjunct1 [OF sys_fault_tree [OF f]]
  show ?case
  proof (cases f)
    case (Some g)
    have "loop_inv w stack out" using 2(4) by (auto simp: loop_inv_def)
    then have "loop_inv w1 stack out" using loop_inv_tree [OF t1] by blast
    moreover have "files_loop ext ex hid filt root stack out w1 = (ps, w')" using 2(3) f Some by simp
    ultimately show ?thesis using 2(2) [OF f [symmetric] Some] t1 loop_inv_tree [OF t1] by simp
  next
    case None
    obtain ds fs w2 where s: "scan_folder ext ex hid filt root dir layers es w1 = ((ds, fs), w2)"
      by (cases "scan_folder ext ex hid filt root dir layers es w1") auto
    have inv1: "loop_inv w1 ((dir, es, layers) # stack) out" using 2(4) loop_inv_tree [OF t1] by blast
    then have "distinct (map fst es)" by (simp add: loop_inv_def)
    with scan_lists [OF s] have t2: "fy_tree w2 = fy_tree w1" by blast
    have "loop_inv w2 (rev ds @ stack) (out @ fs)" using loop_inv_step [OF inv1 s] loop_inv_tree [OF t2] by blast
    moreover have "files_loop ext ex hid filt root (rev ds @ stack) (out @ fs) w2 = (ps, w')" using 2(3) f None s by simp
    ultimately show ?thesis using 2(1) [OF f [symmetric] None s [symmetric] refl] t1 t2 loop_inv_tree [OF t2] loop_inv_tree [OF t1] by simp
  qed
qed simp

lemma names_distinct_below: "lookup t p = Some s \<Longrightarrow> names_distinct t \<Longrightarrow> names_distinct s"
proof (induction t p rule: lookup.induct)
  case (2 es c cs)
  then obtain t where t: "map_of es c = Some t" "lookup t cs = Some s" by (auto split: option.splits)
  with 2(3) have "names_distinct t" by (auto dest: map_of_SomeD entries_distinct_member)
  with 2(1) t show ?case by simp
qed simp_all

lemma files_under_lists:
  assumes run: "files_under ext ex hid filt root w = (ps, w')" and names: "names_distinct (fy_tree w)"
  shows "fy_tree w' = fy_tree w \<and> distinct ps \<and>
    (\<forall>p \<in> set ps. p \<noteq> [] \<and> (\<exists>b m. look w p = Some (FFile b m) \<and> length b \<le> MAX_FILE_BYTES))"
proof -
  obtain layers w1 where a: "add_layer_for ext root [] w = (layers, w1)" by (cases "add_layer_for ext root [] w")
  have t1: "fy_tree w1 = fy_tree w" using layer_tree [of ext root "[]" w] a by simp
  show ?thesis
  proof (cases "\<exists>es. look w root = Some (FDir es)")
    case True
    then obtain es where es: "look w root = Some (FDir es)" by blast
    obtain out w2 where l: "files_loop ext ex hid filt root [(root, es, layers)] [] w1 = (out, w2)"
      by (cases "files_loop ext ex hid filt root [(root, es, layers)] [] w1")
    have "loop_inv w1 [(root, es, layers)] []" using es names_distinct_below [OF es names] by (simp add: loop_inv_def t1)
    from loop_lists [OF l this] have "fy_tree w2 = fy_tree w" "loop_inv w [] out" using t1 loop_inv_tree [OF t1] by simp_all
    moreover have "ps = sort out" "w' = w2" using run a l es t1 by (simp_all add: files_under_def)
    ultimately show ?thesis by (simp add: loop_inv_def)
  next
    case False
    obtain f w2 where f: "sys_fault w1 = (f, w2)" by (cases "sys_fault w1")
    from False have "ps = []" "w' = w2"
      using run a f t1 by (auto simp: files_under_def Let_def split: option.splits ftree.splits)
    with sys_fault_tree [OF f] t1 show ?thesis by simp
  qed
qed

section \<open>Replacing in files\<close>

text \<open>Writing over a file leaves every other file and link.\<close>

definition only_changed :: "fpath set \<Rightarrow> fsys \<Rightarrow> fsys \<Rightarrow> bool" where
  "only_changed ps w w' \<longleftrightarrow> (\<forall>q. q \<notin> ps \<longrightarrow> kept (look w q) (look w' q))"

lemma only_changed_trans: "only_changed ps w w1 \<Longrightarrow> only_changed qs w1 w2 \<Longrightarrow> only_changed (ps \<union> qs) w w2"
  unfolding only_changed_def using kept_trans by blast

lemma only_changed_refl: "fy_tree w' = fy_tree w \<Longrightarrow> only_changed ps w w'"
  by (simp add: only_changed_def)

lemma parent_of_file: "look w p = Some t \<Longrightarrow> p \<noteq> [] \<Longrightarrow> fs_is_dir w (butlast p)"
proof -
  assume p: "look w p = Some t" "p \<noteq> []"
  then have "lookup (fy_tree w) (butlast p @ [last p]) = Some t" by simp
  then show ?thesis unfolding lookup_append fs_is_dir_def
    by (cases "look w (butlast p)" rule: is_folder.cases) (auto split: option.splits ftree.splits)
qed

lemma below_file: "look w p = Some (FFile b m) \<Longrightarrow> strict_prefix p q \<Longrightarrow> look w q = None"
  by (auto simp: strict_prefix_def prefix_def lookup_append split: option.splits) (case_tac zs; simp)

lemma write_file_over:
  assumes run: "sys_write p c w = (ok, w')" and p: "look w p = Some (FFile b m)" "p \<noteq> []"
  shows "only_changed {p} w w'" and "\<exists>b m. look w' p = Some (FFile b m)"
    and "ok \<Longrightarrow> content_at w' p = Some c" and "fy_faults w = [] \<Longrightarrow> ok \<and> fy_faults w' = []"
proof -
  obtain f w1 where f: "sys_fault w = (f, w1)" by (cases "sys_fault w")
  note t1 = sys_fault_tree [OF f]
  have par: "fs_is_dir w1 (butlast p)" "\<not> fs_is_dir w1 p" using parent_of_file [OF p] p t1 by (simp_all add: fs_is_dir_def)
  have here: "look (put_tree p (Some t) w1) p = Some t" for t
    using set_at_here [of "fy_tree w1" p t] par p by (simp add: fs_is_dir_def put_tree_def)
  have other: "only_changed {p} w (put_tree p (Some (FFile b' m')) w1)" for b' m'
    unfolding only_changed_def
  proof (intro allI impI)
    fix q assume "q \<notin> {p}"
    show "kept (look w q) (look (put_tree p (Some (FFile b' m')) w1) q)"
    proof (cases "prefix p q")
      case True
      with \<open>q \<notin> {p}\<close> have q: "strict_prefix p q" by (simp add: strict_prefix_def)
      from below_file [OF p(1) q] below_file [OF here q] show ?thesis by simp
    next
      case False
      with put_same [of p p w1] t1 show ?thesis by (simp add: same_outside_def)
    qed
  qed
  have run': "w' = w1 \<and> \<not> ok \<or> (\<exists>n. w' = put_tree p (Some (FFile (take n c) (fy_now w1))) w1 \<and> \<not> ok) \<or>
      w' = put_tree p (Some (FFile c (fy_now w1))) w1 \<and> ok"
    using run par p(2) unfolding sys_write_def f by (auto split: option.splits fs_fault.splits)
  show "only_changed {p} w w'" using run' other only_changed_refl [of w1 w] t1 by auto
  show "\<exists>b m. look w' p = Some (FFile b m)" using run' here p(1) t1 by (auto simp: put_tree_def)
  show "ok \<Longrightarrow> content_at w' p = Some c" using run' here by (auto simp: content_at_def)
  show "fy_faults w = [] \<Longrightarrow> ok \<and> fy_faults w' = []"
    using run par p(2) f by (auto simp: sys_write_def sys_fault_def put_tree_def)
qed

text \<open>What one file should hold afterwards and how many places of it change.\<close>

definition new_content ::
  "(string \<Rightarrow> (nat \<times> nat) list) \<Rightarrow> string \<Rightarrow> skip_site list \<Rightarrow> fpath list option \<Rightarrow> fpath \<Rightarrow> fpath \<Rightarrow> string \<Rightarrow> string \<times> nat" where
  "new_content spans_of repl skips only root path bytes =
     (let rel = drop (length root) path in
      if (case only of None \<Rightarrow> False | Some rels \<Rightarrow> rel \<notin> set rels) \<or> readable_text bytes = None then (bytes, 0)
      else case rebuild_text spans_of repl (skipped_at skips rel) bytes of
        None \<Rightarrow> (bytes, 0)
      | Some (rebuilt, n) \<Rightarrow> (if 0 < n \<and> rebuilt \<noteq> bytes then (rebuilt, n) else (bytes, 0)))"

lemma readable_same: "readable_text b = Some c \<Longrightarrow> c = b"
  by (auto simp: readable_text_def split: if_splits)

lemma content_of_file: "look w p = Some (FFile b m) \<Longrightarrow> content_at w p = Some b"
  by (simp add: content_at_def)

lemma replace_step:
  assumes run: "replace_files spans_of repl skips only root (path # ps) res w = (r, w')"
    and p: "look w path = Some (FFile b m)" "path \<noteq> []"
  obtains (panic) "r = Panic" "fy_tree w' = fy_tree w"
      "readable_text b \<noteq> None" "rebuild_text spans_of repl (skipped_at skips (drop (length root) path)) b = None"
  | (go) res2 w2 where "replace_files spans_of repl skips only root ps res2 w2 = (r, w')"
      "only_changed {path} w w2" "\<exists>b m. look w2 path = Some (FFile b m)"
      "rr_failed res2 = rr_failed res \<and> content_at w2 path \<in> {Some b, Some (fst (new_content spans_of repl skips only root path b))} \<or>
         rr_failed res2 = rr_failed res @ [drop (length root) path]"
      "fy_faults w = [] \<longrightarrow> fy_faults w2 = [] \<and> rr_failed res2 = rr_failed res \<and>
         content_at w2 path = Some (fst (new_content spans_of repl skips only root path b)) \<and>
         rr_replacements res2 = rr_replacements res + snd (new_content spans_of repl skips only root path b)"
proof -
  let ?rel = "drop (length root) path" and ?new = "new_content spans_of repl skips only root path b"
  let ?out = "case only of None \<Rightarrow> False | Some rels \<Rightarrow> ?rel \<notin> set rels"
  have unchanged: thesis if go_on: "replace_files spans_of repl skips only root ps res w1 = (r, w')" and t: "fy_tree w1 = fy_tree w"
    and calm: "fy_faults w = [] \<longrightarrow> fy_faults w1 = [] \<and> ?new = (b, 0)" for w1
  proof (rule go [OF go_on])
    show "only_changed {path} w w1" by (rule only_changed_refl [OF t])
    show "\<exists>b m. look w1 path = Some (FFile b m)" using p t by simp
    show "rr_failed res = rr_failed res \<and> content_at w1 path \<in> {Some b, Some (fst ?new)} \<or> rr_failed res = rr_failed res @ [?rel]"
      using p t by (simp add: content_at_def)
    show "fy_faults w = [] \<longrightarrow> fy_faults w1 = [] \<and> rr_failed res = rr_failed res \<and> content_at w1 path = Some (fst ?new) \<and>
         rr_replacements res = rr_replacements res + snd ?new"
      using calm p t by (simp add: content_at_def)
  qed
  show thesis
  proof (cases ?out)
    case True
    with run show thesis by (intro unchanged [of w]) (simp_all add: Let_def new_content_def)
  next
    case in_scope: False
    obtain f w1 where f: "sys_fault w = (f, w1)" by (cases "sys_fault w")
    have t1: "fy_tree w1 = fy_tree w" and calm1: "fy_faults w = [] \<longrightarrow> fy_faults w1 = [] \<and> f = None"
      using sys_fault_tree [OF f] f by (auto simp: sys_fault_def)
    have read: "sys_read path w = (if f = None then Some b else None, w1)"
      using p(1) [folded t1] by (cases f) (simp_all add: sys_read_def f)
    note run = run [unfolded replace_files.simps Let_def read prod.case, simplified in_scope if_False]
    show thesis
    proof (cases "f = None \<and> readable_text b \<noteq> None")
      case False
      with run have "replace_files spans_of repl skips only root ps res w1 = (r, w')" by (cases f) auto
      then show thesis by (rule unchanged [OF _ t1]) (use calm1 False in \<open>auto simp: new_content_def Let_def\<close>)
    next
      case True
      then have txt_ok: "readable_text b = Some b" using readable_same by fastforce
      show thesis
      proof (cases "rebuild_text spans_of repl (skipped_at skips ?rel) b")
        case None
        with run True txt_ok have "r = Panic" "w' = w1" by simp_all
        with t1 None True show thesis by (intro panic) simp_all
      next
        case (Some bn)
        obtain rebuilt n where bn: "bn = (rebuilt, n)" by (cases bn)
        show thesis
        proof (cases "0 < n \<and> rebuilt \<noteq> b")
          case False
          with run True txt_ok Some bn have "replace_files spans_of repl skips only root ps res w1 = (r, w')" by auto
          then show thesis
            by (rule unchanged [OF _ t1]) (use calm1 False Some bn in_scope txt_ok in \<open>auto simp: new_content_def Let_def\<close>)
        next
          case changed: True
          have new: "?new = (rebuilt, n)" using changed Some bn in_scope txt_ok by (simp add: new_content_def Let_def)
          obtain ok w2 where wr: "sys_write path rebuilt w1 = (ok, w2)" by (cases "sys_write path rebuilt w1")
          have p1: "look w1 path = Some (FFile b m)" using p t1 by simp
          note over = write_file_over [OF wr p1 p(2)]
          have oc: "only_changed {path} w w2" using only_changed_trans [OF only_changed_refl [OF t1, of "{path}"] over(1)] by simp
          show thesis
          proof (cases ok)
            case True
            with run \<open>f = None \<and> readable_text b \<noteq> None\<close> txt_ok Some bn changed wr
            have "replace_files spans_of repl skips only root ps
                (res\<lparr>rr_files_changed := rr_files_changed res + 1, rr_replacements := rr_replacements res + n\<rparr>) w2 = (r, w')" by simp
            then show thesis
              by (rule go [OF _ oc over(2)]) (use over(3) [OF True] over(4) calm1 new in auto)
          next
            case False
            with run \<open>f = None \<and> readable_text b \<noteq> None\<close> txt_ok Some bn changed wr
            have "replace_files spans_of repl skips only root ps (res\<lparr>rr_failed := rr_failed res @ [?rel]\<rparr>) w2 = (r, w')" by simp
            then show thesis
              by (rule go [OF _ oc over(2)]) (use False over(4) calm1 in auto)
          qed
        qed
      qed
    qed
  qed
qed

text \<open>A file that is not the changed one is as it was.\<close>

lemma file_untouched: "only_changed ps w w' \<Longrightarrow> q \<notin> ps \<Longrightarrow> look w q = Some (FFile b m) \<Longrightarrow> look w' q = Some (FFile b m)"
  by (auto simp: only_changed_def kept_def)

lemma replace_loop_safe:
  assumes "replace_files spans_of repl skips only root ps res w = (r, w')" and "distinct ps"
    and "\<forall>p \<in> set ps. p \<noteq> [] \<and> (\<exists>b m. look w p = Some (FFile b m))"
  shows "only_changed (set ps) w w' \<and>
    (\<forall>res'. r = Ok res' \<longrightarrow> set (rr_failed res) \<subseteq> set (rr_failed res') \<and>
       (\<forall>p \<in> set ps. drop (length root) p \<notin> set (rr_failed res') \<longrightarrow>
          content_at w' p \<in> {content_at w p, Some (fst (new_content spans_of repl skips only root p (the (content_at w p))))}))"
  using assms
proof (induction ps arbitrary: res w)
  case Nil
  then show ?case by (auto simp: only_changed_def)
next
  case (Cons p ps)
  from Cons.prems(3) obtain b m where p: "p \<noteq> []" "look w p = Some (FFile b m)" by auto
  from Cons.prems(1) p(2,1) show ?case
  proof (cases rule: replace_step)
    case panic
    then show ?thesis using only_changed_refl by simp
  next
    case (go res2 w2)
    have later: "look w2 q = look w q" if "q \<in> set ps" for q
    proof -
      from that Cons.prems(2) have "q \<notin> {p}" by auto
      moreover from that Cons.prems(3) obtain b m where "look w q = Some (FFile b m)" by (meson list.set_intros(2))
      ultimately show ?thesis using file_untouched [OF go(2)] by metis
    qed
    have "\<forall>q \<in> set ps. q \<noteq> [] \<and> (\<exists>b m. look w2 q = Some (FFile b m))" using later Cons.prems(3) by simp
    note IH = Cons.IH [OF go(1) _ this] 
    have only: "only_changed (set ps) w2 w'" using IH Cons.prems(2) by simp
    then have "only_changed (set (p # ps)) w w'" using only_changed_trans [OF go(2) only] by simp
    moreover have "set (rr_failed res) \<subseteq> set (rr_failed res') \<and>
       (\<forall>q \<in> set (p # ps). drop (length root) q \<notin> set (rr_failed res') \<longrightarrow>
          content_at w' q \<in> {content_at w q, Some (fst (new_content spans_of repl skips only root q (the (content_at w q))))})"
      if r: "r = Ok res'" for res'
    proof -
      from IH Cons.prems(2) r have sub: "set (rr_failed res2) \<subseteq> set (rr_failed res')"
        and tail: "\<forall>q \<in> set ps. drop (length root) q \<notin> set (rr_failed res') \<longrightarrow>
          content_at w' q \<in> {content_at w2 q, Some (fst (new_content spans_of repl skips only root q (the (content_at w2 q))))}"
        by simp_all
      from go(3) obtain b2 m2 where "look w2 p = Some (FFile b2 m2)" by blast
      moreover from file_untouched [OF only _ this] Cons.prems(2) have "look w' p = Some (FFile b2 m2)" by simp
      ultimately have same: "content_at w' p = content_at w2 p" by (simp add: content_at_def)
      have head: "content_at w' p \<in> {content_at w p, Some (fst (new_content spans_of repl skips only root p (the (content_at w p))))}"
        if "drop (length root) p \<notin> set (rr_failed res')"
        using go(4) that sub same content_of_file [OF p(2)] by auto
      have "content_at w2 q = content_at w q" if "q \<in> set ps" for q using later [OF that] by (simp add: content_at_def)
      with tail head sub go(4) show ?thesis by auto
    qed
    ultimately show ?thesis by blast
  qed
qed

lemma replace_loop_exact:
  assumes "replace_files spans_of repl skips only root ps res w = (r, w')" and "distinct ps" and "fy_faults w = []"
    and "\<forall>p \<in> set ps. p \<noteq> [] \<and> (\<exists>b m. look w p = Some (FFile b m) \<and>
      (readable_text b \<noteq> None \<longrightarrow> rebuild_text spans_of repl (skipped_at skips (drop (length root) p)) b \<noteq> None))"
  shows "\<exists>res'. r = Ok res' \<and> rr_failed res' = rr_failed res \<and>
    rr_replacements res' = rr_replacements res +
      sum_list (map (\<lambda>p. snd (new_content spans_of repl skips only root p (the (content_at w p)))) ps) \<and>
    (\<forall>p \<in> set ps. content_at w' p = Some (fst (new_content spans_of repl skips only root p (the (content_at w p)))))"
  using assms
proof (induction ps arbitrary: res w)
  case (Cons p ps)
  from Cons.prems(4) obtain b m where p: "p \<noteq> []" "look w p = Some (FFile b m)"
    and fine: "readable_text b \<noteq> None \<longrightarrow> rebuild_text spans_of repl (skipped_at skips (drop (length root) p)) b \<noteq> None" by auto
  from Cons.prems(1) p(2,1) show ?case
  proof (cases rule: replace_step)
    case panic
    with fine show ?thesis by simp
  next
    case (go res2 w2)
    have later: "look w2 q = look w q" if "q \<in> set ps" for q
    proof -
      from that Cons.prems(2) have "q \<notin> {p}" by auto
      moreover from that Cons.prems(4) obtain b m where "look w q = Some (FFile b m)" by (meson list.set_intros(2))
      ultimately show ?thesis using file_untouched [OF go(2)] by metis
    qed
    then have cont: "content_at w2 q = content_at w q" if "q \<in> set ps" for q using that by (simp add: content_at_def)
    have files: "\<forall>q \<in> set ps. q \<noteq> [] \<and> (\<exists>b m. look w2 q = Some (FFile b m) \<and>
      (readable_text b \<noteq> None \<longrightarrow> rebuild_text spans_of repl (skipped_at skips (drop (length root) q)) b \<noteq> None))"
      using later Cons.prems(4) by simp
    have dist: "distinct ps" using Cons.prems(2) by simp
    have calm: "fy_faults w2 = []" using go(5) Cons.prems(3) by simp
    from Cons.IH [OF go(1) dist calm files] obtain res' where r: "r = Ok res'" "rr_failed res' = rr_failed res2"
      "rr_replacements res' = rr_replacements res2 +
         sum_list (map (\<lambda>p. snd (new_content spans_of repl skips only root p (the (content_at w2 p)))) ps)"
      "\<forall>p \<in> set ps. content_at w' p = Some (fst (new_content spans_of repl skips only root p (the (content_at w2 p))))"
      by blast
    have only: "only_changed (set ps) w2 w'"
      using replace_loop_safe [OF go(1) dist] files by blast
    from go(3) obtain b2 m2 where "look w2 p = Some (FFile b2 m2)" by blast
    moreover from file_untouched [OF only _ this] Cons.prems(2) have "look w' p = Some (FFile b2 m2)" by simp
    ultimately have same: "content_at w' p = content_at w2 p" by (simp add: content_at_def)
    have "sum_list (map (\<lambda>p. snd (new_content spans_of repl skips only root p (the (content_at w2 p)))) ps) =
        sum_list (map (\<lambda>p. snd (new_content spans_of repl skips only root p (the (content_at w p)))) ps)"
      by (rule arg_cong [where f = sum_list]) (simp add: cont)
    with r cont same go(5) Cons.prems(3) content_of_file [OF p(2)] show ?thesis by simp
  qed
next
  case Nil
  then have "r = Ok res" "w' = w" by auto
  then show ?case by simp
qed

lemma lines_valid: "utf8_valid s \<Longrightarrow> \<forall>l \<in> set (str_lines s). utf8_valid l"
proof (induction "length s" arbitrary: s rule: less_induct)
  case less
  show ?case
  proof (cases s rule: lines_cases)
    case rest
    then show ?thesis using less(2) by (simp add: str_lines_rest)
  next
    case (line l b)
    have "is_char_boundary s (length l)" by (simp add: line is_char_boundary_def is_cont_def)
    with utf8_split [of l "nl # b"] less(2) line have valid: "utf8_valid l" "utf8_valid (nl # b)" by simp_all
    have b: "utf8_valid b" using utf8_rest [of "[nl]" b] valid(2) by (simp add: utf8_valid_ascii)
    have "utf8_valid (butlast l)" if "l \<noteq> []" "last l = cr"
    proof -
      from that obtain m where l: "l = m @ [cr]" by (metis append_butlast_last_id)
      then have "is_char_boundary (m @ [cr]) (length m)" by (simp add: is_char_boundary_def is_cont_def)
      with utf8_split [of m "[cr]"] valid(1) l show ?thesis by simp
    qed
    then have "utf8_valid (strip_line_ending (l @ [nl]))"
      using valid(1) by (simp add: strip_line_ending_def Let_def butlast_append)
    moreover have "str_lines s = strip_line_ending (l @ [nl]) # str_lines b"
      using line by (simp add: str_lines_def split_inclusive_line)
    ultimately show ?thesis using less(1) [of b] b line by simp
  qed
qed

lemma rebuild_never_panics:
  assumes "q \<noteq> []" "utf8_valid q" "utf8_valid s"
  shows "rebuild_text (\<lambda>l. plain_matches q False l 0) r (\<lambda>_ _. False) s \<noteq> None"
  using weave_lines_plain [OF assms(1,2) lines_valid [OF assms(3)], of r 0] by (simp add: rebuild_text_def)

lemma str_replace_same: "count_matches q s = 0 \<Longrightarrow> str_replace q r s = s"
proof (induction q r s rule: str_replace.induct)
  case (2 q r x xs)
  then show ?case by (cases "q \<noteq> [] \<and> prefix q (x # xs)") auto
qed simp

text \<open>When no call fails, the walk finds what it is meant to, and nothing has changed.\<close>

definition found_under :: "match_ext \<Rightarrow> exclusions \<Rightarrow> bool \<Rightarrow> path_filter \<Rightarrow> fpath \<Rightarrow> fsys \<Rightarrow> fpath \<Rightarrow> bool" where
  "found_under ext ex hid filt root w p \<longleftrightarrow> (case look w root of
     Some (FDir es) \<Rightarrow> found_below ext ex hid filt root w root es (fst (add_layer_for ext root [] w)) p
   | _ \<Rightarrow> False)"

lemma files_under_calm:
  assumes calm: "fy_faults w = []"
  shows "snd (files_under ext ex hid filt root w) = w \<and>
    set (fst (files_under ext ex hid filt root w)) = Collect (found_under ext ex hid filt root w)"
proof -
  obtain layers where a: "add_layer_for ext root [] w = (layers, w)"
    using layer_calm [OF calm, of ext root "[]"] by (metis surjective_pairing)
  show ?thesis
  proof (cases "look w root")
    case None
    then show ?thesis by (simp add: files_under_def found_under_def a calm_fault [OF calm])
  next
    case (Some t)
    show ?thesis
    proof (cases t)
      case (FDir es)
      obtain out w2 where l: "files_loop ext ex hid filt root [(root, es, layers)] [] w = (out, w2)"
        by (cases "files_loop ext ex hid filt root [(root, es, layers)] [] w")
      from loop_calm [OF calm, of ext ex hid filt root "[(root, es, layers)]" "[]"] l
      have "set out = Collect (found_below ext ex hid filt root w root es layers)" "w2 = w" by (simp_all del: files_loop.simps)
      moreover have "files_under ext ex hid filt root w = (sort out, w2)"
        unfolding files_under_def using Some FDir by (simp del: files_loop.simps add: a l)
      moreover have "found_under ext ex hid filt root w = found_below ext ex hid filt root w root es layers"
        using Some FDir by (intro ext) (simp add: found_under_def a)
      ultimately show ?thesis by simp
    qed (use Some in \<open>simp_all add: files_under_def found_under_def a calm_fault [OF calm]\<close>)
  qed
qed


text \<open>C22: The walk of a search refines its description. When no call fails, the stack of folders yields,
  sorted and once each, exactly the files the rules let in: those reached from the folder through
  folders that are admitted, none of them a link, each file within the size, the globs and the
  gitignore files above it; and it changes nothing.\<close>

theorem search_walk_refines:
  assumes "fy_faults w = []" and "names_distinct (fy_tree w)"
  shows "set (fst (files_under ext ex hid filt root w)) = {p. found_under ext ex hid filt root w p} \<and>
    sorted (fst (files_under ext ex hid filt root w)) \<and> distinct (fst (files_under ext ex hid filt root w)) \<and>
    snd (files_under ext ex hid filt root w) = w"
proof -
  obtain ps w' where run: "files_under ext ex hid filt root w = (ps, w')" by (cases "files_under ext ex hid filt root w")
  have "sorted ps" using run by (auto simp: files_under_def split: prod.splits)
  then show ?thesis using files_under_calm [OF assms(1), of ext ex hid filt root] files_under_lists [OF run assms(2)] run by simp
qed

text \<open>What is found lies below the folder and under no folder the walk never enters.\<close>

lemma found_below_admitted:
  "found_below ext ex hid filt root w dir es layers p \<Longrightarrow>
     \<exists>names. names \<noteq> [] \<and> p = dir @ names \<and> (\<forall>n \<in> set (butlast names). n \<notin> set WALK_EXCLUDE)"
proof (induction rule: found_below.induct)
  case (here name bytes m es layers dir)
  show ?case by (rule exI [of _ "[name]"]) simp
next
  case (below name sub es layers dir p)
  then obtain names where names: "names \<noteq> []" "p = (dir @ [name]) @ names" "\<forall>n \<in> set (butlast names). n \<notin> set WALK_EXCLUDE" by blast
  moreover have "name \<notin> set WALK_EXCLUDE" using below(2) by (simp add: descends_def dir_admitted_def)
  ultimately show ?case by (intro exI [of _ "name # names"]) auto
qed

section \<open>Searching\<close>

definition hits_in_lines :: "(string \<Rightarrow> (nat \<times> nat) list) \<Rightarrow> fpath \<Rightarrow> fpath \<Rightarrow> nat \<Rightarrow> string list \<Rightarrow> file_hit list" where
  "hits_in_lines spans_of root path i ls =
     concat (map (\<lambda>(k, line). map (\<lambda>s. hit_at root path k line (fst s)) (spans_of line)) (enumerate i ls))"

definition hits_in_file :: "(string \<Rightarrow> (nat \<times> nat) list) \<Rightarrow> fpath \<Rightarrow> fsys \<Rightarrow> fpath \<Rightarrow> file_hit list" where
  "hits_in_file spans_of root w path = (case look w path of
     Some (FFile b _) \<Rightarrow> (case readable_text b of
       Some content \<Rightarrow> hits_in_lines spans_of root path 0 (str_lines content) | None \<Rightarrow> [])
   | _ \<Rightarrow> [])"

lemma push_hits_spec:
  "length hits \<le> cap \<Longrightarrow> push_hits cap mk ss hits =
     (hits @ take (cap - length hits) (map (mk \<circ> fst) ss), cap - length hits < length ss)"
proof (induction ss arbitrary: hits)
  case (Cons s ss)
  show ?case
  proof (cases "cap \<le> length hits")
    case False
    then have c: "cap - length hits = Suc (cap - length (hits @ [mk (fst s)]))" by simp
    from Cons.IH [of "hits @ [mk (fst s)]"] False show ?thesis unfolding c by simp
  qed simp
qed simp

lemma hits_of_lines_spec:
  "length hits \<le> cap \<Longrightarrow> hits_of_lines cap spans_of root path i ls hits =
     (hits @ take (cap - length hits) (hits_in_lines spans_of root path i ls),
      cap - length hits < length (hits_in_lines spans_of root path i ls))"
proof (induction ls arbitrary: i hits)
  case Nil
  then show ?case by (simp add: hits_in_lines_def)
next
  case (Cons line ls)
  let ?new = "map (\<lambda>s. hit_at root path i line (fst s)) (spans_of line)"
  have all: "hits_in_lines spans_of root path i (line # ls) = ?new @ hits_in_lines spans_of root path (i + 1) ls"
    by (simp add: hits_in_lines_def)
  have push: "push_hits cap (hit_at root path i line) (spans_of line) hits =
      (hits @ take (cap - length hits) ?new, cap - length hits < length ?new)"
    using push_hits_spec [OF Cons.prems, of "hit_at root path i line"] by (simp add: comp_def)
  show ?case
  proof (cases "cap - length hits < length ?new")
    case True
    then show ?thesis unfolding hits_of_lines.simps push all by simp
  next
    case False
    then have fits: "length (hits @ ?new) \<le> cap" and all_new: "take (cap - length hits) ?new = ?new"
      using Cons.prems by simp_all
    have "cap - length (hits @ ?new) = cap - length hits - length ?new" by simp
    with Cons.IH [OF fits, of "i + 1"] False all_new show ?thesis
      unfolding hits_of_lines.simps push all by auto
  qed
qed

lemma read_calm: "fy_faults w = [] \<Longrightarrow> sys_read p w = (case look w p of Some (FFile b _) \<Rightarrow> Some b | _ \<Rightarrow> None, w)"
  unfolding sys_read_def by (simp only: calm_fault prod.case option.case) (simp split: option.split ftree.split)

lemma grep_files_spec:
  "grep_files cap spans_of root ps res w = (res', w') \<Longrightarrow> fy_faults w = [] \<Longrightarrow> length (sr_hits res) \<le> cap \<Longrightarrow>
     (let hits = concat (map (hits_in_file spans_of root w) ps) in
      w' = w \<and> sr_hits res' = sr_hits res @ take (cap - length (sr_hits res)) hits \<and>
      (sr_truncated res \<longrightarrow> sr_truncated res') \<and>
      (\<not> sr_truncated res' \<longrightarrow> length hits \<le> cap - length (sr_hits res)) \<and>
      (sr_truncated res' \<and> \<not> sr_truncated res \<longrightarrow> length (sr_hits res') = cap))"
proof (induction ps arbitrary: res)
  case Nil
  then show ?case by simp
next
  case (Cons p ps)
  show ?case
  proof (cases "cap \<le> length (sr_hits res)")
    case True
    with Cons.prems have "res' = res\<lparr>sr_truncated := True\<rparr>" "w' = w" by simp_all
    with True Cons.prems(3) show ?thesis by simp
  next
    case room: False
    note read = read_calm [OF Cons.prems(2), of p]
    show ?thesis
    proof (cases "\<exists>b m. look w p = Some (FFile b m) \<and> readable_text b \<noteq> None")
      case False
      have "grep_files cap spans_of root (p # ps) res w = grep_files cap spans_of root ps res w"
      proof (cases "\<exists>b m. look w p = Some (FFile b m)")
        case True
        with False obtain b m where "look w p = Some (FFile b m)" "readable_text b = None" by blast
        then show ?thesis using room by (simp add: read)
      next
        case False
        then have "sys_read p w = (None, w)" unfolding read by (auto split: option.splits ftree.splits)
        then show ?thesis using room by simp
      qed
      with Cons.prems(1) have "grep_files cap spans_of root ps res w = (res', w')" by simp
      moreover have "hits_in_file spans_of root w p = []"
        using False unfolding hits_in_file_def by (auto split: option.splits ftree.splits)
      ultimately show ?thesis using Cons.IH Cons.prems(2,3) by simp
    next
      case True
      then obtain b m where b: "look w p = Some (FFile b m)" "readable_text b = Some b" using readable_same by fastforce
      let ?here = "hits_in_lines spans_of root p 0 (str_lines b)"
      let ?k = "cap - length (sr_hits res)"
      have here: "hits_in_file spans_of root w p = ?here" using b by (simp add: hits_in_file_def)
      obtain res2 where res2: "sr_hits res2 = sr_hits res @ take ?k ?here" "sr_truncated res2 = (sr_truncated res \<or> ?k < length ?here)"
        "grep_files cap spans_of root ps res2 w = (res', w')"
        using Cons.prems(1) room
        by (simp add: read b hits_of_lines_spec [OF Cons.prems(3), of spans_of root p 0 "str_lines b"] del: One_nat_def)
          (rule that; simp)
      have room2: "length (sr_hits res2) \<le> cap" using res2(1) room by auto
      note IH = Cons.IH [OF res2(3) Cons.prems(2) room2, unfolded Let_def]
      have k2: "cap - length (sr_hits res2) = ?k - length ?here" using res2(1) by simp
      have "length (sr_hits res') = cap" if "sr_truncated res'" "\<not> sr_truncated res"
      proof (cases "?k < length ?here")
        case True
        with IH res2(1) room show ?thesis by simp
      next
        case False
        then have "\<not> sr_truncated res2" using that res2(2) by simp
        with IH that(1) show ?thesis by blast
      qed
      moreover have "sr_hits res' = sr_hits res @ take ?k (?here @ concat (map (hits_in_file spans_of root w) ps))"
        using IH res2(1) k2 by simp
      moreover have "length (?here @ concat (map (hits_in_file spans_of root w) ps)) \<le> ?k" if "\<not> sr_truncated res'"
        using IH that res2(2) k2 by auto
      moreover have "w' = w" "sr_truncated res \<longrightarrow> sr_truncated res'" using IH res2(2) by simp_all
      ultimately show ?thesis unfolding Let_def list.map concat.simps here by blast
    qed
  qed
qed

text \<open>A search that does not say it was cut short has missed nothing. When no call fails, a search
  reports at most as many hits as allowed, in the order of the files and of the lines, and all of
  them unless it says so; when it says so it reports as many as allowed. It changes nothing.\<close>

theorem search_cut_is_told:
  assumes run: "grep_folder ext root query opts cap rules w = (Inr res, w')"
    and conf: "search_setup ext query opts rules = Inr (filt, ex, n)"
    and query: "query \<noteq> []" and calm: "fy_faults w = []"
  defines "every \<equiv> concat (map (hits_in_file (find_all ext n) root w) (fst (files_under ext ex (go_include_hidden opts) filt root w)))"
  shows "w' = w \<and> sr_hits res = take cap every \<and> (\<not> sr_truncated res \<longrightarrow> sr_hits res = every) \<and>
    (sr_truncated res \<longrightarrow> length (sr_hits res) = cap)"
proof -
  obtain ps w1 where fu: "files_under ext ex (go_include_hidden opts) filt root w = (ps, w1)"
    by (cases "files_under ext ex (go_include_hidden opts) filt root w")
  then have w1: "w1 = w" using files_under_calm [OF calm, of ext ex "go_include_hidden opts" filt root] by simp
  have "grep_files cap (find_all ext n) root ps
      \<lparr>sr_hits = [], sr_files_matched = 0, sr_files_scanned = 0, sr_truncated = False\<rparr> w = (res, w')"
    using run query by (simp add: grep_folder_def conf fu w1 Let_def split: prod.splits)
  note g = grep_files_spec [OF this calm, unfolded Let_def]
  have all: "every = concat (map (hits_in_file (find_all ext n) root w) ps)" by (simp add: every_def fu)
  from g have hits: "w' = w" "sr_hits res = take cap every" "sr_truncated res \<longrightarrow> length (sr_hits res) = cap"
    unfolding all by (simp_all, (elim conjE, simp)?)
  moreover from g have "\<not> sr_truncated res \<longrightarrow> length every \<le> cap" by (simp add: all)
  ultimately show ?thesis by (metis take_all)
qed

section \<open>Refusals and failures\<close>

lemma check_stamps_fresh: "check_stamps w sts = None \<Longrightarrow> st \<in> set sts \<Longrightarrow> modified_now w (st_path st) = Some (st_modified st)"
  by (induction sts) (auto split: option.splits if_splits)

text \<open>A replacement planned on a preview that has gone stale writes nothing: when any stamped file
  has gone or carries another time of modification, the operation is refused before its first write
  and the disk is what it was, whatever else the plan says.\<close>

theorem stale_preview_writes_nothing:
  assumes run: "replace_all ext root query repl opts only plan rules w = (out, w')"
    and stale: "st \<in> set (plan_stamps plan)" "modified_now w (st_path st) \<noteq> Some (st_modified st)" and query: "query \<noteq> []"
  shows "w' = w \<and> (\<exists>e. out = Err e)"
proof -
  obtain e where "check_stamps w (plan_stamps plan) = Some e" using check_stamps_fresh [OF _ stale(1)] stale(2) by fastforce
  with run query show ?thesis by (cases "search_setup ext query opts rules") (auto simp: replace_all_def Let_def)
qed

text \<open>Whatever fails in a replacement is told. Whichever calls fail, only listed files change; and when
  the operation comes back with a result, every listed file it does not report as failed holds what
  it held or exactly what it was to hold, with the places the plan leaves alone left alone.\<close>

theorem replace_failures_told:
  assumes run: "replace_all ext root query repl opts only plan rules w = (out, w')"
    and conf: "search_setup ext query opts rules = Inr (filt, ex, n)" and names: "names_distinct (fy_tree w)"
  defines "ps \<equiv> fst (files_under ext ex (go_include_hidden opts) filt root w)"
  shows "only_changed (set ps) w w' \<and>
    (\<forall>res p. out = Ok res \<and> p \<in> set ps \<and> drop (length root) p \<notin> set (rr_failed res) \<longrightarrow>
       content_at w' p = content_at w p \<or>
       content_at w' p = Some (fst (new_content (find_all ext n) repl (plan_skip plan) only root p (the (content_at w p)))))"
proof -
  obtain w1 where fu: "files_under ext ex (go_include_hidden opts) filt root w = (ps, w1)"
    unfolding ps_def by (metis surjective_pairing)
  note listed = files_under_lists [OF fu names]
  show ?thesis
  proof (cases "query = [] \<or> check_stamps w (plan_stamps plan) \<noteq> None")
    case True
    with run conf have "w' = w" by (cases "query = []") (auto simp: replace_all_def Let_def)
    then show ?thesis by (simp add: only_changed_refl)
  next
    case False
    with run conf fu have loop: "replace_files (find_all ext n) repl (plan_skip plan) only root ps
        \<lparr>rr_files_changed = 0, rr_replacements = 0, rr_failed = []\<rparr> w1 = (out, w')"
      by (auto simp: replace_all_def Let_def)
    have same: "content_at w1 p = content_at w p" for p using listed by (simp add: content_at_def)
    have "distinct ps" "\<forall>p \<in> set ps. p \<noteq> [] \<and> (\<exists>b m. look w1 p = Some (FFile b m))" using listed by auto
    from replace_loop_safe [OF loop this] have safe: "only_changed (set ps) w1 w'"
      "\<forall>res. out = Ok res \<longrightarrow> (\<forall>p \<in> set ps. drop (length root) p \<notin> set (rr_failed res) \<longrightarrow>
          content_at w' p \<in> {content_at w1 p, Some (fst (new_content (find_all ext n) repl (plan_skip plan) only root p (the (content_at w1 p))))})"
      by blast+
    from safe(1) listed have "only_changed (set ps) w w'" by (simp add: only_changed_def)
    with safe(2) show ?thesis unfolding same by blast
  qed
qed

text \<open>A small folder to search.\<close>

abbreviation plain_ext :: match_ext where
  "plain_ext \<equiv> \<lparr>mx_lower = \<lambda>s. s, mx_regex = \<lambda>p i. None, mx_glob = \<lambda>g. None, mx_gitignore = \<lambda>b p d. NoMatch\<rparr>"

abbreviation plain_opts :: grep_options where
  "plain_opts \<equiv> \<lparr>go_case_sensitive = True, go_whole_word = False, go_regex = False, go_include_hidden = False,
     go_include = None, go_exclude = None\<rparr>"

abbreviation search_disk :: "fs_fault option list \<Rightarrow> fsys" where
  "search_disk faults \<equiv> \<lparr>fy_tree = FDir [(''d'', FDir [(''target'', FDir [(''x'', FFile ''b'' 4)]), (''n'', FFile ''ab'' 4), (''l'', FLink ''/d/n'')])],
     fy_faults = faults, fy_now = 9\<rparr>"

lemma demo_setup: "search_setup plain_ext ''b'' plain_opts \<lparr>wr_exclude = [], wr_respect_gitignore = True\<rparr> =
    Inr (\<lparr>pf_include = None, pf_exclude = None\<rparr>, \<lparr>xc_custom = [], xc_respect_gitignore = True\<rparr>, Plain ''b'' plain_opts)"
  by (simp add: search_setup_def filter_from_options_def compile_glob_def exclusions_compile_def needle_build_def)

lemma demo_files: "files_under plain_ext \<lparr>xc_custom = [], xc_respect_gitignore = True\<rparr> False \<lparr>pf_include = None, pf_exclude = None\<rparr> [''d'']
    (search_disk []) = ([[''d'', ''n'']], search_disk [])"
  by (simp add: files_under_def add_layer_for_def stat_def real_path_def sys_fault_def scan_folder.simps descends_def dir_admitted_def
      WALK_EXCLUDE_def counts_def name_hidden_def ignored_def MAX_FILE_BYTES_def filter_admits_def)

lemma demo_valid: "utf8_valid ''b'' \<and> utf8_valid ''ab''"
  by (simp add: utf8_valid_ascii)

lemma demo_readable: "readable_text ''ab'' = Some ''ab''"
  using demo_valid by (simp add: readable_text_def looks_binary_def)


lemma search_walk_refines_witness:
  "{p. found_under plain_ext \<lparr>xc_custom = [], xc_respect_gitignore = True\<rparr> False \<lparr>pf_include = None, pf_exclude = None\<rparr> [''d''] (search_disk []) p}
     = {[''d'', ''n'']}"
  using search_walk_refines [of "search_disk []" plain_ext "\<lparr>xc_custom = [], xc_respect_gitignore = True\<rparr>" False
    "\<lparr>pf_include = None, pf_exclude = None\<rparr>" "[''d'']"] by (simp add: demo_files)

lemma search_cut_is_told_witness:
  "\<exists>res. grep_folder plain_ext [''d''] ''b'' plain_opts 5 \<lparr>wr_exclude = [], wr_respect_gitignore = True\<rparr> (search_disk []) = (Inr res, search_disk []) \<and>
     length (sr_hits res) \<le> 5"
proof -
  obtain res where run: "grep_folder plain_ext [''d''] ''b'' plain_opts 5 \<lparr>wr_exclude = [], wr_respect_gitignore = True\<rparr> (search_disk []) =
      (Inr res, snd (grep_folder plain_ext [''d''] ''b'' plain_opts 5 \<lparr>wr_exclude = [], wr_respect_gitignore = True\<rparr> (search_disk [])))"
    by (simp add: grep_folder_def demo_setup demo_files Let_def split_beta del: grep_files.simps)
  from search_cut_is_told [OF run demo_setup] show ?thesis using run by simp
qed

lemma stale_preview_writes_nothing_witness:
  "snd (replace_all plain_ext [''d''] ''b'' ''cd'' plain_opts None
     (Some \<lparr>rp_stamps = Some [\<lparr>st_path = [''d'', ''n''], st_modified = Some 3\<rparr>], rp_skip = None\<rparr>)
     \<lparr>wr_exclude = [], wr_respect_gitignore = True\<rparr> (search_disk [])) = search_disk []"
proof -
  let ?plan = "Some \<lparr>rp_stamps = Some [\<lparr>st_path = [''d'', ''n''], st_modified = Some 3\<rparr>], rp_skip = None\<rparr>"
  obtain r w' where run: "replace_all plain_ext [''d''] ''b'' ''cd'' plain_opts None ?plan
      \<lparr>wr_exclude = [], wr_respect_gitignore = True\<rparr> (search_disk []) = (r, w')" by (metis surj_pair)
  from stale_preview_writes_nothing [OF run, of "\<lparr>st_path = [''d'', ''n''], st_modified = Some 3\<rparr>"] run show ?thesis
    by (simp add: plan_stamps_def modified_now_def stat_def real_path_def)
qed

lemma replace_failures_told_witness:
  "only_changed {[''d'', ''n'']} (search_disk [])
     (snd (replace_all plain_ext [''d''] ''b'' ''cd'' plain_opts None None \<lparr>wr_exclude = [], wr_respect_gitignore = True\<rparr> (search_disk [])))"
proof -
  obtain r w' where run: "replace_all plain_ext [''d''] ''b'' ''cd'' plain_opts None None
      \<lparr>wr_exclude = [], wr_respect_gitignore = True\<rparr> (search_disk []) = (r, w')" by (metis surj_pair)
  from replace_failures_told [OF run demo_setup] run show ?thesis by (simp add: demo_files)
qed

section \<open>What falls short\<close>

text \<open>Lowering a line can change its length; the offsets found in the lowered line are then used on the
  line as it is, and a slice inside a character panics: the Kelvin sign becomes a k.\<close>

lemma lowered_offsets_panic:
  assumes "mx_lower ext [CHR 0xE2, CHR 0x84, CHR 0xAA, CHR ''x''] = ''kx''" and "mx_lower ext ''x'' = ''x''"
    and "\<not> go_case_sensitive opts" "\<not> go_whole_word opts"
  shows "rebuild_text (find_all ext (Plain ''x'' opts)) ''y'' (\<lambda>_ _. False) [CHR 0xE2, CHR 0x84, CHR 0xAA, CHR ''x''] = None"
  using assms by (simp add: rebuild_text_def find_all_def plain_matches.simps str_lines_def strip_line_ending_def
      line_slice_def is_char_boundary_def is_cont_def Let_def)

text \<open>A file with carriage returns loses them on every line when one place of it is replaced.\<close>

lemma crlf_lost:
  "rebuild_text (\<lambda>l. plain_matches ''b'' False l 0) ''c'' (\<lambda>_ _. False) [CHR ''a'', cr, nl, CHR ''b'', cr, nl] =
     Some ([CHR ''a'', nl, CHR ''c'', nl], 1)"
  by (simp add: rebuild_text_def plain_matches.simps str_lines_def strip_line_ending_def line_slice_def is_char_boundary_def Let_def)

text \<open>The preview numbers the columns one way and the replacement the other: the place unchecked in the
  preview, column 6 of the line, is replaced all the same.\<close>

definition accented :: string where
  "accented = [CHR 0xC3, CHR 0xA9, CHR 0xC3, CHR 0xA9, CHR 0xC3, CHR 0xA9, CHR '' '', CHR ''x'']"

lemma unchecked_site_replaced:
  "map ps_col (sites_of_text (\<lambda>l. plain_matches ''x'' False l 0) ''y'' accented) = [6]"
  "rebuild_text (\<lambda>l. plain_matches ''x'' False l 0) ''y'' (skipped_at [\<lparr>sk_rel = rel, sk_line = 1, sk_col = 6\<rparr>] rel) accented =
     Some (butlast accented @ ''y'', 1)"
  by (simp_all add: accented_def sites_of_text_def sites_of_line_def rebuild_text_def plain_matches.simps str_lines_def strip_line_ending_def
      line_slice_def is_char_boundary_def is_cont_def chars_upto_def skipped_at_def Let_def)

text \<open>A whole word that overlaps an occurrence that is none is not found.\<close>

lemma whole_word_missed:
  "plain_matches ''x.x'' True ''ax.x.x'' 0 = [] \<and> take 3 (drop 3 ''ax.x.x'') = ''x.x'' \<and> is_whole_word ''ax.x.x'' 3 6"
  by (simp add: plain_matches.simps is_whole_word_def is_word_byte_def Let_def)

text \<open>The write is not the atomic one of a save: cut off in the middle it leaves a torn file.\<close>

lemma replace_tears_file:
  "content_at (snd (sys_write [''d'', ''n''] ''acd'' (search_disk [Some (FsCut 1)]))) [''d'', ''n''] = Some ''a''"
  by (simp add: sys_write_def sys_fault_def fs_is_dir_def put_tree_def content_at_def)

end
