(* ===== verification/Scripts_Match.thy ===== *)
theory Scripts_Match
  imports Rust_Str
begin

text \<open>
  Userscript headers and the addresses they name (\<open>src-tauri/src/userscripts.rs\<close>, first half): the
  metadata parser, match patterns, globs and the verdict over a page's address. The URL parser and
  the regular expressions are crates of their own and parameters.
\<close>

section \<open>Globs\<close>

text \<open>A text is the list of its characters. \<open>star\<close> is the last star met, none before the first.\<close>

definition CH_STAR :: string where "CH_STAR = ''*''"
definition CH_ANY :: string where "CH_ANY = ''?''"

function glob_loop :: "string list \<Rightarrow> string list \<Rightarrow> nat \<Rightarrow> nat \<Rightarrow> nat option \<Rightarrow> nat \<Rightarrow> bool" where
  "glob_loop p t pi ti star mark =
     (if ti < length t
      then if pi < length p \<and> (p ! pi = t ! ti \<or> p ! pi = CH_ANY) then glob_loop p t (pi + 1) (ti + 1) star mark
      else if pi < length p \<and> p ! pi = CH_STAR then glob_loop p t (pi + 1) ti (Some pi) ti
      else (case star of
          Some s \<Rightarrow> glob_loop p t (s + 1) (mark + 1) star (mark + 1)
        | None \<Rightarrow> False)
      else dropWhile (\<lambda>c. c = CH_STAR) (drop pi p) = [])"
  by pat_completeness auto

text \<open>Before the first step back the mark may lie anywhere; from then on it never passes the position.\<close>

termination
  by (relation "measures [\<lambda>(p, t, pi, ti, star, mark). if ti < mark then 1 else 0,
    \<lambda>(p, t, pi, ti, star, mark). length t - mark, \<lambda>(p, t, pi, ti, star, mark). length p - pi]") auto

declare glob_loop.simps [simp del]

definition glob_match :: "string \<Rightarrow> string \<Rightarrow> bool" where
  "glob_match pattern s = glob_loop (rchars pattern) (rchars s) 0 0 None 0"

section \<open>Match patterns\<close>

text \<open>\<open>split_once\<close> with a text and with white space, \<open>strip_prefix\<close> and \<open>strip_suffix\<close>.\<close>

definition split_once :: "string \<Rightarrow> string \<Rightarrow> (string \<times> string) option" where
  "split_once sep s = map_option (\<lambda>n. (take n s, drop (n + length sep) s)) (str_find sep s)"

definition split_once_white :: "string \<Rightarrow> (string \<times> string) option" where
  "split_once_white s =
     (let cs = rchars s; head = takeWhile (\<lambda>c. \<not> is_white c) cs; rest = dropWhile (\<lambda>c. \<not> is_white c) cs in
      if rest = [] then None else Some (concat head, concat (tl rest)))"

definition strip_pre :: "string \<Rightarrow> string \<Rightarrow> string option" where
  "strip_pre p s = (if prefix p s then Some (drop (length p) s) else None)"

definition strip_suf :: "string \<Rightarrow> string \<Rightarrow> string option" where
  "strip_suf p s = (if suffix p s then Some (take (length s - length p) s) else None)"

record match_pattern =
  mp_scheme :: string
  mp_host :: string
  mp_path :: string

datatype pattern_error = NoScheme | BadScheme string | NoPath | EmptyHost | BadWildcard

definition parse_match_pattern :: "string \<Rightarrow> pattern_error + match_pattern" where
  "parse_match_pattern pattern = (case split_once ''://'' pattern of
     None \<Rightarrow> Inl NoScheme
   | Some (scheme, rest) \<Rightarrow>
       (if scheme \<notin> {''*'', ''http'', ''https''} then Inl (BadScheme scheme)
        else case str_find ''/'' rest of
          None \<Rightarrow> Inl NoPath
        | Some i \<Rightarrow>
            (let host = take i rest; path = drop i rest in
             if host = [] then Inl EmptyHost
             else if CHR ''*'' \<in> set host \<and> host \<noteq> ''*'' \<and> \<not> prefix ''*.'' host then Inl BadWildcard
             else Inr \<lparr>mp_scheme = scheme, mp_host = host, mp_path = path\<rparr>)))"

text \<open>An address as its parser presents it; the port is none when it is the scheme's own.\<close>

record page_url =
  ur_scheme :: string
  ur_host :: "string option"
  ur_port :: "nat option"
  ur_path :: string
  ur_query :: "string option"

definition host_matches :: "string \<Rightarrow> string \<Rightarrow> string \<Rightarrow> bool" where
  "host_matches pat host authority \<longleftrightarrow>
     (if pat = ''*'' then True
      else if prefix ''*.'' pat then host = drop 2 pat \<or> suffix (''.'' @ drop 2 pat) host
      else if CHR '':'' \<in> set pat then pat = authority
      else host = pat)"

definition pattern_matches :: "string \<Rightarrow> page_url \<Rightarrow> bool" where
  "pattern_matches pattern url = (case parse_match_pattern pattern of
     Inl _ \<Rightarrow> False
   | Inr p \<Rightarrow>
       (let scheme_ok = (if mp_scheme p = ''*'' then ur_scheme url \<in> {''http'', ''https''} else ur_scheme url = mp_scheme p);
            host = (case ur_host url of Some h \<Rightarrow> h | None \<Rightarrow> []);
            authority = (case ur_port url of Some port \<Rightarrow> host @ '':'' @ show_nat port | None \<Rightarrow> host);
            path = ur_path url @ (case ur_query url of Some q \<Rightarrow> ''?'' @ q | None \<Rightarrow> [])
        in if \<not> scheme_ok then False
           else if \<not> host_matches (mp_host p) host authority then False
           else glob_match (mp_path p) path))"

text \<open>A rule between slashes is a regular expression, which may not compile; any other a glob.\<close>

definition regex_rule :: "string \<Rightarrow> string option" where
  "regex_rule rule = (case strip_pre ''/'' rule of
     None \<Rightarrow> None
   | Some s \<Rightarrow> (case strip_suf ''/'' s of None \<Rightarrow> None | Some re \<Rightarrow> if 2 < length rule then Some re else None))"

definition include_rule_matches :: "(string \<Rightarrow> (string \<Rightarrow> bool) option) \<Rightarrow> string \<Rightarrow> string \<Rightarrow> bool" where
  "include_rule_matches rx rule url = (case regex_rule rule of
     Some re \<Rightarrow> (case rx re of Some m \<Rightarrow> m url | None \<Rightarrow> False)
   | None \<Rightarrow> glob_match rule url)"

record script_meta =
  sm_name :: string
  sm_version :: string
  sm_matches :: "string list"
  sm_includes :: "string list"
  sm_excludes :: "string list"
  sm_run_at :: string
  sm_grants :: "string list"
  sm_update_url :: "string option"

record url_ext =
  ux_parse :: "string \<Rightarrow> page_url option"
  ux_regex :: "string \<Rightarrow> (string \<Rightarrow> bool) option"

definition url_matches :: "url_ext \<Rightarrow> script_meta \<Rightarrow> string \<Rightarrow> bool" where
  "url_matches ux meta url = (case ux_parse ux url of
     None \<Rightarrow> False
   | Some parsed \<Rightarrow>
       (if list_ex (\<lambda>r. include_rule_matches (ux_regex ux) r url) (sm_excludes meta) then False
        else list_ex (\<lambda>p. pattern_matches p parsed) (sm_matches meta)
          \<or> list_ex (\<lambda>r. include_rule_matches (ux_regex ux) r url) (sm_includes meta)))"

section \<open>The header\<close>

record header_state =
  hs_meta :: script_meta
  hs_in :: bool
  hs_open :: bool
  hs_close :: bool

definition blank_meta :: script_meta where
  "blank_meta = \<lparr>sm_name = [], sm_version = [], sm_matches = [], sm_includes = [], sm_excludes = [], sm_run_at = [],
     sm_grants = [], sm_update_url = None\<rparr>"

definition header_start :: header_state where
  "header_start = \<lparr>hs_meta = blank_meta, hs_in = False, hs_open = False, hs_close = False\<rparr>"

text \<open>One directive.\<close>

definition apply_directive :: "string \<Rightarrow> string \<Rightarrow> script_meta \<Rightarrow> script_meta" where
  "apply_directive key value m =
     (if key = ''name'' then m\<lparr>sm_name := value\<rparr>
      else if key = ''version'' then m\<lparr>sm_version := value\<rparr>
      else if key = ''match'' then m\<lparr>sm_matches := sm_matches m @ [value]\<rparr>
      else if key = ''include'' then m\<lparr>sm_includes := sm_includes m @ [value]\<rparr>
      else if key = ''exclude'' then m\<lparr>sm_excludes := sm_excludes m @ [value]\<rparr>
      else if key = ''run-at'' then m\<lparr>sm_run_at := value\<rparr>
      else if key = ''grant'' then (if value \<noteq> [] \<and> value \<noteq> ''none'' then m\<lparr>sm_grants := sm_grants m @ [value]\<rparr> else m)
      else if key = ''updateURL'' then m\<lparr>sm_update_url := Some value\<rparr>
      else m)"

definition header_line :: "header_state \<Rightarrow> string \<Rightarrow> header_state" where
  "header_line st raw = (case strip_pre ''//'' (trim raw) of
     None \<Rightarrow> st
   | Some rest0 \<Rightarrow>
       (let rest = trim rest0 in
        if rest = ''==UserScript=='' then st\<lparr>hs_open := True, hs_in := True\<rparr>
        else if rest = ''==/UserScript=='' then st\<lparr>hs_close := hs_close st \<or> hs_in st, hs_in := False\<rparr>
        else if \<not> hs_in st then st
        else case strip_pre ''@'' rest of
          None \<Rightarrow> st
        | Some directive \<Rightarrow>
            (let (key, value) = (case split_once_white directive of
                Some (k, v) \<Rightarrow> (k, trim v) | None \<Rightarrow> (directive, []))
             in st\<lparr>hs_meta := apply_directive key value (hs_meta st)\<rparr>)))"

datatype header_error =
    NoHeader | NoName | NoMatch | BadRunAt string | BadMatch string pattern_error | BadRegex string

fun check_patterns :: "string list \<Rightarrow> header_error option" where
  "check_patterns [] = None"
| "check_patterns (p # ps) = (case parse_match_pattern p of Inl e \<Rightarrow> Some (BadMatch p e) | Inr _ \<Rightarrow> check_patterns ps)"

fun check_regexes :: "(string \<Rightarrow> (string \<Rightarrow> bool) option) \<Rightarrow> string list \<Rightarrow> header_error option" where
  "check_regexes rx [] = None"
| "check_regexes rx (r # rs) = (case regex_rule r of
     Some re \<Rightarrow> (case rx re of None \<Rightarrow> Some (BadRegex r) | Some _ \<Rightarrow> check_regexes rx rs)
   | None \<Rightarrow> check_regexes rx rs)"

definition parse_metadata :: "url_ext \<Rightarrow> string \<Rightarrow> header_error + script_meta" where
  "parse_metadata ux source =
     (let st = foldl header_line header_start (str_lines source); m = hs_meta st in
      if \<not> hs_open st \<or> \<not> hs_close st then Inl NoHeader
      else if sm_name m = [] then Inl NoName
      else if sm_matches m = [] \<and> sm_includes m = [] then Inl NoMatch
      else
        let version = (if sm_version m = [] then ''0'' else sm_version m);
            run_at = (if sm_run_at m = [] then ''document-end'' else sm_run_at m) in
        if run_at \<notin> {''document-start'', ''document-end'', ''document-idle''} then Inl (BadRunAt run_at)
        else case check_patterns (sm_matches m) of
          Some e \<Rightarrow> Inl e
        | None \<Rightarrow> (case check_regexes (ux_regex ux) (sm_matches m @ sm_includes m @ sm_excludes m) of
            Some e \<Rightarrow> Inl e
          | None \<Rightarrow> Inr (m\<lparr>sm_version := version, sm_run_at := run_at\<rparr>)))"

section \<open>What a script may do\<close>

record caps =
  cp_get :: bool
  cp_set :: bool
  cp_del :: bool
  cp_list :: bool
  cp_style :: bool
  cp_menu :: bool
  cp_xhr :: bool

definition has_grant :: "string list \<Rightarrow> string \<Rightarrow> string \<Rightarrow> bool" where
  "has_grant grants a b = list_ex (\<lambda>g. g = a \<or> g = b) grants"

definition caps_of :: "string list \<Rightarrow> caps" where
  "caps_of grants =
     \<lparr>cp_get = has_grant grants ''GM_getValue'' ''GM.getValue'',
      cp_set = has_grant grants ''GM_setValue'' ''GM.setValue'',
      cp_del = has_grant grants ''GM_deleteValue'' ''GM.deleteValue'',
      cp_list = has_grant grants ''GM_listValues'' ''GM.listValues'',
      cp_style = has_grant grants ''GM_addStyle'' ''GM.addStyle'',
      cp_menu = has_grant grants ''GM_registerMenuCommand'' ''GM.registerMenuCommand'',
      cp_xhr = has_grant grants ''GM_xmlhttpRequest'' ''GM.xmlHttpRequest''\<rparr>"

type_synonym grant_table = "string \<rightharpoonup> string list"

definition grant_decision :: "grant_table \<Rightarrow> string \<Rightarrow> string \<Rightarrow> bool" where
  "grant_decision tab script_id host \<longleftrightarrow> (case tab script_id of None \<Rightarrow> False | Some hosts \<Rightarrow> list_ex (\<lambda>h. h = host) hosts)"

definition values_scope :: "string \<Rightarrow> string" where
  "values_scope script_id = ''usv-'' @ script_id"


section \<open>What a glob means\<close>

inductive globs :: "string list \<Rightarrow> string list \<Rightarrow> bool" where
  nothing: "globs [] []"
| one: "c \<noteq> CH_STAR \<Longrightarrow> c = x \<or> c = CH_ANY \<Longrightarrow> globs p t \<Longrightarrow> globs (c # p) (x # t)"
| many: "globs p t \<Longrightarrow> globs (CH_STAR # p) (s @ t)"

inductive_simps globs_empty: "globs [] t"
inductive_cases globs_star: "globs (CH_STAR # p) t"
inductive_cases globs_cons: "globs (c # p) t"

lemma globs_star_iff: "globs (CH_STAR # p) t \<longleftrightarrow> (\<exists>k \<le> length t. globs p (drop k t))"
proof
  assume "globs (CH_STAR # p) t"
  then obtain s r where "t = s @ r" "globs p r" by (auto elim: globs_star)
  then show "\<exists>k \<le> length t. globs p (drop k t)" by (intro exI [of _ "length s"]) simp
next
  assume "\<exists>k \<le> length t. globs p (drop k t)"
  then obtain k where "globs p (drop k t)" by blast
  from globs.many [OF this, of "take k t"] show "globs (CH_STAR # p) t" by simp
qed

lemma globs_char_iff: "c \<noteq> CH_STAR \<Longrightarrow> globs (c # p) t \<longleftrightarrow> (\<exists>x r. t = x # r \<and> (c = x \<or> c = CH_ANY) \<and> globs p r)"
  by (auto elim: globs_cons intro: globs.one)

lemma globs_nil_iff: "globs p [] \<longleftrightarrow> dropWhile (\<lambda>c. c = CH_STAR) p = []"
proof (induction p)
  case (Cons c p)
  then show ?case by (cases "c = CH_STAR") (simp_all add: globs_star_iff globs_char_iff)
qed (simp add: globs.nothing)

text \<open>A run without a star takes as many characters as it has.\<close>

lemma globs_segment:
  "j \<le> i \<Longrightarrow> i \<le> length p \<Longrightarrow> k \<le> length t \<Longrightarrow> \<forall>n. j \<le> n \<and> n < i \<longrightarrow> p ! n \<noteq> CH_STAR \<Longrightarrow> globs (drop j p) (drop k t) \<Longrightarrow>
     k + (i - j) \<le> length t \<and> globs (drop i p) (drop (k + (i - j)) t)"
proof (induction "i - j" arbitrary: j k)
  case (Suc d)
  then have j: "j < i" "drop j p = p ! j # drop (Suc j) p" by (simp_all add: Cons_nth_drop_Suc)
  with Suc.prems obtain x r where x: "drop k t = x # r" "globs (drop (Suc j) p) r" by (auto simp: globs_char_iff)
  have k: "k < length t" using x(1) by (cases "k < length t") simp_all
  then have "drop k t = t ! k # drop (Suc k) t" by (simp add: Cons_nth_drop_Suc)
  with x(1) have "r = drop (Suc k) t" by simp
  note k = k this
  have eq: "k + (i - j) = Suc k + (i - Suc j)" using j(1) by simp
  have "d = i - Suc j" using Suc.hyps(2) by simp
  from Suc.hyps(1) [OF this, of "Suc k"] Suc.prems j k x(2) show ?case unfolding eq by auto
qed simp

definition glob_spec :: "string list \<Rightarrow> string list \<Rightarrow> nat \<Rightarrow> nat \<Rightarrow> nat option \<Rightarrow> nat \<Rightarrow> bool" where
  "glob_spec p t pi ti star mark \<longleftrightarrow> globs (drop pi p) (drop ti t) \<or>
     (\<exists>s k. star = Some s \<and> mark < k \<and> k \<le> length t \<and> globs (drop (s + 1) p) (drop k t))"

definition glob_inv :: "string list \<Rightarrow> string list \<Rightarrow> nat \<Rightarrow> nat \<Rightarrow> nat option \<Rightarrow> nat \<Rightarrow> bool" where
  "glob_inv p t pi ti star mark \<longleftrightarrow> pi \<le> length p \<and> ti \<le> length t \<and> CH_STAR \<notin> set t \<and>
     (\<forall>s. star = Some s \<longrightarrow> s < pi \<and> p ! s = CH_STAR \<and> mark \<le> ti \<and> ti - mark = pi - (s + 1) \<and>
        (\<forall>n. s + 1 \<le> n \<and> n < pi \<longrightarrow> p ! n \<noteq> CH_STAR))"

text \<open>What the last star could still take in is within reach of where the scan stands.\<close>

lemma star_within:
  assumes inv: "glob_inv p t pi ti (Some s) mark" and k: "mark < k" "k \<le> length t" and g: "globs (drop (s + 1) p) (drop k t)"
  shows "ti < length t \<and> (\<exists>k' > ti. k' \<le> length t \<and> globs (drop pi p) (drop k' t))"
proof -
  from inv have i: "s + 1 \<le> pi" "pi \<le> length p" "\<forall>n. s + 1 \<le> n \<and> n < pi \<longrightarrow> p ! n \<noteq> CH_STAR" "mark \<le> ti" "ti - mark = pi - (s + 1)"
    by (auto simp: glob_inv_def)
  from globs_segment [OF i(1,2) k(2) i(3) g] i(4,5) k(1) show ?thesis by (intro conjI exI [of _ "k + (pi - (s + 1))"]) auto
qed

lemma glob_loop_spec: "glob_inv p t pi ti star mark \<Longrightarrow> glob_loop p t pi ti star mark \<longleftrightarrow> glob_spec p t pi ti star mark"
proof (induction p t pi ti star mark rule: glob_loop.induct)
  case (1 p t pi ti star mark)
  note inv = 1(4)
  show ?case
  proof (cases "ti < length t")
    case False
    with inv have ti: "ti = length t" by (simp add: glob_inv_def)
    have "\<not> (\<exists>s k. star = Some s \<and> mark < k \<and> k \<le> length t \<and> globs (drop (s + 1) p) (drop k t))"
      using star_within inv ti by (metis less_irrefl)
    then have "glob_spec p t pi ti star mark \<longleftrightarrow> globs (drop pi p) []" unfolding glob_spec_def by (auto simp: ti)
    with ti show ?thesis by (subst glob_loop.simps) (simp add: globs_nil_iff)
  next
    case ti: True
    then have t: "drop ti t = t ! ti # drop (ti + 1) t" by (simp add: Cons_nth_drop_Suc)
    from ti inv have no_star: "t ! ti \<noteq> CH_STAR" by (auto simp: glob_inv_def dest: nth_mem)
    show ?thesis
    proof (cases "pi < length p \<and> (p ! pi = t ! ti \<or> p ! pi = CH_ANY)")
      case True
      then have p: "drop pi p = p ! pi # drop (pi + 1) p" by (simp add: Cons_nth_drop_Suc)
      have c: "p ! pi \<noteq> CH_STAR" using True no_star by (auto simp: CH_STAR_def CH_ANY_def)
      have "glob_inv p t (pi + 1) (ti + 1) star mark"
        using inv True ti c by (auto simp: glob_inv_def Suc_diff_le less_Suc_eq)
      from 1(1) [OF ti True this] have "glob_loop p t pi ti star mark \<longleftrightarrow> glob_spec p t (pi + 1) (ti + 1) star mark"
        using ti True by (subst glob_loop.simps) simp
      moreover have "globs (drop pi p) (drop ti t) \<longleftrightarrow> globs (drop (pi + 1) p) (drop (ti + 1) t)"
        unfolding p t using c True by (simp add: globs_char_iff)
      ultimately show ?thesis by (simp add: glob_spec_def)
    next
      case no_char: False
      show ?thesis
      proof (cases "pi < length p \<and> p ! pi = CH_STAR")
        case True
        then have p: "drop pi p = CH_STAR # drop (pi + 1) p" by (metis Cons_nth_drop_Suc Suc_eq_plus1)
        have "glob_inv p t (pi + 1) ti (Some pi) ti" using inv True by (auto simp: glob_inv_def)
        from 1(2) [OF ti no_char True this] have "glob_loop p t pi ti star mark \<longleftrightarrow> glob_spec p t (pi + 1) ti (Some pi) ti"
          using ti no_char True by (subst glob_loop.simps) simp
        also have "\<dots> \<longleftrightarrow> globs (drop pi p) (drop ti t)"
        proof
          assume "glob_spec p t (pi + 1) ti (Some pi) ti"
          then obtain k where k: "ti \<le> k" "k \<le> length t" "globs (drop (pi + 1) p) (drop k t)"
            using ti by (auto simp: glob_spec_def intro: less_imp_le)
          then show "globs (drop pi p) (drop ti t)" unfolding p globs_star_iff
            by (intro exI [of _ "k - ti"]) simp
        next
          assume "globs (drop pi p) (drop ti t)"
          then obtain k where k: "k \<le> length t - ti" "globs (drop (pi + 1) p) (drop (ti + k) t)"
            unfolding p globs_star_iff by (auto simp: add.commute)
          then show "glob_spec p t (pi + 1) ti (Some pi) ti"
            using ti by (cases "k = 0") (auto simp: glob_spec_def intro!: exI [of _ "ti + k"])
        qed
        also have "\<dots> \<longleftrightarrow> glob_spec p t pi ti star mark"
        proof -
          have "globs (drop pi p) (drop ti t)"
            if "star = Some s" "mark < k" "k \<le> length t" "globs (drop (s + 1) p) (drop k t)" for s k
          proof -
            from star_within [of p t pi ti s mark k] inv that obtain k' where "ti < k'" "k' \<le> length t" "globs (drop pi p) (drop k' t)" by auto
            then obtain j where "j \<le> length t - k'" "globs (drop (pi + 1) p) (drop (k' + j) t)"
              unfolding p globs_star_iff by (auto simp: add.commute)
            with \<open>ti < k'\<close> \<open>k' \<le> length t\<close> show ?thesis unfolding p globs_star_iff by (intro exI [of _ "k' - ti + j"]) auto
          qed
          then show ?thesis by (auto simp: glob_spec_def)
        qed
        finally show ?thesis .
      next
        case no_star_here: False
        have here: "\<not> globs (drop pi p) (drop ti t)"
        proof (cases "pi < length p")
          case True
          then have p: "drop pi p = p ! pi # drop (pi + 1) p" by (simp add: Cons_nth_drop_Suc)
          have "p ! pi \<noteq> CH_STAR" using True no_star_here by simp
          with no_char True show ?thesis unfolding p t by (auto simp: globs_char_iff)
        next
          case False
          then show ?thesis unfolding t by (simp add: globs_empty)
        qed
        show ?thesis
        proof (cases star)
          case None
          with here ti no_char no_star_here show ?thesis by (subst glob_loop.simps) (auto simp: glob_spec_def)
        next
          case (Some s)
          from inv Some ti have "glob_inv p t (s + 1) (mark + 1) star (mark + 1)" by (auto simp: glob_inv_def)
          from 1(3) [OF ti no_char no_star_here Some this]
          have "glob_loop p t pi ti star mark \<longleftrightarrow> glob_spec p t (s + 1) (mark + 1) star (mark + 1)"
            using ti no_char no_star_here Some by (subst glob_loop.simps) auto
          also have "\<dots> \<longleftrightarrow> (\<exists>k > mark. k \<le> length t \<and> globs (drop (s + 1) p) (drop k t))"
          proof -
            have "mark + 1 \<le> length t" using inv Some ti by (auto simp: glob_inv_def)
            then show ?thesis using Some by (auto simp: glob_spec_def intro: Suc_lessD) (metis Suc_lessI)
          qed
          finally show ?thesis using here Some by (auto simp: glob_spec_def)
        qed
      qed
    qed
  qed
qed

text \<open>C28: The loop with one step back decides globs. On an address without a literal star, matching
  with a single remembered star agrees with the meaning of the pattern: a star takes any run of
  characters, a question mark any one, every other character itself. The loop always ends.\<close>

theorem glob_match_is_globs: "CHR ''*'' \<notin> set s \<Longrightarrow> glob_match pattern s \<longleftrightarrow> globs (rchars pattern) (rchars s)"
proof -
  assume "CHR ''*'' \<notin> set s"
  then have "CHR ''*'' \<notin> set (concat (rchars s))" by simp
  then have "CH_STAR \<notin> set (rchars s)" unfolding CH_STAR_def set_concat by (metis UN_I list.set_intros(1))
  then have "glob_inv (rchars pattern) (rchars s) 0 0 None 0" by (simp add: glob_inv_def)
  from glob_loop_spec [OF this] show ?thesis by (simp add: glob_match_def glob_spec_def)
qed

section \<open>What an accepted header promises\<close>

lemma check_patterns_None: "check_patterns ps = None \<Longrightarrow> \<forall>p \<in> set ps. \<exists>mp. parse_match_pattern p = Inr mp"
  by (induction ps) (auto split: sum.splits)

lemma check_regexes_None: "check_regexes rx rs = None \<Longrightarrow> r \<in> set rs \<Longrightarrow> regex_rule r = Some re \<Longrightarrow> rx re \<noteq> None"
  by (induction rs) (auto split: option.splits)

lemma accepted_header:
  assumes "parse_metadata ux source = Inr m"
  shows "sm_name m \<noteq> [] \<and> (sm_matches m \<noteq> [] \<or> sm_includes m \<noteq> []) \<and> sm_version m \<noteq> [] \<and>
    sm_run_at m \<in> {''document-start'', ''document-end'', ''document-idle''} \<and>
    (\<forall>p \<in> set (sm_matches m). \<exists>mp. parse_match_pattern p = Inr mp) \<and>
    (\<forall>r \<in> set (sm_matches m @ sm_includes m @ sm_excludes m). \<forall>re. regex_rule r = Some re \<longrightarrow> ux_regex ux re \<noteq> None)"
proof -
  define m0 where "m0 = hs_meta (foldl header_line header_start (str_lines source))"
  from assms have m: "m = m0\<lparr>sm_version := if sm_version m0 = [] then ''0'' else sm_version m0,
      sm_run_at := if sm_run_at m0 = [] then ''document-end'' else sm_run_at m0\<rparr>"
    and ok: "sm_name m0 \<noteq> []" "sm_matches m0 \<noteq> [] \<or> sm_includes m0 \<noteq> []"
      "(if sm_run_at m0 = [] then ''document-end'' else sm_run_at m0) \<in> {''document-start'', ''document-end'', ''document-idle''}"
      "check_patterns (sm_matches m0) = None" "check_regexes (ux_regex ux) (sm_matches m0 @ sm_includes m0 @ sm_excludes m0) = None"
    unfolding parse_metadata_def Let_def m0_def by (auto split: if_splits option.splits)
  show ?thesis using ok check_patterns_None [OF ok(4)] check_regexes_None [OF ok(5)] unfolding m by auto
qed

section \<open>Writing a header and reading it back\<close>

text \<open>A value that trimming leaves alone and that fits on a line.\<close>

definition tidy :: "string \<Rightarrow> bool" where
  "tidy v \<longleftrightarrow> v \<noteq> [] \<and> \<not> is_cont (hd v) \<and> \<not> is_white (hd (rchars v)) \<and> \<not> is_white (last (rchars v)) \<and> nl \<notin> set v"

declare rchars_nonempty [simp]

lemma trim_tidy: "tidy v \<Longrightarrow> trim v = v"
  by (simp add: tidy_def trim_tight)

lemma rchars_ascii: "list_all (\<lambda>c. \<not> is_cont c) a \<Longrightarrow> rchars a = map (\<lambda>c. [c]) a"
proof (induction a)
  case (Cons c a)
  then have "takeWhile is_cont a = []" "dropWhile is_cont a = a" by (cases a; simp)+
  with Cons show ?case by simp
qed simp

text \<open>Behind a plain text that starts with no blank a tidy value keeps the line as it is.\<close>

lemma trim_before_tidy:
  assumes "tidy v" and "list_all (\<lambda>c. \<not> is_cont c) a" and "a \<noteq> []" "\<not> is_white [hd a]"
  shows "trim (a @ v) = a @ v" and "trim (CHR '' '' # a @ v) = a @ v"
proof -
  from assms(1) have v: "v \<noteq> []" "\<not> is_cont (hd v)" "\<not> is_white (last (rchars v))" by (simp_all add: tidy_def)
  have chars: "rchars (a @ v) = map (\<lambda>c. [c]) a @ rchars v" using v(2) assms(2) by (simp add: rchars_append rchars_ascii)
  show one: "trim (a @ v) = a @ v"
    by (rule trim_tight) (use chars v assms in \<open>simp_all add: hd_append hd_map\<close>)
  have first: "\<not> is_cont (hd (a @ v))" using assms(2,3) by (cases a) simp_all
  then have "rchars (CHR '' '' # a @ v) = '' '' # rchars (a @ v)"
    using assms(3) by (cases a) simp_all
  moreover have "is_white '' ''" by (simp add: is_white_def)
  moreover have "dropWhile is_white (rchars (a @ v)) = rchars (a @ v)"
    using chars assms(3,4) by (cases a) simp_all
  ultimately have "trim_start (CHR '' '' # a @ v) = a @ v" unfolding trim_start_def by simp
  moreover have "trim_start (a @ v) = a @ v" unfolding trim_start_def
    using \<open>dropWhile is_white (rchars (a @ v)) = rchars (a @ v)\<close> by simp
  ultimately show "trim (CHR '' '' # a @ v) = a @ v" using one by (simp add: trim_def)
qed

definition plain_key :: "string \<Rightarrow> bool" where
  "plain_key key \<longleftrightarrow> list_all (\<lambda>c. \<not> is_cont c \<and> \<not> is_white [c]) key"

text \<open>What a line with one directive does.\<close>

lemma directive_line:
  assumes v: "tidy v" and key: "plain_key key"
  shows "header_line st (''// @'' @ key @ '' '' @ v) =
    (if hs_in st then st\<lparr>hs_meta := apply_directive key v (hs_meta st)\<rparr> else st)"
proof -
  have plain: "list_all (\<lambda>c. \<not> is_cont c) (''// @'' @ key @ '' '')" "list_all (\<lambda>c. \<not> is_cont c) (''@'' @ key @ '' '')"
    using key by (auto simp: plain_key_def list_all_iff is_cont_def)
  have t1: "trim (''// @'' @ key @ '' '' @ v) = ''// @'' @ key @ '' '' @ v"
    using trim_before_tidy(1) [OF v plain(1)] by (simp add: is_white_def)
  have t2: "trim (CHR '' '' # ''@'' @ key @ '' '' @ v) = ''@'' @ key @ '' '' @ v"
    using trim_before_tidy(2) [OF v plain(2)] by (simp add: is_white_def)
  have chars: "rchars (key @ '' '' @ v) = map (\<lambda>c. [c]) key @ '' '' # rchars v"
  proof -
    have "rchars ((key @ '' '') @ v) = map (\<lambda>c. [c]) (key @ '' '') @ rchars v"
      using v key by (subst rchars_append) (auto simp: tidy_def plain_key_def list_all_iff is_cont_def rchars_ascii)
    then show ?thesis by simp
  qed
  have no_white: "\<forall>c \<in> set (map (\<lambda>c. [c]) key). \<not> is_white c" using key by (auto simp: plain_key_def list_all_iff)
  have "concat (map (\<lambda>c. [c]) key) = key" by (induction key) simp_all
  then have split: "split_once_white (key @ '' '' @ v) = Some (key, v)"
    unfolding split_once_white_def Let_def chars using no_white by (simp add: takeWhile_append dropWhile_append is_white_def [of "'' ''"])
  show ?thesis
    unfolding header_line_def t1 using t2 split trim_tidy [OF v] by (simp add: strip_pre_def Let_def)
qed

definition directives :: "script_meta \<Rightarrow> (string \<times> string) list" where
  "directives m = [(''name'', sm_name m), (''version'', sm_version m)] @
     map (Pair ''match'') (sm_matches m) @ map (Pair ''include'') (sm_includes m) @ map (Pair ''exclude'') (sm_excludes m) @
     [(''run-at'', sm_run_at m)] @ map (Pair ''grant'') (sm_grants m) @
     (case sm_update_url m of None \<Rightarrow> [] | Some u \<Rightarrow> [(''updateURL'', u)])"

definition render_header :: "script_meta \<Rightarrow> string" where
  "render_header m = concat (map (\<lambda>l. l @ [nl])
     ([''// ==UserScript==''] @ map (\<lambda>(k, v). ''// @'' @ k @ '' '' @ v) (directives m) @ [''// ==/UserScript=='']))"

definition values_tidy :: "script_meta \<Rightarrow> bool" where
  "values_tidy m \<longleftrightarrow> (\<forall>(k, v) \<in> set (directives m). tidy v) \<and> ''none'' \<notin> set (sm_grants m)"

text \<open>A line of the program that opens a header anew.\<close>

definition reopens :: "string \<Rightarrow> bool" where
  "reopens l \<longleftrightarrow> (case strip_pre ''//'' (trim l) of None \<Rightarrow> False | Some r \<Rightarrow> trim r = ''==UserScript=='')"

lemma after_header: "\<not> hs_in st \<Longrightarrow> \<forall>l \<in> set ls. \<not> reopens l \<Longrightarrow> foldl header_line st ls = st"
proof (induction ls arbitrary: st)
  case (Cons l ls)
  then have "header_line st l = st" by (auto simp: header_line_def reopens_def Let_def split: option.splits)
  with Cons show ?case by simp
qed simp

lemma tidy_line_end: "tidy v \<Longrightarrow> last (a @ v) \<noteq> cr"
proof
  assume v: "tidy v" and "last (a @ v) = cr"
  then obtain u where u: "v = u @ [cr]" by (metis append_butlast_last_id last_appendR tidy_def)
  have "rchars (u @ [cr]) = rchars u @ [[cr]]" by (subst rchars_append) (simp_all add: is_cont_def)
  with v u show False by (simp add: tidy_def is_white_def)
qed

lemma lines_of_block:
  "\<forall>l \<in> set ls. nl \<notin> set l \<and> (l = [] \<or> last l \<noteq> cr) \<Longrightarrow> str_lines (concat (map (\<lambda>l. l @ [nl]) ls) @ body) = ls @ str_lines body"
  by (induction ls) (simp_all add: str_lines_line)

lemma run_directives:
  "hs_in st \<Longrightarrow> \<forall>(k, v) \<in> set ds. tidy v \<and> plain_key k \<Longrightarrow>
     foldl header_line st (map (\<lambda>(k, v). ''// @'' @ k @ '' '' @ v) ds) =
       st\<lparr>hs_meta := foldl (\<lambda>m (k, v). apply_directive k v m) (hs_meta st) ds\<rparr>"
proof (induction ds arbitrary: st)
  case (Cons d ds)
  obtain k v where d: "d = (k, v)" by (cases d)
  with Cons.prems have kv: "tidy v" "plain_key k" by auto
  let ?st = "st\<lparr>hs_meta := apply_directive k v (hs_meta st)\<rparr>"
  have "header_line st (''// @'' @ k @ '' '' @ v) = ?st" using directive_line [OF kv, of st] Cons.prems(1) by simp
  moreover have "hs_in ?st" using Cons.prems(1) by simp
  ultimately show ?case using Cons.IH [of ?st] Cons.prems(2) unfolding d list.map prod.case foldl.simps by simp
qed simp

lemma directive_keys: "(k, v) \<in> set (directives m) \<Longrightarrow> plain_key k"
  by (auto simp: directives_def plain_key_def is_cont_def is_white_def split: option.splits)

lemma apply_all:
  "foldl (\<lambda>m (k, v). apply_directive k v m) m0 (map (Pair ''match'') vs) = m0\<lparr>sm_matches := sm_matches m0 @ vs\<rparr>"
  "foldl (\<lambda>m (k, v). apply_directive k v m) m0 (map (Pair ''include'') vs) = m0\<lparr>sm_includes := sm_includes m0 @ vs\<rparr>"
  "foldl (\<lambda>m (k, v). apply_directive k v m) m0 (map (Pair ''exclude'') vs) = m0\<lparr>sm_excludes := sm_excludes m0 @ vs\<rparr>"
  by (induction vs arbitrary: m0) (simp_all add: apply_directive_def)

lemma apply_grants:
  "\<forall>v \<in> set vs. v \<noteq> [] \<and> v \<noteq> ''none'' \<Longrightarrow>
     foldl (\<lambda>m (k, v). apply_directive k v m) m0 (map (Pair ''grant'') vs) = m0\<lparr>sm_grants := sm_grants m0 @ vs\<rparr>"
  by (induction vs arbitrary: m0) (simp_all add: apply_directive_def)

lemma apply_directives:
  assumes "values_tidy m"
  shows "foldl (\<lambda>m (k, v). apply_directive k v m) blank_meta (directives m) = m"
proof -
  have "\<forall>v \<in> set (sm_grants m). v \<noteq> [] \<and> v \<noteq> ''none''"
    using assms by (auto simp: values_tidy_def directives_def tidy_def)
  then show ?thesis
    by (cases "sm_update_url m") (simp_all add: directives_def apply_all apply_grants, simp_all add: apply_directive_def blank_meta_def)
qed

text \<open>A header that was written is read back. For every set of values that trimming leaves alone and
  that the checks accept, the parser finds in the written header, before any program text that does
  not open a header anew, exactly those values.\<close>

theorem header_roundtrip:
  assumes tidy: "values_tidy m" and body: "\<forall>l \<in> set (str_lines body). \<not> reopens l"
    and some: "sm_matches m \<noteq> [] \<or> sm_includes m \<noteq> []"
    and run_at: "sm_run_at m \<in> {''document-start'', ''document-end'', ''document-idle''}"
    and checks: "check_patterns (sm_matches m) = None" "check_regexes (ux_regex ux) (sm_matches m @ sm_includes m @ sm_excludes m) = None"
  shows "parse_metadata ux (render_header m @ body) = Inr m"
proof -
  let ?ls = "map (\<lambda>(k, v). ''// @'' @ k @ '' '' @ v) (directives m)"
  have vals: "tidy v \<and> plain_key k" if "(k, v) \<in> set (directives m)" for k v
    using that tidy directive_keys by (auto simp: values_tidy_def)
  have "nl \<notin> set l \<and> (l = [] \<or> last l \<noteq> cr)" if "l \<in> set ([''// ==UserScript==''] @ ?ls @ [''// ==/UserScript==''])" for l
  proof (cases "l \<in> set ?ls")
    case True
    then obtain k v where l: "l = (''// @'' @ k @ '' '') @ v" and kv: "(k, v) \<in> set (directives m)" by auto
    have "nl \<notin> set k" using vals [OF kv] by (auto simp: plain_key_def list_all_iff is_white_def)
    moreover have "nl \<notin> set v" using vals [OF kv] by (simp add: tidy_def)
    ultimately show ?thesis using tidy_line_end [of v "''// @'' @ k @ '' ''"] vals [OF kv] unfolding l by simp
  next
    case False
    with that have "l = ''// ==UserScript=='' \<or> l = ''// ==/UserScript==''" by auto
    then show ?thesis by auto
  qed
  then have lines: "str_lines (render_header m @ body) = ([''// ==UserScript==''] @ ?ls @ [''// ==/UserScript=='']) @ str_lines body"
    unfolding render_header_def by (intro lines_of_block) blast
  have tight: "trim ''// ==UserScript=='' = ''// ==UserScript==''" "trim ''// ==/UserScript=='' = ''// ==/UserScript==''"
    "trim '' ==UserScript=='' = ''==UserScript==''" "trim '' ==/UserScript=='' = ''==/UserScript==''"
    by (simp_all add: trim_def trim_start_def trim_end_def is_white_def is_cont_def)
  define opened where "opened = \<lparr>hs_meta = blank_meta, hs_in = True, hs_open = True, hs_close = False\<rparr>"
  have one: "header_line header_start ''// ==UserScript=='' = opened"
    unfolding header_line_def tight opened_def by (simp add: strip_pre_def header_start_def tight)
  have "foldl header_line opened ?ls = opened\<lparr>hs_meta := foldl (\<lambda>m (k, v). apply_directive k v m) blank_meta (directives m)\<rparr>"
    using run_directives [of opened "directives m"] vals by (auto simp: opened_def)
  then have two: "foldl header_line opened ?ls = opened\<lparr>hs_meta := m\<rparr>" by (simp only: apply_directives [OF tidy])
  let ?shut = "\<lparr>hs_meta = m, hs_in = False, hs_open = True, hs_close = True\<rparr>"
  have three: "header_line (opened\<lparr>hs_meta := m\<rparr>) ''// ==/UserScript=='' = ?shut"
    unfolding header_line_def tight opened_def by (simp add: strip_pre_def tight)
  have "foldl header_line ?shut (str_lines body) = ?shut" by (rule after_header) (use body in simp_all)
  then have fin: "foldl header_line header_start (str_lines (render_header m @ body)) = ?shut"
    unfolding lines foldl_append by (simp only: foldl.simps one two three)
  have "sm_name m \<noteq> []" "sm_version m \<noteq> []" "sm_run_at m \<noteq> []"
    using tidy by (auto simp: values_tidy_def directives_def tidy_def)
  with some run_at checks show ?thesis unfolding parse_metadata_def fin Let_def by simp
qed

lemma header_roundtrip_witness:
  "parse_metadata \<lparr>ux_parse = \<lambda>u. None, ux_regex = \<lambda>r. None\<rparr>
     (render_header \<lparr>sm_name = ''n'', sm_version = ''1'', sm_matches = [''*://a/b''], sm_includes = [], sm_excludes = [],
        sm_run_at = ''document-end'', sm_grants = [''GM_addStyle''], sm_update_url = None\<rparr> @ ''alert(1)'') =
   Inr \<lparr>sm_name = ''n'', sm_version = ''1'', sm_matches = [''*://a/b''], sm_includes = [], sm_excludes = [],
        sm_run_at = ''document-end'', sm_grants = [''GM_addStyle''], sm_update_url = None\<rparr>"
  by (rule header_roundtrip)
    (simp_all add: values_tidy_def directives_def tidy_def is_cont_def is_white_def str_lines_def strip_line_ending_def reopens_def
      strip_pre_def trim_def trim_start_def trim_end_def parse_match_pattern_def split_once_def regex_rule_def Let_def)

lemma glob_match_is_globs_witness:
  "globs (rchars ''/a*?c'') (rchars ''/abbc'')"
  using glob_match_is_globs [of "''/abbc''" "''/a*?c''"]
  by (simp add: glob_match_def glob_loop.simps CH_STAR_def CH_ANY_def is_cont_def)

section \<open>What falls short\<close>

text \<open>A star of the address is taken for the pattern's own: a pattern of one star does not match it.\<close>

lemma literal_star_defeats_glob: "\<not> glob_match ''*'' ''*x'' \<and> globs (rchars ''*'') (rchars ''*x'')"
  using globs.many [OF globs.nothing, of "[''*'', ''x'']"]
  by (simp add: glob_match_def glob_loop.simps CH_STAR_def CH_ANY_def is_cont_def)

text \<open>So a page can keep out of an exclusion by a star in its address.\<close>

lemma star_escapes_exclusion:
  "include_rule_matches rx ''https://b/*'' ''https://b/x'' \<and> \<not> include_rule_matches rx ''https://b/*'' ''https://b/*x''"
  by (simp add: include_rule_matches_def regex_rule_def strip_pre_def glob_match_def glob_loop.simps CH_STAR_def CH_ANY_def is_cont_def)

text \<open>A question mark of a pattern's path is no literal one: the pattern of a query matches a path.\<close>

lemma query_mark_is_wild: "glob_match ''/a?x=1'' ''/aZx=1''"
  by (simp add: glob_match_def glob_loop.simps CH_STAR_def CH_ANY_def is_cont_def)

text \<open>A pattern with its scheme's own port matches nothing, for an address never shows that port; nor
  does one with a port behind a wildcard.\<close>

lemma default_port_never_matches: "\<not> host_matches ''a.b:443'' ''a.b'' ''a.b''"
  by (simp add: host_matches_def)

lemma wildcard_port_never_matches: "\<not> host_matches ''*.b:81'' ''a.b'' ''a.b:81''"
  by (simp add: host_matches_def suffix_def)

text \<open>A comment of the program that reads like a header replaces what the header said.\<close>

lemma later_header_overrides:
  "hs_meta (foldl header_line header_start [''// ==UserScript=='', ''// @name a'', ''// ==/UserScript=='', ''x()'',
     ''// ==UserScript=='', ''// @name b'', ''// @grant GM_xmlhttpRequest'', ''// ==/UserScript=='']) =
   blank_meta\<lparr>sm_name := ''b'', sm_grants := [''GM_xmlhttpRequest'']\<rparr>"
  by (simp add: header_line_def strip_pre_def header_start_def trim_def trim_start_def trim_end_def is_white_def is_cont_def
      split_once_white_def apply_directive_def blank_meta_def)

end
