(* ===== verification/Scripts_Host.thy ===== *)
theory Scripts_Host
  imports Scripts_Match State_Store Tab_Json
begin

text \<open>
  The host of userscripts (\<open>src-tauri/src/userscripts.rs\<close>, second half): the installed scripts, their
  values and their grants, held in memory over \<open>app.db\<close> (State_Store), the reports of the pages and
  the questions about requests to other hosts. serde_json, the random ids, the window system and the
  HTTP client are arguments or effects; a call of the store may fail each time.
\<close>

section \<open>State\<close>

definition SCRIPT_SCOPE_PREFIX :: string where "SCRIPT_SCOPE_PREFIX = ''userscript:''"
definition GRANTS_SCOPE :: string where "GRANTS_SCOPE = ''userscript-grants''"
definition XHR_DEFAULT_TIMEOUT_MS :: nat where "XHR_DEFAULT_TIMEOUT_MS = 30000"
definition XHR_MAX_TIMEOUT_MS :: nat where "XHR_MAX_TIMEOUT_MS = 120000"

record script =
  sc_id :: string
  sc_enabled :: bool
  sc_meta :: script_meta
  sc_body :: string
  sc_install_url :: "string option"

type_synonym script_values = "string \<rightharpoonup> json"

definition script_scope :: "string \<Rightarrow> string" where
  "script_scope i = SCRIPT_SCOPE_PREFIX @ i"

record script_env =
  se_url :: url_ext
  se_is_json :: "string \<Rightarrow> bool"
  se_script :: "script \<Rightarrow> string"
  se_unscript :: "string \<Rightarrow> script option"
  se_grants :: "grant_table \<Rightarrow> string"
  se_ungrants :: "string \<Rightarrow> grant_table option"
  se_values :: "script_values \<Rightarrow> string"
  se_unvalues :: "string \<Rightarrow> script_values option"
  se_report :: "string \<Rightarrow> json option"
  se_uuid :: "nat \<Rightarrow> string"

record xhr_request =
  xr_req_id :: nat
  xr_method :: string
  xr_url :: string
  xr_headers :: "(string \<times> string) list"
  xr_data :: "string option"
  xr_timeout_ms :: nat

record pending_ask =
  pa_ask_id :: nat
  pa_tab_id :: string
  pa_script_id :: string
  pa_script_name :: string
  pa_host :: string
  pa_req :: xhr_request

text \<open>What goes out: to the window's own page, to a tab, or over the network.\<close>

datatype xhr_answer = XhrFailed string bool | XhrOk nat string string string string

datatype script_effect =
    MenuReset string
  | MenuItem string string nat string
  | Injected string string string script_values
  | ShownAsk nat string string string
  | RequestSent string string xhr_request string
  | XhrReply string string string nat xhr_answer
  | MenuClick string string string nat

record script_world =
  wo_db :: app_db
  wo_faults :: "(nat \<times> string) option list"
  wo_now :: int
  wo_uuids :: nat
  wo_registry :: "script list option"
  wo_values :: "string \<rightharpoonup> script_values"
  wo_grants :: "grant_table option"
  wo_asks :: "pending_ask list"
  wo_ask_seq :: nat
  wo_nonces :: "(string \<times> string) \<rightharpoonup> string"
  wo_tabs :: "string set"
  wo_counts :: "(string \<times> string) \<rightharpoonup> nat"
  wo_out :: "script_effect list"

datatype script_error =
    StoreFailed | StoredInvalid string | RecordTooLarge | HeaderRefused header_error | NoSuchScript | NotPinned
  | Renamed string string | NoQuestion | FetchFailed

definition emit :: "script_effect \<Rightarrow> script_world \<Rightarrow> script_world" where
  "emit e w = w\<lparr>wo_out := wo_out w @ [e]\<rparr>"

section \<open>The store\<close>

definition take_fault :: "script_world \<Rightarrow> (nat \<times> string) option \<times> script_world" where
  "take_fault w = (case wo_faults w of [] \<Rightarrow> (None, w) | f # fs \<Rightarrow> (f, w\<lparr>wo_faults := fs\<rparr>))"

definition db_save :: "script_env \<Rightarrow> string \<Rightarrow> string \<Rightarrow> script_world \<Rightarrow> bool \<times> script_world" where
  "db_save ext scope t w = (case take_fault w of
     (f, w1) \<Rightarrow> (case save_scope (map_option snd f) (se_is_json ext) (wo_now w1) scope t (wo_db w1) of
       (Inl _, db) \<Rightarrow> (False, w1\<lparr>wo_db := db\<rparr>) | (Inr _, db) \<Rightarrow> (True, w1\<lparr>wo_db := db\<rparr>)))"

definition db_change :: "script_env \<Rightarrow> (string \<times> string) list \<Rightarrow> string list \<Rightarrow> script_world \<Rightarrow> bool \<times> script_world" where
  "db_change ext saves deletes w = (case take_fault w of
     (f, w1) \<Rightarrow> (case change_scopes f (se_is_json ext) (wo_now w1) saves deletes (wo_db w1) of
       (Inl _, db) \<Rightarrow> (False, w1\<lparr>wo_db := db\<rparr>) | (Inr _, db) \<Rightarrow> (True, w1\<lparr>wo_db := db\<rparr>)))"

definition db_load :: "string \<Rightarrow> script_world \<Rightarrow> (script_error + string option) \<times> script_world" where
  "db_load scope w = (case take_fault w of
     (f, w1) \<Rightarrow> (case load_scope (map_option snd f) scope (wo_db w1) of
       Inl _ \<Rightarrow> (Inl StoreFailed, w1) | Inr t \<Rightarrow> (Inr t, w1)))"

definition db_scopes :: "script_world \<Rightarrow> (script_error + string list) \<times> script_world" where
  "db_scopes w = (case take_fault w of
     (f, w1) \<Rightarrow> (case list_scopes (map_option snd f) (wo_db w1) of
       Inl _ \<Rightarrow> (Inl StoreFailed, w1) | Inr ss \<Rightarrow> (Inr ss, w1)))"

section \<open>The registry\<close>

fun load_scripts :: "script_env \<Rightarrow> string list \<Rightarrow> script_world \<Rightarrow> (script_error + script list) \<times> script_world" where
  "load_scripts ext [] w = (Inr [], w)"
| "load_scripts ext (scope # scopes) w = (case db_load scope w of
     (Inl e, w1) \<Rightarrow> (Inl e, w1)
   | (Inr None, w1) \<Rightarrow> (Inl (StoredInvalid scope), w1)
   | (Inr (Some t), w1) \<Rightarrow> (case se_unscript ext t of
       None \<Rightarrow> (Inl (StoredInvalid scope), w1)
     | Some s \<Rightarrow> (if script_scope (sc_id s) \<noteq> scope then (Inl (StoredInvalid scope), w1)
         else case load_scripts ext scopes w1 of
           (Inl e, w2) \<Rightarrow> (Inl e, w2) | (Inr ss, w2) \<Rightarrow> (Inr (s # ss), w2))))"

text \<open>Sorted by name and id.\<close>

definition sort_scripts :: "script list \<Rightarrow> script list" where
  "sort_scripts ss = sort_key (\<lambda>s. sm_name (sc_meta s)) (sort_key sc_id ss)"

definition ensure_loaded :: "script_env \<Rightarrow> script_world \<Rightarrow> (script_error + unit) \<times> script_world" where
  "ensure_loaded ext w = (case wo_registry w of
     Some _ \<Rightarrow> (Inr (), w)
   | None \<Rightarrow> (case db_scopes w of
       (Inl e, w1) \<Rightarrow> (Inl e, w1)
     | (Inr scopes, w1) \<Rightarrow> (case load_scripts ext (filter (prefix SCRIPT_SCOPE_PREFIX) scopes) w1 of
         (Inl e, w2) \<Rightarrow> (Inl e, w2)
       | (Inr ss, w2) \<Rightarrow> (Inr (), w2\<lparr>wo_registry := Some (sort_scripts ss)\<rparr>))))"

definition serialize_script :: "script_env \<Rightarrow> script \<Rightarrow> script_error + string" where
  "serialize_script ext s = (if MAX_STATE_BYTES < length (se_script ext s) then Inl RecordTooLarge else Inr (se_script ext s))"

definition persist_script :: "script_env \<Rightarrow> script \<Rightarrow> script_world \<Rightarrow> (script_error + unit) \<times> script_world" where
  "persist_script ext s w = (case serialize_script ext s of
     Inl e \<Rightarrow> (Inl e, w)
   | Inr t \<Rightarrow> (case db_save ext (script_scope (sc_id s)) t w of
       (False, w1) \<Rightarrow> (Inl StoreFailed, w1) | (True, w1) \<Rightarrow> (Inr (), w1)))"

definition scripts_of :: "script_world \<Rightarrow> script list" where
  "scripts_of w = (case wo_registry w of Some ss \<Rightarrow> ss | None \<Rightarrow> [])"

definition any_enabled :: "script_env \<Rightarrow> script_world \<Rightarrow> bool \<times> script_world" where
  "any_enabled ext w = (case ensure_loaded ext w of
     (Inl _, w1) \<Rightarrow> (False, w1) | (Inr _, w1) \<Rightarrow> (list_ex sc_enabled (scripts_of w1), w1))"

section \<open>Values and grants\<close>

definition values_of :: "script_env \<Rightarrow> string \<Rightarrow> script_world \<Rightarrow> (script_error + script_values) \<times> script_world" where
  "values_of ext i w = (case wo_values w i of
     Some hit \<Rightarrow> (Inr hit, w)
   | None \<Rightarrow> (case db_load (values_scope i) w of
       (Inl e, w1) \<Rightarrow> (Inl e, w1)
     | (Inr None, w1) \<Rightarrow> (Inr Map.empty, w1\<lparr>wo_values := (wo_values w1)(i \<mapsto> Map.empty)\<rparr>)
     | (Inr (Some t), w1) \<Rightarrow> (case se_unvalues ext t of
         None \<Rightarrow> (Inl (StoredInvalid (values_scope i)), w1)
       | Some v \<Rightarrow> (Inr v, w1\<lparr>wo_values := (wo_values w1)(i \<mapsto> v)\<rparr>))))"

definition ensure_grants_loaded :: "script_env \<Rightarrow> script_world \<Rightarrow> (script_error + unit) \<times> script_world" where
  "ensure_grants_loaded ext w = (case wo_grants w of
     Some _ \<Rightarrow> (Inr (), w)
   | None \<Rightarrow> (case db_load GRANTS_SCOPE w of
       (Inl e, w1) \<Rightarrow> (Inl e, w1)
     | (Inr None, w1) \<Rightarrow> (Inr (), w1\<lparr>wo_grants := Some Map.empty\<rparr>)
     | (Inr (Some t), w1) \<Rightarrow> (case se_ungrants ext t of
         None \<Rightarrow> (Inl (StoredInvalid GRANTS_SCOPE), w1)
       | Some g \<Rightarrow> (Inr (), w1\<lparr>wo_grants := Some g\<rparr>))))"

definition grants_of :: "script_world \<Rightarrow> grant_table" where
  "grants_of w = (case wo_grants w of Some g \<Rightarrow> g | None \<Rightarrow> Map.empty)"

definition persist_grants :: "script_env \<Rightarrow> grant_table \<Rightarrow> script_world \<Rightarrow> (script_error + unit) \<times> script_world" where
  "persist_grants ext g w = (case db_save ext GRANTS_SCOPE (se_grants ext g) w of
     (False, w1) \<Rightarrow> (Inl StoreFailed, w1) | (True, w1) \<Rightarrow> (Inr (), w1))"

definition host_granted :: "script_env \<Rightarrow> string \<Rightarrow> string \<Rightarrow> script_world \<Rightarrow> bool \<times> script_world" where
  "host_granted ext i host w = (case ensure_grants_loaded ext w of
     (Inl _, w1) \<Rightarrow> (False, w1)
   | (Inr _, w1) \<Rightarrow> (case wo_grants w1 of None \<Rightarrow> (False, w1) | Some g \<Rightarrow> (grant_decision g i host, w1)))"

definition record_grant :: "script_env \<Rightarrow> string \<Rightarrow> string \<Rightarrow> script_world \<Rightarrow> (script_error + unit) \<times> script_world" where
  "record_grant ext i host w = (case ensure_grants_loaded ext w of
     (Inl e, w1) \<Rightarrow> (Inl e, w1)
   | (Inr _, w1) \<Rightarrow>
       (let hosts = (case grants_of w1 i of Some hs \<Rightarrow> hs | None \<Rightarrow> []) in
        if host \<in> set hosts then (Inr (), w1)
        else let g = (grants_of w1)(i \<mapsto> hosts @ [host]) in
          case persist_grants ext g w1 of
            (Inl e, w2) \<Rightarrow> (Inl e, w2) | (Inr _, w2) \<Rightarrow> (Inr (), w2\<lparr>wo_grants := Some g\<rparr>)))"

section \<open>Pages\<close>

definition forget_tab :: "string \<Rightarrow> script_world \<Rightarrow> script_world" where
  "forget_tab tab w = w\<lparr>wo_nonces := (\<lambda>k. if fst k = tab then None else wo_nonces w k)\<rparr>"

fun inject_all :: "script_env \<Rightarrow> string \<Rightarrow> script list \<Rightarrow> script_world \<Rightarrow> script_world" where
  "inject_all ext tab [] w = w"
| "inject_all ext tab (s # ss) w =
     (let nonce = se_uuid ext (wo_uuids w);
          w1 = w\<lparr>wo_uuids := wo_uuids w + 1, wo_nonces := (wo_nonces w)((tab, sc_id s) \<mapsto> nonce)\<rparr> in
      case values_of ext (sc_id s) w1 of
        (Inl _, w2) \<Rightarrow> inject_all ext tab ss w2
      | (Inr v, w2) \<Rightarrow> inject_all ext tab ss (emit (Injected tab (sc_id s) nonce v) w2))"

definition handle_query :: "script_env \<Rightarrow> string \<Rightarrow> string \<Rightarrow> script_world \<Rightarrow> script_world" where
  "handle_query ext tab url w0 =
     (let w = emit (MenuReset tab) w0 in
      case ensure_loaded ext w of
        (Inl _, w1) \<Rightarrow> w1
      | (Inr _, w1) \<Rightarrow>
          (let matched = filter (\<lambda>s. sc_enabled s \<and> url_matches (se_url ext) (sc_meta s) url) (scripts_of w1) in
           if matched = [] then w1
           else if tab \<notin> wo_tabs w1 then w1
           else inject_all ext tab matched w1))"

definition handle_value_op :: "script_env \<Rightarrow> string \<Rightarrow> json \<Rightarrow> script_world \<Rightarrow> script_world" where
  "handle_value_op ext i v w =
     (case Option.bind (json_get ''key'' v) json_as_str of
        None \<Rightarrow> w
      | Some key \<Rightarrow>
          (case values_of ext i w of
             (Inl _, w1) \<Rightarrow> w1
           | (Inr vals, w1) \<Rightarrow>
               (let op = (case Option.bind (json_get ''op'' v) json_as_str of Some t \<Rightarrow> t | None \<Rightarrow> []) in
                if op \<noteq> ''set'' \<and> op \<noteq> ''del'' then w1
                else let new = (if op = ''set'' then vals(key \<mapsto> (case json_get ''value'' v of Some x \<Rightarrow> x | None \<Rightarrow> JNull))
                                else vals(key := None)) in
                  case db_save ext (values_scope i) (se_values ext new) w1 of
                    (False, w2) \<Rightarrow> w2
                  | (True, w2) \<Rightarrow> w2\<lparr>wo_values := (wo_values w2)(i \<mapsto> new)\<rparr>)))"

section \<open>Requests to other hosts\<close>

definition nonce_for :: "string \<Rightarrow> string \<Rightarrow> script_world \<Rightarrow> string" where
  "nonce_for tab i w = (case wo_nonces w (tab, i) of Some n \<Rightarrow> n | None \<Rightarrow> [])"

text \<open>A reply carries the nonce that is current when it is sent, and needs the tab's view.\<close>

definition xhr_reply :: "string \<Rightarrow> string \<Rightarrow> nat \<Rightarrow> xhr_answer \<Rightarrow> script_world \<Rightarrow> script_world" where
  "xhr_reply tab i req ans w = (if tab \<in> wo_tabs w then emit (XhrReply tab (nonce_for tab i w) i req ans) w else w)"

definition xhr_fail :: "string \<Rightarrow> string \<Rightarrow> nat \<Rightarrow> string \<Rightarrow> bool \<Rightarrow> script_world \<Rightarrow> script_world" where
  "xhr_fail tab i req msg timed_out = xhr_reply tab i req (XhrFailed msg timed_out)"

definition execute_xhr :: "string \<Rightarrow> string \<Rightarrow> xhr_request \<Rightarrow> string \<Rightarrow> script_world \<Rightarrow> script_world" where
  "execute_xhr tab i req host w =
     (let n = (case wo_counts w (i, host) of Some k \<Rightarrow> k | None \<Rightarrow> 0) + 1 in
      emit (RequestSent tab i req host) (w\<lparr>wo_counts := (wo_counts w)((i, host) \<mapsto> n)\<rparr>))"

definition MAX_XHR_RESPONSE_BYTES :: nat where "MAX_XHR_RESPONSE_BYTES = 5 * 1024 * 1024"

text \<open>Reading a body chunk by chunk with a cap; a chunk that fails is none.\<close>

fun read_capped :: "nat \<Rightarrow> string \<Rightarrow> string option list \<Rightarrow> string \<Rightarrow> string + string" where
  "read_capped cap too_large [] buf = Inr buf"
| "read_capped cap too_large (None # cs) buf = Inl ''read failed''"
| "read_capped cap too_large (Some c # cs) buf =
     (if cap < length (buf @ c) then Inl too_large else read_capped cap too_large cs (buf @ c))"

datatype http_result = HttpFailed bool | HttpAnswer nat string string string "string option list"

text \<open>The end of a request that was sent.\<close>

definition xhr_done :: "string \<Rightarrow> string \<Rightarrow> xhr_request \<Rightarrow> http_result \<Rightarrow> script_world \<Rightarrow> script_world" where
  "xhr_done tab i req res w = (case res of
     HttpFailed timed_out \<Rightarrow>
       xhr_fail tab i (xr_req_id req) (if timed_out then ''timed out'' else ''request failed'') timed_out w
   | HttpAnswer status reason headers final chunks \<Rightarrow>
       (case read_capped MAX_XHR_RESPONSE_BYTES ''response too large'' chunks [] of
          Inl e \<Rightarrow> xhr_fail tab i (xr_req_id req) e False w
        | Inr body \<Rightarrow> xhr_reply tab i (xr_req_id req) (XhrOk status reason headers (utf8_lossy body) final) w))"

text \<open>\<open>as_u64\<close> of a JSON number, zero when there is none.\<close>

definition json_u64 :: "json option \<Rightarrow> nat" where
  "json_u64 v = (case v of
     Some (JNum t) \<Rightarrow>
       (if t \<noteq> [] \<and> list_all (\<lambda>c. 48 \<le> (of_char c :: nat) \<and> (of_char c :: nat) \<le> 57) t
        then let n = foldl (\<lambda>a c. a * 10 + (of_char c - 48)) 0 t in if n < 2 ^ 64 then n else 0
        else 0)
   | _ \<Rightarrow> 0)"

definition upper_ascii :: "string \<Rightarrow> string" where
  "upper_ascii s = map (\<lambda>c. let n = (of_char c :: nat) in if 97 \<le> n \<and> n \<le> 122 then char_of (n - 32) else c) s"

definition lower_ascii :: "string \<Rightarrow> string" where
  "lower_ascii s = map (\<lambda>c. let n = (of_char c :: nat) in if 65 \<le> n \<and> n \<le> 90 then char_of (n + 32) else c) s"

definition str_member :: "string \<Rightarrow> json \<Rightarrow> string option" where
  "str_member key v = Option.bind (json_get key v) json_as_str"

definition xhr_headers :: "json \<Rightarrow> (string \<times> string) list" where
  "xhr_headers v = (case Option.bind (json_get ''headers'' v) json_as_object of
     None \<Rightarrow> []
   | Some m \<Rightarrow> List.map_filter (\<lambda>(k, x). map_option (Pair k) (json_as_str x))
       (filter (\<lambda>(k, x). lower_ascii k \<notin> {''host'', ''content-length'', ''transfer-encoding'', ''connection''}) m))"

definition emit_front_ask :: "script_world \<Rightarrow> script_world" where
  "emit_front_ask w = (case wo_asks w of
     [] \<Rightarrow> w
   | a # _ \<Rightarrow> emit (ShownAsk (pa_ask_id a) (pa_script_id a) (pa_script_name a) (pa_host a)) w)"

definition handle_xhr_request :: "script_env \<Rightarrow> string \<Rightarrow> string \<Rightarrow> json \<Rightarrow> script_world \<Rightarrow> script_world" where
  "handle_xhr_request ext tab i v w =
     (let granted = list_ex (\<lambda>s. sc_id s = i \<and> cp_xhr (caps_of (sm_grants (sc_meta s)))) (scripts_of w);
          req_id = json_u64 (json_get ''req'' v) in
      if req_id = 0 then w
      else if \<not> granted then xhr_fail tab i req_id ''GM_xmlhttpRequest is not granted'' False w
      else let method_name = upper_ascii (case str_member ''method'' v of Some m \<Rightarrow> m | None \<Rightarrow> ''GET'') in
      if method_name \<notin> {''GET'', ''POST'', ''PUT'', ''DELETE'', ''HEAD'', ''PATCH'', ''OPTIONS''}
      then xhr_fail tab i req_id ''method not allowed'' False w
      else let url_str = (case str_member ''url'' v of Some u \<Rightarrow> u | None \<Rightarrow> []) in
      case ux_parse (se_url ext) url_str of
        None \<Rightarrow> xhr_fail tab i req_id ''bad url'' False w
      | Some url \<Rightarrow>
          (if ur_scheme url \<notin> {''http'', ''https''} then xhr_fail tab i req_id ''only http(s) urls'' False w
           else case ur_host url of
             None \<Rightarrow> xhr_fail tab i req_id ''url has no host'' False w
           | Some host \<Rightarrow>
               (let t = json_u64 (json_get ''timeout'' v);
                    req = \<lparr>xr_req_id = req_id, xr_method = method_name, xr_url = url_str, xr_headers = xhr_headers v,
                      xr_data = str_member ''data'' v,
                      xr_timeout_ms = (if 0 < t then min t XHR_MAX_TIMEOUT_MS else XHR_DEFAULT_TIMEOUT_MS)\<rparr> in
                case host_granted ext i host w of
                  (True, w1) \<Rightarrow> execute_xhr tab i req host w1
                | (False, w1) \<Rightarrow>
                    (let name = (case find (\<lambda>s. sc_id s = i) (scripts_of w1) of Some s \<Rightarrow> sm_name (sc_meta s) | None \<Rightarrow> []);
                         ask = \<lparr>pa_ask_id = wo_ask_seq w1, pa_tab_id = tab, pa_script_id = i, pa_script_name = name,
                           pa_host = host, pa_req = req\<rparr>;
                         w2 = w1\<lparr>wo_ask_seq := wo_ask_seq w1 + 1, wo_asks := wo_asks w1 @ [ask]\<rparr> in
                     if length (wo_asks w2) = 1 then emit_front_ask w2 else w2))))"

text \<open>A report of a page: only for a script that is installed and enabled.\<close>

definition handle_report :: "script_env \<Rightarrow> string \<Rightarrow> string \<Rightarrow> string \<Rightarrow> script_world \<Rightarrow> script_world" where
  "handle_report ext tab cmd payload w = (case se_report ext payload of
     None \<Rightarrow> w
   | Some v \<Rightarrow>
       (let i = (case str_member ''script'' v of Some t \<Rightarrow> t | None \<Rightarrow> []) in
        if i = [] then w
        else case ensure_loaded ext w of
          (Inl _, w1) \<Rightarrow> w1
        | (Inr _, w1) \<Rightarrow>
            (if \<not> list_ex (\<lambda>s. sc_id s = i \<and> sc_enabled s) (scripts_of w1) then w1
             else if cmd = ''us-set'' then handle_value_op ext i v w1
             else if cmd = ''us-menu''
             then (let name = (case str_member ''name'' v of Some n \<Rightarrow> n | None \<Rightarrow> []); n = json_u64 (json_get ''cmd'' v) in
               if name = [] \<or> n = 0 then w1 else emit (MenuItem tab i n name) w1)
             else if cmd = ''us-xhr'' then handle_xhr_request ext tab i v w1
             else w1)))"

lemma next_fault_asks: "wo_asks (snd (take_fault w)) = wo_asks w"
  by (simp add: take_fault_def split: list.split)

lemma db_load_asks: "wo_asks (snd (db_load scope w)) = wo_asks w"
  using next_fault_asks[of w] by (cases "take_fault w") (simp add: db_load_def split: sum.splits)

lemma ensure_grants_loaded_asks: "wo_asks (snd (ensure_grants_loaded ext w)) = wo_asks w"
  using db_load_asks[of GRANTS_SCOPE w]
  by (cases "db_load GRANTS_SCOPE w") (simp add: ensure_grants_loaded_def split: sum.splits option.splits)

lemma host_granted_asks: "wo_asks (snd (host_granted ext i host w)) = wo_asks w"
  using ensure_grants_loaded_asks[of ext w]
  by (cases "ensure_grants_loaded ext w") (simp add: host_granted_def split: sum.splits option.splits)

text \<open>The loop over the questions that the table answers by now.\<close>

function drain_asks :: "script_env \<Rightarrow> script_world \<Rightarrow> script_world" where
  "drain_asks ext w = (case wo_asks w of
     [] \<Rightarrow> w
   | a # q \<Rightarrow> (case host_granted ext (pa_script_id a) (pa_host a) w of
       (False, w1) \<Rightarrow> w1
     | (True, w1) \<Rightarrow> drain_asks ext (execute_xhr (pa_tab_id a) (pa_script_id a) (pa_req a) (pa_host a) (w1\<lparr>wo_asks := q\<rparr>))))"
  by pat_completeness auto
termination
proof (relation "measure (length \<circ> wo_asks \<circ> snd)")
  fix ext w a q p w1
  assume "wo_asks w = a # q" "p = host_granted ext (pa_script_id a) (pa_host a) w"
  then show "((ext, execute_xhr (pa_tab_id a) (pa_script_id a) (pa_req a) (pa_host a) (w1\<lparr>wo_asks := q\<rparr>)), ext, w)
      \<in> measure (length \<circ> wo_asks \<circ> snd)"
    by (simp add: execute_xhr_def emit_def Let_def)
qed simp

declare drain_asks.simps [simp del]

definition xhr_answer_ask :: "script_env \<Rightarrow> nat \<Rightarrow> string \<Rightarrow> script_world \<Rightarrow> (script_error + unit) \<times> script_world" where
  "xhr_answer_ask ext ask_id decision w = (case wo_asks w of
     [] \<Rightarrow> (Inl NoQuestion, w)
   | a # q \<Rightarrow>
       (if pa_ask_id a \<noteq> ask_id then (Inl NoQuestion, w)
        else let w1 = w\<lparr>wo_asks := q\<rparr>; finish = (\<lambda>w. (Inr (), emit_front_ask (drain_asks ext w))) in
          if decision = ''always''
          then (case record_grant ext (pa_script_id a) (pa_host a) w1 of
              (Inl e, w2) \<Rightarrow> (Inl e, w2)
            | (Inr _, w2) \<Rightarrow> finish (execute_xhr (pa_tab_id a) (pa_script_id a) (pa_req a) (pa_host a) w2))
          else if decision = ''once''
          then finish (execute_xhr (pa_tab_id a) (pa_script_id a) (pa_req a) (pa_host a) w1)
          else finish (xhr_fail (pa_tab_id a) (pa_script_id a) (xr_req_id (pa_req a)) ''the user denied access to this domain'' False w1)))"

definition menu_click :: "string \<Rightarrow> string \<Rightarrow> nat \<Rightarrow> script_world \<Rightarrow> script_world" where
  "menu_click tab i n w = (if tab \<in> wo_tabs w then emit (MenuClick tab (nonce_for tab i w) i n) w else w)"

section \<open>Managing scripts\<close>

definition granted_hosts :: "script_world \<Rightarrow> string \<Rightarrow> string list" where
  "granted_hosts w i = (case grants_of w i of Some hs \<Rightarrow> hs | None \<Rightarrow> [])"

text \<open>What the settings page is told of a script: the script and its hosts.\<close>

definition info_of :: "script_env \<Rightarrow> script \<Rightarrow> script_world \<Rightarrow> (script_error + script \<times> string list) \<times> script_world" where
  "info_of ext s w = (case ensure_grants_loaded ext w of
     (Inl e, w1) \<Rightarrow> (Inl e, w1) | (Inr _, w1) \<Rightarrow> (Inr (s, granted_hosts w1 (sc_id s)), w1))"

fun infos_of :: "script_env \<Rightarrow> script list \<Rightarrow> script_world \<Rightarrow> (script_error + (script \<times> string list) list) \<times> script_world" where
  "infos_of ext [] w = (Inr [], w)"
| "infos_of ext (s # ss) w = (case info_of ext s w of
     (Inl e, w1) \<Rightarrow> (Inl e, w1)
   | (Inr x, w1) \<Rightarrow> (case infos_of ext ss w1 of (Inl e, w2) \<Rightarrow> (Inl e, w2) | (Inr xs, w2) \<Rightarrow> (Inr (x # xs), w2)))"

definition userscripts_list :: "script_env \<Rightarrow> script_world \<Rightarrow> (script_error + (script \<times> string list) list) \<times> script_world" where
  "userscripts_list ext w = (case ensure_loaded ext w of
     (Inl e, w1) \<Rightarrow> (Inl e, w1) | (Inr _, w1) \<Rightarrow> infos_of ext (scripts_of w1) w1)"

text \<open>The first script with a property, changed.\<close>

fun update_first :: "(script \<Rightarrow> bool) \<Rightarrow> (script \<Rightarrow> script) \<Rightarrow> script list \<Rightarrow> script list" where
  "update_first P f [] = []"
| "update_first P f (s # ss) = (if P s then f s # ss else s # update_first P f ss)"

definition install_source :: "script_env \<Rightarrow> string \<Rightarrow> string option \<Rightarrow> script_world \<Rightarrow> (script_error + script \<times> string list) \<times> script_world" where
  "install_source ext source origin w = (case parse_metadata (se_url ext) source of
     Inl e \<Rightarrow> (Inl (HeaderRefused e), w)
   | Inr meta \<Rightarrow> (case ensure_loaded ext w of
       (Inl e, w1) \<Rightarrow> (Inl e, w1)
     | (Inr _, w1) \<Rightarrow>
         (let same = (\<lambda>s. sm_name (sc_meta s) = sm_name meta);
              (s, next_scripts, w2) = (case find same (scripts_of w1) of
                Some old \<Rightarrow>
                  (let new = old\<lparr>sc_meta := meta, sc_body := source, sc_install_url := origin\<rparr> in
                   (new, update_first same (\<lambda>_. new) (scripts_of w1), w1))
              | None \<Rightarrow>
                  (let new = \<lparr>sc_id = se_uuid ext (wo_uuids w1), sc_enabled = True, sc_meta = meta, sc_body = source, sc_install_url = origin\<rparr> in
                   (new, scripts_of w1 @ [new], w1\<lparr>wo_uuids := wo_uuids w1 + 1\<rparr>)))
          in case persist_script ext s w2 of
            (Inl e, w3) \<Rightarrow> (Inl e, w3)
          | (Inr _, w3) \<Rightarrow> info_of ext s (w3\<lparr>wo_registry := Some next_scripts\<rparr>))))"

definition MAX_SCRIPT_TRANSFER_BYTES :: nat where "MAX_SCRIPT_TRANSFER_BYTES = MAX_STATE_BYTES"

text \<open>Fetching a script's source: the response, none when it could not be had.\<close>

definition fetch_script_source :: "script_env \<Rightarrow> string \<Rightarrow> (nat \<times> string option list) option \<Rightarrow> script_error + string" where
  "fetch_script_source ext url response = (case ux_parse (se_url ext) url of
     None \<Rightarrow> Inl FetchFailed
   | Some u \<Rightarrow>
       (if ur_scheme u \<notin> {''http'', ''https''} then Inl FetchFailed
        else case response of
          None \<Rightarrow> Inl FetchFailed
        | Some (status, chunks) \<Rightarrow>
            (if status < 200 \<or> 300 \<le> status then Inl FetchFailed
             else case read_capped MAX_SCRIPT_TRANSFER_BYTES [] chunks [] of
               Inl _ \<Rightarrow> Inl FetchFailed
             | Inr body \<Rightarrow> if utf8_valid body then Inr body else Inl FetchFailed)))"

definition install_url :: "script_env \<Rightarrow> string \<Rightarrow> (nat \<times> string option list) option \<Rightarrow> script_world \<Rightarrow> (script_error + script \<times> string list) \<times> script_world" where
  "install_url ext url response w = (case fetch_script_source ext url response of
     Inl e \<Rightarrow> (Inl e, w) | Inr source \<Rightarrow> install_source ext source (Some url) w)"

text \<open>A file is its length, taken first, and its bytes, or could not be had.\<close>

definition read_script_file :: "(nat \<times> string) option \<Rightarrow> script_error + string" where
  "read_script_file answer = (case answer of
     None \<Rightarrow> Inl FetchFailed
   | Some (len, bytes) \<Rightarrow>
       (if MAX_SCRIPT_TRANSFER_BYTES < len then Inl FetchFailed
        else if utf8_valid bytes then Inr bytes else Inl FetchFailed))"

definition install_file :: "script_env \<Rightarrow> (nat \<times> string) option \<Rightarrow> script_world \<Rightarrow> (script_error + script \<times> string list) \<times> script_world" where
  "install_file ext answer w = (case read_script_file answer of
     Inl e \<Rightarrow> (Inl e, w) | Inr source \<Rightarrow> install_source ext source None w)"

definition pinned_update_url :: "string \<Rightarrow> string option \<Rightarrow> string" where
  "pinned_update_url pinned header_update_url = pinned"

definition find_script :: "script_world \<Rightarrow> string \<Rightarrow> script option" where
  "find_script w i = find (\<lambda>s. sc_id s = i) (scripts_of w)"

text \<open>A check for an update: the versions, and both sources when they differ. \<open>web\<close> answers for an address.\<close>

definition check_update ::
  "script_env \<Rightarrow> (string \<Rightarrow> (nat \<times> string option list) option) \<Rightarrow> string \<Rightarrow> script_world \<Rightarrow>
   (script_error + string \<times> string \<times> (string \<times> string) option) \<times> script_world" where
  "check_update ext web i w = (case ensure_loaded ext w of
     (Inl e, w1) \<Rightarrow> (Inl e, w1)
   | (Inr _, w1) \<Rightarrow> (case find_script w1 i of
       None \<Rightarrow> (Inl NoSuchScript, w1)
     | Some s \<Rightarrow> (case sc_install_url s of
         None \<Rightarrow> (Inl NotPinned, w1)
       | Some pinned \<Rightarrow>
           (let url = pinned_update_url pinned (sm_update_url (sc_meta s)) in
            case fetch_script_source ext url (web url) of
              Inl e \<Rightarrow> (Inl e, w1)
            | Inr source \<Rightarrow> (case parse_metadata (se_url ext) source of
                Inl e \<Rightarrow> (Inl (HeaderRefused e), w1)
              | Inr meta \<Rightarrow>
                  (if sm_name meta \<noteq> sm_name (sc_meta s) then (Inl (Renamed (sm_name meta) (sm_name (sc_meta s))), w1)
                   else if source = sc_body s then (Inr (sm_version (sc_meta s), sm_version (sc_meta s), None), w1)
                   else (Inr (sm_version (sc_meta s), sm_version meta, Some (sc_body s, source)), w1)))))))"

definition apply_update_core ::
  "script_env \<Rightarrow> script list \<Rightarrow> grant_table \<Rightarrow> string \<Rightarrow> string \<Rightarrow> script_error + script list \<times> grant_table" where
  "apply_update_core ext scripts g i source = (case parse_metadata (se_url ext) source of
     Inl e \<Rightarrow> Inl (HeaderRefused e)
   | Inr meta \<Rightarrow> (case find (\<lambda>s. sc_id s = i) scripts of
       None \<Rightarrow> Inl NoSuchScript
     | Some s \<Rightarrow>
         (if sm_name meta \<noteq> sm_name (sc_meta s) then Inl (Renamed (sm_name meta) (sm_name (sc_meta s)))
          else Inr (update_first (\<lambda>s. sc_id s = i) (\<lambda>s. s\<lparr>sc_meta := meta, sc_body := source\<rparr>) scripts, g(i := None)))))"

definition apply_update :: "script_env \<Rightarrow> string \<Rightarrow> string \<Rightarrow> script_world \<Rightarrow> (script_error + script \<times> string list) \<times> script_world" where
  "apply_update ext i source w = (case ensure_loaded ext w of
     (Inl e, w1) \<Rightarrow> (Inl e, w1)
   | (Inr _, w1) \<Rightarrow> (case ensure_grants_loaded ext w1 of
       (Inl e, w2) \<Rightarrow> (Inl e, w2)
     | (Inr _, w2) \<Rightarrow> (case apply_update_core ext (scripts_of w2) (grants_of w2) i source of
         Inl e \<Rightarrow> (Inl e, w2)
       | Inr (next_scripts, next_grants) \<Rightarrow> (case find (\<lambda>s. sc_id s = i) next_scripts of
           None \<Rightarrow> (Inl NoSuchScript, w2)
         | Some s \<Rightarrow> (case serialize_script ext s of
             Inl e \<Rightarrow> (Inl e, w2)
           | Inr t \<Rightarrow> (case db_change ext [(script_scope (sc_id s), t), (GRANTS_SCOPE, se_grants ext next_grants)] [] w2 of
               (False, w3) \<Rightarrow> (Inl StoreFailed, w3)
             | (True, w3) \<Rightarrow> info_of ext s (w3\<lparr>wo_registry := Some next_scripts, wo_grants := Some next_grants\<rparr>)))))))"

definition set_enabled :: "script_env \<Rightarrow> string \<Rightarrow> bool \<Rightarrow> script_world \<Rightarrow> (script_error + unit) \<times> script_world" where
  "set_enabled ext i on w = (case ensure_loaded ext w of
     (Inl e, w1) \<Rightarrow> (Inl e, w1)
   | (Inr _, w1) \<Rightarrow> (case find_script w1 i of
       None \<Rightarrow> (Inl NoSuchScript, w1)
     | Some s \<Rightarrow> (case persist_script ext (s\<lparr>sc_enabled := on\<rparr>) w1 of
         (Inl e, w2) \<Rightarrow> (Inl e, w2)
       | (Inr _, w2) \<Rightarrow> (Inr (), w2\<lparr>wo_registry := Some (update_first (\<lambda>s. sc_id s = i) (\<lambda>s. s\<lparr>sc_enabled := on\<rparr>) (scripts_of w1))\<rparr>))))"

definition remove_script :: "script_env \<Rightarrow> string \<Rightarrow> script_world \<Rightarrow> (script_error + unit) \<times> script_world" where
  "remove_script ext i w = (case ensure_loaded ext w of
     (Inl e, w1) \<Rightarrow> (Inl e, w1)
   | (Inr _, w1) \<Rightarrow> (case ensure_grants_loaded ext w1 of
       (Inl e, w2) \<Rightarrow> (Inl e, w2)
     | (Inr _, w2) \<Rightarrow>
         (let next_scripts = filter (\<lambda>s. sc_id s \<noteq> i) (scripts_of w2); next_grants = (grants_of w2)(i := None) in
          if length next_scripts = length (scripts_of w2) then (Inl NoSuchScript, w2)
          else case db_change ext [(GRANTS_SCOPE, se_grants ext next_grants)] [script_scope i, values_scope i] w2 of
            (False, w3) \<Rightarrow> (Inl StoreFailed, w3)
          | (True, w3) \<Rightarrow> (Inr (), w3\<lparr>wo_registry := Some next_scripts, wo_grants := Some next_grants,
              wo_values := (wo_values w3)(i := None)\<rparr>))))"

definition revoke_grant :: "script_env \<Rightarrow> string \<Rightarrow> string \<Rightarrow> script_world \<Rightarrow> (script_error + unit) \<times> script_world" where
  "revoke_grant ext i host w = (case ensure_grants_loaded ext w of
     (Inl e, w1) \<Rightarrow> (Inl e, w1)
   | (Inr _, w1) \<Rightarrow>
       (let g = (case grants_of w1 i of
            None \<Rightarrow> grants_of w1
          | Some hs \<Rightarrow> (let left = filter (\<lambda>h. h \<noteq> host) hs in (grants_of w1)(i := if left = [] then None else Some left))) in
        case persist_grants ext g w1 of
          (Inl e, w2) \<Rightarrow> (Inl e, w2) | (Inr _, w2) \<Rightarrow> (Inr (), w2\<lparr>wo_grants := Some g\<rparr>)))"

end
