(* ===== verification/Scripts_Trust.thy ===== *)
theory Scripts_Trust
  imports Scripts_Host "HOL-Library.Countable"
begin

text \<open>
  What the host of userscripts host_keeps whatever the pages report, whatever the user answers and whichever
  call of the store fails: memory says what a restart would read, and no request leaves for a host that
  the user has not allowed the script.
\<close>

section \<open>The operations as one step\<close>

datatype script_op =
    OpTab string bool
  | OpForget string
  | OpQuery string string
  | OpReport string string string
  | OpAnswer nat string
  | OpDone string string xhr_request http_result
  | OpMenuClick string string nat
  | OpList
  | OpInstall string "string option"
  | OpInstallUrl string "(nat \<times> string option list) option"
  | OpInstallFile "(nat \<times> string) option"
  | OpCheck string "(nat \<times> string option list) option"
  | OpUpdate string string
  | OpEnable string bool
  | OpRemove string
  | OpRevoke string string

fun run_op :: "script_env \<Rightarrow> script_op \<Rightarrow> script_world \<Rightarrow> script_world" where
  "run_op ext (OpTab tab here) w = w\<lparr>wo_tabs := (if here then insert tab (wo_tabs w) else wo_tabs w - {tab})\<rparr>"
| "run_op ext (OpForget tab) w = forget_tab tab w"
| "run_op ext (OpQuery tab url) w = handle_query ext tab url w"
| "run_op ext (OpReport tab cmd payload) w = handle_report ext tab cmd payload w"
| "run_op ext (OpAnswer k decision) w = snd (xhr_answer_ask ext k decision w)"
| "run_op ext (OpDone tab i req res) w = xhr_done tab i req res w"
| "run_op ext (OpMenuClick tab i n) w = menu_click tab i n w"
| "run_op ext OpList w = snd (userscripts_list ext w)"
| "run_op ext (OpInstall source origin) w = snd (install_source ext source origin w)"
| "run_op ext (OpInstallUrl url response) w = snd (install_url ext url response w)"
| "run_op ext (OpInstallFile answer) w = snd (install_file ext answer w)"
| "run_op ext (OpCheck i response) w = snd (check_update ext (\<lambda>_. response) i w)"
| "run_op ext (OpUpdate i source) w = snd (apply_update ext i source w)"
| "run_op ext (OpEnable i on) w = snd (set_enabled ext i on w)"
| "run_op ext (OpRemove i) w = snd (remove_script ext i w)"
| "run_op ext (OpRevoke i host) w = snd (revoke_grant ext i host w)"

definition run_ops :: "script_env \<Rightarrow> script_op list \<Rightarrow> script_world \<Rightarrow> script_world" where
  "run_ops ext ops w = fold (run_op ext) ops w"

section \<open>The store seen as a map\<close>

definition rows_of :: "script_world \<Rightarrow> string \<Rightarrow> string option" where
  "rows_of w = tb_find (ad_scopes (wo_db w))"

text \<open>The primary key holds; and nothing but the faults to come and the rows differs.\<close>

definition rows_ok :: "script_world \<Rightarrow> bool" where
  "rows_ok w \<longleftrightarrow> tb_ok (ad_scopes (wo_db w))"

definition same_view :: "script_world \<Rightarrow> script_world \<Rightarrow> bool" where
  "same_view w w' \<longleftrightarrow> w' = w\<lparr>wo_faults := wo_faults w', wo_db := wo_db w'\<rparr>"

lemma same_view_fields:
  assumes "same_view w w'"
  shows "wo_registry w' = wo_registry w" "wo_values w' = wo_values w" "wo_grants w' = wo_grants w" "wo_asks w' = wo_asks w"
    "wo_out w' = wo_out w" "wo_uuids w' = wo_uuids w" "wo_tabs w' = wo_tabs w" "wo_nonces w' = wo_nonces w"
    "wo_ask_seq w' = wo_ask_seq w" "wo_counts w' = wo_counts w" "wo_now w' = wo_now w"
  using assms by (cases w; cases w'; simp add: same_view_def)+

lemma next_fault_view: "take_fault w = (f, w1) \<Longrightarrow> \<exists>fs. w1 = w\<lparr>wo_faults := fs\<rparr>"
  by (cases w) (auto simp: take_fault_def split: list.splits)

lemma db_save_cases:
  assumes "db_save ext k t w = (b, w')"
  shows "same_view w w' \<and> (rows_ok w \<longrightarrow> rows_ok w') \<and> rows_of w' = (if b then (rows_of w)(k \<mapsto> t) else rows_of w)"
proof -
  obtain f w1 where f: "take_fault w = (f, w1)" by fastforce
  obtain fs where w1: "w1 = w\<lparr>wo_faults := fs\<rparr>" using next_fault_view[OF f] by blast
  show ?thesis using assms
    by (auto simp: db_save_def f w1 save_scope_def stmt_def same_view_def rows_ok_def rows_of_def split: sum.splits option.splits)
qed

lemma db_load_cases:
  assumes "db_load k w = (r, w')"
  shows "same_view w w' \<and> (rows_ok w \<longrightarrow> rows_ok w') \<and> rows_of w' = rows_of w \<and> (\<forall>x. r = Inr x \<longrightarrow> x = rows_of w k)"
proof -
  obtain f w1 where f: "take_fault w = (f, w1)" by fastforce
  obtain fs where w1: "w1 = w\<lparr>wo_faults := fs\<rparr>" using next_fault_view[OF f] by blast
  show ?thesis using assms
    by (auto simp: db_load_def f w1 load_scope_def query_def res_bind_def same_view_def rows_ok_def rows_of_def split: sum.splits option.splits)
qed

lemma distinct_map_sort_fst: "distinct (map fst xs) \<Longrightarrow> distinct (map fst (sort_key k xs))"
  by (auto simp: distinct_map)

lemma db_scopes_cases:
  assumes "db_scopes w = (r, w')"
  shows "same_view w w' \<and> (rows_ok w \<longrightarrow> rows_ok w') \<and> rows_of w' = rows_of w \<and> (\<forall>ks. r = Inr ks \<longrightarrow> set ks = dom (rows_of w) \<and> (rows_ok w \<longrightarrow> distinct ks))"
proof -
  obtain f w1 where f: "take_fault w = (f, w1)" by fastforce
  obtain fs where w1: "w1 = w\<lparr>wo_faults := fs\<rparr>" using next_fault_view[OF f] by blast
  have "set (map fst (tb_ordered (ad_scopes (wo_db w)))) = dom (rows_of w)"
    by (auto simp: tb_ordered_def rows_of_def tb_find_None domIff set_eq_iff)
  moreover have "distinct (map fst (tb_ordered (ad_scopes (wo_db w))))" if "rows_ok w"
    using that by (simp add: rows_ok_def tb_ok_def tb_ordered_def distinct_map_sort_fst)
  ultimately show ?thesis using assms
    by (auto simp: db_scopes_def f w1 list_scopes_def query_def res_bind_def same_view_def rows_ok_def rows_of_def split: sum.splits option.splits)
qed

lemma tb_ok_fold_rows:
  assumes "tb_ok (ad_scopes db)"
  shows "tb_ok (ad_scopes (fold (\<lambda>s. s) (map (save_row now) saves @ map delete_row deletes) db))"
proof -
  have "tb_ok (ad_scopes (fold (\<lambda>s. s) (map delete_row deletes) db))" if "tb_ok (ad_scopes db)" for db
    using that by (induction deletes arbitrary: db) (auto simp: delete_row_def)
  moreover have "tb_ok (ad_scopes (fold (\<lambda>s. s) (map (save_row now) saves) db))"
    using assms by (induction saves arbitrary: db) (auto simp: save_row_def)
  ultimately show ?thesis by simp
qed

lemma db_change_cases:
  assumes "db_change ext saves deletes w = (b, w')"
  shows "same_view w w' \<and> (rows_ok w \<longrightarrow> rows_ok w') \<and> rows_of w' = (if b then (rows_of w ++ map_of (rev saves)) |` (- set deletes) else rows_of w)"
proof -
  obtain f w1 where f: "take_fault w = (f, w1)" by fastforce
  obtain fs where w1: "w1 = w\<lparr>wo_faults := fs\<rparr>" using next_fault_view[OF f] by blast
  obtain r db where c: "change_scopes f (se_is_json ext) (wo_now w) saves deletes (wo_db w) = (r, db)" by fastforce
  have b: "b \<longleftrightarrow> r = Inr ()" and w': "w' = w1\<lparr>wo_db := db\<rparr>"
    using assms by (auto simp: db_change_def f w1 c split: sum.splits)
  have "db = wo_db w \<or> r = Inr () \<and> db = fold (\<lambda>s. s) (map (save_row (wo_now w)) saves @ map delete_row deletes) (wo_db w)"
    using c by (auto simp: change_scopes_def split: sum.splits dest: transaction_cases)
  moreover have "r \<noteq> Inr () \<Longrightarrow> db = wo_db w"
    using c by (auto simp: change_scopes_def split: sum.splits dest: transaction_cases)
  moreover have "r = Inr () \<Longrightarrow> db = fold (\<lambda>s. s) (map (save_row (wo_now w)) saves @ map delete_row deletes) (wo_db w)"
    using c by (auto simp: change_scopes_def split: sum.splits dest: transaction_cases)
  ultimately show ?thesis
    by (auto simp: b w' w1 same_view_def rows_ok_def rows_of_def fold_deletes fold_saves tb_ok_fold_rows[simplified])
qed


section \<open>What memory must say\<close>

type_synonym rows = "string \<rightharpoonup> string"

text \<open>The rows decoded as a restart would.\<close>

definition disk_script :: "script_env \<Rightarrow> rows \<Rightarrow> string \<Rightarrow> script option" where
  "disk_script ext row i = Option.bind (row (script_scope i)) (se_unscript ext)"

definition disk_grants :: "script_env \<Rightarrow> rows \<Rightarrow> grant_table option" where
  "disk_grants ext row = (case row GRANTS_SCOPE of None \<Rightarrow> Some Map.empty | Some t \<Rightarrow> se_ungrants ext t)"

definition disk_values :: "script_env \<Rightarrow> rows \<Rightarrow> string \<Rightarrow> script_values option" where
  "disk_values ext row i = (case row (values_scope i) of None \<Rightarrow> Some Map.empty | Some t \<Rightarrow> se_unvalues ext t)"

definition by_id :: "script list \<Rightarrow> string \<rightharpoonup> script" where
  "by_id ss = map_of (map (\<lambda>s. (sc_id s, s)) ss)"

definition reg_ok :: "script_env \<Rightarrow> rows \<Rightarrow> script list option \<Rightarrow> bool" where
  "reg_ok ext row reg \<longleftrightarrow> (case reg of None \<Rightarrow> True | Some ss \<Rightarrow> distinct (map sc_id ss) \<and> by_id ss = disk_script ext row)"

definition grants_ok :: "script_env \<Rightarrow> rows \<Rightarrow> grant_table option \<Rightarrow> bool" where
  "grants_ok ext row g \<longleftrightarrow> g = None \<or> disk_grants ext row = g"

definition vals_ok :: "script_env \<Rightarrow> rows \<Rightarrow> (string \<rightharpoonup> script_values) \<Rightarrow> bool" where
  "vals_ok ext row vals \<longleftrightarrow> (\<forall>i v. vals i = Some v \<longrightarrow> disk_values ext row i = Some v)"

text \<open>An id that is still to be drawn names no stored script.\<close>

definition ids_fresh :: "script_env \<Rightarrow> rows \<Rightarrow> nat \<Rightarrow> bool" where
  "ids_fresh ext row n \<longleftrightarrow> (\<forall>m\<ge>n. row (script_scope (se_uuid ext m)) = None)"

definition granted_pairs :: "grant_table \<Rightarrow> (string \<times> string) set" where
  "granted_pairs g = {(i, h). grant_decision g i h}"

definition disk_pairs :: "script_env \<Rightarrow> rows \<Rightarrow> (string \<times> string) set" where
  "disk_pairs ext row = (case disk_grants ext row of None \<Rightarrow> {} | Some g \<Rightarrow> granted_pairs g)"

text \<open>serde_json reads back what it wrote (of finite maps, which is all there are), and the random ids differ.\<close>

definition codecs :: "script_env \<Rightarrow> bool" where
  "codecs ext \<longleftrightarrow>
     (\<forall>s. se_unscript ext (se_script ext s) = Some s) \<and>
     (\<forall>g. finite (dom g) \<longrightarrow> se_ungrants ext (se_grants ext g) = Some g) \<and>
     (\<forall>t g. se_ungrants ext t = Some g \<longrightarrow> finite (dom g)) \<and>
     (\<forall>v. finite (dom v) \<longrightarrow> se_unvalues ext (se_values ext v) = Some v) \<and>
     (\<forall>t v. se_unvalues ext t = Some v \<longrightarrow> finite (dom v)) \<and>
     inj (se_uuid ext)"

definition host_inv :: "script_env \<Rightarrow> (string \<times> string) set \<Rightarrow> script_world \<Rightarrow> bool" where
  "host_inv ext S w \<longleftrightarrow> rows_ok w \<and> reg_ok ext (rows_of w) (wo_registry w) \<and> grants_ok ext (rows_of w) (wo_grants w) \<and>
     vals_ok ext (rows_of w) (wo_values w) \<and> ids_fresh ext (rows_of w) (wo_uuids w) \<and> disk_pairs ext (rows_of w) \<subseteq> S"

section \<open>Rows that do not meet\<close>

lemma scope_apart [simp]:
  "script_scope i \<noteq> GRANTS_SCOPE" "GRANTS_SCOPE \<noteq> script_scope i"
  "script_scope i \<noteq> values_scope j" "values_scope j \<noteq> script_scope i"
  "values_scope i \<noteq> GRANTS_SCOPE" "GRANTS_SCOPE \<noteq> values_scope i"
  "script_scope i = script_scope j \<longleftrightarrow> i = j" "values_scope i = values_scope j \<longleftrightarrow> i = j"
  by (auto simp: script_scope_def SCRIPT_SCOPE_PREFIX_def GRANTS_SCOPE_def values_scope_def)

lemma disk_upd [simp]:
  "disk_script ext (row(GRANTS_SCOPE \<mapsto> t)) = disk_script ext row"
  "disk_script ext (row(values_scope i \<mapsto> t)) = disk_script ext row"
  "disk_script ext (row(script_scope i \<mapsto> t)) = (disk_script ext row)(i := se_unscript ext t)"
  "disk_grants ext (row(script_scope i \<mapsto> t)) = disk_grants ext row"
  "disk_grants ext (row(values_scope i \<mapsto> t)) = disk_grants ext row"
  "disk_grants ext (row(GRANTS_SCOPE \<mapsto> t)) = se_ungrants ext t"
  "disk_values ext (row(script_scope i \<mapsto> t)) = disk_values ext row"
  "disk_values ext (row(GRANTS_SCOPE \<mapsto> t)) = disk_values ext row"
  "disk_values ext (row(values_scope i \<mapsto> t)) = (disk_values ext row)(i := se_unvalues ext t)"
  by (auto simp: disk_script_def disk_grants_def disk_values_def fun_eq_iff)

lemma fresh_upd [simp]:
  "ids_fresh ext (row(GRANTS_SCOPE \<mapsto> t)) n = ids_fresh ext row n"
  "ids_fresh ext (row(values_scope i \<mapsto> t)) n = ids_fresh ext row n"
  by (auto simp: ids_fresh_def)

section \<open>What the parts keep\<close>

lemma view_simps [simp]:
  "rows_of (w\<lparr>wo_registry := r\<rparr>) = rows_of w" "rows_of (w\<lparr>wo_grants := g\<rparr>) = rows_of w" "rows_of (w\<lparr>wo_values := v\<rparr>) = rows_of w"
  "rows_of (w\<lparr>wo_asks := a\<rparr>) = rows_of w" "rows_of (w\<lparr>wo_uuids := n\<rparr>) = rows_of w" "rows_of (w\<lparr>wo_nonces := x\<rparr>) = rows_of w"
  "rows_of (w\<lparr>wo_out := es\<rparr>) = rows_of w" "rows_of (w\<lparr>wo_counts := c\<rparr>) = rows_of w" "rows_of (w\<lparr>wo_ask_seq := n\<rparr>) = rows_of w"
  "rows_of (w\<lparr>wo_tabs := ts\<rparr>) = rows_of w"
  "rows_ok (w\<lparr>wo_registry := r\<rparr>) = rows_ok w" "rows_ok (w\<lparr>wo_grants := g\<rparr>) = rows_ok w" "rows_ok (w\<lparr>wo_values := v\<rparr>) = rows_ok w"
  "rows_ok (w\<lparr>wo_asks := a\<rparr>) = rows_ok w" "rows_ok (w\<lparr>wo_uuids := n\<rparr>) = rows_ok w" "rows_ok (w\<lparr>wo_nonces := x\<rparr>) = rows_ok w"
  "rows_ok (w\<lparr>wo_out := es\<rparr>) = rows_ok w" "rows_ok (w\<lparr>wo_counts := c\<rparr>) = rows_ok w" "rows_ok (w\<lparr>wo_ask_seq := n\<rparr>) = rows_ok w"
  "rows_ok (w\<lparr>wo_tabs := ts\<rparr>) = rows_ok w"
  by (simp_all add: rows_of_def rows_ok_def)

text \<open>Only what is said to the outside, and the questions, may differ.\<close>

definition quiet :: "script_world \<Rightarrow> script_world \<Rightarrow> bool" where
  "quiet w w' \<longleftrightarrow> wo_asks w' = wo_asks w \<and> wo_out w' = wo_out w \<and> wo_uuids w' = wo_uuids w \<and> wo_tabs w' = wo_tabs w \<and>
     wo_nonces w' = wo_nonces w"

lemma quiet_trans: "quiet w w1 \<Longrightarrow> quiet w1 w2 \<Longrightarrow> quiet w w2"
  by (simp add: quiet_def)

lemma same_view_quiet: "same_view w w' \<Longrightarrow> quiet w w'"
  by (simp add: quiet_def same_view_fields)

lemma inv_same:
  assumes "host_inv ext S w" "same_view w w'" "rows_ok w \<longrightarrow> rows_ok w'" "rows_of w' = rows_of w"
  shows "host_inv ext S w'"
  using assms by (simp add: host_inv_def same_view_fields)

lemma inv_mono: "host_inv ext S w \<Longrightarrow> S \<subseteq> T \<Longrightarrow> host_inv ext T w"
  by (auto simp: host_inv_def)

lemma by_id_Some: "distinct (map sc_id ss) \<Longrightarrow> by_id ss i = Some s \<longleftrightarrow> s \<in> set ss \<and> sc_id s = i"
proof -
  assume "distinct (map sc_id ss)"
  then have "distinct (map fst (map (\<lambda>s. (sc_id s, s)) ss))" by (simp add: comp_def)
  from map_of_eq_Some_iff[OF this, of i s] show ?thesis by (auto simp: by_id_def)
qed

lemma by_id_perm:
  assumes "distinct (map sc_id ss)" "set ts = set ss" "distinct ts"
  shows "by_id ts = by_id ss" "distinct (map sc_id ts)"
proof -
  show d: "distinct (map sc_id ts)" using assms by (simp add: distinct_map)
  have "by_id ts i = Some s \<longleftrightarrow> by_id ss i = Some s" for i s
    by (simp add: by_id_Some[OF d] by_id_Some[OF assms(1)] assms(2))
  then have "by_id ts i = by_id ss i" for i by (metis option.exhaust)
  then show "by_id ts = by_id ss" by (rule ext)
qed

lemma by_id_None: "by_id ss i = None \<longleftrightarrow> i \<notin> sc_id ` set ss"
  by (auto simp: by_id_def map_of_eq_None_iff image_image)

lemma find_by_id: "find (\<lambda>s. sc_id s = i) ss = by_id ss i"
  by (induction ss) (auto simp: by_id_def)

lemma sort_scripts_perm: "set (sort_scripts ss) = set ss" "distinct ss \<Longrightarrow> distinct (sort_scripts ss)"
  by (simp_all add: sort_scripts_def)

lemma load_scripts_cases:
  "load_scripts ext ks w = (r, w') \<Longrightarrow> same_view w w' \<and> (rows_ok w \<longrightarrow> rows_ok w') \<and> rows_of w' = rows_of w \<and>
     (\<forall>ss. r = Inr ss \<longrightarrow> map (\<lambda>s. script_scope (sc_id s)) ss = ks \<and> (\<forall>s\<in>set ss. disk_script ext (rows_of w) (sc_id s) = Some s))"
proof (induction ks arbitrary: w r w')
  case Nil
  then show ?case by (auto simp: same_view_def)
next
  case (Cons k ks)
  obtain q w1 where q: "db_load k w = (q, w1)" by fastforce
  note l = db_load_cases[OF q]
  obtain q2 w2 where q2: "load_scripts ext ks w1 = (q2, w2)" by fastforce
  note l2 = Cons.IH[OF q2]
  have "same_view w w2" using l l2 by (cases w; cases w1; cases w2; simp add: same_view_def)
  moreover have "disk_script ext (rows_of w) (sc_id s) = Some s"
    if "q = Inr (Some t)" "se_unscript ext t = Some s" "script_scope (sc_id s) = k" for s t
    using l that by (auto simp: disk_script_def dest: sym)
  ultimately show ?case using Cons.prems l l2
    by (auto simp: q q2 split: sum.splits option.splits if_splits)
qed

lemma ensure_loaded_keeps:
  assumes "host_inv ext S w" "ensure_loaded ext w = (r, w')"
  shows "host_inv ext S w' \<and> quiet w w' \<and> wo_grants w' = wo_grants w \<and> wo_values w' = wo_values w \<and> rows_of w' = rows_of w \<and>
    (r = Inr () \<longrightarrow> (\<exists>ss. wo_registry w' = Some ss))"
proof (cases "wo_registry w")
  case (Some ss)
  with assms show ?thesis by (simp add: ensure_loaded_def quiet_def) 
next
  case None
  obtain q w1 where q: "db_scopes w = (q, w1)" by fastforce
  note l = db_scopes_cases[OF q]
  have i1: "host_inv ext S w1" and k1: "quiet w w1" using l assms(1) inv_same same_view_quiet by blast+
  note f1 = same_view_fields[of w w1]
  show ?thesis
  proof (cases q)
    case (Inl e)
    with assms(2) None l i1 k1 f1 show ?thesis by (auto simp: ensure_loaded_def q)
  next
    case (Inr ks)
    let ?ks = "filter (prefix SCRIPT_SCOPE_PREFIX) ks"
    obtain q2 w2 where q2: "load_scripts ext ?ks w1 = (q2, w2)" by fastforce
    note l2 = load_scripts_cases[OF q2]
    have i2: "host_inv ext S w2" and k2: "quiet w w2"
      using l2 i1 k1 inv_same same_view_quiet quiet_trans by blast+
    note f2 = same_view_fields[of w1 w2]
    show ?thesis
    proof (cases q2)
      case e: (Inl e)
      with assms(2) None l l2 i2 k2 f1 f2 Inr show ?thesis by (auto simp: ensure_loaded_def q q2)
    next
      case ss: (Inr ss)
      have scopes: "map (\<lambda>s. script_scope (sc_id s)) ss = ?ks" and dec: "\<forall>s\<in>set ss. disk_script ext (rows_of w) (sc_id s) = Some s"
        using l2 ss l by auto
      have "distinct ?ks" using l Inr assms(1) by (auto simp: host_inv_def)
      then have d: "distinct (map sc_id ss)" unfolding scopes[symmetric] by (auto simp: distinct_map inj_on_def)
      have dom: "script_scope ` sc_id ` set ss = {k \<in> dom (rows_of w). prefix SCRIPT_SCOPE_PREFIX k}"
        using arg_cong[OF scopes, of set] l Inr by (auto simp: image_image)
      have "by_id ss i = disk_script ext (rows_of w) i" for i
      proof (cases "i \<in> sc_id ` set ss")
        case True
        then obtain s where "s \<in> set ss" "sc_id s = i" by blast
        then show ?thesis using dec d by_id_Some[OF d, of i s] by auto
      next
        case False
        then have "script_scope i \<notin> {k \<in> dom (rows_of w). prefix SCRIPT_SCOPE_PREFIX k}"
          unfolding dom[symmetric] by auto
        then have "rows_of w (script_scope i) = None" by (auto simp: script_scope_def)
        then show ?thesis using False by_id_None[of ss i] by (simp add: disk_script_def)
      qed
      then have "by_id ss = disk_script ext (rows_of w)" by (rule ext)
      then have r: "reg_ok ext (rows_of w) (Some (sort_scripts ss))"
        using by_id_perm[OF d, of "sort_scripts ss"] sort_scripts_perm d by (simp add: reg_ok_def distinct_map)
      have "w' = w2\<lparr>wo_registry := Some (sort_scripts ss)\<rparr>" using assms(2) None Inr ss by (simp add: ensure_loaded_def q q2)
      then show ?thesis using i2 k2 r l l2 f1 f2 by (auto simp: host_inv_def quiet_def)
    qed
  qed
qed

lemma ensure_grants_loaded_keeps:
  assumes "host_inv ext S w" "ensure_grants_loaded ext w = (r, w')"
  shows "host_inv ext S w' \<and> quiet w w' \<and> wo_registry w' = wo_registry w \<and> wo_values w' = wo_values w \<and> rows_of w' = rows_of w \<and>
    (r = Inr () \<longrightarrow> (\<exists>g. wo_grants w' = Some g \<and> disk_grants ext (rows_of w) = Some g)) \<and> wo_grants w' \<in> {wo_grants w, disk_grants ext (rows_of w)}"
proof (cases "wo_grants w")
  case (Some g)
  with assms show ?thesis by (auto simp: ensure_grants_loaded_def quiet_def host_inv_def grants_ok_def)
next
  case None
  obtain q w1 where q: "db_load GRANTS_SCOPE w = (q, w1)" by fastforce
  note l = db_load_cases[OF q]
  have i1: "host_inv ext S w1" and k1: "quiet w w1" using l assms(1) inv_same same_view_quiet by blast+
  have f1: "wo_registry w1 = wo_registry w" "wo_values w1 = wo_values w" "wo_grants w1 = wo_grants w"
    using l by (simp_all add: same_view_fields)
  have "host_inv ext S (w1\<lparr>wo_grants := Some g\<rparr>)" if "disk_grants ext (rows_of w) = Some g" for g
    using i1 l that by (simp add: host_inv_def grants_ok_def)
  moreover have "quiet w (w1\<lparr>wo_grants := g\<rparr>)" for g using k1 by (simp add: quiet_def)
  ultimately show ?thesis
    using assms(2) None l i1 k1 f1
    by (auto simp: ensure_grants_loaded_def q disk_grants_def split: sum.splits option.splits)
qed

lemma values_of_keeps:
  assumes "host_inv ext S w" "values_of ext i w = (r, w')"
  shows "host_inv ext S w' \<and> quiet w w' \<and> wo_registry w' = wo_registry w \<and> wo_grants w' = wo_grants w \<and> rows_of w' = rows_of w \<and>
    (\<forall>v. r = Inr v \<longrightarrow> disk_values ext (rows_of w) i = Some v)"
proof (cases "wo_values w i")
  case (Some v)
  with assms show ?thesis by (auto simp: values_of_def quiet_def host_inv_def vals_ok_def)
next
  case None
  obtain q w1 where q: "db_load (values_scope i) w = (q, w1)" by fastforce
  note l = db_load_cases[OF q]
  have i1: "host_inv ext S w1" and k1: "quiet w w1" using l assms(1) inv_same same_view_quiet by blast+
  have f1: "wo_registry w1 = wo_registry w" "wo_values w1 = wo_values w" "wo_grants w1 = wo_grants w"
    using l by (simp_all add: same_view_fields)
  have "host_inv ext S (w1\<lparr>wo_values := (wo_values w1)(i \<mapsto> v)\<rparr>)" if "disk_values ext (rows_of w) i = Some v" for v
    using i1 l that by (auto simp: host_inv_def vals_ok_def)
  moreover have "quiet w (w1\<lparr>wo_values := v\<rparr>)" for v using k1 by (simp add: quiet_def)
  ultimately show ?thesis
    using assms(2) None l i1 k1 f1
    by (auto simp: values_of_def q disk_values_def split: sum.splits option.splits)
qed

lemma disk_grants_finite: "codecs ext \<Longrightarrow> disk_grants ext row = Some g \<Longrightarrow> finite (dom g)"
  by (auto simp: codecs_def disk_grants_def split: option.splits)

lemma disk_values_finite: "codecs ext \<Longrightarrow> disk_values ext row i = Some v \<Longrightarrow> finite (dom v)"
  by (auto simp: codecs_def disk_values_def split: option.splits)

lemma in_granted_pairs [simp]: "(i, h) \<in> granted_pairs g \<longleftrightarrow> (\<exists>hs. g i = Some hs \<and> h \<in> set hs)"
  by (auto simp: granted_pairs_def grant_decision_def list_ex_iff split: option.splits)

lemma granted_pairs_upd: "granted_pairs (g(i \<mapsto> hs)) = {p \<in> granted_pairs g. fst p \<noteq> i} \<union> {i} \<times> set hs"
  by (auto split: if_splits)

lemma granted_pairs_del: "granted_pairs (g(i := None)) = {p \<in> granted_pairs g. fst p \<noteq> i}"
  by (auto split: if_splits)

lemma disk_pairs_grants: "disk_grants ext row = Some g \<Longrightarrow> disk_pairs ext row = granted_pairs g"
  by (simp add: disk_pairs_def)

lemma disk_pairs_upd [simp]:
  "disk_pairs ext (row(script_scope i \<mapsto> t)) = disk_pairs ext row"
  "disk_pairs ext (row(values_scope i \<mapsto> t)) = disk_pairs ext row"
  by (simp_all add: disk_pairs_def)

lemma caches_upd [simp]:
  "reg_ok ext (row(GRANTS_SCOPE \<mapsto> t)) reg = reg_ok ext row reg"
  "reg_ok ext (row(values_scope i \<mapsto> t)) reg = reg_ok ext row reg"
  "grants_ok ext (row(script_scope i \<mapsto> t)) g = grants_ok ext row g"
  "grants_ok ext (row(values_scope i \<mapsto> t)) g = grants_ok ext row g"
  "vals_ok ext (row(script_scope i \<mapsto> t)) vals = vals_ok ext row vals"
  "vals_ok ext (row(GRANTS_SCOPE \<mapsto> t)) vals = vals_ok ext row vals"
  by (simp_all add: reg_ok_def grants_ok_def vals_ok_def split: option.split)

text \<open>A table of grants that is saved and then held.\<close>

lemma persist_grants_keeps:
  assumes "codecs ext" "host_inv ext S w" "persist_grants ext g w = (r, w')" "finite (dom g)" "granted_pairs g \<subseteq> T"
  shows "quiet w w'" "r = Inr () \<Longrightarrow> host_inv ext T (w'\<lparr>wo_grants := Some g\<rparr>)" "r \<noteq> Inr () \<Longrightarrow> host_inv ext S w'"
    "wo_registry w' = wo_registry w" "wo_values w' = wo_values w" "wo_grants w' = wo_grants w" "r \<noteq> Inr () \<Longrightarrow> rows_of w' = rows_of w"
proof -
  obtain b w1 where b: "db_save ext GRANTS_SCOPE (se_grants ext g) w = (b, w1)" by fastforce
  note l = db_save_cases[OF b]
  have w': "w' = w1" and r: "r = Inr () \<longleftrightarrow> b" using assms(3) by (auto simp: persist_grants_def b split: bool.splits)
  show "quiet w w'" "wo_registry w' = wo_registry w" "wo_values w' = wo_values w" "wo_grants w' = wo_grants w"
    using l by (simp_all add: w' same_view_quiet same_view_fields)
  show "r \<noteq> Inr () \<Longrightarrow> host_inv ext S w'" using l assms(2) inv_same by (auto simp: w' r)
  show "r \<noteq> Inr () \<Longrightarrow> rows_of w' = rows_of w" using l by (auto simp: w' r)
  have "se_ungrants ext (se_grants ext g) = Some g" using assms(1,4) by (simp add: codecs_def)
  then show "r = Inr () \<Longrightarrow> host_inv ext T (w'\<lparr>wo_grants := Some g\<rparr>)"
    using l assms(2,5) by (auto simp: w' r host_inv_def grants_ok_def[of _ _ "Some g"] same_view_fields[of w w1] disk_pairs_def)
qed

lemma host_granted_keeps:
  assumes "host_inv ext S w" "host_granted ext i host w = (b, w')"
  shows "host_inv ext S w' \<and> quiet w w' \<and> wo_registry w' = wo_registry w \<and> rows_of w' = rows_of w \<and> (b \<longrightarrow> (i, host) \<in> S)"
proof -
  obtain q w1 where q: "ensure_grants_loaded ext w = (q, w1)" by fastforce
  note l = ensure_grants_loaded_keeps[OF assms(1) q]
  have "(i, host) \<in> S" if "disk_grants ext (rows_of w) = Some g" "grant_decision g i host" for g
    using that assms(1) by (auto simp: host_inv_def disk_pairs_def granted_pairs_def)
  then show ?thesis using assms(2) l
    by (auto simp: host_granted_def q split: sum.splits option.splits)
qed

lemma record_grant_keeps:
  assumes "codecs ext" "host_inv ext S w" "record_grant ext i host w = (r, w')"
  shows "host_inv ext (insert (i, host) S) w' \<and> quiet w w'"
proof -
  obtain q w1 where q: "ensure_grants_loaded ext w = (q, w1)" by fastforce
  note l = ensure_grants_loaded_keeps[OF assms(2) q]
  have i1: "host_inv ext (insert (i, host) S) w1" using l inv_mono by blast
  show ?thesis
  proof (cases q)
    case (Inl e)
    with assms(3) l i1 show ?thesis by (auto simp: record_grant_def q)
  next
    case (Inr u)
    then obtain g where g: "wo_grants w1 = Some g" "disk_grants ext (rows_of w) = Some g" using l by auto
    have G: "grants_of w1 = g" using g by (simp add: grants_of_def)
    let ?hosts = "case g i of Some hs \<Rightarrow> hs | None \<Rightarrow> []"
    let ?g = "g(i \<mapsto> ?hosts @ [host])"
    have eq: "(r, w') = (if host \<in> set ?hosts then (Inr (), w1)
        else case persist_grants ext ?g w1 of (Inl e, w2) \<Rightarrow> (Inl e, w2) | (Inr _, w2) \<Rightarrow> (Inr (), w2\<lparr>wo_grants := Some ?g\<rparr>))"
      unfolding assms(3)[symmetric] record_grant_def by (simp only: q Inr prod.case sum.case Let_def G)
    show ?thesis
    proof (cases "host \<in> set ?hosts")
      case True
      then have "w' = w1" using eq by (simp only: if_P prod.inject)
      with l i1 show ?thesis by simp
    next
      case False
      obtain q2 w2 where q2: "persist_grants ext ?g w1 = (q2, w2)" by fastforce
      have "granted_pairs g \<subseteq> S" using assms(2) g by (simp add: host_inv_def disk_pairs_def)
      then have "granted_pairs ?g \<subseteq> insert (i, host) S" unfolding granted_pairs_upd by (cases "g i") force+
      moreover have "finite (dom ?g)" using disk_grants_finite[OF assms(1) g(2)] by simp
      moreover have "host_inv ext S w1" using l by simp
      ultimately have p: "quiet w1 w2" "q2 = Inr () \<Longrightarrow> host_inv ext (insert (i, host) S) (w2\<lparr>wo_grants := Some ?g\<rparr>)"
        "q2 \<noteq> Inr () \<Longrightarrow> host_inv ext S w2"
        using persist_grants_keeps[OF assms(1) _ q2] by blast+
      show ?thesis
      proof (cases q2)
        case e: (Inl e)
        have "w' = w2" using eq False by (simp only: if_not_P if_False q2 e prod.case sum.case prod.inject)
        then show ?thesis using p e inv_mono quiet_trans l by blast
      next
        case (Inr u2)
        have "w' = w2\<lparr>wo_grants := Some ?g\<rparr>"
          using eq False by (simp only: if_not_P if_False q2 Inr prod.case sum.case prod.inject)
        then show ?thesis using p Inr l by (auto simp: quiet_def)
      qed
    qed
  qed
qed

section \<open>What the handlers keep\<close>

text \<open>More is said, and what is sent goes to a host of \<open>S\<close>.\<close>

definition sends_in :: "(string \<times> string) set \<Rightarrow> script_world \<Rightarrow> script_world \<Rightarrow> bool" where
  "sends_in S w w' \<longleftrightarrow> (\<exists>new. wo_out w' = wo_out w @ new \<and> (\<forall>tab i req h. RequestSent tab i req h \<in> set new \<longrightarrow> (i, h) \<in> S))"

definition host_keeps :: "script_env \<Rightarrow> (string \<times> string) set \<Rightarrow> script_world \<Rightarrow> script_world \<Rightarrow> bool" where
  "host_keeps ext S w w' \<longleftrightarrow> host_inv ext S w' \<and> sends_in S w w'"

lemma sends_quiet: "quiet w w' \<Longrightarrow> sends_in S w w'"
  by (simp add: quiet_def sends_in_def)

lemma sends_trans: "sends_in S w w1 \<Longrightarrow> sends_in S w1 w2 \<Longrightarrow> sends_in S w w2"
  by (force simp: sends_in_def)

lemma host_keeps_refl: "host_inv ext S w \<Longrightarrow> host_keeps ext S w w"
  by (simp add: host_keeps_def sends_in_def)

lemma host_keeps_trans: "host_keeps ext S w w1 \<Longrightarrow> host_keeps ext S w1 w2 \<Longrightarrow> host_keeps ext S w w2"
  using sends_trans by (auto simp: host_keeps_def)

lemma host_keeps_quiet: "host_inv ext S w' \<Longrightarrow> quiet w w' \<Longrightarrow> host_keeps ext S w w'"
  by (simp add: host_keeps_def sends_quiet)

lemma host_keeps_inv: "host_keeps ext S w w' \<Longrightarrow> host_inv ext S w'"
  by (simp add: host_keeps_def)

lemma host_keeps_step: "host_keeps ext S w w1 \<Longrightarrow> (host_inv ext S w1 \<Longrightarrow> host_keeps ext S w1 w2) \<Longrightarrow> host_keeps ext S w w2"
  using host_keeps_inv host_keeps_trans by blast

lemma inv_other [simp]:
  "host_inv ext S (w\<lparr>wo_asks := a\<rparr>) = host_inv ext S w" "host_inv ext S (w\<lparr>wo_nonces := x\<rparr>) = host_inv ext S w"
  "host_inv ext S (w\<lparr>wo_out := es\<rparr>) = host_inv ext S w" "host_inv ext S (w\<lparr>wo_counts := c\<rparr>) = host_inv ext S w"
  "host_inv ext S (w\<lparr>wo_ask_seq := n\<rparr>) = host_inv ext S w" "host_inv ext S (w\<lparr>wo_tabs := ts\<rparr>) = host_inv ext S w"
  by (simp_all add: host_inv_def)

lemma inv_uuids: "host_inv ext S w \<Longrightarrow> host_inv ext S (w\<lparr>wo_uuids := wo_uuids w + 1\<rparr>)"
  by (simp add: host_inv_def ids_fresh_def)

lemma sends_other [simp]:
  "sends_in S w (w'\<lparr>wo_asks := a\<rparr>) = sends_in S w w'" "sends_in S w (w'\<lparr>wo_nonces := x\<rparr>) = sends_in S w w'"
  "sends_in S w (w'\<lparr>wo_uuids := n\<rparr>) = sends_in S w w'" "sends_in S w (w'\<lparr>wo_counts := c\<rparr>) = sends_in S w w'"
  "sends_in S w (w'\<lparr>wo_ask_seq := n\<rparr>) = sends_in S w w'" "sends_in S w (w'\<lparr>wo_tabs := ts\<rparr>) = sends_in S w w'"
  "sends_in S w (w'\<lparr>wo_values := v\<rparr>) = sends_in S w w'" "sends_in S w (w'\<lparr>wo_registry := rg\<rparr>) = sends_in S w w'"
  "sends_in S w (w'\<lparr>wo_grants := g\<rparr>) = sends_in S w w'"
  by (simp_all add: sends_in_def)

lemma host_keeps_other [simp]:
  "host_keeps ext S w (w'\<lparr>wo_asks := a\<rparr>) = host_keeps ext S w w'" "host_keeps ext S w (w'\<lparr>wo_nonces := x\<rparr>) = host_keeps ext S w w'"
  "host_keeps ext S w (w'\<lparr>wo_counts := c\<rparr>) = host_keeps ext S w w'" "host_keeps ext S w (w'\<lparr>wo_ask_seq := n\<rparr>) = host_keeps ext S w w'"
  "host_keeps ext S w (w'\<lparr>wo_tabs := ts\<rparr>) = host_keeps ext S w w'"
  by (simp_all add: host_keeps_def)

lemma host_keeps_emit:
  assumes "host_keeps ext S w w'" "\<forall>tab i req h. e = RequestSent tab i req h \<longrightarrow> (i, h) \<in> S"
  shows "host_keeps ext S w (emit e w')"
proof -
  have "sends_in S w' (emit e w')" using assms(2) by (force simp: sends_in_def emit_def)
  then show ?thesis using assms(1) sends_trans by (auto simp: host_keeps_def emit_def)
qed

lemma host_keeps_execute: "host_keeps ext S w w' \<Longrightarrow> (i, h) \<in> S \<Longrightarrow> host_keeps ext S w (execute_xhr tab i req h w')"
  unfolding execute_xhr_def Let_def by (intro host_keeps_emit) simp_all

lemma host_keeps_reply: "host_keeps ext S w w' \<Longrightarrow> host_keeps ext S w (xhr_reply tab i req ans w')"
  by (simp add: xhr_reply_def host_keeps_emit)

lemma host_keeps_fail: "host_keeps ext S w w' \<Longrightarrow> host_keeps ext S w (xhr_fail tab i req msg late w')"
  by (simp add: xhr_fail_def host_keeps_reply)

lemma host_keeps_front: "host_keeps ext S w w' \<Longrightarrow> host_keeps ext S w (emit_front_ask w')"
  by (simp add: emit_front_ask_def host_keeps_emit split: list.split)

lemma inject_all_keeps: "host_inv ext S w \<Longrightarrow> host_keeps ext S w (inject_all ext tab ss w)"
proof (induction ext tab ss w rule: inject_all.induct)
  case (1 ext tab w)
  then show ?case by (simp add: host_keeps_refl)
next
  case (2 ext tab s ss w)
  let ?n = "se_uuid ext (wo_uuids w)"
  let ?w1 = "w\<lparr>wo_uuids := wo_uuids w + 1, wo_nonces := (wo_nonces w)((tab, sc_id s) \<mapsto> ?n)\<rparr>"
  obtain r w2 where v: "values_of ext (sc_id s) ?w1 = (r, w2)" by fastforce
  have i1: "host_inv ext S ?w1" using inv_uuids[OF 2(3)] by simp
  note k = values_of_keeps[OF i1 v]
  have "host_keeps ext S ?w1 w2" using k host_keeps_quiet by blast
  moreover have "host_keeps ext S w ?w1" using i1 by (simp add: host_keeps_def sends_in_def)
  ultimately have k2: "host_keeps ext S w w2" using host_keeps_trans by blast
  show ?case
  proof (cases r)
    case (Inl e)
    with 2(1)[OF refl refl v[symmetric] Inl] k2 k v show ?thesis using host_keeps_trans by (auto simp: Let_def)
  next
    case (Inr vals)
    let ?e = "Injected tab (sc_id s) ?n vals"
    have "host_keeps ext S w (emit ?e w2)" using k2 by (simp add: host_keeps_emit)
    with 2(2)[OF refl refl v[symmetric] Inr] v Inr show ?thesis using host_keeps_trans host_keeps_inv by (fastforce simp: Let_def)
  qed
qed

lemma handle_query_keeps:
  assumes "host_inv ext S w"
  shows "host_keeps ext S w (handle_query ext tab url w)"
proof -
  let ?w = "emit (MenuReset tab) w"
  have k0: "host_keeps ext S w ?w" using assms by (simp add: host_keeps_refl host_keeps_emit)
  obtain r w1 where e: "ensure_loaded ext ?w = (r, w1)" by fastforce
  note l = ensure_loaded_keeps[OF host_keeps_inv[OF k0] e]
  have "host_keeps ext S ?w w1" using l host_keeps_quiet by blast
  then have "host_keeps ext S w w1" using k0 host_keeps_trans by blast
  then show ?thesis
    unfolding handle_query_def Let_def e prod.case
    using inject_all_keeps host_keeps_trans host_keeps_inv by (auto split: sum.split)
qed

lemma saved_values_inv:
  assumes "host_inv ext S w" "db_save ext (values_scope i) t w = (True, w')" "se_unvalues ext t = Some v"
  shows "host_inv ext S (w'\<lparr>wo_values := (wo_values w')(i \<mapsto> v)\<rparr>)" "quiet w w'"
proof -
  note l = db_save_cases[OF assms(2)]
  then show "quiet w w'" by (simp add: same_view_quiet)
  show "host_inv ext S (w'\<lparr>wo_values := (wo_values w')(i \<mapsto> v)\<rparr>)"
    using l assms(1,3) by (auto simp: host_inv_def same_view_fields[of w w'] vals_ok_def)
qed

lemma refused_save_inv:
  "host_inv ext S w \<Longrightarrow> db_save ext k t w = (False, w') \<Longrightarrow> host_inv ext S w' \<and> quiet w w'"
  using db_save_cases[of ext k t w False w'] inv_same same_view_quiet by auto

lemma handle_value_op_keeps:
  assumes "codecs ext" "host_inv ext S w"
  shows "host_keeps ext S w (handle_value_op ext i v w)"
proof (cases "Option.bind (json_get ''key'' v) json_as_str")
  case None
  then show ?thesis using assms by (simp add: handle_value_op_def host_keeps_refl)
next
  case (Some key)
  obtain r w1 where r: "values_of ext i w = (r, w1)" by fastforce
  note l = values_of_keeps[OF assms(2) r]
  then have k1: "host_keeps ext S w w1" and i1: "host_inv ext S w1" using host_keeps_quiet by blast+
  show ?thesis
  proof (cases r)
    case (Inl e)
    with Some r k1 show ?thesis by (simp add: handle_value_op_def)
  next
    case (Inr vals)
    have saved: "host_keeps ext S w (case db_save ext (values_scope i) (se_values ext new) w1 of
        (False, w2) \<Rightarrow> w2 | (True, w2) \<Rightarrow> w2\<lparr>wo_values := (wo_values w2)(i \<mapsto> new)\<rparr>)"
      if "finite (dom new)" for new
    proof -
      obtain b w2 where b: "db_save ext (values_scope i) (se_values ext new) w1 = (b, w2)" by fastforce
      have "se_unvalues ext (se_values ext new) = Some new" using assms(1) that by (simp add: codecs_def)
      then have "host_keeps ext S w1 (case (b, w2) of (False, w2) \<Rightarrow> w2 | (True, w2) \<Rightarrow> w2\<lparr>wo_values := (wo_values w2)(i \<mapsto> new)\<rparr>)"
        using b refused_save_inv[OF i1, of "values_scope i" "se_values ext new" w2] saved_values_inv[OF i1, of i "se_values ext new" w2 new]
        by (cases b) (auto simp: host_keeps_def sends_quiet)
      then show ?thesis unfolding b using k1 host_keeps_trans by blast
    qed
    have "finite (dom vals)" using l Inr disk_values_finite[OF assms(1)] by blast
    then show ?thesis
      unfolding handle_value_op_def Some option.case r prod.case Inr sum.case Let_def
      using k1 saved by (simp add: split: if_split)
  qed
qed

lemma host_keeps_if: "host_keeps ext S w x \<Longrightarrow> host_keeps ext S w y \<Longrightarrow> host_keeps ext S w (if b then x else y)"
  by simp

lemma host_keeps_option: "host_keeps ext S w x \<Longrightarrow> (\<And>v. host_keeps ext S w (f v)) \<Longrightarrow> host_keeps ext S w (case ov of None \<Rightarrow> x | Some v \<Rightarrow> f v)"
  by (cases ov) simp_all

lemma handle_xhr_request_keeps:
  assumes "host_inv ext S w"
  shows "host_keeps ext S w (handle_xhr_request ext tab i v w)"
proof -
  have asked: "host_keeps ext S w (case host_granted ext i host w of
      (True, w1) \<Rightarrow> execute_xhr tab i req host w1
    | (False, w1) \<Rightarrow> f w1)"
    if "\<And>w1. host_keeps ext S w w1 \<Longrightarrow> host_keeps ext S w (f w1)" for host req f
  proof -
    obtain b w1 where b: "host_granted ext i host w = (b, w1)" by fastforce
    note l = host_granted_keeps[OF assms b]
    then have "host_keeps ext S w w1" using host_keeps_quiet by blast
    with l that show ?thesis unfolding b prod.case by (cases b) (simp_all add: host_keeps_execute)
  qed
  have grown: "host_keeps ext S w w1 \<Longrightarrow> host_keeps ext S w (w1\<lparr>wo_ask_seq := n, wo_asks := q\<rparr>)" for w1 n q by simp
  show ?thesis
    unfolding handle_xhr_request_def Let_def
    by (intro host_keeps_if host_keeps_option asked host_keeps_fail host_keeps_front grown host_keeps_refl[OF assms])
qed

lemma handle_report_keeps:
  assumes "codecs ext" "host_inv ext S w"
  shows "host_keeps ext S w (handle_report ext tab cmd payload w)"
proof -
  obtain r w1 where r: "ensure_loaded ext w = (r, w1)" by fastforce
  note l = ensure_loaded_keeps[OF assms(2) r]
  then have k1: "host_keeps ext S w w1" and i1: "host_inv ext S w1" using host_keeps_quiet by blast+
  note handlers = host_keeps_trans[OF k1 handle_value_op_keeps[OF assms(1) i1]] host_keeps_trans[OF k1 handle_xhr_request_keeps[OF i1]]
  show ?thesis
    unfolding handle_report_def Let_def r prod.case
    using host_keeps_refl[OF assms(2)] k1
    by (auto simp: handlers host_keeps_emit split: option.split sum.split)
qed

lemma drain_asks_keeps: "host_inv ext S w \<Longrightarrow> host_keeps ext S w (drain_asks ext w)"
proof (induction ext w rule: drain_asks.induct)
  case (1 ext w)
  show ?case
  proof (cases "wo_asks w")
    case Nil
    then show ?thesis using 1(2) by (simp add: drain_asks.simps host_keeps_refl)
  next
    case (Cons a q)
    obtain b w1 where b: "host_granted ext (pa_script_id a) (pa_host a) w = (b, w1)" by fastforce
    note l = host_granted_keeps[OF 1(2) b]
    then have k1: "host_keeps ext S w w1" using host_keeps_quiet by blast
    show ?thesis
    proof (cases b)
      case False
      with Cons b k1 show ?thesis by (simp add: drain_asks.simps)
    next
      case True
      let ?w2 = "execute_xhr (pa_tab_id a) (pa_script_id a) (pa_req a) (pa_host a) (w1\<lparr>wo_asks := q\<rparr>)"
      have k2: "host_keeps ext S w ?w2" using k1 l True by (simp add: host_keeps_execute)
      have "drain_asks ext w = drain_asks ext ?w2" using Cons b True by (subst drain_asks.simps) simp
      then show ?thesis using 1(1)[OF Cons b[symmetric] _ host_keeps_inv[OF k2]] True k2 host_keeps_trans by simp
    qed
  qed
qed

text \<open>The requests that go out for an answer of "once": the front question's own, if it is the one answered.\<close>

definition once_sends :: "script_op \<Rightarrow> script_world \<Rightarrow> script_effect list" where
  "once_sends op w = (case (op, wo_asks w) of
     (OpAnswer k d, a # _) \<Rightarrow>
       if pa_ask_id a = k \<and> d = ''once'' then [RequestSent (pa_tab_id a) (pa_script_id a) (pa_req a) (pa_host a)] else []
   | _ \<Rightarrow> [])"

definition always_said :: "nat \<Rightarrow> string \<Rightarrow> script_world \<Rightarrow> (string \<times> string) set" where
  "always_said k d w = (case wo_asks w of
     a # _ \<Rightarrow> if pa_ask_id a = k \<and> d = ''always'' then {(pa_script_id a, pa_host a)} else {}
   | [] \<Rightarrow> {})"

lemma answer_keeps:
  assumes "codecs ext" "host_inv ext S w"
  shows "host_inv ext (S \<union> always_said k d w) (snd (xhr_answer_ask ext k d w)) \<and>
    sends_in (S \<union> always_said k d w) (w\<lparr>wo_out := wo_out w @ once_sends (OpAnswer k d) w\<rparr>) (snd (xhr_answer_ask ext k d w))"
proof (cases "\<exists>a q. wo_asks w = a # q \<and> pa_ask_id a = k")
  case False
  then have "snd (xhr_answer_ask ext k d w) = w" "once_sends (OpAnswer k d) w = []" "always_said k d w = {}"
    by (auto simp: xhr_answer_ask_def once_sends_def always_said_def split: list.splits)
  then show ?thesis using assms(2) by (simp add: sends_in_def)
next
  case True
  then obtain a q where a: "wo_asks w = a # q" "pa_ask_id a = k" by blast
  let ?i = "pa_script_id a" and ?h = "pa_host a"
  let ?send = "execute_xhr (pa_tab_id a) ?i (pa_req a) ?h"
  let ?w1 = "w\<lparr>wo_asks := q\<rparr>"
  have i1: "host_inv ext S ?w1" using assms(2) by simp
  have finish: "host_keeps ext T w' (emit_front_ask (drain_asks ext w'))" if "host_inv ext T w'" for T w'
    using drain_asks_keeps[OF that] by (rule host_keeps_front)
  consider (always) "d = ''always''" | (once) "d = ''once''" | (deny) "d \<noteq> ''always''" "d \<noteq> ''once''" by blast
  then show ?thesis
  proof cases
    case always
    obtain r w2 where r: "record_grant ext ?i ?h ?w1 = (r, w2)" by fastforce
    have T: "S \<union> always_said k d w = insert (?i, ?h) S" and once: "once_sends (OpAnswer k d) w = []"
      using a always by (simp_all add: always_said_def once_sends_def)
    from record_grant_keeps[OF assms(1) i1 r] have k2: "host_keeps ext (insert (?i, ?h) S) w w2"
      by (auto simp: host_keeps_def quiet_def sends_in_def)
    have "host_keeps ext (insert (?i, ?h) S) w (snd (xhr_answer_ask ext k d w))"
    proof (cases r)
      case (Inl e)
      then show ?thesis using k2 a always r by (simp add: xhr_answer_ask_def Let_def)
    next
      case (Inr u)
      have "host_keeps ext (insert (?i, ?h) S) w (?send w2)" using k2 by (simp add: host_keeps_execute)
      then show ?thesis using Inr finish host_keeps_step a always r by (simp add: xhr_answer_ask_def Let_def)
    qed
    then show ?thesis unfolding T once by (simp add: host_keeps_def)
  next
    case once
    have T: "S \<union> always_said k d w = S"
      and out: "once_sends (OpAnswer k d) w = [RequestSent (pa_tab_id a) ?i (pa_req a) ?h]"
      using a once by (simp_all add: always_said_def once_sends_def)
    let ?w2 = "?send ?w1"
    have "host_inv ext S ?w2" using i1 by (simp add: execute_xhr_def emit_def Let_def)
    from finish[OF this] have "host_keeps ext S ?w2 (snd (xhr_answer_ask ext k d w))"
      using a once by (simp add: xhr_answer_ask_def Let_def)
    then show ?thesis unfolding T out by (simp add: host_keeps_def sends_in_def execute_xhr_def emit_def Let_def)
  next
    case deny
    have T: "S \<union> always_said k d w = S" and once: "once_sends (OpAnswer k d) w = []"
      using a deny by (simp_all add: always_said_def once_sends_def)
    have "host_keeps ext S w ?w1" using assms(2) host_keeps_refl by simp
    then have "host_keeps ext S w (snd (xhr_answer_ask ext k d w))"
      using a deny host_keeps_step[OF host_keeps_fail finish] by (simp add: xhr_answer_ask_def Let_def)
    then show ?thesis unfolding T once by (simp add: host_keeps_def)
  qed
qed

lemma xhr_done_keeps: "host_inv ext S w \<Longrightarrow> host_keeps ext S w (xhr_done tab i req res w)"
  unfolding xhr_done_def using host_keeps_refl by (auto simp: host_keeps_fail host_keeps_reply split: http_result.split sum.split)

lemma menu_click_keeps: "host_inv ext S w \<Longrightarrow> host_keeps ext S w (menu_click tab i n w)"
  unfolding menu_click_def using host_keeps_refl by (auto simp: host_keeps_emit)

section \<open>Managing scripts\<close>

lemma update_first_ids:
  assumes "find P ss = Some old" "sc_id (f old) = sc_id old"
  shows "map sc_id (update_first P f ss) = map sc_id ss"
  using assms by (induction ss) (auto split: if_splits)

lemma update_first_by_id:
  assumes "distinct (map sc_id ss)" "find P ss = Some old" "sc_id (f old) = sc_id old"
  shows "by_id (update_first P f ss) = (by_id ss)(sc_id old \<mapsto> f old)"
  using assms
proof (induction ss)
  case (Cons s ss)
  show ?case
  proof (cases "P s")
    case True
    with Cons.prems show ?thesis by (simp add: by_id_def fun_eq_iff)
  next
    case False
    then have old: "find P ss = Some old" using Cons.prems by simp
    then have "old \<in> set ss" by (induction ss) (auto split: if_splits)
    then have "sc_id s \<noteq> sc_id old" using Cons.prems(1) by (metis distinct.simps(2) image_eqI list.set_map list.simps(9))
    then show ?thesis using Cons.IH[OF _ old] Cons.prems False by (auto simp: by_id_def fun_eq_iff)
  qed
qed simp

lemma by_id_append: "distinct (map sc_id (ss @ [s])) \<Longrightarrow> by_id (ss @ [s]) = (by_id ss)(sc_id s \<mapsto> s)"
  by (induction ss) (auto simp: by_id_def fun_upd_twist)

lemma by_id_filter: "by_id (filter (\<lambda>s. sc_id s \<noteq> i) ss) = (by_id ss)(i := None)"
  by (induction ss) (auto simp: by_id_def fun_eq_iff)

lemma registered_ids:
  assumes "host_inv ext S w" "wo_registry w = Some ss" "s \<in> set ss" "wo_uuids w \<le> m"
  shows "sc_id s \<noteq> se_uuid ext m"
proof
  assume m: "sc_id s = se_uuid ext m"
  have "distinct (map sc_id ss)" using assms(1,2) by (simp add: host_inv_def reg_ok_def)
  then have "by_id ss (sc_id s) = Some s" using assms(3) by (simp add: by_id_Some)
  then have "disk_script ext (rows_of w) (se_uuid ext m) = Some s" using assms(1,2) m by (simp add: host_inv_def reg_ok_def)
  moreover have "rows_of w (script_scope (se_uuid ext m)) = None" using assms(1,4) by (simp add: host_inv_def ids_fresh_def)
  ultimately show False by (simp add: disk_script_def)
qed

text \<open>A script that is saved, with the registry that then holds it.\<close>

lemma persist_script_keeps:
  assumes "codecs ext" "host_inv ext S w" "persist_script ext s w = (r, w')"
    "distinct (map sc_id nxt)" "by_id nxt = (disk_script ext (rows_of w))(sc_id s \<mapsto> s)"
    "\<forall>m\<ge>wo_uuids w. sc_id s \<noteq> se_uuid ext m"
  shows "quiet w w'" "r = Inr () \<Longrightarrow> host_inv ext S (w'\<lparr>wo_registry := Some nxt\<rparr>)" "r \<noteq> Inr () \<Longrightarrow> host_inv ext S w'"
proof -
  have "quiet w w' \<and> (r = Inr () \<longrightarrow> host_inv ext S (w'\<lparr>wo_registry := Some nxt\<rparr>)) \<and> (r \<noteq> Inr () \<longrightarrow> host_inv ext S w')"
  proof (cases "MAX_STATE_BYTES < length (se_script ext s)")
    case True
    with assms(2,3) show ?thesis by (auto simp: persist_script_def serialize_script_def quiet_def)
  next
    case False
    obtain b w1 where b: "db_save ext (script_scope (sc_id s)) (se_script ext s) w = (b, w1)" by fastforce
    note l = db_save_cases[OF b]
    have w': "w' = w1" and r: "r = Inr () \<longleftrightarrow> b"
      using assms(3) False by (auto simp: persist_script_def serialize_script_def b split: bool.splits)
    have dec: "se_unscript ext (se_script ext s) = Some s" using assms(1) by (simp add: codecs_def)
    have "host_inv ext S (w1\<lparr>wo_registry := Some nxt\<rparr>)" if b
      using l assms(2,4-6) that
      by (auto simp: host_inv_def same_view_fields[of w w1] reg_ok_def[of _ _ "Some nxt"] dec ids_fresh_def)
    then show ?thesis using l assms(2) inv_same by (auto simp: w' r same_view_quiet)
  qed
  then show "quiet w w'" "r = Inr () \<Longrightarrow> host_inv ext S (w'\<lparr>wo_registry := Some nxt\<rparr>)" "r \<noteq> Inr () \<Longrightarrow> host_inv ext S w'"
    by blast+
qed

lemma info_of_keeps:
  "host_inv ext S w \<Longrightarrow> host_keeps ext S w (snd (info_of ext s w))"
  using ensure_grants_loaded_keeps[of ext S w] host_keeps_quiet[of ext S _ w]
  by (cases "ensure_grants_loaded ext w") (auto simp: info_of_def split: sum.split)

lemma infos_of_keeps: "host_inv ext S w \<Longrightarrow> host_keeps ext S w (snd (infos_of ext ss w))"
proof (induction ss arbitrary: w)
  case Nil
  then show ?case by (simp add: host_keeps_refl)
next
  case (Cons s ss)
  obtain r w1 where r: "info_of ext s w = (r, w1)" by fastforce
  have k1: "host_keeps ext S w w1" using info_of_keeps[OF Cons.prems, of s] r by simp
  then have "host_keeps ext S w (snd (infos_of ext ss w1))" using Cons.IH host_keeps_step by blast
  then show ?case using k1 by (cases "infos_of ext ss w1") (auto simp: r split: sum.split)
qed

lemma userscripts_list_keeps: "host_inv ext S w \<Longrightarrow> host_keeps ext S w (snd (userscripts_list ext w))"
proof -
  assume i: "host_inv ext S w"
  obtain r w1 where r: "ensure_loaded ext w = (r, w1)" by fastforce
  have "host_keeps ext S w w1" using ensure_loaded_keeps[OF i r] host_keeps_quiet by blast
  then show ?thesis using infos_of_keeps host_keeps_step by (auto simp: userscripts_list_def r split: sum.split)
qed

lemma check_update_keeps: "host_inv ext S w \<Longrightarrow> host_keeps ext S w (snd (check_update ext web i w))"
proof -
  assume i: "host_inv ext S w"
  obtain r w1 where r: "ensure_loaded ext w = (r, w1)" by fastforce
  have "host_keeps ext S w w1" using ensure_loaded_keeps[OF i r] host_keeps_quiet by blast
  then show ?thesis unfolding check_update_def Let_def r prod.case by (simp split: sum.split option.split)
qed

lemma install_keeps:
  assumes "codecs ext" "host_inv ext S w"
  shows "host_keeps ext S w (snd (install_source ext source origin w))"
proof (cases "parse_metadata (se_url ext) source")
  case (Inl e)
  with assms(2) show ?thesis by (simp add: install_source_def host_keeps_refl)
next
  case (Inr meta)
  obtain r w1 where r: "ensure_loaded ext w = (r, w1)" by fastforce
  note l = ensure_loaded_keeps[OF assms(2) r]
  have k1: "host_keeps ext S w w1" and i1: "host_inv ext S w1" using l host_keeps_quiet by blast+
  show ?thesis
  proof (cases r)
    case e: (Inl e)
    with Inr r k1 show ?thesis by (simp add: install_source_def)
  next
    case u: (Inr u)
    then obtain ss where ss: "wo_registry w1 = Some ss" using l by auto
    then have sc: "scripts_of w1 = ss" by (simp add: scripts_of_def)
    have reg: "distinct (map sc_id ss)" "by_id ss = disk_script ext (rows_of w1)"
      using i1 ss by (simp_all add: host_inv_def reg_ok_def)
    have persisted: "host_keeps ext S w (snd (case persist_script ext s w2 of
        (Inl e, w3) \<Rightarrow> (Inl e, w3) | (Inr _, w3) \<Rightarrow> info_of ext s (w3\<lparr>wo_registry := Some nxt\<rparr>)))"
      if "host_keeps ext S w w2" "rows_of w2 = rows_of w1" "distinct (map sc_id nxt)" "by_id nxt = (by_id ss)(sc_id s \<mapsto> s)"
        "\<forall>m\<ge>wo_uuids w2. sc_id s \<noteq> se_uuid ext m" for w2 s nxt
    proof -
      obtain q w3 where q: "persist_script ext s w2 = (q, w3)" by fastforce
      note p = persist_script_keeps[OF assms(1) host_keeps_inv[OF that(1)] q that(3) _ that(5)]
      have "by_id nxt = (disk_script ext (rows_of w2))(sc_id s \<mapsto> s)" using that reg by simp
      note p = p[OF this]
      show ?thesis
      proof (cases q)
        case (Inl e)
        then show ?thesis using p that(1) host_keeps_step[OF that(1) host_keeps_quiet[OF _ p(1)]] by (simp add: q)
      next
        case (Inr v)
        have "host_keeps ext S w2 (w3\<lparr>wo_registry := Some nxt\<rparr>)" using p Inr by (simp add: host_keeps_def sends_quiet)
        then show ?thesis using host_keeps_step[OF host_keeps_trans[OF that(1)] info_of_keeps] by (simp add: q Inr)
      qed
    qed
    show ?thesis
    proof (cases "find (\<lambda>s. sm_name (sc_meta s) = sm_name meta) ss")
      case None
      let ?new = "\<lparr>sc_id = se_uuid ext (wo_uuids w1), sc_enabled = True, sc_meta = meta, sc_body = source, sc_install_url = origin\<rparr>"
      have "se_uuid ext (wo_uuids w1) \<notin> sc_id ` set ss" using registered_ids[OF i1 ss] by force
      then have "distinct (map sc_id (ss @ [?new]))" using reg by simp
      moreover have "\<forall>m\<ge>wo_uuids w1 + 1. sc_id ?new \<noteq> se_uuid ext m"
        using assms(1) by (auto simp: codecs_def dest: injD)
      moreover have "host_keeps ext S w (w1\<lparr>wo_uuids := wo_uuids w1 + 1\<rparr>)"
        using k1 inv_uuids by (simp add: host_keeps_def)
      ultimately show ?thesis
        using persisted[of "w1\<lparr>wo_uuids := wo_uuids w1 + 1\<rparr>" "ss @ [?new]" ?new] by_id_append[of ss ?new]
        by (simp add: install_source_def Inr r u sc None Let_def)
    next
      case (Some old)
      let ?new = "old\<lparr>sc_meta := meta, sc_body := source, sc_install_url := origin\<rparr>"
      have old: "old \<in> set ss" using Some by (induction ss) (auto split: if_splits)
      show ?thesis
        using persisted[of w1 "update_first (\<lambda>s. sm_name (sc_meta s) = sm_name meta) (\<lambda>_. ?new) ss" ?new] k1
          update_first_ids[OF Some, of "\<lambda>_. ?new"] update_first_by_id[OF reg(1) Some, of "\<lambda>_. ?new"]
          registered_ids[OF i1 ss old] reg
        by (simp add: install_source_def Inr r u sc Some Let_def)
    qed
  qed
qed

lemma found_script:
  assumes "find P ss = Some s"
  shows "s \<in> set ss" "P s"
  using assms by (induction ss) (auto split: if_splits)

lemma set_enabled_keeps:
  assumes "codecs ext" "host_inv ext S w"
  shows "host_keeps ext S w (snd (set_enabled ext i on w))"
proof -
  obtain r w1 where r: "ensure_loaded ext w = (r, w1)" by fastforce
  note l = ensure_loaded_keeps[OF assms(2) r]
  have k1: "host_keeps ext S w w1" and i1: "host_inv ext S w1" using l host_keeps_quiet by blast+
  show ?thesis
  proof (cases r)
    case (Inl e)
    with r k1 show ?thesis by (simp add: set_enabled_def)
  next
    case (Inr u)
    then obtain ss where ss: "wo_registry w1 = Some ss" using l by auto
    then have sc: "scripts_of w1 = ss" by (simp add: scripts_of_def)
    have reg: "distinct (map sc_id ss)" "by_id ss = disk_script ext (rows_of w1)"
      using i1 ss by (simp_all add: host_inv_def reg_ok_def)
    show ?thesis
    proof (cases "find (\<lambda>s. sc_id s = i) ss")
      case None
      with r Inr k1 sc show ?thesis by (simp add: set_enabled_def find_script_def)
    next
      case (Some s)
      note s = found_script[OF Some]
      let ?f = "\<lambda>s. s\<lparr>sc_enabled := on\<rparr>"
      let ?nxt = "update_first (\<lambda>s. sc_id s = i) ?f ss"
      obtain q w2 where q: "persist_script ext (?f s) w1 = (q, w2)" by fastforce
      have fresh: "\<forall>m\<ge>wo_uuids w1. sc_id (?f s) \<noteq> se_uuid ext m" using registered_ids[OF i1 ss s(1)] by simp
      have "distinct (map sc_id ?nxt)" using update_first_ids[OF Some, of ?f] reg by simp
      moreover have "by_id ?nxt = (disk_script ext (rows_of w1))(sc_id (?f s) \<mapsto> ?f s)"
        using update_first_by_id[OF reg(1) Some, of ?f] reg by simp
      ultimately have p: "quiet w1 w2" "q = Inr () \<Longrightarrow> host_inv ext S (w2\<lparr>wo_registry := Some ?nxt\<rparr>)"
        "q \<noteq> Inr () \<Longrightarrow> host_inv ext S w2"
        using persist_script_keeps[OF assms(1) i1 q, of ?nxt] fresh by blast+
      have run: "snd (set_enabled ext i on w) = (case q of Inl e \<Rightarrow> w2 | Inr _ \<Rightarrow> w2\<lparr>wo_registry := Some ?nxt\<rparr>)"
        using r Inr sc Some q by (simp add: set_enabled_def find_script_def split: sum.split)
      have "host_keeps ext S w1 (snd (set_enabled ext i on w))"
        unfolding run using p by (cases q) (simp_all add: host_keeps_def sends_quiet)
      then show ?thesis using k1 host_keeps_trans by blast
    qed
  qed
qed

lemma info_of_held: "wo_grants w = Some g \<Longrightarrow> info_of ext s w = (Inr (s, granted_hosts w (sc_id s)), w)"
  by (simp add: info_of_def ensure_grants_loaded_def)

lemma revoke_keeps:
  assumes "codecs ext" "host_inv ext S w" "revoke_grant ext i host w = (r, w')"
  shows "host_inv ext (if r = Inr () then S - {(i, host)} else S) w' \<and> quiet w w'"
proof -
  obtain q w1 where q: "ensure_grants_loaded ext w = (q, w1)" by fastforce
  note l = ensure_grants_loaded_keeps[OF assms(2) q]
  show ?thesis
  proof (cases q)
    case (Inl e)
    with assms(3) l show ?thesis by (auto simp: revoke_grant_def q)
  next
    case (Inr u)
    then obtain g where g: "wo_grants w1 = Some g" "disk_grants ext (rows_of w) = Some g" using l by auto
    have G: "grants_of w1 = g" using g by (simp add: grants_of_def)
    let ?g = "case g i of None \<Rightarrow> g
      | Some hs \<Rightarrow> g(i := if filter (\<lambda>h. h \<noteq> host) hs = [] then None else Some (filter (\<lambda>h. h \<noteq> host) hs))"
    obtain q2 w2 where q2: "persist_grants ext ?g w1 = (q2, w2)" by fastforce
    have "granted_pairs g \<subseteq> S" using assms(2) g by (simp add: host_inv_def disk_pairs_def)
    moreover have "granted_pairs ?g \<subseteq> granted_pairs g - {(i, host)}"
      by (cases "g i") (auto split: if_splits)
    ultimately have sub: "granted_pairs ?g \<subseteq> S - {(i, host)}" by blast
    have fin: "finite (dom ?g)" using disk_grants_finite[OF assms(1) g(2)] by (simp split: option.split)
    have i1: "host_inv ext S w1" using l by simp
    note p = persist_grants_keeps[OF assms(1) i1 q2 fin sub]
    have eq: "(r, w') = (case q2 of Inl e \<Rightarrow> (Inl e, w2) | Inr _ \<Rightarrow> (Inr (), w2\<lparr>wo_grants := Some ?g\<rparr>))"
      unfolding assms(3)[symmetric] revoke_grant_def by (simp only: q Inr prod.case sum.case Let_def G q2)
    show ?thesis
    proof (cases q2)
      case e: (Inl e)
      then have "r \<noteq> Inr ()" "w' = w2" using eq by simp_all
      then show ?thesis using p(1,3) e l quiet_trans by auto
    next
      case v: (Inr v)
      then have "r = Inr ()" "w' = w2\<lparr>wo_grants := Some ?g\<rparr>" using eq by simp_all
      then show ?thesis using p(1,2) v l by (auto simp: quiet_def)
    qed
  qed
qed

text \<open>Rows and memory change together: the script and the table of an update, or the table less a script.\<close>

lemma changed_inv:
  assumes "host_inv ext S w" "db_change ext saves deletes w = (True, w')" "row' = (rows_of w ++ map_of (rev saves)) |` (- set deletes)"
    "distinct (map sc_id nxt)" "by_id nxt = disk_script ext row'" "disk_grants ext row' = Some g" "granted_pairs g \<subseteq> T"
    "vals_ok ext row' vals" "\<forall>m\<ge>wo_uuids w. row' (script_scope (se_uuid ext m)) = None"
  shows "host_inv ext T (w'\<lparr>wo_registry := Some nxt, wo_grants := Some g, wo_values := vals\<rparr>)"
  using db_change_cases[OF assms(2)] assms
  by (simp add: host_inv_def reg_ok_def grants_ok_def ids_fresh_def same_view_fields[of w w'] disk_pairs_def)

lemma refused_change_inv:
  assumes "host_inv ext S w" "db_change ext saves deletes w = (False, w')"
  shows "host_inv ext S w'" "quiet w w'"
  using db_change_cases[OF assms(2)] inv_same[OF assms(1), of w'] same_view_quiet by auto

text \<open>The two ways an update ends.\<close>

definition updated :: "script \<Rightarrow> script_meta \<Rightarrow> string \<Rightarrow> script" where
  "updated s meta source = s\<lparr>sc_meta := meta, sc_body := source\<rparr>"

lemma apply_update_ends:
  assumes "host_inv ext S w" "apply_update ext i source w = (r, w')"
  obtains (refused) "isl r" "host_inv ext S w'" "quiet w w'" "rows_of w' = rows_of w"
  | (applied) ss g s meta w2 w3 where
    "host_inv ext S w2" "quiet w w2" "rows_of w2 = rows_of w" "wo_registry w2 = Some ss" "disk_grants ext (rows_of w) = Some g"
    "find (\<lambda>s. sc_id s = i) ss = Some s" "parse_metadata (se_url ext) source = Inr meta" "sm_name meta = sm_name (sc_meta s)"
    "db_change ext [(script_scope i, se_script ext (updated s meta source)), (GRANTS_SCOPE, se_grants ext (g(i := None)))] [] w2 = (True, w3)"
    "r = Inr (updated s meta source, [])"
    "w' = w3\<lparr>wo_registry := Some (update_first (\<lambda>s. sc_id s = i) (\<lambda>s. updated s meta source) ss), wo_grants := Some (g(i := None))\<rparr>"
proof -
  obtain r1 w1 where r1: "ensure_loaded ext w = (r1, w1)" by fastforce
  note l1 = ensure_loaded_keeps[OF assms(1) r1]
  show ?thesis
  proof (cases r1)
    case (Inl e)
    with assms(2) l1 show ?thesis by (intro refused) (auto simp: apply_update_def r1)
  next
    case u1: (Inr u1)
    then obtain ss where ss: "wo_registry w1 = Some ss" using l1 by auto
    have i1: "host_inv ext S w1" using l1 by simp
    obtain r2 w2 where r2: "ensure_grants_loaded ext w1 = (r2, w2)" by fastforce
    note l2 = ensure_grants_loaded_keeps[OF i1 r2]
    have q2: "quiet w w2" "rows_of w2 = rows_of w" and i2: "host_inv ext S w2" using l1 l2 quiet_trans by auto
    show ?thesis
    proof (cases r2)
      case (Inl e)
      with assms(2) u1 i2 q2 show ?thesis by (intro refused) (auto simp: apply_update_def r1 r2)
    next
      case u2: (Inr u2)
      then obtain g where g: "wo_grants w2 = Some g" "disk_grants ext (rows_of w) = Some g" using l1 l2 by auto
      have G: "grants_of w2 = g" and R: "scripts_of w2 = ss" and reg2: "wo_registry w2 = Some ss"
        using g ss l2 by (simp_all add: grants_of_def scripts_of_def)
      note run = assms(2)[unfolded apply_update_def r1 prod.case u1 sum.case r2 u2 G R]
      show ?thesis
      proof (cases "apply_update_core ext ss g i source")
        case (Inl e)
        with run i2 q2 show ?thesis by (intro refused) auto
      next
        case (Inr nxt)
        then obtain meta s where meta: "parse_metadata (se_url ext) source = Inr meta" "sm_name meta = sm_name (sc_meta s)"
          and s: "find (\<lambda>s. sc_id s = i) ss = Some s"
          and nxt: "nxt = (update_first (\<lambda>s. sc_id s = i) (\<lambda>s. updated s meta source) ss, g(i := None))"
          by (auto simp: apply_update_core_def updated_def split: sum.splits option.splits if_splits)
        let ?f = "\<lambda>s. updated s meta source"
        have id: "sc_id (?f s) = i" using found_script[OF s] by (simp add: updated_def)
        have reg: "distinct (map sc_id ss)" using i2 reg2 by (simp add: host_inv_def reg_ok_def)
        have fs: "find (\<lambda>s. sc_id s = i) (update_first (\<lambda>s. sc_id s = i) ?f ss) = Some (?f s)"
          using update_first_by_id[OF reg s, of ?f] found_script[OF s] id by (simp add: find_by_id)
        note run = run[unfolded Inr nxt sum.case prod.case fs option.case id]
        show ?thesis
        proof (cases "serialize_script ext (?f s)")
          case (Inl e)
          with run i2 q2 show ?thesis by (intro refused) auto
        next
          case t: (Inr t)
          then have t': "t = se_script ext (?f s)" by (simp add: serialize_script_def split: if_splits)
          let ?saves = "[(script_scope i, se_script ext (?f s)), (GRANTS_SCOPE, se_grants ext (g(i := None)))]"
          obtain b w3 where b: "db_change ext ?saves [] w2 = (b, w3)" by fastforce
          note run = run[unfolded t sum.case t' b prod.case]
          show ?thesis
          proof (cases b)
            case False
            then show ?thesis using run refused_change_inv[OF i2, of ?saves "[]" w3] db_change_cases[OF b] b q2 quiet_trans[OF q2(1)]
              by (intro refused) auto
          next
            case True
            have "r = Inr (?f s, [])"
              "w' = w3\<lparr>wo_registry := Some (update_first (\<lambda>s. sc_id s = i) ?f ss), wo_grants := Some (g(i := None))\<rparr>"
              using run True by (simp_all add: info_of_held granted_hosts_def grants_of_def id)
            moreover have "db_change ext ?saves [] w2 = (True, w3)" using b True by simp
            ultimately show ?thesis by (intro applied[OF i2 q2 reg2 g(2) s meta])
          qed
        qed
      qed
    qed
  qed
qed

lemma apply_update_keeps:
  assumes "codecs ext" "host_inv ext S w" "apply_update ext i source w = (r, w')"
  shows "host_inv ext (if isl r then S else {p \<in> S. fst p \<noteq> i}) w' \<and> quiet w w'"
  using assms(2,3)
proof (cases rule: apply_update_ends)
  case refused
  then show ?thesis by simp
next
  case (applied ss g s meta w2 w3)
  let ?f = "\<lambda>s. updated s meta source"
  let ?ss = "update_first (\<lambda>s. sc_id s = i) ?f ss" and ?g = "g(i := None)"
  let ?t = "se_script ext (?f s)"
  note i2 = applied(1) and s = applied(6) and changed = applied(9)
  note found = found_script[OF s]
  have reg: "distinct (map sc_id ss)" "by_id ss = disk_script ext (rows_of w2)"
    using i2 applied(4) by (simp_all add: host_inv_def reg_ok_def)
  have id: "sc_id (?f s) = sc_id s" by (simp add: updated_def)
  have ids: "map sc_id ?ss = map sc_id ss" and byid: "by_id ?ss = (by_id ss)(i \<mapsto> ?f s)"
    using update_first_ids[where f = ?f, OF s id] update_first_by_id[where f = ?f, OF reg(1) s id] found by simp_all
  let ?row = "(rows_of w2)(script_scope i \<mapsto> ?t, GRANTS_SCOPE \<mapsto> se_grants ext ?g)"
  have dec: "se_unscript ext ?t = Some (?f s)" "se_ungrants ext (se_grants ext ?g) = Some ?g"
    using assms(1) disk_grants_finite[OF assms(1) applied(5)] by (simp_all add: codecs_def)
  have row: "?row = (rows_of w2 ++ map_of (rev [(script_scope i, ?t), (GRANTS_SCOPE, se_grants ext ?g)])) |` (- set [])"
    by (rule HOL.ext) (simp add: restrict_map_def map_add_def)
  have "disk_pairs ext (rows_of w) \<subseteq> S" using assms(2) by (simp add: host_inv_def)
  then have pairs: "granted_pairs ?g \<subseteq> {p \<in> S. fst p \<noteq> i}"
    unfolding granted_pairs_del disk_pairs_grants[OF applied(5)] by blast
  have vals: "vals_ok ext ?row (wo_values w3)"
    using i2 db_change_cases[OF changed] by (simp add: host_inv_def same_view_fields[of w2 w3])
  have fresh: "\<forall>m\<ge>wo_uuids w2. ?row (script_scope (se_uuid ext m)) = None"
    using i2 registered_ids[OF i2 applied(4) found(1)] found(2) by (auto simp: host_inv_def ids_fresh_def dest: sym)
  have "host_inv ext {p \<in> S. fst p \<noteq> i} (w3\<lparr>wo_registry := Some ?ss, wo_grants := Some ?g, wo_values := wo_values w3\<rparr>)"
    by (rule changed_inv[OF i2 changed row]) (use reg ids byid pairs vals fresh dec in \<open>simp_all add: fun_upd_twist\<close>)
  moreover have "quiet w (w3\<lparr>wo_registry := Some ?ss, wo_grants := Some ?g\<rparr>)"
    using applied(2) db_change_cases[OF changed] same_view_quiet[of w2 w3] by (auto simp: quiet_def)
  ultimately show ?thesis using applied(10,11) by simp
qed

lemma remove_keeps:
  assumes "codecs ext" "host_inv ext S w" "remove_script ext i w = (r, w')"
  shows "host_inv ext (if r = Inr () then {p \<in> S. fst p \<noteq> i} else S) w' \<and> quiet w w'"
proof -
  obtain r1 w1 where r1: "ensure_loaded ext w = (r1, w1)" by fastforce
  note l1 = ensure_loaded_keeps[OF assms(2) r1]
  show ?thesis
  proof (cases r1)
    case (Inl e)
    with assms(3) l1 show ?thesis by (auto simp: remove_script_def r1)
  next
    case u1: (Inr u1)
    then obtain ss where ss: "wo_registry w1 = Some ss" using l1 by auto
    have i1: "host_inv ext S w1" using l1 by simp
    obtain r2 w2 where r2: "ensure_grants_loaded ext w1 = (r2, w2)" by fastforce
    note l2 = ensure_grants_loaded_keeps[OF i1 r2]
    have q2: "quiet w w2" using l1 l2 quiet_trans by blast
    show ?thesis
    proof (cases r2)
      case (Inl e)
      with assms(3) u1 l2 q2 show ?thesis by (auto simp: remove_script_def r1 r2)
    next
      case u2: (Inr u2)
      then obtain g where g: "wo_grants w2 = Some g" "disk_grants ext (rows_of w1) = Some g" using l2 by auto
      have i2: "host_inv ext S w2" and row2: "rows_of w2 = rows_of w1" using l2 by simp_all
      have G: "grants_of w2 = g" and R: "scripts_of w2 = ss" and reg2: "wo_registry w2 = Some ss"
        using g ss l2 by (simp_all add: grants_of_def scripts_of_def)
      have reg: "distinct (map sc_id ss)" "by_id ss = disk_script ext (rows_of w2)"
        using i2 reg2 by (simp_all add: host_inv_def reg_ok_def)
      let ?ss = "filter (\<lambda>s. sc_id s \<noteq> i) ss" and ?g = "g(i := None)"
      let ?saves = "[(GRANTS_SCOPE, se_grants ext ?g)]" and ?dels = "[script_scope i, values_scope i]"
      note run = assms(3)[unfolded remove_script_def r1 prod.case u1 sum.case r2 u2 G R Let_def]
      show ?thesis
      proof (cases "length ?ss = length ss")
        case True
        with run i2 q2 show ?thesis by auto
      next
        case False
        obtain b w3 where b: "db_change ext ?saves ?dels w2 = (b, w3)" by fastforce
        note run = run[unfolded if_not_P[OF False] b prod.case]
        show ?thesis
        proof (cases b)
          case False
          then show ?thesis using run refused_change_inv[OF i2, of ?saves ?dels w3] b q2 quiet_trans by auto
        next
          case True
          have changed: "db_change ext ?saves ?dels w2 = (True, w3)" using b True by simp
          let ?row = "(rows_of w2 ++ map_of (rev ?saves)) |` (- set ?dels)"
          have dec: "se_ungrants ext (se_grants ext ?g) = Some ?g"
            using assms(1) disk_grants_finite[OF assms(1) g(2)] by (simp add: codecs_def)
          have "disk_pairs ext (rows_of w1) \<subseteq> S" using i1 by (simp add: host_inv_def)
          then have pairs: "granted_pairs ?g \<subseteq> {p \<in> S. fst p \<noteq> i}"
            unfolding granted_pairs_del disk_pairs_grants[OF g(2)] by blast
          have "disk_script ext ?row = (disk_script ext (rows_of w2))(i := None)"
            by (rule HOL.ext) (simp add: disk_script_def restrict_map_def map_add_def)
          then have byid: "by_id ?ss = disk_script ext ?row" using by_id_filter[of i ss] reg by simp
          have dg: "disk_grants ext ?row = Some ?g" using dec by (simp add: disk_grants_def restrict_map_def map_add_def)
          have "disk_values ext ?row j = disk_values ext (rows_of w2) j" if "j \<noteq> i" for j
            using that by (simp add: disk_values_def restrict_map_def map_add_def)
          then have vals: "vals_ok ext ?row ((wo_values w3)(i := None))"
            using i2 db_change_cases[OF b] by (auto simp: host_inv_def vals_ok_def same_view_fields[of w2 w3])
          have fresh: "\<forall>m\<ge>wo_uuids w2. ?row (script_scope (se_uuid ext m)) = None"
            using i2 by (auto simp: host_inv_def ids_fresh_def restrict_map_def map_add_def)
          have d: "distinct (map sc_id ?ss)" using reg(1) by (simp add: distinct_map_filter)
          have "host_inv ext {p \<in> S. fst p \<noteq> i}
              (w3\<lparr>wo_registry := Some ?ss, wo_grants := Some ?g, wo_values := (wo_values w3)(i := None)\<rparr>)"
            by (rule changed_inv[OF i2 changed refl d byid dg pairs vals fresh])
          moreover have "quiet w (w3\<lparr>wo_registry := Some ?ss, wo_grants := Some ?g, wo_values := (wo_values w3)(i := None)\<rparr>)"
            using q2 db_change_cases[OF b] same_view_quiet[of w2 w3] by (auto simp: quiet_def)
          ultimately show ?thesis using run True by auto
        qed
      qed
    qed
  qed
qed

section \<open>Consent\<close>

text \<open>What the user allows for good: the table at the start, an answer of "always"; a withdrawal that is
  reported done takes a host away, an update or a removal all hosts of the script.\<close>

fun consent_after :: "script_env \<Rightarrow> script_op \<Rightarrow> script_world \<Rightarrow> (string \<times> string) set \<Rightarrow> (string \<times> string) set" where
  "consent_after ext (OpAnswer k d) w S = S \<union> always_said k d w"
| "consent_after ext (OpRevoke i host) w S = (if fst (revoke_grant ext i host w) = Inr () then S - {(i, host)} else S)"
| "consent_after ext (OpRemove i) w S = (if fst (remove_script ext i w) = Inr () then {p \<in> S. fst p \<noteq> i} else S)"
| "consent_after ext (OpUpdate i source) w S = (if isl (fst (apply_update ext i source w)) then S else {p \<in> S. fst p \<noteq> i})"
| "consent_after ext op w S = S"

lemma quiet_sends: "quiet w w' \<Longrightarrow> host_inv ext S w' \<Longrightarrow> host_inv ext S w' \<and> sends_in S (w\<lparr>wo_out := wo_out w @ []\<rparr>) w'"
  by (simp add: sends_quiet)

lemma run_op_keeps:
  assumes "codecs ext" "host_inv ext S w"
  shows "host_inv ext (consent_after ext op w S) (run_op ext op w) \<and>
    sends_in (consent_after ext op w S) (w\<lparr>wo_out := wo_out w @ once_sends op w\<rparr>) (run_op ext op w)"
proof -
  have plain: ?thesis if "once_sends op w = []" "consent_after ext op w S = S" "host_keeps ext S w (run_op ext op w)"
    using that by (simp add: host_keeps_def)
  have none: "once_sends op w = []" if "\<forall>k d. op \<noteq> OpAnswer k d" using that by (cases op) (simp_all add: once_sends_def)
  show ?thesis
  proof (cases op)
    case (OpAnswer k d)
    then show ?thesis using answer_keeps[OF assms] by simp
  next
    case (OpRevoke i host)
    then show ?thesis using revoke_keeps[OF assms, of i host] none quiet_sends
      by (cases "revoke_grant ext i host w") (auto simp: sends_quiet)
  next
    case (OpRemove i)
    then show ?thesis using remove_keeps[OF assms, of i] none quiet_sends
      by (cases "remove_script ext i w") (auto simp: sends_quiet)
  next
    case (OpUpdate i source)
    then show ?thesis using apply_update_keeps[OF assms, of i source] none quiet_sends
      by (cases "apply_update ext i source w") (auto simp: sends_quiet)
  next
    case (OpInstallUrl url response)
    have "once_sends op w = []" by (rule none) (simp add: OpInstallUrl)
    then show ?thesis by (rule plain) (simp_all add: OpInstallUrl install_url_def install_keeps[OF assms] host_keeps_refl[OF assms(2)] split: sum.split)
  next
    case (OpInstallFile answer)
    have "once_sends op w = []" by (rule none) (simp add: OpInstallFile)
    then show ?thesis by (rule plain) (simp_all add: OpInstallFile install_file_def install_keeps[OF assms] host_keeps_refl[OF assms(2)] split: sum.split)
  qed (rule plain; simp add: once_sends_def forget_tab_def host_keeps_refl[OF assms(2)] handle_query_keeps[OF assms(2)]
      handle_report_keeps[OF assms] xhr_done_keeps[OF assms(2)] menu_click_keeps[OF assms(2)]
      userscripts_list_keeps[OF assms(2)] install_keeps[OF assms] check_update_keeps[OF assms(2)] set_enabled_keeps[OF assms])+
qed

section \<open>Whatever happens\<close>

text \<open>A start: nothing in memory, rows whose ids are not drawn again.\<close>

definition booted :: "script_env \<Rightarrow> script_world \<Rightarrow> bool" where
  "booted ext w \<longleftrightarrow> rows_ok w \<and> ids_fresh ext (rows_of w) (wo_uuids w) \<and> wo_registry w = None \<and> wo_grants w = None \<and>
     wo_values w = Map.empty"

inductive us_reach :: "script_env \<Rightarrow> script_world \<Rightarrow> script_world \<Rightarrow> (string \<times> string) set \<Rightarrow> bool" for ext w0 where
  start: "us_reach ext w0 w0 (disk_pairs ext (rows_of w0))"
| step: "us_reach ext w0 w S \<Longrightarrow> us_reach ext w0 (run_op ext op w) (consent_after ext op w S)"

lemma booted_inv: "booted ext w \<Longrightarrow> host_inv ext (disk_pairs ext (rows_of w)) w"
  by (simp add: booted_def host_inv_def reg_ok_def grants_ok_def vals_ok_def)

lemma us_reach_inv: "us_reach ext w0 w S \<Longrightarrow> codecs ext \<Longrightarrow> booted ext w0 \<Longrightarrow> host_inv ext S w"
  by (induction rule: us_reach.induct) (simp_all add: booted_inv run_op_keeps)

lemma run_ops_reach: "us_reach ext w0 w S \<Longrightarrow> \<exists>T. us_reach ext w0 (run_ops ext ops w) T"
proof (induction ops arbitrary: w S)
  case (Cons op ops)
  from Cons.IH[OF us_reach.step[OF Cons.prems]] show ?case by (simp add: run_ops_def)
qed (auto simp: run_ops_def)


text \<open>C29: A userscript reaches no host that the user has not allowed it. In every reachable state, what an
  operation sends is the request of the very question the user answers with "once", and otherwise only to
  hosts the script holds a grant for: stored at the start or given by "always", and not since withdrawn,
  nor dropped with an update or the removal of the script; whichever calls of the store fail.\<close>

theorem requests_need_consent:
  assumes "codecs ext" "booted ext w0" "us_reach ext w0 w S"
  shows "\<exists>rest. wo_out (run_op ext op w) = wo_out w @ once_sends op w @ rest \<and>
    (\<forall>tab i req h. RequestSent tab i req h \<in> set rest \<longrightarrow> (i, h) \<in> consent_after ext op w S)"
  using run_op_keeps[OF assms(1) us_reach_inv[OF assms(3,1,2)], of op] by (auto simp: sends_in_def)

text \<open>C31: An update of a userscript is all or nothing. Refused for whatever reason, no row of the database
  changes; accepted, the new source has a valid header with the same name, the script host_keeps its id, its
  enabled state and its pinned address and takes the new header and body byte for byte, its grants are
  gone, and the values, the other scripts and their grants are what they were.\<close>

theorem update_all_or_nothing:
  assumes "codecs ext" "booted ext w0" "us_reach ext w0 w S" "apply_update ext i source w = (r, w')"
  shows "(\<exists>e. r = Inl e) \<and> rows_of w' = rows_of w \<or>
    (\<exists>old meta g. disk_script ext (rows_of w) i = Some old \<and> parse_metadata (se_url ext) source = Inr meta \<and>
       sm_name meta = sm_name (sc_meta old) \<and> disk_grants ext (rows_of w) = Some g \<and>
       r = Inr (old\<lparr>sc_meta := meta, sc_body := source\<rparr>, []) \<and>
       disk_script ext (rows_of w') = (disk_script ext (rows_of w))(i \<mapsto> old\<lparr>sc_meta := meta, sc_body := source\<rparr>) \<and>
       disk_grants ext (rows_of w') = Some (g(i := None)) \<and> disk_values ext (rows_of w') = disk_values ext (rows_of w))"
  using us_reach_inv[OF assms(3,1,2)] assms(4)
proof (cases rule: apply_update_ends)
  case refused
  then show ?thesis by (cases r) simp_all
next
  case (applied ss g s meta w2 w3)
  have "by_id ss = disk_script ext (rows_of w)" using applied(1,3,4) by (simp add: host_inv_def reg_ok_def)
  then have old: "disk_script ext (rows_of w) i = Some s" using applied(6) by (simp add: find_by_id)
  have row: "rows_of w' = (rows_of w)(script_scope i \<mapsto> se_script ext (updated s meta source), GRANTS_SCOPE \<mapsto> se_grants ext (g(i := None)))"
    using db_change_cases[OF applied(9)] applied(3,11) by (simp add: fun_upd_twist map_add_def fun_eq_iff restrict_map_def)
  have "se_unscript ext (se_script ext (updated s meta source)) = Some (updated s meta source)"
    "se_ungrants ext (se_grants ext (g(i := None))) = Some (g(i := None))"
    using assms(1) disk_grants_finite[OF assms(1) applied(5)] by (simp_all add: codecs_def)
  then have "disk_script ext (rows_of w') = (disk_script ext (rows_of w))(i \<mapsto> updated s meta source) \<and>
      disk_grants ext (rows_of w') = Some (g(i := None)) \<and> disk_values ext (rows_of w') = disk_values ext (rows_of w)"
    unfolding row by simp
  then show ?thesis using old applied(5,7,8,10) unfolding updated_def by blast
qed

section \<open>What the host does besides\<close>

text \<open>An answer of "always" that the store refuses is lost with its question: the page gets no reply and
  the next question is not shown.\<close>

lemma refused_always_is_lost:
  assumes "wo_asks w = a # q" "record_grant ext (pa_script_id a) (pa_host a) (w\<lparr>wo_asks := q\<rparr>) = (Inl e, w2)"
    "codecs ext" "host_inv ext S w"
  shows "fst (xhr_answer_ask ext (pa_ask_id a) ''always'' w) = Inl e" "wo_asks (snd (xhr_answer_ask ext (pa_ask_id a) ''always'' w)) = q"
    "wo_out (snd (xhr_answer_ask ext (pa_ask_id a) ''always'' w)) = wo_out w"
  using assms(1,2) record_grant_keeps[OF assms(3) _ assms(2), of S] assms(4)
  by (simp_all add: xhr_answer_ask_def Let_def quiet_def)

text \<open>A later request of the page then joins a queue that is not empty, and is not shown either.\<close>

lemma question_behind_question:
  assumes "host_granted ext i host w = (False, w1)" "wo_asks w \<noteq> []"
  shows "length (wo_asks (w1\<lparr>wo_asks := wo_asks w1 @ [a]\<rparr>)) \<noteq> 1"
  using assms host_granted_asks[of ext i host w] by simp

text \<open>The answer to a request of an earlier document carries the nonce of the current one.\<close>

lemma late_answer_has_new_nonce:
  "tab \<in> wo_tabs w \<Longrightarrow> wo_nonces w (tab, i) = Some n \<Longrightarrow>
   wo_out (xhr_done tab i req (HttpFailed late) w) =
     wo_out w @ [XhrReply tab n i (xr_req_id req) (XhrFailed (if late then ''timed out'' else ''request failed'') late)]"
  by (simp add: xhr_done_def xhr_fail_def xhr_reply_def nonce_for_def emit_def)

text \<open>Installing over a script of the same name host_keeps the hosts the old one was granted.\<close>

lemma install_keeps_grants:
  assumes "host_inv ext S w"
  shows "disk_grants ext (rows_of (snd (install_source ext source origin w))) = disk_grants ext (rows_of w)"
proof (cases "parse_metadata (se_url ext) source")
  case (Inl e)
  then show ?thesis by (simp add: install_source_def)
next
  case (Inr meta)
  obtain r w1 where r: "ensure_loaded ext w = (r, w1)" by fastforce
  note l = ensure_loaded_keeps[OF assms r]
  have persisted: "disk_grants ext (rows_of (snd (persist_script ext s w2))) = disk_grants ext (rows_of w2)" for s w2
    using db_save_cases[of ext "script_scope (sc_id s)" "se_script ext s" w2]
    by (cases "db_save ext (script_scope (sc_id s)) (se_script ext s) w2")
      (auto simp: persist_script_def serialize_script_def split: bool.splits)
  have info: "rows_of (snd (info_of ext s w3)) = rows_of w3" for s w3
  proof -
    obtain q w4 where q: "db_load GRANTS_SCOPE w3 = (q, w4)" by fastforce
    show ?thesis using db_load_cases[OF q]
      by (auto simp: info_of_def ensure_grants_loaded_def q split: option.splits sum.splits)
  qed
  have done_: "disk_grants ext (rows_of (snd (case persist_script ext s w2 of
        (Inl e, w3) \<Rightarrow> (Inl e, w3) | (Inr _, w3) \<Rightarrow> info_of ext s (w3\<lparr>wo_registry := Some nxt\<rparr>)))) = disk_grants ext (rows_of w2)" for s w2 nxt
    using persisted[of s w2] info by (cases "persist_script ext s w2") (auto split: sum.splits)
  show ?thesis
    using l done_ by (auto simp: install_source_def Inr r Let_def split: sum.split option.split)
qed

section \<open>Instances\<close>

text \<open>Codecs that read back what they write: every value has a number, written in unary.\<close>

instance json :: countable by countable_datatype

instance script_meta_ext :: (countable) countable
  by (rule countable_classI[of "\<lambda>m. to_nat (sm_name m, sm_version m, sm_matches m, sm_includes m, sm_excludes m, sm_run_at m,
    sm_grants m, sm_update_url m, script_meta.more m)"]) (simp add: script_meta.equality)

instance script_ext :: (countable) countable
  by (rule countable_classI[of "\<lambda>s. to_nat (sc_id s, sc_enabled s, sc_meta s, sc_body s, sc_install_url s, script.more s)"])
    (simp add: script.equality)

definition unary :: "'a::countable \<Rightarrow> string" where
  "unary x = replicate (to_nat x) CHR ''1''"

definition unary_map :: "(string \<rightharpoonup> 'v::countable) \<Rightarrow> string" where
  "unary_map m = unary (map (\<lambda>k. (k, the (m k))) (sorted_list_of_set (dom m)))"

definition unary_env :: script_env where
  "unary_env = \<lparr>se_url = \<lparr>ux_parse = \<lambda>_. None, ux_regex = \<lambda>_. None\<rparr>, se_is_json = \<lambda>_. True,
     se_script = unary, se_unscript = \<lambda>t. Some (from_nat (length t)),
     se_grants = unary_map, se_ungrants = \<lambda>t. Some (map_of (from_nat (length t))),
     se_values = unary_map, se_unvalues = \<lambda>t. Some (map_of (from_nat (length t))),
     se_report = \<lambda>_. None, se_uuid = \<lambda>n. replicate n CHR ''1''\<rparr>"

lemma unary_back: "from_nat (length (unary x)) = x"
  by (simp add: unary_def)

lemma unary_map_back: "finite (dom m) \<Longrightarrow> map_of (from_nat (length (unary_map m))) = m"
  by (simp add: unary_map_def unary_back map_of_map_keys)

lemma unary_codecs: "codecs unary_env"
proof -
  have "inj (\<lambda>n. replicate n CHR ''1'')" by (rule injI) (metis length_replicate)
  then show ?thesis by (simp add: codecs_def unary_env_def unary_back unary_map_back finite_dom_map_of)
qed

definition first_run :: script_world where
  "first_run = \<lparr>wo_db = empty_app_db, wo_faults = [Some (0, ''disk full'')], wo_now = 7, wo_uuids = 0, wo_registry = None,
     wo_values = Map.empty, wo_grants = None, wo_asks = [], wo_ask_seq = 1, wo_nonces = Map.empty, wo_tabs = {''t''},
     wo_counts = Map.empty, wo_out = []\<rparr>"

lemma first_run_booted: "booted unary_env (first_run\<lparr>wo_asks := q\<rparr>)"
  by (simp add: booted_def first_run_def rows_ok_def rows_of_def empty_app_db_def tb_ok_def tb_find_def ids_fresh_def)

lemma fault_free_listing: "wo_registry (snd (userscripts_list ext (w\<lparr>wo_faults := [], wo_registry := None, wo_db := empty_app_db\<rparr>))) = Some []"
  by (simp add: userscripts_list_def ensure_loaded_def db_scopes_def take_fault_def list_scopes_def query_def res_bind_def
      empty_app_db_def tb_ordered_def sort_scripts_def scripts_of_def)


definition first_ask :: pending_ask where
  "first_ask = \<lparr>pa_ask_id = 5, pa_tab_id = ''t'', pa_script_id = ''a'', pa_script_name = ''A'', pa_host = ''h'',
     pa_req = \<lparr>xr_req_id = 1, xr_method = ''GET'', xr_url = ''https://h/'', xr_headers = [], xr_data = None, xr_timeout_ms = 30000\<rparr>\<rparr>"

lemma requests_need_consent_witness:
  "RequestSent ''t'' ''a'' (pa_req first_ask) ''h'' \<in>
     set (wo_out (run_op unary_env (OpAnswer 5 ''once'') (first_run\<lparr>wo_asks := [first_ask]\<rparr>)))"
proof -
  let ?w = "first_run\<lparr>wo_asks := [first_ask]\<rparr>"
  have "\<exists>rest. wo_out (run_op unary_env (OpAnswer 5 ''once'') ?w) = wo_out ?w @ once_sends (OpAnswer 5 ''once'') ?w @ rest"
    using requests_need_consent[OF unary_codecs first_run_booted[of "[first_ask]"] us_reach.start, where op = "OpAnswer 5 ''once''"] by blast
  then show ?thesis by (auto simp: once_sends_def first_ask_def)
qed

lemma update_all_or_nothing_witness:
  "rows_of (snd (apply_update unary_env ''a'' ''x'' (first_run\<lparr>wo_asks := []\<rparr>))) = rows_of first_run"
proof -
  let ?w = "first_run\<lparr>wo_asks := []\<rparr>"
  obtain r w' where run: "apply_update unary_env ''a'' ''x'' ?w = (r, w')" by fastforce
  have "rows_of first_run = Map.empty" "rows_of ?w = Map.empty"
    by (simp_all add: rows_of_def first_run_def empty_app_db_def tb_find_def fun_eq_iff)
  then show ?thesis
    using update_all_or_nothing[OF unary_codecs first_run_booted us_reach.start run] run by (auto simp: disk_script_def)
qed

end
