(* ===== verification/Agent_Ipc.thy ===== *)
theory Agent_Ipc
  imports Framing
begin

text \<open>
  The local connection between the windows and the agent supervisor
  (\<open>crates/tabverse-runtime/src/agent_ipc.rs\<close>): frames, the receiving stream, and the two sides of the
  authentication. The socket is a list of reads, each some bytes or a failure; an empty read is the
  end, an exhausted list a read that blocks. HMAC-SHA256 is a function of the key and the message.
\<close>

section \<open>Frames\<close>

definition IPC_VERSION :: byte where "IPC_VERSION = 1"
definition IPC_NONCE_BYTES :: nat where "IPC_NONCE_BYTES = 32"
definition IPC_PROOF_BYTES :: nat where "IPC_PROOF_BYTES = 32"
definition IPC_FIXED_BODY :: nat where "IPC_FIXED_BODY = 2"
definition IPC_MAX_FRAME_BODY :: nat where "IPC_MAX_FRAME_BODY = 8 * 1024 * 1024"

datatype ipc_kind =
    IHello | IWelcome | IStart | IPrompt | ICancel | IAnswer | IClose | IEvent | IAck | IError | IDetach

fun ipc_code :: "ipc_kind \<Rightarrow> byte" where
  "ipc_code IHello = 1" | "ipc_code IWelcome = 2" | "ipc_code IStart = 3" | "ipc_code IPrompt = 4"
| "ipc_code ICancel = 5" | "ipc_code IAnswer = 6" | "ipc_code IClose = 7" | "ipc_code IEvent = 8"
| "ipc_code IAck = 9" | "ipc_code IError = 10" | "ipc_code IDetach = 11"

datatype ipc_error = IpcTooLarge nat | IpcTooShort nat | IpcVersion byte | IpcKind byte | IpcUnauthorized

definition ipc_kind_of :: "byte \<Rightarrow> ipc_error + ipc_kind" where
  "ipc_kind_of v =
     (if v = 1 then Inr IHello else if v = 2 then Inr IWelcome else if v = 3 then Inr IStart
      else if v = 4 then Inr IPrompt else if v = 5 then Inr ICancel else if v = 6 then Inr IAnswer
      else if v = 7 then Inr IClose else if v = 8 then Inr IEvent else if v = 9 then Inr IAck
      else if v = 10 then Inr IError else if v = 11 then Inr IDetach else Inl (IpcKind v))"

record ipc_frame =
  if_kind :: ipc_kind
  if_payload :: bytes

definition ipc_encode :: "ipc_frame \<Rightarrow> ipc_error + bytes" where
  "ipc_encode f =
     (let body_len = IPC_FIXED_BODY + length (if_payload f) in
      if IPC_MAX_FRAME_BODY < body_len then Inl (IpcTooLarge body_len)
      else Inr (be_bytes 4 body_len @ [IPC_VERSION, ipc_code (if_kind f)] @ if_payload f))"

text \<open>One turn of the decoding loop.\<close>

definition ipc_scan :: "bytes \<Rightarrow> (ipc_error, ipc_frame) scan" where
  "ipc_scan buf =
     (if length buf < 4 then More
      else let body_len = from_be (take 4 buf) in
        if body_len < IPC_FIXED_BODY then Bad (IpcTooShort body_len)
        else if IPC_MAX_FRAME_BODY < body_len then Bad (IpcTooLarge body_len)
        else if length buf < 4 + body_len then More
        else if buf ! 4 \<noteq> IPC_VERSION then Bad (IpcVersion (buf ! 4))
        else case ipc_kind_of (buf ! 5) of
          Inl e \<Rightarrow> Bad e
        | Inr k \<Rightarrow> Got \<lparr>if_kind = k, if_payload = take (body_len - 2) (drop 6 buf)\<rparr> (drop (4 + body_len) buf))"

lemma ipc_scan_shrinks: "ipc_scan buf = Got f rest \<Longrightarrow> length rest < length buf"
  by (auto simp: ipc_scan_def Let_def split: if_splits sum.splits)

text \<open>\<open>decode_available\<close>: the frames found, which stay in the queue even when an error follows them, the
  error, and the bytes left.\<close>

function ipc_decode :: "bytes \<Rightarrow> ipc_frame list \<times> ipc_error option \<times> bytes" where
  "ipc_decode buf = (case ipc_scan buf of
     More \<Rightarrow> ([], None, buf)
   | Bad e \<Rightarrow> ([], Some e, buf)
   | Got f rest \<Rightarrow> (case ipc_decode rest of (fs, e, b) \<Rightarrow> (f # fs, e, b)))"
  by pat_completeness auto
termination by (relation "measure length") (auto dest: ipc_scan_shrinks)

declare ipc_decode.simps [simp del]

section \<open>The stream\<close>

datatype ipc_failure = IpcIo string | IpcProtocol ipc_error | IpcClosed

type_synonym ipc_reads = "(string + bytes) list"

record ipc_stream =
  is_buffered :: bytes
  is_pending :: "ipc_frame list"

definition ipc_new :: ipc_stream where
  "ipc_new = \<lparr>is_buffered = [], is_pending = []\<rparr>"

text \<open>The read loop of \<open>recv\<close>; none while it waits.\<close>

fun ipc_recv_loop :: "ipc_stream \<Rightarrow> ipc_reads \<Rightarrow> (ipc_failure + ipc_frame) option \<times> ipc_stream \<times> ipc_reads" where
  "ipc_recv_loop s [] = (None, s, [])"
| "ipc_recv_loop s (Inl e # rs) = (Some (Inl (IpcIo e)), s, rs)"
| "ipc_recv_loop s (Inr chunk # rs) =
     (if chunk = [] then (Some (Inl IpcClosed), s, rs)
      else case ipc_decode (is_buffered s @ chunk) of
        (fs, Some e, b) \<Rightarrow> (Some (Inl (IpcProtocol e)), \<lparr>is_buffered = b, is_pending = is_pending s @ fs\<rparr>, rs)
      | (fs, None, b) \<Rightarrow> (case is_pending s @ fs of
            [] \<Rightarrow> ipc_recv_loop \<lparr>is_buffered = b, is_pending = []\<rparr> rs
          | f # q \<Rightarrow> (Some (Inr f), \<lparr>is_buffered = b, is_pending = q\<rparr>, rs)))"

definition ipc_recv :: "ipc_stream \<Rightarrow> ipc_reads \<Rightarrow> (ipc_failure + ipc_frame) option \<times> ipc_stream \<times> ipc_reads" where
  "ipc_recv s rs = (case is_pending s of
     f # q \<Rightarrow> (Some (Inr f), s\<lparr>is_pending := q\<rparr>, rs) | [] \<Rightarrow> ipc_recv_loop s rs)"

text \<open>Sending, by the stream or by a sender cloned from it.\<close>

definition ipc_send :: "(bytes \<Rightarrow> string + unit) \<Rightarrow> ipc_frame \<Rightarrow> ipc_failure + bytes" where
  "ipc_send out f = (case ipc_encode f of
     Inl e \<Rightarrow> Inl (IpcProtocol e)
   | Inr bs \<Rightarrow> (case out bs of Inl e \<Rightarrow> Inl (IpcIo e) | Inr _ \<Rightarrow> Inr bs))"

section \<open>Authentication\<close>

type_synonym mac = "bytes \<Rightarrow> bytes \<Rightarrow> bytes"

definition ascii :: "string \<Rightarrow> bytes" where
  "ascii s = map of_char s"

definition ipc_proof :: "mac \<Rightarrow> bytes \<Rightarrow> bytes list \<Rightarrow> bytes" where
  "ipc_proof mac token parts = mac token (concat parts)"

definition ipc_verify :: "mac \<Rightarrow> bytes \<Rightarrow> bytes list \<Rightarrow> bytes \<Rightarrow> bool" where
  "ipc_verify mac token parts candidate \<longleftrightarrow> candidate = mac token (concat parts)"

definition ipc_hello :: "mac \<Rightarrow> bytes \<Rightarrow> bytes \<Rightarrow> bytes" where
  "ipc_hello mac token nonce = nonce @ ipc_proof mac token [ascii ''client'', nonce]"

definition ipc_welcome :: "mac \<Rightarrow> bytes \<Rightarrow> bytes \<Rightarrow> bytes \<Rightarrow> bytes" where
  "ipc_welcome mac token client_nonce server_nonce =
     server_nonce @ ipc_proof mac token [ascii ''server'', client_nonce, server_nonce]"

definition welcome_accepted :: "mac \<Rightarrow> bytes \<Rightarrow> bytes \<Rightarrow> ipc_frame \<Rightarrow> bool" where
  "welcome_accepted mac token nonce f \<longleftrightarrow>
     if_kind f = IWelcome \<and> length (if_payload f) = IPC_NONCE_BYTES + IPC_PROOF_BYTES \<and>
     ipc_verify mac token [ascii ''server'', nonce, take IPC_NONCE_BYTES (if_payload f)] (drop IPC_NONCE_BYTES (if_payload f))"

definition hello_accepted :: "mac \<Rightarrow> bytes \<Rightarrow> ipc_frame \<Rightarrow> bool" where
  "hello_accepted mac token f \<longleftrightarrow>
     if_kind f = IHello \<and> length (if_payload f) = IPC_NONCE_BYTES + IPC_PROOF_BYTES \<and>
     ipc_verify mac token [ascii ''client'', take IPC_NONCE_BYTES (if_payload f)] (drop IPC_NONCE_BYTES (if_payload f))"

text \<open>The client: what it sent, its verdict (none while it waits), the stream.\<close>

definition ipc_authenticate_client ::
  "(bytes \<Rightarrow> string + unit) \<Rightarrow> mac \<Rightarrow> bytes \<Rightarrow> bytes \<Rightarrow> ipc_stream \<Rightarrow> ipc_reads \<Rightarrow>
   (ipc_failure + unit) option \<times> ipc_stream \<times> ipc_reads" where
  "ipc_authenticate_client out mac token nonce s rs =
     (case ipc_send out \<lparr>if_kind = IHello, if_payload = ipc_hello mac token nonce\<rparr> of
        Inl e \<Rightarrow> (Some (Inl e), s, rs)
      | Inr _ \<Rightarrow> (case ipc_recv s rs of
          (None, s1, rs1) \<Rightarrow> (None, s1, rs1)
        | (Some (Inl e), s1, rs1) \<Rightarrow> (Some (Inl e), s1, rs1)
        | (Some (Inr f), s1, rs1) \<Rightarrow>
            (Some (if welcome_accepted mac token nonce f then Inr () else Inl (IpcProtocol IpcUnauthorized)), s1, rs1)))"

text \<open>The server: the frame it tries to send and its verdict.\<close>

definition ipc_authenticate_server ::
  "(bytes \<Rightarrow> string + unit) \<Rightarrow> mac \<Rightarrow> bytes \<Rightarrow> bytes \<Rightarrow> ipc_stream \<Rightarrow> ipc_reads \<Rightarrow>
   (ipc_frame \<times> (ipc_failure + unit)) option \<times> ipc_stream \<times> ipc_reads" where
  "ipc_authenticate_server out mac token nonce s rs =
     (case ipc_recv s rs of
        (None, s1, rs1) \<Rightarrow> (None, s1, rs1)
      | (Some first, s1, rs1) \<Rightarrow>
          (case (case first of Inl _ \<Rightarrow> None | Inr f \<Rightarrow> if hello_accepted mac token f then Some f else None) of
             None \<Rightarrow> (Some (\<lparr>if_kind = IError, if_payload = ascii ''unauthorized''\<rparr>, Inl (IpcProtocol IpcUnauthorized)), s1, rs1)
           | Some f \<Rightarrow>
               (let answer = \<lparr>if_kind = IWelcome,
                      if_payload = ipc_welcome mac token (take IPC_NONCE_BYTES (if_payload f)) nonce\<rparr> in
                (Some (answer, case ipc_send out answer of Inl e \<Rightarrow> Inl e | Inr _ \<Rightarrow> Inr ()), s1, rs1))))"

section \<open>The wire format\<close>

definition ipc_drain :: "bytes \<Rightarrow> (ipc_error + ipc_frame list) \<times> bytes" where
  "ipc_drain buf = (case ipc_decode buf of (fs, None, b) \<Rightarrow> (Inr fs, b) | (fs, Some e, b) \<Rightarrow> (Inl e, b))"

lemma ipc_kind_back: "ipc_kind_of (ipc_code k) = Inr k"
  by (cases k) (simp_all add: ipc_kind_of_def)

lemma ipc_encode_Inr:
  "ipc_encode f = Inr bs \<longleftrightarrow> IPC_FIXED_BODY + length (if_payload f) \<le> IPC_MAX_FRAME_BODY \<and>
     bs = be_bytes 4 (IPC_FIXED_BODY + length (if_payload f)) @ [IPC_VERSION, ipc_code (if_kind f)] @ if_payload f"
  by (auto simp: ipc_encode_def Let_def)

lemma ipc_scan_encode:
  assumes "ipc_encode f = Inr bs"
  shows "ipc_scan (bs @ rest) = Got f rest"
proof -
  define n where "n = IPC_FIXED_BODY + length (if_payload f)"
  from assms have n: "n \<le> IPC_MAX_FRAME_BODY"
    and bs: "bs = be_bytes 4 n @ [IPC_VERSION, ipc_code (if_kind f)] @ if_payload f"
    by (simp_all add: ipc_encode_Inr n_def)
  define buf where "buf = bs @ rest"
  have hd4: "from_be (take 4 buf) = n" using n by (simp add: buf_def bs from_be_bytes IPC_MAX_FRAME_BODY_def)
  have four: "length (be_bytes 4 n) = 4" by simp
  have parts: "buf ! 4 = IPC_VERSION" "buf ! 5 = ipc_code (if_kind f)"
    unfolding buf_def bs append_assoc using four by (simp_all add: nth_append)
  have "drop 6 buf = if_payload f @ rest" "drop (4 + n) buf = rest"
    unfolding buf_def bs append_assoc using four by (simp_all add: n_def IPC_FIXED_BODY_def)
  moreover have "\<not> length buf < 4" "\<not> length buf < 4 + n" "\<not> n < IPC_FIXED_BODY"
    by (simp_all add: buf_def bs n_def IPC_FIXED_BODY_def)
  ultimately have "ipc_scan buf = Got f rest"
    using n parts by (simp add: ipc_scan_def hd4 ipc_kind_back n_def IPC_FIXED_BODY_def Let_def)
  then show ?thesis by (simp add: buf_def)
qed

interpretation ipc_frames: frame_consumer ipc_encode ipc_scan ipc_drain
proof unfold_locales
  show "ipc_scan (bs @ rest) = Got f rest" if "ipc_encode f = Inr bs" for f bs rest
    using that by (rule ipc_scan_encode)
  show "length rest < length buf" if "ipc_scan buf = Got f rest" for buf f rest
    using that by (rule ipc_scan_shrinks)
  show "ipc_scan (buf @ more) = Got f (rest @ more)" if "ipc_scan buf = Got f rest" for buf f rest more
    using that by (auto simp: ipc_scan_def IPC_FIXED_BODY_def Let_def nth_append split: if_splits sum.splits)
  show "ipc_scan (buf @ more) = Bad e" if bad: "ipc_scan buf = Bad e" for buf e more
  proof (cases "from_be (take 4 buf) < IPC_FIXED_BODY")
    case True
    then show ?thesis using bad by (auto simp: ipc_scan_def Let_def split: if_splits)
  next
    case False
    then show ?thesis
      using bad by (auto simp: ipc_scan_def IPC_FIXED_BODY_def Let_def nth_append split: if_splits sum.splits)
  qed
qed (auto simp: ipc_drain_def ipc_decode.simps split: prod.split option.split)

section \<open>Frames come out in order\<close>

definition ipc_data :: "bytes list \<Rightarrow> ipc_reads" where
  "ipc_data cs = map Inr cs"

lemma ipc_drain_Inr: "ipc_drain buf = (Inr fs, b) \<longleftrightarrow> ipc_decode buf = (fs, None, b)"
  by (auto simp: ipc_drain_def split: prod.splits option.splits)

lemma ipc_drain_ok: "fst (ipc_drain buf) \<noteq> Inl e \<Longrightarrow> (\<forall>e. fst (ipc_drain buf) \<noteq> Inl e) \<Longrightarrow> \<exists>fs b. ipc_decode buf = (fs, None, b)"
  by (auto simp: ipc_drain_def split: prod.splits option.splits)

text \<open>One receive over reads that decode: the first frame, or waiting when there is none.\<close>

lemma ipc_recv_loop_decodes:
  assumes "ipc_scan (is_buffered s) = More" "is_pending s = []" "[] \<notin> set cs"
    and "ipc_decode (is_buffered s @ concat cs) = (gs, None, t)"
  shows "case gs of
      [] \<Rightarrow> \<exists>s1. ipc_recv_loop s (ipc_data cs) = (None, s1, [])
    | g # hs \<Rightarrow> \<exists>s1 cs1 ks. ipc_recv_loop s (ipc_data cs) = (Some (Inr g), s1, ipc_data cs1) \<and>
        ipc_scan (is_buffered s1) = More \<and> [] \<notin> set cs1 \<and> hs = is_pending s1 @ ks \<and>
        ipc_decode (is_buffered s1 @ concat cs1) = (ks, None, t)"
  using assms
proof (induction cs arbitrary: s)
  case Nil
  then have "gs = []" by (simp add: ipc_decode.simps)
  then show ?case by (simp add: ipc_data_def)
next
  case (Cons c cs)
  let ?b = "is_buffered s"
  have all: "ipc_drain ((?b @ c) @ concat cs) = (Inr gs, t)" using Cons.prems(4) by (simp add: ipc_drain_Inr)
  obtain r b where rb: "ipc_drain (?b @ c) = (r, b)" by fastforce
  have "r \<noteq> Inl e" for e
    using ipc_frames.drain_append_error [of "?b @ c" e b "concat cs"] rb all by auto
  then obtain fs where fs: "ipc_drain (?b @ c) = (Inr fs, b)" using rb by (cases r) auto
  have more: "ipc_scan b = More" by (rule ipc_frames.drain_leftover [OF fs])
  obtain ks where ks: "ipc_drain (b @ concat cs) = (Inr ks, t)" "gs = fs @ ks"
    using ipc_frames.drain_append [OF fs, of "concat cs"] all
    by (cases "ipc_drain (b @ concat cs)"; cases "fst (ipc_drain (b @ concat cs))") auto
  note dec = fs[unfolded ipc_drain_Inr] ks(1)[unfolded ipc_drain_Inr]
  show ?case
  proof (cases fs)
    case Nil
    have "ipc_recv_loop s (ipc_data (c # cs)) = ipc_recv_loop \<lparr>is_buffered = b, is_pending = []\<rparr> (ipc_data cs)"
      using dec Nil Cons.prems(2,3) by (auto simp: ipc_data_def)
    with Cons.IH [of "\<lparr>is_buffered = b, is_pending = []\<rparr>"] Cons.prems(3) ks dec more Nil show ?thesis
      by (simp cong: list.case_cong)
  next
    case (Cons f hs)
    then have "ipc_recv_loop s (ipc_data (c # cs)) = (Some (Inr f), \<lparr>is_buffered = b, is_pending = hs\<rparr>, ipc_data cs)"
      using dec Cons.prems(2,3) by (auto simp: ipc_data_def)
    with Cons ks dec more Cons.prems(3) show ?thesis by fastforce
  qed
qed

fun ipc_recv_times :: "nat \<Rightarrow> ipc_stream \<Rightarrow> ipc_reads \<Rightarrow> (ipc_failure + ipc_frame) option list" where
  "ipc_recv_times 0 s rs = []"
| "ipc_recv_times (Suc n) s rs = (case ipc_recv s rs of (r, s1, rs1) \<Rightarrow> r # ipc_recv_times n s1 rs1)"

lemma ipc_recv_times_decodes:
  assumes "ipc_scan (is_buffered s) = More" "[] \<notin> set cs" "ipc_decode (is_buffered s @ concat cs) = (gs, None, t)"
  shows "ipc_recv_times (length (is_pending s @ gs)) s (ipc_data cs) = map (\<lambda>f. Some (Inr f)) (is_pending s @ gs)"
  using assms
proof (induction "length (is_pending s @ gs)" arbitrary: s cs gs)
  case 0
  then show ?case by simp
next
  case (Suc n)
  show ?case
  proof (cases "is_pending s")
    case (Cons p ps)
    with Suc.hyps(1) [of "s\<lparr>is_pending := ps\<rparr>" gs cs] Suc.hyps(2) Suc.prems show ?thesis
      by (simp add: ipc_recv_def)
  next
    case Nil
    with Suc.hyps(2) obtain g hs where gs: "gs = g # hs" by (cases gs) auto
    from ipc_recv_loop_decodes [OF Suc.prems(1) Nil Suc.prems(2,3)]
    obtain s1 cs1 ks where one: "ipc_recv_loop s (ipc_data cs) = (Some (Inr g), s1, ipc_data cs1)"
      and inv: "ipc_scan (is_buffered s1) = More" "[] \<notin> set cs1" "hs = is_pending s1 @ ks"
        "ipc_decode (is_buffered s1 @ concat cs1) = (ks, None, t)"
      by (auto simp: gs)
    from Suc.hyps(1) [OF _ inv(1,2,4)] Suc.hyps(2) Nil gs inv(3) one show ?thesis
      by (simp add: ipc_recv_def)
  qed
qed

lemma ipc_scan_empty: "ipc_scan [] = More"
  by (simp add: ipc_scan_def)

text \<open>However the socket cuts a stream of encoded frames into reads, receiving returns exactly those
  frames, in order, one per call.\<close>

theorem ipc_roundtrip:
  assumes "list_all2 (\<lambda>f bs. ipc_encode f = Inr bs) fs bss" "concat cs = concat bss" "[] \<notin> set cs"
  shows "ipc_recv_times (length fs) ipc_new (ipc_data cs) = map (\<lambda>f. Some (Inr f)) fs"
proof -
  have "ipc_drain (concat cs) = (Inr fs, [])"
    using ipc_frames.drain_encodings [OF assms(1), of "[]"] assms(2) by (simp add: ipc_scan_empty)
  then show "ipc_recv_times (length fs) ipc_new (ipc_data cs) = map (\<lambda>f. Some (Inr f)) fs"
    using ipc_recv_times_decodes [of ipc_new cs fs "[]"] assms(3) by (simp add: ipc_new_def ipc_drain_Inr ipc_scan_empty)
qed

section \<open>Who is let in\<close>

lemma ipc_recv_first:
  assumes "ipc_encode f = Inr (concat cs)" "[] \<notin> set cs"
  shows "\<exists>s1 rs1. ipc_recv ipc_new (ipc_data cs) = (Some (Inr f), s1, rs1)"
proof -
  have "ipc_drain (concat cs) = (Inr [f], [])"
    using ipc_frames.drain_encodings [of "[f]" "[concat cs]" "[]"] assms(1) by (simp add: ipc_scan_empty)
  with ipc_recv_loop_decodes [of ipc_new cs "[f]" "[]"] assms(2) show ?thesis
    by (auto simp: ipc_recv_def ipc_new_def ipc_drain_Inr ipc_scan_empty)
qed

definition mac_sized :: "mac \<Rightarrow> bool" where
  "mac_sized mac \<longleftrightarrow> (\<forall>k m. length (mac k m) = IPC_PROOF_BYTES)"

text \<open>The client and the server of one token let each other in, however the reads are cut: the client's
  greeting makes the server answer with a welcome and agree, and that welcome makes the client agree.\<close>

theorem ipc_authentication_agrees:
  assumes "mac_sized mac" "length nc = IPC_NONCE_BYTES" "length ns = IPC_NONCE_BYTES" "\<forall>bs. out bs = Inr ()"
    and "ipc_send out \<lparr>if_kind = IHello, if_payload = ipc_hello mac token nc\<rparr> = Inr (concat cs)" "[] \<notin> set cs"
  shows "\<exists>answer s1 rs1. ipc_authenticate_server out mac token ns ipc_new (ipc_data cs) = (Some (answer, Inr ()), s1, rs1) \<and>
    (\<forall>ds. ipc_send out answer = Inr (concat ds) \<longrightarrow> [] \<notin> set ds \<longrightarrow>
      (\<exists>s2 rs2. ipc_authenticate_client out mac token nc ipc_new (ipc_data ds) = (Some (Inr ()), s2, rs2)))"
proof -
  let ?hello = "\<lparr>if_kind = IHello, if_payload = ipc_hello mac token nc\<rparr>"
  let ?answer = "\<lparr>if_kind = IWelcome, if_payload = ipc_welcome mac token nc ns\<rparr>"
  have sent: "ipc_send out f = Inr bs \<longleftrightarrow> ipc_encode f = Inr bs" for f bs
    using assms(4) by (simp add: ipc_send_def split: sum.split)
  have len: "length (mac token m) = 32" for m using assms(1) by (simp add: mac_sized_def IPC_PROOF_BYTES_def)
  have hello: "hello_accepted mac token ?hello" "take IPC_NONCE_BYTES (ipc_hello mac token nc) = nc"
    using assms(2) len by (simp_all add: hello_accepted_def ipc_hello_def ipc_verify_def ipc_proof_def IPC_NONCE_BYTES_def IPC_PROOF_BYTES_def)
  have accepted: "welcome_accepted mac token nc ?answer"
    using assms(3) len by (simp add: welcome_accepted_def ipc_welcome_def ipc_verify_def ipc_proof_def IPC_NONCE_BYTES_def IPC_PROOF_BYTES_def)
  have "ipc_encode ?hello = Inr (concat cs)" using assms(5) by (simp only: sent)
  then obtain s1 rs1 where first: "ipc_recv ipc_new (ipc_data cs) = (Some (Inr ?hello), s1, rs1)"
    using ipc_recv_first assms(6) by blast
  have goes: "\<exists>bs. ipc_send out f = Inr bs" if "length (if_payload f) \<le> 64" for f
    using that by (simp add: sent ipc_encode_Inr IPC_FIXED_BODY_def IPC_MAX_FRAME_BODY_def)
  obtain ws where ws: "ipc_send out ?answer = Inr ws"
    using goes [of ?answer] assms(3) len by (auto simp: ipc_welcome_def ipc_proof_def IPC_NONCE_BYTES_def)
  have server: "ipc_authenticate_server out mac token ns ipc_new (ipc_data cs) = (Some (?answer, Inr ()), s1, rs1)"
    using first hello ws by (simp add: ipc_authenticate_server_def)
  have "\<exists>s2 rs2. ipc_authenticate_client out mac token nc ipc_new (ipc_data ds) = (Some (Inr ()), s2, rs2)"
    if ds: "ipc_send out ?answer = Inr (concat ds)" "[] \<notin> set ds" for ds
  proof -
    have "ipc_encode ?answer = Inr (concat ds)" using ds(1) by (simp only: sent)
    then obtain s2 rs2 where "ipc_recv ipc_new (ipc_data ds) = (Some (Inr ?answer), s2, rs2)"
      using ipc_recv_first ds(2) by blast
    then show ?thesis using assms(5) accepted by (simp add: ipc_authenticate_client_def)
  qed
  with server show ?thesis by blast
qed

text \<open>The server lets nobody in without a proof: unless the first frame that arrives is a greeting with
  the token's code of its own nonce, it refuses, whatever else arrives, and all it sends is the word
  "unauthorized"; what it sends otherwise is the token's code of both nonces.\<close>

theorem ipc_needs_proof:
  assumes "ipc_authenticate_server out mac token ns s rs = (Some (sent, verdict), s1, rs1)"
  shows "(\<exists>f. ipc_recv s rs = (Some (Inr f), s1, rs1) \<and> if_kind f = IHello \<and>
      (\<exists>nc. length nc = IPC_NONCE_BYTES \<and> if_payload f = nc @ mac token (ascii ''client'' @ nc) \<and>
        sent = \<lparr>if_kind = IWelcome, if_payload = ns @ mac token (ascii ''server'' @ nc @ ns)\<rparr>)) \<or>
    verdict = Inl (IpcProtocol IpcUnauthorized) \<and> sent = \<lparr>if_kind = IError, if_payload = ascii ''unauthorized''\<rparr>"
proof -
  obtain first s2 rs2 where r: "ipc_recv s rs = (first, s2, rs2)" by (cases "ipc_recv s rs") auto
  then obtain q where q: "first = Some q" and same: "s2 = s1" "rs2 = rs1"
    using assms by (auto simp: ipc_authenticate_server_def Let_def split: option.splits sum.splits if_splits)
  show ?thesis
  proof (cases "\<exists>f. q = Inr f \<and> hello_accepted mac token f")
    case True
    then obtain f where f: "q = Inr f" "hello_accepted mac token f" by blast
    define nc where "nc = take IPC_NONCE_BYTES (if_payload f)"
    have "length nc = IPC_NONCE_BYTES" "if_payload f = nc @ mac token (ascii ''client'' @ nc)" "if_kind f = IHello"
      using f(2) append_take_drop_id[of IPC_NONCE_BYTES "if_payload f"]
      by (auto simp: hello_accepted_def nc_def ipc_verify_def)
    moreover have "sent = \<lparr>if_kind = IWelcome, if_payload = ns @ mac token (ascii ''server'' @ nc @ ns)\<rparr>"
      using assms f q r by (simp add: ipc_authenticate_server_def Let_def ipc_welcome_def ipc_proof_def nc_def)
    ultimately show ?thesis using r q f same by blast
  next
    case False
    then show ?thesis using assms q r
      by (cases q) (auto simp: ipc_authenticate_server_def Let_def split: if_splits)
  qed
qed

text \<open>What the client proves does not depend on the server: a greeting that was let in once is let in again
  by every later server of the token, whatever nonce it drew.\<close>

lemma greeting_replays:
  assumes "ipc_recv s rs = (Some (Inr f), s1, rs1)" "hello_accepted mac token f"
  shows "\<exists>answer v. ipc_authenticate_server out mac token other s rs = (Some (answer, v), s1, rs1) \<and> if_kind answer = IWelcome"
  using assms by (simp add: ipc_authenticate_server_def Let_def)

text \<open>Frames in front of a bad one are not lost: the call that meets it fails, the next ones return them.\<close>

lemma frames_before_error_kept:
  assumes "ipc_decode (is_buffered s @ chunk) = (fs, Some e, b)" "chunk \<noteq> []" "is_pending s = []"
  shows "ipc_recv s (Inr chunk # rs) = (Some (Inl (IpcProtocol e)), \<lparr>is_buffered = b, is_pending = fs\<rparr>, rs)"
  using assms by (simp add: ipc_recv_def)

unbundle bit_operations_syntax

definition xor_mac :: mac where
  "xor_mac k m = replicate 32 (foldr (\<lambda>a b. a XOR b) (k @ m) 0)"

lemma ipc_roundtrip_witness:
  "ipc_recv_times 1 ipc_new (ipc_data [[0, 0], [0, 3, 1, 9], [7]]) = [Some (Inr \<lparr>if_kind = IAck, if_payload = [7]\<rparr>)]"
proof -
  let ?f = "\<lparr>if_kind = IAck, if_payload = [7]\<rparr>"
  have "ipc_encode ?f = Inr [0, 0, 0, 3, 1, 9, 7]"
    by (simp add: ipc_encode_def IPC_FIXED_BODY_def IPC_MAX_FRAME_BODY_def IPC_VERSION_def be_bytes_numeral)
  then have "list_all2 (\<lambda>f bs. ipc_encode f = Inr bs) [?f] [[0, 0, 0, 3, 1, 9, 7]]" by simp
  from ipc_roundtrip [OF this, of "[[0, 0], [0, 3, 1, 9], [7]]"] show ?thesis by simp
qed

lemma ipc_authentication_agrees_witness:
  "\<exists>answer s1 rs1. ipc_authenticate_server (\<lambda>_. Inr ()) xor_mac [5] (replicate 32 2) ipc_new
     (ipc_data [be_bytes 4 66 @ [1, 1] @ ipc_hello xor_mac [5] (replicate 32 1)]) = (Some (answer, Inr ()), s1, rs1)"
proof -
  let ?cs = "[be_bytes 4 66 @ [1, 1] @ ipc_hello xor_mac [5] (replicate 32 1)]"
  have "ipc_send (\<lambda>_. Inr ()) \<lparr>if_kind = IHello, if_payload = ipc_hello xor_mac [5] (replicate 32 1)\<rparr> = Inr (concat ?cs)"
    by (simp add: ipc_send_def ipc_encode_def IPC_FIXED_BODY_def IPC_MAX_FRAME_BODY_def IPC_VERSION_def ipc_hello_def ipc_proof_def
        xor_mac_def Let_def)
  from ipc_authentication_agrees [OF _ _ _ _ this, of "replicate 32 2"] show ?thesis
    by (auto simp: mac_sized_def xor_mac_def IPC_PROOF_BYTES_def IPC_NONCE_BYTES_def)
qed

lemma ipc_needs_proof_witness:
  "snd (the (fst (ipc_authenticate_server (\<lambda>_. Inr ()) xor_mac [5] [2] ipc_new [Inr []]))) = Inl (IpcProtocol IpcUnauthorized)"
proof -
  obtain v where run: "ipc_authenticate_server (\<lambda>_. Inr ()) xor_mac [5] [2] ipc_new [Inr []] = v" by blast
  then obtain sent verdict s1 rs1 where v: "v = (Some (sent, verdict), s1, rs1)" and none: "ipc_recv ipc_new [Inr []] = (Some (Inl IpcClosed), s1, rs1)"
    by (auto simp: ipc_authenticate_server_def ipc_recv_def ipc_new_def)
  show ?thesis using ipc_needs_proof [OF run [unfolded v]] none by (auto simp: run v)
qed

end
