(* ===== verification/Codex_Stream.thy ===== *)
theory Codex_Stream
  imports Agent_Types
begin

text \<open>
  The parser of the Codex provider's answer (\<open>crates/tabverse-agent/src/codex/stream.rs\<close>): server-sent
  events that arrive in arbitrary pieces, assembled into the text shown and the turn's outcome.
  serde_json's parser is an argument.
\<close>

section \<open>State\<close>

datatype cx_stop = CxComplete | CxLength

datatype cx_chunk = CxText string | CxThinking string | CxDone cx_stop

record partial_call =
  pc_item_id :: string
  pc_call_id :: string
  pc_name :: string
  pc_input :: string

record cx_parser =
  cx_pending :: string
  cx_text :: string
  cx_calls :: "partial_call list"
  cx_stop_seen :: "cx_stop option"
  cx_finished :: bool

definition cx_new :: cx_parser where
  "cx_new = \<lparr>cx_pending = [], cx_text = [], cx_calls = [], cx_stop_seen = None, cx_finished = False\<rparr>"

section \<open>Events\<close>

definition json_text :: "string \<Rightarrow> json \<Rightarrow> string option" where
  "json_text key v = Option.bind (json_get key v) json_as_str"

definition is_tool_item :: "json \<Rightarrow> bool" where
  "is_tool_item item \<longleftrightarrow> json_text ''type'' item = Some ''custom_tool_call'' \<or> json_text ''type'' item = Some ''function_call''"

text \<open>The first call of an item, changed; opened when the stream never announced it.\<close>

fun call_mut :: "string \<Rightarrow> (partial_call \<Rightarrow> partial_call) \<Rightarrow> partial_call list \<Rightarrow> partial_call list" where
  "call_mut i f [] = [f \<lparr>pc_item_id = i, pc_call_id = [], pc_name = [], pc_input = []\<rparr>]"
| "call_mut i f (c # cs) = (if pc_item_id c = i then f c # cs else c # call_mut i f cs)"

definition or_default :: "string option \<Rightarrow> string" where
  "or_default v = (case v of Some t \<Rightarrow> t | None \<Rightarrow> [])"

text \<open>\<open>get("input").or_else(get("arguments"))\<close>.\<close>

definition input_of :: "json \<Rightarrow> string option" where
  "input_of v = Option.bind (case json_get ''input'' v of Some x \<Rightarrow> Some x | None \<Rightarrow> json_get ''arguments'' v) json_as_str"

definition close_call :: "json \<Rightarrow> partial_call \<Rightarrow> partial_call" where
  "close_call item c =
     \<lparr>pc_item_id = pc_item_id c,
      pc_call_id = (case json_text ''call_id'' item of Some t \<Rightarrow> t | None \<Rightarrow> pc_call_id c),
      pc_name = (case json_text ''name'' item of Some t \<Rightarrow> t | None \<Rightarrow> pc_name c),
      pc_input = (case input_of item of Some t \<Rightarrow> t | None \<Rightarrow> pc_input c)\<rparr>"

definition cx_event :: "json \<Rightarrow> cx_parser \<Rightarrow> cx_chunk option \<times> cx_parser" where
  "cx_event ev p = (case json_text ''type'' ev of
     None \<Rightarrow> (None, p)
   | Some t \<Rightarrow>
       (if t = ''response.output_text.delta''
        then (case json_text ''delta'' ev of
            None \<Rightarrow> (None, p) | Some d \<Rightarrow> (Some (CxText d), p\<lparr>cx_text := cx_text p @ d\<rparr>))
        else if t = ''response.reasoning_summary_text.delta'' \<or> t = ''response.reasoning_text.delta''
        then (case json_text ''delta'' ev of None \<Rightarrow> (None, p) | Some d \<Rightarrow> (Some (CxThinking d), p))
        else if t = ''response.output_item.added''
        then (case json_get ''item'' ev of
            None \<Rightarrow> (None, p)
          | Some item \<Rightarrow>
              (None, if is_tool_item item
                 then p\<lparr>cx_calls := cx_calls p @ [\<lparr>pc_item_id = or_default (json_text ''id'' item),
                   pc_call_id = or_default (json_text ''call_id'' item), pc_name = or_default (json_text ''name'' item), pc_input = []\<rparr>]\<rparr>
                 else p))
        else if t = ''response.custom_tool_call_input.delta'' \<or> t = ''response.function_call_arguments.delta''
        then (case json_text ''delta'' ev of
            None \<Rightarrow> (None, p)
          | Some d \<Rightarrow> (None, p\<lparr>cx_calls := call_mut (or_default (json_text ''item_id'' ev)) (\<lambda>c. c\<lparr>pc_input := pc_input c @ d\<rparr>) (cx_calls p)\<rparr>))
        else if t = ''response.custom_tool_call_input.done'' \<or> t = ''response.function_call_arguments.done''
        then (case input_of ev of
            None \<Rightarrow> (None, p)
          | Some d \<Rightarrow> (None, p\<lparr>cx_calls := call_mut (or_default (json_text ''item_id'' ev)) (\<lambda>c. c\<lparr>pc_input := d\<rparr>) (cx_calls p)\<rparr>))
        else if t = ''response.output_item.done''
        then (case json_get ''item'' ev of
            None \<Rightarrow> (None, p)
          | Some item \<Rightarrow>
              (None, if is_tool_item item
                 then p\<lparr>cx_calls := call_mut (or_default (json_text ''id'' item)) (close_call item) (cx_calls p)\<rparr>
                 else p))
        else if t = ''response.completed'' then (Some (CxDone CxComplete), p\<lparr>cx_finished := True, cx_stop_seen := Some CxComplete\<rparr>)
        else if t = ''response.incomplete'' then (Some (CxDone CxLength), p\<lparr>cx_finished := True, cx_stop_seen := Some CxLength\<rparr>)
        else if t = ''error'' \<or> t = ''response.failed'' then (None, p\<lparr>cx_finished := True\<rparr>)
        else (None, p)))"

section \<open>Lines\<close>

definition trim_crlf :: "string \<Rightarrow> string" where
  "trim_crlf s = rev (dropWhile (\<lambda>c. c = CHR 0x0D \<or> c = nl) (rev s))"

definition cx_line :: "(string \<Rightarrow> json option) \<Rightarrow> string \<Rightarrow> cx_parser \<Rightarrow> (string + cx_chunk option) \<times> cx_parser" where
  "cx_line parse line p =
     (if \<not> prefix ''data:'' line then (Inr None, p)
      else let payload = trim (drop 5 line) in
        if payload = [] then (Inr None, p)
        else if payload = ''[DONE]'' then (Inr None, p)
        else if cx_finished p then (Inr None, p)
        else case parse payload of
          None \<Rightarrow> (Inl (''bad SSE payload: '' @ payload), p)
        | Some ev \<Rightarrow> (case cx_event ev p of (c, p1) \<Rightarrow> (Inr c, p1)))"

text \<open>The loop of \<open>push\<close> over the whole lines of \<open>s\<close>, the pending text. An error leaves what follows its line.\<close>

function cx_drain :: "(string \<Rightarrow> json option) \<Rightarrow> string \<Rightarrow> cx_parser \<Rightarrow> (string + cx_chunk list) \<times> cx_parser" where
  "cx_drain parse s p =
     (if nl \<notin> set s then (Inr [], p\<lparr>cx_pending := s\<rparr>)
      else let line = takeWhile (\<lambda>c. c \<noteq> nl) s @ [nl]; rest = tl (dropWhile (\<lambda>c. c \<noteq> nl) s) in
        case cx_line parse (trim_crlf line) p of
          (Inl e, p1) \<Rightarrow> (Inl e, p1\<lparr>cx_pending := rest\<rparr>)
        | (Inr c, p1) \<Rightarrow> (case cx_drain parse rest p1 of
            (r, p2) \<Rightarrow> (map_sum id ((@) (case c of Some x \<Rightarrow> [x] | None \<Rightarrow> [])) r, p2)))"
  by pat_completeness auto
termination
proof (relation "measure (\<lambda>(_, s, _). length s)")
  fix parse :: "string \<Rightarrow> json option" and s :: string and p :: cx_parser and line rest :: string
    and x :: "(string + cx_chunk option) \<times> cx_parser" and r p1 c
  assume "\<not> nl \<notin> set s" and rest: "rest = tl (dropWhile (\<lambda>c. c \<noteq> nl) s)"
  then have "dropWhile (\<lambda>c. c \<noteq> nl) s \<noteq> []" by auto
  then have "length rest < length (dropWhile (\<lambda>c. c \<noteq> nl) s)" by (simp add: rest)
  also have "\<dots> \<le> length s" by (rule length_dropWhile_le)
  finally show "((parse, rest, p1), parse, s, p) \<in> measure (\<lambda>(_, s, _). length s)" by simp
qed simp

declare cx_drain.simps [simp del]

definition cx_push :: "(string \<Rightarrow> json option) \<Rightarrow> string \<Rightarrow> cx_parser \<Rightarrow> (string + cx_chunk list) \<times> cx_parser" where
  "cx_push parse bs p = cx_drain parse (cx_pending p @ bs) p"

definition finish_call :: "(string \<Rightarrow> json option) \<Rightarrow> partial_call \<Rightarrow> tool_call" where
  "finish_call parse c = \<lparr>tc_id = pc_call_id c, tc_name = pc_name c,
     tc_input = (case parse (pc_input c) of Some v \<Rightarrow> v | None \<Rightarrow> JObj [(''_raw'', JStr (pc_input c))])\<rparr>"

definition cx_outcome :: "(string \<Rightarrow> json option) \<Rightarrow> cx_parser \<Rightarrow> turn_outcome" where
  "cx_outcome parse p = \<lparr>to_text = cx_text p,
     to_tool_calls = map (finish_call parse) (filter (\<lambda>c. pc_call_id c \<noteq> [] \<and> pc_name c \<noteq> []) (cx_calls p))\<rparr>"

definition cx_finish :: "(string \<Rightarrow> json option) \<Rightarrow> cx_parser \<Rightarrow> string + turn_outcome \<times> cx_stop" where
  "cx_finish parse p =
     (case (if trim (cx_pending p) \<noteq> []
            then cx_line parse (trim_crlf (cx_pending p)) (p\<lparr>cx_pending := []\<rparr>) else (Inr None, p)) of
        (Inl e, _) \<Rightarrow> Inl e
      | (Inr _, p1) \<Rightarrow> (case cx_stop_seen p1 of
          None \<Rightarrow> Inl ''the stream ended without saying whether the answer was finished''
        | Some stop \<Rightarrow> Inr (cx_outcome parse p1, stop)))"

section \<open>Pieces\<close>

text \<open>A body that arrives piece by piece, up to the first error.\<close>

fun cx_feed :: "(string \<Rightarrow> json option) \<Rightarrow> string list \<Rightarrow> cx_parser \<Rightarrow> (string + cx_chunk list) \<times> cx_parser" where
  "cx_feed parse [] p = (Inr [], p)"
| "cx_feed parse (b # bs) p = (case cx_push parse b p of
     (Inl e, p1) \<Rightarrow> (Inl e, p1)
   | (Inr cs, p1) \<Rightarrow> (case cx_feed parse bs p1 of (r, p2) \<Rightarrow> (map_sum id ((@) cs) r, p2)))"

lemma cx_line_pending:
  "cx_line parse l (p\<lparr>cx_pending := x\<rparr>) = (case cx_line parse l p of (r, p1) \<Rightarrow> (r, p1\<lparr>cx_pending := x\<rparr>))"
  by (simp add: cx_line_def cx_event_def Let_def split: option.split)

lemma cx_drain_pending: "cx_drain parse s (p\<lparr>cx_pending := x\<rparr>) = cx_drain parse s p"
proof (induction parse s p rule: cx_drain.induct)
  case (1 parse s p)
  let ?line = "trim_crlf (takeWhile (\<lambda>c. c \<noteq> nl) s @ [nl])"
  obtain r p1 where l: "cx_line parse ?line p = (r, p1)" by fastforce
  show ?case
  proof (cases "nl \<in> set s")
    case False
    then show ?thesis by (simp add: cx_drain.simps)
  next
    case True
    have here: "cx_drain parse s q = (case cx_line parse ?line q of
          (Inl e, p1) \<Rightarrow> (Inl e, p1\<lparr>cx_pending := tl (dropWhile (\<lambda>c. c \<noteq> nl) s)\<rparr>)
        | (Inr c, p1) \<Rightarrow> (case cx_drain parse (tl (dropWhile (\<lambda>c. c \<noteq> nl) s)) p1 of
            (r, p2) \<Rightarrow> (map_sum id ((@) (case c of Some x \<Rightarrow> [x] | None \<Rightarrow> [])) r, p2)))" for q
      using True by (subst cx_drain.simps) (simp add: Let_def)
    show ?thesis
    proof (cases r)
      case (Inl e)
      then show ?thesis unfolding here by (simp add: cx_line_pending l)
    next
      case (Inr c)
      have "\<not> nl \<notin> set s" using True by simp
      from "1.IH"[OF this refl refl l[symmetric] Inr] Inr show ?thesis
        unfolding here by (simp add: cx_line_pending l)
    qed
  qed
qed

lemma split_at_nl: "nl \<in> set s \<Longrightarrow> takeWhile (\<lambda>c. c \<noteq> nl) (s @ t) = takeWhile (\<lambda>c. c \<noteq> nl) s \<and>
   tl (dropWhile (\<lambda>c. c \<noteq> nl) (s @ t)) = tl (dropWhile (\<lambda>c. c \<noteq> nl) s) @ t"
  by (induction s) (auto simp: takeWhile_append dropWhile_append)

lemma cx_drain_append:
  "cx_drain parse (s @ t) p = (case cx_drain parse s p of
     (Inl e, p1) \<Rightarrow> (Inl e, p1\<lparr>cx_pending := cx_pending p1 @ t\<rparr>)
   | (Inr cs, p1) \<Rightarrow> (case cx_drain parse (cx_pending p1 @ t) p1 of (r, p2) \<Rightarrow> (map_sum id ((@) cs) r, p2)))"
proof (induction parse s p rule: cx_drain.induct)
  case (1 parse s p)
  let ?l = "takeWhile (\<lambda>c. c \<noteq> nl) s @ [nl]" and ?rest = "tl (dropWhile (\<lambda>c. c \<noteq> nl) s)"
  obtain r p1 where l: "cx_line parse (trim_crlf ?l) p = (r, p1)" by fastforce
  show ?case
  proof (cases "nl \<in> set s")
    case False
    then have "cx_drain parse s p = (Inr [], p\<lparr>cx_pending := s\<rparr>)" by (simp add: cx_drain.simps)
    then show ?thesis by (cases "fst (cx_drain parse (s @ t) p)"; cases "cx_drain parse (s @ t) p") (simp_all add: cx_drain_pending)
  next
    case True
    note cut = split_at_nl[OF True, of t]
    have here: "cx_drain parse s p = (case cx_line parse (trim_crlf ?l) p of
          (Inl e, p1) \<Rightarrow> (Inl e, p1\<lparr>cx_pending := ?rest\<rparr>)
        | (Inr c, p1) \<Rightarrow> (case cx_drain parse ?rest p1 of
            (r, p2) \<Rightarrow> (map_sum id ((@) (case c of Some x \<Rightarrow> [x] | None \<Rightarrow> [])) r, p2)))"
      using True by (subst cx_drain.simps) (simp add: Let_def)
    have there: "cx_drain parse (s @ t) p = (case cx_line parse (trim_crlf ?l) p of
          (Inl e, p1) \<Rightarrow> (Inl e, p1\<lparr>cx_pending := ?rest @ t\<rparr>)
        | (Inr c, p1) \<Rightarrow> (case cx_drain parse (?rest @ t) p1 of
            (r, p2) \<Rightarrow> (map_sum id ((@) (case c of Some x \<Rightarrow> [x] | None \<Rightarrow> [])) r, p2)))"
      using True cut by (subst cx_drain.simps) (simp add: Let_def)
    show ?thesis
    proof (cases r)
      case (Inl e)
      then show ?thesis unfolding here there l by simp
    next
      case (Inr c)
      have "\<not> nl \<notin> set s" using True by simp
      note IH = "1.IH"[OF this refl refl l[symmetric] Inr]
      obtain q p2 where q: "cx_drain parse ?rest p1 = (q, p2)" by fastforce
      show ?thesis
      proof (cases q)
        case e: (Inl e)
        then show ?thesis unfolding here there l using IH True q Inr by simp
      next
        case cs: (Inr cs)
        obtain q3 p3 where q3: "cx_drain parse (cx_pending p2 @ t) p2 = (q3, p3)" by fastforce
        show ?thesis unfolding here there l using IH True q Inr cs q3 by (cases q3) simp_all
      qed
    qed
  qed
qed


lemma cx_new_pending [simp]: "cx_pending cx_new = []"
  by (simp add: cx_new_def)

lemma cx_drain_rest: "cx_drain parse s p = (Inr cs, p1) \<Longrightarrow> nl \<notin> set (cx_pending p1)"
proof (induction parse s p arbitrary: cs p1 rule: cx_drain.induct)
  case (1 parse s p)
  show ?case
  proof (cases "nl \<in> set s")
    case False
    then show ?thesis using 1(2) by (auto simp: cx_drain.simps)
  next
    case True
    let ?l = "takeWhile (\<lambda>c. c \<noteq> nl) s @ [nl]" and ?rest = "tl (dropWhile (\<lambda>c. c \<noteq> nl) s)"
    obtain r q where l: "cx_line parse (trim_crlf ?l) p = (r, q)" by fastforce
    obtain c where r: "r = Inr c" using 1(2) True l by (subst (asm) cx_drain.simps) (auto simp: Let_def split: sum.splits)
    obtain q2 p2 where q2: "cx_drain parse ?rest q = (q2, p2)" by fastforce
    have cs: "Inr cs = map_sum id ((@) (case c of Some x \<Rightarrow> [x] | None \<Rightarrow> [])) q2" "p1 = p2"
      using 1(2) True l r q2 by (subst (asm) cx_drain.simps, simp add: Let_def)+
    then obtain ds where ds: "q2 = Inr ds" by (cases q2) auto
    have "\<not> nl \<notin> set s" using True by simp
    from "1.IH"[OF this refl refl l[symmetric] r q2[unfolded ds]] cs(2) show ?thesis by simp
  qed
qed

lemma cx_feed_drain:
  assumes "nl \<notin> set (cx_pending p)"
  shows "(case cx_drain parse (cx_pending p @ concat bs) p of
      (Inl e, _) \<Rightarrow> fst (cx_feed parse bs p) = Inl e
    | (Inr cs, p1) \<Rightarrow> cx_feed parse bs p = (Inr cs, p1))"
  using assms
proof (induction bs arbitrary: p)
  case Nil
  then show ?case by (simp add: cx_drain.simps)
next
  case (Cons b bs)
  obtain r p1 where r: "cx_drain parse (cx_pending p @ b) p = (r, p1)" by fastforce
  have all: "cx_drain parse (cx_pending p @ concat (b # bs)) p = (case (r, p1) of
      (Inl e, p1) \<Rightarrow> (Inl e, p1\<lparr>cx_pending := cx_pending p1 @ concat bs\<rparr>)
    | (Inr cs, p1) \<Rightarrow> (case cx_drain parse (cx_pending p1 @ concat bs) p1 of (r, p2) \<Rightarrow> (map_sum id ((@) cs) r, p2)))"
    using cx_drain_append[of parse "cx_pending p @ b" "concat bs" p] by (simp add: r)
  show ?case
  proof (cases r)
    case (Inl e)
    then show ?thesis unfolding all by (simp add: cx_push_def r)
  next
    case (Inr cs)
    have "nl \<notin> set (cx_pending p1)" using cx_drain_rest[OF r[unfolded Inr]] .
    from Cons.IH[OF this] show ?thesis unfolding all
      by (cases "cx_drain parse (cx_pending p1 @ concat bs) p1"; cases "cx_feed parse bs p1")
        (auto simp: cx_push_def r Inr split: sum.splits)
  qed
qed

text \<open>C32: However the network cuts the body of an answer into pieces, the parser finds the same: pieces fed
  one by one give the chunks, or the first error, of the whole body fed at once, and without an error
  leave the same state, so that the assembled turn is the same too.\<close>

theorem pieces_do_not_matter:
  "fst (cx_feed parse bs cx_new) = fst (cx_push parse (concat bs) cx_new) \<and>
   (\<forall>cs. fst (cx_push parse (concat bs) cx_new) = Inr cs \<longrightarrow>
     cx_finish parse (snd (cx_feed parse bs cx_new)) = cx_finish parse (snd (cx_push parse (concat bs) cx_new)))"
  using cx_feed_drain[of cx_new parse bs]
  by (cases "cx_drain parse (concat bs) cx_new") (auto simp: cx_push_def split: sum.splits)

lemma pieces_do_not_matter_witness:
  "fst (cx_feed (\<lambda>_. None) [''da'', ''ta: x'', [nl]] cx_new) = Inl ''bad SSE payload: x''"
proof -
  have "fst (cx_push (\<lambda>_. None) (concat [''da'', ''ta: x'', [nl]]) cx_new) = Inl ''bad SSE payload: x''"
    by (simp add: cx_push_def cx_drain.simps cx_line_def trim_crlf_def trim_def trim_start_def trim_end_def is_white_def
        cx_new_def is_cont_def)
  with pieces_do_not_matter[of "\<lambda>_. None" "[''da'', ''ta: x'', [nl]]"] show ?thesis by simp
qed

section \<open>The end is the end\<close>

lemma cx_line_finished: "cx_finished p \<Longrightarrow> cx_line parse l p = (Inr None, p)"
  by (simp add: cx_line_def Let_def)

lemma cx_drain_finished: "cx_finished p \<Longrightarrow> \<exists>t. cx_drain parse s p = (Inr [], p\<lparr>cx_pending := t\<rparr>)"
proof (induction parse s p rule: cx_drain.induct)
  case (1 parse s p)
  show ?case
  proof (cases "nl \<in> set s")
    case True
    then have "\<not> nl \<notin> set s" by simp
    from "1.IH"[OF this refl refl cx_line_finished[OF 1(2), symmetric] refl 1(2)] True 1(2) show ?thesis
      by (subst cx_drain.simps) (auto simp: Let_def cx_line_finished)
  qed (auto simp: cx_drain.simps)
qed

lemma cx_feed_finished: "cx_finished p \<Longrightarrow> \<exists>t. cx_feed parse bs p = (Inr [], p\<lparr>cx_pending := t\<rparr>)"
proof (induction bs arbitrary: p)
  case Nil
  then show ?case by (metis cx_feed.simps(1) cx_parser.surjective cx_parser.update_convs(1))
next
  case (Cons b bs)
  obtain t where t: "cx_drain parse (cx_pending p @ b) p = (Inr [], p\<lparr>cx_pending := t\<rparr>)"
    using cx_drain_finished[OF Cons.prems] by blast
  from Cons.IH[of "p\<lparr>cx_pending := t\<rparr>"] Cons.prems t show ?case by (auto simp: cx_push_def)
qed

text \<open>A stream that keeps talking after it said it was finished changes nothing: whatever arrives after a
  terminal event, in whatever pieces, is no error, shows nothing, and leaves the turn as it was.\<close>

theorem finished_is_final:
  assumes "cx_finished p"
  shows "fst (cx_feed parse bs p) = Inr [] \<and> cx_finish parse (snd (cx_feed parse bs p)) = cx_finish parse p"
proof -
  obtain t where t: "cx_feed parse bs p = (Inr [], p\<lparr>cx_pending := t\<rparr>)" using cx_feed_finished[OF assms] by blast
  have same: "cx_outcome parse (p\<lparr>cx_pending := x\<rparr>) = cx_outcome parse p" for x by (simp add: cx_outcome_def)
  have "cx_finish parse (p\<lparr>cx_pending := x\<rparr>) = (case cx_stop_seen p of
      None \<Rightarrow> Inl ''the stream ended without saying whether the answer was finished''
    | Some stop \<Rightarrow> Inr (cx_outcome parse p, stop))" for x
    using assms by (cases "cx_stop_seen p") (simp_all add: cx_finish_def cx_line_finished same)
  from this[of t] this[of "cx_pending p"] t show ?thesis by simp
qed

lemma finished_is_final_witness:
  "cx_finish (\<lambda>_. None) (snd (cx_feed (\<lambda>_. None) [''data: more'', [nl]] (cx_new\<lparr>cx_text := ''hi'', cx_finished := True, cx_stop_seen := Some CxComplete\<rparr>)))
   = Inr (\<lparr>to_text = ''hi'', to_tool_calls = []\<rparr>, CxComplete)"
proof -
  let ?p = "cx_new\<lparr>cx_text := ''hi'', cx_finished := True, cx_stop_seen := Some CxComplete\<rparr>"
  have "cx_finish (\<lambda>_. None) ?p = Inr (\<lparr>to_text = ''hi'', to_tool_calls = []\<rparr>, CxComplete)"
    by (simp add: cx_finish_def cx_new_def cx_outcome_def trim_def trim_start_def trim_end_def)
  then show ?thesis using finished_is_final[of ?p "\<lambda>_. None" "[''data: more'', [nl]]"] by simp
qed

section \<open>What is shown is what is kept\<close>

definition shown_text :: "cx_chunk list \<Rightarrow> string" where
  "shown_text cs = concat (map (\<lambda>c. case c of CxText t \<Rightarrow> t | _ \<Rightarrow> []) cs)"

lemma shown_text_append [simp]: "shown_text (as @ bs) = shown_text as @ shown_text bs" "shown_text [] = []"
  by (simp_all add: shown_text_def)

lemma cx_event_shows:
  "cx_text (snd (cx_event ev p)) = cx_text p @ shown_text (case fst (cx_event ev p) of Some x \<Rightarrow> [x] | None \<Rightarrow> [])"
  by (simp add: cx_event_def shown_text_def split: option.split)

lemma cx_event_text: "cx_event ev p = (c, p1) \<Longrightarrow> cx_text p1 = cx_text p @ shown_text (case c of Some x \<Rightarrow> [x] | None \<Rightarrow> [])"
  using cx_event_shows[of ev p] by simp

lemma cx_line_text: "cx_line parse l p = (Inr c, p1) \<Longrightarrow> cx_text p1 = cx_text p @ shown_text (case c of Some x \<Rightarrow> [x] | None \<Rightarrow> [])"
  by (auto simp: cx_line_def Let_def split: option.splits if_splits prod.splits dest: cx_event_text)

lemma cx_drain_text: "cx_drain parse s p = (Inr cs, p1) \<Longrightarrow> cx_text p1 = cx_text p @ shown_text cs"
proof (induction parse s p arbitrary: cs p1 rule: cx_drain.induct)
  case (1 parse s p)
  show ?case
  proof (cases "nl \<in> set s")
    case False
    then show ?thesis using 1(2) by (auto simp: cx_drain.simps)
  next
    case True
    let ?l = "takeWhile (\<lambda>c. c \<noteq> nl) s @ [nl]" and ?rest = "tl (dropWhile (\<lambda>c. c \<noteq> nl) s)"
    obtain r q where l: "cx_line parse (trim_crlf ?l) p = (r, q)" by fastforce
    obtain c where r: "r = Inr c" using 1(2) True l by (subst (asm) cx_drain.simps) (auto simp: Let_def split: sum.splits)
    obtain q2 p2 where q2: "cx_drain parse ?rest q = (q2, p2)" by fastforce
    have cs: "Inr cs = map_sum id ((@) (case c of Some x \<Rightarrow> [x] | None \<Rightarrow> [])) q2" "p1 = p2"
      using 1(2) True l r q2 by (subst (asm) cx_drain.simps, simp add: Let_def)+
    then obtain ds where ds: "q2 = Inr ds" "cs = (case c of Some x \<Rightarrow> [x] | None \<Rightarrow> []) @ ds" by (cases q2) auto
    have "\<not> nl \<notin> set s" using True by simp
    from "1.IH"[OF this refl refl l[symmetric] r q2[unfolded ds(1)]] cx_line_text[OF l[unfolded r]] ds cs(2)
    show ?thesis by simp
  qed
qed

text \<open>The answer kept is the answer shown. Without an error the turn's text is what the text chunks showed,
  in order, followed at most by the text of a last line that had no end; reasoning is never part of it.\<close>

theorem shown_is_answer:
  assumes "cx_push parse body cx_new = (Inr cs, p)" "cx_finish parse p = Inr (outcome, stop)"
  shows "\<exists>last. to_text outcome = shown_text cs @ last \<and> (trim (cx_pending p) = [] \<longrightarrow> last = [])"
proof -
  have "cx_text p = shown_text cs" using cx_drain_text[of parse "cx_pending cx_new @ body" cx_new cs p] assms(1) by (simp add: cx_push_def cx_new_def)
  show ?thesis
  proof (cases "trim (cx_pending p) = []")
    case True
    then show ?thesis using assms(2) \<open>cx_text p = _\<close> by (auto simp: cx_finish_def cx_outcome_def split: option.splits)
  next
    case False
    then obtain c p1 where l: "cx_line parse (trim_crlf (cx_pending p)) (p\<lparr>cx_pending := []\<rparr>) = (Inr c, p1)"
      and o: "outcome = cx_outcome parse p1"
      using assms(2) by (auto simp: cx_finish_def split: option.splits prod.splits sum.splits)
    from cx_line_text[OF l] False o \<open>cx_text p = _\<close> show ?thesis by (simp add: cx_outcome_def)
  qed
qed

lemma shown_is_answer_witness:
  "\<exists>last. ''hi'' = shown_text [CxText ''hi'', CxDone CxComplete] @ last"
proof -
  let ?d = "JObj [(''type'', JStr ''response.output_text.delta''), (''delta'', JStr ''hi'')]"
  let ?c = "JObj [(''type'', JStr ''response.completed'')]"
  let ?parse = "\<lambda>s. if s = ''d'' then Some ?d else Some ?c"
  let ?body = "''data: d'' @ [nl] @ ''data: c'' @ [nl]"
  let ?p = "\<lparr>cx_pending = [], cx_text = ''hi'', cx_calls = [], cx_stop_seen = Some CxComplete, cx_finished = True\<rparr>"
  have body: "cx_push ?parse ?body cx_new = (Inr [CxText ''hi'', CxDone CxComplete], ?p)"
    by (simp add: cx_push_def cx_drain.simps cx_line_def trim_crlf_def trim_def trim_start_def trim_end_def is_white_def
        cx_new_def is_cont_def cx_event_def json_text_def json_get_def)
  have "cx_finish ?parse ?p = Inr (\<lparr>to_text = ''hi'', to_tool_calls = []\<rparr>, CxComplete)"
    by (simp add: cx_finish_def cx_outcome_def trim_def trim_start_def trim_end_def)
  from shown_is_answer[OF body this] show ?thesis by auto
qed

section \<open>What the parser does besides\<close>

text \<open>Two calls whose items carry no id are one call to the parser: the second closes over the first.\<close>

lemma idless_calls_merge:
  assumes "json_get ''item'' a = Some x" "json_get ''item'' b = Some y" "is_tool_item x" "is_tool_item y"
    "json_text ''type'' a = Some ''response.output_item.done''" "json_text ''type'' b = Some ''response.output_item.done''"
    "json_text ''id'' x = None" "json_text ''id'' y = None"
  shows "length (cx_calls (snd (cx_event b (snd (cx_event a cx_new))))) = 1"
  using assms by (simp add: cx_event_def cx_new_def or_default_def close_call_def)

text \<open>An error the service reports is not kept: the turn only says that it has no ending.\<close>

lemma reported_error_is_lost:
  assumes "json_text ''type'' ev = Some ''error'' \<or> json_text ''type'' ev = Some ''response.failed''" "cx_stop_seen p = None"
  shows "cx_finish parse (snd (cx_event ev (p\<lparr>cx_pending := []\<rparr>))) = Inl ''the stream ended without saying whether the answer was finished''"
  using assms by (auto simp: cx_event_def cx_finish_def trim_def trim_start_def trim_end_def)

text \<open>A frame of an item that comes before the item is announced makes two calls of it.\<close>

lemma early_frame_doubles_call:
  assumes "json_text ''type'' d = Some ''response.function_call_arguments.delta''" "json_text ''delta'' d = Some t"
    "json_text ''item_id'' d = Some i" "json_text ''type'' a = Some ''response.output_item.added''"
    "json_get ''item'' a = Some x" "is_tool_item x" "json_text ''id'' x = Some i"
  shows "length (cx_calls (snd (cx_event a (snd (cx_event d cx_new))))) = 2"
  using assms by (simp add: cx_event_def cx_new_def or_default_def)

end
