(* ===== verification/Codex_Provider.thy ===== *)
theory Codex_Provider
  imports Codex_Stream "HOL-Library.List_Lexorder" "HOL-Library.Char_ord"
begin

text \<open>
  The Codex provider around its parser (\<open>crates/tabverse-agent/src/codex/request.rs\<close>, \<open>websocket.rs\<close>,
  \<open>provider.rs\<close>, and the body reader of \<open>src-tauri/src/agent_http.rs\<close>): the request, the rules of the
  connection pool, and one turn over a socket or HTTP. The network is what it answers: pieces of a
  body and how it ended. serde_json's writer and the account in a token are arguments.
\<close>

section \<open>The request\<close>

text \<open>\<open>serde_json::Map\<close> without the feature that keeps insertion order: sorted by key.\<close>

fun map_insert :: "string \<Rightarrow> json \<Rightarrow> (string \<times> json) list \<Rightarrow> (string \<times> json) list" where
  "map_insert k v [] = [(k, v)]"
| "map_insert k v ((k', v') # m) =
     (if k' = k then (k, v) # m else if k < k' then (k, v) # (k', v') # m else (k', v') # map_insert k v m)"

definition json_obj :: "(string \<times> json) list \<Rightarrow> json" where
  "json_obj kvs = JObj (foldl (\<lambda>m (k, v). map_insert k v m) [] kvs)"

definition MAX_SESSION_KEY :: nat where "MAX_SESSION_KEY = 64"

datatype cache_retention = KeepCache | NoCache

record request_options =
  ro_session_id :: "string option"
  ro_cache_retention :: cache_retention
  ro_reasoning_effort :: "string option"
  ro_tool_choice :: "json option"

type_synonym headers = "(string \<times> string) list"

record codex_request =
  cr_headers :: headers
  cr_body :: json

definition clamp_key :: "string \<Rightarrow> string" where
  "clamp_key v = concat (take MAX_SESSION_KEY (rchars v))"

text \<open>\<open>show\<close> is \<open>Value::to_string\<close>.\<close>

fun input_items :: "(json \<Rightarrow> string) \<Rightarrow> message list \<Rightarrow> json list" where
  "input_items show [] = []"
| "input_items show (User t # ms) =
     json_obj [(''type'', JStr ''message''), (''role'', JStr ''user''),
       (''content'', JArr [json_obj [(''type'', JStr ''input_text''), (''text'', JStr t)]])] # input_items show ms"
| "input_items show (Assistant t calls # ms) =
     (if t = [] then [] else
       [json_obj [(''type'', JStr ''message''), (''role'', JStr ''assistant''),
         (''content'', JArr [json_obj [(''type'', JStr ''output_text''), (''text'', JStr t)]])]])
     @ map (\<lambda>c. json_obj [(''type'', JStr ''function_call''), (''call_id'', JStr (tc_id c)), (''name'', JStr (tc_name c)),
         (''arguments'', JStr (show (tc_input c)))]) calls
     @ input_items show ms"
| "input_items show (ToolResult i content _ # ms) =
     json_obj [(''type'', JStr ''function_call_output''), (''call_id'', JStr i), (''output'', JStr content)] # input_items show ms"

definition cx_tool_specs :: "tool_spec list \<Rightarrow> json list" where
  "cx_tool_specs tools = map (\<lambda>t. json_obj [(''type'', JStr ''function''), (''name'', JStr (ts_name t)),
     (''description'', JStr (ts_description t)), (''parameters'', ts_parameters t), (''strict'', JBool False)]) tools"

definition cache_key :: "request_options \<Rightarrow> string option" where
  "cache_key o' = (case (ro_cache_retention o', ro_session_id o') of
     (NoCache, _) \<Rightarrow> None | (_, None) \<Rightarrow> None | (KeepCache, Some i) \<Rightarrow> if i = [] then None else Some (clamp_key i))"

definition opt_insert :: "string \<Rightarrow> json option \<Rightarrow> (string \<times> json) list \<Rightarrow> (string \<times> json) list" where
  "opt_insert k v m = (case v of None \<Rightarrow> m | Some x \<Rightarrow> map_insert k x m)"

definition build_request ::
  "(json \<Rightarrow> string) \<Rightarrow> string \<Rightarrow> message list \<Rightarrow> tool_spec list \<Rightarrow> request_options \<Rightarrow> codex_request" where
  "build_request show model messages tools o' =
     \<lparr>cr_headers = [(''content-type'', ''application/json''), (''accept'', ''text/event-stream'')] @
        (case cache_key o' of None \<Rightarrow> [] | Some k \<Rightarrow> [(''session-id'', k), (''x-client-request-id'', k)]),
      cr_body = JObj
        (opt_insert ''prompt_cache_key'' (map_option JStr (cache_key o'))
        (opt_insert ''tool_choice'' (ro_tool_choice o')
        (opt_insert ''reasoning'' (map_option (\<lambda>e. json_obj [(''effort'', JStr e), (''summary'', JStr ''auto'')]) (ro_reasoning_effort o'))
        (opt_insert ''tools'' (if tools = [] then None else Some (JArr (cx_tool_specs tools)))
        (map_insert ''input'' (JArr (input_items show messages))
        (map_insert ''stream'' (JBool True)
        (map_insert ''model'' (JStr model) [])))))))\<rparr>"

section \<open>The pool\<close>

definition MAX_CONNECTION_AGE_MS :: nat where "MAX_CONNECTION_AGE_MS = 55 * 60 * 1000"
definition CONNECTION_LIMIT_CODE :: string where "CONNECTION_LIMIT_CODE = ''websocket_connection_limit_reached''"

type_synonym pool_key = "string \<times> string"

definition websocket_url :: "string \<Rightarrow> string" where
  "websocket_url u =
     (if prefix ''https://'' u then ''wss://'' @ drop 8 u
      else if prefix ''http://'' u then ''ws://'' @ drop 7 u else u)"

datatype disposition = RetryOnce | FallBackToSse | FailTurn

definition contains :: "string \<Rightarrow> string \<Rightarrow> bool" where
  "contains needle s \<longleftrightarrow> str_find needle s \<noteq> None"

definition disposition_of :: "bool \<Rightarrow> string \<Rightarrow> disposition" where
  "disposition_of started e =
     (if started then FailTurn
      else if contains CONNECTION_LIMIT_CODE e then RetryOnce
      else if contains ''timed out'' e \<or> contains ''idle'' e \<or> contains ''connect'' e then FallBackToSse
      else FailTurn)"

record continuation =
  co_envelope :: json
  co_sent_input :: "json list"
  co_produced :: "json list"
  co_response_id :: string

record pooled =
  po_opened_at :: nat
  po_busy :: bool
  po_continuation :: "continuation option"

definition is_usable :: "pooled \<Rightarrow> nat \<Rightarrow> bool" where
  "is_usable e now \<longleftrightarrow> \<not> po_busy e \<and> now - po_opened_at e < MAX_CONNECTION_AGE_MS"

definition keys_but_input :: "(string \<times> json) list \<Rightarrow> string list" where
  "keys_but_input m = sort (filter (\<lambda>k. k \<noteq> ''input'') (map fst m))"

definition envelopes_match :: "json \<Rightarrow> json \<Rightarrow> bool" where
  "envelopes_match body envelope =
     (case (json_as_object body, json_as_object envelope) of
        (Some a, Some b) \<Rightarrow> keys_but_input a = keys_but_input b \<and>
          list_all (\<lambda>(k, v). map_of b k = Some v) (filter (\<lambda>(k, v). k \<noteq> ''input'') a)
      | _ \<Rightarrow> False)"

fun json_as_array :: "json \<Rightarrow> json list option" where
  "json_as_array (JArr xs) = Some xs"
| "json_as_array _ = None"

definition input_delta :: "json \<Rightarrow> continuation \<Rightarrow> json list option" where
  "input_delta body c =
     (if \<not> envelopes_match body (co_envelope c) then None
      else case Option.bind (json_get ''input'' body) json_as_array of
        None \<Rightarrow> None
      | Some current \<Rightarrow>
          (let baseline = co_sent_input c @ co_produced c in
           if length current < length baseline then None
           else if list_ex (\<lambda>(a, b). a \<noteq> b) (zip current baseline) then None
           else Some (drop (length baseline) current)))"

definition continuation_body :: "json \<Rightarrow> json list \<Rightarrow> string \<Rightarrow> json" where
  "continuation_body body delta response_id = (case body of
     JObj m \<Rightarrow> JObj (map_insert ''previous_response_id'' (JStr response_id) (map_insert ''input'' (JArr delta) m))
   | _ \<Rightarrow> body)"

record pool =
  pl_entries :: "pool_key \<rightharpoonup> pooled"
  pl_fallen_back :: "string set"

definition pool_new :: pool where
  "pool_new = \<lparr>pl_entries = Map.empty, pl_fallen_back = {}\<rparr>"

definition may_try :: "pool \<Rightarrow> string \<Rightarrow> bool" where
  "may_try pl s \<longleftrightarrow> s \<notin> pl_fallen_back pl"

definition remember_fallback :: "string \<Rightarrow> pool \<Rightarrow> pool" where
  "remember_fallback s pl = pl\<lparr>pl_fallen_back := insert s (pl_fallen_back pl)\<rparr>"

definition pool_take :: "pool_key \<Rightarrow> nat \<Rightarrow> pool \<Rightarrow> pooled option \<times> pool" where
  "pool_take k now pl =
     (case pl_entries pl k of
        Some e \<Rightarrow> if is_usable e now then (Some e, pl\<lparr>pl_entries := (pl_entries pl)(k := None)\<rparr>)
          else (None, pl\<lparr>pl_entries := (pl_entries pl)(k := None)\<rparr>)
      | None \<Rightarrow> (None, pl\<lparr>pl_entries := (pl_entries pl)(k := None)\<rparr>))"

definition pool_put :: "pool_key \<Rightarrow> pooled \<Rightarrow> pool \<Rightarrow> pool" where
  "pool_put k e pl = pl\<lparr>pl_entries := (pl_entries pl)(k \<mapsto> e)\<rparr>"

section \<open>Bytes to text\<close>

function valid_up_to :: "string \<Rightarrow> nat" where
  "valid_up_to s = (if char_width s = 0 then 0 else char_width s + valid_up_to (drop (char_width s) s))"
  by pat_completeness auto
termination
proof (relation "measure length")
  show "(drop (char_width s) s, s) \<in> measure length" if "char_width s \<noteq> 0" for s
    using that by (cases s) (auto simp: char_width_def)
qed simp

declare valid_up_to.simps [simp del]

text \<open>The body reader hands on what is whole and holds the rest back; what is held at the end is dropped.\<close>

fun carry_pieces :: "string list \<Rightarrow> string \<Rightarrow> string list" where
  "carry_pieces [] carry = []"
| "carry_pieces (c # cs) carry =
     (let b = carry @ c; n = if utf8_valid b then length b else valid_up_to b in
      if take n b = [] then carry_pieces cs (drop n b) else take n b # carry_pieces cs (drop n b))"

section \<open>A turn\<close>

text \<open>An answer of the network: the pieces it hands over, a failure after them, the status.\<close>

record net_answer =
  na_pieces :: "string list"
  na_failure :: "string option"
  na_status :: nat

record codex_env =
  ce_parse :: "string \<Rightarrow> json option"
  ce_show :: "json \<Rightarrow> string"
  ce_account :: "string \<Rightarrow> string option"
  ce_token :: "string + string"
  ce_has_sockets :: bool
  ce_open :: "string option"
  ce_exchange :: net_answer
  ce_post :: net_answer

datatype codex_sent = SocketOpen string headers | SocketSend string | HttpPost string headers string

definition RESPONSES_URL :: string where
  "RESPONSES_URL = ''https://chatgpt.com/backend-api/codex/responses''"

definition events_of :: "cx_chunk list \<Rightarrow> provider_event list" where
  "events_of cs = concat (map (\<lambda>c. case c of CxText t \<Rightarrow> [PText t] | CxThinking t \<Rightarrow> [PThinking t] | CxDone _ \<Rightarrow> []) cs)"

text \<open>The reader of both transports: what it shows, the parser, a parse error, and whether it stopped
  the reading.\<close>

fun read_answer :: "(string \<Rightarrow> json option) \<Rightarrow> string list \<Rightarrow> cx_parser \<Rightarrow> provider_event list \<times> cx_parser \<times> string option \<times> bool" where
  "read_answer parse [] p = ([], p, None, False)"
| "read_answer parse (b # bs) p = (case cx_push parse b p of
     (Inl e, p1) \<Rightarrow> ([], p1, Some e, True)
   | (Inr cs, p1) \<Rightarrow>
       (if cx_finished p1 then (events_of cs, p1, None, True)
        else case read_answer parse bs p1 of (evs, p2, e, stopped) \<Rightarrow> (events_of cs @ evs, p2, e, stopped)))"

definition failure_of :: "net_answer \<Rightarrow> bool \<Rightarrow> string option" where
  "failure_of a stopped = (if stopped then None else na_failure a)"

definition after_socket_failure :: "string \<Rightarrow> bool \<Rightarrow> string \<Rightarrow> pool \<Rightarrow> (string + turn_outcome option) \<times> pool" where
  "after_socket_failure session started e pl = (case disposition_of started e of
     FallBackToSse \<Rightarrow> (Inr None, remember_fallback session pl)
   | RetryOnce \<Rightarrow> (Inr None, pl)
   | FailTurn \<Rightarrow> (Inl (''the connection failed mid-answer: '' @ e), pl))"

definition try_socket ::
  "codex_env \<Rightarrow> request_options \<Rightarrow> json \<Rightarrow> headers \<Rightarrow> string \<Rightarrow> pool \<Rightarrow>
   provider_event list \<times> codex_sent list \<times> (string + turn_outcome option) \<times> pool" where
  "try_socket env o' body headers token pl =
     (if \<not> ce_has_sockets env then ([], [], Inr None, pl)
      else case ro_session_id o' of
        None \<Rightarrow> ([], [], Inr None, pl)
      | Some session \<Rightarrow>
          (let account = (case ce_account env token of Some a \<Rightarrow> a | None \<Rightarrow> []); key = (session, account) in
           if \<not> may_try pl session then ([], [], Inr None, pl)
           else case pool_take key 0 pl of
             (reused, pl1) \<Rightarrow>
               (let payload = (case Option.bind reused po_continuation of
                    Some c \<Rightarrow> (case input_delta body c of
                        Some d \<Rightarrow> ce_show env (continuation_body body d (co_response_id c))
                      | None \<Rightarrow> ce_show env body)
                  | None \<Rightarrow> ce_show env body);
                  opened = SocketOpen (websocket_url RESPONSES_URL) headers in
                case ce_open env of
                  Some e \<Rightarrow> (case after_socket_failure session False e pl1 of (r, pl2) \<Rightarrow> ([], [opened], r, pl2))
                | None \<Rightarrow>
                    (case read_answer (ce_parse env) (na_pieces (ce_exchange env)) cx_new of
                       (evs, p, parse_error, stopped) \<Rightarrow>
                         (let sent = [opened, SocketSend payload] in
                          case parse_error of
                            Some e \<Rightarrow> (evs, sent, Inl e, pl1)
                          | None \<Rightarrow> (case failure_of (ce_exchange env) stopped of
                              Some e \<Rightarrow> (case after_socket_failure session (evs \<noteq> []) e pl1 of (r, pl2) \<Rightarrow> (evs, sent, r, pl2))
                            | None \<Rightarrow> (case cx_finish (ce_parse env) p of
                                Inl e \<Rightarrow> (evs, sent, Inl e, pl1)
                              | Inr (outcome, _) \<Rightarrow>
                                  (evs, sent, Inr (Some outcome),
                                   pool_put key \<lparr>po_opened_at = 0, po_busy = False, po_continuation = None\<rparr> pl1))))))))"

definition post_turn :: "codex_env \<Rightarrow> json \<Rightarrow> headers \<Rightarrow> provider_event list \<times> codex_sent list \<times> (string + turn_outcome)" where
  "post_turn env body headers =
     (case read_answer (ce_parse env) (na_pieces (ce_post env)) cx_new of
        (evs, p, parse_error, stopped) \<Rightarrow>
          (evs, [HttpPost RESPONSES_URL headers (ce_show env body)],
           case failure_of (ce_post env) stopped of
             Some e \<Rightarrow> Inl e
           | None \<Rightarrow> (case parse_error of
               Some e \<Rightarrow> Inl e
             | None \<Rightarrow>
                 (if na_status (ce_post env) < 200 \<or> 300 \<le> na_status (ce_post env) then Inl (''Codex answered with status '' @ show_nat (na_status (ce_post env)))
                  else case cx_finish (ce_parse env) p of Inl e \<Rightarrow> Inl e | Inr (outcome, _) \<Rightarrow> Inr outcome))))"

definition codex_stream ::
  "codex_env \<Rightarrow> string \<Rightarrow> request_options \<Rightarrow> message list \<Rightarrow> tool_spec list \<Rightarrow> pool \<Rightarrow>
   provider_event list \<times> codex_sent list \<times> (string + turn_outcome) \<times> pool" where
  "codex_stream env model o' messages tools pl =
     (case ce_token env of
        Inl e \<Rightarrow> ([], [], Inl e, pl)
      | Inr token \<Rightarrow>
          (let request = build_request (ce_show env) model messages tools o';
               headers = cr_headers request @ [(''authorization'', ''Bearer '' @ token)] in
           case try_socket env o' (cr_body request) headers token pl of
             (evs, sent, Inl e, pl1) \<Rightarrow> (evs, sent, Inl e, pl1)
           | (evs, sent, Inr (Some outcome), pl1) \<Rightarrow> (evs, sent, Inr outcome, pl1)
           | (evs, sent, Inr None, pl1) \<Rightarrow> (case post_turn env (cr_body request) headers of
               (evs', sent', r) \<Rightarrow> (evs @ evs', sent @ sent', r, pl1))))"

section \<open>Bodies cut anywhere\<close>

lemma char_width_le: "char_width s \<le> length s"
  using char_width_spec [of s] by (cases "char_width s = 0") auto

lemma valid_up_to_le: "valid_up_to s \<le> length s"
proof (induction s rule: valid_up_to.induct)
  case (1 s)
  show ?case
  proof (cases "char_width s = 0")
    case False
    with 1 char_width_le[of s] show ?thesis by (subst valid_up_to.simps) auto
  qed (simp add: valid_up_to.simps)
qed

lemma valid_up_to_append:
  "valid_up_to (s @ t) = valid_up_to s + valid_up_to (drop (valid_up_to s) s @ t)"
proof (induction s rule: valid_up_to.induct)
  case (1 s)
  show ?case
  proof (cases "char_width s = 0")
    case True
    then have "valid_up_to s = 0" by (simp add: valid_up_to.simps)
    then show ?thesis by simp
  next
    case False
    then have w: "char_width (s @ t) = char_width s" by (rule char_width_append)
    have "valid_up_to (s @ t) = char_width s + valid_up_to (drop (char_width s) s @ t)"
      using False char_width_le[of s] by (subst valid_up_to.simps) (simp add: w)
    moreover have "valid_up_to s = char_width s + valid_up_to (drop (char_width s) s)"
      using False by (subst valid_up_to.simps) simp
    ultimately show ?thesis using 1[OF False] by (simp add: add.commute)
  qed
qed

lemma utf8_valid_up_to: "utf8_valid s \<longleftrightarrow> valid_up_to s = length s"
proof (induction s rule: utf8_valid.induct)
  case (1 s)
  show ?case
  proof (cases "s = [] \<or> char_width s = 0")
    case True
    then show ?thesis by (subst utf8_valid.simps, subst valid_up_to.simps) (auto simp: char_width_def)
  next
    case False
    then show ?thesis using 1 char_width_le[of s]
      by (subst utf8_valid.simps, subst valid_up_to.simps) auto
  qed
qed

lemma concat_carry: "concat (carry_pieces cs carry) = take (valid_up_to (carry @ concat cs)) (carry @ concat cs)" if "valid_up_to carry = 0"
  using that
proof (induction cs arbitrary: carry)
  case Nil
  then show ?case by simp
next
  case (Cons c cs)
  define b where "b = carry @ c"
  define n where "n = valid_up_to b"
  have n: "(if utf8_valid b then length b else valid_up_to b) = n" by (simp add: n_def utf8_valid_up_to)
  have "valid_up_to b = valid_up_to b + valid_up_to (drop n b)" using valid_up_to_append[of b "[]"] by (simp add: n_def)
  then have "concat (carry_pieces cs (drop n b)) = take (valid_up_to (drop n b @ concat cs)) (drop n b @ concat cs)"
    by (intro Cons.IH) simp
  moreover have "take (valid_up_to (b @ concat cs)) (b @ concat cs) = take n b @ take (valid_up_to (drop n b @ concat cs)) (drop n b @ concat cs)"
    using valid_up_to_append[of b "concat cs"] valid_up_to_le[of b]
    by (simp add: n_def[symmetric] take_add add.commute)
  moreover have "carry_pieces (c # cs) carry = (if take n b = [] then carry_pieces cs (drop n b) else take n b # carry_pieces cs (drop n b))"
    unfolding carry_pieces.simps Let_def b_def[symmetric] n ..
  then have "concat (carry_pieces (c # cs) carry) = take n b @ concat (carry_pieces cs (drop n b))" by simp
  moreover have "carry @ concat (c # cs) = b @ concat cs" by (simp add: b_def)
  ultimately show ?case by (simp only:)
qed

text \<open>However the network cuts the bytes of a well-formed body, also inside a character, the pieces
  handed to the parser are together that body.\<close>

theorem body_comes_through:
  assumes "utf8_valid (concat cs)"
  shows "concat (carry_pieces cs []) = concat cs"
  using assms concat_carry[of "[]" cs] by (simp add: utf8_valid_up_to) (simp add: valid_up_to.simps char_width_def)

lemma body_comes_through_witness:
  "concat (carry_pieces [[CHR 0x61, CHR 0xC3], [CHR 0xA9]] []) = [CHR 0x61, CHR 0xC3, CHR 0xA9]"
  using body_comes_through[of "[[CHR 0x61, CHR 0xC3], [CHR 0xA9]]"]
  by (simp add: utf8_valid.simps char_width_def is_cont_def Let_def numeral_eq_Suc del: carry_pieces.simps)

text \<open>A byte that can begin no character stops everything: nothing from it on is handed over, and what
  was held back is dropped at the end.\<close>

lemma bad_byte_stops_all:
  assumes "char_width bad = 0" "\<forall>t. char_width (bad @ t) = 0"
  shows "concat (carry_pieces (bad # cs) []) = []"
proof -
  have "valid_up_to (bad @ t) = 0" for t using assms by (subst valid_up_to.simps) simp
  moreover have "valid_up_to [] = 0" by (simp add: valid_up_to.simps char_width_def)
  ultimately show ?thesis using concat_carry[of "[]" "bad # cs"] by (simp del: carry_pieces.simps)
qed

section \<open>The request and the prefix\<close>

definition sorted_map :: "(string \<times> json) list \<Rightarrow> bool" where
  "sorted_map m \<longleftrightarrow> sorted_wrt (<) (map fst m)"

lemma map_of_insert [simp]: "map_of (map_insert k v m) = (map_of m)(k \<mapsto> v)"
  by (induction m) (auto simp: fun_eq_iff)

lemma keys_insert: "fst ` set (map_insert k v m) = insert k (fst ` set m)"
  by (induction k v m rule: map_insert.induct) (simp_all add: insert_commute)

lemma sorted_insert: "sorted_map m \<Longrightarrow> sorted_map (map_insert k v m)"
proof (induction m)
  case (Cons x m)
  obtain k' v' where x: "x = (k', v')" by fastforce
  have "k' < k \<Longrightarrow> \<forall>y \<in> set (map fst (map_insert k v m)). k' < y"
    using Cons.prems keys_insert[of k v m] by (auto simp: sorted_map_def x)
  then show ?case using Cons by (auto simp: sorted_map_def x not_less dest: order.strict_trans)
qed (simp add: sorted_map_def)

lemma opt_insert_get: "map_of (opt_insert k v m) = (\<lambda>i. if i = k then (case v of None \<Rightarrow> map_of m k | Some x \<Rightarrow> Some x) else map_of m i)"
  by (auto simp: opt_insert_def fun_eq_iff split: option.split)

lemma json_get_obj: "json_get k (JObj m) = map_of m k"
  by (simp add: json_get_def)

lemma input_items_append: "input_items show (ms @ ms') = input_items show ms @ input_items show ms'"
  by (induction "show" ms rule: input_items.induct) simp_all

text \<open>A conversation that only grows keeps the prefix a cache depends on: the request for the longer one
  has the same headers, the same body in every field but the input, and an input that begins with all the
  items of the shorter one.\<close>

theorem request_keeps_prefix:
  "cr_headers (build_request show model (ms @ later) tools o') = cr_headers (build_request show model ms tools o') \<and>
   (\<forall>k. k \<noteq> ''input'' \<longrightarrow> json_get k (cr_body (build_request show model (ms @ later) tools o')) =
      json_get k (cr_body (build_request show model ms tools o'))) \<and>
   json_get ''input'' (cr_body (build_request show model (ms @ later) tools o')) =
     Some (JArr (input_items show ms @ input_items show later)) \<and>
   json_get ''input'' (cr_body (build_request show model ms tools o')) = Some (JArr (input_items show ms))"
  by (simp add: build_request_def json_get_obj opt_insert_get input_items_append del: map_insert.simps cong: option.case_cong)

lemma request_keeps_prefix_witness:
  "json_get ''model'' (cr_body (build_request (\<lambda>_. []) ''m'' ([User ''a''] @ [User ''b'']) [] \<lparr>ro_session_id = None,
     ro_cache_retention = KeepCache, ro_reasoning_effort = None, ro_tool_choice = None\<rparr>)) =
   json_get ''model'' (cr_body (build_request (\<lambda>_. []) ''m'' [User ''a''] [] \<lparr>ro_session_id = None,
     ro_cache_retention = KeepCache, ro_reasoning_effort = None, ro_tool_choice = None\<rparr>))"
proof -
  have "''model'' \<noteq> ''input''" by simp
  from request_keeps_prefix[THEN conjunct2, THEN conjunct1, rule_format, OF this] show ?thesis .
qed

text \<open>The identity for the cache travels in three places or in none, and is never longer than allowed.\<close>

lemma identity_together:
  "(case cache_key o' of
      None \<Rightarrow> ''session-id'' \<notin> fst ` set (cr_headers (build_request show model ms tools o')) \<and>
        ''x-client-request-id'' \<notin> fst ` set (cr_headers (build_request show model ms tools o')) \<and>
        json_get ''prompt_cache_key'' (cr_body (build_request show model ms tools o')) = None
    | Some k \<Rightarrow> (''session-id'', k) \<in> set (cr_headers (build_request show model ms tools o')) \<and>
        (''x-client-request-id'', k) \<in> set (cr_headers (build_request show model ms tools o')) \<and>
        json_get ''prompt_cache_key'' (cr_body (build_request show model ms tools o')) = Some (JStr k))"
  by (simp add: build_request_def json_get_obj opt_insert_get del: map_insert.simps cong: option.case_cong split: option.split)

text \<open>The arguments of a call go out as the writer renders their parse: texts that parse alike go out
  alike, whatever bytes the model wrote.\<close>

lemma arguments_are_rewritten:
  assumes "parse a = parse b" "parse b = Some v"
  shows "input_items show [Assistant [] [finish_call parse \<lparr>pc_item_id = i, pc_call_id = c, pc_name = n, pc_input = a\<rparr>]] =
    input_items show [Assistant [] [finish_call parse \<lparr>pc_item_id = i, pc_call_id = c, pc_name = n, pc_input = b\<rparr>]]"
  using assms by (simp add: finish_call_def)

section \<open>Only what is new\<close>

definition unique_keys :: "(string \<times> json) list \<Rightarrow> bool" where
  "unique_keys m \<longleftrightarrow> distinct (map fst m)"

lemma keys_but_input_iff:
  assumes "unique_keys a" "unique_keys b"
  shows "keys_but_input a = keys_but_input b \<longleftrightarrow> (\<forall>k. k \<noteq> ''input'' \<longrightarrow> (k \<in> fst ` set a \<longleftrightarrow> k \<in> fst ` set b))"
proof -
  have "keys_but_input m = sorted_list_of_set ({k \<in> fst ` set m. k \<noteq> ''input''})" if "unique_keys m" for m
  proof -
    have "distinct (keys_but_input m)" "sorted (keys_but_input m)" using that by (simp_all add: keys_but_input_def unique_keys_def)
    moreover have "set (keys_but_input m) = {k \<in> fst ` set m. k \<noteq> ''input''}" by (auto simp: keys_but_input_def)
    ultimately show ?thesis by (metis sorted_list_of_set.idem_if_sorted_distinct)
  qed
  note key_list = this[OF assms(1)] this[OF assms(2)]
  have "finite {k \<in> fst ` set m. k \<noteq> ''input''}" for m :: "(string \<times> json) list" by simp
  from sorted_list_of_set_inject[OF _ this this, of a b]
  have "keys_but_input a = keys_but_input b \<longleftrightarrow> {k \<in> fst ` set a. k \<noteq> ''input''} = {k \<in> fst ` set b. k \<noteq> ''input''}"
    unfolding key_list by (rule iffI[OF _ arg_cong])
  then show ?thesis by blast
qed

lemma envelopes_match_iff:
  assumes "unique_keys a" "unique_keys b"
  shows "envelopes_match (JObj a) (JObj b) \<longleftrightarrow> (\<forall>k. k \<noteq> ''input'' \<longrightarrow> map_of a k = map_of b k)"
proof
  assume m: "envelopes_match (JObj a) (JObj b)"
  show "\<forall>k. k \<noteq> ''input'' \<longrightarrow> map_of a k = map_of b k"
  proof (intro allI impI)
    fix k assume k: "k \<noteq> ''input''"
    show "map_of a k = map_of b k"
    proof (cases "map_of a k")
      case None
      then have "k \<notin> fst ` set b" using m k by (auto simp: envelopes_match_def keys_but_input_iff[OF assms] map_of_eq_None_iff)
      then show ?thesis using None by (simp add: map_of_eq_None_iff[symmetric])
    next
      case (Some v)
      then show ?thesis using m k map_of_SomeD[OF Some] by (auto simp: envelopes_match_def list_all_iff)
    qed
  qed
next
  assume same: "\<forall>k. k \<noteq> ''input'' \<longrightarrow> map_of a k = map_of b k"
  have "k \<in> fst ` set a \<longleftrightarrow> k \<in> fst ` set b" if "k \<noteq> ''input''" for k
    using same that by (metis map_of_eq_None_iff)
  moreover have "map_of b k = Some v" if "(k, v) \<in> set a" "k \<noteq> ''input''" for k v
    using same that assms(1) by (metis map_of_is_SomeI unique_keys_def)
  ultimately show "envelopes_match (JObj a) (JObj b)"
    by (auto simp: envelopes_match_def keys_but_input_iff[OF assms] list_all_iff)
qed

lemma zip_same: "length bs \<le> length as \<Longrightarrow> (\<not> list_ex (\<lambda>(a, b). a \<noteq> b) (zip as bs)) \<longleftrightarrow> take (length bs) as = bs"
  by (induction as bs rule: list_induct2') auto

text \<open>Over a connection that holds part of the conversation exactly the new items are sent: a remainder is
  found if and only if the request agrees with what was sent in every field but the input and its input
  is what was sent, what came back, and that remainder; otherwise the whole request is sent.\<close>

theorem delta_is_the_rest:
  assumes "unique_keys m" "unique_keys e"
  shows "input_delta (JObj m) \<lparr>co_envelope = JObj e, co_sent_input = sent, co_produced = produced, co_response_id = i\<rparr> = Some d \<longleftrightarrow>
    (\<forall>k. k \<noteq> ''input'' \<longrightarrow> map_of m k = map_of e k) \<and> map_of m ''input'' = Some (JArr (sent @ produced @ d))"
proof -
  have rest: "\<not> length c < length bl \<and> \<not> list_ex (\<lambda>(a, b). a \<noteq> b) (zip c bl) \<and> drop (length bl) c = d \<longleftrightarrow> c = bl @ d"
    for c bl :: "json list"
  proof
    assume "\<not> length c < length bl \<and> \<not> list_ex (\<lambda>(a, b). a \<noteq> b) (zip c bl) \<and> drop (length bl) c = d"
    then have "take (length bl) c = bl" "drop (length bl) c = d" using zip_same[of bl c] by auto
    then show "c = bl @ d" using append_take_drop_id[of "length bl" c] by simp
  qed (use zip_same[of bl "bl @ d"] in simp)
  have arr: "json_as_array v = Some c \<longleftrightarrow> v = JArr c" for v c by (cases v) auto
  show ?thesis
    unfolding input_delta_def envelopes_match_iff[OF assms, simplified] continuation.simps json_get_obj
    using rest[of _ "sent @ produced"]
    by (cases "map_of m ''input''") (auto simp: envelopes_match_iff[OF assms] Let_def arr split: option.split)
qed

lemma delta_is_the_rest_witness:
  "input_delta (JObj [(''input'', JArr [JNull, JBool True]), (''model'', JNull)])
     \<lparr>co_envelope = JObj [(''model'', JNull)], co_sent_input = [JNull], co_produced = [], co_response_id = ''r''\<rparr> = Some [JBool True]"
  using delta_is_the_rest[of "[(''input'', JArr [JNull, JBool True]), (''model'', JNull)]" "[(''model'', JNull)]" "[JNull]" "[]" "''r''" "[JBool True]"]
  by (simp add: unique_keys_def)

section \<open>One answer, shown once\<close>

definition shown_events :: "provider_event list \<Rightarrow> string" where
  "shown_events es = concat (map (\<lambda>e. case e of PText t \<Rightarrow> t | _ \<Rightarrow> []) es)"

lemma shown_events_of: "shown_events (events_of cs) = shown_text cs"
  by (induction cs) (auto simp: shown_events_def events_of_def shown_text_def split: cx_chunk.splits)

lemma shown_events_append [simp]: "shown_events (as @ bs) = shown_events as @ shown_events bs" "shown_events [] = []"
  by (simp_all add: shown_events_def)

lemma read_answer_text: "read_answer parse bs p = (evs, p', None, s) \<Longrightarrow> cx_text p' = cx_text p @ shown_events evs"
proof (induction parse bs p arbitrary: evs p' s rule: read_answer.induct)
  case (2 parse b bs p)
  obtain cs p1 where q: "cx_push parse b p = (Inr cs, p1)" using 2(2) by (auto split: sum.splits prod.splits)
  have t: "cx_text p1 = cx_text p @ shown_text cs" using cx_drain_text[of parse _ p cs p1] q by (auto simp: cx_push_def)
  show ?case
  proof (cases "cx_finished p1")
    case False
    obtain evs1 p2 e s2 where r: "read_answer parse bs p1 = (evs1, p2, e, s2)" by (cases "read_answer parse bs p1") auto
    with 2(2) q False have "e = None" "evs = events_of cs @ evs1" "p' = p2" by auto
    with "2.IH"[OF q[symmetric] refl False, of evs1 p2 s2] r t show ?thesis by (simp add: shown_events_of)
  qed (use 2(2) q t in \<open>auto simp: shown_events_of\<close>)
qed simp

lemma cx_finish_text:
  assumes "cx_finish parse p = Inr (outcome, stop)"
  shows "prefix (cx_text p) (to_text outcome)"
proof (cases "trim (cx_pending p) = []")
  case True
  then show ?thesis using assms by (auto simp: cx_finish_def cx_outcome_def split: option.splits)
next
  case False
  then obtain c p1 where l: "cx_line parse (trim_crlf (cx_pending p)) (p\<lparr>cx_pending := []\<rparr>) = (Inr c, p1)"
    and o: "outcome = cx_outcome parse p1"
    using assms by (auto simp: cx_finish_def split: option.splits prod.splits sum.splits)
  from cx_line_text[OF l] o show ?thesis by (simp add: cx_outcome_def)
qed

lemma retry_not_started:
  "after_socket_failure session started e pl = (Inr x, pl') \<Longrightarrow> \<not> started \<and> x = None"
  by (auto simp: after_socket_failure_def disposition_of_def split: if_splits)

text \<open>What an attempt over a socket can come to.\<close>

definition socket_reading :: "codex_env \<Rightarrow> provider_event list \<times> cx_parser \<times> string option \<times> bool" where
  "socket_reading env = read_answer (ce_parse env) (na_pieces (ce_exchange env)) cx_new"

lemma try_socket_ends:
  assumes "try_socket env o' body headers token pl = (evs, sent, r, pl')"
  shows "evs = [] \<or> evs = fst (socket_reading env)" "r = Inr None \<Longrightarrow> evs = []"
    "\<And>u h b. HttpPost u h b \<notin> set sent"
    "r = Inr (Some outcome) \<Longrightarrow>
      \<exists>p s stop. socket_reading env = (evs, p, None, s) \<and> cx_finish (ce_parse env) p = Inr (outcome, stop)"
proof -
  obtain revs p pe s where rd: "socket_reading env = (revs, p, pe, s)" by (cases "socket_reading env") auto
  note rd' = rd[unfolded socket_reading_def]
  have all: "(evs = [] \<or> evs = revs) \<and> (r = Inr None \<longrightarrow> evs = []) \<and> (\<forall>u h b. HttpPost u h b \<notin> set sent) \<and>
      (\<forall>x. r = Inr (Some x) \<longrightarrow> evs = revs \<and> pe = None \<and> (\<exists>stop. cx_finish (ce_parse env) p = Inr (x, stop)))"
    using assms unfolding try_socket_def
    by (auto simp: Let_def rd' split: if_splits option.splits prod.splits sum.splits dest: retry_not_started)
  show "evs = [] \<or> evs = fst (socket_reading env)" "r = Inr None \<Longrightarrow> evs = []" "\<And>u h b. HttpPost u h b \<notin> set sent"
    "r = Inr (Some outcome) \<Longrightarrow>
      \<exists>p s stop. socket_reading env = (evs, p, None, s) \<and> cx_finish (ce_parse env) p = Inr (outcome, stop)"
    using all rd by auto
qed

lemma post_turn_ends:
  assumes "post_turn env body headers = (evs, sent, r)"
  shows "evs = fst (read_answer (ce_parse env) (na_pieces (ce_post env)) cx_new)"
    "sent = [HttpPost RESPONSES_URL headers (ce_show env body)]"
    "r = Inr outcome \<Longrightarrow> \<exists>p s stop. read_answer (ce_parse env) (na_pieces (ce_post env)) cx_new = (evs, p, None, s) \<and>
       cx_finish (ce_parse env) p = Inr (outcome, stop) \<and> 200 \<le> na_status (ce_post env) \<and> na_status (ce_post env) < 300"
proof -
  obtain revs p pe s where rd: "read_answer (ce_parse env) (na_pieces (ce_post env)) cx_new = (revs, p, pe, s)"
    by (cases "read_answer (ce_parse env) (na_pieces (ce_post env)) cx_new") auto
  show "evs = fst (read_answer (ce_parse env) (na_pieces (ce_post env)) cx_new)"
    "sent = [HttpPost RESPONSES_URL headers (ce_show env body)]"
    "r = Inr outcome \<Longrightarrow> \<exists>p s stop. read_answer (ce_parse env) (na_pieces (ce_post env)) cx_new = (evs, p, None, s) \<and>
       cx_finish (ce_parse env) p = Inr (outcome, stop) \<and> 200 \<le> na_status (ce_post env) \<and> na_status (ce_post env) < 300"
    using assms by (auto simp: post_turn_def rd split: option.splits if_splits sum.splits)
qed

text \<open>How a turn goes: it ends with the socket, or the socket showed nothing and HTTP does it all.\<close>

lemma codex_stream_ways:
  assumes "codex_stream env model o' ms tools pl = (evs, sent, r, pl')"
  obtains (refused) e where "evs = []" "sent = []" "r = Inl e"
  | (socket) body headers token ro where "try_socket env o' body headers token pl = (evs, sent, ro, pl')"
      "ro = map_sum id Some r"
  | (http) body headers token sent1 sent2 where "try_socket env o' body headers token pl = ([], sent1, Inr None, pl')"
      "post_turn env body headers = (evs, sent2, r)" "sent = sent1 @ sent2"
proof (cases "ce_token env")
  case (Inl e)
  with assms show thesis by (intro refused) (auto simp: codex_stream_def)
next
  case (Inr token)
  define body where "body = cr_body (build_request (ce_show env) model ms tools o')"
  define headers where "headers = cr_headers (build_request (ce_show env) model ms tools o') @ [(''authorization'', ''Bearer '' @ token)]"
  obtain evs1 sent1 ro pl1 where t: "try_socket env o' body headers token pl = (evs1, sent1, ro, pl1)"
    by (cases "try_socket env o' body headers token pl") auto
  note run = assms[unfolded codex_stream_def Inr sum.case Let_def, folded body_def headers_def, unfolded t prod.case]
  show thesis
  proof (cases "ro = Inr None")
    case True
    obtain evs2 sent2 r2 where p: "post_turn env body headers = (evs2, sent2, r2)" by (cases "post_turn env body headers") auto
    from try_socket_ends(2)[OF t True] have "evs1 = []" .
    with run True p t http show thesis by auto
  next
    case False
    with run t socket show thesis by (auto split: sum.splits option.splits)
  qed
qed

text \<open>C33: An answer is never shown twice. Everything a turn shows comes from one reading of one transport:
  when the turn went to HTTP it is the reading of that answer alone and the socket had shown nothing, and
  when it did not, it is the reading of the socket or nothing at all.\<close>

theorem answer_shown_once:
  assumes "codex_stream env model o' ms tools pl = (evs, sent, r, pl')"
  shows "if \<exists>u h b. HttpPost u h b \<in> set sent
    then evs = fst (read_answer (ce_parse env) (na_pieces (ce_post env)) cx_new)
    else evs = [] \<or> evs = fst (read_answer (ce_parse env) (na_pieces (ce_exchange env)) cx_new)"
  using assms
proof (cases rule: codex_stream_ways)
  case (socket body headers token ro)
  with try_socket_ends(1,3)[OF socket(1)] show ?thesis by (auto simp: socket_reading_def)
next
  case (http body headers token sent1 sent2)
  with post_turn_ends(1,2)[OF http(2)] show ?thesis by auto
qed simp

text \<open>C34: The turn a caller gets is the turn its user saw. When the provider reports an outcome, its text
  begins with the text of all the events shown, in order, and it says how it ended; an outcome over HTTP
  comes only with a status of success.\<close>

theorem outcome_is_what_was_shown:
  assumes "codex_stream env model o' ms tools pl = (evs, sent, Inr outcome, pl')"
  shows "prefix (shown_events evs) (to_text outcome) \<and>
    (\<exists>parts p s stop. read_answer (ce_parse env) parts cx_new = (evs, p, None, s) \<and> cx_finish (ce_parse env) p = Inr (outcome, stop) \<and>
      (parts = na_pieces (ce_exchange env) \<or>
       parts = na_pieces (ce_post env) \<and> 200 \<le> na_status (ce_post env) \<and> na_status (ce_post env) < 300))"
proof -
  have whole: "prefix (shown_events evs) (to_text outcome)"
    if "read_answer (ce_parse env) parts cx_new = (evs, p, None, s)" "cx_finish (ce_parse env) p = Inr (outcome, stop)" for parts p s stop
    using read_answer_text[OF that(1)] cx_finish_text[OF that(2)] by (simp add: cx_new_def)
  from assms show ?thesis
  proof (cases rule: codex_stream_ways)
    case (socket body headers token ro)
    then have "ro = Inr (Some outcome)" by simp
    from try_socket_ends(4)[OF socket(1) this] whole show ?thesis unfolding socket_reading_def by blast
  next
    case (http body headers token sent1 sent2)
    from post_turn_ends(3)[OF http(2) refl] whole show ?thesis by blast
  qed simp
qed

definition example_env :: codex_env where
  "example_env = \<lparr>ce_parse = (\<lambda>s. if s = ''d'' then Some (JObj [(''type'', JStr ''response.output_text.delta''), (''delta'', JStr ''hi'')])
       else Some (JObj [(''type'', JStr ''response.completed'')])),
     ce_show = (\<lambda>_. ''{}''), ce_account = (\<lambda>_. None), ce_token = Inr ''t'', ce_has_sockets = True, ce_open = Some ''cannot connect'',
     ce_exchange = \<lparr>na_pieces = [], na_failure = None, na_status = 0\<rparr>,
     ce_post = \<lparr>na_pieces = [''data: d'' @ [nl], ''data: c'' @ [nl]], na_failure = None, na_status = 200\<rparr>\<rparr>"

definition example_options :: request_options where
  "example_options = \<lparr>ro_session_id = Some ''s'', ro_cache_retention = KeepCache, ro_reasoning_effort = None, ro_tool_choice = None\<rparr>"

lemma example_reads:
  "read_answer (ce_parse example_env) (na_pieces (ce_post example_env)) cx_new =
     ([PText ''hi''], \<lparr>cx_pending = [], cx_text = ''hi'', cx_calls = [], cx_stop_seen = Some CxComplete, cx_finished = True\<rparr>, None, True)"
  by (simp add: example_env_def cx_push_def cx_drain.simps cx_line_def trim_crlf_def trim_def trim_start_def trim_end_def is_white_def
      cx_new_def is_cont_def cx_event_def json_text_def json_get_def events_of_def)

lemma example_socket_fails:
  "\<exists>s. try_socket example_env example_options body headers token pool_new = ([], [s], Inr None, remember_fallback ''s'' pool_new) \<and> (\<forall>u h b. s \<noteq> HttpPost u h b)"
  by (simp add: try_socket_def example_env_def example_options_def pool_new_def may_try_def pool_take_def Let_def after_socket_failure_def
      disposition_of_def contains_def str_find.simps CONNECTION_LIMIT_CODE_def fun_upd_idem_iff)

lemma example_stream:
  "\<exists>sent. codex_stream example_env ''m'' example_options [User ''q''] [] pool_new =
     ([PText ''hi''], sent, Inr \<lparr>to_text = ''hi'', to_tool_calls = []\<rparr>, remember_fallback ''s'' pool_new) \<and>
     (\<exists>u h b. HttpPost u h b \<in> set sent)"
proof -
  have "na_failure (ce_post example_env) = None" "na_status (ce_post example_env) = 200" "ce_token example_env = Inr ''t''"
    by (simp_all add: example_env_def)
  then show ?thesis
    using example_socket_fails[of "cr_body (build_request (ce_show example_env) ''m'' [User ''q''] [] example_options)"
        "cr_headers (build_request (ce_show example_env) ''m'' [User ''q''] [] example_options) @ [(''authorization'', ''Bearer '' @ ''t'')]" "''t''"]
    by (auto simp: codex_stream_def Let_def post_turn_def example_reads failure_of_def cx_finish_def cx_outcome_def
        trim_def trim_start_def trim_end_def) blast
qed

lemma answer_shown_once_witness:
  "fst (codex_stream example_env ''m'' example_options [User ''q''] [] pool_new) =
   fst (read_answer (ce_parse example_env) (na_pieces (ce_post example_env)) cx_new)"
proof -
  obtain sent where "codex_stream example_env ''m'' example_options [User ''q''] [] pool_new =
     ([PText ''hi''], sent, Inr \<lparr>to_text = ''hi'', to_tool_calls = []\<rparr>, remember_fallback ''s'' pool_new)"
     "\<exists>u h b. HttpPost u h b \<in> set sent" using example_stream by blast
  with answer_shown_once[OF this(1)] show ?thesis by simp
qed

lemma outcome_is_what_was_shown_witness: "prefix (shown_events [PText ''hi'']) ''hi''"
proof -
  obtain sent where "codex_stream example_env ''m'' example_options [User ''q''] [] pool_new =
     ([PText ''hi''], sent, Inr \<lparr>to_text = ''hi'', to_tool_calls = []\<rparr>, remember_fallback ''s'' pool_new)" using example_stream by blast
  from outcome_is_what_was_shown[OF this] show ?thesis by simp
qed

section \<open>What the pool is never used for\<close>

definition no_continuations :: "pool \<Rightarrow> bool" where
  "no_continuations pl \<longleftrightarrow> (\<forall>k e. pl_entries pl k = Some e \<longrightarrow> po_continuation e = None)"

text \<open>The pool keeps no continuation, so that every request over a socket is the whole one.\<close>

lemma whole_request_always:
  assumes "no_continuations pl" "try_socket env o' body headers token pl = (evs, sent, r, pl')"
  shows "no_continuations pl'" "SocketSend x \<in> set sent \<Longrightarrow> x = ce_show env body"
  using assms
  by (auto simp: try_socket_def no_continuations_def Let_def pool_take_def pool_put_def after_socket_failure_def remember_fallback_def
      split: if_splits option.splits prod.splits sum.splits disposition.splits)

text \<open>A connection that reached its limit is not opened again within the turn: the turn goes to HTTP.\<close>

lemma limit_goes_to_http:
  assumes "ce_has_sockets env" "ro_session_id o' = Some s" "may_try pl s" "ce_open env = Some CONNECTION_LIMIT_CODE"
  shows "fst (snd (try_socket env o' body headers token pl)) = [SocketOpen (websocket_url RESPONSES_URL) headers] \<and>
    fst (snd (snd (try_socket env o' body headers token pl))) = Inr None"
proof -
  have "str_find CONNECTION_LIMIT_CODE CONNECTION_LIMIT_CODE \<noteq> None" by (simp add: CONNECTION_LIMIT_CODE_def str_find.simps)
  then show ?thesis using assms
    by (simp add: try_socket_def Let_def after_socket_failure_def disposition_of_def contains_def split: prod.split)
qed

text \<open>A failure over a socket that says none of the words the rules look for ends the turn, though
  nothing was shown and HTTP was never tried.\<close>

lemma plain_refusal_ends_turn:
  assumes "ce_has_sockets env" "ro_session_id o' = Some s" "may_try pl s" "ce_open env = Some ''HTTP error: 403 Forbidden''"
  shows "fst (snd (snd (try_socket env o' body headers token pl))) =
    Inl (''the connection failed mid-answer: '' @ ''HTTP error: 403 Forbidden'')"
  using assms
  by (simp add: try_socket_def Let_def after_socket_failure_def disposition_of_def contains_def CONNECTION_LIMIT_CODE_def str_find.simps
      split: prod.split)

end
