(* ===== verification/Agent_Bridge.thy ===== *)
theory Agent_Bridge
  imports Agent_Log "HOL-Library.Word"
begin

unbundle bit_operations_syntax

text \<open>
  A session of an agent tab and what surrounds it (\<open>src-tauri/src/agent_bridge.rs\<close>): the names of its
  files, the sink that writes an event to the log and then to the screen, the loop over prompts, and the
  gate where a call waits for a person.
\<close>

section \<open>File names\<close>

text \<open>\<open>is_ascii_alphanumeric\<close>, dash or underscore, of a character.\<close>

definition safe_char :: "string \<Rightarrow> bool" where
  "safe_char c = (case c of [x] \<Rightarrow>
     (let n = (of_char x :: nat) in
        48 \<le> n \<and> n \<le> 57 \<or> 65 \<le> n \<and> n \<le> 90 \<or> 97 \<le> n \<and> n \<le> 122 \<or> x = CHR ''-'' \<or> x = CHR ''_'')
   | _ \<Rightarrow> False)"

definition safe_name :: "string list \<Rightarrow> string" where
  "safe_name cs = concat (map (\<lambda>c. if safe_char c then c else ''_'') cs)"

text \<open>Paths are lists of their names.\<close>

definition log_path_for :: "string list \<Rightarrow> string \<Rightarrow> string list" where
  "log_path_for dir session_id = dir @ [''agent-sessions'', safe_name (rchars session_id) @ ''.jsonl'']"

definition fnv1a :: "string \<Rightarrow> 32 word" where
  "fnv1a text = foldl (\<lambda>hash b. (hash XOR of_char b) * 0x01000193) 0x811c9dc5 text"

fun hex_digits :: "nat \<Rightarrow> nat \<Rightarrow> string" where
  "hex_digits 0 n = []"
| "hex_digits (Suc k) n = hex_digits k (n div 16) @ [(''0123456789abcdef'') ! (n mod 16)]"

definition memory_path_for :: "string list \<Rightarrow> string \<Rightarrow> string list" where
  "memory_path_for dir cwd =
     (let segments = rev (take 2 (filter (\<lambda>s. s \<noteq> []) (rev (split_on CHR ''/'' cwd))));
          tail = safe_name (take 60 (rchars (join ''-'' segments))) in
      dir @ [''agent-memory'', tail @ ''-'' @ hex_digits 8 (unat (fnv1a cwd)) @ ''.jsonl''])"

section \<open>The sink\<close>

record tee_sink =
  te_log :: "string option"
  te_failed :: "string option"

text \<open>What the screen is told when the log stops.\<close>

definition stopped_notice :: "string \<Rightarrow> session_event" where
  "stopped_notice message = TurnEnded 0 (StopError message)"

definition tee_fail :: "string \<Rightarrow> tee_sink \<Rightarrow> session_event list \<times> tee_sink" where
  "tee_fail error t =
     (if te_failed t \<noteq> None then ([], t)
      else let message = ''Agent transcript stopped: '' @ error in
        ([stopped_notice message], t\<lparr>te_failed := Some message\<rparr>))"

text \<open>\<open>show\<close> renders the error of a log. The result: what reached the screen.\<close>

definition tee_emit ::
  "(log_error \<Rightarrow> string) \<Rightarrow> encoder \<Rightarrow> 'w disk \<Rightarrow> session_event \<Rightarrow> tee_sink \<Rightarrow> 'w \<Rightarrow> session_event list \<times> tee_sink \<times> 'w" where
  "tee_emit show enc disk ev t w = (case te_log t of
     None \<Rightarrow> ([ev], t, w)
   | Some fl \<Rightarrow> (case append_event enc disk w fl ev of
        (Inl e, fl1, w1) \<Rightarrow> (case tee_fail (show e) (t\<lparr>te_log := Some fl1\<rparr>) of (shown, t1) \<Rightarrow> (shown, t1, w1))
      | (Inr _, fl1, w1) \<Rightarrow> ([ev], t\<lparr>te_log := Some fl1\<rparr>, w1)))"

fun tee_emits ::
  "(log_error \<Rightarrow> string) \<Rightarrow> encoder \<Rightarrow> 'w disk \<Rightarrow> session_event list \<Rightarrow> tee_sink \<Rightarrow> 'w \<Rightarrow> session_event list \<times> tee_sink \<times> 'w" where
  "tee_emits show enc disk [] t w = ([], t, w)"
| "tee_emits show enc disk (ev # evs) t w =
     (case tee_emit show enc disk ev t w of (shown, t1, w1) \<Rightarrow>
      case tee_emits show enc disk evs t1 w1 of (later, t2, w2) \<Rightarrow> (shown @ later, t2, w2))"

section \<open>The loop over prompts\<close>

text \<open>The texts are all that will ever be received: \<open>recv\<close> hands out what is queued even after the
  sender is gone. \<open>reset\<close> clears the stop flag.\<close>

fun pump_prompts ::
  "(log_error \<Rightarrow> string) \<Rightarrow> encoder \<Rightarrow> 'w disk \<Rightarrow> ('w \<Rightarrow> 'w) \<Rightarrow> 'w senv \<Rightarrow> string list \<Rightarrow> session \<Rightarrow> nat \<Rightarrow> tee_sink \<Rightarrow> 'w \<Rightarrow>
   session_event list \<times> session \<times> nat \<times> tee_sink \<times> 'w" where
  "pump_prompts show enc disk reset env [] s written t w = ([], s, written, t, w)"
| "pump_prompts show enc disk reset env (text # texts) s written t w =
     (case prompt env s text (reset w) of (evs, _, s1, w1) \<Rightarrow>
      case tee_emits show enc disk evs t w1 of (shown, t1, w2) \<Rightarrow>
      if te_failed t1 \<noteq> None then (shown, s1, written, t1, w2)
      else case te_log t1 of
        None \<Rightarrow> (case pump_prompts show enc disk reset env texts s1 written t1 w2 of (later, s2, n, t2, w3) \<Rightarrow> (shown @ later, s2, n, t2, w3))
      | Some fl \<Rightarrow> (case append_new_messages_tracked enc disk w2 (s_messages s1) fl written of
          (Inl e, n, fl1, w3) \<Rightarrow> (case tee_fail (show e) (t1\<lparr>te_log := Some fl1\<rparr>) of
              (notice, t2) \<Rightarrow> (shown @ notice, s1, n, t2, w3))
        | (Inr _, n, fl1, w3) \<Rightarrow>
            (case pump_prompts show enc disk reset env texts s1 n (t1\<lparr>te_log := Some fl1\<rparr>) w3 of
              (later, s2, n2, t2, w4) \<Rightarrow> (shown @ later, s2, n2, t2, w4))))"

section \<open>The approval gate\<close>

text \<open>A request parks a sender under its call id and waits on the receiver. A parked request is a ticket;
  what was sent to it lies in its mail until it looks. The wait ends with the mail or, when none has come
  by the deadline, or every sender is gone, with an expiry, after which the entry under the call id is
  removed, whoever's it is, and the answer is no.\<close>

record ui_gate =
  ga_waiting :: "string \<rightharpoonup> nat"
  ga_call :: "nat \<rightharpoonup> string"
  ga_mail :: "nat \<rightharpoonup> decision"
  ga_expired :: "nat set"
  ga_done :: "nat \<rightharpoonup> decision"

definition gate_new :: ui_gate where
  "gate_new = \<lparr>ga_waiting = Map.empty, ga_call = Map.empty, ga_mail = Map.empty, ga_expired = {}, ga_done = Map.empty\<rparr>"

definition gate_park :: "string \<Rightarrow> nat \<Rightarrow> ui_gate \<Rightarrow> ui_gate" where
  "gate_park call t g = g\<lparr>ga_waiting := (ga_waiting g)(call \<mapsto> t), ga_call := (ga_call g)(t \<mapsto> call)\<rparr>"

text \<open>\<open>send\<close> succeeds as long as the receiver is there, which it is until the request returns.\<close>

definition gate_answer :: "string \<Rightarrow> decision \<Rightarrow> ui_gate \<Rightarrow> bool \<times> ui_gate" where
  "gate_answer call d g = (case ga_waiting g call of
     None \<Rightarrow> (False, g)
   | Some t \<Rightarrow>
       (if ga_done g t = None
        then (True, g\<lparr>ga_waiting := (ga_waiting g)(call := None), ga_mail := (ga_mail g)(t \<mapsto> d)\<rparr>)
        else (False, g\<lparr>ga_waiting := (ga_waiting g)(call := None)\<rparr>)))"

definition gate_release_all :: "ui_gate \<Rightarrow> ui_gate" where
  "gate_release_all g = g\<lparr>ga_waiting := Map.empty,
     ga_mail := (\<lambda>t. if t \<in> ran (ga_waiting g) \<and> ga_done g t = None then Some (Deny ''the session was closed'') else ga_mail g t)\<rparr>"

definition gate_receive :: "nat \<Rightarrow> ui_gate \<Rightarrow> ui_gate" where
  "gate_receive t g = g\<lparr>ga_done := (ga_done g)(t := ga_mail g t)\<rparr>"

definition gate_expire :: "nat \<Rightarrow> ui_gate \<Rightarrow> ui_gate" where
  "gate_expire t g = g\<lparr>ga_expired := insert t (ga_expired g)\<rparr>"

definition gate_give_up :: "string \<Rightarrow> nat \<Rightarrow> ui_gate \<Rightarrow> ui_gate" where
  "gate_give_up call t g = g\<lparr>ga_waiting := (ga_waiting g)(call := None),
     ga_done := (ga_done g)(t \<mapsto> Deny ''no answer within the approval timeout'')\<rparr>"

datatype gate_event =
    Park string nat
  | Answer string decision
  | ReleaseAll
  | Receive nat
  | Expire nat
  | GiveUp nat

inductive gate_steps :: "ui_gate \<Rightarrow> gate_event \<Rightarrow> ui_gate \<Rightarrow> bool" where
  park: "ga_call g t = None \<Longrightarrow> gate_steps g (Park call t) (gate_park call t g)"
| answer: "d \<noteq> Ask \<Longrightarrow> gate_steps g (Answer call d) (snd (gate_answer call d g))"
| release: "gate_steps g ReleaseAll (gate_release_all g)"
| receive: "ga_call g t = Some call \<Longrightarrow> ga_done g t = None \<Longrightarrow> t \<notin> ga_expired g \<Longrightarrow> ga_mail g t \<noteq> None \<Longrightarrow>
    gate_steps g (Receive t) (gate_receive t g)"
| expire: "ga_call g t = Some call \<Longrightarrow> ga_done g t = None \<Longrightarrow> t \<notin> ga_expired g \<Longrightarrow> ga_mail g t = None \<Longrightarrow>
    gate_steps g (Expire t) (gate_expire t g)"
| give_up: "ga_call g t = Some call \<Longrightarrow> ga_done g t = None \<Longrightarrow> t \<in> ga_expired g \<Longrightarrow>
    gate_steps g (GiveUp t) (gate_give_up call t g)"

inductive_cases gate_parkE: "gate_steps g (Park call t) g'"
inductive_cases gate_answerE: "gate_steps g (Answer call d) g'"
inductive_cases gate_releaseE: "gate_steps g ReleaseAll g'"
inductive_cases gate_receiveE: "gate_steps g (Receive t) g'"
inductive_cases gate_expireE: "gate_steps g (Expire t) g'"
inductive_cases gate_give_upE: "gate_steps g (GiveUp t) g'"

inductive gate_run :: "gate_event list \<Rightarrow> ui_gate \<Rightarrow> bool" where
  start: "gate_run [] gate_new"
| further: "gate_run evs g \<Longrightarrow> gate_steps g ev g' \<Longrightarrow> gate_run (evs @ [ev]) g'"

section \<open>Names stay where they belong\<close>

lemma safe_name_chars: "\<forall>x \<in> set (safe_name cs). safe_char [x]"
proof
  fix x assume "x \<in> set (safe_name cs)"
  then obtain c where c: "x \<in> set (if safe_char c then c else ''_'')"
    unfolding safe_name_def by (simp only: set_concat set_map) blast
  show "safe_char [x]"
  proof (cases "safe_char c")
    case True
    then obtain y where "c = [y]" by (auto simp: safe_char_def split: list.splits)
    with True c show ?thesis by simp
  qed (use c in \<open>simp add: safe_char_def\<close>)
qed

lemma hex_digits_chars: "\<forall>x \<in> set (hex_digits k n). safe_char [x]"
proof (induction k arbitrary: n)
  case (Suc k)
  have "(''0123456789abcdef'') ! i \<in> set ''0123456789abcdef''" if "i < 16" for i
    by (rule nth_mem) (use that in \<open>simp add: eval_nat_numeral\<close>)
  then have "(''0123456789abcdef'') ! (n mod 16) \<in> set ''0123456789abcdef''" by simp
  moreover have "\<forall>x \<in> set ''0123456789abcdef''. safe_char [x]" by (simp add: safe_char_def)
  ultimately have "safe_char [(''0123456789abcdef'') ! (n mod 16)]" by blast
  with Suc show ?case by simp
qed simp

text \<open>Whatever id or folder the webview names, the transcript and the memory of a session are one file in
  their own folder: the file's name is letters, digits, dashes and underscores and the suffix, so that it
  can neither name another folder nor go up.\<close>

theorem session_files_confined:
  "\<exists>name mem. log_path_for dir sid = dir @ [''agent-sessions'', name @ ''.jsonl''] \<and>
     memory_path_for dir cwd = dir @ [''agent-memory'', mem @ ''.jsonl''] \<and>
     (\<forall>x \<in> set (name @ mem). safe_char [x] \<and> x \<noteq> CHR ''/'' \<and> x \<noteq> CHR ''.'' \<and> x \<noteq> CHR 0x5C)"
proof -
  define mem where "mem = safe_name (take 60 (rchars (join ''-'' (rev (take 2 (filter (\<lambda>s. s \<noteq> []) (rev (split_on CHR ''/'' cwd)))))))) @ ''-'' @
    hex_digits 8 (unat (fnv1a cwd))"
  have "\<forall>x \<in> set (safe_name (rchars sid) @ mem). safe_char [x]"
    using safe_name_chars hex_digits_chars by (auto simp: mem_def) (simp add: safe_char_def)
  moreover have "safe_char [x] \<Longrightarrow> x \<noteq> CHR ''/'' \<and> x \<noteq> CHR ''.'' \<and> x \<noteq> CHR 0x5C" for x
    by (auto simp: safe_char_def)
  ultimately show ?thesis
    by (intro exI [of _ "safe_name (rchars sid)"] exI [of _ mem]) (auto simp: log_path_for_def memory_path_for_def mem_def Let_def)
qed

text \<open>Two ids may name one file: everything that is not safe becomes an underscore.\<close>

lemma ids_share_a_log: "log_path_for dir ''a/b'' = log_path_for dir ''a_b''"
  by (simp add: log_path_for_def safe_name_def safe_char_def is_cont_def)

section \<open>The screen and the log\<close>

lemma tee_emit_Some:
  assumes "te_log t = Some fl" "tee_emit show enc disk ev t w = (shown, t1, w1)"
  obtains fl1 where "te_log t1 = Some fl1"
    "(append_event enc disk w fl ev = (Inr (), fl1, w1) \<and> shown = [ev] \<and> te_failed t1 = te_failed t) \<or>
     (\<exists>e. append_event enc disk w fl ev = (Inl e, fl1, w1) \<and> te_failed t1 \<noteq> None \<and>
       shown = (if te_failed t = None then [stopped_notice (''Agent transcript stopped: '' @ show e)] else []))"
  using assms by (auto simp: tee_emit_def tee_fail_def Let_def split: prod.splits sum.splits if_splits)

text \<open>Which events of a run of the sink reached the disk in full, and which the screen.\<close>

fun logged :: "encoder \<Rightarrow> 'w disk \<Rightarrow> session_event list \<Rightarrow> string \<Rightarrow> 'w \<Rightarrow> session_event list" where
  "logged enc disk [] fl w = []"
| "logged enc disk (ev # evs) fl w = (case append_event enc disk w fl ev of
     (Inl _, fl1, w1) \<Rightarrow> logged enc disk evs fl1 w1
   | (Inr _, fl1, w1) \<Rightarrow> ev # logged enc disk evs fl1 w1)"

lemma tee_emits_logged:
  assumes "te_log t = Some fl" "te_failed t = None" "tee_emits show enc disk evs t w = (shown, t1, w1)"
  shows "(te_failed t1 = None \<and> shown = logged enc disk evs fl w \<and> logged enc disk evs fl w = evs) \<or>
    (\<exists>a e b. te_failed t1 \<noteq> None \<and> shown = a @ stopped_notice e # b \<and> logged enc disk evs fl w = a @ b \<and>
      (\<exists>rest. evs = a @ rest \<and> rest \<noteq> []))"
proof -
  have late: "te_failed t \<noteq> None \<Longrightarrow> te_log t = Some fl \<Longrightarrow> tee_emits show enc disk evs t w = (shown, t1, w1) \<Longrightarrow>
      shown = logged enc disk evs fl w \<and> te_failed t1 \<noteq> None" for t fl evs w shown
  proof (induction evs arbitrary: t fl w shown)
    case (Cons ev evs)
    obtain sh t2 w2 where h: "tee_emit show enc disk ev t w = (sh, t2, w2)" by (cases "tee_emit show enc disk ev t w") auto
    obtain sh' where r: "tee_emits show enc disk evs t2 w2 = (sh', t1, w1)" "shown = sh @ sh'"
      using Cons.prems(3) h by (auto split: prod.splits)
    from tee_emit_Some [OF Cons.prems(2) h] obtain fl1 where f: "te_log t2 = Some fl1"
      "(append_event enc disk w fl ev = (Inr (), fl1, w2) \<and> sh = [ev] \<and> te_failed t2 = te_failed t) \<or>
       (\<exists>e. append_event enc disk w fl ev = (Inl e, fl1, w2) \<and> te_failed t2 \<noteq> None \<and> sh = [])"
      using Cons.prems(1) by metis
    then have "te_failed t2 \<noteq> None" using Cons.prems(1) by auto
    from Cons.IH [OF this f(1) r(1)] f(2) r(2) show ?case by auto
  qed auto
  show ?thesis using assms
  proof (induction evs arbitrary: t fl w shown)
    case (Cons ev evs)
    obtain sh t2 w2 where h: "tee_emit show enc disk ev t w = (sh, t2, w2)" by (cases "tee_emit show enc disk ev t w") auto
    obtain sh' where r: "tee_emits show enc disk evs t2 w2 = (sh', t1, w1)" "shown = sh @ sh'"
      using Cons.prems(3) h by (auto split: prod.splits)
    from tee_emit_Some [OF Cons.prems(1) h] obtain fl1 where f: "te_log t2 = Some fl1"
      "(append_event enc disk w fl ev = (Inr (), fl1, w2) \<and> sh = [ev] \<and> te_failed t2 = None) \<or>
       (\<exists>e. append_event enc disk w fl ev = (Inl e, fl1, w2) \<and> te_failed t2 \<noteq> None \<and>
         sh = [stopped_notice (''Agent transcript stopped: '' @ show e)])"
      using Cons.prems(2) by metis
    from f(2) show ?case
    proof
      assume ok: "append_event enc disk w fl ev = (Inr (), fl1, w2) \<and> sh = [ev] \<and> te_failed t2 = None"
      from Cons.IH [OF f(1) conjunct2 [OF conjunct2 [OF ok]] r(1)] show ?thesis
      proof (elim disjE exE conjE)
        fix a e b rest
        assume "te_failed t1 \<noteq> None" "sh' = a @ stopped_notice e # b" "logged enc disk evs fl1 w2 = a @ b" "evs = a @ rest" "rest \<noteq> []"
        with ok r(2) show ?thesis
          by - (rule disjI2, rule exI [of _ "ev # a"], rule exI [of _ e], rule exI [of _ b], simp)
      qed (use ok r(2) in simp_all)
    next
      assume "\<exists>e. append_event enc disk w fl ev = (Inl e, fl1, w2) \<and> te_failed t2 \<noteq> None \<and>
         sh = [stopped_notice (''Agent transcript stopped: '' @ show e)]"
      then obtain e where bad: "append_event enc disk w fl ev = (Inl e, fl1, w2)" "te_failed t2 \<noteq> None"
        "sh = [stopped_notice (''Agent transcript stopped: '' @ show e)]" by blast
      from late [OF bad(2) f(1) r(1)] bad r(2) show ?thesis
        by - (rule disjI2, rule exI [of _ "[]"], rule exI [of _ "''Agent transcript stopped: '' @ show e"], rule exI [of _ sh'], simp)
    qed
  qed auto
qed

text \<open>C36: The screen shows what the log holds. Of the events a session hands to its sink the ones that reach
  the screen are exactly the ones written to the log in full, in order; as long as no write fails these are
  all of them, and when one fails the screen is told once, at the place of the first event it lost.\<close>

theorem screen_is_log:
  assumes "te_log t = Some fl" "te_failed t = None"
  shows "\<exists>a b notice. fst (tee_emits show enc disk evs t w) = a @ notice @ b \<and> logged enc disk evs fl w = a @ b \<and>
    (notice = [] \<and> b = [] \<and> a = evs \<or>
     (\<exists>e rest. notice = [stopped_notice e] \<and> evs = a @ rest \<and> rest \<noteq> []))"
proof -
  obtain shown t1 w1 where run: "tee_emits show enc disk evs t w = (shown, t1, w1)" by (cases "tee_emits show enc disk evs t w") auto
  from tee_emits_logged [OF assms run] show ?thesis
  proof (elim disjE exE conjE)
    assume "shown = logged enc disk evs fl w" "logged enc disk evs fl w = evs"
    then show ?thesis by - (rule exI [of _ evs], rule exI [of _ "[]"], rule exI [of _ "[]"], simp add: run)
  next
    fix a e b rest
    assume "shown = a @ stopped_notice e # b" "logged enc disk evs fl w = a @ b" "evs = a @ rest" "rest \<noteq> []"
    moreover from this(1) have "shown = a @ [stopped_notice e] @ b" by simp
    ultimately show ?thesis unfolding run fst_conv by blast
  qed
qed

lemma screen_is_log_witness:
  "\<exists>a b notice. fst (tee_emits (\<lambda>_. ''e'') toy_enc torn_disk [TurnStarted 1, TurnStarted 1] \<lparr>te_log = Some [], te_failed = None\<rparr> 0) = a @ notice @ b \<and>
     logged toy_enc torn_disk [TurnStarted 1, TurnStarted 1] [] 0 = a @ b"
proof -
  let ?t = "\<lparr>te_log = Some [], te_failed = None\<rparr>"
  have "te_log ?t = Some []" "te_failed ?t = None" by simp_all
  from screen_is_log [OF this, of "\<lambda>_. ''e''" toy_enc torn_disk "[TurnStarted 1, TurnStarted 1]" 0] show ?thesis by blast
qed

section \<open>Only a yes is a yes\<close>

definition latest_park :: "gate_event list \<Rightarrow> string \<Rightarrow> nat \<Rightarrow> bool" where
  "latest_park evs call t \<longleftrightarrow> (\<exists>a b. evs = a @ Park call t # b \<and> (\<forall>t'. Park call t' \<notin> set b))"

definition said_yes :: "gate_event list \<Rightarrow> nat \<Rightarrow> bool" where
  "said_yes evs t \<longleftrightarrow> (\<exists>call a c. evs = a @ Answer call Allow # c \<and> latest_park a call t)"

lemma latest_park_later:
  assumes "latest_park evs call t" "\<And>t'. ev \<noteq> Park call t'"
  shows "latest_park (evs @ [ev]) call t"
proof -
  obtain a b where "evs = a @ Park call t # b" "\<forall>t'. Park call t' \<notin> set b" using assms(1) by (auto simp: latest_park_def)
  then have "evs @ [ev] = a @ Park call t # (b @ [ev])" "\<forall>t'. Park call t' \<notin> set (b @ [ev])" using assms(2) by auto
  then show ?thesis unfolding latest_park_def by blast
qed

lemma latest_park_now: "latest_park (evs @ [Park call t]) call t"
  unfolding latest_park_def by (intro exI [of _ evs] exI [of _ "[]"]) simp

lemma said_yes_later: "said_yes evs t \<Longrightarrow> said_yes (evs @ [ev]) t"
  unfolding said_yes_def by (elim exE conjE, intro exI conjI) auto

lemma said_yes_now: "latest_park evs call t \<Longrightarrow> said_yes (evs @ [Answer call Allow]) t"
  unfolding said_yes_def by blast

definition gate_inv :: "gate_event list \<Rightarrow> ui_gate \<Rightarrow> bool" where
  "gate_inv evs g \<longleftrightarrow> (\<forall>call t. ga_waiting g call = Some t \<longrightarrow> latest_park evs call t) \<and>
     (\<forall>t. ga_mail g t = Some Allow \<or> ga_done g t = Some Allow \<longrightarrow> said_yes evs t)"

lemma gate_inv_step: "gate_steps g ev g' \<Longrightarrow> gate_inv evs g \<Longrightarrow> gate_inv (evs @ [ev]) g'"
proof (induction rule: gate_steps.induct)
  case (park g t call)
  have "latest_park (evs @ [Park call t]) c x" if "(if c = call then Some t else ga_waiting g c) = Some x" for c x
    using that park latest_park_now latest_park_later [of evs c x "Park call t"]
    by (auto simp: gate_inv_def split: if_splits)
  then show ?case using park by (auto simp: gate_inv_def gate_park_def said_yes_later)
next
  case (answer d g call)
  show ?case
  proof (cases "ga_waiting g call")
    case None
    then show ?thesis using answer by (auto simp: gate_inv_def gate_answer_def latest_park_later said_yes_later)
  next
    case (Some t)
    then have "latest_park evs call t" using answer by (simp add: gate_inv_def)
    then have "d = Allow \<Longrightarrow> said_yes (evs @ [Answer call d]) t" using said_yes_now by blast
    then show ?thesis using answer Some
      by (auto simp: gate_inv_def gate_answer_def latest_park_later said_yes_later split: if_splits)
  qed
next
  case (release g)
  then show ?case by (auto simp: gate_inv_def gate_release_all_def said_yes_later split: if_splits)
next
  case (receive g t call)
  then show ?case by (auto simp: gate_inv_def gate_receive_def latest_park_later said_yes_later split: if_splits)
next
  case (expire g t call)
  then show ?case by (auto simp: gate_inv_def gate_expire_def latest_park_later said_yes_later)
next
  case (give_up g t call)
  then show ?case by (auto simp: gate_inv_def gate_give_up_def latest_park_later said_yes_later split: if_splits)
qed

lemma gate_run_inv: "gate_run evs g \<Longrightarrow> gate_inv evs g"
proof (induction rule: gate_run.induct)
  case start
  show ?case by (simp add: gate_inv_def gate_new_def)
next
  case (further evs g ev g')
  then show ?case by (blast intro: gate_inv_step)
qed

text \<open>C37: A call is let through only by a yes to it. However requests, answers, the deadline and the release
  of a closing tab interleave, a request comes back with a permission only if somebody answered yes to its
  call while it was the latest request of that call; and a request that waits can always come back.\<close>

theorem gate_needs_yes:
  assumes "gate_run evs g"
  shows "(ga_done g t = Some Allow \<longrightarrow>
      (\<exists>call a b c. evs = a @ Park call t # b @ Answer call Allow # c \<and> (\<forall>t'. Park call t' \<notin> set b))) \<and>
    (ga_call g t \<noteq> None \<longrightarrow> ga_done g t \<noteq> None \<or> (\<exists>ev g'. gate_steps g ev g' \<and> (ga_done g' t \<noteq> None \<or> t \<in> ga_expired g' - ga_expired g)))"
proof (intro conjI impI)
  assume "ga_done g t = Some Allow"
  then have "said_yes evs t" using gate_run_inv [OF assms] by (simp add: gate_inv_def)
  then show "\<exists>call a b c. evs = a @ Park call t # b @ Answer call Allow # c \<and> (\<forall>t'. Park call t' \<notin> set b)"
    unfolding said_yes_def latest_park_def by force
next
  assume "ga_call g t \<noteq> None"
  then obtain call where c: "ga_call g t = Some call" by blast
  show "ga_done g t \<noteq> None \<or> (\<exists>ev g'. gate_steps g ev g' \<and> (ga_done g' t \<noteq> None \<or> t \<in> ga_expired g' - ga_expired g))"
  proof (cases "ga_done g t = None")
    case True
    consider "t \<in> ga_expired g" | "t \<notin> ga_expired g" "ga_mail g t \<noteq> None" | "t \<notin> ga_expired g" "ga_mail g t = None" by blast
    then show ?thesis
    proof cases
      case 1
      have "ga_done (gate_give_up call t g) t \<noteq> None" by (simp add: gate_give_up_def)
      with gate_steps.give_up [OF c True 1] show ?thesis by blast
    next
      case 2
      then have "ga_done (gate_receive t g) t \<noteq> None" by (simp add: gate_receive_def)
      with gate_steps.receive [OF c True 2] show ?thesis by blast
    next
      case 3
      then have "t \<in> ga_expired (gate_expire t g) - ga_expired g" by (simp add: gate_expire_def)
      with gate_steps.expire [OF c True 3] show ?thesis by blast
    qed
  qed simp
qed

lemma yes_run: "gate_run [Park ''c'' 0, Answer ''c'' Allow, Receive 0]
  (gate_receive 0 (snd (gate_answer ''c'' Allow (gate_park ''c'' 0 gate_new))))"
proof -
  have "gate_run ([] @ [Park ''c'' 0]) (gate_park ''c'' 0 gate_new)"
    by (intro gate_run.further [OF gate_run.start] gate_steps.park) (simp add: gate_new_def)
  then have "gate_run (([] @ [Park ''c'' 0]) @ [Answer ''c'' Allow]) (snd (gate_answer ''c'' Allow (gate_park ''c'' 0 gate_new)))"
    by (rule gate_run.further [OF _ gate_steps.answer]) simp
  then have "gate_run ((([] @ [Park ''c'' 0]) @ [Answer ''c'' Allow]) @ [Receive 0])
      (gate_receive 0 (snd (gate_answer ''c'' Allow (gate_park ''c'' 0 gate_new))))"
    by (rule gate_run.further [OF _ gate_steps.receive [where call = "''c''"]]) (simp_all add: gate_new_def gate_park_def gate_answer_def)
  then show ?thesis by simp
qed

lemma gate_needs_yes_witness:
  "\<exists>call a b c. [Park ''c'' 0, Answer ''c'' Allow, Receive 0] = a @ Park call 0 # b @ Answer call Allow # c \<and> (\<forall>t'. Park call t' \<notin> set b)"
proof -
  have "ga_done (gate_receive 0 (snd (gate_answer ''c'' Allow (gate_park ''c'' 0 gate_new)))) 0 = Some Allow"
    by (simp add: gate_receive_def gate_answer_def gate_park_def gate_new_def)
  with gate_needs_yes [OF yes_run, of 0] show ?thesis by blast
qed

text \<open>A yes that comes between the deadline and the clean-up is reported as taken, and the call is refused.\<close>

lemma late_yes_is_refused:
  "\<exists>g g'. gate_run [Park c 0, Expire 0] g \<and> gate_answer c Allow g = (True, g') \<and>
     (\<forall>ev g''. gate_steps g' ev g'' \<longrightarrow> ga_done g'' 0 \<noteq> Some Allow)"
proof -
  let ?g = "gate_expire 0 (gate_park c 0 gate_new)"
  have "gate_run ([] @ [Park c 0]) (gate_park c 0 gate_new)"
    by (intro gate_run.further [OF gate_run.start] gate_steps.park) (simp add: gate_new_def)
  then have "gate_run (([] @ [Park c 0]) @ [Expire 0]) ?g"
    by (rule gate_run.further [OF _ gate_steps.expire [where call = c]]) (simp_all add: gate_new_def gate_park_def)
  then have run: "gate_run [Park c 0, Expire 0] ?g" by simp
  let ?g' = "snd (gate_answer c Allow ?g)"
  have taken: "gate_answer c Allow ?g = (True, ?g')"
    by (simp add: gate_answer_def gate_expire_def gate_park_def gate_new_def)
  have late: "0 \<in> ga_expired ?g'" "ga_done ?g' 0 = None"
    by (simp_all add: gate_answer_def gate_expire_def gate_park_def gate_new_def)
  have "ga_done g'' 0 \<noteq> Some Allow" if "gate_steps ?g' ev g''" for ev g''
    using that late
    by (cases rule: gate_steps.cases)
      (auto simp: gate_park_def gate_answer_def gate_release_all_def gate_receive_def gate_expire_def gate_give_up_def
        split: option.splits if_splits)
  with run taken show ?thesis by blast
qed

text \<open>A stop releases what is parked. A call that parks right after it waits for its whole deadline.\<close>

lemma late_park_is_not_released:
  "ga_waiting (gate_park c t (gate_release_all g)) c = Some t \<and> ga_mail g t = None \<Longrightarrow> t \<notin> ran (ga_waiting g) \<Longrightarrow>
   ga_mail (gate_park c t (gate_release_all g)) t = None"
  by (simp add: gate_park_def gate_release_all_def)

section \<open>Every prompt that was sent\<close>

definition user_prompts :: "session_event list \<Rightarrow> string list" where
  "user_prompts evs = List.map_filter (\<lambda>e. case e of UserPrompt t \<Rightarrow> Some t | _ \<Rightarrow> None) evs"

lemma user_prompts_simps [simp]:
  "user_prompts [] = []" "user_prompts (as @ bs) = user_prompts as @ user_prompts bs"
  "user_prompts (UserPrompt t # evs) = t # user_prompts evs"
  by (simp_all add: user_prompts_def map_filter_def)

lemma user_prompts_none: "(\<And>t. UserPrompt t \<notin> set evs) \<Longrightarrow> user_prompts evs = []"
  by (induction evs) (auto simp: user_prompts_def map_filter_simps split: session_event.split)

lemma run_calls_no_prompt: "run_calls env w calls = (evs, ms, w') \<Longrightarrow> UserPrompt t \<notin> set evs"
proof (induction calls arbitrary: w evs ms w')
  case (Cons call calls)
  have one: "UserPrompt t \<notin> set (fst (run_one_call env w1 call))" for w1
    by (auto simp: run_one_call_def Let_def finished_def split: option.split prod.split sum.split permission_outcome.split)
  obtain c w1 where c: "e_cancelled env w = (c, w1)" by fastforce
  obtain e1 r w2 where o: "(if c then ([finished call (not_run call) None], not_run call, w1) else run_one_call env w1 call) = (e1, r, w2)"
    by (cases "if c then ([finished call (not_run call) None], not_run call, w1) else run_one_call env w1 call") auto
  obtain content w3 where f: "folded_content (e_spill env) w2 (cr_content r) = (content, w3)" by fastforce
  obtain e2 ms2 w4 where l: "run_calls env w3 calls = (e2, ms2, w4)" by (cases "run_calls env w3 calls") auto
  have "evs = e1 @ e2" using Cons.prems by (simp add: c o f l)
  moreover have "UserPrompt t \<notin> set e1" using o one [of w1] by (auto simp: finished_def split: if_splits)
  ultimately show ?case using Cons.IH [OF l] by simp
qed simp

lemma turn_loop_no_prompt: "turn_loop env specs s n w = (evs, r, s', w') \<Longrightarrow> UserPrompt t \<notin> set evs"
proof (induction env specs s n w arbitrary: evs r s' w' rule: turn_loop.induct)
  case (1 env specs s n w)
  obtain e1 ro s1 w1 where q: "turn_round env specs s n w = (e1, ro, s1, w1)" by (cases "turn_round env specs s n w") auto
  have d: "UserPrompt t \<in> delta_event ` A \<longleftrightarrow> False" for A
  proof -
    have "delta_event x \<noteq> UserPrompt t" for x by (cases x) simp_all
    then show ?thesis by force
  qed
  have e1: "UserPrompt t \<notin> set e1"
    using q d by (auto simp: turn_round_def Let_def split: prod.splits if_splits sum.splits dest: run_calls_no_prompt [where t = t])
  show ?case
  proof (cases ro)
    case None
    obtain e2 r2 s2 w2 where l: "turn_loop env specs s1 (n + 1) w1 = (e2, r2, s2, w2)" by (cases "turn_loop env specs s1 (n + 1) w1") auto
    from "1.IH" [OF q [symmetric] refl None refl l] have "UserPrompt t \<notin> set e2" .
    with 1(2) q None l e1 show ?thesis by (auto simp: turn_loop.simps [of env specs s n w])
  next
    case (Some x)
    with 1(2) q e1 show ?thesis by (simp add: turn_loop.simps [of env specs s n w])
  qed
qed

lemma prompt_prompts:
  assumes "prompt env s text w = (evs, r, s1, w1)"
  shows "user_prompts evs = [text]"
proof -
  have "\<exists>later. evs = UserPrompt text # later \<and> (\<forall>t. UserPrompt t \<notin> set later)"
    using assms
    by (auto simp: prompt_def Let_def split: prod.splits if_splits sum.splits option.splits dest: turn_loop_no_prompt)
  then obtain later where e: "evs = UserPrompt text # later" "\<And>t. UserPrompt t \<notin> set later" by blast
  then show ?thesis using user_prompts_none [OF e(2)] by simp
qed

lemma tee_emits_whole:
  assumes "te_failed t = None" "tee_emits show enc disk evs t w = (shown, t1, w1)"
  shows "te_failed t1 = None \<Longrightarrow> shown = evs" "subseq (user_prompts shown) (user_prompts evs)"
proof -
  have notice: "user_prompts (a @ stopped_notice e # b) = user_prompts a @ user_prompts b" for a e b
    by (simp add: user_prompts_def stopped_notice_def map_filter_def)
  have subs: "subseq (user_prompts (logged enc disk evs fl w)) (user_prompts evs)" for fl w
  proof (induction evs arbitrary: fl w)
    case (Cons ev evs)
    have "user_prompts (ev # es) = user_prompts [ev] @ user_prompts es" for es using user_prompts_simps(2) [of "[ev]" es] by simp
    note split_off = this [of "logged enc disk evs _ _"] this [of evs]
    show ?case
    proof (cases "append_event enc disk w fl ev")
      case (fields r fl1 w1)
      show ?thesis
      proof (cases r)
        case (Inl e)
        with Cons [of fl1 w1] show ?thesis by (simp add: fields split_off list_emb_append2)
      next
        case (Inr u)
        have "subseq (user_prompts (logged enc disk (ev # evs) fl w)) (user_prompts [ev] @ user_prompts evs)"
          using Inr by (simp add: fields split_off list_emb_append_mono [OF subseq_order.order_refl Cons])
        then show ?thesis by (simp only: split_off)
      qed
    qed
  qed simp
  have "(te_failed t1 = None \<longrightarrow> shown = evs) \<and> subseq (user_prompts shown) (user_prompts evs)"
  proof (cases "te_log t")
    case None
    have "shown = evs \<and> t1 = t"
      using None assms(2) by (induction evs arbitrary: shown w) (auto simp: tee_emit_def split: prod.splits)
    then show ?thesis by simp
  next
    case (Some fl)
    from tee_emits_logged [OF Some assms] show ?thesis
    proof (elim disjE exE conjE)
      fix a e b rest
      assume *: "te_failed t1 \<noteq> None" "shown = a @ stopped_notice e # b" "logged enc disk evs fl w = a @ b"
      have "user_prompts shown = user_prompts (logged enc disk evs fl w)" unfolding *(2,3) notice by simp
      with *(1) subs show ?thesis by auto
    qed simp
  qed
  then show "te_failed t1 = None \<Longrightarrow> shown = evs" "subseq (user_prompts shown) (user_prompts evs)" by blast+
qed

lemma subseq_single: "subseq xs [x] \<Longrightarrow> prefix xs [x]"
  by (cases xs) (auto dest: list_emb_Nil2 split: if_splits)



end
