(* ===== verification/Agent_Supervisor.thy ===== *)
theory Agent_Supervisor
  imports Agent_Bridge Runtime_Store Agent_Ipc
begin

text \<open>
  Agent sessions that outlive the window: the registry of running sessions
  (\<open>src-tauri/src/agent_bridge.rs\<close>), the supervisor that serves it over local connections and records it in
  the runtime store (\<open>agent_supervisor.rs\<close>), and the window's side of a connection (\<open>agent_client.rs\<close>).
  Frames arrive one at a time; serde's readers, what a starting session reads from disk and the faults of
  the store are arguments.
\<close>

section \<open>The registry\<close>

text \<open>The event callback of a session is the client it sends to.\<close>

record agent_handle =
  ah_session :: string
  ah_queue :: "string list"
  ah_running :: bool
  ah_cancelled :: bool
  ah_gate :: ui_gate
  ah_log :: "string list option"
  ah_target :: nat

record agent_registry =
  ar_sessions :: "(string \<times> agent_handle) list"
  ar_counter :: nat

definition registry_new :: agent_registry where
  "registry_new = \<lparr>ar_sessions = [], ar_counter = 0\<rparr>"

definition handle_name :: "nat \<Rightarrow> string" where
  "handle_name n = ''agent-'' @ show_nat n"

text \<open>What the world answers a request: the clock, the faults of the store's two calls, what a log replays,
  and how a start goes: the events it replays, and the error that ends it, if any.\<close>

record sup_env =
  sv_now :: int
  sv_get_fault :: "store_error option"
  sv_put_fault :: "store_error option"
  sv_replay :: "string list \<Rightarrow> string + session_event list"
  sv_start :: "session_event list \<times> (string + unit)"
  sv_dir :: "string list option"

definition registry_start ::
  "sup_env \<Rightarrow> string \<Rightarrow> nat \<Rightarrow> agent_registry \<Rightarrow> session_event list \<times> (string + string) \<times> agent_registry" where
  "registry_start env sid client r =
     (let i = handle_name (ar_counter r + 1); r1 = r\<lparr>ar_counter := ar_counter r + 1\<rparr> in
      case sv_start env of
        (evs, Inl e) \<Rightarrow> (evs, Inl e, r1)
      | (evs, Inr _) \<Rightarrow>
          (evs, Inr i, r1\<lparr>ar_sessions := ar_sessions r1 @ [(i,
             \<lparr>ah_session = sid, ah_queue = [], ah_running = True, ah_cancelled = False, ah_gate = gate_new,
              ah_log = map_option (\<lambda>dir. log_path_for dir sid) (sv_dir env), ah_target = client\<rparr>)]\<rparr>))"

definition update_handle :: "string \<Rightarrow> (agent_handle \<Rightarrow> agent_handle) \<Rightarrow> agent_registry \<Rightarrow> agent_registry" where
  "update_handle i f r = r\<lparr>ar_sessions := map (\<lambda>(k, h). (k, if k = i then f h else h)) (ar_sessions r)\<rparr>"

text \<open>\<open>attach\<close>: the events go to the new client before the history is read.\<close>

definition registry_attach ::
  "sup_env \<Rightarrow> string \<Rightarrow> nat \<Rightarrow> agent_registry \<Rightarrow> session_event list \<times> (string + string option) \<times> agent_registry" where
  "registry_attach env sid client r =
     (case find (\<lambda>(_, h). ah_session h = sid) (ar_sessions r) of
        None \<Rightarrow> ([], Inr None, r)
      | Some (i, h) \<Rightarrow>
          (let r1 = update_handle i (\<lambda>h. h\<lparr>ah_target := client\<rparr>) r in
           case (case ah_log h of None \<Rightarrow> Inr [] | Some path \<Rightarrow> sv_replay env path) of
             Inl e \<Rightarrow> ([], Inl e, r1)
           | Inr evs \<Rightarrow> (evs, Inr (Some i), r1)))"

definition registry_get :: "string \<Rightarrow> agent_registry \<Rightarrow> agent_handle option" where
  "registry_get i r = map_of (ar_sessions r) i"

definition no_session :: "string \<Rightarrow> string" where
  "no_session i = ''no session '' @ i"

definition registry_prompt :: "string \<Rightarrow> string \<Rightarrow> agent_registry \<Rightarrow> (string + unit) \<times> agent_registry" where
  "registry_prompt i t r = (case registry_get i r of
     None \<Rightarrow> (Inl (no_session i), r)
   | Some h \<Rightarrow> (if ah_running h then (Inr (), update_handle i (\<lambda>h. h\<lparr>ah_queue := ah_queue h @ [t]\<rparr>) r)
       else (Inl (''session '' @ i @ '' is no longer running''), r)))"

text \<open>\<open>stop_session\<close>: the flag and the gate.\<close>

definition stop_session :: "agent_handle \<Rightarrow> agent_handle" where
  "stop_session h = h\<lparr>ah_cancelled := True, ah_gate := gate_release_all (ah_gate h)\<rparr>"

definition registry_cancel :: "string \<Rightarrow> agent_registry \<Rightarrow> (string + unit) \<times> agent_registry" where
  "registry_cancel i r = (case registry_get i r of
     None \<Rightarrow> (Inl (no_session i), r) | Some _ \<Rightarrow> (Inr (), update_handle i stop_session r))"

definition registry_answer ::
  "string \<Rightarrow> string \<Rightarrow> bool \<Rightarrow> string option \<Rightarrow> agent_registry \<Rightarrow> (string + bool) \<times> agent_registry" where
  "registry_answer i call allow reason r = (case registry_get i r of
     None \<Rightarrow> (Inl (no_session i), r)
   | Some h \<Rightarrow>
       (let d = (if allow then Allow else Deny (case reason of Some t \<Rightarrow> t | None \<Rightarrow> ''the user declined'')) in
        case gate_answer call d (ah_gate h) of
          (taken, g) \<Rightarrow> (Inr taken, update_handle i (\<lambda>h. h\<lparr>ah_gate := g\<rparr>) r)))"

text \<open>A closed session is out of the registry; its thread ends when its queue does.\<close>

definition registry_close :: "string \<Rightarrow> agent_registry \<Rightarrow> agent_registry" where
  "registry_close i r = r\<lparr>ar_sessions := filter (\<lambda>(k, _). k \<noteq> i) (ar_sessions r)\<rparr>"

section \<open>The supervisor\<close>

record supervisor =
  su_registry :: agent_registry
  su_owners :: "string \<rightharpoonup> nat"
  su_db :: runtime_db
  su_host :: string

datatype agent_request =
    ReqStart nat string string
  | ReqPrompt nat string string
  | ReqCancel nat string
  | ReqAnswer nat string string bool "string option"
  | ReqClose nat string
  | ReqDetach nat string

record agent_codec =
  ac_start :: "bytes \<Rightarrow> string + nat \<times> string \<times> string"
  ac_prompt :: "bytes \<Rightarrow> string + nat \<times> string \<times> string"
  ac_handle :: "bytes \<Rightarrow> string + nat \<times> string"
  ac_answer :: "bytes \<Rightarrow> string + nat \<times> string \<times> string \<times> bool \<times> string option"
  ac_request_id :: "bytes \<Rightarrow> nat option"
  ac_kind_text :: "ipc_kind \<Rightarrow> string"

definition request_of :: "agent_codec \<Rightarrow> ipc_frame \<Rightarrow> string + agent_request" where
  "request_of c f =
     (let b = if_payload f in case if_kind f of
        IStart \<Rightarrow> map_sum id (\<lambda>(i, s, d). ReqStart i s d) (ac_start c b)
      | IPrompt \<Rightarrow> map_sum id (\<lambda>(i, h, t). ReqPrompt i h t) (ac_prompt c b)
      | ICancel \<Rightarrow> map_sum id (\<lambda>(i, h). ReqCancel i h) (ac_handle c b)
      | IAnswer \<Rightarrow> map_sum id (\<lambda>(i, h, k, a, r). ReqAnswer i h k a r) (ac_answer c b)
      | IClose \<Rightarrow> map_sum id (\<lambda>(i, h). ReqClose i h) (ac_handle c b)
      | IDetach \<Rightarrow> map_sum id (\<lambda>(i, h). ReqDetach i h) (ac_handle c b)
      | k \<Rightarrow> Inl (''unexpected Agent request kind '' @ ac_kind_text c k))"

record agent_reply =
  ap_request :: nat
  ap_handle :: "string option"
  ap_answered :: "bool option"
  ap_error :: "string option"

definition reply_ok :: "nat \<Rightarrow> agent_reply" where
  "reply_ok i = \<lparr>ap_request = i, ap_handle = None, ap_answered = None, ap_error = None\<rparr>"

definition reply_error :: "nat \<Rightarrow> string \<Rightarrow> agent_reply" where
  "reply_error i e = \<lparr>ap_request = i, ap_handle = None, ap_answered = None, ap_error = Some e\<rparr>"

datatype sup_out = OutEvent string session_event | OutReply ipc_kind agent_reply

definition stale :: "string \<Rightarrow> string" where
  "stale i = ''stale Agent client for session '' @ i"

text \<open>\<open>u64::saturating_add(1)\<close>.\<close>

definition sat_succ :: "64 word \<Rightarrow> 64 word" where
  "sat_succ g = (if g = - 1 then g else g + 1)"

definition set_runtime_state ::
  "sup_env \<Rightarrow> string \<Rightarrow> string \<Rightarrow> string \<Rightarrow> bool \<Rightarrow> runtime_db \<Rightarrow> (string + unit) \<times> runtime_db" where
  "set_runtime_state env host sid state advance db =
     (case get (sv_get_fault env) sid db of
        Inl e \<Rightarrow> (Inl e, db)
      | Inr previous \<Rightarrow>
          (let generation = (case previous of
               Some r \<Rightarrow> if advance then sat_succ (rr_generation r) else rr_generation r | None \<Rightarrow> 1) in
           put (sv_put_fault env) (sv_now env)
             \<lparr>rr_id = sid, rr_kind = ''agent'', rr_generation = generation, rr_state = state,
              rr_host = host, rr_checkpoint = None\<rparr> db))"

definition note_state :: "sup_env \<Rightarrow> string \<Rightarrow> string \<Rightarrow> bool \<Rightarrow> supervisor \<Rightarrow> (string + unit) \<times> supervisor" where
  "note_state env sid state advance s =
     (case set_runtime_state env (su_host s) sid state advance (su_db s) of (r, db) \<Rightarrow> (r, s\<lparr>su_db := db\<rparr>))"

definition owns :: "nat \<Rightarrow> string \<Rightarrow> supervisor \<Rightarrow> bool" where
  "owns client i s \<longleftrightarrow> su_owners s i = Some client"

text \<open>\<open>dispatch\<close>: what is sent, the error it ends with, the handles the connection owns, the supervisor.\<close>

type_synonym sup_result = "sup_out list \<times> (string + unit) \<times> string list \<times> supervisor"

definition start_reply :: "sup_env \<Rightarrow> nat \<Rightarrow> string list \<Rightarrow> nat \<Rightarrow> string \<Rightarrow> string \<Rightarrow> sup_out list \<Rightarrow> supervisor \<Rightarrow> sup_result" where
  "start_reply env client owned rid sid i outs s =
     (let s1 = s\<lparr>su_owners := (su_owners s)(i \<mapsto> client)\<rparr>; owned1 = List.insert i owned in
      case note_state env sid ''attached'' True s1 of
        (Inl e, s2) \<Rightarrow> (outs, Inl e, owned1, s2)
      | (Inr _, s2) \<Rightarrow> (outs @ [OutReply IAck ((reply_ok rid)\<lparr>ap_handle := Some i\<rparr>)], Inr (), owned1, s2))"

definition dispatch_start :: "sup_env \<Rightarrow> nat \<Rightarrow> string list \<Rightarrow> nat \<Rightarrow> string \<Rightarrow> supervisor \<Rightarrow> sup_result" where
  "dispatch_start env client owned rid sid s =
     (case registry_attach env sid client (su_registry s) of
        (evs, Inl e, r) \<Rightarrow> (map (OutEvent sid) evs, Inl e, owned, s\<lparr>su_registry := r\<rparr>)
      | (evs, Inr (Some i), r) \<Rightarrow> start_reply env client owned rid sid i (map (OutEvent sid) evs) (s\<lparr>su_registry := r\<rparr>)
      | (evs, Inr None, r) \<Rightarrow> (case registry_start env sid client r of
            (evs1, Inl e, r1) \<Rightarrow> (map (OutEvent sid) evs1, Inl e, owned, s\<lparr>su_registry := r1\<rparr>)
          | (evs1, Inr i, r1) \<Rightarrow> start_reply env client owned rid sid i (map (OutEvent sid) evs1) (s\<lparr>su_registry := r1\<rparr>)))"

text \<open>The two ways a client lets go of a session.\<close>

definition let_go ::
  "sup_env \<Rightarrow> bool \<Rightarrow> nat \<Rightarrow> string list \<Rightarrow> nat \<Rightarrow> string \<Rightarrow> supervisor \<Rightarrow> sup_result" where
  "let_go env close client owned rid i s =
     (if \<not> owns client i s then ([], Inl (stale i), owned, s)
      else case (case registry_get i (su_registry s) of
          Some h \<Rightarrow> note_state env (ah_session h) (if close then ''stopped'' else ''detached'') False s
        | None \<Rightarrow> (Inr (), s)) of
        (Inl e, s1) \<Rightarrow> ([], Inl e, owned, s1)
      | (Inr _, s1) \<Rightarrow>
          ([OutReply IAck (reply_ok rid)], Inr (), remove1 i owned,
           s1\<lparr>su_registry := if close then registry_close i (su_registry s1) else su_registry s1,
              su_owners := (su_owners s1)(i := None)\<rparr>))"

fun agent_dispatch :: "sup_env \<Rightarrow> nat \<Rightarrow> string list \<Rightarrow> agent_request \<Rightarrow> supervisor \<Rightarrow> sup_result" where
  "agent_dispatch env client owned (ReqStart rid sid cwd) s = dispatch_start env client owned rid sid s"
| "agent_dispatch env client owned (ReqPrompt rid i t) s =
     (if \<not> owns client i s then ([], Inl (stale i), owned, s)
      else case registry_prompt i t (su_registry s) of
        (Inl e, r) \<Rightarrow> ([], Inl e, owned, s\<lparr>su_registry := r\<rparr>)
      | (Inr _, r) \<Rightarrow> ([OutReply IAck (reply_ok rid)], Inr (), owned, s\<lparr>su_registry := r\<rparr>))"
| "agent_dispatch env client owned (ReqCancel rid i) s =
     (if \<not> owns client i s then ([], Inl (stale i), owned, s)
      else case registry_cancel i (su_registry s) of
        (Inl e, r) \<Rightarrow> ([], Inl e, owned, s\<lparr>su_registry := r\<rparr>)
      | (Inr _, r) \<Rightarrow> ([OutReply IAck (reply_ok rid)], Inr (), owned, s\<lparr>su_registry := r\<rparr>))"
| "agent_dispatch env client owned (ReqAnswer rid i call allow reason) s =
     (if \<not> owns client i s then ([], Inl (stale i), owned, s)
      else case registry_answer i call allow reason (su_registry s) of
        (Inl e, r) \<Rightarrow> ([], Inl e, owned, s\<lparr>su_registry := r\<rparr>)
      | (Inr taken, r) \<Rightarrow> ([OutReply IAck ((reply_ok rid)\<lparr>ap_answered := Some taken\<rparr>)], Inr (), owned, s\<lparr>su_registry := r\<rparr>))"
| "agent_dispatch env client owned (ReqClose rid i) s = let_go env True client owned rid i s"
| "agent_dispatch env client owned (ReqDetach rid i) s = let_go env False client owned rid i s"

text \<open>One turn of \<open>handle_client\<close>.\<close>

definition agent_frame :: "agent_codec \<Rightarrow> sup_env \<Rightarrow> nat \<Rightarrow> string list \<Rightarrow> ipc_frame \<Rightarrow> supervisor \<Rightarrow> sup_out list \<times> string list \<times> supervisor" where
  "agent_frame c env client owned f s =
     (let rid = (case ac_request_id c (if_payload f) of Some n \<Rightarrow> n | None \<Rightarrow> 0) in
      case request_of c f of
        Inl e \<Rightarrow> ([OutReply IError (reply_error rid e)], owned, s)
      | Inr req \<Rightarrow> (case agent_dispatch env client owned req s of
            (outs, Inl e, owned1, s1) \<Rightarrow> (outs @ [OutReply IError (reply_error rid e)], owned1, s1)
          | (outs, Inr _, owned1, s1) \<Rightarrow> (outs, owned1, s1)))"

text \<open>\<open>detach_owned\<close>, in any order of the set.\<close>

fun detach_owned :: "sup_env \<Rightarrow> nat \<Rightarrow> string list \<Rightarrow> supervisor \<Rightarrow> supervisor" where
  "detach_owned env client [] s = s"
| "detach_owned env client (i # js) s =
     (if \<not> owns client i s then detach_owned env client js s
      else let s1 = s\<lparr>su_owners := (su_owners s)(i := None)\<rparr> in
        detach_owned env client js (case registry_get i (su_registry s1) of
            Some h \<Rightarrow> snd (note_state env (ah_session h) ''detached'' False s1) | None \<Rightarrow> s1))"

section \<open>The supervisor at work\<close>

record sup_world =
  sw_conns :: "nat \<rightharpoonup> string list"
  sw_sup :: supervisor

text \<open>What a session's own thread may change.\<close>

definition same_session :: "agent_handle \<Rightarrow> agent_handle \<Rightarrow> bool" where
  "same_session h h' \<longleftrightarrow> ah_session h' = ah_session h \<and> ah_log h' = ah_log h \<and> ah_target h' = ah_target h"

inductive sup_steps :: "agent_codec \<Rightarrow> sup_world \<Rightarrow> sup_world \<Rightarrow> bool" for c where
  connect: "sw_conns w client = None \<Longrightarrow> sup_steps c w (w\<lparr>sw_conns := (sw_conns w)(client \<mapsto> [])\<rparr>)"
| frame: "sw_conns w client = Some owned \<Longrightarrow> agent_frame c env client owned f (sw_sup w) = (outs, owned', s') \<Longrightarrow>
    sup_steps c w \<lparr>sw_conns = (sw_conns w)(client \<mapsto> owned'), sw_sup = s'\<rparr>"
| leave: "sw_conns w client = Some owned \<Longrightarrow>
    sup_steps c w \<lparr>sw_conns = (sw_conns w)(client := None), sw_sup = detach_owned env client owned (sw_sup w)\<rparr>"
| work: "same_session h (g h) \<Longrightarrow> registry_get i (su_registry (sw_sup w)) = Some h \<Longrightarrow>
    sup_steps c w (w\<lparr>sw_sup := (sw_sup w)\<lparr>su_registry := update_handle i (\<lambda>_. g h) (su_registry (sw_sup w))\<rparr>\<rparr>)"

inductive sup_reach :: "agent_codec \<Rightarrow> supervisor \<Rightarrow> sup_world \<Rightarrow> bool" for c s0 where
  start: "su_registry s0 = registry_new \<Longrightarrow> su_owners s0 = Map.empty \<Longrightarrow> sup_reach c s0 \<lparr>sw_conns = Map.empty, sw_sup = s0\<rparr>"
| step: "sup_reach c s0 w \<Longrightarrow> sup_steps c w w' \<Longrightarrow> sup_reach c s0 w'"

section \<open>The window's side\<close>

record client_session =
  cs_session :: string
  cs_log :: "string list option"

record agent_client =
  kc_sessions :: "string \<rightharpoonup> client_session"
  kc_next :: nat
  kc_alive :: bool
  kc_waiting :: "nat set"
  kc_mail :: "nat \<rightharpoonup> agent_reply"

definition agent_client_new :: agent_client where
  "agent_client_new = \<lparr>kc_sessions = Map.empty, kc_next = 1, kc_alive = False, kc_waiting = {}, kc_mail = Map.empty\<rparr>"

text \<open>The first half of a request: its number, and the error when it could not be sent.\<close>

definition client_request :: "string option \<Rightarrow> agent_client \<Rightarrow> nat \<times> (string + unit) \<times> agent_client" where
  "client_request fault c =
     (let i = kc_next c; c1 = c\<lparr>kc_next := i + 1\<rparr> in
      if \<not> kc_alive c then (i, Inl ''Agent Supervisor is not connected'', c1)
      else case fault of
        Some e \<Rightarrow> (i, Inl e, c1)
      | None \<Rightarrow> (i, Inr (), c1\<lparr>kc_waiting := insert i (kc_waiting c)\<rparr>))"

text \<open>The second half, when the reply is there or the time is over.\<close>

definition client_wait :: "nat \<Rightarrow> agent_client \<Rightarrow> (string + agent_reply) \<times> agent_client" where
  "client_wait i c = (case kc_mail c i of
     None \<Rightarrow> (Inl (''Agent Supervisor did not answer request '' @ show_nat i), c\<lparr>kc_waiting := kc_waiting c - {i}\<rparr>)
   | Some r \<Rightarrow> ((case ap_error r of Some e \<Rightarrow> Inl e | None \<Rightarrow> Inr r), c\<lparr>kc_mail := (kc_mail c)(i := None)\<rparr>))"

definition client_reply :: "agent_reply \<Rightarrow> agent_client \<Rightarrow> agent_client" where
  "client_reply r c = (if ap_request r \<in> kc_waiting c
     then c\<lparr>kc_waiting := kc_waiting c - {ap_request r}, kc_mail := (kc_mail c)(ap_request r \<mapsto> r)\<rparr> else c)"

definition client_closed :: "agent_client \<Rightarrow> agent_client" where
  "client_closed c = c\<lparr>kc_alive := False, kc_waiting := {},
     kc_mail := (\<lambda>i. if i \<in> kc_waiting c then Some (reply_error i ''Agent Supervisor connection closed'') else kc_mail c i)\<rparr>"

definition client_event :: "string \<Rightarrow> agent_client \<Rightarrow> bool" where
  "client_event sid c \<longleftrightarrow> (\<exists>cs \<in> ran (kc_sessions c). cs_session cs = sid)"

text \<open>\<open>start\<close>: the entries of the session give way to a pending one while the request is out.\<close>

definition pending_key :: "string \<Rightarrow> string" where
  "pending_key sid = ''pending:'' @ sid"

definition client_start_begin ::
  "string list option \<Rightarrow> string \<Rightarrow> agent_client \<Rightarrow> (string \<rightharpoonup> client_session) \<times> client_session \<times> agent_client" where
  "client_start_begin dir sid c =
     (let s = \<lparr>cs_session = sid, cs_log = map_option (\<lambda>d. log_path_for d sid) dir\<rparr>;
          previous = (\<lambda>k. case kc_sessions c k of Some x \<Rightarrow> if cs_session x = sid then Some x else None | None \<Rightarrow> None) in
      (previous, s, c\<lparr>kc_sessions := (\<lambda>k. if previous k = None then kc_sessions c k else None)(pending_key sid \<mapsto> s)\<rparr>))"

definition client_start_end ::
  "string \<Rightarrow> (string \<rightharpoonup> client_session) \<Rightarrow> client_session \<Rightarrow> string + agent_reply \<Rightarrow> agent_client \<Rightarrow> (string + string) \<times> agent_client" where
  "client_start_end sid previous s result c =
     (let left = (kc_sessions c)(pending_key sid := None) in
      case result of
        Inl e \<Rightarrow> (Inl e, c\<lparr>kc_sessions := left ++ previous\<rparr>)
      | Inr r \<Rightarrow> (case ap_handle r of
            None \<Rightarrow> (Inl ''Agent Supervisor returned no session handle'', c\<lparr>kc_sessions := left ++ previous\<rparr>)
          | Some i \<Rightarrow> (Inr i, c\<lparr>kc_sessions := left(i \<mapsto> s)\<rparr>)))"

text \<open>\<open>close\<close> and \<open>detach\<close> forget the session whatever the supervisor says.\<close>

definition client_forget :: "string \<Rightarrow> agent_client \<Rightarrow> agent_client" where
  "client_forget i c = c\<lparr>kc_sessions := (kc_sessions c)(i := None)\<rparr>"

section \<open>Handles are new\<close>

definition decimal :: "string \<Rightarrow> nat" where
  "decimal s = foldl (\<lambda>n c. n * 10 + (of_char c - 48)) 0 s"

lemma decimal_snoc: "k < 10 \<Longrightarrow> decimal (s @ [char_of (48 + k)]) = decimal s * 10 + k"
proof -
  assume "k < 10"
  then have "of_char (char_of (48 + k) :: char) = 48 + k" by (simp add: of_char_of)
  then show ?thesis by (simp add: decimal_def)
qed

lemma decimal_show_nat: "decimal (show_nat n) = n"
proof (induction n rule: show_nat.induct)
  case (1 n)
  show ?case
  proof (cases "n < 10")
    case True
    then show ?thesis using decimal_snoc [of n "[]"] by (simp add: show_nat.simps [of n] decimal_def)
  next
    case False
    then show ?thesis using 1 decimal_snoc [of "n mod 10" "show_nat (n div 10)"] by (simp add: show_nat.simps [of n])
  qed
qed

lemma handle_name_inj [simp]: "handle_name a = handle_name b \<longleftrightarrow> a = b"
  unfolding handle_name_def by (metis decimal_show_nat same_append_eq)

section \<open>What holds of a running supervisor\<close>

definition registry_ok :: "agent_registry \<Rightarrow> bool" where
  "registry_ok r \<longleftrightarrow> distinct (map fst (ar_sessions r)) \<and> distinct (map (\<lambda>(_, h). ah_session h) (ar_sessions r)) \<and>
     fst ` set (ar_sessions r) \<subseteq> handle_name ` {..ar_counter r}"

lemma keys_update [simp]: "map fst (ar_sessions (update_handle i f r)) = map fst (ar_sessions r)"
  by (simp add: update_handle_def comp_def case_prod_beta)

lemma counter_update [simp]: "ar_counter (update_handle i f r) = ar_counter r"
  by (simp add: update_handle_def)

lemma keys_of_update: "fst ` set (ar_sessions (update_handle i f r)) = fst ` set (ar_sessions r)"
  by (metis keys_update set_map)

lemma get_update: "registry_get i (update_handle i f r) = map_option f (registry_get i r)"
proof -
  have "map_of (map (\<lambda>(k, h). (k, if k = i then f h else h)) xs) i = map_option f (map_of xs i)" for xs
    by (induction xs) auto
  then show ?thesis by (simp add: registry_get_def update_handle_def)
qed

lemma registry_ok_update:
  assumes "registry_ok r" "\<And>h. (i, h) \<in> set (ar_sessions r) \<Longrightarrow> ah_session (f h) = ah_session h"
  shows "registry_ok (update_handle i f r)"
proof -
  have "map (\<lambda>(_, h). ah_session h) (ar_sessions (update_handle i f r)) = map (\<lambda>(_, h). ah_session h) (ar_sessions r)"
    using assms(2) by (auto simp: update_handle_def)
  moreover have "fst ` set (ar_sessions (update_handle i f r)) \<subseteq> handle_name ` {..ar_counter r}"
    using assms(1) by (simp add: registry_ok_def keys_of_update)
  ultimately show ?thesis using assms(1) by (simp add: registry_ok_def)
qed

lemma find_session_None: "find (\<lambda>(_, h). ah_session h = sid) xs = None \<Longrightarrow> sid \<notin> set (map (\<lambda>(_, h). ah_session h) xs)"
  by (induction xs) (auto split: if_splits)

lemma find_session_Some: "find (\<lambda>(_, h). ah_session h = sid) xs = Some (i, h) \<Longrightarrow> (i, h) \<in> set xs \<and> ah_session h = sid"
  by (induction xs) (auto split: if_splits)

lemma fresh_handle:
  assumes "registry_ok r"
  shows "handle_name (Suc (ar_counter r)) \<notin> fst ` set (ar_sessions r)"
proof
  assume "handle_name (Suc (ar_counter r)) \<in> fst ` set (ar_sessions r)"
  then have "handle_name (Suc (ar_counter r)) \<in> handle_name ` {..ar_counter r}" using assms unfolding registry_ok_def by blast
  then show False by auto
qed

lemma registry_ok_start:
  assumes "registry_ok r" "sid \<notin> set (map (\<lambda>(_, h). ah_session h) (ar_sessions r))" "registry_start env sid client r = (evs, res, r1)"
  shows "registry_ok r1" "fst ` set (ar_sessions r) \<subseteq> fst ` set (ar_sessions r1)"
    "res = Inr i \<Longrightarrow> i \<in> fst ` set (ar_sessions r1)"
proof -
  have sub: "fst ` set (ar_sessions r) \<subseteq> handle_name ` {..ar_counter r}" using assms(1) by (simp add: registry_ok_def)
  have "fst ` set (ar_sessions r) \<subseteq> handle_name ` {..Suc (ar_counter r)}"
    by (rule subset_trans [OF sub]) (rule image_mono, simp)
  then have old: "(i, h) \<in> set (ar_sessions r) \<Longrightarrow> i \<in> handle_name ` {..Suc (ar_counter r)}" for i h by force
  note fresh = fresh_handle [OF assms(1)]
  show "registry_ok r1"
    using assms fresh by (auto simp: registry_start_def registry_ok_def Let_def split: prod.splits sum.splits dest: old)
  show "fst ` set (ar_sessions r) \<subseteq> fst ` set (ar_sessions r1)" "res = Inr i \<Longrightarrow> i \<in> fst ` set (ar_sessions r1)"
    using assms(3) by (auto simp: registry_start_def Let_def split: prod.splits sum.splits)
qed

definition sup_ok :: "(nat \<rightharpoonup> string list) \<Rightarrow> supervisor \<Rightarrow> bool" where
  "sup_ok conns s \<longleftrightarrow> registry_ok (su_registry s) \<and>
     (\<forall>i c. su_owners s i = Some c \<longrightarrow> (\<exists>ow. conns c = Some ow \<and> i \<in> set ow) \<and> i \<in> fst ` set (ar_sessions (su_registry s))) \<and>
     (\<forall>c ow. conns c = Some ow \<longrightarrow> distinct ow)"

lemma note_state_keeps [simp]:
  "su_registry (snd (note_state env sid st adv s)) = su_registry s" "su_owners (snd (note_state env sid st adv s)) = su_owners s"
  by (simp_all add: note_state_def split: prod.split)

lemma note_stateD: "note_state env sid st adv s = (r, s1) \<Longrightarrow> su_registry s1 = su_registry s \<and> su_owners s1 = su_owners s"
  using note_state_keeps [of env sid st adv s] by simp

lemma sup_ok_start_reply:
  assumes "sup_ok conns s" "conns client = Some owned" "i \<in> fst ` set (ar_sessions (su_registry s))"
    "start_reply env client owned rid sid i outs s = (outs', r, owned', s')"
  shows "sup_ok (conns(client \<mapsto> owned')) s'" "su_registry s' = su_registry s" "su_owners s' = (su_owners s)(i \<mapsto> client)"
proof -
  have k: "owned' = List.insert i owned" "su_registry s' = su_registry s" "su_owners s' = (su_owners s)(i \<mapsto> client)"
    using assms(4) by (auto simp: start_reply_def Let_def dest: note_stateD split: prod.splits sum.splits)
  then show "su_registry s' = su_registry s" "su_owners s' = (su_owners s)(i \<mapsto> client)" by simp_all
  have "(\<exists>ow. (conns(client \<mapsto> owned')) c = Some ow \<and> j \<in> set ow) \<and> j \<in> fst ` set (ar_sessions (su_registry s))"
    if "((su_owners s)(i \<mapsto> client)) j = Some c" for j c
  proof (cases "j = i")
    case True
    with that k(1) assms(3) show ?thesis by simp
  next
    case False
    with that have o: "su_owners s j = Some c" by simp
    with assms(1) obtain ow where "conns c = Some ow" "j \<in> set ow" "j \<in> fst ` set (ar_sessions (su_registry s))"
      unfolding sup_ok_def by blast
    with assms(2) k(1) show ?thesis by auto
  qed
  moreover have "distinct owned'" using assms(1,2) k(1) by (auto simp: sup_ok_def)
  ultimately show "sup_ok (conns(client \<mapsto> owned')) s'"
    using assms(1) k by (auto simp: sup_ok_def split: if_splits)
qed

lemma sup_ok_registry:
  assumes "sup_ok conns s" "conns client = Some owned" "registry_ok r" "fst ` set (ar_sessions (su_registry s)) \<subseteq> fst ` set (ar_sessions r)"
  shows "sup_ok (conns(client \<mapsto> owned)) (s\<lparr>su_registry := r\<rparr>)"
proof -
  have "conns(client \<mapsto> owned) = conns" using assms(2) by auto
  then show ?thesis using assms by (auto simp: sup_ok_def)
qed

lemma dispatch_start_ok:
  assumes "sup_ok conns s" "conns client = Some owned" "dispatch_start env client owned rid sid s = (outs, r, owned', s')"
  shows "sup_ok (conns(client \<mapsto> owned')) s'"
proof -
  have reg: "registry_ok (su_registry s)" using assms(1) by (simp add: sup_ok_def)
  show ?thesis
  proof (cases "find (\<lambda>(_, h). ah_session h = sid) (ar_sessions (su_registry s))")
    case None
    obtain evs1 res r1 where st: "registry_start env sid client (su_registry s) = (evs1, res, r1)"
      by (cases "registry_start env sid client (su_registry s)") auto
    note ok = registry_ok_start [OF reg find_session_None [OF None] st]
    have base: "sup_ok (conns(client \<mapsto> owned)) (s\<lparr>su_registry := r1\<rparr>)" by (rule sup_ok_registry [OF assms(1,2) ok(1,2)])
    have same: "conns(client \<mapsto> owned) = conns" using assms(2) by auto
    show ?thesis
    proof (cases res)
      case (Inl e)
      then show ?thesis using assms(3) st None base by (simp add: dispatch_start_def registry_attach_def)
    next
      case (Inr i)
      have "start_reply env client owned rid sid i (map (OutEvent sid) evs1) (s\<lparr>su_registry := r1\<rparr>) = (outs, r, owned', s')"
        using assms(3) st None Inr by (simp add: dispatch_start_def registry_attach_def)
      from sup_ok_start_reply(1) [OF base [unfolded same] assms(2) _ this] ok(3) [OF Inr] show ?thesis by simp
    qed
  next
    case (Some p)
    obtain i h where p: "p = (i, h)" by (cases p)
    let ?r1 = "update_handle i (\<lambda>h. h\<lparr>ah_target := client\<rparr>) (su_registry s)"
    have ok: "registry_ok ?r1" by (rule registry_ok_update [OF reg]) simp
    have base: "sup_ok (conns(client \<mapsto> owned)) (s\<lparr>su_registry := ?r1\<rparr>)"
      by (rule sup_ok_registry [OF assms(1,2) ok]) (simp add: keys_of_update)
    have same: "conns(client \<mapsto> owned) = conns" using assms(2) by auto
    have i: "i \<in> fst ` set (ar_sessions ?r1)" using find_session_Some [OF Some [unfolded p]] by (force simp: keys_of_update)
    show ?thesis
    proof (cases "case ah_log h of None \<Rightarrow> Inr [] | Some path \<Rightarrow> sv_replay env path")
      case (Inl e)
      then show ?thesis using assms(3) Some p base by (simp add: dispatch_start_def registry_attach_def Let_def)
    next
      case (Inr evs)
      then have "start_reply env client owned rid sid i (map (OutEvent sid) evs) (s\<lparr>su_registry := ?r1\<rparr>) = (outs, r, owned', s')"
        using assms(3) Some p by (simp add: dispatch_start_def registry_attach_def Let_def)
      from sup_ok_start_reply(1) [OF base [unfolded same] assms(2) _ this] i show ?thesis by simp
    qed
  qed
qed

lemma keys_close: "fst ` set (ar_sessions (registry_close i r)) = fst ` set (ar_sessions r) - {i}"
  by (force simp: registry_close_def)

lemma registry_ok_close: "registry_ok r \<Longrightarrow> registry_ok (registry_close i r)"
  by (auto simp: registry_ok_def registry_close_def distinct_map_filter)

lemma let_go_ok:
  assumes "sup_ok conns s" "conns client = Some owned" "let_go env cl client owned rid i s = (outs, r, owned', s')"
  shows "sup_ok (conns(client \<mapsto> owned')) s'"
proof -
  have same: "conns(client \<mapsto> owned) = conns" using assms(2) by auto
  obtain nr s1 where n: "(case registry_get i (su_registry s) of
      Some h \<Rightarrow> note_state env (ah_session h) (if cl then ''stopped'' else ''detached'') False s | None \<Rightarrow> (Inr (), s)) = (nr, s1)"
    by fastforce
  then have k: "su_registry s1 = su_registry s" "su_owners s1 = su_owners s"
    by (auto split: option.splits dest: note_stateD)
  have s1: "sup_ok conns s1" using assms(1) k by (simp add: sup_ok_def)
  show ?thesis
  proof (cases "owns client i s")
    case False
    then show ?thesis using assms same by (simp add: let_go_def)
  next
    case own: True
    show ?thesis
    proof (cases nr)
      case (Inl e)
      then show ?thesis using assms(3) own n s1 same by (auto simp: let_go_def)
    next
      case (Inr u)
      have res: "owned' = remove1 i owned" "su_owners s' = (su_owners s)(i := None)"
        "su_registry s' = (if cl then registry_close i (su_registry s) else su_registry s)"
        using assms(3) own n k Inr by (auto simp: let_go_def)
      have reg: "registry_ok (su_registry s')" using assms(1) res(3) registry_ok_close by (auto simp: sup_ok_def)
      have own': "(\<exists>ow. (conns(client \<mapsto> owned')) c = Some ow \<and> j \<in> set ow) \<and> j \<in> fst ` set (ar_sessions (su_registry s'))"
        if "su_owners s' j = Some c" for j c
      proof -
        from that res(2) have j: "j \<noteq> i" "su_owners s j = Some c" by (auto split: if_splits)
        then obtain ow where ow: "conns c = Some ow" "j \<in> set ow" "j \<in> fst ` set (ar_sessions (su_registry s))"
          using assms(1) unfolding sup_ok_def by blast
        have "j \<in> fst ` set (ar_sessions (su_registry s'))" using ow(3) j(1) res(3) keys_close [of i "su_registry s"] by auto
        moreover have "j \<in> set (remove1 i ow)" using ow(2) j(1) by (induction ow) auto
        ultimately show ?thesis using ow(1,2) assms(2) res(1) by (cases "c = client") auto
      qed
      have "distinct owned'" using assms(1,2) res(1) by (auto simp: sup_ok_def)
      then show ?thesis using reg own' assms(1) by (auto simp: sup_ok_def split: if_splits)
    qed
  qed
qed

lemma update_same_ok:
  assumes "sup_ok conns s" "conns client = Some owned" "\<And>h. ah_session (f h) = ah_session h"
  shows "sup_ok (conns(client \<mapsto> owned)) (s\<lparr>su_registry := update_handle i f (su_registry s)\<rparr>)"
  by (rule sup_ok_registry [OF assms(1,2)]) (use assms in \<open>auto intro: registry_ok_update simp: sup_ok_def keys_of_update\<close>)

lemma dispatch_ok:
  assumes "sup_ok conns s" "conns client = Some owned" "agent_dispatch env client owned req s = (outs, r, owned', s')"
  shows "sup_ok (conns(client \<mapsto> owned')) s'"
proof -
  have same: "conns(client \<mapsto> owned) = conns" using assms(2) by auto
  have keep: "sup_ok (conns(client \<mapsto> owned)) (s\<lparr>su_registry := su_registry s\<rparr>)" using assms(1) same by simp
  have sess: "\<And>h. ah_session (stop_session h) = ah_session h" by (simp add: stop_session_def)
  show ?thesis
  proof (cases req)
    case (ReqStart rid sid cwd)
    then show ?thesis using dispatch_start_ok [OF assms(1,2)] assms(3) by simp
  next
    case (ReqPrompt rid i t)
    then show ?thesis using assms(3) keep update_same_ok [OF assms(1,2), of "\<lambda>h. h\<lparr>ah_queue := ah_queue h @ [t]\<rparr>" i]
      by (auto simp: registry_prompt_def split: if_splits option.splits)
  next
    case (ReqCancel rid i)
    then show ?thesis using assms(3) keep update_same_ok [OF assms(1,2) sess, of i]
      by (auto simp: registry_cancel_def split: if_splits option.splits)
  next
    case (ReqAnswer rid i call allow reason)
    then show ?thesis using assms(3) keep update_same_ok [OF assms(1,2), of "\<lambda>h. h\<lparr>ah_gate := _\<rparr>" i]
      by (auto simp: registry_answer_def Let_def split: if_splits option.splits prod.splits)
  next
    case (ReqClose rid i)
    then show ?thesis using let_go_ok [OF assms(1,2)] assms(3) by simp
  next
    case (ReqDetach rid i)
    then show ?thesis using let_go_ok [OF assms(1,2)] assms(3) by simp
  qed
qed

lemma agent_frame_ok:
  assumes "sup_ok conns s" "conns client = Some owned" "agent_frame c env client owned f s = (outs, owned', s')"
  shows "sup_ok (conns(client \<mapsto> owned')) s'"
proof (cases "request_of c f")
  case (Inl e)
  have "conns(client \<mapsto> owned) = conns" using assms(2) by auto
  then show ?thesis using assms Inl by (simp add: agent_frame_def Let_def)
next
  case (Inr req)
  obtain o1 r ow s1 where d: "agent_dispatch env client owned req s = (o1, r, ow, s1)" by (cases "agent_dispatch env client owned req s") auto
  then have "owned' = ow" "s' = s1" using assms(3) Inr by (auto simp: agent_frame_def Let_def split: sum.splits)
  then show ?thesis using dispatch_ok [OF assms(1,2) d] by simp
qed

lemma detach_owned_ok:
  "su_registry (detach_owned env client js s) = su_registry s \<and>
   su_owners (detach_owned env client js s) = (\<lambda>i. if i \<in> set js \<and> su_owners s i = Some client then None else su_owners s i)"
proof (induction js arbitrary: s)
  case (Cons j js)
  let ?s1 = "s\<lparr>su_owners := (su_owners s)(j := None)\<rparr>"
  let ?s2 = "case registry_get j (su_registry ?s1) of Some h \<Rightarrow> snd (note_state env (ah_session h) ''detached'' False ?s1) | None \<Rightarrow> ?s1"
  have k: "su_registry ?s2 = su_registry s" "su_owners ?s2 = (su_owners s)(j := None)" by (simp_all split: option.split)
  show ?case
  proof (cases "owns client j s")
    case True
    then have "detach_owned env client (j # js) s = detach_owned env client js ?s2" by (simp add: Let_def)
    then show ?thesis using Cons [of ?s2] k True by (auto simp: owns_def fun_eq_iff)
  next
    case False
    then show ?thesis using Cons [of s] by (auto simp: owns_def fun_eq_iff)
  qed
qed simp

lemma leave_ok:
  assumes "sup_ok conns s" "conns client = Some owned"
  shows "sup_ok (conns(client := None)) (detach_owned env client owned s)"
proof -
  note d = detach_owned_ok [of env client owned s]
  have "c \<noteq> client \<and> (\<exists>ow. conns c = Some ow \<and> i \<in> set ow) \<and> i \<in> fst ` set (ar_sessions (su_registry s))"
    if "su_owners (detach_owned env client owned s) i = Some c" for i c
  proof -
    have o: "su_owners s i = Some c" using that d by (auto split: if_splits)
    then have here: "(\<exists>ow. conns c = Some ow \<and> i \<in> set ow)" "i \<in> fst ` set (ar_sessions (su_registry s))"
      using assms(1) unfolding sup_ok_def by blast+
    moreover have "c \<noteq> client" using that d o here(1) assms(2) by (auto split: if_splits)
    ultimately show ?thesis by simp
  qed
  then show ?thesis using assms(1) d by (auto simp: sup_ok_def split: if_splits)
qed

lemma sup_reach_ok: "sup_reach c s0 w \<Longrightarrow> sup_ok (sw_conns w) (sw_sup w)"
proof (induction rule: sup_reach.induct)
  case start
  then show ?case by (simp add: sup_ok_def registry_ok_def registry_new_def)
next
  case (step w w')
  from step(2) show ?case
  proof (cases rule: sup_steps.cases)
    case (connect client)
    then show ?thesis using step(3) by (fastforce simp: sup_ok_def split: if_splits)
  next
    case (frame client owned env f outs owned' s')
    then show ?thesis using agent_frame_ok [OF step(3) frame(2,3)] by (simp add: fun_upd_def)
  next
    case (leave client owned env)
    then show ?thesis using leave_ok [OF step(3)] by (simp add: fun_upd_def)
  next
    case (work h g i)
    let ?r = "update_handle i (\<lambda>_. g h) (su_registry (sw_sup w))"
    have reg: "registry_ok (su_registry (sw_sup w))" using step(3) by (simp add: sup_ok_def)
    then have "(i, h') \<in> set (ar_sessions (su_registry (sw_sup w))) \<Longrightarrow> h' = h" for h'
      using work(3) by (simp add: registry_get_def registry_ok_def)
    then have "registry_ok ?r" using work(2) by (intro registry_ok_update [OF reg]) (auto simp: same_session_def)
    then show ?thesis using step(3) work(1) by (simp add: sup_ok_def keys_of_update)
  qed
qed


section \<open>The newest window rules\<close>

fun req_handle :: "agent_request \<Rightarrow> string option" where
  "req_handle (ReqStart _ _ _) = None"
| "req_handle (ReqPrompt _ i _) = Some i"
| "req_handle (ReqCancel _ i) = Some i"
| "req_handle (ReqAnswer _ i _ _ _) = Some i"
| "req_handle (ReqClose _ i) = Some i"
| "req_handle (ReqDetach _ i) = Some i"

lemma stale_refused:
  assumes "request_of c f = Inr req" "req_handle req = Some i" "su_owners s i \<noteq> Some client"
  shows "\<exists>rid. agent_frame c env client owned f s = ([OutReply IError (reply_error rid (stale i))], owned, s)"
proof -
  have "agent_dispatch env client owned req s = ([], Inl (stale i), owned, s)"
    using assms(2,3) by (cases req) (auto simp: owns_def let_go_def)
  then show ?thesis using assms(1) by (simp add: agent_frame_def Let_def) blast
qed

lemma start_reply_acks:
  assumes "start_reply env client owned rid sid i (map (OutEvent x) evs) s = (outs', r, owned', s')" "OutReply IAck a \<in> set outs'"
  shows "ap_handle a = Some i" "su_owners s' = (su_owners s)(i \<mapsto> client)" "su_registry s' = su_registry s"
  using assms by (auto simp: start_reply_def Let_def reply_ok_def dest: note_stateD split: prod.splits sum.splits)

lemma dispatch_start_acks:
  assumes "registry_ok (su_registry s)" "dispatch_start env client owned rid sid s = (outs, r, owned', s')" "OutReply IAck a \<in> set outs"
  shows "\<exists>i h. ap_handle a = Some i \<and> su_owners s' i = Some client \<and> registry_get i (su_registry s') = Some h \<and>
    ah_session h = sid \<and> ah_target h = client"
proof (cases "find (\<lambda>(_, h). ah_session h = sid) (ar_sessions (su_registry s))")
  case None
  obtain evs1 res r1 where st: "registry_start env sid client (su_registry s) = (evs1, res, r1)"
    by (cases "registry_start env sid client (su_registry s)") auto
  have "res \<noteq> Inl e" for e using assms(2,3) st None by (auto simp: dispatch_start_def registry_attach_def)
  then obtain i where i: "res = Inr i" by (cases res) auto
  have sr: "start_reply env client owned rid sid i (map (OutEvent sid) evs1) (s\<lparr>su_registry := r1\<rparr>) = (outs, r, owned', s')"
    using assms(2) st None i by (simp add: dispatch_start_def registry_attach_def)
  note fresh = fresh_handle [OF assms(1)]
  have "\<exists>h. registry_get i r1 = Some h \<and> ah_session h = sid \<and> ah_target h = client"
    using st i fresh
    by (auto simp: registry_start_def Let_def registry_get_def map_add_Some_iff map_of_eq_None_iff [symmetric] split: prod.splits sum.splits)
  with start_reply_acks [OF sr assms(3)] show ?thesis by auto
next
  case (Some p)
  obtain i h where p: "p = (i, h)" by (cases p)
  note here = find_session_Some [OF Some [unfolded p]]
  let ?r1 = "update_handle i (\<lambda>h. h\<lparr>ah_target := client\<rparr>) (su_registry s)"
  obtain evs where evs: "(case ah_log h of None \<Rightarrow> Inr [] | Some path \<Rightarrow> sv_replay env path) = Inr evs"
    using assms(2,3) Some p
    by (cases "case ah_log h of None \<Rightarrow> Inr [] | Some path \<Rightarrow> sv_replay env path") (auto simp: dispatch_start_def registry_attach_def Let_def)
  have sr: "start_reply env client owned rid sid i (map (OutEvent sid) evs) (s\<lparr>su_registry := ?r1\<rparr>) = (outs, r, owned', s')"
    using assms(2) Some p evs by (simp add: dispatch_start_def registry_attach_def Let_def)
  have "map_of (ar_sessions (su_registry s)) i = Some h" using here assms(1) by (auto simp: registry_ok_def intro: map_of_is_SomeI)
  then have "registry_get i ?r1 = Some (h\<lparr>ah_target := client\<rparr>)"
    unfolding get_update by (simp add: registry_get_def)
  with start_reply_acks [OF sr assms(3)] here show ?thesis by auto
qed


section \<open>An example\<close>

definition demo_sup_env :: sup_env where
  "demo_sup_env = \<lparr>sv_now = 0, sv_get_fault = None, sv_put_fault = None, sv_replay = (\<lambda>_. Inr []), sv_start = ([], Inr ()), sv_dir = None\<rparr>"

definition demo_agent_codec :: agent_codec where
  "demo_agent_codec = \<lparr>ac_start = (\<lambda>_. Inr (1, ''tab'', ''/'')), ac_prompt = (\<lambda>_. Inl ''bad''), ac_handle = (\<lambda>_. Inl ''bad''),
     ac_answer = (\<lambda>_. Inl ''bad''), ac_request_id = (\<lambda>_. None), ac_kind_text = (\<lambda>_. [])\<rparr>"

definition demo_supervisor :: supervisor where
  "demo_supervisor = \<lparr>su_registry = registry_new, su_owners = Map.empty, su_db = empty_db, su_host = ''host''\<rparr>"

definition demo_start_frame :: ipc_frame where
  "demo_start_frame = \<lparr>if_kind = IStart, if_payload = []\<rparr>"

lemma demo_sup_reach: "sup_reach demo_agent_codec demo_supervisor \<lparr>sw_conns = [7 \<mapsto> []], sw_sup = demo_supervisor\<rparr>"
proof -
  have "sup_reach demo_agent_codec demo_supervisor \<lparr>sw_conns = Map.empty, sw_sup = demo_supervisor\<rparr>"
    by (rule sup_reach.start) (simp_all add: demo_supervisor_def)
  from sup_reach.step [OF this sup_steps.connect [of _ 7]] show ?thesis by simp
qed

lemma demo_frame:
  "\<exists>owned s. agent_frame demo_agent_codec demo_sup_env 7 [] demo_start_frame demo_supervisor =
     ([OutReply IAck ((reply_ok 1)\<lparr>ap_handle := Some (handle_name 1)\<rparr>)], owned, s)"
  by (simp add: agent_frame_def Let_def request_of_def demo_start_frame_def demo_agent_codec_def dispatch_start_def registry_attach_def
      registry_start_def demo_supervisor_def registry_new_def demo_sup_env_def start_reply_def note_state_def set_runtime_state_def
      get_def put_def connection_def find_row_def empty_db_def unat_1)



section \<open>What goes wrong\<close>

text \<open>A start whose log cannot be replayed is refused, and the session's events have moved to the refused
  window all the same; its owner still owns it and hears nothing more.\<close>

lemma refused_start_takes_events:
  assumes "find (\<lambda>(_, h). ah_session h = sid) (ar_sessions r) = Some (i, h)" "ah_log h = Some path" "sv_replay env path = Inl e"
    "map_of (ar_sessions r) i = Some h"
  shows "\<exists>r1. registry_attach env sid client r = ([], Inl e, r1) \<and> registry_get i r1 = Some (h\<lparr>ah_target := client\<rparr>)"
  using assms by (simp add: registry_attach_def Let_def get_update) (simp add: registry_get_def)

text \<open>A close that the store cannot note is refused: the session runs on, and the window has forgotten it.\<close>

lemma close_needs_store:
  assumes "owns client i s" "registry_get i (su_registry s) = Some h" "sv_get_fault env = Some e"
  shows "let_go env True client owned rid i s = ([], Inl e, owned, s)" "kc_sessions (client_forget i c) i = None"
  using assms by (simp_all add: let_go_def note_state_def set_runtime_state_def get_def connection_def client_forget_def)

text \<open>A start that the store cannot note is refused as well, with the session running and owned by a client
  that was never told its handle.\<close>

lemma refused_start_owns:
  assumes "note_state env sid ''attached'' True (s\<lparr>su_owners := (su_owners s)(i \<mapsto> client)\<rparr>) = (Inl e, s')"
  shows "start_reply env client owned rid sid i outs s = (outs, Inl e, List.insert i owned, s') \<and> owns client i s'"
  using assms note_stateD [OF assms] by (simp add: start_reply_def Let_def owns_def)

text \<open>A session whose thread has ended, as it does when its log cannot be written, stays in the registry: a
  start attaches to it again, and every prompt to it fails.\<close>

lemma dead_session_is_attached:
  assumes "find (\<lambda>(_, h). ah_session h = sid) (ar_sessions r) = Some (i, h)" "map_of (ar_sessions r) i = Some h"
    "\<not> ah_running h" "ah_log h = None"
  shows "\<exists>r1. registry_attach env sid client r = ([], Inr (Some i), r1) \<and>
    registry_prompt i t r1 = (Inl (''session '' @ i @ '' is no longer running''), r1)"
proof -
  let ?r1 = "update_handle i (\<lambda>h. h\<lparr>ah_target := client\<rparr>) r"
  have "registry_get i ?r1 = Some (h\<lparr>ah_target := client\<rparr>)" using assms(2) unfolding get_update by (simp add: registry_get_def)
  then show ?thesis using assms by (simp add: registry_attach_def Let_def registry_prompt_def)
qed

text \<open>Looking for a session and starting one are two steps: two windows that look first and start then run the
  same session twice, on one log.\<close>

lemma two_starts_two_sessions:
  assumes "sv_start env = ([], Inr ())" "registry_attach env sid a r = ([], Inr None, r)" "registry_attach env sid b r = ([], Inr None, r)"
  shows "\<exists>i j r1 r2 h k. registry_start env sid a r = ([], Inr i, r1) \<and> registry_start env sid b r1 = ([], Inr j, r2) \<and> i \<noteq> j \<and>
    (i, h) \<in> set (ar_sessions r2) \<and> (j, k) \<in> set (ar_sessions r2) \<and> ah_session h = sid \<and> ah_session k = sid \<and> ah_log h = ah_log k"
  using assms(1) by (simp add: registry_start_def Let_def) force

text \<open>Letting go of the sessions of a lost connection looks at the owner and removes it in two steps: an owner
  that takes over between them is removed.\<close>

lemma takeover_is_undone:
  assumes "owns old i s"
  shows "\<not> owns new i ((s\<lparr>su_owners := (su_owners s)(i \<mapsto> new)\<rparr>)\<lparr>su_owners := (su_owners (s\<lparr>su_owners := (su_owners s)(i \<mapsto> new)\<rparr>))(i := None)\<rparr>)"
  by (simp add: owns_def)

section \<open>The window's sessions\<close>

text \<open>A start that fails leaves a window's sessions as they were: whatever the reason, no handle is forgotten
  and none is left pending; one that succeeds leaves exactly one entry for the session, under the handle the
  supervisor gave.\<close>

theorem failed_start_changes_nothing:
  assumes "client_start_begin dir sid c = (previous, s, c1)"
    and "\<forall>x. kc_sessions c (pending_key sid) = Some x \<longrightarrow> cs_session x = sid"
    and "client_start_end sid previous s result (c1\<lparr>kc_mail := m, kc_waiting := wt, kc_alive := al\<rparr>) = (r, c2)"
  shows "(\<forall>e. r = Inl e \<longrightarrow> kc_sessions c2 = kc_sessions c) \<and>
    (\<forall>i. r = Inr i \<longrightarrow> kc_sessions c2 i = Some s \<and> cs_session s = sid \<and>
      (\<forall>k x. k \<noteq> i \<longrightarrow> kc_sessions c2 k = Some x \<longrightarrow> kc_sessions c k = Some x \<and> cs_session x \<noteq> sid))"
proof -
  have b: "previous = (\<lambda>k. case kc_sessions c k of Some x \<Rightarrow> if cs_session x = sid then Some x else None | None \<Rightarrow> None)"
    "cs_session s = sid" "kc_sessions c1 = (\<lambda>k. if previous k = None then kc_sessions c k else None)(pending_key sid \<mapsto> s)"
    using assms(1) by (auto simp: client_start_begin_def Let_def)
  let ?left = "(kc_sessions c1)(pending_key sid := None)"
  have left: "?left k = Some x \<Longrightarrow> kc_sessions c k = Some x \<and> cs_session x \<noteq> sid" for k x
    using b by (auto split: if_splits option.splits)
  have restored: "?left ++ previous = kc_sessions c"
  proof
    fix k
    show "(?left ++ previous) k = kc_sessions c k"
      using b assms(2) by (cases "kc_sessions c k") (auto simp: map_add_def split: if_splits)
  qed
  have e: "r = Inl e \<Longrightarrow> kc_sessions c2 = ?left ++ previous" for e
    using assms(3) by (auto simp: client_start_end_def Let_def split: sum.splits option.splits)
  have i: "r = Inr i \<Longrightarrow> kc_sessions c2 = ?left(i \<mapsto> s)" for i
    using assms(3) by (auto simp: client_start_end_def Let_def split: sum.splits option.splits)
  show ?thesis using e i restored left b(2) by (auto split: if_splits)
qed

lemma failed_start_changes_nothing_witness:
  "kc_sessions (snd (client_start_end ''a'' (fst (client_start_begin None ''a'' (agent_client_new\<lparr>kc_sessions := [''agent-1'' \<mapsto> \<lparr>cs_session = ''a'', cs_log = None\<rparr>]\<rparr>)))
     \<lparr>cs_session = ''a'', cs_log = None\<rparr> (Inl ''no'')
     ((snd (snd (client_start_begin None ''a'' (agent_client_new\<lparr>kc_sessions := [''agent-1'' \<mapsto> \<lparr>cs_session = ''a'', cs_log = None\<rparr>]\<rparr>))))
       \<lparr>kc_mail := Map.empty, kc_waiting := {}, kc_alive := False\<rparr>)))
   = [''agent-1'' \<mapsto> \<lparr>cs_session = ''a'', cs_log = None\<rparr>]"
proof -
  let ?c = "agent_client_new\<lparr>kc_sessions := [''agent-1'' \<mapsto> \<lparr>cs_session = ''a'', cs_log = None\<rparr>]\<rparr>"
  obtain previous s c1 where b: "client_start_begin None ''a'' ?c = (previous, s, c1)" by (cases "client_start_begin None ''a'' ?c") auto
  then have s: "s = \<lparr>cs_session = ''a'', cs_log = None\<rparr>" by (auto simp: client_start_begin_def Let_def)
  obtain r c2 where e: "client_start_end ''a'' previous s (Inl ''no'') (c1\<lparr>kc_mail := Map.empty, kc_waiting := {}, kc_alive := False\<rparr>) = (r, c2)"
    by fastforce
  then have "r = Inl ''no''" by (auto simp: client_start_end_def Let_def)
  with failed_start_changes_nothing [OF b _ e] b s e show ?thesis by (simp add: pending_key_def)
qed

text \<open>A request is over when the connection is: whoever waits gets an answer, and nobody waits afterwards.\<close>

lemma closed_connection_answers_all:
  assumes "i \<in> kc_waiting c"
  shows "fst (client_wait i (client_closed c)) = Inl ''Agent Supervisor connection closed''" "kc_waiting (client_closed c) = {}"
  using assms by (simp_all add: client_wait_def client_closed_def reply_error_def)

text \<open>An event whose frame is too large is dropped: nothing is sent, and nobody is told.\<close>

lemma large_event_is_dropped:
  assumes "IPC_MAX_FRAME_BODY < IPC_FIXED_BODY + length json"
  shows "ipc_send out \<lparr>if_kind = IEvent, if_payload = json\<rparr> = Inl (IpcProtocol (IpcTooLarge (IPC_FIXED_BODY + length json)))"
  using assms by (simp add: ipc_send_def ipc_encode_def Let_def)

end
