(* ===== verification/Spec2Isabelle.thy ===== *)
theory Spec2Isabelle
  imports Term_Protocol Term_Replay Agent_Cache Agent_Log Remote_Wire Remote_Sources Term_Helper Term_Client
    Tools_Read Tools_Bash Tools_Search App_Config Files_Archive Files_Search Scripts_Trust Agent_Ipc Codex_Provider Agent_Memory Agent_Supervisor
begin

text \<open>
  Tabverse is a workbench of tabs: terminals, files, web pages and coding agents. This
  development models the parts of its Rust code that decide something: what is sent, shown,
  stored, run or refused. The sources are under \<open>src/crates\<close> and \<open>src/src-tauri\<close>.

  The parts and the theories that model them.

  \<^bold>\<open>Foundations.\<close> \<open>Tab_Prelude\<close> has bytes, big-endian integers and the result type (a sum, \<open>Inl\<close> the
  error; \<open>outcome\<close> where an expression can panic); \<open>Rust_Str\<close> the \<open>str\<close> methods of the standard
  library over UTF-8 byte strings; \<open>Tab_Json\<close> JSON values; \<open>Framing\<close> the contract of a reader of
  length-prefixed frames, a locale that the two wire formats interpret.

  \<^bold>\<open>Terminals\<close> (\<open>crates/tabverse-term\<close>). A helper process owns the shells and outlives the windows.
  \<open>Term_Protocol\<close> (\<open>protocol.rs\<close>): frames, incremental decoder, handshake, generations. \<open>Term_Replay\<close>
  (\<open>replay.rs\<close>): the ring of recent output. \<open>Term_Sessions\<close> (\<open>lib.rs\<close>, \<open>shell_integration.rs\<close>): starting
  shells. \<open>Term_Backend\<close> (\<open>backend.rs\<close>): the runtime with its sessions, records and sinks;
  \<open>Term_Lifecycle\<close> proves its invariant over every sequence of operations and callbacks.
  \<open>Term_Transport\<close> (\<open>transport.rs\<close>): framed streams and both sides of the authentication. \<open>Term_Helper\<close>
  (\<open>helper.rs\<close>): dispatching requests, and the two threads of a new terminal's first output as a step
  relation. \<open>Term_Client\<close> (\<open>client.rs\<close>): one request at a time over a shared reader.

  \<^bold>\<open>The runtime store\<close> (\<open>crates/tabverse-runtime/src/lib.rs\<close>) in \<open>Runtime_Store\<close>: every SQL statement
  as a list operation, a refinement to maps with one owner, and the locale \<open>record_store\<close> the
  terminal backend relies on.

  \<^bold>\<open>The agent\<close> (\<open>crates/tabverse-agent\<close>). \<open>Agent_Types\<close> (\<open>provider.rs\<close>, \<open>event.rs\<close>): messages, tools,
  events. \<open>Agent_Permission\<close>, \<open>Agent_Branch\<close>, \<open>Agent_Compact\<close>, \<open>Agent_Session\<close> (\<open>session.rs\<close>),
  \<open>Agent_Cache\<close> and \<open>Agent_Log\<close> follow the files of those names: the turn loop with its gate, folding of
  long results, compaction, the prefix-cache probe and the transcript on disk. A model, a person or a
  tool is a function of a world of any type.

  \<^bold>\<open>The agent's tools\<close> (\<open>crates/tabverse-agent-tools\<close>). \<open>Tools_Truncate\<close>, \<open>Tools_Edit\<close> (\<open>edit_diff.rs\<close>),
  \<open>Tools_Files\<close> (\<open>env.rs\<close>, \<open>path.rs\<close>, the write and edit tools; the locale \<open>file_env\<close> is the
  environment's contract, interpreted on the local disk), \<open>Tools_Read\<close>, \<open>Tools_Bash\<close>, \<open>Tools_Search\<close>
  (glob and grep).

  \<^bold>\<open>Sharing\<close> (\<open>crates/tabverse-proto\<close>, \<open>crates/tabverse-remote\<close>). \<open>Remote_Proto\<close>: messages, levels,
  versions. \<open>Remote_Wire\<close>: the framing. \<open>Remote_Share\<close>: one share, its viewers and their frames.
  \<open>Remote_Hub\<close>: the hub, the door and the operations of the owner. \<open>Remote_Sources\<close>: the tab behind a
  share, and the properties of every reachable hub, by the invariants of \<open>Remote_Invariant\<close>.

  \<^bold>\<open>What the lemmas show.\<close> Round trips (a decoder returns what an encoder wrote, however the reads are
  cut), refinement of a map specification, invariants over all operation sequences, exact
  descriptions of results on every branch, and what goes wrong where the code does not keep a
  promise. Every property stands after a text that names it; where it has hypotheses, a
  witness applies it to a concrete input.

  \<^bold>\<open>Bounds and fuel.\<close> Loops are structural recursion or recursion with a measure; nothing runs on
  fuel. Loops that wait for the outside run over the list of what they will see, and return
  none when it ends first (\<open>poll_loop\<close>). Generations, tokens and lengths on the wire are
  words of their width; \<open>usize\<close> sums that can overflow are tested against \<open>2^64\<close>.

  \<^bold>\<open>Not modelled.\<close> Sockets, threads and processes themselves, except where their interleaving decides
  something; SQLite, regular expressions, globs, tree walks, Unicode normal forms, TOML and JSON text
  (parameters, named where they occur); the windows, menus and web views; the TypeScript interface;
  platform glue for the file manager, clipboard and default applications; the encodings of
  certificates, fonts and archives in the file inspector, which are other crates' work; the Codex
  provider's HTTP and websocket traffic.
\<close>

end
